(* ===== verification/Prelude.thy ===== *)
theory Prelude
  imports Main "HOL-Library.Word" "HOL-Library.Monad_Syntax"
begin

text \<open>
  Shared vocabulary of the development: bytes, memory cells, the machine integers of the C++
  sources written as naturals with their wrap-around, and the memory primitives (\<open>memcpy\<close>,
  \<open>memset\<close>, array reads) as partial functions. A result \<^term>\<open>None\<close> of a modelled
  operation always means undefined behaviour of the C++ (an access outside an allocated block, a
  read of an indeterminate byte, a dereference of a null pointer).
\<close>

named_theorems wrap_simps \<open>wrap-around functions on values in range\<close>
named_theorems mem_simps \<open>memory primitives\<close>

section \<open>Machine integers\<close>

type_synonym byte = "8 word"

definition u16 :: "nat \<Rightarrow> nat" where
  "u16 n = n mod 2 ^ 16"

definition u32 :: "nat \<Rightarrow> nat" where
  "u32 n = n mod 2 ^ 32"

definition u64 :: "nat \<Rightarrow> nat" where
  "u64 n = n mod 2 ^ 64"

definition sub64 :: "nat \<Rightarrow> nat \<Rightarrow> nat" where
  "sub64 a b = u64 (a + 2 ^ 64 - b)"

definition sub32 :: "nat \<Rightarrow> nat \<Rightarrow> nat" where
  "sub32 a b = u32 (a + 2 ^ 32 - b)"

definition i32 :: "int \<Rightarrow> int" where
  "i32 x = (x + 2 ^ 31) mod 2 ^ 32 - 2 ^ 31"

text \<open>Division and remainder of C truncate towards zero.\<close>

definition c_div :: "int \<Rightarrow> int \<Rightarrow> int" where
  "c_div a b = (if a < 0 then - ((- a) div b) else a div b)"

definition c_mod :: "int \<Rightarrow> int \<Rightarrow> int" where
  "c_mod a b = a - b * c_div a b"

lemma u16_small [wrap_simps]: "n < 2 ^ 16 \<Longrightarrow> u16 n = n"
  by (simp add: u16_def)

lemma u32_small [wrap_simps]: "n < 2 ^ 32 \<Longrightarrow> u32 n = n"
  by (simp add: u32_def)

lemma u64_small [wrap_simps]: "n < 2 ^ 64 \<Longrightarrow> u64 n = n"
  by (simp add: u64_def)

lemma sub64_le [wrap_simps]: "b \<le> a \<Longrightarrow> a < 2 ^ 64 \<Longrightarrow> sub64 a b = a - b"
  by (simp add: sub64_def u64_def mod_if)

lemma sub32_le [wrap_simps]: "b \<le> a \<Longrightarrow> a < 2 ^ 32 \<Longrightarrow> sub32 a b = a - b"
  by (simp add: sub32_def u32_def mod_if)

lemma u32_less [simp]: "u32 n < 2 ^ 32"
  by (simp add: u32_def)

lemma u64_less [simp]: "u64 n < 2 ^ 64"
  by (simp add: u64_def)

lemma u32_le: "u32 n \<le> n"
  by (simp add: u32_def)

lemma u64_le: "u64 n \<le> n"
  by (simp add: u64_def)

lemma i32_small [wrap_simps]: "- (2 ^ 31) \<le> x \<Longrightarrow> x < 2 ^ 31 \<Longrightarrow> i32 x = x"
  by (simp add: i32_def)

lemma c_div_nonneg [simp]: "0 \<le> a \<Longrightarrow> c_div a b = a div b"
  by (simp add: c_div_def)

lemma c_mod_nonneg [simp]: "0 \<le> a \<Longrightarrow> c_mod a b = a mod b"
  by (simp add: c_mod_def minus_mult_div_eq_mod)

section \<open>Memory blocks\<close>

text \<open>
  A byte of an allocated block is a \<^emph>\<open>cell\<close>: \<^term>\<open>None\<close> until it is first written, since
  \<open>new uint8_t[n]\<close> leaves the block indeterminate.
\<close>

type_synonym cell = "byte option"

definition mem_read :: "'a list \<Rightarrow> nat \<Rightarrow> nat \<Rightarrow> 'a list option" where
  "mem_read m off n = (if off + n \<le> length m then Some (take n (drop off m)) else None)"

definition mem_write :: "'a list \<Rightarrow> nat \<Rightarrow> 'a list \<Rightarrow> 'a list option" where
  "mem_write m off xs =
     (if off + length xs \<le> length m
      then Some (take off m @ xs @ drop (off + length xs) m) else None)"

text \<open>\<open>memcpy\<close> inside one block: the two regions must not overlap.\<close>

definition mem_cpy_within :: "'a list \<Rightarrow> nat \<Rightarrow> nat \<Rightarrow> nat \<Rightarrow> 'a list option" where
  "mem_cpy_within m dst src n =
     (if n = 0 \<or> dst + n \<le> src \<or> src + n \<le> dst
      then do { xs \<leftarrow> mem_read m src n; mem_write m dst xs } else None)"

text \<open>The values of cells, if all of them have been written.\<close>

fun cells_bytes :: "cell list \<Rightarrow> byte list option" where
  "cells_bytes [] = Some []"
| "cells_bytes (None # cs) = None"
| "cells_bytes (Some b # cs) = map_option (Cons b) (cells_bytes cs)"

lemma cells_bytes_map_Some [simp]: "cells_bytes (map Some bs) = Some bs"
  by (induction bs) auto

lemma cells_bytes_SomeD: "cells_bytes cs = Some bs \<Longrightarrow> cs = map Some bs"
  by (induction cs arbitrary: bs rule: cells_bytes.induct) auto

lemma cells_bytes_iff: "cells_bytes cs = Some bs \<longleftrightarrow> cs = map Some bs"
  by (auto dest: cells_bytes_SomeD)

lemma mem_read_Some [mem_simps]:
  "off + n \<le> length m \<Longrightarrow> mem_read m off n = Some (take n (drop off m))"
  by (simp add: mem_read_def)

lemma mem_write_Some [mem_simps]:
  "off + length xs \<le> length m \<Longrightarrow>
     mem_write m off xs = Some (take off m @ xs @ drop (off + length xs) m)"
  by (simp add: mem_write_def)

lemma mem_write_length: "mem_write m off xs = Some m' \<Longrightarrow> length m' = length m"
  by (auto simp: mem_write_def split: if_splits)

lemma mem_write_read_same:
  "mem_write m off xs = Some m' \<Longrightarrow> mem_read m' off (length xs) = Some xs"
  by (auto simp: mem_write_def mem_read_def split: if_splits)

text \<open>A region that ends where the written one starts keeps its contents and is extended by it.\<close>

lemma mem_write_extend:
  "mem_write m off xs = Some m' \<Longrightarrow> a \<le> off \<Longrightarrow>
     take (off + length xs - a) (drop a m') = take (off - a) (drop a m) @ xs"
  by (auto simp: mem_write_def drop_take[symmetric] take_add drop_append split: if_splits)

section \<open>System calls and their errors\<close>

text \<open>
  A system call that moves bytes returns the bytes it moved (\<^term>\<open>None\<close> stands for the return
  value \<open>-1\<close>) and leaves a value in \<open>errno\<close>.
\<close>

record sysread =
  sr_data :: "byte list option"
  sr_errno :: nat

definition EINTR :: nat where "EINTR = 4"
definition EAGAIN :: nat where "EAGAIN = 11"
definition ETIME :: nat where "ETIME = 62"
definition ETIMEDOUT :: nat where "ETIMEDOUT = 110"
definition EINPROGRESS :: nat where "EINPROGRESS = 115"

lemmas errno_defs = EINTR_def EAGAIN_def ETIME_def ETIMEDOUT_def EINPROGRESS_def

definition sr_amount :: "sysread \<Rightarrow> int" where
  "sr_amount r = (case sr_data r of None \<Rightarrow> -1 | Some bs \<Rightarrow> int (length bs))"

record syswrite =
  sw_sent :: int
  sw_errno :: nat

section \<open>Characters and bytes\<close>

definition byte_of :: "char \<Rightarrow> byte" where
  "byte_of c = word_of_nat (of_char c)"

definition chr_of :: "byte \<Rightarrow> char" where
  "chr_of b = char_of (unat b)"

lemma chr_of_byte_of [simp]: "chr_of (byte_of c) = c"
  by (simp add: byte_of_def chr_of_def unat_of_nat take_bit_eq_mod)

lemma byte_of_chr_of [simp]: "byte_of (chr_of b) = b"
  using unsigned_less [of b, where 'a = nat] by (simp add: byte_of_def chr_of_def)

lemma map_chr_of_byte_of [simp]: "map chr_of (map byte_of s) = s"
  by (simp add: comp_def)

section \<open>Option monad\<close>

lemma bind_SomeE:
  assumes "Option.bind m f = Some y"
  obtains x where "m = Some x" and "f x = Some y"
  using assms by (cases m) auto

lemmas bind_splits = Option.bind_split Option.bind_split_asm

section \<open>Sequences of operations and their refinement\<close>

text \<open>
  Operations on a state return a result and the next state; a specification uses \<^term>\<open>None\<close> for an
  operation that may not be called.
\<close>

fun run_ops :: "('o \<Rightarrow> 's \<Rightarrow> ('r \<times> 's) option) \<Rightarrow> 'o list \<Rightarrow> 's \<Rightarrow> ('r list \<times> 's) option" where
  "run_ops st [] s = Some ([], s)"
| "run_ops st (e # es) s =
     do { (r, s1) \<leftarrow> st e s; (rs, s2) \<leftarrow> run_ops st es s1; Some (r # rs, s2) }"

lemma run_ops_ConsE:
  assumes "run_ops st (e # es) s = Some (rs, s')"
  obtains r s1 rs' where "st e s = Some (r, s1)" and "run_ops st es s1 = Some (rs', s')" and "rs = r # rs'"
  using assms by (auto elim!: bind_SomeE)

text \<open>
  A component implements its specification when every call the specification allows returns the
  specified result and keeps the two states related.
\<close>

locale simulation =
  fixes related :: "'c \<Rightarrow> 'a \<Rightarrow> bool"
    and conc :: "'o \<Rightarrow> 'c \<Rightarrow> ('r \<times> 'c) option"
    and abst :: "'o \<Rightarrow> 'a \<Rightarrow> ('r \<times> 'a) option"
  assumes step: "related c a \<Longrightarrow> abst e a = Some (r, a') \<Longrightarrow> \<exists>c'. conc e c = Some (r, c') \<and> related c' a'"
begin

lemma run:
  "related c a \<Longrightarrow> run_ops abst es a = Some (rs, a') \<Longrightarrow> \<exists>c'. run_ops conc es c = Some (rs, c') \<and> related c' a'"
proof (induction es arbitrary: c a rs)
  case (Cons e es)
  from Cons.prems(2) obtain r a1 rs' where a1: "abst e a = Some (r, a1)" "run_ops abst es a1 = Some (rs', a')" "rs = r # rs'"
    by (rule run_ops_ConsE)
  obtain c1 where c1: "conc e c = Some (r, c1)" "related c1 a1"
    using step [OF Cons.prems(1) a1(1)] by blast
  then show ?case
    using Cons.IH [OF c1(2) a1(2)] a1(3) by auto
qed auto

end

end
