(* ===== verification/CFormat.thy ===== *)
theory CFormat
  imports Prelude
begin

text \<open>
  The conversions of the C formatting functions that the sources use: \<open>%d\<close>, \<open>%u\<close>, \<open>%08u\<close>, \<open>%02hhx\<close>,
  \<open>%s\<close> and their stream counterparts, as functions into character lists.
\<close>

definition digit_chr :: "nat \<Rightarrow> char" where
  "digit_chr n = ''0123456789abcdef'' ! n"

fun dec_digits :: "nat \<Rightarrow> string" where
  "dec_digits n = (if n < 10 then [digit_chr n] else dec_digits (n div 10) @ [digit_chr (n mod 10)])"

declare dec_digits.simps [simp del]

definition dec_int :: "int \<Rightarrow> string" where
  "dec_int x = (if x < 0 then CHR ''-'' # dec_digits (nat (- x)) else dec_digits (nat x))"

definition pad_left :: "char \<Rightarrow> nat \<Rightarrow> string \<Rightarrow> string" where
  "pad_left c n s = replicate (n - length s) c @ s"

definition hex2 :: "byte \<Rightarrow> string" where
  "hex2 b = [digit_chr (unat b div 16), digit_chr (unat b mod 16)]"

text \<open>The value that a decimal text denotes, for the round trip.\<close>

definition digit_val :: "char \<Rightarrow> nat option" where
  "digit_val c = (let n = of_char c :: nat in if 48 \<le> n \<and> n \<le> 57 then Some (n - 48) else None)"

fun dec_value :: "string \<Rightarrow> nat \<Rightarrow> nat option" where
  "dec_value [] acc = Some acc"
| "dec_value (c # cs) acc =
     (case digit_val c of None \<Rightarrow> None | Some d \<Rightarrow> dec_value cs (10 * acc + d))"

lemma digit_val_chr [simp]:
  assumes "n < 10"
  shows "digit_val (digit_chr n) = Some n"
proof -
  have "\<forall>n\<in>set [0..<10]. digit_val (digit_chr n) = Some n"
    by code_simp
  then show ?thesis
    using assms by simp
qed

lemma dec_value_append:
  "dec_value (xs @ ys) acc = Option.bind (dec_value xs acc) (dec_value ys)"
  by (induction xs acc rule: dec_value.induct) (auto split: option.splits)

lemma dec_digits_not_Nil [simp]: "dec_digits n \<noteq> []"
  by (subst dec_digits.simps) simp

lemma dec_value_dec_digits: "dec_value (dec_digits n) 0 = Some n"
proof (induction n rule: dec_digits.induct)
  case (1 n)
  then show ?case
    by (subst dec_digits.simps) (simp add: dec_value_append)
qed

lemma dec_digits_inject [simp]: "dec_digits m = dec_digits n \<longleftrightarrow> m = n"
  by (metis dec_value_dec_digits option.inject)

lemma dec_digits_set: "c \<in> set (dec_digits n) \<Longrightarrow> \<exists>d. digit_val c = Some d \<and> d < 10"
proof (induction n rule: dec_digits.induct)
  case (1 n)
  from "1.prems" show ?case
    by (subst (asm) dec_digits.simps) (auto split: if_splits dest: "1.IH")
qed

lemma dec_digits_not: "digit_val c = None \<Longrightarrow> c \<notin> set (dec_digits n)"
  using dec_digits_set [of c n] by auto

lemma hex2_length [simp]: "length (hex2 b) = 2"
  by (simp add: hex2_def)

lemma pad_left_length: "length (pad_left c n s) = max n (length s)"
  by (simp add: pad_left_def)

text \<open>\<open>%X\<close>, and the value of such a text.\<close>

definition xdigit_chr :: "nat \<Rightarrow> char" where
  "xdigit_chr n = ''0123456789ABCDEF'' ! n"

fun hex_upper :: "nat \<Rightarrow> string" where
  "hex_upper n = (if n < 16 then [xdigit_chr n] else hex_upper (n div 16) @ [xdigit_chr (n mod 16)])"

declare hex_upper.simps [simp del]

definition xdigit_val :: "char \<Rightarrow> nat option" where
  "xdigit_val c = (let n = of_char c :: nat in
     if 48 \<le> n \<and> n \<le> 57 then Some (n - 48) else if 65 \<le> n \<and> n \<le> 70 then Some (n - 55) else None)"

fun hex_value :: "string \<Rightarrow> nat \<Rightarrow> nat option" where
  "hex_value [] acc = Some acc"
| "hex_value (c # cs) acc =
     (case xdigit_val c of None \<Rightarrow> None | Some d \<Rightarrow> hex_value cs (16 * acc + d))"

lemma xdigit_val_chr [simp]:
  assumes "n < 16"
  shows "xdigit_val (xdigit_chr n) = Some n"
proof -
  have "\<forall>n\<in>set [0..<16]. xdigit_val (xdigit_chr n) = Some n"
    by code_simp
  then show ?thesis
    using assms by simp
qed

lemma hex_value_append:
  "hex_value (xs @ ys) acc = Option.bind (hex_value xs acc) (hex_value ys)"
  by (induction xs acc rule: hex_value.induct) (auto split: option.splits)

lemma hex_value_hex_upper: "hex_value (hex_upper n) 0 = Some n"
proof (induction n rule: hex_upper.induct)
  case (1 n)
  then show ?case
    by (subst hex_upper.simps) (simp add: hex_value_append)
qed

lemma hex_upper_set: "c \<in> set (hex_upper n) \<Longrightarrow> xdigit_val c \<noteq> None"
proof (induction n rule: hex_upper.induct)
  case (1 n)
  from "1.prems" show ?case
    by (subst (asm) hex_upper.simps) (auto split: if_splits dest: "1.IH")
qed

end
