(* ===== verification/IOBuffer.thy ===== *)
theory IOBuffer
  imports CFormat
begin

text \<open>
  The input/output buffer of \<open>buffering/iobuffer.h\<close> and \<open>buffering/iobuffer.cpp\<close>. The record holds
  the members of the class; \<open>buffer_\<close> is the allocated block (\<^term>\<open>None\<close> for \<open>NULL\<close>), the offsets are
  the 64-bit members. The unread bytes are those in the half-open range
  from \<open>consumed_\<close> to \<open>published_\<close>. System calls and stream reads are arguments: a function
  from the number of bytes asked for to what the call did.
\<close>

section \<open>State\<close>

record iobuf =
  ib_buffer :: "cell list option"
  ib_size :: nat
  ib_published :: nat
  ib_consumed :: nat
  ib_min_chunk :: nat
  ib_dummy :: nat

definition ib_new :: iobuf where
  "ib_new = \<lparr>ib_buffer = None, ib_size = 0, ib_published = 0, ib_consumed = 0,
     ib_min_chunk = 4096, ib_dummy = 16\<rparr>"

definition ib_block :: "iobuf \<Rightarrow> cell list" where
  "ib_block b = (case ib_buffer b of None \<Rightarrow> [] | Some m \<Rightarrow> m)"

definition ib_set_block :: "cell list \<Rightarrow> iobuf \<Rightarrow> iobuf" where
  "ib_set_block m b = b\<lparr>ib_buffer := map_option (\<lambda>_. m) (ib_buffer b)\<rparr>"

text \<open>The macros \<open>GETAVAILABLEBYTESCOUNT\<close> and \<open>GETIBPOINTER\<close>.\<close>

definition ib_avail :: "iobuf \<Rightarrow> nat" where
  "ib_avail b = sub64 (ib_published b) (ib_consumed b)"

definition ib_pointer :: "iobuf \<Rightarrow> cell list" where
  "ib_pointer b = drop (ib_consumed b) (ib_block b)"

section \<open>Memory management\<close>

definition ib_MoveData :: "iobuf \<Rightarrow> (bool \<times> iobuf) option" where
  "ib_MoveData b =
     (if ib_avail b \<le> ib_consumed b
      then do {
        m \<leftarrow> mem_cpy_within (ib_block b) 0 (ib_consumed b) (ib_avail b);
        Some (True, (ib_set_block m b)\<lparr>ib_published := ib_avail b, ib_consumed := 0\<rparr>)
      }
      else Some (True, b))"

definition ib_grow :: "iobuf \<Rightarrow> nat \<Rightarrow> nat" where
  "ib_grow b expected =
     (let e = (if sub64 (u64 (ib_published b + expected)) (ib_size b) < ib_size b div 3
               then u32 (sub64 (ib_size b + ib_size b div 3) (ib_published b)) else expected)
      in if e < ib_min_chunk b then u32 (ib_min_chunk b) else e)"

definition ib_EnsureSize :: "iobuf \<Rightarrow> nat \<Rightarrow> (bool \<times> iobuf) option" where
  "ib_EnsureSize b expected =
     (if u64 (ib_published b + expected) \<le> ib_size b then Some (True, b)
      else do {
        (_, b) \<leftarrow> ib_MoveData b;
        (if u64 (ib_published b + expected) \<le> ib_size b then Some (True, b)
         else do {
           let n = u64 (ib_published b + ib_grow b expected);
           let fresh = replicate n (None :: cell);
           m \<leftarrow> (case ib_buffer b of
                  None \<Rightarrow> Some fresh
                | Some old \<Rightarrow> do { xs \<leftarrow> mem_read old 0 (ib_published b); mem_write fresh 0 xs });
           Some (True, b\<lparr>ib_buffer := Some m, ib_size := n\<rparr>)
         })
      })"

definition ib_Recycle :: "iobuf \<Rightarrow> iobuf" where
  "ib_Recycle b =
     (if ib_consumed b \<noteq> ib_published b then b else b\<lparr>ib_consumed := 0, ib_published := 0\<rparr>)"

definition ib_Cleanup :: "iobuf \<Rightarrow> iobuf" where
  "ib_Cleanup b = b\<lparr>ib_buffer := None, ib_size := 0, ib_published := 0, ib_consumed := 0\<rparr>"

definition ib_Ignore :: "iobuf \<Rightarrow> nat \<Rightarrow> bool \<times> iobuf" where
  "ib_Ignore b n = (True, ib_Recycle (b\<lparr>ib_consumed := u64 (ib_consumed b + n)\<rparr>))"

definition ib_IgnoreAll :: "iobuf \<Rightarrow> bool \<times> iobuf" where
  "ib_IgnoreAll b = (True, ib_Recycle (b\<lparr>ib_consumed := ib_published b\<rparr>))"

text \<open>\<open>SetMinChunkSize\<close> asserts its range: \<^term>\<open>None\<close> is the failed assertion.\<close>

definition ib_SetMinChunkSize :: "iobuf \<Rightarrow> nat \<Rightarrow> iobuf option" where
  "ib_SetMinChunkSize b n =
     (if 0 < n \<and> n < 16 * 1024 * 1024 then Some (b\<lparr>ib_min_chunk := n\<rparr>) else None)"

definition ib_GetMinChunkSize :: "iobuf \<Rightarrow> nat" where
  "ib_GetMinChunkSize b = u32 (ib_min_chunk b)"

definition ib_GetCurrentWritePosition :: "iobuf \<Rightarrow> nat" where
  "ib_GetCurrentWritePosition b = u32 (ib_published b)"

definition ib_GetPointer :: "iobuf \<Rightarrow> cell list option" where
  "ib_GetPointer b = ib_buffer b"

text \<open>\<open>Initialize\<close> aborts (\<^term>\<open>None\<close>) on a buffer that has been used.\<close>

definition ib_Initialize :: "iobuf \<Rightarrow> nat \<Rightarrow> iobuf option" where
  "ib_Initialize b expected =
     (if ib_buffer b \<noteq> None \<or> ib_size b \<noteq> 0 \<or> ib_published b \<noteq> 0 \<or> ib_consumed b \<noteq> 0
      then None else map_option snd (ib_EnsureSize b expected))"

section \<open>Reading into the buffer\<close>

text \<open>The bytes a call delivered go to \<open>buffer_ + published_\<close>; the count is the signed 32-bit result.\<close>

definition ib_deliver :: "iobuf \<Rightarrow> sysread \<Rightarrow> (int \<times> iobuf) option" where
  "ib_deliver b r = do {
     m \<leftarrow> mem_write (ib_block b) (ib_published b)
            (case sr_data r of None \<Rightarrow> [] | Some bs \<Rightarrow> map Some bs);
     let amount = i32 (sr_amount r);
     let b = ib_set_block m b;
     Some (amount, if amount > 0
                   then b\<lparr>ib_published := u64 (ib_published b + nat amount)\<rparr> else b)
   }"

text \<open>The guard before a read.\<close>

definition ib_reserve :: "iobuf \<Rightarrow> nat \<Rightarrow> (bool \<times> iobuf) option" where
  "ib_reserve b expected =
     (if u64 (ib_published b + expected) > ib_size b then ib_EnsureSize b expected
      else Some (True, b))"

definition ib_ReadFromFd ::
  "(nat \<Rightarrow> sysread) \<Rightarrow> iobuf \<Rightarrow> nat \<Rightarrow> int \<Rightarrow> (bool \<times> int \<times> iobuf) option" where
  "ib_ReadFromFd rd b expected recv_amount = do {
     (ok, b) \<leftarrow> ib_reserve b expected;
     (if \<not> ok then Some (False, recv_amount, b)
      else do {
        let r = rd expected;
        (amount, b) \<leftarrow> ib_deliver b r;
        Some (if amount > 0 then True else sr_errno r = EINPROGRESS, amount, b)
      })
   }"

definition ib_ReadFromTCPFd ::
  "(nat \<Rightarrow> sysread) \<Rightarrow> iobuf \<Rightarrow> nat \<Rightarrow> (bool \<times> int \<times> iobuf) option" where
  "ib_ReadFromTCPFd rcv b expected = do {
     (ok, b) \<leftarrow> ib_reserve b expected;
     (if \<not> ok then Some (False, -1, b)
      else do {
        (amount, b) \<leftarrow> ib_deliver b (rcv expected);
        Some (amount > 0, amount, b)
      })
   }"

text \<open>\<open>RecvMsg\<close> of the pool worker is an argument here; its model is in the theory of the pool.\<close>

definition ib_ReadFromTCPPoolSocket ::
  "(nat \<Rightarrow> nat \<Rightarrow> sysread) \<Rightarrow> iobuf \<Rightarrow> nat \<Rightarrow> nat \<Rightarrow> (bool \<times> int \<times> iobuf) option" where
  "ib_ReadFromTCPPoolSocket recvmsg b expected timeout = do {
     (ok, b) \<leftarrow> ib_reserve b expected;
     (if \<not> ok then Some (False, -1, b)
      else do {
        (amount, b) \<leftarrow> ib_deliver b (recvmsg expected timeout);
        Some (amount > 0, amount, b)
      })
   }"

definition ib_ReadFromUDPFd ::
  "(nat \<Rightarrow> nat \<Rightarrow> sysread \<times> 'addr \<times> nat) \<Rightarrow> iobuf \<Rightarrow> (bool \<times> int \<times> 'addr option \<times> iobuf) option"
where
  "ib_ReadFromUDPFd rcvfrom b = do {
     (ok, b) \<leftarrow> ib_reserve b 65536;
     (if \<not> ok then Some (False, -1, None, b)
      else do {
        let (r, peer, dummy) = rcvfrom 65536 (ib_dummy b);
        (amount, b) \<leftarrow> ib_deliver (b\<lparr>ib_dummy := dummy\<rparr>) r;
        Some (amount > 0, amount, Some peer, b)
      })
   }"

text \<open>
  Reads from a stream: the stream operation is an argument that stores some bytes and reports
  whether it failed; \<open>published_\<close> moves by the whole size on success.
\<close>

definition ib_read_stream ::
  "(nat \<Rightarrow> byte list \<times> bool) \<Rightarrow> iobuf \<Rightarrow> nat \<Rightarrow> (bool \<times> iobuf) option" where
  "ib_read_stream rd b n = do {
     (ok, b) \<leftarrow> ib_reserve b n;
     (if \<not> ok then Some (False, b)
      else do {
        let (bs, good) = rd n;
        m \<leftarrow> mem_write (ib_block b) (ib_published b) (map Some bs);
        let b = ib_set_block m b;
        Some (good, if good then b\<lparr>ib_published := u64 (ib_published b + n)\<rparr> else b)
      })
   }"

definition ib_ReadFromFs_file ::
  "(nat \<Rightarrow> byte list \<times> bool) \<Rightarrow> iobuf \<Rightarrow> nat \<Rightarrow> (bool \<times> iobuf) option" where
  "ib_ReadFromFs_file rd b n = (if n = 0 then Some (True, b) else ib_read_stream rd b n)"

definition ib_ReadFromBuffer :: "iobuf \<Rightarrow> cell list \<Rightarrow> nat \<Rightarrow> (bool \<times> iobuf) option" where
  "ib_ReadFromBuffer b src n = do {
     (ok, b) \<leftarrow> ib_EnsureSize b n;
     (if \<not> ok then Some (False, b)
      else do {
        xs \<leftarrow> mem_read src 0 n;
        m \<leftarrow> mem_write (ib_block b) (ib_published b) xs;
        Some (True, (ib_set_block m b)\<lparr>ib_published := u64 (ib_published b + n)\<rparr>)
      })
   }"

definition ib_ReadFromInputBuffer_at :: "iobuf \<Rightarrow> iobuf \<Rightarrow> nat \<Rightarrow> nat \<Rightarrow> iobuf option" where
  "ib_ReadFromInputBuffer_at b src start n =
     map_option snd (ib_ReadFromBuffer b (drop start (ib_pointer src)) n)"

definition ib_ReadFromInputBuffer :: "iobuf \<Rightarrow> iobuf \<Rightarrow> nat \<Rightarrow> (bool \<times> iobuf) option" where
  "ib_ReadFromInputBuffer b src n = ib_ReadFromBuffer b (ib_pointer src) n"

definition ib_ReadFromString :: "iobuf \<Rightarrow> string \<Rightarrow> (bool \<times> iobuf) option" where
  "ib_ReadFromString b s =
     ib_ReadFromBuffer b (map (Some \<circ> byte_of) s) (u32 (length s))"

definition ib_ReadFromByte :: "iobuf \<Rightarrow> byte \<Rightarrow> iobuf option" where
  "ib_ReadFromByte b x = do {
     (_, b) \<leftarrow> ib_EnsureSize b 1;
     m \<leftarrow> mem_write (ib_block b) (ib_published b) [Some x];
     Some ((ib_set_block m b)\<lparr>ib_published := u64 (ib_published b + 1)\<rparr>)
   }"

definition ib_ReadFromRepeat :: "iobuf \<Rightarrow> byte \<Rightarrow> nat \<Rightarrow> iobuf option" where
  "ib_ReadFromRepeat b x n = do {
     (_, b) \<leftarrow> ib_EnsureSize b n;
     m \<leftarrow> mem_write (ib_block b) (ib_published b) (replicate n (Some x));
     Some ((ib_set_block m b)\<lparr>ib_published := u64 (ib_published b + n)\<rparr>)
   }"

section \<open>Writing out of the buffer\<close>

text \<open>
  The system call gets the bytes handed to it and answers with the signed 32-bit count and
  \<open>errno\<close>. The result carries what was handed out.
\<close>

definition ib_send ::
  "(byte list \<Rightarrow> syswrite) \<Rightarrow> iobuf \<Rightarrow> nat \<Rightarrow> (bool \<times> int \<times> byte list \<times> iobuf) option" where
  "ib_send snd_call b n = do {
     cs \<leftarrow> mem_read (ib_block b) (ib_consumed b) n;
     bs \<leftarrow> cells_bytes cs;
     let r = snd_call bs;
     let sent = i32 (sw_sent r);
     let ok = (\<not> (sent < 0 \<and> sw_errno r \<noteq> EAGAIN));
     let b = (if sent < 0 then b else b\<lparr>ib_consumed := u64 (ib_consumed b + nat sent)\<rparr>);
     Some (ok, sent, bs, if ok then ib_Recycle b else b)
   }"

definition ib_WriteToTCPFd ::
  "(byte list \<Rightarrow> syswrite) \<Rightarrow> iobuf \<Rightarrow> nat \<Rightarrow> (bool \<times> int \<times> byte list \<times> iobuf) option" where
  "ib_WriteToTCPFd snd_call b n =
     ib_send snd_call b (if n > ib_avail b then ib_avail b else n)"

definition ib_WriteToFd ::
  "(byte list \<Rightarrow> syswrite) \<Rightarrow> iobuf \<Rightarrow> nat \<Rightarrow> (bool \<times> int \<times> byte list \<times> iobuf) option" where
  "ib_WriteToFd wr b n = ib_send wr b (ib_avail b)"

section \<open>The textual dump\<close>

definition ib_allowed :: string where
  "ib_allowed = '' 1234567890-=qwertyuiop[]asdfghjkl;'' @ [CHR 0x27, CHR 0x5C, CHR 0x60] @ ''zxcvbnm'' @
     '',./!@#$%^&*()_+QWERTYUIOP{}ASDFGHJKL:'' @ [CHR 0x22] @ ''|~ZXCVBNM<>?''"

record ib_row =
  row_address :: string
  row_part1 :: string
  row_part2 :: string
  row_hr :: string

definition ib_row_line :: "ib_row \<Rightarrow> string" where
  "ib_row_line r = row_address r @ ''  '' @ row_part1 r @ '' '' @ row_part2 r @ '' '' @ row_hr r @ [CHR 0x0A]"

definition ib_row_byte :: "nat \<Rightarrow> byte \<Rightarrow> ib_row \<Rightarrow> ib_row" where
  "ib_row_byte i x r =
     (let r = r\<lparr>row_address := pad_left (CHR ''0'') 8 (dec_digits (i - i mod 16))\<rparr>;
          r = (if i mod 16 < 8 then r\<lparr>row_part1 := row_part1 r @ hex2 x @ '' ''\<rparr>
               else r\<lparr>row_part2 := row_part2 r @ hex2 x @ '' ''\<rparr>)
      in r\<lparr>row_hr := row_hr r @ [if chr_of x \<in> set ib_allowed then chr_of x else CHR ''.'']\<rparr>)"

text \<open>The loop over \<open>i\<close>; \<open>n\<close> is what is left of it.\<close>

fun ib_dump_loop :: "cell list \<Rightarrow> nat \<Rightarrow> nat \<Rightarrow> ib_row \<Rightarrow> string \<Rightarrow> (ib_row \<times> string) option" where
  "ib_dump_loop m i 0 r out = Some (r, out)"
| "ib_dump_loop m i (Suc n) r out =
     (let (r, out) = (if i mod 16 = 0 \<and> i > 0
                      then (r\<lparr>row_part1 := [], row_part2 := [], row_hr := []\<rparr>, out @ ib_row_line r)
                      else (r, out))
      in if i < length m
         then (case m ! i of None \<Rightarrow> None | Some x \<Rightarrow> ib_dump_loop m (i + 1) n (ib_row_byte i x r) out)
         else None)"

definition ib_pad_right :: "nat \<Rightarrow> string \<Rightarrow> string" where
  "ib_pad_right n s = s @ replicate (n - length s) (CHR '' '')"

text \<open>The address that \<open>%p\<close> prints is an argument.\<close>

definition ib_ToString :: "string \<Rightarrow> iobuf \<Rightarrow> nat \<Rightarrow> nat \<Rightarrow> string option" where
  "ib_ToString address b start limit = do {
     let header = ''Size: '' @ dec_digits (ib_size b) @ [CHR 0x0A] @
       ''Published: '' @ dec_digits (ib_published b) @ [CHR 0x0A] @
       ''Consumed: '' @ dec_digits (ib_consumed b) @ [CHR 0x0A] @
       ''Address: '' @ address @ [CHR 0x0A] @
       (if limit \<noteq> 0 then ''Limited to '' @ dec_digits limit @ '' bytes'' @ [CHR 0x0A] else []);
     let limit = (if limit = 0 then u32 (ib_published b) else limit);
     (r, out) \<leftarrow> ib_dump_loop (ib_block b) start (limit - start)
       \<lparr>row_address = [], row_part1 = [], row_part2 = [], row_hr = []\<rparr> header;
     Some (if row_part1 r \<noteq> []
           then out @ ib_row_line (r\<lparr>row_part1 := ib_pad_right 24 (row_part1 r),
             row_part2 := ib_pad_right 24 (row_part2 r), row_hr := ib_pad_right 16 (row_hr r)\<rparr>)
           else out)
   }"

definition ib_DumpBuffer :: "string \<Rightarrow> cell list \<Rightarrow> nat \<Rightarrow> string option" where
  "ib_DumpBuffer address buffer len = do {
     (_, temp) \<leftarrow> ib_ReadFromBuffer ib_new buffer len;
     ib_ToString address temp 0 0
   }"

section \<open>The invariant and the contents\<close>

text \<open>
  The bound \<open>3 * 2 ^ 30\<close> on the block is the one under which the 32-bit growth computation of
  \<open>EnsureSize\<close> does not truncate; operations keep it as long as they write below 2 GiB.
\<close>

definition ib_cells :: "iobuf \<Rightarrow> cell list" where
  "ib_cells b = take (ib_published b - ib_consumed b) (drop (ib_consumed b) (ib_block b))"

definition ib_data :: "iobuf \<Rightarrow> byte list" where
  "ib_data b = map the (ib_cells b)"

definition ib_wf :: "iobuf \<Rightarrow> bool" where
  "ib_wf b \<longleftrightarrow> ib_consumed b \<le> ib_published b \<and> ib_published b \<le> ib_size b \<and>
     ib_size b = length (ib_block b) \<and> ib_size b < 3 * 2 ^ 30 \<and>
     0 < ib_min_chunk b \<and> ib_min_chunk b < 2 ^ 24 \<and> list_all (\<lambda>c. c \<noteq> None) (ib_cells b)"

lemma ib_wf_bounds:
  assumes "ib_wf b"
  shows "ib_consumed b \<le> ib_published b" "ib_published b \<le> ib_size b"
    "ib_size b = length (ib_block b)" "ib_size b < 3 * 2 ^ 30" "ib_min_chunk b < 2 ^ 24"
    "0 < ib_min_chunk b"
  using assms by (simp_all add: ib_wf_def)

lemma ib_cells_data: "ib_wf b \<Longrightarrow> ib_cells b = map Some (ib_data b)"
  by (auto simp: ib_wf_def ib_data_def list_all_iff intro!: map_idI [symmetric])

lemma ib_length_data: "ib_wf b \<Longrightarrow> length (ib_data b) = ib_published b - ib_consumed b"
  by (auto simp: ib_wf_def ib_data_def ib_cells_def)

lemma ib_avail_wf: "ib_wf b \<Longrightarrow> ib_avail b = length (ib_data b)"
  by (simp add: ib_avail_def ib_length_data ib_wf_bounds sub64_le)
     (simp add: ib_wf_def ib_length_data sub64_le)

lemma ib_wf_new [simp]: "ib_wf ib_new" and ib_data_new [simp]: "ib_data ib_new = []"
  by (simp_all add: ib_wf_def ib_new_def ib_block_def ib_cells_def ib_data_def)

lemma ib_block_set [simp]:
  "length m = length (ib_block b) \<Longrightarrow> ib_block (ib_set_block m b) = m"
  by (auto simp: ib_block_def ib_set_block_def split: option.splits)

lemma ib_new_sel [simp]: "ib_published ib_new = 0"
  by (simp add: ib_new_def)

lemma ib_set_block_sel [simp]:
  "ib_size (ib_set_block m b) = ib_size b" "ib_published (ib_set_block m b) = ib_published b"
  "ib_consumed (ib_set_block m b) = ib_consumed b" "ib_min_chunk (ib_set_block m b) = ib_min_chunk b"
  "ib_dummy (ib_set_block m b) = ib_dummy b" "(ib_buffer (ib_set_block m b) = None) = (ib_buffer b = None)"
  by (simp_all add: ib_set_block_def)

lemma ib_block_upd [simp]:
  "ib_block (b\<lparr>ib_published := p\<rparr>) = ib_block b" "ib_block (b\<lparr>ib_consumed := c\<rparr>) = ib_block b"
  "ib_block (b\<lparr>ib_min_chunk := k\<rparr>) = ib_block b" "ib_block (b\<lparr>ib_size := n\<rparr>) = ib_block b"
  "ib_block (b\<lparr>ib_dummy := d\<rparr>) = ib_block b" "ib_block (b\<lparr>ib_buffer := Some m\<rparr>) = m"
  by (simp_all add: ib_block_def)

lemma ib_wf_dummy [simp]:
  "ib_wf (b\<lparr>ib_dummy := d\<rparr>) = ib_wf b" "ib_data (b\<lparr>ib_dummy := d\<rparr>) = ib_data b"
  by (simp_all add: ib_wf_def ib_cells_def ib_data_def)

text \<open>What storage operations keep: the bytes waiting and the validity of the buffer.\<close>

definition ib_same :: "iobuf \<Rightarrow> iobuf \<Rightarrow> bool" where
  "ib_same b b' \<longleftrightarrow> ib_wf b' \<and> ib_data b' = ib_data b \<and> ib_published b' \<le> ib_published b \<and>
     ib_min_chunk b' = ib_min_chunk b \<and> ib_dummy b' = ib_dummy b"

lemma ib_MoveData_spec:
  assumes "ib_wf b"
  shows "\<exists>b'. ib_MoveData b = Some (True, b') \<and> ib_same b b' \<and> ib_size b' = ib_size b \<and>
     (ib_buffer b' = None) = (ib_buffer b = None)"
proof (cases "ib_avail b \<le> ib_consumed b")
  case False
  then show ?thesis
    using assms by (simp add: ib_MoveData_def ib_same_def)
next
  case True
  let ?n = "ib_published b - ib_consumed b" and ?c = "ib_consumed b"
  note bounds = ib_wf_bounds [OF assms]
  have n: "ib_avail b = ?n"
    using assms by (simp add: ib_avail_wf ib_length_data)
  define m where "m = ib_cells b @ drop ?n (ib_block b)"
  have len: "length (ib_cells b) = ?n"
    using bounds by (simp add: ib_cells_def)
  have lm: "length m = length (ib_block b)"
    using bounds len by (simp add: m_def)
  have "mem_cpy_within (ib_block b) 0 ?c ?n = Some m"
    using True n bounds len
    by (simp add: mem_cpy_within_def mem_simps m_def ib_cells_def)
  then have "ib_MoveData b =
      Some (True, (ib_set_block m b)\<lparr>ib_published := ?n, ib_consumed := 0\<rparr>)" (is "_ = Some (True, ?b)")
    using True n by (simp add: ib_MoveData_def)
  moreover have "ib_cells ?b = ib_cells b"
    using lm len by (simp add: ib_cells_def [of ?b]) (simp add: m_def)
  then have "ib_same b ?b"
    using bounds lm assms by (simp add: ib_same_def ib_wf_def ib_data_def)
  ultimately show ?thesis
    by simp
qed

lemma ib_grow_eq:
  assumes "ib_wf b" and "ib_published b + n \<le> 2 ^ 31" and "ib_size b < ib_published b + n"
  shows "ib_grow b n =
     (let e = if ib_published b + n - ib_size b < ib_size b div 3
              then ib_size b + ib_size b div 3 - ib_published b else n
      in if e < ib_min_chunk b then ib_min_chunk b else e)"
proof -
  note bounds = ib_wf_bounds [OF assms(1)]
  have "u64 (ib_published b + n) = ib_published b + n"
    using assms by (simp add: u64_small)
  moreover have "sub64 (ib_published b + n) (ib_size b) = ib_published b + n - ib_size b"
    using assms by (simp add: sub64_le)
  moreover have "sub64 (ib_size b + ib_size b div 3) (ib_published b) =
      ib_size b + ib_size b div 3 - ib_published b"
    using bounds assms by (intro sub64_le) auto
  moreover have "u32 (ib_size b + ib_size b div 3 - ib_published b) =
      ib_size b + ib_size b div 3 - ib_published b"
    using bounds(4) by (intro u32_small) simp
  moreover have "u32 (ib_min_chunk b) = ib_min_chunk b"
    using bounds by (simp add: u32_small)
  ultimately show ?thesis
    by (simp add: ib_grow_def Let_def)
qed

lemma ib_grow_bounds:
  assumes "ib_wf b" and "ib_published b + n \<le> 2 ^ 31" and "ib_size b < ib_published b + n"
  shows "n \<le> ib_grow b n" and "ib_published b + ib_grow b n < 3 * 2 ^ 30"
proof -
  note bounds = ib_wf_bounds [OF assms(1)]
  show "n \<le> ib_grow b n"
    unfolding ib_grow_eq [OF assms] using bounds by (simp add: Let_def split: if_splits) linarith
  show "ib_published b + ib_grow b n < 3 * 2 ^ 30"
    unfolding ib_grow_eq [OF assms] using bounds assms by (simp add: Let_def split: if_splits) linarith
qed

lemma ib_EnsureSize_grow:
  assumes wf: "ib_wf b" and max: "ib_published b + n \<le> 2 ^ 31" and small: "ib_size b < ib_published b + n"
  shows "\<exists>m. (case ib_buffer b of
                  None \<Rightarrow> Some (replicate (ib_published b + ib_grow b n) None)
                | Some old \<Rightarrow> do { xs \<leftarrow> mem_read old 0 (ib_published b);
                                 mem_write (replicate (ib_published b + ib_grow b n) None) 0 xs }) = Some m \<and>
     ib_same b (b\<lparr>ib_buffer := Some m, ib_size := ib_published b + ib_grow b n\<rparr>)"
proof -
  note bounds = ib_wf_bounds [OF wf]
  note grow = ib_grow_bounds [OF wf max small]
  let ?k = "ib_published b + ib_grow b n"
  define m where "m = take (ib_published b) (ib_block b) @ replicate (ib_grow b n) (None :: cell)"
  have lm: "length m = ?k"
    using bounds by (simp add: m_def)
  have "ib_cells (b\<lparr>ib_buffer := Some m, ib_size := ?k\<rparr>) = ib_cells b"
    using bounds by (simp add: ib_cells_def m_def drop_take)
  then have "ib_same b (b\<lparr>ib_buffer := Some m, ib_size := ?k\<rparr>)"
    using wf bounds grow lm by (simp add: ib_same_def ib_wf_def ib_data_def)
  moreover have "(case ib_buffer b of None \<Rightarrow> Some (replicate ?k None)
      | Some old \<Rightarrow> do { xs \<leftarrow> mem_read old 0 (ib_published b); mem_write (replicate ?k None) 0 xs })
      = Some m"
    using bounds by (auto simp: m_def ib_block_def mem_simps split: option.splits)
  ultimately show ?thesis
    by blast
qed

lemma ib_EnsureSize_spec:
  assumes wf: "ib_wf b" and max: "ib_published b + n \<le> 2 ^ 31"
  shows "\<exists>b'. ib_EnsureSize b n = Some (True, b') \<and> ib_same b b' \<and> ib_published b' + n \<le> ib_size b'"
proof (cases "ib_published b + n \<le> ib_size b")
  case True
  then show ?thesis
    using wf max by (simp add: ib_EnsureSize_def u64_small ib_same_def)
next
  case False
  obtain b1 where b1: "ib_MoveData b = Some (True, b1)" "ib_same b b1"
    using ib_MoveData_spec [OF wf] by blast
  then have wf1: "ib_wf b1" and max1: "ib_published b1 + n \<le> 2 ^ 31"
    using max by (simp_all add: ib_same_def)
  have u: "u64 (ib_published b + n) = ib_published b + n" "u64 (ib_published b1 + n) = ib_published b1 + n"
    using max max1 by (simp_all add: u64_small)
  show ?thesis
  proof (cases "ib_published b1 + n \<le> ib_size b1")
    case True
    then show ?thesis
      using False b1 u by (simp add: ib_EnsureSize_def)
  next
    case small: False
    then have lt: "ib_size b1 < ib_published b1 + n"
      by simp
    have k: "u64 (ib_published b1 + ib_grow b1 n) = ib_published b1 + ib_grow b1 n"
      using ib_grow_bounds [OF wf1 max1 lt] by (simp add: u64_small)
    obtain m where "ib_EnsureSize b n =
        Some (True, b1\<lparr>ib_buffer := Some m, ib_size := ib_published b1 + ib_grow b1 n\<rparr>)"
      and "ib_same b1 (b1\<lparr>ib_buffer := Some m, ib_size := ib_published b1 + ib_grow b1 n\<rparr>)"
      using ib_EnsureSize_grow [OF wf1 max1 lt] False small b1 u k
      by (auto simp: ib_EnsureSize_def Let_def)
    then show ?thesis
      using b1(2) ib_grow_bounds [OF wf1 max1 lt] by (auto simp: ib_same_def)
  qed
qed

lemma ib_reserve_spec:
  assumes "ib_wf b" and "ib_published b + n \<le> 2 ^ 31"
  shows "\<exists>b'. ib_reserve b n = Some (True, b') \<and> ib_same b b' \<and> ib_published b' + n \<le> ib_size b'"
  using assms ib_EnsureSize_spec [OF assms]
  by (auto simp: ib_reserve_def u64_small ib_same_def not_less)

text \<open>Bytes stored at \<open>buffer_ + published_\<close> and published are appended to the contents.\<close>

definition ib_appended :: "iobuf \<Rightarrow> byte list \<Rightarrow> iobuf \<Rightarrow> bool" where
  "ib_appended b bs b' \<longleftrightarrow> ib_wf b' \<and> ib_data b' = ib_data b @ bs \<and>
     ib_published b' \<le> ib_published b + length bs \<and>
     ib_min_chunk b' = ib_min_chunk b \<and> ib_dummy b' = ib_dummy b"

lemma ib_appended_Nil: "ib_appended b [] b' = ib_same b b'"
  by (auto simp: ib_appended_def ib_same_def)

lemma ib_append:
  assumes wf: "ib_wf b" and room: "ib_published b + length bs \<le> ib_size b"
  shows "\<exists>m. mem_write (ib_block b) (ib_published b) (map Some bs) = Some m \<and> length m = length (ib_block b) \<and>
     ib_appended b bs ((ib_set_block m b)\<lparr>ib_published := u64 (ib_published b + length bs)\<rparr>)"
proof -
  note bounds = ib_wf_bounds [OF wf]
  obtain m where m: "mem_write (ib_block b) (ib_published b) (map Some bs) = Some m"
    using room bounds by (simp add: mem_write_def)
  have lm: "length m = length (ib_block b)"
    using m by (rule mem_write_length)
  let ?b = "(ib_set_block m b)\<lparr>ib_published := u64 (ib_published b + length bs)\<rparr>"
  have u: "u64 (ib_published b + length bs) = ib_published b + length bs"
    using room bounds by (simp add: u64_small)
  have "ib_cells ?b = take (ib_published b + length bs - ib_consumed b) (drop (ib_consumed b) m)"
    using lm u by (simp add: ib_cells_def)
  also have "\<dots> = ib_cells b @ map Some bs"
    using mem_write_extend [OF m, of "ib_consumed b"] bounds by (simp add: ib_cells_def)
  finally have c: "ib_cells ?b = ib_cells b @ map Some bs" .
  then have "ib_appended b bs ?b"
    using wf bounds room u lm by (auto simp: ib_appended_def ib_wf_def ib_data_def list_all_iff comp_def)
  then show ?thesis
    using m lm by blast
qed

lemma ib_append_same:
  assumes "ib_same b b1" and "ib_published b1 + length bs \<le> ib_size b1"
  shows "\<exists>m. mem_write (ib_block b1) (ib_published b1) (map Some bs) = Some m \<and> length m = length (ib_block b1) \<and>
     ib_appended b bs ((ib_set_block m b1)\<lparr>ib_published := u64 (ib_published b1 + length bs)\<rparr>)"
  using ib_append [of b1 bs] assms by (fastforce simp: ib_same_def ib_appended_def)

lemma ib_same_set_block:
  assumes "ib_same b b1" and "mem_write (ib_block b1) (ib_published b1) cs = Some m"
  shows "ib_same b (ib_set_block m b1)"
proof -
  have lm: "length m = length (ib_block b1)"
    using assms(2) by (rule mem_write_length)
  have "take (ib_published b1) m = take (ib_published b1) (ib_block b1)"
    using assms(2) by (auto simp: mem_write_def split: if_splits)
  then have "ib_cells (ib_set_block m b1) = ib_cells b1"
    using lm by (simp add: ib_cells_def) (metis drop_take)
  then show ?thesis
    using assms(1) lm by (simp add: ib_same_def ib_wf_def ib_data_def)
qed

section \<open>What the operations do\<close>

lemma ib_ReadFromBuffer_spec:
  assumes "ib_wf b" and "ib_published b + length bs \<le> 2 ^ 31"
  shows "\<exists>b'. ib_ReadFromBuffer b (map Some bs @ rest) (length bs) = Some (True, b') \<and> ib_appended b bs b'"
proof -
  obtain b1 where b1: "ib_EnsureSize b (length bs) = Some (True, b1)" "ib_same b b1"
    "ib_published b1 + length bs \<le> ib_size b1"
    using ib_EnsureSize_spec [OF assms] by blast
  then show ?thesis
    using ib_append_same [OF b1(2,3)] by (auto simp: ib_ReadFromBuffer_def mem_read_def)
qed

lemma ib_ReadFromString_spec:
  assumes "ib_wf b" and "ib_published b + length s \<le> 2 ^ 31"
  shows "\<exists>b'. ib_ReadFromString b s = Some (True, b') \<and> ib_appended b (map byte_of s) b'"
  using ib_ReadFromBuffer_spec [of b "map byte_of s" "[]"] assms
  by (simp add: ib_ReadFromString_def u32_small)

lemma ib_ReadFromInputBuffer_spec:
  assumes "ib_wf b" and "ib_wf src" and "n \<le> length (ib_data src)" and "ib_published b + n \<le> 2 ^ 31"
  shows "\<exists>b'. ib_ReadFromInputBuffer b src n = Some (True, b') \<and> ib_appended b (take n (ib_data src)) b'"
proof -
  let ?c = "ib_consumed src" and ?d = "ib_data src"
  have "ib_pointer src = ib_cells src @ drop (ib_published src) (ib_block src)"
    using ib_wf_bounds [OF assms(2)]
    by (simp add: ib_pointer_def ib_cells_def) (metis add.commute append_take_drop_id drop_drop le_add_diff_inverse)
  also have "\<dots> = map Some (take n ?d) @ map Some (drop n ?d) @ drop (ib_published src) (ib_block src)"
    using assms(2) by (simp add: ib_cells_data flip: map_append append_assoc)
  finally show ?thesis
    using ib_ReadFromBuffer_spec [of b "take n ?d"] assms by (simp add: ib_ReadFromInputBuffer_def)
qed

lemma ib_ReadFromByte_spec:
  assumes "ib_wf b" and "ib_published b + 1 \<le> 2 ^ 31"
  shows "\<exists>b'. ib_ReadFromByte b x = Some b' \<and> ib_appended b [x] b'"
proof -
  obtain b1 where b1: "ib_EnsureSize b 1 = Some (True, b1)" "ib_same b b1" "ib_published b1 + length [x] \<le> ib_size b1"
    using ib_EnsureSize_spec [OF assms] by auto
  then show ?thesis
    using ib_append_same [OF b1(2,3)] by (auto simp: ib_ReadFromByte_def)
qed

lemma ib_ReadFromRepeat_spec:
  assumes "ib_wf b" and "ib_published b + n \<le> 2 ^ 31"
  shows "\<exists>b'. ib_ReadFromRepeat b x n = Some b' \<and> ib_appended b (replicate n x) b'"
proof -
  obtain b1 where b1: "ib_EnsureSize b n = Some (True, b1)" "ib_same b b1"
    "ib_published b1 + length (replicate n x) \<le> ib_size b1"
    using ib_EnsureSize_spec [OF assms] by auto
  then show ?thesis
    using ib_append_same [OF b1(2,3)] by (auto simp: ib_ReadFromRepeat_def)
qed

text \<open>A successful read appends exactly what the kernel delivered; a failed one appends nothing.\<close>

lemma ib_deliver_spec:
  assumes same: "ib_same b b1" and room: "ib_published b1 + n \<le> ib_size b1" and n: "n < 2 ^ 31"
    and r: "\<And>bs. sr_data r = Some bs \<Longrightarrow> length bs \<le> n"
  shows "\<exists>b'. ib_deliver b1 r = Some (sr_amount r, b') \<and>
     ib_appended b (case sr_data r of None \<Rightarrow> [] | Some bs \<Rightarrow> bs) b'"
proof (cases "sr_data r")
  case None
  obtain m where m: "mem_write (ib_block b1) (ib_published b1) (map Some []) = Some m"
    using ib_append_same [OF same, of "[]"] room by auto
  then show ?thesis
    using None ib_same_set_block [OF same, of "[]" m]
    by (simp add: ib_deliver_def sr_amount_def i32_def ib_appended_Nil)
next
  case (Some bs)
  then have room': "ib_published b1 + length bs \<le> ib_size b1" and len: "length bs < 2 ^ 31"
    using r [of bs] room n by auto
  obtain m where m: "mem_write (ib_block b1) (ib_published b1) (map Some bs) = Some m"
    "ib_appended b bs ((ib_set_block m b1)\<lparr>ib_published := u64 (ib_published b1 + length bs)\<rparr>)"
    using ib_append_same [OF same room'] by auto
  have i: "i32 (int (length bs)) = int (length bs)"
    using len by (simp add: i32_small)
  show ?thesis
  proof (cases "bs = []")
    case True
    then show ?thesis
      using Some m i ib_same_set_block [OF same, of "[]" m]
      by (simp add: ib_deliver_def sr_amount_def ib_appended_Nil)
  next
    case False
    then show ?thesis
      using Some m i by (simp add: ib_deliver_def sr_amount_def)
  qed
qed

lemma ib_ReadFromTCPFd_spec:
  assumes "ib_wf b" and "ib_published b + n \<le> 2 ^ 31" and "n < 2 ^ 31"
    and "\<And>bs. sr_data (rcv n) = Some bs \<Longrightarrow> length bs \<le> n"
  shows "\<exists>b'. ib_ReadFromTCPFd rcv b n = Some (sr_amount (rcv n) > 0, sr_amount (rcv n), b') \<and>
     ib_appended b (case sr_data (rcv n) of None \<Rightarrow> [] | Some bs \<Rightarrow> bs) b'"
proof -
  obtain b1 where b1: "ib_reserve b n = Some (True, b1)" "ib_same b b1" "ib_published b1 + n \<le> ib_size b1"
    using ib_reserve_spec [OF assms(1,2)] by blast
  then show ?thesis
    using ib_deliver_spec [OF b1(2,3) assms(3), of "rcv n"] assms(4) by (auto simp: ib_ReadFromTCPFd_def)
qed

lemma ib_ReadFromFd_spec:
  assumes "ib_wf b" and "ib_published b + n \<le> 2 ^ 31" and "n < 2 ^ 31"
    and "\<And>bs. sr_data (rd n) = Some bs \<Longrightarrow> length bs \<le> n"
  shows "\<exists>b'. ib_ReadFromFd rd b n a =
       Some (sr_amount (rd n) > 0 \<or> sr_errno (rd n) = EINPROGRESS, sr_amount (rd n), b') \<and>
     ib_appended b (case sr_data (rd n) of None \<Rightarrow> [] | Some bs \<Rightarrow> bs) b'"
proof -
  obtain b1 where b1: "ib_reserve b n = Some (True, b1)" "ib_same b b1" "ib_published b1 + n \<le> ib_size b1"
    using ib_reserve_spec [OF assms(1,2)] by blast
  then show ?thesis
    using ib_deliver_spec [OF b1(2,3) assms(3), of "rd n"] assms(4)
    by (auto simp: ib_ReadFromFd_def Let_def)
qed

lemma ib_ReadFromUDPFd_spec:
  assumes "ib_wf b" and "ib_published b + 65536 \<le> 2 ^ 31"
    and call: "\<And>d. rcvfrom 65536 d = (r, peer, dummy)"
    and "\<And>bs. sr_data r = Some bs \<Longrightarrow> length bs \<le> 65536"
  shows "\<exists>b'. ib_ReadFromUDPFd rcvfrom b = Some (sr_amount r > 0, sr_amount r, Some peer, b') \<and>
     ib_wf b' \<and> ib_data b' = ib_data b @ (case sr_data r of None \<Rightarrow> [] | Some bs \<Rightarrow> bs)"
proof -
  obtain b1 where b1: "ib_reserve b 65536 = Some (True, b1)" "ib_same b b1"
    "ib_published b1 + 65536 \<le> ib_size b1"
    using ib_reserve_spec [OF assms(1,2)] by blast
  then have same: "ib_same (b1\<lparr>ib_dummy := dummy\<rparr>) (b1\<lparr>ib_dummy := dummy\<rparr>)"
    by (simp add: ib_same_def)
  have "ib_published (b1\<lparr>ib_dummy := dummy\<rparr>) + 65536 \<le> ib_size (b1\<lparr>ib_dummy := dummy\<rparr>)"
    using b1(3) by simp
  from ib_deliver_spec [OF same this, of r] show ?thesis
    using b1 assms(4) by (auto simp: ib_ReadFromUDPFd_def call ib_appended_def ib_same_def)
qed

lemma ib_read_stream_spec:
  assumes "ib_wf b" and "ib_published b + n \<le> 2 ^ 31" and rd: "rd n = (bs, good)"
    and "length bs \<le> n" and "good \<Longrightarrow> length bs = n"
  shows "\<exists>b'. ib_read_stream rd b n = Some (good, b') \<and> ib_appended b (if good then bs else []) b'"
proof -
  obtain b1 where b1: "ib_reserve b n = Some (True, b1)" "ib_same b b1" "ib_published b1 + n \<le> ib_size b1"
    using ib_reserve_spec [OF assms(1,2)] by blast
  then have "ib_published b1 + length bs \<le> ib_size b1"
    using assms(4) by simp
  from ib_append_same [OF b1(2) this] show ?thesis
    using b1 rd assms(5) ib_same_set_block [OF b1(2), of "map Some bs"]
    by (auto simp: ib_read_stream_def ib_appended_Nil)
qed

text \<open>Consuming from the front; \<open>Recycle\<close> only resets the offsets of an empty buffer.\<close>

definition ib_dropped :: "iobuf \<Rightarrow> nat \<Rightarrow> iobuf \<Rightarrow> bool" where
  "ib_dropped b n b' \<longleftrightarrow> ib_wf b' \<and> ib_data b' = drop n (ib_data b) \<and>
     ib_published b' \<le> ib_published b \<and> ib_min_chunk b' = ib_min_chunk b \<and> ib_dummy b' = ib_dummy b \<and>
     (ib_data b' = [] \<longrightarrow> ib_published b' = 0 \<and> ib_consumed b' = 0)"

lemma ib_recycle_drop:
  assumes wf: "ib_wf b" and n: "n \<le> length (ib_data b)"
  shows "ib_dropped b n (ib_Recycle (b\<lparr>ib_consumed := u64 (ib_consumed b + n)\<rparr>))"
proof -
  note bounds = ib_wf_bounds [OF wf]
  have le: "ib_consumed b + n \<le> ib_published b"
    using n bounds ib_length_data [OF wf] by simp
  then have u: "u64 (ib_consumed b + n) = ib_consumed b + n"
    using bounds by (simp add: u64_small)
  let ?b = "b\<lparr>ib_consumed := ib_consumed b + n\<rparr>"
  have cells: "ib_cells ?b = drop n (ib_cells b)"
    by (simp add: ib_cells_def drop_take add.commute)
  moreover have "list_all (\<lambda>c. c \<noteq> None) (drop n (ib_cells b))"
    using wf by (auto simp: ib_wf_def list_all_iff dest: in_set_dropD)
  ultimately have wf': "ib_wf ?b" and data: "ib_data ?b = drop n (ib_data b)"
    using wf le by (simp_all add: ib_wf_def ib_data_def drop_map)
  show ?thesis
  proof (cases "ib_consumed b + n = ib_published b")
    case True
    then show ?thesis
      using wf data ib_length_data [OF wf] ib_length_data [OF wf'] u
      by (simp add: ib_dropped_def ib_Recycle_def ib_wf_def ib_data_def ib_cells_def)
  next
    case False
    then have "ib_data ?b \<noteq> []"
      using ib_length_data [OF wf'] le by auto
    then show ?thesis
      using False u wf' data by (auto simp: ib_dropped_def ib_Recycle_def)
  qed
qed

lemma ib_Ignore_spec:
  assumes "ib_wf b" and "n \<le> length (ib_data b)"
  shows "ib_dropped b n (snd (ib_Ignore b n))"
  using ib_recycle_drop [OF assms] by (simp add: ib_Ignore_def)

lemma ib_IgnoreAll_spec:
  assumes "ib_wf b"
  shows "ib_dropped b (length (ib_data b)) (snd (ib_IgnoreAll b))"
proof -
  note bounds = ib_wf_bounds [OF assms]
  have "u64 (ib_consumed b + length (ib_data b)) = ib_published b"
    using bounds ib_length_data [OF assms] by (simp add: u64_small)
  then show ?thesis
    using ib_recycle_drop [OF assms le_refl] by (simp add: ib_IgnoreAll_def)
qed

lemma ib_send_spec:
  assumes wf: "ib_wf b" and n: "n \<le> length (ib_data b)" and "n < 2 ^ 31"
    and call: "r = call (take n (ib_data b))" "sw_sent r \<le> int n" "-1 \<le> sw_sent r"
  shows "\<exists>b'. ib_send call b n =
       Some (\<not> (sw_sent r < 0 \<and> sw_errno r \<noteq> EAGAIN), sw_sent r, take n (ib_data b), b') \<and>
     ib_wf b' \<and> ib_data b' = drop (nat (sw_sent r)) (ib_data b)"
proof -
  note bounds = ib_wf_bounds [OF wf]
  have le: "ib_consumed b + n \<le> length (ib_block b)"
    using n bounds ib_length_data [OF wf] by simp
  have "take n (drop (ib_consumed b) (ib_block b)) = take n (ib_cells b)"
    using n ib_length_data [OF wf] by (simp add: ib_cells_def min_absorb1)
  then have rd: "mem_read (ib_block b) (ib_consumed b) n = Some (map Some (take n (ib_data b)))"
    using le wf by (simp add: mem_read_def ib_cells_data take_map)
  have i: "i32 (sw_sent r) = sw_sent r"
    using assms by (intro i32_small) auto
  have "ib_dropped b (nat (sw_sent r)) (ib_Recycle (b\<lparr>ib_consumed := u64 (ib_consumed b + nat (sw_sent r))\<rparr>))"
    using assms by (intro ib_recycle_drop) auto
  moreover have "ib_dropped b 0 (ib_Recycle b)"
    using ib_recycle_drop [OF wf, of 0] bounds by (simp add: u64_small)
  ultimately show ?thesis
    using rd i call(1) wf by (auto simp: ib_send_def Let_def ib_dropped_def)
qed

lemma ib_WriteToTCPFd_spec:
  assumes wf: "ib_wf b" and "n < 2 ^ 31"
    and call: "r = call (take n (ib_data b))" "sw_sent r \<le> int (min n (length (ib_data b)))" "-1 \<le> sw_sent r"
  shows "\<exists>b'. ib_WriteToTCPFd call b n =
       Some (\<not> (sw_sent r < 0 \<and> sw_errno r \<noteq> EAGAIN), sw_sent r, take n (ib_data b), b') \<and>
     ib_wf b' \<and> ib_data b' = drop (nat (sw_sent r)) (ib_data b)"
proof -
  let ?k = "min n (length (ib_data b))"
  have "ib_WriteToTCPFd call b n = ib_send call b ?k"
    using wf by (simp add: ib_WriteToTCPFd_def ib_avail_wf min_def)
  moreover have tk: "take ?k (ib_data b) = take n (ib_data b)"
    by (simp add: min_def)
  moreover have "\<exists>b'. ib_send call b ?k =
       Some (\<not> (sw_sent r < 0 \<and> sw_errno r \<noteq> EAGAIN), sw_sent r, take ?k (ib_data b), b') \<and>
     ib_wf b' \<and> ib_data b' = drop (nat (sw_sent r)) (ib_data b)"
    using call assms(2) unfolding tk [symmetric] by (intro ib_send_spec [OF wf]) auto
  ultimately show ?thesis
    by simp
qed

section \<open>A bound on the storage\<close>

text \<open>
  A buffer that never holds more than \<open>s\<close> bytes never allocates more than three times that and one minimal
  chunk: the block grows only when less than half of it could be freed by moving the data.
\<close>

definition ib_fits :: "nat \<Rightarrow> iobuf \<Rightarrow> bool" where
  "ib_fits s b \<longleftrightarrow> ib_wf b \<and> length (ib_data b) \<le> s \<and> ib_size b \<le> 3 * s + ib_min_chunk b"

lemma ib_fits_new [simp]: "ib_fits s ib_new"
  by (simp add: ib_fits_def) (simp add: ib_new_def)

lemma ib_MoveData_published:
  assumes "ib_wf b" and "ib_MoveData b = Some (True, b')"
  shows "ib_published b' \<le> 2 * length (ib_data b)"
  using assms ib_length_data [OF assms(1)] ib_wf_bounds(1) [OF assms(1)]
  by (auto simp: ib_MoveData_def ib_avail_wf elim!: bind_SomeE split: if_splits)

lemma ib_grow_size:
  assumes wf: "ib_wf b" and max: "ib_published b + n \<le> 2 ^ 31" and small: "ib_size b < ib_published b + n"
    and k: "ib_published b + n \<le> 2 * s"
  shows "ib_published b + ib_grow b n \<le> 3 * s + ib_min_chunk b"
proof -
  have "ib_size b div 3 * 3 \<le> ib_size b"
    by simp
  then have "3 * (ib_size b div 3) \<le> 2 * s"
    using small k by linarith
  then show ?thesis
    unfolding ib_grow_eq [OF wf max small] using ib_wf_bounds(2) [OF wf] small k by (simp add: Let_def split: if_splits)
qed

lemma ib_EnsureSize_fits:
  assumes fits: "ib_fits s b" and n: "length (ib_data b) + n \<le> s" and s: "s \<le> 2 ^ 28"
  shows "\<exists>b'. ib_EnsureSize b n = Some (True, b') \<and> ib_same b b' \<and> ib_published b' + n \<le> ib_size b' \<and>
     ib_size b' \<le> 3 * s + ib_min_chunk b'"
proof -
  have wf: "ib_wf b" and size: "ib_size b \<le> 3 * s + ib_min_chunk b"
    using fits by (simp_all add: ib_fits_def)
  note bounds = ib_wf_bounds [OF wf]
  have max: "ib_published b + n \<le> 2 ^ 31"
    using bounds size s n by simp
  obtain b' where b': "ib_EnsureSize b n = Some (True, b')" "ib_same b b'" "ib_published b' + n \<le> ib_size b'"
    using ib_EnsureSize_spec [OF wf max] by blast
  have u: "u64 (ib_published b + n) = ib_published b + n"
    using max by (simp add: u64_small)
  have "ib_size b' \<le> 3 * s + ib_min_chunk b"
  proof (cases "ib_published b + n \<le> ib_size b")
    case True
    then show ?thesis
      using b'(1) size u by (simp add: ib_EnsureSize_def)
  next
    case False
    obtain b1 where b1: "ib_MoveData b = Some (True, b1)" "ib_same b b1" "ib_size b1 = ib_size b"
      using ib_MoveData_spec [OF wf] by blast
    then have wf1: "ib_wf b1" and max1: "ib_published b1 + n \<le> 2 ^ 31" and chunk: "ib_min_chunk b1 = ib_min_chunk b"
      using max by (simp_all add: ib_same_def)
    have p1: "ib_published b1 \<le> 2 * length (ib_data b)"
      using ib_MoveData_published [OF wf b1(1)] .
    have u1: "u64 (ib_published b1 + n) = ib_published b1 + n"
      using max1 by (simp add: u64_small)
    show ?thesis
    proof (cases "ib_published b1 + n \<le> ib_size b1")
      case True
      then show ?thesis
        using b'(1) b1 size u u1 False by (simp add: ib_EnsureSize_def)
    next
      case small: False
      then have k: "u64 (ib_published b1 + ib_grow b1 n) = ib_published b1 + ib_grow b1 n"
        using ib_grow_bounds [OF wf1 max1] by (simp add: u64_small)
      have "ib_published b1 + ib_grow b1 n \<le> 3 * s + ib_min_chunk b1"
        using small n p1 by (intro ib_grow_size [OF wf1 max1]) auto
      moreover have "ib_size b' = ib_published b1 + ib_grow b1 n"
        using b'(1) b1 u u1 k False small by (auto simp: ib_EnsureSize_def Let_def elim!: bind_SomeE split: option.splits)
      ultimately show ?thesis
        using chunk by simp
    qed
  qed
  then show ?thesis
    using b' by (auto simp: ib_same_def)
qed

lemma ib_ReadFromBuffer_fits:
  assumes "ib_fits s b" and "length (ib_data b) + length bs \<le> s" and "s \<le> 2 ^ 28"
  shows "\<exists>b'. ib_ReadFromBuffer b (map Some bs @ rest) (length bs) = Some (True, b') \<and>
     ib_fits s b' \<and> ib_data b' = ib_data b @ bs"
proof -
  obtain b1 where b1: "ib_EnsureSize b (length bs) = Some (True, b1)" "ib_same b b1"
    "ib_published b1 + length bs \<le> ib_size b1" "ib_size b1 \<le> 3 * s + ib_min_chunk b1"
    using ib_EnsureSize_fits [OF assms] by blast
  then show ?thesis
    using ib_append_same [OF b1(2,3)] assms by (auto simp: ib_ReadFromBuffer_def mem_read_def ib_fits_def ib_appended_def)
qed

lemma ib_send_size: "ib_send call b n = Some (ok, sent, bs, b') \<Longrightarrow> ib_size b' = ib_size b \<and> ib_min_chunk b' = ib_min_chunk b"
  by (auto simp: ib_send_def ib_Recycle_def Let_def elim!: bind_SomeE split: if_splits)

lemma ib_WriteToTCPFd_fits:
  assumes fits: "ib_fits s b" and "n < 2 ^ 31"
    and call: "r = call (take n (ib_data b))" "sw_sent r \<le> int (min n (length (ib_data b)))" "-1 \<le> sw_sent r"
  shows "\<exists>b'. ib_WriteToTCPFd call b n =
       Some (\<not> (sw_sent r < 0 \<and> sw_errno r \<noteq> EAGAIN), sw_sent r, take n (ib_data b), b') \<and>
     ib_fits s b' \<and> ib_data b' = drop (nat (sw_sent r)) (ib_data b)"
proof -
  have wf: "ib_wf b"
    using fits by (simp add: ib_fits_def)
  obtain b' where b': "ib_WriteToTCPFd call b n =
       Some (\<not> (sw_sent r < 0 \<and> sw_errno r \<noteq> EAGAIN), sw_sent r, take n (ib_data b), b')"
     "ib_wf b'" "ib_data b' = drop (nat (sw_sent r)) (ib_data b)"
    using ib_WriteToTCPFd_spec [of b n r call, OF wf assms(2) call] by blast
  have "ib_size b' = ib_size b \<and> ib_min_chunk b' = ib_min_chunk b"
    using b'(1) unfolding ib_WriteToTCPFd_def by (rule ib_send_size)
  then show ?thesis
    using b' fits by (auto simp: ib_fits_def)
qed

lemma ib_Ignore_size: "ib_size (snd (ib_Ignore b n)) = ib_size b \<and> ib_min_chunk (snd (ib_Ignore b n)) = ib_min_chunk b"
  by (simp add: ib_Ignore_def ib_Recycle_def)

section \<open>A buffer is a queue of bytes\<close>

text \<open>
  The contract its users rely on: what is put is appended to the contents, what is consumed leaves
  from the front, whatever memory management happens in between, as long as the bytes that wait stay within a
  capacity.
\<close>

datatype 'a fifo_op = Put "'a list" | Get nat

fun fifo_run ::
  "('a list \<Rightarrow> 'b \<Rightarrow> 'b option) \<Rightarrow> (nat \<Rightarrow> 'b \<Rightarrow> 'b) \<Rightarrow> 'a fifo_op list \<Rightarrow> 'b \<Rightarrow> 'b option" where
  "fifo_run put get [] b = Some b"
| "fifo_run put get (Put xs # ops) b = Option.bind (put xs b) (fifo_run put get ops)"
| "fifo_run put get (Get n # ops) b = fifo_run put get ops (get n b)"

fun fifo_spec :: "nat \<Rightarrow> 'a fifo_op list \<Rightarrow> 'a list \<Rightarrow> 'a list option" where
  "fifo_spec cap [] q = Some q"
| "fifo_spec cap (Put xs # ops) q = (if length q + length xs \<le> cap then fifo_spec cap ops (q @ xs) else None)"
| "fifo_spec cap (Get n # ops) q = (if n \<le> length q then fifo_spec cap ops (drop n q) else None)"

locale byte_fifo =
  fixes ok :: "'b \<Rightarrow> bool"
    and contents :: "'b \<Rightarrow> 'a list"
    and cap :: nat
    and put :: "'a list \<Rightarrow> 'b \<Rightarrow> 'b option"
    and get :: "nat \<Rightarrow> 'b \<Rightarrow> 'b"
  assumes put_law: "ok b \<Longrightarrow> length (contents b) + length xs \<le> cap \<Longrightarrow>
      \<exists>b'. put xs b = Some b' \<and> ok b' \<and> contents b' = contents b @ xs"
    and get_law: "ok b \<Longrightarrow> n \<le> length (contents b) \<Longrightarrow> ok (get n b) \<and> contents (get n b) = drop n (contents b)"
begin

lemma run_refines:
  "ok b \<Longrightarrow> fifo_spec cap ops (contents b) = Some q \<Longrightarrow> \<exists>b'. fifo_run put get ops b = Some b' \<and> ok b' \<and> contents b' = q"
proof (induction ops arbitrary: b)
  case (Cons op ops)
  show ?case
  proof (cases op)
    case (Put xs)
    then have "length (contents b) + length xs \<le> cap"
      using Cons.prems by (simp split: if_splits)
    then obtain b1 where "put xs b = Some b1" "ok b1" "contents b1 = contents b @ xs"
      using put_law Cons.prems(1) by blast
    then show ?thesis
      using Cons Put by (simp split: if_splits)
  next
    case (Get n)
    then show ?thesis
      using Cons get_law [of b n] by (fastforce split: if_splits)
  qed
qed simp

end

definition ib_put :: "byte list \<Rightarrow> iobuf \<Rightarrow> iobuf option" where
  "ib_put bs b = map_option snd (ib_ReadFromBuffer b (map Some bs) (length bs))"

definition ib_get :: "nat \<Rightarrow> iobuf \<Rightarrow> iobuf" where
  "ib_get n b = snd (ib_Ignore b n)"

interpretation ibq: byte_fifo "\<lambda>b. ib_fits s b \<and> s \<le> 2 ^ 28" ib_data s ib_put ib_get for s
proof
  fix b :: iobuf and xs :: "byte list"
  assume b: "ib_fits s b \<and> s \<le> 2 ^ 28" "length (ib_data b) + length xs \<le> s"
  then show "\<exists>b'. ib_put xs b = Some b' \<and> (ib_fits s b' \<and> s \<le> 2 ^ 28) \<and> ib_data b' = ib_data b @ xs"
    using ib_ReadFromBuffer_fits [of s b xs "[]"] by (auto simp: ib_put_def)
next
  fix b :: iobuf and n :: nat
  assume b: "ib_fits s b \<and> s \<le> 2 ^ 28" "n \<le> length (ib_data b)"
  then have "ib_wf b"
    by (simp add: ib_fits_def)
  from ib_Ignore_spec [OF this b(2)] b ib_Ignore_size [of b n]
  show "(ib_fits s (ib_get n b) \<and> s \<le> 2 ^ 28) \<and> ib_data (ib_get n b) = drop n (ib_data b)"
    by (auto simp: ib_get_def ib_dropped_def ib_fits_def)
qed

section \<open>The 32-bit growth computation\<close>

definition ib_full :: "nat \<Rightarrow> byte \<Rightarrow> iobuf" where
  "ib_full n x = ib_new\<lparr>ib_buffer := Some (replicate n (Some x)), ib_size := n, ib_published := n\<rparr>"

lemma ib_full_grow: "4096 < n \<Longrightarrow> n < 2 ^ 32 \<Longrightarrow> ib_grow (ib_full (3 * 2 ^ 32) x) n = 4096"
  by (simp add: ib_grow_def ib_full_def ib_new_def u64_small sub64_le u32_def)

lemma ib_full_truncates:
  assumes g: "ib_grow (ib_full N x) n = g" and "0 < N" "0 < n" "g < n" "N + n < 2 ^ 63"
  shows "\<exists>b'. ib_EnsureSize (ib_full N x) n = Some (True, b') \<and>
     length (ib_block b') = ib_published b' + g \<and> ib_ReadFromBuffer (ib_full N x) src n = None"
proof -
  let ?b = "ib_full N x"
  have sel: "ib_published ?b = N" "ib_consumed ?b = 0" "ib_size ?b = N"
    "ib_buffer ?b = Some (replicate N (Some x))"
    by (simp_all add: ib_full_def ib_new_def)
  have move: "ib_MoveData ?b = Some (True, ?b)"
    using assms by (simp add: ib_MoveData_def ib_avail_def sel sub64_le)
  have "u64 (N + n) = N + n" "u64 (N + g) = N + g"
    using assms by (simp_all add: u64_small)
  then have ens: "ib_EnsureSize ?b n = Some (True,
      ?b\<lparr>ib_buffer := Some (replicate N (Some x) @ replicate g None), ib_size := N + g\<rparr>)"
    using assms by (simp add: ib_EnsureSize_def sel move mem_read_def mem_write_def g Let_def)
  moreover have "ib_ReadFromBuffer ?b src n = None"
    using assms by (simp add: ib_ReadFromBuffer_def ens mem_read_def mem_write_def sel)
  ultimately show ?thesis
    by (simp add: sel)
qed

section \<open>Properties\<close>

text \<open>
  C1: The buffer is a queue of bytes. Any sequence of writes into it and consumptions from it, however long and with
  whatever block moves and reallocations, leaves exactly what the same sequence leaves in a list to which writes append
  and from which consumptions drop, without undefined behaviour, as long as no consumption exceeds the bytes that wait and
  no write makes them more than a limit of at most 256 MiB; the block then never exceeds three times that limit and
  one minimal chunk.
\<close>
theorem iobuffer_refines_queue:
  assumes "ib_fits s b" and "s \<le> 2 ^ 28" and "fifo_spec s ops (ib_data b) = Some q"
  shows "\<exists>b'. fifo_run ib_put ib_get ops b = Some b' \<and> ib_wf b' \<and> ib_data b' = q \<and> ib_size b' \<le> 3 * s + ib_min_chunk b'"
  using ibq.run_refines [of s b ops q] assms by (auto simp: ib_fits_def)

lemma iobuffer_refines_queue_witness:
  "\<exists>b'. fifo_run ib_put ib_get [Put [1, 2, 3], Get 2, Put [4, 5], Get 1] ib_new = Some b' \<and>
     ib_wf b' \<and> ib_data b' = [4, 5]"
  using iobuffer_refines_queue [of 3 ib_new "[Put [1, 2, 3], Get 2, Put [4, 5], Get 1]" "[4, 5]"]
  by auto

text \<open>
  \<open>EnsureSize\<close> succeeds, keeps the bytes waiting, and leaves at least the room asked for
  after \<open>published_\<close>, for a request that ends below 2 GiB.
\<close>
theorem EnsureSize_room:
  assumes "ib_wf b" and "ib_published b + n \<le> 2 ^ 31"
  shows "\<exists>b'. ib_EnsureSize b n = Some (True, b') \<and> ib_wf b' \<and> ib_data b' = ib_data b \<and>
     ib_published b' + n \<le> length (ib_block b')"
  using ib_EnsureSize_spec [OF assms] by (auto simp: ib_same_def ib_wf_def)

lemma EnsureSize_room_witness:
  "\<exists>b'. ib_EnsureSize ib_new 5000 = Some (True, b') \<and> ib_wf b' \<and> ib_data b' = ib_data ib_new \<and>
     ib_published b' + 5000 \<le> length (ib_block b')"
  using EnsureSize_room [of ib_new 5000] by simp

text \<open>
  Above that bound the growth is computed in 32 bits and truncates: on a full block of
  12 GiB a request of 5000 bytes is granted with room for 4096 only, and storing the 5000 bytes
  writes past the block.
\<close>
theorem EnsureSize_truncates:
  "\<exists>b'. ib_EnsureSize (ib_full (3 * 2 ^ 32) x) 5000 = Some (True, b') \<and>
     length (ib_block b') = ib_published b' + 4096 \<and>
     ib_ReadFromBuffer (ib_full (3 * 2 ^ 32) x) src 5000 = None"
  by (rule ib_full_truncates [OF ib_full_grow]) simp_all

end
