(* ===== verification/Containers.thy ===== *)
theory Containers
  imports Prelude
begin

text \<open>
  The intrusive containers of \<open>include/utils/container.h\<close>. Their elements carry the links
  themselves, so an operation changes a heap of nodes: a map from addresses to nodes, where an
  address outside the map was never allocated or has been deleted. An operation that follows a null
  pointer or touches such an address has the result \<^term>\<open>None\<close>.

  The doubly linked containers share one interface, the locale \<open>registry\<close> below; \<open>DoublyList\<close> and
  \<open>BidirectionalList\<close> are interpretations of it, and so is the timeout manager of theory
  \<open>Timers\<close>. The command queue \<open>CycleList\<close> is an
  interpretation of the locale \<open>simulation\<close> with an abstract pair of queues.
\<close>

named_theorems heap_simps \<open>reads and writes of heap nodes\<close>

section \<open>Heaps of nodes\<close>

definition heap_mod :: "nat \<Rightarrow> ('n \<Rightarrow> 'n) \<Rightarrow> (nat \<rightharpoonup> 'n) \<Rightarrow> (nat \<rightharpoonup> 'n)" where
  "heap_mod a f h = h(a := map_option f (h a))"

definition heap_put :: "nat \<Rightarrow> ('n \<Rightarrow> 'n) \<Rightarrow> (nat \<rightharpoonup> 'n) \<Rightarrow> (nat \<rightharpoonup> 'n) option" where
  "heap_put a f h = (if h a = None then None else Some (heap_mod a f h))"

lemma heap_mod_apply [heap_simps]:
  "heap_mod a f h b = (if b = a then map_option f (h a) else h b)"
  by (simp add: heap_mod_def)

lemma dom_heap_mod [simp]: "dom (heap_mod a f h) = dom h"
  by (auto simp: heap_mod_def split: if_splits)

lemma heap_put_Some [heap_simps]: "h a = Some n \<Longrightarrow> heap_put a f h = Some (heap_mod a f h)"
  by (simp add: heap_put_def)

lemma heap_put_dom: "a \<in> dom h \<Longrightarrow> heap_put a f h = Some (heap_mod a f h)"
  by (auto simp: heap_put_def)

section \<open>Doubly linked segments\<close>

record dnode =
  dn_prev :: "nat option"
  dn_next :: "nat option"

record bnode = dnode +
  bn_is_add :: bool

text \<open>
  \<open>dseg h p xs q\<close>: the nodes \<open>xs\<close> are linked in this order, the first one points back to \<open>p\<close> and
  the last one on to \<open>q\<close>.
\<close>

fun dseg :: "(nat \<rightharpoonup> 'x dnode_scheme) \<Rightarrow> nat option \<Rightarrow> nat list \<Rightarrow> nat option \<Rightarrow> bool" where
  "dseg h p [] q \<longleftrightarrow> True"
| "dseg h p (x # xs) q \<longleftrightarrow>
     (case h x of None \<Rightarrow> False
      | Some n \<Rightarrow> dn_prev n = p \<and> dn_next n = (case xs of [] \<Rightarrow> q | y # _ \<Rightarrow> Some y)) \<and>
     dseg h (Some x) xs q"

definition first_or :: "nat list \<Rightarrow> nat option \<Rightarrow> nat option" where
  "first_or xs q = (case xs of [] \<Rightarrow> q | x # _ \<Rightarrow> Some x)"

definition last_or :: "nat option \<Rightarrow> nat list \<Rightarrow> nat option" where
  "last_or p xs = (if xs = [] then p else Some (last xs))"

lemma first_or_simps [simp]:
  "first_or [] q = q" "first_or (x # xs) q = Some x"
  "first_or (xs @ ys) q = first_or xs (first_or ys q)"
  by (auto simp: first_or_def split: list.splits)

lemma last_or_simps [simp]:
  "last_or p [] = p" "last_or p (x # xs) = last_or (Some x) xs" "last_or p (xs @ [x]) = Some x"
  "last_or p (xs @ ys) = last_or (last_or p xs) ys"
  by (auto simp: last_or_def)

lemma first_or_hd: "xs \<noteq> [] \<Longrightarrow> first_or xs q = Some (hd xs)"
  by (cases xs) auto

lemma last_or_last: "xs \<noteq> [] \<Longrightarrow> last_or p xs = Some (last xs)"
  by (simp add: last_or_def)

lemma dseg_append: "dseg h p (xs @ ys) q \<longleftrightarrow> dseg h p xs (first_or ys q) \<and> dseg h (last_or p xs) ys q"
  by (induction xs arbitrary: p) (auto simp: first_or_def last_or_def split: option.splits list.splits)

lemma dseg_cong:
  assumes "\<And>x. x \<in> set xs \<Longrightarrow> map_option (\<lambda>n. (dn_prev n, dn_next n)) (h x) = map_option (\<lambda>n. (dn_prev n, dn_next n)) (h' x)"
  shows "dseg h p xs q \<longleftrightarrow> dseg h' p xs q"
  using assms
proof (induction xs arbitrary: p)
  case (Cons x xs)
  from Cons.prems [of x] Cons.IH [of "Some x"] Cons.prems show ?case
    by (cases "h x"; cases "h' x") auto
qed simp

lemma dseg_mod_other [heap_simps]: "x \<notin> set xs \<Longrightarrow> dseg (heap_mod x f h) p xs q \<longleftrightarrow> dseg h p xs q"
  by (rule dseg_cong) (auto simp: heap_simps)

lemma dseg_mod_flag:
  assumes "\<And>n. dn_prev (f n) = dn_prev n" and "\<And>n. dn_next (f n) = dn_next n"
  shows "dseg (heap_mod x f h) p xs q \<longleftrightarrow> dseg h p xs q"
  by (rule dseg_cong) (auto simp: heap_simps assms option.map_comp comp_def)

lemma dseg_set_next:
  assumes "dseg h p xs q" and "distinct xs" and "xs \<noteq> []"
  shows "dseg (heap_mod (last xs) (\<lambda>n. n\<lparr>dn_next := q'\<rparr>) h) p xs q'"
proof -
  obtain ys y where xs: "xs = ys @ [y]"
    using assms(3) by (cases xs rule: rev_cases) auto
  then show ?thesis
    using assms(1,2) by (auto simp: dseg_append heap_simps split: option.splits)
qed

lemma dseg_set_prev:
  assumes "dseg h p xs q" and "distinct xs" and "xs \<noteq> []"
  shows "dseg (heap_mod (hd xs) (\<lambda>n. n\<lparr>dn_prev := p'\<rparr>) h) p' xs q"
  using assms by (cases xs) (auto simp: heap_simps split: option.splits list.splits)

lemma dseg_dom: "dseg h p xs q \<Longrightarrow> set xs \<subseteq> dom h"
  by (induction xs arbitrary: p) (auto split: option.splits)

lemma dseg_member:
  assumes "dseg h p (as @ d # bs) q"
  obtains n where "h d = Some n" and "dn_prev n = last_or p as" and "dn_next n = first_or bs q"
  using assms by (auto simp: dseg_append first_or_def split: option.splits)

section \<open>The interface of the linked containers\<close>

text \<open>
  What a user of an intrusive list relies on: \<open>holds s xs\<close> says that the container holds exactly
  the elements \<open>xs\<close>, in this order; \<open>known s\<close> are the allocated nodes.
\<close>

locale registry =
  fixes holds :: "'s \<Rightarrow> nat list \<Rightarrow> bool"
    and known :: "'s \<Rightarrow> nat set"
    and add :: "nat \<Rightarrow> 's \<Rightarrow> 's option"
    and rem :: "nat \<Rightarrow> 's \<Rightarrow> 's option"
  assumes holds_distinct: "holds s xs \<Longrightarrow> distinct xs"
    and holds_known: "holds s xs \<Longrightarrow> set xs \<subseteq> known s"
    and add_new: "holds s xs \<Longrightarrow> d \<in> known s \<Longrightarrow> d \<notin> set xs \<Longrightarrow>
      \<exists>s'. add d s = Some s' \<and> holds s' (xs @ [d]) \<and> known s' = known s"
    and rem_any: "holds s xs \<Longrightarrow> d \<in> known s \<Longrightarrow>
      \<exists>s'. rem d s = Some s' \<and> holds s' (remove1 d xs) \<and> known s' = known s"
begin

lemma readd_last:
  assumes "holds s xs" and "d \<in> known s"
  shows "\<exists>s'. Option.bind (rem d s) (add d) = Some s' \<and> holds s' (remove1 d xs @ [d]) \<and> known s' = known s"
proof -
  obtain s1 where s1: "rem d s = Some s1" "holds s1 (remove1 d xs)" "known s1 = known s"
    using rem_any [OF assms] by blast
  moreover have "d \<notin> set (remove1 d xs)"
    using holds_distinct [OF assms(1)] by simp
  ultimately show ?thesis
    using add_new [OF s1(2), of d] assms(2) by auto
qed

lemma add_then_rem:
  assumes "holds s xs" and "d \<in> known s" and "d \<notin> set xs"
  shows "\<exists>s'. Option.bind (add d s) (rem d) = Some s' \<and> holds s' xs"
proof -
  obtain s1 where s1: "add d s = Some s1" "holds s1 (xs @ [d])" "known s1 = known s"
    using add_new [OF assms] by blast
  then show ?thesis
    using rem_any [OF s1(2), of d] assms(2,3) by (auto simp: remove1_append)
qed

end

text \<open>Most users add without looking: an element that is already there stays where it is.\<close>

datatype seq_op = SeqAdd (seq_elem: nat) | SeqRemove (seq_elem: nat)

fun seq_spec :: "seq_op \<Rightarrow> nat list \<Rightarrow> nat list" where
  "seq_spec (SeqAdd d) xs = (if d \<in> set xs then xs else xs @ [d])"
| "seq_spec (SeqRemove d) xs = remove1 d xs"

fun seq_calls :: "(nat \<Rightarrow> 's \<Rightarrow> 's option) \<Rightarrow> (nat \<Rightarrow> 's \<Rightarrow> 's option) \<Rightarrow> seq_op list \<Rightarrow> 's \<Rightarrow> 's option" where
  "seq_calls add rem [] s = Some s"
| "seq_calls add rem (SeqAdd d # es) s = do { s1 \<leftarrow> add d s; seq_calls add rem es s1 }"
| "seq_calls add rem (SeqRemove d # es) s = do { s1 \<leftarrow> rem d s; seq_calls add rem es s1 }"

locale idempotent_registry = registry +
  assumes add_again: "holds s xs \<Longrightarrow> d \<in> set xs \<Longrightarrow> add d s = Some s"
begin

lemma calls_hold:
  assumes "holds s xs" and "seq_elem ` set es \<subseteq> known s"
  shows "\<exists>s'. seq_calls add rem es s = Some s' \<and> holds s' (fold seq_spec es xs) \<and> known s' = known s"
  using assms
proof (induction es arbitrary: s xs)
  case (Cons e es)
  have known: "seq_elem e \<in> known s"
    using Cons.prems(2) by simp
  have "\<exists>s1. (case e of SeqAdd d \<Rightarrow> add d s | SeqRemove d \<Rightarrow> rem d s) = Some s1 \<and> holds s1 (seq_spec e xs) \<and>
      known s1 = known s"
    using add_new [OF Cons.prems(1) known] add_again [OF Cons.prems(1), of "seq_elem e"]
      rem_any [OF Cons.prems(1) known] Cons.prems(1)
    by (cases e; cases "seq_elem e \<in> set xs") simp_all
  then obtain s1 where s1: "(case e of SeqAdd d \<Rightarrow> add d s | SeqRemove d \<Rightarrow> rem d s) = Some s1"
    "holds s1 (seq_spec e xs)" "known s1 = known s"
    by blast
  show ?case
    using Cons.IH [OF s1(2)] Cons.prems(2) s1 by (cases e) simp_all
qed auto

end

section \<open>BidirectionalList\<close>

record 'n bilist =
  bl_heap :: "nat \<rightharpoonup> 'n"
  bl_head :: "nat option"
  bl_tail :: "nat option"

definition bl_Add :: "nat \<Rightarrow> 'x bnode_scheme bilist \<Rightarrow> 'x bnode_scheme bilist option" where
  "bl_Add d l =
     do { n \<leftarrow> bl_heap l d;
          if bn_is_add n then Some l
          else do {
            h1 \<leftarrow> heap_put d (\<lambda>n. n\<lparr>bn_is_add := True\<rparr>) (bl_heap l);
            case bl_head l of
              None \<Rightarrow> Some (l\<lparr>bl_heap := h1, bl_head := Some d, bl_tail := Some d\<rparr>)
            | Some _ \<Rightarrow> do {
                h2 \<leftarrow> heap_put d (\<lambda>n. n\<lparr>dn_prev := bl_tail l\<rparr>) h1;
                t \<leftarrow> bl_tail l;
                h3 \<leftarrow> heap_put t (\<lambda>n. n\<lparr>dn_next := Some d\<rparr>) h2;
                Some (l\<lparr>bl_heap := h3, bl_tail := Some d\<rparr>)}}}"

definition bl_Remove :: "nat \<Rightarrow> 'x bnode_scheme bilist \<Rightarrow> 'x bnode_scheme bilist option" where
  "bl_Remove d l =
     do { n \<leftarrow> bl_heap l d;
          if \<not> bn_is_add n then Some l
          else do {
            h1 \<leftarrow> heap_put d (\<lambda>n. n\<lparr>bn_is_add := False\<rparr>) (bl_heap l);
            case (dn_prev n, dn_next n) of
              (Some p, Some q) \<Rightarrow> do {
                h2 \<leftarrow> heap_put p (\<lambda>n. n\<lparr>dn_next := Some q\<rparr>) h1;
                h3 \<leftarrow> heap_put q (\<lambda>n. n\<lparr>dn_prev := Some p\<rparr>) h2;
                h4 \<leftarrow> heap_put d (\<lambda>n. n\<lparr>dn_next := None, dn_prev := None\<rparr>) h3;
                Some (l\<lparr>bl_heap := h4\<rparr>)}
            | (None, None) \<Rightarrow> Some (l\<lparr>bl_heap := h1, bl_head := None, bl_tail := None\<rparr>)
            | (None, Some q) \<Rightarrow> do {
                h2 \<leftarrow> heap_put q (\<lambda>n. n\<lparr>dn_prev := None\<rparr>) h1;
                h3 \<leftarrow> heap_put d (\<lambda>n. n\<lparr>dn_next := None\<rparr>) h2;
                Some (l\<lparr>bl_heap := h3, bl_head := Some q\<rparr>)}
            | (Some p, None) \<Rightarrow> do {
                h2 \<leftarrow> heap_put p (\<lambda>n. n\<lparr>dn_next := None\<rparr>) h1;
                h3 \<leftarrow> heap_put d (\<lambda>n. n\<lparr>dn_prev := None\<rparr>) h2;
                Some (l\<lparr>bl_heap := h3, bl_tail := Some p\<rparr>)}}}"

definition bl_Readd :: "nat \<Rightarrow> 'x bnode_scheme bilist \<Rightarrow> 'x bnode_scheme bilist option" where
  "bl_Readd d l = do { l1 \<leftarrow> bl_Remove d l; bl_Add d l1 }"

text \<open>
  The representation: the nodes \<open>xs\<close> are linked from \<open>head_\<close> to \<open>tail_\<close>, they are exactly the ones
  marked as added, and every other node has null links.
\<close>

definition bi_links :: "(nat \<rightharpoonup> 'x bnode_scheme) \<Rightarrow> nat option \<Rightarrow> nat option \<Rightarrow> nat list \<Rightarrow> bool" where
  "bi_links h hd' tl' xs \<longleftrightarrow> distinct xs \<and> dseg h None xs None \<and> hd' = first_or xs None \<and> tl' = last_or None xs \<and>
     (\<forall>x n. h x = Some n \<longrightarrow> bn_is_add n = (x \<in> set xs) \<and> (x \<notin> set xs \<longrightarrow> dn_prev n = None \<and> dn_next n = None))"

definition bl_holds :: "'x bnode_scheme bilist \<Rightarrow> nat list \<Rightarrow> bool" where
  "bl_holds l xs \<longleftrightarrow> bi_links (bl_heap l) (bl_head l) (bl_tail l) xs"

definition bl_known :: "'x bnode_scheme bilist \<Rightarrow> nat set" where
  "bl_known l = dom (bl_heap l)"

lemma bi_linksD:
  assumes "bi_links h hd' tl' xs"
  shows "distinct xs" and "dseg h None xs None" and "hd' = first_or xs None" and "tl' = last_or None xs"
    and "set xs \<subseteq> dom h"
    and "h x = Some n \<Longrightarrow> bn_is_add n = (x \<in> set xs)"
    and "h x = Some n \<Longrightarrow> x \<notin> set xs \<Longrightarrow> dn_prev n = None \<and> dn_next n = None"
  using assms dseg_dom [of h None xs None] by (auto simp: bi_links_def)

text \<open>The heap after an element has been linked behind the last one, and after one has been unlinked.\<close>

definition bi_linked :: "nat \<Rightarrow> nat option \<Rightarrow> (nat \<rightharpoonup> 'x bnode_scheme) \<Rightarrow> (nat \<rightharpoonup> 'x bnode_scheme)" where
  "bi_linked d t h =
     (case t of None \<Rightarrow> heap_mod d (\<lambda>n. n\<lparr>bn_is_add := True\<rparr>) h
      | Some t \<Rightarrow> heap_mod t (\<lambda>n. n\<lparr>dn_next := Some d\<rparr>)
          (heap_mod d (\<lambda>n. n\<lparr>dn_prev := Some t\<rparr>) (heap_mod d (\<lambda>n. n\<lparr>bn_is_add := True\<rparr>) h)))"

lemma bi_links_linked:
  assumes inv: "bi_links h hd' tl' xs" and d: "d \<in> dom h" "d \<notin> set xs"
  shows "bi_links (bi_linked d tl' h) (first_or (xs @ [d]) None) (Some d) (xs @ [d])"
proof -
  note D = bi_linksD [OF inv]
  obtain n where n: "h d = Some n" "dn_prev n = None" "dn_next n = None"
    using d D(7) by blast
  show ?thesis
  proof (cases "xs = []")
    case True
    then show ?thesis
      using inv n D(4) by (auto simp: bi_links_def bi_linked_def heap_simps)
  next
    case False
    then have t: "tl' = Some (last xs)" and ne: "last xs \<noteq> d"
      using D(4) d(2) by (auto simp: last_or_def)
    have "dseg (heap_mod (last xs) (\<lambda>n. n\<lparr>dn_next := Some d\<rparr>)
        (heap_mod d (\<lambda>n. n\<lparr>dn_prev := Some (last xs)\<rparr>) (heap_mod d (\<lambda>n. n\<lparr>bn_is_add := True\<rparr>) h))) None xs (Some d)"
      using D(1,2) False d(2) by (intro dseg_set_next [where q = None]) (simp_all add: heap_simps)
    then show ?thesis
      using inv n False t ne d(2)
      by (auto simp: bi_links_def bi_linked_def dseg_append heap_simps last_or_def split: if_splits)
  qed
qed

text \<open>Unlinking is right when the two remaining parts are joined and only links have changed.\<close>

lemma bi_links_unlinked:
  assumes inv: "bi_links h hd' tl' (as @ d # bs)"
    and segs: "dseg h' None as (first_or bs None)" "dseg h' (last_or None as) bs None"
    and d: "\<And>n. h' d = Some n \<Longrightarrow> \<not> bn_is_add n \<and> dn_prev n = None \<and> dn_next n = None"
    and flags: "\<And>x. x \<noteq> d \<Longrightarrow> map_option bn_is_add (h' x) = map_option bn_is_add (h x)"
    and others: "\<And>x. x \<notin> set as \<Longrightarrow> x \<notin> set bs \<Longrightarrow> x \<noteq> d \<Longrightarrow> h' x = h x"
  shows "bi_links h' (first_or (as @ bs) None) (last_or None (as @ bs)) (as @ bs)"
proof -
  note D = bi_linksD [OF inv]
  have "bn_is_add n = (x \<in> set (as @ bs)) \<and> (x \<notin> set (as @ bs) \<longrightarrow> dn_prev n = None \<and> dn_next n = None)"
    if x: "h' x = Some n" for x n
  proof (cases "x = d")
    case True
    then show ?thesis
      using d [of n] x D(1) by auto
  next
    case False
    then obtain m where m: "h x = Some m" "bn_is_add m = bn_is_add n"
      using flags [OF False] x by (cases "h x") auto
    then show ?thesis
      using False D(6) [OF m(1)] D(7) [OF m(1)] others [of x] x by auto
  qed
  then show ?thesis
    using segs D(1) by (auto simp: bi_links_def dseg_append)
qed

lemma bl_Remove_member:
  assumes inv: "bl_holds l (as @ d # bs)"
  shows "\<exists>l'. bl_Remove d l = Some l' \<and> bl_holds l' (as @ bs) \<and> bl_known l' = bl_known l"
proof -
  let ?h = "bl_heap l"
  have B: "bi_links ?h (bl_head l) (bl_tail l) (as @ d # bs)"
    using inv by (simp add: bl_holds_def)
  note D = bi_linksD [OF B]
  obtain n where n: "?h d = Some n" "dn_prev n = last_or None as" "dn_next n = first_or bs None"
    using D(2) by (rule dseg_member)
  have add: "bn_is_add n"
    using D(6) [OF n(1)] by simp
  define h1 where "h1 = heap_mod d (\<lambda>n. n\<lparr>bn_is_add := False\<rparr>) ?h"
  have dist: "distinct as" "distinct bs" "d \<notin> set as" "d \<notin> set bs" "set as \<inter> set bs = {}"
    using D(1) by auto
  have segs: "dseg h1 None as (Some d)" "dseg h1 (Some d) bs None"
    using D(2) dist by (auto simp: h1_def dseg_append heap_simps)
  have dom: "d \<in> dom h1" "set as \<subseteq> dom h1" "set bs \<subseteq> dom h1"
    using D(5) by (auto simp: h1_def)
  have h1: "x \<noteq> d \<Longrightarrow> h1 x = ?h x" "h1 d = Some (n\<lparr>bn_is_add := False\<rparr>)" for x
    using n by (simp_all add: h1_def heap_simps)
  have put: "heap_put d (\<lambda>n. n\<lparr>bn_is_add := False\<rparr>) ?h = Some h1"
    using n by (simp add: h1_def heap_simps)
  note link = bi_links_unlinked [OF B]
  show ?thesis
  proof (cases as rule: rev_cases)
    case Nil
    show ?thesis
    proof (cases bs)
      case bs: Nil
      have "bi_links h1 None None []"
        using link [of h1] Nil bs n h1 by simp
      then show ?thesis
        using Nil bs n add put h1_def by (simp add: bl_Remove_def bl_holds_def bl_known_def)
    next
      case (Cons b bs')
      let ?h2 = "heap_mod b (\<lambda>n. n\<lparr>dn_prev := None\<rparr>) h1"
      let ?h3 = "heap_mod d (\<lambda>n. n\<lparr>dn_next := None\<rparr>) ?h2"
      have "dseg ?h2 None bs None"
        using dseg_set_prev [OF segs(2) dist(2)] Cons by simp
      then have "bi_links ?h3 (Some b) (last_or (Some b) bs') bs"
        using link [of ?h3] Nil Cons dist n h1 by (auto simp: heap_simps option.map_comp comp_def)
      then show ?thesis
        using Nil Cons n add put dom D(4) h1_def
        by (simp add: bl_Remove_def bl_holds_def bl_known_def heap_put_dom)
    qed
  next
    case (snoc as' a)
    let ?h2 = "heap_mod a (\<lambda>n. n\<lparr>dn_next := first_or bs None\<rparr>) h1"
    have as: "dseg ?h2 None as (first_or bs None)"
      using dseg_set_next [OF segs(1) dist(1)] snoc by simp
    have ad: "a \<noteq> d" "a \<notin> set bs"
      using snoc dist by auto
    show ?thesis
    proof (cases bs)
      case Nil
      let ?h3 = "heap_mod d (\<lambda>n. n\<lparr>dn_prev := None\<rparr>) ?h2"
      have "bi_links ?h3 (first_or as None) (Some a) as"
        using link [of ?h3] as Nil snoc dist n h1 ad by (auto simp: heap_simps option.map_comp comp_def)
      then show ?thesis
        using Nil snoc n add put dom D(3) h1_def
        by (simp add: bl_Remove_def bl_holds_def bl_known_def heap_put_dom)
    next
      case (Cons b bs')
      let ?h3 = "heap_mod b (\<lambda>n. n\<lparr>dn_prev := Some a\<rparr>) ?h2"
      let ?h4 = "heap_mod d (\<lambda>n. n\<lparr>dn_next := None, dn_prev := None\<rparr>) ?h3"
      have bd: "b \<noteq> d" "b \<notin> set as"
        using Cons dist by auto
      have "dseg ?h2 (Some d) bs None"
        using segs(2) ad by (simp add: heap_simps)
      then have "dseg ?h3 (Some a) bs None"
        using dseg_set_prev [of ?h2 "Some d" bs None] dist(2) Cons by simp
      then have "bi_links ?h4 (first_or (as @ bs) None) (last_or None (as @ bs)) (as @ bs)"
        using link [of ?h4] as Cons snoc dist n h1 ad bd by (auto simp: heap_simps option.map_comp comp_def)
      then show ?thesis
        using Cons snoc n add put dom D(3,4) h1_def
        by (simp add: bl_Remove_def bl_holds_def bl_known_def heap_put_dom)
    qed
  qed
qed


lemma bl_Add_new:
  assumes "bl_holds l xs" and "d \<in> bl_known l" and "d \<notin> set xs"
  shows "\<exists>l'. bl_Add d l = Some l' \<and> bl_holds l' (xs @ [d]) \<and> bl_known l' = bl_known l"
proof -
  have B: "bi_links (bl_heap l) (bl_head l) (bl_tail l) xs"
    using assms(1) by (simp add: bl_holds_def)
  note D = bi_linksD [OF B]
  obtain n where n: "bl_heap l d = Some n"
    using assms(2) by (auto simp: bl_known_def)
  then have "\<not> bn_is_add n"
    using D(6) assms(3) by blast
  moreover have "bl_head l = None \<longleftrightarrow> xs = []"
    using D(3) by (cases xs) auto
  moreover have "xs \<noteq> [] \<Longrightarrow> last xs \<in> dom (bl_heap l)"
    using D(5) last_in_set by blast
  ultimately show ?thesis
    using bi_links_linked [OF B _ assms(3)] n D(3,4)
    by (cases "xs = []")
      (auto simp: bl_Add_def bl_holds_def bl_known_def bi_linked_def heap_put_dom last_or_def first_or_def
        domI split: list.splits)
qed

lemma bl_Add_again:
  assumes "bl_holds l xs" and "d \<in> set xs"
  shows "bl_Add d l = Some l"
proof -
  have B: "bi_links (bl_heap l) (bl_head l) (bl_tail l) xs"
    using assms(1) by (simp add: bl_holds_def)
  then obtain n where "bl_heap l d = Some n"
    using bi_linksD(5) [OF B] assms(2) by auto
  then show ?thesis
    using bi_linksD(6) [OF B] assms(2) by (simp add: bl_Add_def)
qed

lemma bl_Remove_any:
  assumes "bl_holds l xs" and "d \<in> bl_known l"
  shows "\<exists>l'. bl_Remove d l = Some l' \<and> bl_holds l' (remove1 d xs) \<and> bl_known l' = bl_known l"
proof (cases "d \<in> set xs")
  case True
  then obtain as bs where xs: "xs = as @ d # bs" "d \<notin> set as"
    by (meson split_list_first)
  then show ?thesis
    using bl_Remove_member [of l as d bs] assms(1) by (simp add: remove1_append)
next
  case False
  have B: "bi_links (bl_heap l) (bl_head l) (bl_tail l) xs"
    using assms(1) by (simp add: bl_holds_def)
  obtain n where "bl_heap l d = Some n"
    using assms(2) by (auto simp: bl_known_def)
  then show ?thesis
    using bi_linksD(6) [OF B] False assms(1) by (simp add: bl_Remove_def remove1_idem)
qed

interpretation bil: idempotent_registry bl_holds bl_known bl_Add bl_Remove
proof
  show "bl_holds l xs \<Longrightarrow> distinct xs" for l :: "'a bnode_scheme bilist" and xs
    by (simp add: bl_holds_def bi_links_def)
  show "bl_holds l xs \<Longrightarrow> set xs \<subseteq> bl_known l" for l :: "'a bnode_scheme bilist" and xs
    unfolding bl_holds_def bl_known_def by (rule bi_linksD(5))
qed (use bl_Add_new bl_Add_again bl_Remove_any in blast)+

lemma bl_Readd_spec:
  assumes "bl_holds l xs" and "d \<in> bl_known l"
  shows "\<exists>l'. bl_Readd d l = Some l' \<and> bl_holds l' (remove1 d xs @ [d]) \<and> bl_known l' = bl_known l"
  using bil.readd_last [OF assms] by (simp add: bl_Readd_def)

section \<open>DoublyList\<close>

record 'n dblist =
  dl_heap :: "nat \<rightharpoonup> 'n"
  dl_head :: "nat option"
  dl_count :: int

definition dl_Insert :: "nat \<Rightarrow> 'x dnode_scheme dblist \<Rightarrow> 'x dnode_scheme dblist option" where
  "dl_Insert d l0 =
     (let l = l0\<lparr>dl_count := i32 (dl_count l0 + 1)\<rparr> in
      case dl_head l of
        None \<Rightarrow> do {
          h1 \<leftarrow> heap_put d (\<lambda>n. n\<lparr>dn_prev := Some d\<rparr>) (dl_heap l);
          h2 \<leftarrow> heap_put d (\<lambda>n. n\<lparr>dn_next := Some d\<rparr>) h1;
          Some (l\<lparr>dl_heap := h2, dl_head := Some d\<rparr>)}
      | Some hd' \<Rightarrow> do {
          hn \<leftarrow> dl_heap l hd'; p \<leftarrow> dn_prev hn;
          h1 \<leftarrow> heap_put p (\<lambda>n. n\<lparr>dn_next := Some d\<rparr>) (dl_heap l);
          h2 \<leftarrow> heap_put d (\<lambda>n. n\<lparr>dn_next := Some hd'\<rparr>) h1;
          hn \<leftarrow> h2 hd';
          h3 \<leftarrow> heap_put d (\<lambda>n. n\<lparr>dn_prev := dn_prev hn\<rparr>) h2;
          h4 \<leftarrow> heap_put hd' (\<lambda>n. n\<lparr>dn_prev := Some d\<rparr>) h3;
          Some (l\<lparr>dl_heap := h4\<rparr>)})"

definition dl_Remove :: "nat \<Rightarrow> 'x dnode_scheme dblist \<Rightarrow> (bool \<times> 'x dnode_scheme dblist) option" where
  "dl_Remove d l0 =
     do { n \<leftarrow> dl_heap l0 d;
          case (dn_next n, dn_prev n) of
            (Some q, Some p) \<Rightarrow>
              (let l = l0\<lparr>dl_count := i32 (dl_count l0 - 1)\<rparr> in
               if d = q then do {
                 h1 \<leftarrow> heap_put d (\<lambda>n. n\<lparr>dn_next := None, dn_prev := None\<rparr>) (dl_heap l);
                 Some (True, l\<lparr>dl_heap := h1, dl_head := None\<rparr>)}
               else do {
                 hd' \<leftarrow> if Some d = dl_head l then do { hn \<leftarrow> dl_heap l d; Some (dn_next hn) } else Some (dl_head l);
                 h1 \<leftarrow> heap_put p (\<lambda>n. n\<lparr>dn_next := Some q\<rparr>) (dl_heap l);
                 h2 \<leftarrow> heap_put q (\<lambda>n. n\<lparr>dn_prev := Some p\<rparr>) h1;
                 h3 \<leftarrow> heap_put d (\<lambda>n. n\<lparr>dn_next := None, dn_prev := None\<rparr>) h2;
                 Some (True, l\<lparr>dl_heap := h3, dl_head := hd'\<rparr>)})
          | _ \<Rightarrow> Some (False, l0)}"

definition dl_GetCount :: "'n dblist \<Rightarrow> int" where
  "dl_GetCount l = dl_count l"

fun dl_prev_loop :: "nat \<Rightarrow> 'x dnode_scheme dblist \<Rightarrow> 'x dnode_scheme dblist option" where
  "dl_prev_loop 0 l = Some l"
| "dl_prev_loop (Suc k) l =
     do { hd' \<leftarrow> dl_head l; n \<leftarrow> dl_heap l hd'; dl_prev_loop k (l\<lparr>dl_head := dn_prev n\<rparr>) }"

definition dl_PrevShift :: "int \<Rightarrow> 'x dnode_scheme dblist \<Rightarrow> (nat option \<times> 'x dnode_scheme dblist) option" where
  "dl_PrevShift count l =
     do { l1 \<leftarrow> if 0 < count \<and> dl_head l \<noteq> None then dl_prev_loop (nat count) l else Some l;
          Some (dl_head l1, l1) }"

fun dl_next_loop :: "nat \<Rightarrow> 'x dnode_scheme dblist \<Rightarrow> 'x dnode_scheme dblist option" where
  "dl_next_loop 0 l = Some l"
| "dl_next_loop (Suc k) l =
     do { hd' \<leftarrow> dl_head l; n \<leftarrow> dl_heap l hd'; dl_next_loop k (l\<lparr>dl_head := dn_next n\<rparr>) }"

definition dl_NextShift :: "int \<Rightarrow> 'x dnode_scheme dblist \<Rightarrow> (nat option \<times> 'x dnode_scheme dblist) option" where
  "dl_NextShift count l =
     do { l1 \<leftarrow> if 0 < count \<and> dl_head l \<noteq> None then dl_next_loop (nat count) l else Some l;
          Some (dl_head l1, l1) }"

text \<open>The representation is a ring: the last node points on to the first one, and the first one back.\<close>

definition ring :: "(nat \<rightharpoonup> 'x dnode_scheme) \<Rightarrow> nat list \<Rightarrow> bool" where
  "ring h xs \<longleftrightarrow> dseg h (last_or None xs) xs (first_or xs None)"

definition dl_holds :: "'x dnode_scheme dblist \<Rightarrow> nat list \<Rightarrow> bool" where
  "dl_holds l xs \<longleftrightarrow> distinct xs \<and> ring (dl_heap l) xs \<and> dl_head l = first_or xs None \<and>
     dl_count l = i32 (int (length xs)) \<and>
     (\<forall>x n. dl_heap l x = Some n \<longrightarrow> x \<notin> set xs \<longrightarrow> dn_prev n = None \<and> dn_next n = None)"

definition dl_known :: "'x dnode_scheme dblist \<Rightarrow> nat set" where
  "dl_known l = dom (dl_heap l)"

lemma ring_rotate: "ring h (d # ys) \<longleftrightarrow> ring h (ys @ [d])"
proof (cases "ys = []")
  case False
  have "ring h ([d] @ ys) \<longleftrightarrow> dseg h (Some (last ys)) [d] (Some (hd ys)) \<and> dseg h (Some d) ys (Some d)"
    using False unfolding ring_def dseg_append by (simp add: first_or_hd last_or_last)
  moreover have "ring h (ys @ [d]) \<longleftrightarrow> dseg h (Some d) ys (Some d) \<and> dseg h (Some (last ys)) [d] (Some (hd ys))"
    using False unfolding ring_def dseg_append by (simp add: first_or_hd last_or_last)
  ultimately show ?thesis
    by auto
qed simp

lemma ring_rotate_append: "ring h (as @ bs) \<longleftrightarrow> ring h (bs @ as)"
proof (induction as arbitrary: bs)
  case (Cons a as)
  show ?case
    using ring_rotate [of h a "as @ bs"] Cons.IH [of "bs @ [a]"] by simp
qed simp

lemma ring_ne: "xs \<noteq> [] \<Longrightarrow> ring h xs \<longleftrightarrow> dseg h (Some (last xs)) xs (Some (hd xs))"
  by (simp add: ring_def first_or_hd last_or_last)

lemma i32_i32_add: "i32 (i32 a + b) = i32 (a + b)"
proof -
  have "((a + 2 ^ 31) mod 2 ^ 32 - 2 ^ 31 + b + 2 ^ 31) mod 2 ^ 32 = ((a + 2 ^ 31) mod 2 ^ 32 + b) mod 2 ^ 32"
    by (simp add: algebra_simps)
  also have "\<dots> = (a + b + 2 ^ 31) mod (2 ^ 32 :: int)"
    by (simp only: mod_add_left_eq) (simp add: algebra_simps)
  finally show ?thesis
    by (simp add: i32_def)
qed

lemma dl_holdsD:
  assumes "dl_holds l xs"
  shows "distinct xs" and "ring (dl_heap l) xs" and "dl_head l = first_or xs None"
    and "dl_count l = i32 (int (length xs))" and "set xs \<subseteq> dl_known l"
    and "dl_heap l x = Some n \<Longrightarrow> x \<notin> set xs \<Longrightarrow> dn_prev n = None \<and> dn_next n = None"
  using assms dseg_dom [of "dl_heap l" "last_or None xs" xs] by (auto simp: dl_holds_def ring_def dl_known_def)

lemma dl_Insert_new:
  assumes inv: "dl_holds l xs" and d: "d \<in> dl_known l" "d \<notin> set xs"
  shows "\<exists>l'. dl_Insert d l = Some l' \<and> dl_holds l' (xs @ [d]) \<and> dl_known l' = dl_known l"
proof -
  note D = dl_holdsD [OF inv]
  obtain n where n: "dl_heap l d = Some n" "dn_prev n = None" "dn_next n = None"
    using d D(6) by (auto simp: dl_known_def)
  have cnt: "i32 (dl_count l + 1) = i32 (int (length (xs @ [d])))"
    using i32_i32_add [of "int (length xs)" 1] by (simp add: D(4) add.commute)
  show ?thesis
  proof (cases "xs = []")
    case True
    then show ?thesis
      using inv n D(3) cnt
      by (auto simp: dl_Insert_def dl_holds_def dl_known_def ring_def heap_simps Let_def)
  next
    case False
    let ?h = "dl_heap l" and ?a = "hd xs" and ?z = "last xs"
    have seg: "dseg ?h (Some ?z) xs (Some ?a)"
      using D(2) False by (simp add: ring_ne)
    have az: "?a \<in> set xs" "?z \<in> set xs" "?a \<noteq> d" "?z \<noteq> d"
      using False d(2) by (auto dest: hd_in_set last_in_set)
    obtain ha where ha: "?h ?a = Some ha" "dn_prev ha = Some ?z"
      using seg False by (cases xs) (auto split: option.splits)
    obtain hz where hz: "?h ?z = Some hz"
      using az D(5) by (auto simp: dl_known_def)
    define h1 where "h1 = heap_mod ?z (\<lambda>n. n\<lparr>dn_next := Some d\<rparr>) ?h"
    define h2 where "h2 = heap_mod d (\<lambda>n. n\<lparr>dn_next := Some ?a\<rparr>) h1"
    define h3 where "h3 = heap_mod d (\<lambda>n. n\<lparr>dn_prev := Some ?z\<rparr>) h2"
    define h4 where "h4 = heap_mod ?a (\<lambda>n. n\<lparr>dn_prev := Some d\<rparr>) h3"
    note hs = h1_def h2_def h3_def h4_def
    obtain ha2 where ha2: "h2 ?a = Some ha2" "dn_prev ha2 = Some ?z"
      using ha az by (cases "?a = ?z") (auto simp: h1_def h2_def heap_simps)
    have "dseg h3 (Some ?z) xs (Some d)"
      using dseg_set_next [OF seg D(1) False] d(2) by (simp add: h1_def h2_def h3_def heap_simps)
    then have "dseg h4 (Some d) xs (Some d)"
      unfolding h4_def using D(1) False by (rule dseg_set_prev)
    moreover have "h4 d = Some (n\<lparr>dn_next := Some ?a, dn_prev := Some ?z\<rparr>)"
      using n az by (simp add: hs heap_simps)
    ultimately have "ring h4 (xs @ [d])"
      using False by (simp add: ring_def dseg_append first_or_hd last_or_last)
    moreover have "h4 x = ?h x" if "x \<notin> set (xs @ [d])" for x
      using that az by (auto simp: hs heap_simps)
    moreover have "dom h4 = dom ?h"
      by (simp add: hs)
    moreover have hd': "dl_head l = Some ?a"
      using D(3) False by (simp add: first_or_hd)
    moreover have "dl_Insert d l = Some (l\<lparr>dl_count := i32 (dl_count l + 1), dl_heap := h4\<rparr>)"
    proof -
      have "heap_put ?z (\<lambda>n. n\<lparr>dn_next := Some d\<rparr>) ?h = Some h1"
        "heap_put d (\<lambda>n. n\<lparr>dn_next := Some ?a\<rparr>) h1 = Some h2"
        "heap_put d (\<lambda>n. n\<lparr>dn_prev := Some ?z\<rparr>) h2 = Some h3"
        "heap_put ?a (\<lambda>n. n\<lparr>dn_prev := Some d\<rparr>) h3 = Some h4"
        using n hz ha by (simp_all add: heap_put_dom hs domI)
      then show ?thesis
        using ha ha2 hd' by (simp add: dl_Insert_def)
    qed
    ultimately show ?thesis
      using D(1,6) d(2) cnt False by (auto simp: dl_holds_def dl_known_def first_or_hd)
  qed
qed

lemma dl_Remove_member:
  assumes inv: "dl_holds l (as @ d # bs)"
  shows "\<exists>l'. dl_Remove d l = Some (True, l') \<and> dl_holds l' (as @ bs) \<and> dl_known l' = dl_known l"
proof -
  note D = dl_holdsD [OF inv]
  let ?h = "dl_heap l" and ?ys = "bs @ as"
  have rg: "ring ?h (d # ?ys)"
    using D(2) ring_rotate_append [of ?h as "d # bs"] by simp
  obtain n where n: "?h d = Some n"
    using D(5) by (auto simp: dl_known_def)
  have cnt: "i32 (dl_count l - 1) = i32 (int (length (as @ bs)))"
    using i32_i32_add [of "int (length (as @ d # bs))" "- 1"] by (simp add: D(4))
  show ?thesis
  proof (cases "?ys = []")
    case True
    then have "dn_prev n = Some d" "dn_next n = Some d"
      using rg n by (auto simp: ring_def)
    then show ?thesis
      using True n inv cnt by (auto simp: dl_Remove_def dl_holds_def dl_known_def ring_def heap_simps)
  next
    case False
    let ?a = "hd ?ys" and ?z = "last ?ys"
    have seg: "dseg ?h (Some d) ?ys (Some d)" and links: "dn_prev n = Some ?z" "dn_next n = Some ?a"
    proof -
      have "dseg ?h (Some ?z) (d # ?ys) (Some d)"
        using rg False n by (auto simp: ring_def last_or_def)
      moreover have "(case ?ys of [] \<Rightarrow> Some d | y # _ \<Rightarrow> Some y) = Some ?a"
        using False by (metis first_or_def first_or_hd)
      ultimately show "dseg ?h (Some d) ?ys (Some d)" "dn_prev n = Some ?z" "dn_next n = Some ?a"
        using n by (simp_all del: append_is_Nil_conv last_append hd_append)
    qed
    have ds: "d \<notin> set ?ys" "distinct ?ys"
      using D(1) by auto
    have az: "?a \<in> set ?ys" "?z \<in> set ?ys"
      using False by (rule hd_in_set) (use False in \<open>rule last_in_set\<close>)
    then have ne: "?a \<noteq> d" "?z \<noteq> d"
      using ds(1) by metis+
    have "set ?ys \<subseteq> dom ?h"
      using D(5) by (auto simp: dl_known_def)
    then have dom: "?a \<in> dom ?h" "?z \<in> dom ?h"
      using az by blast+
    define h1 where "h1 = heap_mod ?z (\<lambda>n. n\<lparr>dn_next := Some ?a\<rparr>) ?h"
    define h2 where "h2 = heap_mod ?a (\<lambda>n. n\<lparr>dn_prev := Some ?z\<rparr>) h1"
    define h3 where "h3 = heap_mod d (\<lambda>n. n\<lparr>dn_next := None, dn_prev := None\<rparr>) h2"
    note hs = h1_def h2_def h3_def
    define hd' where "hd' = (if dl_head l = Some d then Some ?a else dl_head l)"
    have "dseg h1 (Some d) ?ys (Some ?a)"
      unfolding h1_def using seg ds(2) False by (rule dseg_set_next)
    then have "dseg h2 (Some ?z) ?ys (Some ?a)"
      unfolding h2_def using ds(2) False by (rule dseg_set_prev)
    then have "dseg h3 (Some ?z) ?ys (Some ?a)"
      unfolding h3_def using ds(1) by (simp add: dseg_mod_other)
    then have "ring h3 ?ys"
      using False ring_ne by blast
    then have "ring h3 (as @ bs)"
      by (simp add: ring_rotate_append)
    moreover have "dn_prev m = None \<and> dn_next m = None" if "h3 x = Some m" "x \<notin> set as" "x \<notin> set bs" for x m
    proof (cases "x = d")
      case True
      then show ?thesis
        using that n ne by (auto simp: hs heap_simps)
    next
      case False
      moreover have "x \<noteq> ?a" "x \<noteq> ?z"
        using that az by (metis Un_iff set_append)+
      ultimately have "h3 x = ?h x"
        by (simp add: hs heap_simps)
      then show ?thesis
        using that False D(6) [of x m] by simp
    qed
    moreover have "dom h3 = dom ?h"
      by (simp add: hs)
    moreover have "hd' = first_or (as @ bs) None"
      using D(1,3) False unfolding hd'_def by (cases as) (auto simp: first_or_def split: list.splits)
    moreover have "dl_Remove d l = Some (True, l\<lparr>dl_count := i32 (dl_count l - 1), dl_heap := h3, dl_head := hd'\<rparr>)"
    proof -
      have "heap_put ?z (\<lambda>n. n\<lparr>dn_next := Some ?a\<rparr>) ?h = Some h1"
        "heap_put ?a (\<lambda>n. n\<lparr>dn_prev := Some ?z\<rparr>) h1 = Some h2"
        "heap_put d (\<lambda>n. n\<lparr>dn_next := None, dn_prev := None\<rparr>) h2 = Some h3"
        using n dom by (simp_all add: heap_put_dom hs domI)
      then show ?thesis
        using n links ne by (simp add: dl_Remove_def hd'_def)
    qed
    ultimately show ?thesis
      using D(1,6) cnt by (auto simp: dl_holds_def dl_known_def)
  qed
qed

lemma dl_Remove_other:
  assumes "dl_holds l xs" and "d \<in> dl_known l" and "d \<notin> set xs"
  shows "dl_Remove d l = Some (False, l)"
  using dl_holdsD(6) [OF assms(1) _ assms(3)] assms(2) by (auto simp: dl_Remove_def dl_known_def)

lemma dl_Remove_any:
  assumes "dl_holds l xs" and "d \<in> dl_known l"
  shows "\<exists>l'. dl_Remove d l = Some (d \<in> set xs, l') \<and> dl_holds l' (remove1 d xs) \<and> dl_known l' = dl_known l"
proof (cases "d \<in> set xs")
  case True
  then obtain as bs where xs: "xs = as @ d # bs" "d \<notin> set as"
    by (meson split_list_first)
  then show ?thesis
    using dl_Remove_member [of l as d bs] assms(1) by (simp add: remove1_append)
next
  case False
  then show ?thesis
    using dl_Remove_other [OF assms False] assms(1) by (simp add: remove1_idem)
qed

interpretation dbl: registry dl_holds dl_known dl_Insert "\<lambda>d l. map_option snd (dl_Remove d l)"
proof
  show "dl_holds l xs \<Longrightarrow> distinct xs" for l :: "'a dnode_scheme dblist" and xs
    by (rule dl_holdsD)
  show "dl_holds l xs \<Longrightarrow> set xs \<subseteq> dl_known l" for l :: "'a dnode_scheme dblist" and xs
    by (rule dl_holdsD)
  show "dl_holds l xs \<Longrightarrow> d \<in> dl_known l \<Longrightarrow>
      \<exists>l'. map_option snd (dl_Remove d l) = Some l' \<and> dl_holds l' (remove1 d xs) \<and> dl_known l' = dl_known l"
    for l :: "'a dnode_scheme dblist" and xs d
    using dl_Remove_any [of l xs d] by auto
qed (rule dl_Insert_new)

lemma dl_next_loop_holds:
  assumes "dl_holds l xs" and "xs \<noteq> []"
  shows "\<exists>l'. dl_next_loop k l = Some l' \<and> dl_holds l' (rotate k xs)"
  using assms
proof (induction k arbitrary: l xs)
  case (Suc k)
  obtain x ys where xs: "xs = x # ys"
    using Suc.prems(2) by (cases xs) auto
  note D = dl_holdsD [OF Suc.prems(1)]
  obtain n where n: "dl_heap l x = Some n" "dn_next n = first_or (ys @ [x]) None"
    using D(2) xs by (auto simp: ring_def first_or_def split: option.splits list.splits)
  have "dl_holds (l\<lparr>dl_head := dn_next n\<rparr>) (ys @ [x])"
    using Suc.prems(1) n xs by (auto simp: dl_holds_def ring_rotate)
  then show ?case
    using Suc.IH [of "l\<lparr>dl_head := dn_next n\<rparr>" "ys @ [x]"] D(3) n xs by (simp add: rotate1_rotate_swap)
qed simp

lemma dl_prev_loop_holds:
  assumes "dl_holds l (rotate k xs)" and "xs \<noteq> []"
  shows "\<exists>l'. dl_prev_loop k l = Some l' \<and> dl_holds l' xs"
  using assms
proof (induction k arbitrary: l)
  case (Suc k)
  obtain x ys where xs: "rotate k xs = x # ys"
    using Suc.prems(2) by (cases "rotate k xs") auto
  then have H: "dl_holds l (ys @ [x])"
    using Suc.prems(1) by simp
  note D = dl_holdsD [OF H]
  obtain y n where n: "dl_head l = Some y" "dl_heap l y = Some n" "dn_prev n = Some x"
    using D(2,3) by (cases ys) (auto simp: ring_def first_or_def split: option.splits)
  have "dl_holds (l\<lparr>dl_head := dn_prev n\<rparr>) (x # ys)"
    using H n by (auto simp: dl_holds_def ring_rotate)
  then show ?case
    using Suc.IH [of "l\<lparr>dl_head := dn_prev n\<rparr>"] Suc.prems(2) xs n by simp
qed simp

lemma dl_empty_head: "dl_holds l xs \<Longrightarrow> dl_head l = None \<longleftrightarrow> xs = []"
  by (cases xs) (auto simp: dl_holds_def)

text \<open>
  Shifting the head of a \<open>DoublyList\<close> forwards by any count rotates the sequence of its elements,
  and shifting it back by the same count restores it; the element returned is the new head. A count
  that is not positive, or an empty list, changes nothing.
\<close>
theorem DoublyList_shift:
  assumes "dl_holds l xs"
  shows "\<exists>l1 l2. dl_NextShift k l = Some (first_or (rotate (nat k) xs) None, l1) \<and>
     dl_holds l1 (rotate (nat k) xs) \<and>
     dl_PrevShift k l1 = Some (first_or xs None, l2) \<and> dl_holds l2 xs"
proof (cases "0 < k \<and> xs \<noteq> []")
  case True
  then obtain l1 where l1: "dl_next_loop (nat k) l = Some l1" "dl_holds l1 (rotate (nat k) xs)"
    using dl_next_loop_holds [OF assms] by blast
  then obtain l2 where l2: "dl_prev_loop (nat k) l1 = Some l2" "dl_holds l2 xs"
    using dl_prev_loop_holds True by blast
  show ?thesis
    using True l1 l2 dl_empty_head [OF assms] dl_empty_head [OF l1(2)] dl_holdsD(3) [OF l1(2)] dl_holdsD(3) [OF l2(2)]
    by (auto simp: dl_NextShift_def dl_PrevShift_def)
next
  case False
  then have "rotate (nat k) xs = xs" "\<not> (0 < k \<and> dl_head l \<noteq> None)"
    using dl_empty_head [OF assms] by auto
  then show ?thesis
    using assms dl_holdsD(3) [OF assms] by (auto simp: dl_NextShift_def dl_PrevShift_def)
qed

section \<open>CycleList\<close>

text \<open>
  The queue that hands commands from one worker to another and gives them back for reuse. The first
  node of either chain is a place holder: the queue starts behind \<open>head_\<close>, the nodes for reuse are
  the ones before the last of the chain of \<open>cycle_head_\<close>. \<open>cl_freed\<close> records the deletions.
\<close>

record cnode =
  cn_next :: "nat option"
  cn_is_free :: bool

record cyclist =
  cl_heap :: "nat \<rightharpoonup> cnode"
  cl_freed :: "nat list"
  cl_head :: nat
  cl_tail :: "nat option"
  cl_cycle_head :: nat
  cl_cycle_tail :: "nat option"

definition cl_new :: "(nat \<rightharpoonup> cnode) \<Rightarrow> nat \<Rightarrow> nat \<Rightarrow> cyclist" where
  "cl_new h head cycle_head =
     \<lparr>cl_heap = h, cl_freed = [], cl_head = head, cl_tail = None, cl_cycle_head = cycle_head, cl_cycle_tail = None\<rparr>"

definition cl_delete :: "nat \<Rightarrow> cyclist \<Rightarrow> cyclist option" where
  "cl_delete a c =
     (if cl_heap c a = None then None else Some (c\<lparr>cl_heap := (cl_heap c)(a := None), cl_freed := cl_freed c @ [a]\<rparr>))"

definition cl_Insert :: "nat \<Rightarrow> cyclist \<Rightarrow> cyclist option" where
  "cl_Insert d c =
     (case cl_tail c of
        Some t \<Rightarrow> do {
          h \<leftarrow> heap_put t (\<lambda>n. n\<lparr>cn_next := Some d\<rparr>) (cl_heap c);
          Some (c\<lparr>cl_heap := h, cl_tail := Some d\<rparr>)}
      | None \<Rightarrow> do {
          h \<leftarrow> heap_put (cl_head c) (\<lambda>n. n\<lparr>cn_next := Some d\<rparr>) (cl_heap c);
          Some (c\<lparr>cl_heap := h, cl_tail := Some d\<rparr>)})"

definition cl_GetData :: "cyclist \<Rightarrow> (nat option \<times> cyclist) option" where
  "cl_GetData c =
     do { hn \<leftarrow> cl_heap c (cl_head c);
          case cn_next hn of
            None \<Rightarrow> Some (None, c)
          | Some tmp \<Rightarrow> do {
              h1 \<leftarrow> heap_put (cl_head c) (\<lambda>n. n\<lparr>cn_next := None\<rparr>) (cl_heap c);
              c1 \<leftarrow> (if cn_is_free hn then cl_delete (cl_head c) (c\<lparr>cl_heap := h1\<rparr>)
                 else case cl_cycle_tail c of
                   Some t \<Rightarrow> do {
                     h2 \<leftarrow> heap_put t (\<lambda>n. n\<lparr>cn_next := Some (cl_head c)\<rparr>) h1;
                     Some (c\<lparr>cl_heap := h2, cl_cycle_tail := Some (cl_head c)\<rparr>)}
                 | None \<Rightarrow> do {
                     h2 \<leftarrow> heap_put (cl_cycle_head c) (\<lambda>n. n\<lparr>cn_next := Some (cl_head c)\<rparr>) h1;
                     Some (c\<lparr>cl_heap := h2, cl_cycle_tail := Some (cl_head c)\<rparr>)});
              Some (Some tmp, c1\<lparr>cl_head := tmp\<rparr>)}}"

partial_function (option) cl_GetCycle :: "cyclist \<Rightarrow> (nat option \<times> cyclist) option" where
  "cl_GetCycle c =
     do { n \<leftarrow> cl_heap c (cl_cycle_head c);
          case cn_next n of
            None \<Rightarrow> Some (None, c)
          | Some q \<Rightarrow> do {
              h \<leftarrow> heap_put (cl_cycle_head c) (\<lambda>n. n\<lparr>cn_next := None\<rparr>) (cl_heap c);
              let c1 = c\<lparr>cl_heap := h, cl_cycle_head := q\<rparr> in
              if cn_is_free n then do { c2 \<leftarrow> cl_delete (cl_cycle_head c) c1; cl_GetCycle c2 }
              else Some (Some (cl_cycle_head c), c1)}}"

text \<open>The destructor follows both chains.\<close>

partial_function (option) cl_delete_chain :: "nat option \<Rightarrow> cyclist \<Rightarrow> cyclist option" where
  "cl_delete_chain p c =
     (case p of None \<Rightarrow> Some c
      | Some a \<Rightarrow> do { n \<leftarrow> cl_heap c a; c1 \<leftarrow> cl_delete a c; cl_delete_chain (cn_next n) c1 })"

definition cl_destroy :: "cyclist \<Rightarrow> cyclist option" where
  "cl_destroy c =
     do { c1 \<leftarrow> cl_delete_chain (Some (cl_head c)) c;
          cl_delete_chain (Some (cl_cycle_head c)) (c1\<lparr>cl_tail := None\<rparr>) }"

fun chain :: "(nat \<rightharpoonup> cnode) \<Rightarrow> nat list \<Rightarrow> bool" where
  "chain h [] \<longleftrightarrow> True"
| "chain h (x # xs) \<longleftrightarrow>
     (case h x of None \<Rightarrow> False | Some n \<Rightarrow> cn_next n = (case xs of [] \<Rightarrow> None | y # _ \<Rightarrow> Some y)) \<and> chain h xs"

text \<open>
  The specification: \<open>q\<close> is the chain of \<open>head_\<close>, its first node the one handed out last, \<open>r\<close> the chain of
  \<open>cycle_head_\<close> and \<open>D\<close> the allocated nodes; \<open>fr\<close> tells the nodes to be freed. Only an allocated node that is in
  neither chain may be inserted.
\<close>

datatype cl_op = ClInsert nat | ClGetData | ClGetCycle

type_synonym cq_state = "nat set \<times> nat list \<times> nat list"

fun cq_cycle :: "(nat \<Rightarrow> bool) \<Rightarrow> nat set \<Rightarrow> nat list \<Rightarrow> nat option \<times> nat set \<times> nat list" where
  "cq_cycle fr D (x # y # r) = (if fr x then cq_cycle fr (D - {x}) (y # r) else (Some x, D, y # r))"
| "cq_cycle fr D r = (None, D, r)"

fun cq_step :: "(nat \<Rightarrow> bool) \<Rightarrow> cl_op \<Rightarrow> cq_state \<Rightarrow> (nat option \<times> cq_state) option" where
  "cq_step fr (ClInsert d) (D, q, r) =
     (if d \<in> D \<and> d \<notin> set q \<and> d \<notin> set r then Some (None, D, q @ [d], r) else None)"
| "cq_step fr ClGetData (D, x # y # q, r) =
     Some (Some y, if fr x then (D - {x}, y # q, r) else (D, y # q, r @ [x]))"
| "cq_step fr ClGetData (D, q, r) = Some (None, D, q, r)"
| "cq_step fr ClGetCycle (D, q, r) = (case cq_cycle fr D r of (out, D', r') \<Rightarrow> Some (out, D', q, r'))"

fun cl_step :: "cl_op \<Rightarrow> cyclist \<Rightarrow> (nat option \<times> cyclist) option" where
  "cl_step (ClInsert d) c = map_option (Pair None) (cl_Insert d c)"
| "cl_step ClGetData c = cl_GetData c"
| "cl_step ClGetCycle c = cl_GetCycle c"

definition cl_repr :: "(nat \<Rightarrow> bool) \<Rightarrow> cyclist \<Rightarrow> cq_state \<Rightarrow> bool" where
  "cl_repr fr c a \<longleftrightarrow>
     (case a of (D, q, r) \<Rightarrow>
        q \<noteq> [] \<and> r \<noteq> [] \<and> distinct (q @ r) \<and> chain (cl_heap c) q \<and> chain (cl_heap c) r \<and> D = dom (cl_heap c) \<and>
        cl_head c = hd q \<and> cl_cycle_head c = hd r \<and>
        (cl_tail c = Some (last q) \<or> cl_tail c = None \<and> tl q = []) \<and>
        (cl_cycle_tail c = Some (last r) \<or> cl_cycle_tail c = None \<and> tl r = []) \<and>
        (\<forall>x n. cl_heap c x = Some n \<longrightarrow> cn_is_free n = fr x \<and> (x \<notin> set q \<longrightarrow> x \<notin> set r \<longrightarrow> cn_next n = None)))"

lemma chain_cong: "(\<And>x. x \<in> set xs \<Longrightarrow> h x = h' x) \<Longrightarrow> chain h xs \<longleftrightarrow> chain h' xs"
  by (induction xs) (auto split: option.splits)

lemma chain_mod_other [heap_simps]: "x \<notin> set xs \<Longrightarrow> chain (heap_mod x f h) xs \<longleftrightarrow> chain h xs"
  by (rule chain_cong) (auto simp: heap_simps)

lemma chain_del_other [heap_simps]: "x \<notin> set xs \<Longrightarrow> chain (h(x := None)) xs \<longleftrightarrow> chain h xs"
  by (rule chain_cong) auto

lemma chain_dom: "chain h xs \<Longrightarrow> set xs \<subseteq> dom h"
  by (induction xs) (auto split: option.splits)

text \<open>Linking a node whose own link is null behind the last one.\<close>

lemma chain_snoc:
  assumes "chain h xs" and "xs \<noteq> []" and "distinct xs" and "d \<notin> set xs" and "h d = Some n" and "cn_next n = None"
  shows "chain (heap_mod (last xs) (\<lambda>n. n\<lparr>cn_next := Some d\<rparr>) h) (xs @ [d])"
  using assms
proof (induction xs)
  case (Cons x xs)
  then show ?case
    by (cases xs) (auto simp: heap_simps split: option.splits)
qed simp

lemma cl_Insert_repr:
  assumes R: "cl_repr fr c (D, q, r)" and d: "d \<in> D" "d \<notin> set q" "d \<notin> set r"
  shows "\<exists>c'. cl_Insert d c = Some c' \<and> cl_repr fr c' (D, q @ [d], r)"
proof -
  obtain n where n: "cl_heap c d = Some n" "cn_next n = None"
    using R d by (auto simp: cl_repr_def)
  let ?h = "heap_mod (last q) (\<lambda>n. n\<lparr>cn_next := Some d\<rparr>) (cl_heap c)"
  have "chain ?h (q @ [d])"
    using R d n by (intro chain_snoc) (auto simp: cl_repr_def)
  moreover have lq: "last q \<in> set q" "last q \<notin> set r" "last q \<in> dom (cl_heap c)"
    using R chain_dom [of "cl_heap c" q] by (auto simp: cl_repr_def dest: last_in_set)
  moreover have "tl q = [] \<Longrightarrow> hd q = last q"
    using R by (cases q) (auto simp: cl_repr_def)
  moreover have "cl_Insert d c = Some (c\<lparr>cl_heap := ?h, cl_tail := Some d\<rparr>)"
    using R lq calculation(5) by (auto simp: cl_Insert_def cl_repr_def heap_put_Some)
  ultimately show ?thesis
    using R d n by (auto simp: cl_repr_def heap_simps split: if_splits)
qed

lemma chain_Cons_next:
  "chain h (x # y # xs) \<longleftrightarrow> (\<exists>n. h x = Some n \<and> cn_next n = Some y) \<and> chain h (y # xs)"
  by (auto split: option.splits)

lemma cl_GetData_repr:
  assumes R: "cl_repr fr c (D, q, r)" and st: "cq_step fr ClGetData (D, q, r) = Some (out, a')"
  shows "\<exists>c'. cl_GetData c = Some (out, c') \<and> cl_repr fr c' a'"
proof (cases q)
  case Nil
  then show ?thesis
    using R by (simp add: cl_repr_def)
next
  case (Cons x q1)
  note q = Cons
  show ?thesis
  proof (cases q1)
    case Nil
    then show ?thesis
      using R st q by (auto simp: cl_repr_def cl_GetData_def split: option.splits)
  next
    case (Cons y q')
    obtain n where n: "cl_heap c x = Some n" "cn_next n = Some y" "cn_is_free n = fr x" and hd: "cl_head c = x"
      using R q Cons by (auto simp: cl_repr_def chain_Cons_next simp del: chain.simps)
    let ?h1 = "heap_mod x (\<lambda>n. n\<lparr>cn_next := None\<rparr>) (cl_heap c)"
    have dist: "x \<notin> set (y # q')" "x \<notin> set r" "distinct (y # q')" "distinct r" "set (y # q') \<inter> set r = {}"
      using R q Cons by (auto simp: cl_repr_def)
    have chains: "chain (cl_heap c) (y # q')" "chain (cl_heap c) r" "r \<noteq> []"
      using R q Cons by (auto simp: cl_repr_def chain_Cons_next simp del: chain.simps)
    have put: "heap_put x (\<lambda>n. n\<lparr>cn_next := None\<rparr>) (cl_heap c) = Some ?h1"
      using n by (simp add: heap_simps)
    show ?thesis
    proof (cases "fr x")
      case True
      let ?c = "c\<lparr>cl_heap := ?h1(x := None), cl_freed := cl_freed c @ [x], cl_head := y\<rparr>"
      have "cl_GetData c = Some (Some y, ?c)"
        using n hd put True by (simp add: cl_GetData_def cl_delete_def heap_simps)
      moreover have "cl_repr fr ?c (D - {x}, y # q', r)"
        using R q Cons dist chains
        by (auto simp: cl_repr_def heap_simps split: if_splits)
      ultimately show ?thesis
        using st True q Cons by auto
    next
      case False
      let ?h2 = "heap_mod (last r) (\<lambda>n. n\<lparr>cn_next := Some x\<rparr>) ?h1"
      let ?c = "c\<lparr>cl_heap := ?h2, cl_cycle_tail := Some x, cl_head := y\<rparr>"
      have lr: "last r \<in> set r" "last r \<in> dom (cl_heap c)" "last r \<noteq> x"
        using chains chain_dom [of "cl_heap c" r] dist(2) last_in_set by fastforce+
      have "tl r = [] \<Longrightarrow> hd r = last r"
        using chains by (cases r) auto
      then have get: "cl_GetData c = Some (Some y, ?c)"
        using n hd put False R lr by (auto simp: cl_GetData_def cl_repr_def heap_put_Some heap_mod_apply)
      have "chain ?h2 (r @ [x])"
        using chains dist n by (intro chain_snoc [where n = "n\<lparr>cn_next := None\<rparr>"]) (simp_all add: heap_simps)
      moreover have "chain ?h2 (y # q')"
        using chains(1) dist lr(1) by (subst chain_mod_other; (subst chain_mod_other)?) auto
      ultimately have "cl_repr fr ?c (D, y # q', r @ [x])"
        using R q Cons dist chains lr
        by (auto simp: cl_repr_def heap_simps simp del: chain.simps split: if_splits)
      then show ?thesis
        using get st False q Cons by auto
    qed
  qed
qed

lemma cl_GetCycle_repr:
  assumes "cl_repr fr c (D, q, r)" and "cq_cycle fr D r = (out, D', r')"
  shows "\<exists>c'. cl_GetCycle c = Some (out, c') \<and> cl_repr fr c' (D', q, r')"
  using assms
proof (induction fr D r arbitrary: c rule: cq_cycle.induct)
  case (1 fr D x y r)
  note R = "1.prems"(1)
  obtain n where n: "cl_heap c x = Some n" "cn_next n = Some y" "cn_is_free n = fr x" and hd: "cl_cycle_head c = x"
    using R by (auto simp: cl_repr_def chain_Cons_next simp del: chain.simps)
  let ?h1 = "heap_mod x (\<lambda>n. n\<lparr>cn_next := None\<rparr>) (cl_heap c)"
  have put: "heap_put x (\<lambda>n. n\<lparr>cn_next := None\<rparr>) (cl_heap c) = Some ?h1"
    using n by (simp add: heap_simps)
  have dist: "x \<notin> set (y # r)" "x \<notin> set q" "distinct (q @ y # r)"
    using R by (auto simp: cl_repr_def)
  have chains: "chain (cl_heap c) (y # r)" "chain (cl_heap c) q"
    using R by (auto simp: cl_repr_def chain_Cons_next simp del: chain.simps)
  let ?c1 = "c\<lparr>cl_heap := ?h1, cl_cycle_head := y\<rparr>"
  show ?case
  proof (cases "fr x")
    case True
    let ?c2 = "?c1\<lparr>cl_heap := ?h1(x := None), cl_freed := cl_freed c @ [x]\<rparr>"
    have "cl_repr fr ?c2 (D - {x}, q, y # r)"
      using R dist chains by (auto simp: cl_repr_def heap_simps simp del: chain.simps split: if_splits)
    moreover have "cl_GetCycle c = cl_GetCycle ?c2"
      using n hd put True by (subst cl_GetCycle.simps) (simp add: cl_delete_def heap_simps)
    ultimately show ?thesis
      using "1.IH" [OF True] "1.prems"(2) True by simp
  next
    case False
    have "cl_repr fr ?c1 (D, q, y # r)"
      using R dist chains by (auto simp: cl_repr_def heap_simps simp del: chain.simps split: if_splits)
    moreover have "cl_GetCycle c = Some (Some x, ?c1)"
      using n hd put False by (subst cl_GetCycle.simps) simp
    ultimately show ?thesis
      using "1.prems"(2) False by auto
  qed
next
  case "2_2"
  then show ?case
    by (subst cl_GetCycle.simps) (auto simp: cl_repr_def split: option.splits)
qed (simp add: cl_repr_def)

lemma cl_step_repr:
  assumes "cl_repr fr c a" and "cq_step fr e a = Some (out, a')"
  shows "\<exists>c'. cl_step e c = Some (out, c') \<and> cl_repr fr c' a'"
proof -
  obtain D q r where a: "a = (D, q, r)"
    by (cases a)
  show ?thesis
  proof (cases e)
    case (ClInsert d)
    then show ?thesis
      using assms cl_Insert_repr [of fr c D q r d] a by (auto split: if_splits)
  next
    case ClGetData
    then show ?thesis
      using assms cl_GetData_repr [of fr c D q r out a'] a by simp
  next
    case ClGetCycle
    then show ?thesis
      using assms cl_GetCycle_repr [of fr c D q r] a by (auto split: prod.splits)
  qed
qed

interpretation cyl: simulation "cl_repr fr" cl_step "cq_step fr"
  by unfold_locales (rule cl_step_repr)

text \<open>What went in, what was handed out and what was given back in a run.\<close>

fun cl_inserted :: "cl_op list \<Rightarrow> nat list" where
  "cl_inserted [] = []"
| "cl_inserted (ClInsert d # es) = d # cl_inserted es"
| "cl_inserted (_ # es) = cl_inserted es"

fun cl_handed :: "cl_op list \<Rightarrow> nat option list \<Rightarrow> nat list" where
  "cl_handed (ClGetData # es) (Some x # rs) = x # cl_handed es rs"
| "cl_handed (_ # es) (_ # rs) = cl_handed es rs"
| "cl_handed _ _ = []"

fun cl_reused :: "cl_op list \<Rightarrow> nat option list \<Rightarrow> nat list" where
  "cl_reused (ClGetCycle # es) (Some x # rs) = x # cl_reused es rs"
| "cl_reused (_ # es) (_ # rs) = cl_reused es rs"
| "cl_reused _ _ = []"

lemma cq_cycle_spec:
  assumes "cq_cycle fr D r = (out, D', r')" and "r \<noteq> []"
  shows "\<exists>gone. r = gone @ r' \<and> r' \<noteq> [] \<and> filter (\<lambda>x. \<not> fr x) gone = (case out of None \<Rightarrow> [] | Some x \<Rightarrow> [x])"
  using assms
proof (induction fr D r rule: cq_cycle.induct)
  case (1 fr D x y r)
  show ?case
  proof (cases "fr x")
    case True
    then obtain gone where "y # r = gone @ r'" "r' \<noteq> []"
      "filter (\<lambda>x. \<not> fr x) gone = (case out of None \<Rightarrow> [] | Some x \<Rightarrow> [x])"
      using "1.IH" "1.prems"(1) by auto
    then show ?thesis
      using True by (intro exI [of _ "x # gone"]) simp
  next
    case False
    then show ?thesis
      using "1.prems"(1) by (intro exI [of _ "[x]"]) auto
  qed
qed auto

lemma cq_run_spec:
  assumes "run_ops (cq_step fr) es (D, q, r) = Some (outs, D', q', r')" and "q \<noteq> []" and "r \<noteq> []"
  shows "q @ cl_inserted es = butlast (hd q # cl_handed es outs) @ q' \<and> q' \<noteq> [] \<and>
     hd q' = last (hd q # cl_handed es outs) \<and>
     (\<exists>gone. r @ filter (\<lambda>x. \<not> fr x) (butlast (hd q # cl_handed es outs)) = gone @ r' \<and>
        cl_reused es outs = filter (\<lambda>x. \<not> fr x) gone)"
  using assms
proof (induction es arbitrary: D q r outs)
  case (Cons e es)
  from Cons.prems(1) obtain out a1 outs1 where a1: "cq_step fr e (D, q, r) = Some (out, a1)"
    "run_ops (cq_step fr) es a1 = Some (outs1, D', q', r')" "outs = out # outs1"
    by (rule run_ops_ConsE)
  show ?case
  proof (cases e)
    case (ClInsert d)
    then have "a1 = (D, q @ [d], r)" "out = None"
      using a1(1) by (auto split: if_splits)
    then show ?thesis
      using Cons.IH [of D "q @ [d]" r outs1] Cons.prems(2,3) a1 ClInsert by simp
  next
    case ClGetCycle
    obtain r1 D1 where c: "cq_cycle fr D r = (out, D1, r1)" "a1 = (D1, q, r1)"
      using a1(1) ClGetCycle by (auto split: prod.splits)
    obtain gone where gone: "r = gone @ r1" "r1 \<noteq> []"
      "filter (\<lambda>x. \<not> fr x) gone = (case out of None \<Rightarrow> [] | Some x \<Rightarrow> [x])"
      using cq_cycle_spec [OF c(1)] Cons.prems(3) by blast
    have IH: "q @ cl_inserted es = butlast (hd q # cl_handed es outs1) @ q' \<and> q' \<noteq> [] \<and>
       hd q' = last (hd q # cl_handed es outs1) \<and>
       (\<exists>gone. r1 @ filter (\<lambda>x. \<not> fr x) (butlast (hd q # cl_handed es outs1)) = gone @ r' \<and>
          cl_reused es outs1 = filter (\<lambda>x. \<not> fr x) gone)"
      using Cons.IH a1(2) c(2) Cons.prems(2) gone(2) by blast
    then obtain gone1 where "r1 @ filter (\<lambda>x. \<not> fr x) (butlast (hd q # cl_handed es outs1)) = gone1 @ r'"
      "cl_reused es outs1 = filter (\<lambda>x. \<not> fr x) gone1"
      by blast
    then show ?thesis
      using IH gone ClGetCycle a1(3) by (cases out) (auto intro!: exI [of _ "gone @ gone1"])
  next
    case ClGetData
    show ?thesis
    proof (cases "tl q = []")
      case True
      then obtain x where "q = [x]"
        using Cons.prems(2) by (cases q) auto
      then show ?thesis
        using Cons.IH [of D q r outs1] Cons.prems a1 ClGetData by simp
    next
      case False
      then obtain x y q1 where q: "q = x # y # q1"
        using Cons.prems(2) by (metis list.collapse)
      then show ?thesis
        using Cons.IH [of D "y # q1" "r @ [x]" outs1] Cons.IH [of "D - {x}" "y # q1" r outs1] Cons.prems(3) a1 ClGetData
        by (auto split: if_splits)
    qed
  qed
qed auto

text \<open>
  C10: In any run of insertions, takes and reuses in which only allocated nodes outside the list are inserted,
  \<open>CycleList\<close> never follows a dangling or null pointer and is a first-in first-out queue: the nodes handed out
  followed by those still waiting are the nodes that were waiting followed by the inserted ones. A node becomes
  reusable only after the next one has been handed out, and the reusable nodes that are not to be freed come
  back in the order in which they were handed out.
\<close>
theorem CycleList_fifo:
  assumes "cl_repr fr c (D, q, r)" and "run_ops (cq_step fr) es (D, q, r) = Some (outs, D', q', r')"
  shows "\<exists>c' gone. run_ops cl_step es c = Some (outs, c') \<and> cl_repr fr c' (D', q', r') \<and>
     tl q @ cl_inserted es = cl_handed es outs @ tl q' \<and>
     r @ filter (\<lambda>x. \<not> fr x) (butlast (hd q # cl_handed es outs)) = gone @ r' \<and>
     cl_reused es outs = filter (\<lambda>x. \<not> fr x) gone"
proof -
  have ne: "q \<noteq> []" "r \<noteq> []"
    using assms(1) by (auto simp: cl_repr_def)
  note S = cq_run_spec [OF assms(2) ne]
  have "tl q @ cl_inserted es = cl_handed es outs @ tl q'"
  proof -
    have "q @ cl_inserted es = (hd q # cl_handed es outs) @ tl q'"
      using S by (metis append_butlast_last_id append_Cons append_Nil append_assoc hd_Cons_tl list.discI)
    then show ?thesis
      using ne(1) by (cases q) auto
  qed
  then show ?thesis
    using cyl.run [OF assms] S by blast
qed

definition cl_demo_heap :: "nat \<rightharpoonup> cnode" where
  "cl_demo_heap = [0 \<mapsto> \<lparr>cn_next = None, cn_is_free = True\<rparr>, 1 \<mapsto> \<lparr>cn_next = None, cn_is_free = True\<rparr>,
     2 \<mapsto> \<lparr>cn_next = None, cn_is_free = False\<rparr>, 3 \<mapsto> \<lparr>cn_next = None, cn_is_free = False\<rparr>]"

lemma CycleList_fifo_witness:
  "\<exists>c' gone. run_ops cl_step [ClInsert 2, ClGetData, ClInsert 3, ClGetData, ClGetCycle] (cl_new cl_demo_heap 0 1) =
       Some ([None, Some 2, None, Some 3, None], c') \<and>
     cl_repr (\<lambda>x. x < 2) c' ({1, 2, 3} - {1}, [3], [2]) \<and>
     tl [0] @ [2, 3] = [2, 3] @ tl [3] \<and> [1] @ [2] = gone @ [2 :: nat] \<and> [] = filter (\<lambda>x. \<not> x < 2) gone"
proof -
  let ?es = "[ClInsert 2, ClGetData, ClInsert 3, ClGetData, ClGetCycle]"
  have D: "dom cl_demo_heap = {0, 1, 2, 3}"
    by (auto simp: cl_demo_heap_def)
  have "cl_repr (\<lambda>x. x < 2) (cl_new cl_demo_heap 0 1) ({0, 1, 2, 3}, [0], [1])"
    unfolding cl_repr_def D [symmetric] by (simp add: cl_new_def) (simp add: cl_demo_heap_def)
  moreover have "run_ops (cq_step (\<lambda>x. x < 2)) ?es ({0, 1, 2, 3}, [0], [1]) =
      Some ([None, Some 2, None, Some 3, None], {1, 2, 3} - {1}, [3], [2])"
    by (simp add: insert_Diff_if)
  ultimately show ?thesis
    using CycleList_fifo [of "\<lambda>x. x < 2" "cl_new cl_demo_heap 0 1" "{0, 1, 2, 3}" "[0]" "[1]" ?es] by fastforce
qed

text \<open>
  A \<open>BidirectionalList\<close> holds the sequence one expects: after any sequence of additions and removals of
  allocated elements it holds the elements added and not removed since, in the order of their (first)
  addition, and \<open>Readd\<close> moves an element to the end.
\<close>
theorem BidirectionalList_sequence:
  assumes "bl_holds l xs" and "seq_elem ` set es \<subseteq> bl_known l" and "d \<in> bl_known l"
  shows "\<exists>l1 l2. seq_calls bl_Add bl_Remove es l = Some l1 \<and> bl_holds l1 (fold seq_spec es xs) \<and>
     bl_Readd d l1 = Some l2 \<and> bl_holds l2 (remove1 d (fold seq_spec es xs) @ [d])"
proof -
  obtain l1 where l1: "seq_calls bl_Add bl_Remove es l = Some l1"
    "bl_holds l1 (fold seq_spec es xs)" "bl_known l1 = bl_known l"
    using bil.calls_hold [OF assms(1,2)] by blast
  then show ?thesis
    using bl_Readd_spec [OF l1(2), of d] assms(3) by auto
qed

definition bl_demo :: "bnode bilist" where
  "bl_demo = \<lparr>bl_heap = (\<lambda>x. if x < 3 then Some \<lparr>dn_prev = None, dn_next = None, bn_is_add = False\<rparr> else None),
     bl_head = None, bl_tail = None\<rparr>"

lemma bl_demo_holds [simp]: "bl_holds bl_demo []" "bl_known bl_demo = {0, 1, 2}"
  by (auto simp: bl_holds_def bi_links_def bl_demo_def bl_known_def split: if_splits)

lemma BidirectionalList_sequence_witness:
  "\<exists>l1 l2. seq_calls bl_Add bl_Remove [SeqAdd 0, SeqAdd 1, SeqAdd 2, SeqAdd 0, SeqRemove 1] bl_demo = Some l1 \<and>
     bl_holds l1 [0, 2] \<and> bl_Readd 0 l1 = Some l2 \<and> bl_holds l2 [2, 0]"
  using BidirectionalList_sequence [of bl_demo "[]" "[SeqAdd 0, SeqAdd 1, SeqAdd 2, SeqAdd 0, SeqRemove 1]" 0]
  by auto

definition dl_demo :: "dnode dblist" where
  "dl_demo = \<lparr>dl_heap = [7 \<mapsto> \<lparr>dn_prev = Some 8, dn_next = Some 8\<rparr>, 8 \<mapsto> \<lparr>dn_prev = Some 7, dn_next = Some 7\<rparr>],
     dl_head = Some 7, dl_count = 2\<rparr>"

lemma dl_demo_holds: "dl_holds dl_demo [7, 8]"
  by (auto simp: dl_demo_def dl_holds_def ring_def i32_def split: if_splits)

lemma DoublyList_shift_witness:
  "\<exists>l1 l2. dl_NextShift 1 dl_demo = Some (first_or (rotate (nat 1) [7, 8]) None, l1) \<and>
     dl_holds l1 (rotate (nat 1) [7, 8]) \<and>
     dl_PrevShift 1 l1 = Some (first_or [7, 8] None, l2) \<and> dl_holds l2 [7, 8]"
  by (rule DoublyList_shift) (rule dl_demo_holds)

end
