(* ===== verification/Net.thy ===== *)
theory Net
  imports IOBuffer Containers
begin

text \<open>
  The event-driven core: \<open>IOHandler\<close>, \<open>IOHandlerManager\<close> (\<open>src/eventdrive/epoll\<close>) and \<open>BaseProcess\<close>
  (\<open>src/eventdrive/baseprocess.cpp\<close>). One record holds what a worker thread sees: the descriptors the process
  has open, the interest list of its epoll instance, the heap of handlers, the heap of processes, the members of the
  net time-out list (theory \<open>Timers\<close> models the list itself) and whether its manager has not been deleted yet, the UDP carriers of the worker, \<open>errno\<close>, and, on the
  kernel's side, the bytes and the datagrams (address and data) it has accepted for each descriptor. An address
  outside a heap was never allocated or has been deleted; following it, or a null pointer, has the
  result \<^term>\<open>None\<close>. The descriptor a handler owns is closed once, and its last close removes it from the
  interest list, as epoll does for a descriptor without duplicates.
\<close>

section \<open>Data\<close>

datatype io_type =
    IOHT_TCP_ACCEPTOR | IOHT_TCP_CONNECTOR | IOHT_TCP_CARRIER | IOHT_UDP_CARRIER
  | IOHT_UNIX_ACCEPTOR | IOHT_UNIX_CONNECTOR | IOHT_UNIX_CARRIER | IOHT_PIPE_CARRIER | IOHT_THREAD_CARRIER

datatype io_flag = IOHT_FLAG_CLOSE_NONE | IOHT_FLAG_CLOSE_FD | IOHT_FLAG_CLOSE_PROCESS | IOHT_FLAG_CLOSE_ALL

text \<open>The tests \<open>flag_ & IOHT_FLAG_CLOSE_FD\<close> and \<open>flag_ & IOHT_FLAG_CLOSE_PROCESS\<close> on the values 0 to 3.\<close>

fun closes_fd :: "io_flag \<Rightarrow> bool" where
  "closes_fd IOHT_FLAG_CLOSE_NONE = False"
| "closes_fd IOHT_FLAG_CLOSE_FD = True"
| "closes_fd IOHT_FLAG_CLOSE_PROCESS = False"
| "closes_fd IOHT_FLAG_CLOSE_ALL = True"

fun closes_process :: "io_flag \<Rightarrow> bool" where
  "closes_process IOHT_FLAG_CLOSE_NONE = False"
| "closes_process IOHT_FLAG_CLOSE_FD = False"
| "closes_process IOHT_FLAG_CLOSE_PROCESS = True"
| "closes_process IOHT_FLAG_CLOSE_ALL = True"

datatype net_status =
    PROCESS_NET_STATUS_DISCONNECT | PROCESS_NET_STATUS_CONNECTING | PROCESS_NET_STATUS_CONNECTED
  | PROCESS_NET_STATUS_PEER_RESET | PROCESS_NET_STATUS_SYS_ERROR | PROCESS_NET_STATUS_TIMEOUT

text \<open>\<open>ih_peer\<close> is \<open>peer_address_\<close> of the TCP and UDP carriers, \<open>ih_name\<close> the name of a pipe.\<close>

record iohandler =
  ih_fd :: int
  ih_managed :: bool
  ih_flag :: io_flag
  ih_process :: "nat option"
  ih_type :: io_type
  ih_peer :: "byte list"
  ih_name :: string

record bproc =
  bp_ex :: bool
  bp_io :: "nat option"
  bp_recv :: nat
  bp_send :: nat
  bp_errno :: nat
  bp_status :: net_status
  bp_write :: bool
  bp_with_me :: bool
  bp_out :: iobuf
  bp_in :: iobuf

record net =
  nt_open :: "int set"
  nt_epoll :: "int \<rightharpoonup> nat \<times> bool"
  nt_hand :: "nat \<rightharpoonup> iohandler"
  nt_proc :: "nat \<rightharpoonup> bproc"
  nt_timeouts :: "nat set"
  nt_manager :: bool
  nt_udp :: "nat set"
  nt_errno :: nat
  nt_wire :: "int \<Rightarrow> byte list"
  nt_dgrams :: "int \<Rightarrow> (byte list \<times> byte list) list"

definition set_hand :: "nat \<Rightarrow> (iohandler \<Rightarrow> iohandler) \<Rightarrow> net \<Rightarrow> net option" where
  "set_hand a f st = map_option (\<lambda>h. st\<lparr>nt_hand := h\<rparr>) (heap_put a f (nt_hand st))"

definition set_proc :: "nat \<Rightarrow> (bproc \<Rightarrow> bproc) \<Rightarrow> net \<Rightarrow> net option" where
  "set_proc p f st = map_option (\<lambda>h. st\<lparr>nt_proc := h\<rparr>) (heap_put p f (nt_proc st))"

section \<open>The interest list\<close>

text \<open>
  \<open>epoll_ctl\<close> by its documentation: \<open>ADD\<close> fails on a registered descriptor, \<open>MOD\<close> and \<open>DEL\<close> on one that is
  not, all on a descriptor that is not open. An entry holds \<open>data.ptr\<close> and whether \<open>EPOLLOUT\<close> is asked for.
\<close>

definition EBADF :: nat where "EBADF = 9"
definition EEXIST :: nat where "EEXIST = 17"
definition ENOENT :: nat where "ENOENT = 2"

definition epoll_add :: "int \<Rightarrow> nat \<times> bool \<Rightarrow> net \<Rightarrow> bool \<times> net" where
  "epoll_add fd e st =
     (if fd \<notin> nt_open st then (False, st\<lparr>nt_errno := EBADF\<rparr>)
      else if nt_epoll st fd \<noteq> None then (False, st\<lparr>nt_errno := EEXIST\<rparr>)
      else (True, st\<lparr>nt_epoll := (nt_epoll st)(fd \<mapsto> e)\<rparr>))"

definition epoll_mod :: "int \<Rightarrow> nat \<times> bool \<Rightarrow> net \<Rightarrow> bool \<times> net" where
  "epoll_mod fd e st =
     (if fd \<notin> nt_open st then (False, st\<lparr>nt_errno := EBADF\<rparr>)
      else if nt_epoll st fd = None then (False, st\<lparr>nt_errno := ENOENT\<rparr>)
      else (True, st\<lparr>nt_epoll := (nt_epoll st)(fd \<mapsto> e)\<rparr>))"

definition epoll_del :: "int \<Rightarrow> net \<Rightarrow> bool \<times> net" where
  "epoll_del fd st =
     (if fd \<notin> nt_open st then (False, st\<lparr>nt_errno := EBADF\<rparr>)
      else if nt_epoll st fd = None then (False, st\<lparr>nt_errno := ENOENT\<rparr>)
      else (True, st\<lparr>nt_epoll := (nt_epoll st)(fd := None)\<rparr>))"

section \<open>IOHandlerManager: registration\<close>

definition EnableReadData :: "nat \<Rightarrow> net \<Rightarrow> (bool \<times> net) option" where
  "EnableReadData a st = do { h \<leftarrow> nt_hand st a; Some (epoll_add (ih_fd h) (a, False) st) }"

definition DisableReadData :: "nat \<Rightarrow> bool \<Rightarrow> net \<Rightarrow> (bool \<times> net) option" where
  "DisableReadData a ignore_error st =
     do { h \<leftarrow> nt_hand st a;
          let (ok, st) = epoll_del (ih_fd h) st;
          Some (ok \<or> ignore_error, st) }"

definition EnableWriteData :: "nat \<Rightarrow> net \<Rightarrow> (bool \<times> net) option" where
  "EnableWriteData a st = do { h \<leftarrow> nt_hand st a; Some (epoll_mod (ih_fd h) (a, True) st) }"

definition DisableWriteData :: "nat \<Rightarrow> bool \<Rightarrow> net \<Rightarrow> (bool \<times> net) option" where
  "DisableWriteData a ignore_error st =
     do { h \<leftarrow> nt_hand st a;
          let (ok, st) = epoll_mod (ih_fd h) (a, False) st;
          Some (ok \<or> ignore_error, st) }"

definition EnableAcceptConnections :: "nat \<Rightarrow> net \<Rightarrow> (bool \<times> net) option" where
  "EnableAcceptConnections a st = do { h \<leftarrow> nt_hand st a; Some (epoll_add (ih_fd h) (a, False) st) }"

definition DisableAcceptConnections :: "nat \<Rightarrow> bool \<Rightarrow> net \<Rightarrow> (bool \<times> net) option" where
  "DisableAcceptConnections a ignore_error st =
     do { h \<leftarrow> nt_hand st a;
          let (ok, st) = epoll_del (ih_fd h) st;
          Some (ok \<or> ignore_error, st) }"

section \<open>BaseProcess: status and attachment\<close>

definition bp_new :: "nat \<Rightarrow> nat \<Rightarrow> bproc option" where
  "bp_new recv_size send_size =
     do { input \<leftarrow> ib_Initialize ib_new recv_size;
          Some \<lparr>bp_ex = False, bp_io = None, bp_recv = recv_size, bp_send = send_size, bp_errno = 0,
                bp_status = PROCESS_NET_STATUS_DISCONNECT, bp_write = False, bp_with_me = True,
                bp_out = ib_new, bp_in = input\<rparr> }"

definition SetNetStatus :: "nat \<Rightarrow> net_status \<Rightarrow> net \<Rightarrow> net option" where
  "SetNetStatus p s st =
     set_proc p (\<lambda>b. (b\<lparr>bp_status := s\<rparr>)
       \<lparr>bp_errno := if s = PROCESS_NET_STATUS_SYS_ERROR then nt_errno st else bp_errno b\<rparr>) st"

definition GetNetStatus :: "nat \<Rightarrow> net \<Rightarrow> net_status option" where
  "GetNetStatus p st = map_option bp_status (nt_proc st p)"

definition SetIOHandler :: "nat \<Rightarrow> nat option \<Rightarrow> net \<Rightarrow> net option" where
  "SetIOHandler p io st = set_proc p (\<lambda>b. b\<lparr>bp_io := io\<rparr>) st"

definition SetFlag :: "nat \<Rightarrow> io_flag \<Rightarrow> net \<Rightarrow> net option" where
  "SetFlag a f st = set_hand a (\<lambda>h. h\<lparr>ih_flag := f\<rparr>) st"

definition DoTimeout :: "nat \<Rightarrow> net \<Rightarrow> (bool \<times> net) option" where
  "DoTimeout p st = map_option (Pair True) (SetNetStatus p PROCESS_NET_STATUS_TIMEOUT st)"

text \<open>
  The default \<open>AttachNet\<close> and \<open>DetachNet\<close>, which go through the worker \<open>ex_\<close> to its \<open>net_timeout_manager_\<close>. Adding to a
  deleted manager writes into it; removing looks only at the process when that is in no list.
\<close>

definition AttachNet :: "nat \<Rightarrow> net \<Rightarrow> net option" where
  "AttachNet p st =
     do { b \<leftarrow> nt_proc st p;
          if bp_ex b \<and> nt_manager st then Some (st\<lparr>nt_timeouts := insert p (nt_timeouts st)\<rparr>) else None }"

definition DetachNet :: "nat \<Rightarrow> net \<Rightarrow> net option" where
  "DetachNet p st =
     do { b \<leftarrow> nt_proc st p;
          if bp_ex b then Some (st\<lparr>nt_timeouts := nt_timeouts st - {p}\<rparr>) else None }"

definition SetWithMe :: "nat \<Rightarrow> bool \<Rightarrow> net \<Rightarrow> net option" where
  "SetWithMe p with_me st =
     do { st \<leftarrow> set_proc p (\<lambda>b. b\<lparr>bp_with_me := with_me\<rparr>) st;
          b \<leftarrow> nt_proc st p;
          case bp_io b of
            None \<Rightarrow> Some st
          | Some a \<Rightarrow> SetFlag a (if bp_with_me b then IOHT_FLAG_CLOSE_ALL else IOHT_FLAG_CLOSE_FD) st }"

definition SetEnableWrite :: "nat \<Rightarrow> net \<Rightarrow> net option" where
  "SetEnableWrite p st =
     do { b \<leftarrow> nt_proc st p;
          case bp_io b of
            None \<Rightarrow> Some st
          | Some a \<Rightarrow>
              if bp_write b then Some st
              else do { (_, st) \<leftarrow> EnableWriteData a st; set_proc p (\<lambda>b. b\<lparr>bp_write := True\<rparr>) st } }"

definition GetOutputBuffer :: "bproc \<Rightarrow> iobuf option" where
  "GetOutputBuffer b = (if ib_avail (bp_out b) = 0 then None else Some (bp_out b))"

text \<open>The destructor releases the process; the buffers go with it.\<close>

definition delete_process :: "nat \<Rightarrow> net \<Rightarrow> net option" where
  "delete_process p st =
     do { _ \<leftarrow> nt_proc st p; Some (st\<lparr>nt_proc := (nt_proc st)(p := None)\<rparr>) }"

section \<open>IOHandler: construction and destruction\<close>

definition CloseFd :: "int \<Rightarrow> net \<Rightarrow> net" where
  "CloseFd fd st =
     (if 0 \<le> fd then st\<lparr>nt_open := nt_open st - {fd}, nt_epoll := (nt_epoll st)(fd := None)\<rparr> else st)"

definition new_IOHandler ::
    "nat \<Rightarrow> int \<Rightarrow> io_type \<Rightarrow> bool \<Rightarrow> nat option \<Rightarrow> byte list \<Rightarrow> string \<Rightarrow> net \<Rightarrow> net option" where
  "new_IOHandler a fd type managed process peer name st =
     (if nt_hand st a \<noteq> None then None
      else do {
        let st = st\<lparr>nt_hand := (nt_hand st)(a \<mapsto>
            \<lparr>ih_fd = fd, ih_managed = managed, ih_flag = IOHT_FLAG_CLOSE_ALL, ih_process = process, ih_type = type,
             ih_peer = peer, ih_name = name\<rparr>)\<rparr>;
        st \<leftarrow> (if managed then map_option snd (EnableReadData a st) else Some st);
        case process of
          None \<Rightarrow> Some st
        | Some p \<Rightarrow> do {
            st \<leftarrow> SetIOHandler p (Some a) st;
            b \<leftarrow> nt_proc st p;
            if bp_with_me b then Some st else SetFlag a IOHT_FLAG_CLOSE_FD st } })"

text \<open>The constructors of the four carriers; a connector sets the status \<open>CONNECTING\<close> instead.\<close>

definition new_carrier ::
    "nat \<Rightarrow> int \<Rightarrow> io_type \<Rightarrow> nat option \<Rightarrow> byte list \<Rightarrow> string \<Rightarrow> net \<Rightarrow> net option" where
  "new_carrier a fd type process peer name st =
     do { st \<leftarrow> new_IOHandler a fd type True process peer name st;
          case process of
            None \<Rightarrow> Some st
          | Some p \<Rightarrow> do { st \<leftarrow> SetNetStatus p PROCESS_NET_STATUS_CONNECTED st; AttachNet p st } }"

definition new_TCPCarrier :: "nat \<Rightarrow> int \<Rightarrow> nat option \<Rightarrow> byte list \<Rightarrow> net \<Rightarrow> net option" where
  "new_TCPCarrier a fd process peer st = new_carrier a fd IOHT_TCP_CARRIER process peer [] st"

definition new_UNIXCarrier :: "nat \<Rightarrow> int \<Rightarrow> nat option \<Rightarrow> net \<Rightarrow> net option" where
  "new_UNIXCarrier a fd process st = new_carrier a fd IOHT_UNIX_CARRIER process [] [] st"

definition new_PIPECarrier :: "nat \<Rightarrow> int \<Rightarrow> nat option \<Rightarrow> string \<Rightarrow> net \<Rightarrow> net option" where
  "new_PIPECarrier a fd process name st = new_carrier a fd IOHT_PIPE_CARRIER process [] name st"

definition new_UDPCarrier :: "nat \<Rightarrow> int \<Rightarrow> nat option \<Rightarrow> net \<Rightarrow> net option" where
  "new_UDPCarrier a fd process st = new_carrier a fd IOHT_UDP_CARRIER process (replicate 16 0) [] st"

definition new_connector :: "nat \<Rightarrow> int \<Rightarrow> io_type \<Rightarrow> nat option \<Rightarrow> net \<Rightarrow> net option" where
  "new_connector a fd type process st =
     do { st \<leftarrow> new_IOHandler a fd type True process [] [] st;
          case process of
            None \<Rightarrow> Some st
          | Some p \<Rightarrow> SetNetStatus p PROCESS_NET_STATUS_CONNECTING st }"

text \<open>
  The destructors. The one of \<open>TCPCarrier\<close> tests the process before it detaches it, those of the other
  carriers detach it first.
\<close>

definition unlink_process :: "nat \<Rightarrow> iohandler \<Rightarrow> net \<Rightarrow> net option" where
  "unlink_process p h st = (if closes_process (ih_flag h) then Some st else SetIOHandler p None st)"

definition TCPCarrier_dtor :: "iohandler \<Rightarrow> net \<Rightarrow> net option" where
  "TCPCarrier_dtor h st =
     (case ih_process h of
        None \<Rightarrow> Some st
      | Some p \<Rightarrow> do { st \<leftarrow> DetachNet p st; unlink_process p h st })"

definition UNIXCarrier_dtor :: "iohandler \<Rightarrow> net \<Rightarrow> net option" where
  "UNIXCarrier_dtor h st =
     (case ih_process h of
        None \<Rightarrow> None
      | Some p \<Rightarrow> do { st \<leftarrow> DetachNet p st; unlink_process p h st })"

definition PIPECarrier_dtor :: "iohandler \<Rightarrow> net \<Rightarrow> net option" where
  "PIPECarrier_dtor h st =
     (case ih_process h of
        None \<Rightarrow> None
      | Some p \<Rightarrow> do { st \<leftarrow> DetachNet p st; unlink_process p h st })"

definition UDPCarrier_dtor :: "nat \<Rightarrow> iohandler \<Rightarrow> net \<Rightarrow> net option" where
  "UDPCarrier_dtor a h st =
     (case ih_process h of
        None \<Rightarrow> None
      | Some p \<Rightarrow> do {
          st \<leftarrow> DetachNet p st;
          st \<leftarrow> unlink_process p h st;
          Some (if ih_managed h then st\<lparr>nt_udp := nt_udp st - {a}\<rparr> else st) })"

definition IOHandler_dtor :: "iohandler \<Rightarrow> net \<Rightarrow> net option" where
  "IOHandler_dtor h st =
     do { st \<leftarrow> (case ih_process h of
                 Some p \<Rightarrow> if closes_process (ih_flag h) then delete_process p st else Some st
               | None \<Rightarrow> Some st);
          Some (if closes_fd (ih_flag h) then CloseFd (ih_fd h) st else st) }"

definition delete_handler :: "nat \<Rightarrow> net \<Rightarrow> net option" where
  "delete_handler a st =
     do { h \<leftarrow> nt_hand st a;
          st \<leftarrow> (case ih_type h of
                 IOHT_TCP_CARRIER \<Rightarrow> TCPCarrier_dtor h st
               | IOHT_UNIX_CARRIER \<Rightarrow> UNIXCarrier_dtor h st
               | IOHT_PIPE_CARRIER \<Rightarrow> PIPECarrier_dtor h st
               | IOHT_UDP_CARRIER \<Rightarrow> UDPCarrier_dtor a h st
               | _ \<Rightarrow> Some st);
          st \<leftarrow> IOHandler_dtor h st;
          Some (st\<lparr>nt_hand := (nt_hand st)(a := None)\<rparr>) }"

definition EnqueueForDelete :: "nat \<Rightarrow> net \<Rightarrow> net option" where
  "EnqueueForDelete a st = do { (_, st) \<leftarrow> DisableReadData a True st; delete_handler a st }"

definition Free_connected :: "nat \<Rightarrow> net \<Rightarrow> net option" where
  "Free_connected p st =
     do { st \<leftarrow> SetWithMe p True st;
          b \<leftarrow> nt_proc st p;
          a \<leftarrow> bp_io b;
          EnqueueForDelete a st }"

definition Free :: "nat \<Rightarrow> net \<Rightarrow> net option" where
  "Free p st =
     do { b \<leftarrow> nt_proc st p;
          case bp_status b of
            PROCESS_NET_STATUS_CONNECTED \<Rightarrow>
              do { st \<leftarrow> set_proc p (\<lambda>b. b\<lparr>bp_status := PROCESS_NET_STATUS_DISCONNECT\<rparr>) st; Free_connected p st }
          | PROCESS_NET_STATUS_CONNECTING \<Rightarrow>
              do { st \<leftarrow> set_proc p (\<lambda>b. b\<lparr>bp_status := PROCESS_NET_STATUS_DISCONNECT\<rparr>) st; Free_connected p st }
          | PROCESS_NET_STATUS_TIMEOUT \<Rightarrow> Free_connected p st
          | _ \<Rightarrow> delete_process p st }"

end
