(* ===== verification/CString.thy ===== *)
theory CString
  imports CFormat "HOL-Library.Sublist"
begin

text \<open>
  Strings as the sources use them. A \<open>std::string\<close> is a character list; its \<open>find\<close>, \<open>find_last_of\<close> and
  \<open>substr\<close> are written out. A C string is a character list with explicit \<open>NUL\<close> characters, and a search that
  leaves the block before it reaches one is undefined (\<^term>\<open>None\<close>).
\<close>

abbreviation NUL :: char where "NUL \<equiv> CHR 0x00"
abbreviation CR :: char where "CR \<equiv> CHR 0x0D"
abbreviation LF :: char where "LF \<equiv> CHR 0x0A"
abbreviation TAB :: char where "TAB \<equiv> CHR 0x09"

section \<open>Searching\<close>

fun find_prefix :: "'a list \<Rightarrow> 'a list \<Rightarrow> nat \<Rightarrow> nat option" where
  "find_prefix pat [] i = (if pat = [] then Some i else None)"
| "find_prefix pat (x # xs) i = (if prefix pat (x # xs) then Some i else find_prefix pat xs (Suc i))"

text \<open>\<open>std::string::find\<close>; \<^term>\<open>None\<close> is \<open>npos\<close>.\<close>

definition str_find :: "'a list \<Rightarrow> 'a list \<Rightarrow> nat \<Rightarrow> nat option" where
  "str_find s pat pos = (if pos \<le> length s then find_prefix pat (drop pos s) pos else None)"

text \<open>\<open>std::string::substr\<close>; \<^term>\<open>None\<close> is the exception for a start past the end.\<close>

definition str_substr :: "'a list \<Rightarrow> nat \<Rightarrow> nat \<Rightarrow> 'a list option" where
  "str_substr s pos n = (if pos \<le> length s then Some (take n (drop pos s)) else None)"

fun find_last :: "'a \<Rightarrow> 'a list \<Rightarrow> nat option" where
  "find_last c [] = None"
| "find_last c (x # xs) =
     (case find_last c xs of Some i \<Rightarrow> Some (Suc i) | None \<Rightarrow> if x = c then Some 0 else None)"

lemma find_prefix_SomeD:
  "find_prefix pat s i = Some j \<Longrightarrow>
     i \<le> j \<and> j - i + length pat \<le> length s \<and> prefix pat (drop (j - i) s) \<and>
     (\<forall>k < j - i. \<not> prefix pat (drop k s))"
proof (induction s arbitrary: i)
  case Nil
  then show ?case by (auto split: if_splits)
next
  case (Cons x xs)
  show ?case
  proof (cases "prefix pat (x # xs)")
    case True
    then show ?thesis
      using Cons.prems by (auto dest: prefix_length_le)
  next
    case False
    then have "find_prefix pat xs (Suc i) = Some j"
      using Cons.prems by simp
    from Cons.IH [OF this] have *: "Suc i \<le> j \<and> j - Suc i + length pat \<le> length xs \<and> prefix pat (drop (j - Suc i) xs) \<and>
        (\<forall>k < j - Suc i. \<not> prefix pat (drop k xs))"
      .
    then obtain d where d: "j - i = Suc d" "j - Suc i = d"
      by (metis Suc_diff_Suc Suc_le_eq)
    have "\<not> prefix pat (drop k (x # xs))" if "k < Suc d" for k
      using * d that False by (cases k) auto
    then show ?thesis
      using * d by auto
  qed
qed

lemma find_prefix_NoneD:
  "find_prefix pat s i = None \<Longrightarrow> \<not> prefix pat (drop k s)"
proof (induction s arbitrary: i k)
  case Nil
  then show ?case by (auto split: if_splits)
next
  case (Cons x xs)
  then show ?case by (cases k) (auto split: if_splits)
qed

lemma find_prefix_shift:
  "find_prefix pat s (i + d) = map_option (\<lambda>j. j + d) (find_prefix pat s i)"
proof (induction s arbitrary: i)
  case (Cons x xs)
  then show ?case using Cons [of "Suc i"] by simp
qed simp

lemma find_prefix_append:
  assumes "\<And>k. k < length s \<Longrightarrow> \<not> prefix pat (drop k (s @ pat @ t))"
  shows "find_prefix pat (s @ pat @ t) i = Some (i + length s)"
  using assms
proof (induction s arbitrary: i)
  case Nil
  have "prefix pat (pat @ t)"
    by simp
  then show ?case by (cases "pat @ t") auto
next
  case (Cons x xs)
  from Cons.prems [of 0] have "\<not> prefix pat (x # xs @ pat @ t)"
    by simp
  moreover have "\<not> prefix pat (drop k (xs @ pat @ t))" if "k < length xs" for k
    using Cons.prems [of "Suc k"] that by simp
  ultimately show ?case
    using Cons.IH by simp
qed

lemma find_prefix_single:
  "find_prefix [c] s i = (if c \<in> set s then Some (i + length (takeWhile (\<lambda>x. x \<noteq> c) s)) else None)"
  by (induction s arbitrary: i) auto

lemma find_last_SomeD:
  "find_last c s = Some i \<Longrightarrow> i < length s \<and> s ! i = c \<and> c \<notin> set (drop (Suc i) s)"
proof (induction s arbitrary: i)
  case (Cons x xs)
  show ?case
  proof (cases "find_last c xs")
    case None
    moreover have "find_last c xs = None \<Longrightarrow> c \<notin> set xs"
      by (induction xs) (auto split: option.splits if_splits)
    ultimately show ?thesis
      using Cons.prems by (auto split: if_splits)
  next
    case (Some j)
    then show ?thesis using Cons by auto
  qed
qed simp

lemma find_last_None [simp]: "find_last c s = None \<longleftrightarrow> c \<notin> set s"
  by (induction s) (auto split: option.splits)

section \<open>C strings\<close>

definition c_str_at :: "string \<Rightarrow> nat \<Rightarrow> string option" where
  "c_str_at m off = (if NUL \<in> set (drop off m) then Some (takeWhile (\<lambda>c. c \<noteq> NUL) (drop off m)) else None)"

text \<open>
  \<open>strstr\<close> from an offset: the outer option is definedness, the inner one the null result. A match that
  ends before the end of the block is found without reading further.
\<close>

definition c_strstr :: "string \<Rightarrow> nat \<Rightarrow> string \<Rightarrow> nat option option" where
  "c_strstr m off pat =
     (if off \<le> length m
      then (case find_prefix pat (takeWhile (\<lambda>c. c \<noteq> NUL) (drop off m)) off of
              Some i \<Rightarrow> Some (Some i)
            | None \<Rightarrow> if NUL \<in> set (drop off m) then Some None else None)
      else None)"

definition c_strchr :: "string \<Rightarrow> nat \<Rightarrow> char \<Rightarrow> nat option option" where
  "c_strchr m off c = c_strstr m off [c]"

definition is_space :: "char \<Rightarrow> bool" where
  "is_space c \<longleftrightarrow> c = CHR '' '' \<or> (9 \<le> (of_char c :: nat) \<and> (of_char c :: nat) \<le> 13)"

definition base_digit :: "char \<Rightarrow> nat option" where
  "base_digit c = (let n = of_char c :: nat in
     if 48 \<le> n \<and> n \<le> 57 then Some (n - 48)
     else if 97 \<le> n \<and> n \<le> 122 then Some (n - 87)
     else if 65 \<le> n \<and> n \<le> 90 then Some (n - 55) else None)"

fun strtol_digits :: "nat \<Rightarrow> string \<Rightarrow> nat \<Rightarrow> nat \<Rightarrow> nat \<times> nat" where
  "strtol_digits base [] acc n = (acc, n)"
| "strtol_digits base (c # cs) acc n =
     (case base_digit c of
        Some d \<Rightarrow> if d < base then strtol_digits base cs (acc * base + d) (Suc n) else (acc, n)
      | None \<Rightarrow> (acc, n))"

text \<open>
  \<open>strtol\<close> on the text up to its \<open>NUL\<close>: the value saturated to 64 bits and the number of characters
  consumed (0 when there is no number). \<open>0x\<close> is skipped for bases 16 and 0 when a digit follows.
\<close>

definition sat64 :: "int \<Rightarrow> int" where
  "sat64 x = (if x > 2 ^ 63 - 1 then 2 ^ 63 - 1 else if x < - (2 ^ 63) then - (2 ^ 63) else x)"

definition strtol_sign :: "string \<Rightarrow> bool \<times> nat" where
  "strtol_sign s = (case s of
     CHR ''-'' # _ \<Rightarrow> (True, 1) | CHR ''+'' # _ \<Rightarrow> (False, 1) | _ \<Rightarrow> (False, 0))"

definition strtol_prefix :: "nat \<Rightarrow> string \<Rightarrow> nat \<times> nat" where
  "strtol_prefix base s = (case s of
     c0 # x # c # _ \<Rightarrow>
       if c0 = CHR ''0'' \<and> (x = CHR ''x'' \<or> x = CHR ''X'') \<and> (base = 0 \<or> base = 16) \<and>
          (case base_digit c of Some d \<Rightarrow> d < 16 | None \<Rightarrow> False)
       then (16, 2) else (if base = 0 then (if c0 = CHR ''0'' then 8 else 10) else base, 0)
   | c0 # _ \<Rightarrow> (if base = 0 then (if c0 = CHR ''0'' then 8 else 10) else base, 0)
   | [] \<Rightarrow> (if base = 0 then 10 else base, 0))"

definition c_strtol :: "nat \<Rightarrow> string \<Rightarrow> int \<times> nat" where
  "c_strtol base s =
     (let ws = length (takeWhile is_space s);
          (neg, sg) = strtol_sign (drop ws s);
          (b, pre) = strtol_prefix base (drop (ws + sg) s);
          (v, n) = strtol_digits b (drop (ws + sg + pre) s) 0 0
      in if n = 0 then (0, 0)
         else (sat64 (if neg then - int v else int v), ws + sg + pre + n))"

text \<open>\<open>atoi\<close> is the 32-bit truncation of that value in glibc.\<close>

definition c_atoi :: "string \<Rightarrow> int" where
  "c_atoi s = i32 (fst (c_strtol 10 s))"

lemma c_strstr_found:
  "c_strstr m off pat = Some (Some i) \<Longrightarrow>
     off \<le> i \<and> i + length pat \<le> length m \<and> take (length pat) (drop i m) = pat"
proof -
  assume a: "c_strstr m off pat = Some (Some i)"
  let ?t = "takeWhile (\<lambda>c. c \<noteq> NUL) (drop off m)"
  from a have f: "find_prefix pat ?t off = Some i" and off: "off \<le> length m"
    by (auto simp: c_strstr_def split: if_splits option.splits)
  note * = find_prefix_SomeD [OF f]
  obtain u where u: "drop off m = ?t @ u"
    by (metis takeWhile_dropWhile_id)
  have len: "length ?t \<le> length m - off"
    by (metis length_drop length_takeWhile_le)
  from * obtain v where "drop (i - off) ?t = pat @ v"
    by (auto simp: prefix_def)
  moreover have "i - off \<le> length ?t"
    using * by linarith
  ultimately have "drop (i - off) (?t @ u) = pat @ v @ u"
    by simp
  then have "drop (i - off) (drop off m) = pat @ v @ u"
    using u by simp
  then have "drop i m = pat @ v @ u"
    using * by simp
  then show ?thesis
    using * len off by auto
qed

section \<open>C strings inside larger blocks\<close>

lemma c_str_at_append [simp]: "c_str_at (pre @ x) (length pre + i) = c_str_at x i"
  by (simp add: c_str_at_def)

lemma c_str_at_append0 [simp]: "c_str_at (pre @ x) (length pre) = c_str_at x 0"
  by (simp add: c_str_at_def)

lemma c_str_at_text [simp]: "NUL \<notin> set t \<Longrightarrow> c_str_at (t @ NUL # r) 0 = Some t"
  by (simp add: c_str_at_def takeWhile_append)

lemma c_strstr_append:
  "c_strstr (pre @ x) (length pre + i) pat =
     map_option (map_option ((+) (length pre))) (c_strstr x i pat)"
proof -
  have "find_prefix pat t (length pre + i) = map_option ((+) (length pre)) (find_prefix pat t i)" for t
  proof -
    have "(\<lambda>j. j + length pre) = (+) (length pre)"
      by (simp add: fun_eq_iff)
    then show ?thesis
      using find_prefix_shift [of pat t i "length pre"] by (simp only: add.commute [of i])
  qed
  then show ?thesis
    by (auto simp: c_strstr_def split: option.splits)
qed

lemma c_strstr_append0:
  "c_strstr (pre @ x) (length pre) pat = map_option (map_option ((+) (length pre))) (c_strstr x 0 pat)"
  using c_strstr_append [of pre x 0 pat] by simp

lemma find_prefix_first:
  assumes "hd pat \<notin> set t" and "pat \<noteq> []"
  shows "find_prefix pat (t @ pat @ u) i = Some (i + length t)"
proof (rule find_prefix_append)
  fix k
  assume "k < length t"
  then obtain x xs where x: "drop k t = x # xs"
    by (metis Cons_nth_drop_Suc)
  then have "x \<in> set t"
    by (metis in_set_dropD list.set_intros(1))
  moreover have "drop k (t @ pat @ u) = x # xs @ pat @ u"
    using \<open>k < length t\<close> x by simp
  ultimately show "\<not> prefix pat (drop k (t @ pat @ u))"
    using assms by (cases pat) auto
qed

lemma find_prefix_hd_None: "hd pat \<notin> set t \<Longrightarrow> pat \<noteq> [] \<Longrightarrow> find_prefix pat t i = None"
  by (induction t arbitrary: i) (cases pat; auto)+

lemma c_strstr_first:
  assumes "hd pat \<notin> set t" and "pat \<noteq> []" and "NUL \<notin> set t" and "NUL \<notin> set pat"
  shows "c_strstr (t @ pat @ u) 0 pat = Some (Some (length t))"
proof -
  have "takeWhile (\<lambda>c. c \<noteq> NUL) (t @ pat @ u) = t @ pat @ takeWhile (\<lambda>c. c \<noteq> NUL) u"
    using assms(3,4) by (subst takeWhile_append2, blast)+ simp
  then show ?thesis
    using find_prefix_first [OF assms(1,2)] by (simp add: c_strstr_def)
qed

lemma c_strstr_absent:
  assumes "hd pat \<notin> set t" and "pat \<noteq> []" and "NUL \<notin> set t"
  shows "c_strstr (t @ NUL # u) 0 pat = Some None"
  using assms find_prefix_hd_None [OF assms(1,2)]
  by (simp add: c_strstr_def takeWhile_append)

lemma c_strstr_char:
  "c \<notin> set t \<Longrightarrow> c \<noteq> NUL \<Longrightarrow> NUL \<notin> set t \<Longrightarrow> c_strstr (t @ c # u) 0 [c] = Some (Some (length t))"
  using c_strstr_first [of "[c]" t u] by simp

end
