(* ===== verification/Platform.thy ===== *)
theory Platform
  imports CString
begin

text \<open>
  The text and socket helpers of \<open>platform/linuxplatform.cpp\<close>: replacing, splitting, trimming, key/value
  mappings, file names, four-character tags, number recognition, socket options, and the reverse search
  \<open>rstrstr\<close> on which the protocol handlers base their search for the end of a header.
\<close>

section \<open>Splitting and replacing\<close>

text \<open>The loop of \<open>split\<close>; it does not end for an empty separator, so not returning is \<^term>\<open>None\<close>.\<close>

partial_function (option) split_loop ::
  "string \<Rightarrow> string \<Rightarrow> nat option \<Rightarrow> nat \<Rightarrow> string list \<Rightarrow> string list option" where
  "split_loop str sep position lst result =
     (case position of
        Some p \<Rightarrow> do {
          piece \<leftarrow> str_substr str lst (p - lst);
          split_loop str sep (str_find str sep (p + u32 (length sep))) (p + u32 (length sep)) (result @ [piece])
        }
      | None \<Rightarrow> do {
          piece \<leftarrow> str_substr str lst (length str);
          Some (result @ [piece])
        })"

definition split :: "string \<Rightarrow> string \<Rightarrow> string list option" where
  "split str sep = split_loop str sep (str_find str sep 0) 0 []"

lemma str_find_bounds:
  "str_find s pat pos = Some i \<Longrightarrow> pos \<le> i \<and> i + length pat \<le> length s"
  by (auto simp: str_find_def dest!: find_prefix_SomeD split: if_splits)

function replace_loop :: "string \<Rightarrow> string \<Rightarrow> string \<Rightarrow> nat \<Rightarrow> string" where
  "replace_loop target search replacement lst =
     (if search = [] then target
      else case str_find target search lst of
        None \<Rightarrow> target
      | Some i \<Rightarrow> replace_loop (take i target @ replacement @ drop (i + length search) target)
                   search replacement (i + length replacement))"
  by pat_completeness auto
termination
  by (relation "measure (\<lambda>(target, search, replacement, lst). length target - lst)")
     (auto dest!: str_find_bounds simp flip: length_greater_0_conv)

declare replace_loop.simps [simp del]

definition replace :: "string \<Rightarrow> string \<Rightarrow> string \<Rightarrow> string" where
  "replace target search replacement =
     (if search = replacement then target
      else if search = [] then target
      else replace_loop target search replacement 0)"

fun join :: "'a list \<Rightarrow> 'a list list \<Rightarrow> 'a list" where
  "join sep [] = []"
| "join sep [x] = x"
| "join sep (x # y # ys) = x @ sep @ join sep (y # ys)"

text \<open>A reference splitting by recursion on the text that is left.\<close>

function pieces :: "'a list \<Rightarrow> 'a list \<Rightarrow> 'a list list" where
  "pieces sep s =
     (case find_prefix sep s 0 of
        None \<Rightarrow> [s]
      | Some i \<Rightarrow> if sep = [] then [s] else take i s # pieces sep (drop (i + length sep) s))"
  by pat_completeness auto
termination
  by (relation "measure (\<lambda>(sep, s). length s)") (auto dest!: find_prefix_SomeD simp flip: length_greater_0_conv)

declare pieces.simps [simp del]

lemma pieces_not_Nil [simp]: "pieces sep s \<noteq> []"
  by (subst pieces.simps) (auto split: option.split)

lemma pieces_None: "find_prefix sep s 0 = None \<Longrightarrow> pieces sep s = [s]"
  by (subst pieces.simps) simp

lemma pieces_Some:
  "find_prefix sep s 0 = Some i \<Longrightarrow> sep \<noteq> [] \<Longrightarrow>
     pieces sep s = take i s # pieces sep (drop (i + length sep) s)"
  by (subst pieces.simps) simp

lemma str_find_from:
  "pos \<le> length s \<Longrightarrow> str_find s pat pos = map_option (\<lambda>i. i + pos) (find_prefix pat (drop pos s) 0)"
  using find_prefix_shift [of pat "drop pos s" 0 pos] by (simp add: str_find_def)

lemma join_Cons: "ys \<noteq> [] \<Longrightarrow> join sep (x # ys) = x @ sep @ join sep ys"
  by (cases ys) simp_all

lemma join_pieces: "join sep (pieces sep s) = s"
proof (induction sep s rule: pieces.induct)
  case (1 sep s)
  show ?case
  proof (cases "find_prefix sep s 0")
    case None
    then show ?thesis by (simp add: pieces_None)
  next
    case (Some i)
    note b = find_prefix_SomeD [OF Some]
    then obtain t where t: "drop i s = sep @ t"
      by (auto simp: prefix_def)
    then have "s = take i s @ sep @ t"
      by (metis append_take_drop_id)
    moreover have "drop (i + length sep) s = t"
      using t by (metis add.commute append_eq_conv_conj drop_drop)
    ultimately show ?thesis
      using "1.IH" [OF Some] Some
      by (cases "sep = []") (simp_all add: pieces_Some join_Cons, simp add: pieces.simps)
  qed
qed

text \<open>No piece contains the separator.\<close>

definition occurs :: "'a list \<Rightarrow> 'a list \<Rightarrow> bool" where
  "occurs pat s \<longleftrightarrow> find_prefix pat s 0 \<noteq> None"

lemma not_occurs: "\<not> occurs pat s \<Longrightarrow> \<not> prefix pat (drop k s)"
  unfolding occurs_def using find_prefix_NoneD by blast

lemma occursI: "prefix pat (drop k s) \<Longrightarrow> occurs pat s"
  using not_occurs by blast

lemma pieces_separated:
  assumes "sep \<noteq> []"
  shows "p \<in> set (pieces sep s) \<Longrightarrow> \<not> occurs sep p"
  using assms
proof (induction sep s rule: pieces.induct)
  case (1 sep s)
  show ?case
  proof (cases "find_prefix sep s 0")
    case None
    then show ?thesis using "1.prems" by (simp add: pieces_None occurs_def)
  next
    case (Some i)
    note b = find_prefix_SomeD [OF Some]
    have pos: "0 < length sep"
      using \<open>sep \<noteq> []\<close> by simp
    have "\<not> occurs sep (take i s)"
    proof
      assume "occurs sep (take i s)"
      then obtain k where k: "find_prefix sep (take i s) 0 = Some k"
        by (auto simp: occurs_def)
      note c = find_prefix_SomeD [OF k]
      then have "prefix sep (take (i - k) (drop k s))" and "k + length sep \<le> i"
        using pos by (auto simp: drop_take)
      then have "k < i"
        using pos by linarith
      then have "prefix sep (drop k s)"
        using prefix_order.trans take_is_prefix \<open>prefix sep (take (i - k) (drop k s))\<close> by blast
      then show False
        using b \<open>k < i\<close> by simp
    qed
    then show ?thesis
      using "1.IH" [OF Some \<open>sep \<noteq> []\<close>] "1.prems" Some by (auto simp: pieces_Some)
  qed
qed

lemma split_loop_pieces:
  assumes "sep \<noteq> []" and "length sep < 2 ^ 32"
  shows "lst \<le> length str \<Longrightarrow>
    split_loop str sep (str_find str sep lst) lst result = Some (result @ pieces sep (drop lst str))"
proof (induction "length str - lst" arbitrary: lst result rule: less_induct)
  case less
  show ?case
  proof (cases "find_prefix sep (drop lst str) 0")
    case None
    then show ?thesis
      using less.prems
      by (subst split_loop.simps) (simp add: str_find_from str_substr_def pieces_None)
  next
    case (Some i)
    note b = find_prefix_SomeD [OF Some]
    have pos: "str_find str sep lst = Some (lst + i)"
      using Some less.prems by (simp add: str_find_from)
    have "i + length sep \<le> length str - lst"
      using b by simp
    moreover have "0 < length sep"
      using assms by simp
    ultimately have "length str - (lst + i + length sep) < length str - lst"
      by linarith
    moreover have "lst + i + length sep \<le> length str"
      using \<open>i + length sep \<le> length str - lst\<close> less.prems by linarith
    ultimately have "split_loop str sep (str_find str sep (lst + i + length sep)) (lst + i + length sep)
        (result @ [take i (drop lst str)]) =
      Some ((result @ [take i (drop lst str)]) @ pieces sep (drop (lst + i + length sep) str))"
      by (rule less.hyps)
    then show ?thesis
      using b assms less.prems Some
      by (subst split_loop.simps) (simp add: pos str_substr_def pieces_Some u32_small add_ac)
  qed
qed

lemma split_pieces:
  "sep \<noteq> [] \<Longrightarrow> length sep < 2 ^ 32 \<Longrightarrow> split str sep = Some (pieces sep str)"
  using split_loop_pieces [of sep 0 str "[]"] by (simp add: split_def)

lemma split_loop_empty:
  assumes "split_loop str sep position lst result = Some r"
  shows "\<not> (sep = [] \<and> position = Some lst \<and> lst \<le> length str)"
proof (rule split_loop.raw_induct [OF _ assms])
  fix rec str sep position lst result r
  assume IH: "\<And>str sep position lst result r.
      rec str sep position lst result = Some r \<Longrightarrow> \<not> (sep = [] \<and> position = Some lst \<and> lst \<le> length str)"
    and step: "(case position of
        None \<Rightarrow> do { piece \<leftarrow> str_substr str lst (length str); Some (result @ [piece]) }
      | Some p \<Rightarrow> do {
          piece \<leftarrow> str_substr str lst (p - lst);
          rec str sep (str_find str sep (p + u32 (length sep))) (p + u32 (length sep)) (result @ [piece])
        }) = Some r"
  show "\<not> (sep = [] \<and> position = Some lst \<and> lst \<le> length str)"
  proof
    assume a: "sep = [] \<and> position = Some lst \<and> lst \<le> length str"
    then have "str_find str [] lst = Some lst"
      by (cases "drop lst str") (simp_all add: str_find_def)
    with step a have "rec str [] (Some lst) lst (result @ [[]]) = Some r"
      by (simp add: str_substr_def u32_def)
    then show False
      using IH a by blast
  qed
qed

lemma split_empty: "split str [] = None"
proof -
  have "str_find str [] 0 = Some 0"
    by (cases str) (simp_all add: str_find_def)
  then show ?thesis
    using split_loop_empty [of str "[]" "Some 0" 0 "[]"] by (cases "split str []") (auto simp: split_def)
qed

lemma replace_loop_pieces:
  assumes "search \<noteq> []"
  shows "lst \<le> length target \<Longrightarrow>
    replace_loop target search rep lst = take lst target @ join rep (pieces search (drop lst target))"
  using assms
proof (induction target search rep lst rule: replace_loop.induct)
  case (1 target search rep lst)
  show ?case
  proof (cases "find_prefix search (drop lst target) 0")
    case None
    then show ?thesis
      using "1.prems" by (subst replace_loop.simps) (simp add: str_find_from pieces_None)
  next
    case (Some i)
    note b = find_prefix_SomeD [OF Some]
    have pos: "str_find target search lst = Some (lst + i)"
      using Some "1.prems" by (simp add: str_find_from)
    let ?t = "take (lst + i) target @ rep @ drop (lst + i + length search) target"
    have "replace_loop target search rep lst = replace_loop ?t search rep (lst + i + length rep)"
      using "1.prems" by (subst replace_loop.simps) (simp add: pos)
    also have "\<dots> = take (lst + i + length rep) ?t @ join rep (pieces search (drop (lst + i + length rep) ?t))"
      using "1.prems" b by (intro "1.IH" [OF _ pos]) auto
    also have "\<dots> = take lst target @ take i (drop lst target) @ rep @
        join rep (pieces search (drop (lst + i + length search) target))"
      using "1.prems" b by (simp add: take_add)
    finally show ?thesis
      using Some "1.prems" by (simp add: pieces_Some join_Cons add_ac)
  qed
qed

lemma replace_pieces: "search \<noteq> [] \<Longrightarrow> replace target search rep = join rep (pieces search target)"
  using replace_loop_pieces [of search 0 target rep] join_pieces [of search target]
  by (auto simp: replace_def)

section \<open>Trimming, case, key and value\<close>

definition is_blank :: "char \<Rightarrow> bool" where
  "is_blank c \<longleftrightarrow> c = CHR '' '' \<or> c = TAB \<or> c = LF \<or> c = CR"

definition lTrim :: "string \<Rightarrow> string" where
  "lTrim v = dropWhile is_blank v"

text \<open>The loop counts down from the length read as a signed 32-bit number.\<close>

fun rTrim_loop :: "string \<Rightarrow> nat \<Rightarrow> nat" where
  "rTrim_loop v 0 = 0"
| "rTrim_loop v (Suc i) = (if is_blank (v ! i) then rTrim_loop v i else Suc i)"

definition rTrim :: "string \<Rightarrow> string" where
  "rTrim v = (let n = i32 (int (length v)) in if n < 0 then v else take (rTrim_loop v (nat n)) v)"

definition trim :: "string \<Rightarrow> string" where
  "trim v = rTrim (lTrim v)"

definition to_lower :: "char \<Rightarrow> char" where
  "to_lower c = (let n = of_char c :: nat in if 65 \<le> n \<and> n \<le> 90 then char_of (n + 32) else c)"

definition to_upper :: "char \<Rightarrow> char" where
  "to_upper c = (let n = of_char c :: nat in if 97 \<le> n \<and> n \<le> 122 then char_of (n - 32) else c)"

definition changeCase :: "string \<Rightarrow> bool \<Rightarrow> string" where
  "changeCase v lower = map (\<lambda>c. if lower then to_lower c else to_upper c) v"

definition lowerCase :: "string \<Rightarrow> string" where
  "lowerCase v = changeCase v True"

definition upperCase :: "string \<Rightarrow> string" where
  "upperCase v = changeCase v False"

definition mapping_entry :: "string \<Rightarrow> bool \<Rightarrow> string \<Rightarrow> (string \<rightharpoonup> string) \<Rightarrow> (string \<rightharpoonup> string) option" where
  "mapping_entry sep2 trm pair result =
     (if pair = [] then Some result
      else case str_find pair sep2 0 of
        Some p \<Rightarrow> do {
          key \<leftarrow> str_substr pair 0 p;
          val \<leftarrow> str_substr pair (p + 1) (length pair);
          Some (if trm then result(trim key \<mapsto> trim val) else result(key \<mapsto> val))
        }
      | None \<Rightarrow> Some (result((if trm then trim pair else pair) \<mapsto> [])))"

fun mapping_loop :: "string \<Rightarrow> bool \<Rightarrow> string list \<Rightarrow> (string \<rightharpoonup> string) \<Rightarrow> (string \<rightharpoonup> string) option" where
  "mapping_loop sep2 trm [] result = Some result"
| "mapping_loop sep2 trm (p # ps) result =
     Option.bind (mapping_entry sep2 trm p result) (mapping_loop sep2 trm ps)"

definition mapping :: "string \<Rightarrow> string \<Rightarrow> string \<Rightarrow> bool \<Rightarrow> (string \<rightharpoonup> string) option" where
  "mapping str sep1 sep2 trm = do { pairs \<leftarrow> split str sep1; mapping_loop sep2 trm pairs Map.empty }"

definition splitFileName :: "string \<Rightarrow> char \<Rightarrow> string \<times> string" where
  "splitFileName name sep =
     (case find_last sep name of
        None \<Rightarrow> (name, [])
      | Some p \<Rightarrow> (take p name, drop (p + 1) name))"

definition getFileName :: "string \<Rightarrow> string" where
  "getFileName path =
     (case find_last (CHR ''/'') path of None \<Rightarrow> path | Some p \<Rightarrow> drop (p + 1) path)"

text \<open>\<open>isNumeric\<close>; an unsupported base leaves \<open>endptr\<close> null, which is then dereferenced.\<close>

definition isNumeric :: "string \<Rightarrow> nat \<Rightarrow> bool option" where
  "isNumeric v base =
     (if v = [] then Some False
      else if base = 1 \<or> base > 36 then None
      else let s = takeWhile (\<lambda>c. c \<noteq> NUL) v in Some (snd (c_strtol base s) = length s))"

section \<open>Addresses\<close>

definition is_private_ip :: "string \<Rightarrow> bool" where
  "is_private_ip ip \<longleftrightarrow> prefix ''172.'' ip \<or> prefix ''10.'' ip \<or> prefix ''192.168.'' ip"

text \<open>The values of the multimap that \<open>getAllHostIP\<close> fills are the argument, in its order.\<close>

fun getPublicIP :: "string list \<Rightarrow> string" where
  "getPublicIP [] = []"
| "getPublicIP (ip # ips) = (if is_private_ip ip then getPublicIP ips else ip)"

fun getPrivateIP :: "string list \<Rightarrow> string" where
  "getPrivateIP [] = []"
| "getPrivateIP (ip # ips) = (if is_private_ip ip then ip else getPrivateIP ips)"

section \<open>Random strings\<close>

definition allowed_characters :: string where
  "allowed_characters = ''ABCDEFGHIJKLMNOPQRSTUVWXYZabcdefghijklmnopqrstuvwxyz0123456789''"

text \<open>The successive results of \<open>rand\<close> are a function of the call number.\<close>

definition generateRandomString :: "(nat \<Rightarrow> nat) \<Rightarrow> nat \<Rightarrow> string" where
  "generateRandomString rand n =
     map (\<lambda>i. allowed_characters ! (rand i mod length allowed_characters)) [0..<n]"

section \<open>Tags\<close>

definition tag_byte :: "64 word \<Rightarrow> nat \<Rightarrow> byte" where
  "tag_byte tag i = ucast (drop_bit (8 * (7 - i)) tag)"

fun tagToString_loop :: "64 word \<Rightarrow> nat \<Rightarrow> nat \<Rightarrow> string" where
  "tagToString_loop tag i 0 = []"
| "tagToString_loop tag i (Suc n) =
     (if tag_byte tag i = 0 then [] else chr_of (tag_byte tag i) # tagToString_loop tag (i + 1) n)"

definition tagToString :: "64 word \<Rightarrow> string" where
  "tagToString tag = tagToString_loop tag 0 8"

text \<open>The loop over the shifts 56, 48, ..., 0.\<close>

fun getTagMask_loop :: "64 word \<Rightarrow> nat list \<Rightarrow> 64 word \<Rightarrow> 64 word" where
  "getTagMask_loop tag [] result = result"
| "getTagMask_loop tag (i # is) result =
     (if (ucast (drop_bit i tag) :: byte) = 0 then result
      else getTagMask_loop tag is (drop_bit 8 result))"

definition getTagMask :: "64 word \<Rightarrow> 64 word" where
  "getTagMask tag = not (getTagMask_loop tag [56, 48, 40, 32, 24, 16, 8, 0] (- 1))"

section \<open>Reverse search\<close>

text \<open>
  The comparison of \<open>rstrstr\<close> walks backwards from a position of the text and from the start of the
  needle; \<open>bp\<close> and \<open>sp\<close> count the characters at and before the two pointers, so a pointer before
  its block is 0. \<^term>\<open>None\<close> is a read outside a block.
\<close>

fun rstrstr_cmp :: "string \<Rightarrow> string \<Rightarrow> nat \<Rightarrow> nat \<Rightarrow> bool option" where
  "rstrstr_cmp m nd bp 0 = None"
| "rstrstr_cmp m nd bp (Suc sp) =
     (if sp \<ge> length nd then None
      else if nd ! sp = NUL then Some True
      else (case bp of
        0 \<Rightarrow> None
      | Suc b \<Rightarrow> if b \<ge> length m then None
                else if m ! b = nd ! sp then rstrstr_cmp m nd b sp else Some False))"

text \<open>The outer loop; \<open>k\<close> is \<open>rstr - str + 1\<close>. The inner option of the result is the null pointer.\<close>

fun rstrstr_loop :: "string \<Rightarrow> nat \<Rightarrow> string \<Rightarrow> nat \<Rightarrow> nat \<Rightarrow> nat option option" where
  "rstrstr_loop m str nd needle 0 = Some None"
| "rstrstr_loop m str nd needle (Suc k) =
     (case rstrstr_cmp m nd (str + k + 1) (needle + 1) of
        None \<Rightarrow> None
      | Some True \<Rightarrow> Some (Some (str + k))
      | Some False \<Rightarrow> rstrstr_loop m str nd needle k)"

definition rstrstr :: "string \<Rightarrow> nat \<Rightarrow> nat \<Rightarrow> string \<Rightarrow> nat \<Rightarrow> nat \<Rightarrow> nat option option" where
  "rstrstr m str str_len nd needle needle_len =
     (if str_len = 0 \<or> needle_len = 0 then Some None
      else if str_len < needle_len then Some None
      else rstrstr_loop m str nd needle (str_len - needle_len + 1))"

text \<open>A search for the last position of a character, for comparison.\<close>

fun last_pos :: "char \<Rightarrow> string \<Rightarrow> nat \<Rightarrow> nat option" where
  "last_pos c m 0 = None"
| "last_pos c m (Suc k) = (if m ! k = c then Some k else last_pos c m k)"

lemma rstrstr_loop_NUL:
  assumes "nd = pre @ NUL # c # rest" and "c \<noteq> NUL"
  shows "k \<le> length m \<Longrightarrow> rstrstr_loop m 0 nd (length pre + 1) k = Some (last_pos c m k)"
proof (induction k)
  case (Suc k)
  have nd: "nd ! (length pre + 1) = c" "nd ! length pre = NUL" "length pre + 1 < length nd"
    using assms by (simp_all add: nth_append)
  have "rstrstr_cmp m nd (0 + k + 1) (length pre + 1 + 1) = Some (m ! k = c)"
    using Suc.prems assms(2) nd by simp
  then show ?case
    using Suc by simp
qed simp

text \<open>
  When nothing lies before the needle, as with a string literal, every text in which the first character of the needle
  occurs makes the comparison step before the needle: the search is undefined there, and finds nothing elsewhere.
\<close>

lemma rstrstr_loop_literal:
  assumes "c \<noteq> NUL"
  shows "k \<le> length m \<Longrightarrow> rstrstr_loop m 0 (c # nd) 0 k = (if c \<in> set (take k m) then None else Some None)"
proof (induction k)
  case (Suc k)
  have "rstrstr_cmp m (c # nd) (0 + k + 1) (0 + 1) = (if m ! k = c then None else Some False)"
    using Suc.prems assms by simp
  then show ?case
    using Suc by (auto simp: take_Suc_conv_app_nth)
qed simp

lemma rstrstr_literal:
  assumes "c \<noteq> NUL" and "len \<le> length m" and "length nd \<le> len" and "nd = c # cs"
  shows "rstrstr m 0 len (nd @ [NUL]) 0 (length nd) = (if c \<in> set (take (len - length cs) m) then None else Some None)"
  using assms rstrstr_loop_literal [of c "len - length cs" m "cs @ [NUL]"] by (auto simp: rstrstr_def Suc_diff_Suc)

section \<open>Socket options\<close>

datatype sockopt = SO_KEEPALIVE | TCP_NODELAY | SO_REUSEADDR | SO_REUSEPORT | IP_TTL | SO_RCVBUF
  | SO_SNDBUF | IP_MULTICAST_TTL | IP_TOS

datatype fdcall = F_GETFL | F_SETFL int | SETSOCKOPT sockopt int

text \<open>
  The kernel is a function of the calls made before and of the call; a helper threads the list of
  calls it has made.
\<close>

type_synonym kernel = "fdcall list \<Rightarrow> fdcall \<Rightarrow> int"
type_synonym 'a fd_prog = "fdcall list \<Rightarrow> 'a \<times> fdcall list"

definition fd_call :: "kernel \<Rightarrow> fdcall \<Rightarrow> int fd_prog" where
  "fd_call kern c tr = (kern tr c, tr @ [c])"

definition setFdNonBlock :: "kernel \<Rightarrow> bool fd_prog" where
  "setFdNonBlock kern tr =
     (let (arg, tr) = fd_call kern F_GETFL tr in
      if arg < 0 then (False, tr)
      else let (r, tr) = fd_call kern (F_SETFL (or arg 2048)) tr in
           if r < 0 then (False, tr) else (True, tr))"

definition setFdNoSIGPIPE :: "kernel \<Rightarrow> bool fd_prog" where
  "setFdNoSIGPIPE kern tr = (True, tr)"

definition setFdKeepAlive :: "kernel \<Rightarrow> bool fd_prog" where
  "setFdKeepAlive kern tr =
     (let (r, tr) = fd_call kern (SETSOCKOPT SO_KEEPALIVE 1) tr in (\<not> r \<noteq> 0, tr))"

definition setFdNoNagle :: "kernel \<Rightarrow> bool fd_prog" where
  "setFdNoNagle kern tr =
     (let (r, tr) = fd_call kern (SETSOCKOPT TCP_NODELAY 1) tr in (\<not> r \<noteq> 0, tr))"

definition setFdReuseAddress :: "kernel \<Rightarrow> bool fd_prog" where
  "setFdReuseAddress kern tr =
     (let (r, tr) = fd_call kern (SETSOCKOPT SO_REUSEADDR 1) tr in
      if r \<noteq> 0 then (False, tr)
      else let (r, tr) = fd_call kern (SETSOCKOPT SO_REUSEPORT 1) tr in
           if r \<noteq> 0 then (False, tr) else (True, tr))"

definition setFdTTL :: "kernel \<Rightarrow> nat \<Rightarrow> bool fd_prog" where
  "setFdTTL kern ttl tr = (let (_, tr) = fd_call kern (SETSOCKOPT IP_TTL (int ttl)) tr in (True, tr))"

definition setFdRcvBuf :: "kernel \<Rightarrow> int \<Rightarrow> bool fd_prog" where
  "setFdRcvBuf kern n tr = (let (_, tr) = fd_call kern (SETSOCKOPT SO_RCVBUF n) tr in (True, tr))"

definition setFdSndBuf :: "kernel \<Rightarrow> int \<Rightarrow> bool fd_prog" where
  "setFdSndBuf kern n tr = (let (_, tr) = fd_call kern (SETSOCKOPT SO_SNDBUF n) tr in (True, tr))"

definition setFdMulticastTTL :: "kernel \<Rightarrow> nat \<Rightarrow> bool fd_prog" where
  "setFdMulticastTTL kern ttl tr =
     (let (_, tr) = fd_call kern (SETSOCKOPT IP_MULTICAST_TTL (int ttl)) tr in (True, tr))"

definition setFdTOS :: "kernel \<Rightarrow> nat \<Rightarrow> bool fd_prog" where
  "setFdTOS kern tos tr = (let (_, tr) = fd_call kern (SETSOCKOPT IP_TOS (int tos)) tr in (True, tr))"

definition setFdOptions :: "kernel \<Rightarrow> bool \<Rightarrow> bool fd_prog" where
  "setFdOptions kern set_nagle tr =
     (let (ok, tr) = setFdNonBlock kern tr in
      if \<not> ok then (False, tr)
      else let (ok, tr) = setFdNoSIGPIPE kern tr in
      if \<not> ok then (False, tr)
      else let (ok, tr) = setFdKeepAlive kern tr in
      if \<not> ok then (False, tr)
      else let (_, tr) = (if set_nagle then setFdNoNagle kern tr else (True, tr));
               (ok, tr) = setFdReuseAddress kern tr in
      if \<not> ok then (False, tr) else (True, tr))"

lemmas setFd_defs = setFdNonBlock_def setFdNoSIGPIPE_def setFdKeepAlive_def setFdNoNagle_def
  setFdReuseAddress_def fd_call_def

lemma setFdOptions_calls:
  assumes "setFdOptions kern nagle tr = (True, tr')"
  shows "tr' = tr @ [F_GETFL, F_SETFL (or (kern tr F_GETFL) 2048), SETSOCKOPT SO_KEEPALIVE 1] @
     (if nagle then [SETSOCKOPT TCP_NODELAY 1] else []) @
     [SETSOCKOPT SO_REUSEADDR 1, SETSOCKOPT SO_REUSEPORT 1]"
  using assms by (auto simp: setFdOptions_def setFd_defs Let_def split: if_splits)

section \<open>Lemmas on trimming and tags\<close>

lemma rTrim_loop_spec:
  "n \<le> length v \<Longrightarrow> rTrim_loop v n \<le> n \<and> list_all is_blank (drop (rTrim_loop v n) (take n v)) \<and>
     (rTrim_loop v n = 0 \<or> \<not> is_blank (v ! (rTrim_loop v n - 1)))"
proof (induction n)
  case (Suc n)
  then have "take (Suc n) v = take n v @ [v ! n]"
    by (simp add: take_Suc_conv_app_nth)
  then show ?case
    using Suc by (auto simp: le_Suc_eq)
qed simp

lemma rTrim_spec:
  assumes "length v < 2 ^ 31"
  shows "\<exists>r. v = rTrim v @ r \<and> list_all is_blank r \<and> (rTrim v = [] \<or> \<not> is_blank (List.last (rTrim v)))"
proof -
  let ?k = "rTrim_loop v (length v)"
  have i: "i32 (int (length v)) = int (length v)"
    using assms by (simp add: i32_small)
  have r: "rTrim v = take ?k v"
    by (simp add: rTrim_def i)
  note k = rTrim_loop_spec [of "length v" v, simplified]
  have "List.last (take ?k v) = v ! (?k - 1)" if "?k \<noteq> 0"
  proof -
    have "take ?k v \<noteq> []"
      using k that by auto
    then show ?thesis
      using k that by (simp add: last_conv_nth)
  qed
  then show ?thesis
    using k unfolding r by (intro exI [of _ "drop ?k v"]) auto
qed

lemma trim_spec:
  assumes "length v < 2 ^ 31"
  shows "\<exists>l r. v = l @ trim v @ r \<and> list_all is_blank l \<and> list_all is_blank r \<and>
     (trim v = [] \<or> \<not> is_blank (hd (trim v)) \<and> \<not> is_blank (List.last (trim v)))"
proof -
  let ?m = "lTrim v"
  have v: "v = takeWhile is_blank v @ ?m"
    by (simp add: lTrim_def)
  have "length ?m < 2 ^ 31"
    using assms unfolding lTrim_def by (meson le_less_trans length_dropWhile_le)
  from rTrim_spec [OF this] obtain r where r: "?m = trim v @ r" "list_all is_blank r"
    "trim v = [] \<or> \<not> is_blank (List.last (trim v))"
    by (auto simp: trim_def)
  have "\<not> is_blank (hd (trim v))" if "trim v \<noteq> []"
  proof -
    have "hd (trim v) = hd ?m"
      using r(1) that by simp
    then show ?thesis
      using r(1) that by (metis append_is_Nil_conv hd_dropWhile lTrim_def)
  qed
  moreover have "list_all is_blank (takeWhile is_blank v)"
    by (auto simp: list_all_iff dest: set_takeWhileD)
  ultimately show ?thesis
    using v r by (metis append.assoc)
qed

lemma base_digit_chr:
  assumes "d < 10"
  shows "base_digit (digit_chr d) = Some d"
proof -
  have "\<forall>d\<in>set [0..<10]. base_digit (digit_chr d) = Some d"
    by code_simp
  then show ?thesis
    using assms by simp
qed

lemma digit_chr_set:
  assumes "d < 10"
  shows "digit_chr d \<in> set ''0123456789''"
proof -
  have "\<forall>d\<in>set [0..<10]. digit_chr d \<in> set ''0123456789''"
    by code_simp
  then show ?thesis
    using assms by simp
qed

lemma strtol_digits_dec:
  "strtol_digits 10 (dec_digits n @ rest) a k =
     strtol_digits 10 rest (a * 10 ^ length (dec_digits n) + n) (k + length (dec_digits n))"
proof (induction n arbitrary: a k rest rule: dec_digits.induct)
  case (1 n)
  note digit = base_digit_chr
  show ?case
  proof (cases "n < 10")
    case True
    then show ?thesis
      by (simp add: dec_digits.simps [of n] digit)
  next
    case False
    then have "dec_digits n = dec_digits (n div 10) @ [digit_chr (n mod 10)]"
      by (simp add: dec_digits.simps [of n])
    then show ?thesis
      using "1.IH" [OF False] by (simp add: digit algebra_simps)
  qed
qed

lemma dec_digits_hd: "hd (dec_digits n) \<in> set ''0123456789''"
proof (induction n rule: dec_digits.induct)
  case (1 n)
  note small = digit_chr_set
  show ?case
  proof (cases "n < 10")
    case True
    then show ?thesis
      using small by (simp add: dec_digits.simps [of n])
  next
    case False
    then show ?thesis
      using 1 by (simp add: dec_digits.simps [of n])
  qed
qed

lemma c_strtol_dec_digits:
  assumes "n < 2 ^ 63"
  shows "c_strtol 10 (dec_digits n) = (int n, length (dec_digits n))"
proof -
  obtain c cs where cs: "dec_digits n = c # cs"
    using dec_digits_not_Nil [of n] by (cases "dec_digits n") blast+
  then have c: "c \<in> set ''0123456789''"
    using dec_digits_hd [of n] by simp
  then have "\<not> is_space c" and sign: "strtol_sign (c # cs) = (False, 0)"
    by (auto simp: is_space_def strtol_sign_def)
  moreover have "strtol_prefix 10 (c # cs) = (10, 0)"
    by (auto simp: strtol_prefix_def split: list.split)
  ultimately show ?thesis
    using strtol_digits_dec [of n "[]" 0 0] assms
    by (simp add: c_strtol_def cs sat64_def)
qed

lemma c_atoi_dec_digits: "n < 2 ^ 31 \<Longrightarrow> c_atoi (dec_digits n) = int n"
  by (simp add: c_atoi_def c_strtol_dec_digits i32_small)

section \<open>Properties\<close>

text \<open>
  \<open>split\<close> returns exactly when the separator is not empty; joining the pieces with the separator
  gives the text back and no piece contains the separator.
\<close>
theorem split_join:
  assumes "length sep < 2 ^ 32"
  shows "(split str sep = None \<longleftrightarrow> sep = []) \<and>
     (\<forall>ps. split str sep = Some ps \<longrightarrow> join sep ps = str \<and> (\<forall>p\<in>set ps. \<not> occurs sep p))"
  using split_pieces [OF _ assms, of str] split_empty join_pieces [of sep str] pieces_separated [of sep _ str]
  by (cases "sep = []") auto

lemma split_join_witness:
  "\<exists>ps. split ''a, b'' '', '' = Some ps \<and> join '', '' ps = ''a, b'' \<and> list_all (\<lambda>p. \<not> occurs '', '' p) ps"
  using split_join [of "'', ''" "''a, b''"] by (auto simp: list_all_iff)

text \<open>
  \<open>replace\<close>, which edits the text in place and searches on after each inserted replacement, gives
  the pieces between the occurrences joined by the replacement.
\<close>
theorem replace_is_join_split:
  assumes "search \<noteq> []" and "length search < 2 ^ 32"
  shows "Some (replace target search rep) = map_option (join rep) (split target search)"
  using assms by (simp add: split_pieces replace_pieces)

lemma replace_is_join_split_witness:
  "Some (replace ''aXbX'' ''X'' ''XX'') = map_option (join ''XX'') (split ''aXbX'' ''X'')"
  using replace_is_join_split [of "''X''" "''aXbX''" "''XX''"] by simp

text \<open>
  \<open>trim\<close> removes blanks, tabs and line ends from both sides and nothing else, for texts below 2 GiB.
\<close>
theorem trim_strips:
  assumes "length v < 2 ^ 31"
  shows "\<exists>l r. v = l @ trim v @ r \<and> list_all is_blank l \<and> list_all is_blank r \<and>
     (trim v = [] \<or> \<not> is_blank (hd (trim v)) \<and> \<not> is_blank (List.last (trim v)))"
  using assms by (rule trim_spec)

lemma trim_strips_witness:
  "\<exists>l r. '' a b '' = l @ trim '' a b '' @ r \<and> list_all is_blank l \<and> list_all is_blank r \<and>
     (trim '' a b '' = [] \<or> \<not> is_blank (hd (trim '' a b '')) \<and> \<not> is_blank (List.last (trim '' a b '')))"
  by (rule trim_strips) simp

text \<open>
  \<open>rstrstr\<close> does not search for the needle: after the first character it walks both pointers
  backwards, so it compares the needle's first character only, and then the characters that happen
  to lie before the needle in memory. When a \<open>NUL\<close> lies there, it returns the last position of that
  character, whether or not the rest of the needle follows; when nothing may be read there, it is undefined
  on every text with the first character at the last position.
\<close>
theorem rstrstr_first_char_only:
  assumes "needle = c # cs" and "c \<noteq> NUL" and "length needle \<le> length m"
  shows "rstrstr m 0 (length m) (NUL # needle @ [NUL]) 1 (length needle) =
       Some (last_pos c m (length m - length cs)) \<and>
     (m ! (length m - length needle) = c \<longrightarrow>
       rstrstr m 0 (length m) (needle @ [NUL]) 0 (length needle) = None)"
proof -
  have "rstrstr m 0 (length m) (NUL # needle @ [NUL]) 1 (length needle) =
      Some (last_pos c m (length m - length cs))"
    using rstrstr_loop_NUL [of "NUL # needle @ [NUL]" "[]" c "cs @ [NUL]" "length m - length cs" m] assms
    by (auto simp: rstrstr_def Suc_diff_Suc)
  then show ?thesis
    using assms by (auto simp: rstrstr_def)
qed

lemma rstrstr_first_char_only_witness:
  "rstrstr (CR # ''abcd'') 0 (length (CR # ''abcd'')) (NUL # [CR, LF, CR, LF] @ [NUL]) 1 (length [CR, LF, CR, LF]) =
     Some (Some 0) \<and>
   rstrstr (CR # ''abc'') 0 (length (CR # ''abc'')) ([CR, LF, CR, LF] @ [NUL]) 0 (length [CR, LF, CR, LF]) = None"
  using rstrstr_first_char_only [of "[CR, LF, CR, LF]" CR "[LF, CR, LF]" "CR # ''abcd''"]
    rstrstr_first_char_only [of "[CR, LF, CR, LF]" CR "[LF, CR, LF]" "CR # ''abc''"]
  by (simp del: rstrstr_loop.simps rstrstr_cmp.simps add: numeral_eq_Suc)

text \<open>
  When \<open>setFdOptions\<close> succeeds, the descriptor is non-blocking (the flag is added to the flags read
  before), keep-alive is on, the address and port are reusable, and Nagle's algorithm is asked off
  when requested; these are all the calls it made, in this order.
\<close>
theorem setFdOptions_success:
  assumes "setFdOptions kern nagle [] = (True, tr)"
  shows "tr = [F_GETFL, F_SETFL (or (kern [] F_GETFL) 2048), SETSOCKOPT SO_KEEPALIVE 1] @
     (if nagle then [SETSOCKOPT TCP_NODELAY 1] else []) @
     [SETSOCKOPT SO_REUSEADDR 1, SETSOCKOPT SO_REUSEPORT 1]"
  using setFdOptions_calls [OF assms] by simp

lemma setFdOptions_success_witness:
  "snd (setFdOptions (\<lambda>_ _. 0) True []) = [F_GETFL, F_SETFL (or 0 2048), SETSOCKOPT SO_KEEPALIVE 1] @
     (if True then [SETSOCKOPT TCP_NODELAY 1] else []) @
     [SETSOCKOPT SO_REUSEADDR 1, SETSOCKOPT SO_REUSEPORT 1]"
proof (rule setFdOptions_success)
  show "setFdOptions (\<lambda>_ _. 0) True [] = (True, snd (setFdOptions (\<lambda>_ _. 0) True []))"
    by (simp add: setFdOptions_def setFd_defs)
qed

end
