(* ===== verification/Streams.thy ===== *)
theory Streams
  imports Net Platform
begin

text \<open>
  Byte streams: \<open>BaseProcess::SendMsg\<close>, the event handlers of the TCP, UNIX and pipe carriers and the two
  connectors. What the kernel answers to a read or a send is a function from the request; the application's
  \<open>Process\<close> is a function on the whole state, \<open>IsCloseNet\<close> a predicate on it.
\<close>

section \<open>SendMsg\<close>

definition stream_type :: "io_type \<Rightarrow> bool" where
  "stream_type t \<longleftrightarrow> t = IOHT_TCP_CARRIER \<or> t = IOHT_UNIX_CARRIER"

text \<open>What a send did: \<open>errno\<close> after a failure, the bytes accepted otherwise.\<close>

definition sent_on :: "int \<Rightarrow> int \<Rightarrow> nat \<Rightarrow> byte list \<Rightarrow> net \<Rightarrow> net" where
  "sent_on fd sent e bs st =
     (if sent < 0 then st\<lparr>nt_errno := e\<rparr>
      else st\<lparr>nt_wire := (nt_wire st)(fd := nt_wire st fd @ take (nat sent) bs)\<rparr>)"

definition flush_output :: "(byte list \<Rightarrow> syswrite) \<Rightarrow> nat \<Rightarrow> iohandler \<Rightarrow> net \<Rightarrow> (bool \<times> net) option" where
  "flush_output call p h st =
     do { b \<leftarrow> nt_proc st p;
          (if stream_type (ih_type h) \<or> ih_type h = IOHT_PIPE_CARRIER
           then do {
             (ok, sent, bs, out) \<leftarrow>
               (if stream_type (ih_type h) then ib_WriteToTCPFd call (bp_out b) 0x800000
                else ib_WriteToFd call (bp_out b) 0x800000);
             st \<leftarrow> set_proc p (\<lambda>b. b\<lparr>bp_out := out\<rparr>) st;
             Some (ok, sent_on (ih_fd h) sent (sw_errno (call bs)) bs st)
           }
           else Some (False, st)) }"

definition save_output :: "nat \<Rightarrow> nat \<Rightarrow> byte list \<Rightarrow> nat \<Rightarrow> net \<Rightarrow> (bool \<times> net) option" where
  "save_output p a data cache_send_len st =
     do { b \<leftarrow> nt_proc st p;
          if bp_send b < u32 (cache_send_len + length data) then Some (False, st)
          else do {
            (ok, out) \<leftarrow> ib_ReadFromBuffer (bp_out b) (map Some data) (length data);
            st \<leftarrow> set_proc p (\<lambda>b. b\<lparr>bp_out := out\<rparr>) st;
            if \<not> ok then Some (False, st)
            else if bp_write b then Some (True, st)
            else do {
              (_, st) \<leftarrow> EnableWriteData a st;
              st \<leftarrow> set_proc p (\<lambda>b. b\<lparr>bp_write := True\<rparr>) st;
              Some (True, st) } } }"

definition stop_writing :: "nat \<Rightarrow> nat \<Rightarrow> net \<Rightarrow> net option" where
  "stop_writing p a st =
     do { (_, st) \<leftarrow> DisableWriteData a False st; set_proc p (\<lambda>b. b\<lparr>bp_write := False\<rparr>) st }"

definition send_direct ::
    "(byte list \<Rightarrow> syswrite) \<Rightarrow> nat \<Rightarrow> nat \<Rightarrow> iohandler \<Rightarrow> byte list \<Rightarrow> nat \<Rightarrow> net \<Rightarrow> (bool \<times> net) option" where
  "send_direct call p a h data cache_send_len st =
     (if \<not> (stream_type (ih_type h) \<or> ih_type h = IOHT_PIPE_CARRIER) then Some (False, st)
      else do {
        let r = call data;
        let rs = i32 (sw_sent r);
        let st = sent_on (ih_fd h) rs (sw_errno r) data st;
        if rs < 0 \<and> sw_errno r \<noteq> EAGAIN then Some (False, st)
        else do {
          let len = sub32 (length data) (nat rs);
          b \<leftarrow> nt_proc st p;
          if 0 < len then save_output p a (drop (nat rs) data) cache_send_len st
          else if bp_write b then do { st \<leftarrow> stop_writing p a st; Some (True, st) }
          else Some (True, st) } })"

definition SendMsg ::
    "(byte list \<Rightarrow> syswrite) \<Rightarrow> (byte list \<Rightarrow> syswrite) \<Rightarrow> nat \<Rightarrow> byte list \<Rightarrow> net \<Rightarrow> (bool \<times> net) option" where
  "SendMsg flush call p data st =
     do { b \<leftarrow> nt_proc st p;
          if bp_status b \<noteq> PROCESS_NET_STATUS_CONNECTED then Some (True, st)
          else do {
            a \<leftarrow> bp_io b;
            h \<leftarrow> nt_hand st a;
            let cache_send_len = u32 (ib_avail (bp_out b));
            (ok, st) \<leftarrow> (if 0 < cache_send_len then flush_output flush p h st else Some (True, st));
            b \<leftarrow> nt_proc st p;
            let rest = u32 (ib_avail (bp_out b));
            if \<not> ok then Some (False, st)
            else if 0 < cache_send_len \<and> 0 < rest then save_output p a data rest st
            else send_direct call p a h data rest st } }"

section \<open>Events\<close>

record epoll_event =
  ev_in :: bool
  ev_out :: bool
  ev_err :: bool
  ev_hup :: bool

type_synonym app = "nat \<Rightarrow> int \<Rightarrow> net \<Rightarrow> (bool \<times> net) option"

text \<open>The process a handler points to, as the code reads \<open>process_\<close> anew after every call-back.\<close>

definition process_of :: "nat \<Rightarrow> net \<Rightarrow> nat option" where
  "process_of a st = Option.bind (nt_hand st a) ih_process"

text \<open>A phase of an event handler: \<^term>\<open>False\<close> is its \<open>return false\<close>, after the status was set.\<close>

definition give_up :: "nat \<Rightarrow> net_status \<Rightarrow> net \<Rightarrow> (bool \<times> net) option" where
  "give_up a s st = do { p \<leftarrow> process_of a st; st \<leftarrow> SetNetStatus p s st; Some (False, st) }"

definition carrier_ready :: "nat \<Rightarrow> net \<Rightarrow> bool option" where
  "carrier_ready a st =
     do { h \<leftarrow> nt_hand st a;
          case ih_process h of
            None \<Rightarrow> Some False
          | Some p \<Rightarrow> do { b \<leftarrow> nt_proc st p; Some (bp_status b = PROCESS_NET_STATUS_CONNECTED) } }"

definition stream_errors :: "nat \<Rightarrow> epoll_event \<Rightarrow> net \<Rightarrow> (bool \<times> net) option" where
  "stream_errors a ev st =
     (if ev_err ev then
        give_up a (if ev_in ev then PROCESS_NET_STATUS_PEER_RESET else PROCESS_NET_STATUS_SYS_ERROR) st
      else if ev_hup ev then give_up a PROCESS_NET_STATUS_PEER_RESET st
      else Some (True, st))"

text \<open>\<open>errno\<close> after a read is what the call left when it failed, and unchanged otherwise.\<close>

definition read_errno :: "sysread \<Rightarrow> net \<Rightarrow> net" where
  "read_errno r st = (if sr_data r = None then st\<lparr>nt_errno := sr_errno r\<rparr> else st)"

definition read_input ::
    "(nat \<Rightarrow> sysread) \<Rightarrow> nat \<Rightarrow> net \<Rightarrow> (bool \<times> int \<times> net) option" where
  "read_input rd p st =
     do { b \<leftarrow> nt_proc st p;
          (ok, amount, inb) \<leftarrow> ib_ReadFromTCPFd rd (bp_in b) (bp_recv b);
          st \<leftarrow> set_proc p (\<lambda>b. b\<lparr>bp_in := inb\<rparr>) st;
          Some (ok, amount, read_errno (rd (bp_recv b)) st) }"

definition call_process :: "app \<Rightarrow> nat \<Rightarrow> int \<Rightarrow> net \<Rightarrow> (bool \<times> net) option" where
  "call_process app a amount st =
     do { p \<leftarrow> process_of a st;
          (ok, st) \<leftarrow> app p amount st;
          if ok then Some (True, st) else give_up a PROCESS_NET_STATUS_DISCONNECT st }"

definition TCP_read :: "(nat \<Rightarrow> sysread) \<Rightarrow> app \<Rightarrow> nat \<Rightarrow> net \<Rightarrow> (bool \<times> net) option" where
  "TCP_read rd app a st =
     do { p \<leftarrow> process_of a st;
          (ok, amount, st) \<leftarrow> read_input rd p st;
          if ok then call_process app a amount st
          else if amount = 0 then give_up a PROCESS_NET_STATUS_PEER_RESET st
          else if nt_errno st \<noteq> EAGAIN then give_up a PROCESS_NET_STATUS_SYS_ERROR st
          else Some (True, st) }"

text \<open>The UNIX carrier also calls \<open>Process\<close> when nothing could be read, with the amount -1.\<close>

definition UNIX_read :: "(nat \<Rightarrow> sysread) \<Rightarrow> app \<Rightarrow> nat \<Rightarrow> net \<Rightarrow> (bool \<times> net) option" where
  "UNIX_read rd app a st =
     do { p \<leftarrow> process_of a st;
          (ok, amount, st) \<leftarrow> read_input rd p st;
          if \<not> ok \<and> amount = 0 then give_up a PROCESS_NET_STATUS_PEER_RESET st
          else if \<not> ok \<and> nt_errno st \<noteq> EAGAIN then give_up a PROCESS_NET_STATUS_SYS_ERROR st
          else call_process app a amount st }"

definition stream_write :: "(byte list \<Rightarrow> syswrite) \<Rightarrow> nat \<Rightarrow> net \<Rightarrow> (bool \<times> net) option" where
  "stream_write call a st =
     do { h \<leftarrow> nt_hand st a;
          p \<leftarrow> ih_process h;
          b \<leftarrow> nt_proc st p;
          case GetOutputBuffer b of
            None \<Rightarrow> do { st \<leftarrow> stop_writing p a st; Some (True, st) }
          | Some out \<Rightarrow> do {
              (ok, sent, bs, out) \<leftarrow> ib_WriteToTCPFd call out 8388608;
              st \<leftarrow> set_proc p (\<lambda>b. b\<lparr>bp_out := out\<rparr>) st;
              let st = sent_on (ih_fd h) sent (sw_errno (call bs)) bs st;
              if \<not> ok then give_up a PROCESS_NET_STATUS_SYS_ERROR st
              else if ib_avail out = 0 then do { st \<leftarrow> stop_writing p a st; Some (True, st) }
              else Some (True, st) } }"

definition close_check :: "(nat \<Rightarrow> net \<Rightarrow> bool) \<Rightarrow> nat \<Rightarrow> net \<Rightarrow> (bool \<times> net) option" where
  "close_check IsCloseNet a st =
     do { p \<leftarrow> process_of a st;
          _ \<leftarrow> nt_proc st p;
          if IsCloseNet p st then give_up a PROCESS_NET_STATUS_DISCONNECT st else Some (True, st) }"

text \<open>The phases in sequence, each only when the one before did not give up.\<close>

fun phases :: "(net \<Rightarrow> (bool \<times> net) option) list \<Rightarrow> net \<Rightarrow> (bool \<times> net) option" where
  "phases [] st = Some (True, st)"
| "phases (f # fs) st = do { (ok, st) \<leftarrow> f st; if ok then phases fs st else Some (False, st) }"

record stream_calls =
  sc_read :: "nat \<Rightarrow> sysread"
  sc_write :: "byte list \<Rightarrow> syswrite"
  sc_process :: app
  sc_close :: "nat \<Rightarrow> net \<Rightarrow> bool"

definition TCPCarrier_OnEvent :: "stream_calls \<Rightarrow> nat \<Rightarrow> epoll_event \<Rightarrow> net \<Rightarrow> (bool \<times> net) option" where
  "TCPCarrier_OnEvent c a ev st =
     do { ready \<leftarrow> carrier_ready a st;
          if \<not> ready then Some (False, st)
          else phases
            [stream_errors a ev,
             (\<lambda>st. if ev_in ev then TCP_read (sc_read c) (sc_process c) a st else Some (True, st)),
             (\<lambda>st. if ev_out ev then stream_write (sc_write c) a st else Some (True, st)),
             close_check (sc_close c) a] st }"

definition UNIXCarrier_OnEvent :: "stream_calls \<Rightarrow> nat \<Rightarrow> epoll_event \<Rightarrow> net \<Rightarrow> (bool \<times> net) option" where
  "UNIXCarrier_OnEvent c a ev st =
     do { ready \<leftarrow> carrier_ready a st;
          if \<not> ready then Some (False, st)
          else phases
            [stream_errors a ev,
             (\<lambda>st. if ev_in ev then UNIX_read (sc_read c) (sc_process c) a st else Some (True, st)),
             (\<lambda>st. if ev_out ev then stream_write (sc_write c) a st else Some (True, st)),
             close_check (sc_close c) a] st }"

section \<open>Pipes\<close>

text \<open>The first result is \<open>readAmount\<close>, which the write phase hands to \<open>Process\<close> once more.\<close>

definition PIPE_read :: "(nat \<Rightarrow> sysread) \<Rightarrow> app \<Rightarrow> nat \<Rightarrow> net \<Rightarrow> (int \<times> bool \<times> net) option" where
  "PIPE_read rd app a st =
     do { p \<leftarrow> process_of a st;
          b \<leftarrow> nt_proc st p;
          (ok, amount, inb) \<leftarrow> ib_ReadFromFd rd (bp_in b) (bp_recv b) 0;
          st \<leftarrow> set_proc p (\<lambda>b. b\<lparr>bp_in := inb\<rparr>) st;
          let st = read_errno (rd (bp_recv b)) st;
          if \<not> ok \<and> amount \<noteq> 0 then map_option (Pair amount) (give_up a PROCESS_NET_STATUS_SYS_ERROR st)
          else map_option (Pair amount) (call_process app a amount st) }"

definition PIPE_write :: "(byte list \<Rightarrow> syswrite) \<Rightarrow> app \<Rightarrow> nat \<Rightarrow> int \<Rightarrow> net \<Rightarrow> (bool \<times> net) option" where
  "PIPE_write call app a amount st =
     do { (ok, st) \<leftarrow> call_process app a amount st;
          if \<not> ok then Some (False, st)
          else do {
            h \<leftarrow> nt_hand st a;
            p \<leftarrow> ih_process h;
            b \<leftarrow> nt_proc st p;
            case GetOutputBuffer b of
              None \<Rightarrow> Some (True, st)
            | Some out \<Rightarrow> do {
                (ok, sent, bs, out) \<leftarrow> ib_WriteToFd call out 8388608;
                st \<leftarrow> set_proc p (\<lambda>b. b\<lparr>bp_out := out\<rparr>) st;
                let st = sent_on (ih_fd h) sent (sw_errno (call bs)) bs st;
                if \<not> ok then give_up a PROCESS_NET_STATUS_SYS_ERROR st else Some (True, st) } } }"

text \<open>
  A hang-up sets the status to \<open>SYS_ERROR\<close> but goes on to the final check; unless \<open>IsCloseNet\<close> holds, the
  handler stays and the next event finds the process not connected.
\<close>

definition PIPE_errors :: "app \<Rightarrow> nat \<Rightarrow> epoll_event \<Rightarrow> net \<Rightarrow> (bool \<times> net) option" where
  "PIPE_errors app a ev st =
     (if ev_err ev then
        do { p \<leftarrow> process_of a st; (_, st) \<leftarrow> app p 0 st; give_up a PROCESS_NET_STATUS_SYS_ERROR st }
      else if ev_hup ev then
        do { p \<leftarrow> process_of a st; (_, st) \<leftarrow> app p 0 st;
             (_, st) \<leftarrow> give_up a PROCESS_NET_STATUS_SYS_ERROR st; Some (True, st) }
      else Some (True, st))"

definition PIPECarrier_OnEvent :: "stream_calls \<Rightarrow> nat \<Rightarrow> epoll_event \<Rightarrow> net \<Rightarrow> (bool \<times> net) option" where
  "PIPECarrier_OnEvent c a ev st =
     do { ready \<leftarrow> carrier_ready a st;
          if \<not> ready then Some (False, st)
          else do {
            (amount, ok, st) \<leftarrow>
              (if ev_in ev then PIPE_read (sc_read c) (sc_process c) a st else Some (0, True, st));
            if \<not> ok then Some (False, st)
            else phases
              [(\<lambda>st. if ev_out ev then PIPE_write (sc_write c) (sc_process c) a amount st else Some (True, st)),
               PIPE_errors (sc_process c) a ev,
               close_check (sc_close c) a] st } }"

section \<open>Connectors\<close>

definition connector_OnEvent ::
    "(nat \<Rightarrow> int \<Rightarrow> nat option \<Rightarrow> net \<Rightarrow> net option) \<Rightarrow> nat \<Rightarrow> nat \<Rightarrow> epoll_event \<Rightarrow> net \<Rightarrow> (bool \<times> net) option" where
  "connector_OnEvent carrier fresh a ev st =
     do { h \<leftarrow> nt_hand st a;
          p \<leftarrow> ih_process h;
          if ev_err ev then do {
            st \<leftarrow> SetNetStatus p PROCESS_NET_STATUS_SYS_ERROR st;
            st \<leftarrow> SetIOHandler p None st;
            Some (False, st) }
          else do {
            (_, st) \<leftarrow> DisableWriteData a True st;
            (_, st) \<leftarrow> DisableReadData a True st;
            b \<leftarrow> nt_proc st p;
            st \<leftarrow> (if bp_status b = PROCESS_NET_STATUS_CONNECTING
                  then do { st \<leftarrow> carrier fresh (ih_fd h) (Some p) st; SetFlag a IOHT_FLAG_CLOSE_NONE st }
                  else SetIOHandler p None st);
            st \<leftarrow> delete_handler a st;
            Some (True, st) } }"

definition TCPConnector_OnEvent ::
    "byte list \<Rightarrow> nat \<Rightarrow> nat \<Rightarrow> epoll_event \<Rightarrow> net \<Rightarrow> (bool \<times> net) option" where
  "TCPConnector_OnEvent peer fresh a ev st =
     connector_OnEvent (\<lambda>a fd process. new_TCPCarrier a fd process peer) fresh a ev st"

definition UNIXConnector_OnEvent :: "nat \<Rightarrow> nat \<Rightarrow> epoll_event \<Rightarrow> net \<Rightarrow> (bool \<times> net) option" where
  "UNIXConnector_OnEvent fresh a ev st = connector_OnEvent new_UNIXCarrier fresh a ev st"

text \<open>
  \<open>connect\<close> answers with its result and \<open>errno\<close>; \<open>address\<close> is whether \<open>inet_addr\<close> could read the address, which
  the UNIX connector does not need.
\<close>

definition open_fd :: "int \<Rightarrow> net \<Rightarrow> net" where
  "open_fd fd st = st\<lparr>nt_open := insert fd (nt_open st), nt_wire := (nt_wire st)(fd := []),
     nt_dgrams := (nt_dgrams st)(fd := [])\<rparr>"

definition connector_Connect :: "bool \<Rightarrow> int \<times> nat \<Rightarrow> nat \<Rightarrow> net \<Rightarrow> (bool \<times> net) option" where
  "connector_Connect address connect a st =
     (if \<not> address then Some (False, st)
      else do {
        (ok, st) \<leftarrow> EnableWriteData a st;
        if \<not> ok then Some (False, st)
        else if fst connect \<noteq> 0
        then Some (snd connect = EINPROGRESS, st\<lparr>nt_errno := snd connect\<rparr>)
        else Some (True, st) })"

definition start_connect ::
    "io_type \<Rightarrow> bool \<Rightarrow> kernel \<Rightarrow> int option \<Rightarrow> bool \<Rightarrow> int \<times> nat \<Rightarrow> nat \<Rightarrow> nat \<Rightarrow> net \<Rightarrow> (bool \<times> net) option" where
  "start_connect type nagle kern socket address connect a p st =
     (case socket of
        None \<Rightarrow> Some (False, st)
      | Some fd \<Rightarrow>
          let st = open_fd fd st in
          if \<not> fst (setFdOptions kern nagle []) then Some (False, CloseFd fd st)
          else do {
            st \<leftarrow> new_connector a fd type (Some p) st;
            (ok, st) \<leftarrow> connector_Connect address connect a st;
            if ok then Some (True, st)
            else do {
              st \<leftarrow> SetNetStatus p PROCESS_NET_STATUS_SYS_ERROR st;
              (_, st) \<leftarrow> DisableWriteData a True st;
              st \<leftarrow> EnqueueForDelete a st;
              Some (False, st) } })"

definition TCPConnector_Connect ::
    "kernel \<Rightarrow> int option \<Rightarrow> bool \<Rightarrow> int \<times> nat \<Rightarrow> nat \<Rightarrow> nat \<Rightarrow> net \<Rightarrow> (bool \<times> net) option" where
  "TCPConnector_Connect kern socket address connect a p st =
     start_connect IOHT_TCP_CONNECTOR True kern socket address connect a p st"

definition UNIXConnector_Connect ::
    "kernel \<Rightarrow> int option \<Rightarrow> int \<times> nat \<Rightarrow> nat \<Rightarrow> nat \<Rightarrow> net \<Rightarrow> (bool \<times> net) option" where
  "UNIXConnector_Connect kern socket connect a p st =
     start_connect IOHT_UNIX_CONNECTOR False kern socket True connect a p st"

section \<open>Channels\<close>

text \<open>
  A history of a connection: its operations in order. When one fails the connection goes on or is over; \<open>lives\<close> tells which.
  The result lists whether the operations succeeded, up to the one that ended the connection.
\<close>

fun history_run :: "('o \<Rightarrow> bool) \<Rightarrow> ('o \<Rightarrow> net \<Rightarrow> (bool \<times> net) option) \<Rightarrow> 'o list \<Rightarrow> net \<Rightarrow> (bool list \<times> net) option" where
  "history_run lives step [] st = Some ([], st)"
| "history_run lives step (op # ops) st =
     do { (ok, st) \<leftarrow> step op st;
          if ok \<or> lives op then do { (oks, st) \<leftarrow> history_run lives step ops st; Some (ok # oks, st) }
          else Some ([ok], st) }"

definition goes_on :: "('o \<Rightarrow> bool) \<Rightarrow> 'o list \<Rightarrow> bool list \<Rightarrow> bool" where
  "goes_on lives ops oks \<longleftrightarrow> list_all2 (\<lambda>op ok. ok \<or> lives op) ops oks"

text \<open>
  What an operation with the content \<open>d\<close> has handed over: all of it when it succeeded, a first part of it otherwise.
\<close>

definition handed :: "'w list \<Rightarrow> bool \<Rightarrow> 'w list \<Rightarrow> bool" where
  "handed d ok part \<longleftrightarrow> prefix part d \<and> (ok \<longrightarrow> part = d)"

text \<open>
  What the stream and the datagram connections share: \<open>holds w q st\<close> relates a state to what the kernel has got and
  what waits. A step appends what it has handed over to the two together; after one that ends the connection the kernel
  has got a first part of all that.
\<close>

locale channel =
  fixes holds :: "'w list \<Rightarrow> 'w list \<Rightarrow> net \<Rightarrow> bool"
    and wire :: "net \<Rightarrow> 'w list"
    and step :: "'o \<Rightarrow> net \<Rightarrow> (bool \<times> net) option"
    and allowed :: "'o \<Rightarrow> bool"
    and content :: "'o \<Rightarrow> 'w list"
    and lives :: "'o \<Rightarrow> bool"
    and hands :: "'o \<Rightarrow> bool \<Rightarrow> 'w list \<Rightarrow> bool"
  assumes wire: "holds w q st \<Longrightarrow> wire st = w"
    and hands_law: "hands op ok part \<Longrightarrow> handed (content op) ok part"
    and step_law: "holds w q st \<Longrightarrow> allowed op \<Longrightarrow> \<exists>ok st' part. step op st = Some (ok, st') \<and> hands op ok part \<and>
      prefix (wire st') (w @ q @ part) \<and> (ok \<or> lives op \<longrightarrow> (\<exists>w' q'. holds w' q' st' \<and> w' @ q' = w @ q @ part))"
begin

lemma whole_history:
  assumes "holds w q st" and "\<forall>op\<in>set ops. allowed op"
  shows "\<exists>oks st' parts. history_run lives step ops st = Some (oks, st') \<and>
     list_all2 (\<lambda>(op, ok) part. hands op ok part) (zip ops oks) parts \<and> prefix (wire st') (w @ q @ concat parts) \<and>
     (goes_on lives ops oks \<longrightarrow> (\<exists>q'. wire st' @ q' = w @ q @ concat parts \<and> holds (wire st') q' st'))"
  using assms
proof (induction ops arbitrary: w q st)
  case Nil
  then show ?case
    using wire [OF Nil.prems(1)] by (intro exI [of _ "[]"] exI [of _ st]) auto
next
  case (Cons op ops)
  obtain ok st1 part where st1: "step op st = Some (ok, st1)" "hands op ok part" "prefix (wire st1) (w @ q @ part)"
    "ok \<or> lives op \<longrightarrow> (\<exists>w' q'. holds w' q' st1 \<and> w' @ q' = w @ q @ part)"
    using step_law [OF Cons.prems(1), of op] Cons.prems(2) by (metis list.set_intros(1))
  show ?case
  proof (cases "ok \<or> lives op")
    case True
    then obtain w' q' where c': "holds w' q' st1" "w' @ q' = w @ q @ part"
      using st1(4) by blast
    have "\<forall>op\<in>set ops. allowed op"
      using Cons.prems(2) by simp
    from Cons.IH [OF c'(1) this] obtain oks st' parts where rest: "history_run lives step ops st1 = Some (oks, st')"
      "list_all2 (\<lambda>(op, ok) part. hands op ok part) (zip ops oks) parts" "prefix (wire st') (w' @ q' @ concat parts)"
      "goes_on lives ops oks \<longrightarrow> (\<exists>q''. wire st' @ q'' = w' @ q' @ concat parts \<and> holds (wire st') q'' st')"
      by blast
    have same: "w' @ q' @ concat parts = w @ q @ concat (part # parts)"
      using c'(2) by (metis append.assoc concat.simps(2))
    show ?thesis
      using st1(1,2) True rest [unfolded same]
      by (intro exI [of _ "ok # oks"] exI [of _ st'] exI [of _ "part # parts"]) (simp add: goes_on_def)
  next
    case False
    then show ?thesis
      using st1(1-3) by (intro exI [of _ "[ok]"] exI [of _ st1] exI [of _ "[part]"]) (simp add: goes_on_def)
  qed
qed

text \<open>The same when the history is left at the first operation that fails.\<close>

lemma history:
  assumes "holds w q st" and "\<forall>op\<in>set ops. allowed op"
  shows "\<exists>ok st'. phases (map step ops) st = Some (ok, st') \<and>
     prefix (wire st') (w @ q @ concat (map content ops)) \<and>
     (ok \<longrightarrow> (\<exists>q'. wire st' @ q' = w @ q @ concat (map content ops) \<and> holds (wire st') q' st'))"
  using assms
proof (induction ops arbitrary: w q st)
  case Nil
  then show ?case
    using wire [OF Nil.prems(1)] by (intro exI [of _ True] exI [of _ st]) auto
next
  case (Cons op ops)
  obtain ok st1 part where st1': "step op st = Some (ok, st1)" "hands op ok part" "prefix (wire st1) (w @ q @ part)"
    "ok \<longrightarrow> (\<exists>w' q'. holds w' q' st1 \<and> w' @ q' = w @ q @ part)"
    using step_law [OF Cons.prems(1), of op] Cons.prems(2) by (metis list.set_intros(1))
  have "handed (content op) ok part"
    by (rule hands_law [OF st1'(2)])
  then have "prefix (w @ q @ part) (w @ q @ content op)" "ok \<longrightarrow> part = content op"
    by (simp_all add: handed_def)
  then have st1: "step op st = Some (ok, st1)" "ok \<longrightarrow> (\<exists>w' q'. holds w' q' st1 \<and> w' @ q' = w @ q @ content op)"
    "prefix (wire st1) (w @ q @ content op)"
    using st1' by (auto intro: prefix_order.trans)
  show ?case
  proof (cases ok)
    case True
    then obtain w' q' where c': "holds w' q' st1" "w' @ q' = w @ q @ content op"
      using st1(2) by blast
    then have same: "w' @ q' @ concat (map content ops) = w @ q @ concat (map content (op # ops))"
      by (metis append.assoc concat.simps(2) list.simps(9))
    have "\<forall>op\<in>set ops. allowed op"
      using Cons.prems(2) by simp
    from Cons.IH [OF c'(1) this, unfolded same] show ?thesis
      using st1(1) True by simp
  next
    case False
    then show ?thesis
      using st1(1,3) prefix_prefix [of "wire st1" "w @ q @ content op" "concat (map content ops)"]
      by (intro exI [of _ False] exI [of _ st1]) simp
  qed
qed

end

section \<open>One connection\<close>

text \<open>
  The state around the connection of process \<open>p\<close> through handler \<open>a\<close> on descriptor \<open>fd\<close>: they point to each other,
  the interest list asks for \<open>EPOLLOUT\<close> exactly when \<open>is_write_\<close> is set, which it is while bytes wait; \<open>w\<close> is what
  the kernel has accepted, \<open>q\<close> what waits in the output buffer, \<open>s\<close> the size it may reach.
\<close>

definition conn :: "nat \<Rightarrow> nat \<Rightarrow> int \<Rightarrow> nat \<Rightarrow> byte list \<Rightarrow> byte list \<Rightarrow> net \<Rightarrow> bool" where
  "conn p a fd s w q st \<longleftrightarrow> (\<exists>b h. nt_proc st p = Some b \<and> nt_hand st a = Some h \<and>
     bp_io b = Some a \<and> bp_status b = PROCESS_NET_STATUS_CONNECTED \<and> bp_send b = s \<and>
     ib_fits s (bp_out b) \<and> ib_data (bp_out b) = q \<and> (q \<noteq> [] \<longrightarrow> bp_write b) \<and>
     ih_process h = Some p \<and> ih_fd h = fd \<and> ih_type h = IOHT_TCP_CARRIER \<and>
     fd \<in> nt_open st \<and> nt_epoll st fd = Some (a, bp_write b) \<and> nt_wire st fd = w)"

definition sends_ok :: "(byte list \<Rightarrow> syswrite) \<Rightarrow> bool" where
  "sends_ok call \<longleftrightarrow> (\<forall>bs. -1 \<le> sw_sent (call bs) \<and> sw_sent (call bs) \<le> int (length bs))"

named_theorems net_simps \<open>unfolding of state updates\<close>

lemmas [net_simps] = set_proc_def set_hand_def heap_simps

lemma conn_bounds:
  assumes "conn p a fd s w q st"
  shows "length q \<le> s"
  using assms by (auto simp: conn_def ib_fits_def)

lemma conn_wire: "conn p a fd s w q st \<Longrightarrow> nt_wire st fd = w"
  by (auto simp: conn_def)

lemma ib_fits_avail: "ib_fits s b \<Longrightarrow> ib_avail b = length (ib_data b)"
  by (simp add: ib_fits_def ib_avail_wf)

lemma epoll_mod_conn:
  assumes "fd \<in> nt_open st" and "nt_epoll st fd = Some e"
  shows "epoll_mod fd e' st = (True, st\<lparr>nt_epoll := (nt_epoll st)(fd \<mapsto> e')\<rparr>)"
  using assms by (simp add: epoll_mod_def)

lemma stop_writing_conn:
  assumes "conn p a fd s w [] st"
  shows "\<exists>st'. stop_writing p a st = Some st' \<and> conn p a fd s w [] st' \<and> nt_epoll st' fd = Some (a, False)"
proof -
  obtain b h where *: "nt_proc st p = Some b" "nt_hand st a = Some h" "fd \<in> nt_open st"
    "nt_epoll st fd = Some (a, bp_write b)" "ih_fd h = fd"
    using assms by (auto simp: conn_def)
  then show ?thesis
    using assms by (auto simp: stop_writing_def DisableWriteData_def epoll_mod_conn net_simps conn_def)
qed

lemma save_output_conn:
  assumes c: "conn p a fd s w q st" and s: "s \<le> 2 ^ 28" and d: "length data < 2 ^ 31"
  shows "\<exists>ok st'. save_output p a data (length q) st = Some (ok, st') \<and>
     conn p a fd s w (if ok then q @ data else q) st'"
proof -
  obtain b h where *: "nt_proc st p = Some b" "nt_hand st a = Some h" "fd \<in> nt_open st"
    "nt_epoll st fd = Some (a, bp_write b)" "ih_fd h = fd" "ib_fits s (bp_out b)" "ib_data (bp_out b) = q"
    "bp_send b = s"
    using c by (auto simp: conn_def)
  have u: "u32 (length q + length data) = length q + length data"
    using conn_bounds [OF c] s d by (simp add: u32_small)
  show ?thesis
  proof (cases "s < length q + length data")
    case True
    then show ?thesis
      using * u c by (intro exI [of _ False]) (simp add: save_output_def)
  next
    case False
    then obtain out where out: "ib_ReadFromBuffer (bp_out b) (map Some data) (length data) = Some (True, out)"
      "ib_fits s out" "ib_data out = q @ data"
      using ib_ReadFromBuffer_fits [of s "bp_out b" data "[]"] * s by auto
    show ?thesis
    proof (cases "bp_write b")
      case True
      then show ?thesis
        using * u out False c by (auto simp: save_output_def net_simps conn_def)
    next
      case off: False
      then show ?thesis
        using * u out False c
        by (auto simp: save_output_def net_simps EnableWriteData_def epoll_mod_conn conn_def)
    qed
  qed
qed

lemma write_conn:
  assumes c: "conn p a fd s w q st" and b: "nt_proc st p = Some b" and call: "sends_ok call"
  defines "r \<equiv> call (take 8388608 q)"
  defines "n \<equiv> nat (sw_sent r)"
  shows "\<exists>out. ib_WriteToTCPFd call (bp_out b) 8388608 =
       Some (\<not> (sw_sent r < 0 \<and> sw_errno r \<noteq> EAGAIN), sw_sent r, take 8388608 q, out) \<and>
     ib_avail out = length (drop n q) \<and>
     conn p a fd s (w @ take n q) (drop n q) (sent_on fd (sw_sent r) e (take 8388608 q)
       (st\<lparr>nt_proc := heap_mod p (\<lambda>b. b\<lparr>bp_out := out\<rparr>) (nt_proc st)\<rparr>))"
proof -
  have *: "ib_fits s (bp_out b)" "ib_data (bp_out b) = q"
    using c b by (auto simp: conn_def)
  have k: "-1 \<le> sw_sent r" "sw_sent r \<le> int (min 8388608 (length q))"
    using call by (simp_all add: sends_ok_def r_def) (metis length_take min.commute)
  obtain out where out: "ib_WriteToTCPFd call (bp_out b) 8388608 =
      Some (\<not> (sw_sent r < 0 \<and> sw_errno r \<noteq> EAGAIN), sw_sent r, take 8388608 q, out)"
    "ib_fits s out" "ib_data out = drop n q"
    using ib_WriteToTCPFd_fits [of s "bp_out b" 8388608 r call] * k by (auto simp: r_def n_def)
  have "n \<le> 8388608"
    using k by (simp add: n_def)
  then have "take n (take 8388608 q) = take n q"
    by (simp add: min_def)
  then show ?thesis
    using c b out by (intro exI [of _ out])
      (auto simp: sent_on_def conn_def heap_simps n_def ib_fits_avail dest: in_set_dropD)
qed

lemma flush_output_conn:
  assumes c: "conn p a fd s w q st" and h: "nt_hand st a = Some h" and call: "sends_ok call"
  shows "\<exists>ok st' k. flush_output call p h st = Some (ok, st') \<and> conn p a fd s (w @ take k q) (drop k q) st' \<and>
     nt_hand st' = nt_hand st"
proof -
  obtain b where *: "nt_proc st p = Some b" "ih_fd h = fd" "stream_type (ih_type h)"
    using c h by (auto simp: conn_def stream_type_def)
  let ?r = "call (take 8388608 q)"
  obtain out where out: "ib_WriteToTCPFd call (bp_out b) 8388608 =
       Some (\<not> (sw_sent ?r < 0 \<and> sw_errno ?r \<noteq> EAGAIN), sw_sent ?r, take 8388608 q, out)"
     "conn p a fd s (w @ take (nat (sw_sent ?r)) q) (drop (nat (sw_sent ?r)) q)
       (sent_on fd (sw_sent ?r) (sw_errno ?r) (take 8388608 q)
       (st\<lparr>nt_proc := heap_mod p (\<lambda>b. b\<lparr>bp_out := out\<rparr>) (nt_proc st)\<rparr>))"
    using write_conn [OF c *(1) call] by blast
  moreover have "nt_hand (sent_on fd x e bs st') = nt_hand st'" for x e bs st'
    by (simp add: sent_on_def)
  ultimately show ?thesis
    using * by (auto simp: flush_output_def net_simps intro!: exI [of _ "nat (sw_sent ?r)"])
qed

lemma send_direct_conn:
  assumes c: "conn p a fd s w [] st" and h: "nt_hand st a = Some h" and call: "sends_ok call"
    and s: "s \<le> 2 ^ 28" and d: "length data < 2 ^ 31"
  shows "\<exists>ok st' w' q' k. send_direct call p a h data 0 st = Some (ok, st') \<and> conn p a fd s w' q' st' \<and>
     w' @ q' = w @ take k data \<and> (ok \<longrightarrow> length data \<le> k)"
proof -
  obtain b where *: "nt_proc st p = Some b" "ih_fd h = fd" "stream_type (ih_type h)"
    using c h by (auto simp: conn_def stream_type_def)
  define r where r: "r = call data"
  let ?r = r
  have k: "-1 \<le> sw_sent ?r" "sw_sent ?r \<le> int (length data)"
    using call by (simp_all add: sends_ok_def r)
  have i: "i32 (sw_sent ?r) = sw_sent ?r"
    using k d by (intro i32_small) auto
  let ?n = "nat (sw_sent ?r)"
  let ?st = "sent_on fd (sw_sent ?r) (sw_errno ?r) data st"
  have len: "sub32 (length data) ?n = length data - ?n"
    using k d by (intro sub32_le) auto
  have c1: "conn p a fd s (w @ take ?n data) [] ?st"
    using c by (auto simp: sent_on_def conn_def)
  have sd: "send_direct call p a h data 0 st =
      (if sw_sent ?r < 0 \<and> sw_errno ?r \<noteq> EAGAIN then Some (False, ?st)
       else if 0 < length data - ?n then save_output p a (drop ?n data) 0 ?st
       else if bp_write b then Option.bind (stop_writing p a ?st) (\<lambda>st. Some (True, st)) else Some (True, ?st))"
    using * i len unfolding send_direct_def r [symmetric] Let_def by (simp add: sent_on_def)
  show ?thesis
  proof (cases "sw_sent ?r < 0 \<and> sw_errno ?r \<noteq> EAGAIN")
    case True
    then show ?thesis
      using c1 sd by (intro exI [of _ False] exI [of _ ?st] exI [of _ "w @ take ?n data"] exI [of _ "[]"] exI [of _ ?n]) simp
  next
    case go: False
    show ?thesis
    proof (cases "0 < length data - ?n")
      case True
      have dn: "length (drop ?n data) < 2 ^ 31"
        using d by (auto intro: le_less_trans)
      obtain ok st' where st': "save_output p a (drop ?n data) 0 ?st = Some (ok, st')"
        "conn p a fd s (w @ take ?n data) (if ok then drop ?n data else []) st'"
        using save_output_conn [OF c1 s dn, unfolded append_Nil list.size] by blast
      then show ?thesis
        using sd go True
        by (intro exI [of _ ok] exI [of _ st'] exI [of _ "w @ take ?n data"]
            exI [of _ "if ok then drop ?n data else []"] exI [of _ "if ok then length data else ?n"]) auto
    next
      case False
      then have all: "take ?n data = data"
        by simp
      obtain st' where "stop_writing p a ?st = Some st'" "conn p a fd s (w @ take ?n data) [] st'"
        using stop_writing_conn [OF c1] by blast
      then show ?thesis
        using sd go False c1 all
        by (intro exI [of _ True] exI [of _ "if bp_write b then st' else ?st"] exI [of _ "w @ data"] exI [of _ "[]"]
            exI [of _ "length data"]) auto
    qed
  qed
qed

lemma SendMsg_conn:
  assumes c: "conn p a fd s w q st" and calls: "sends_ok flush" "sends_ok call"
    and s: "s \<le> 2 ^ 28" and d: "length data < 2 ^ 31"
  shows "\<exists>ok st' w' q' k. SendMsg flush call p data st = Some (ok, st') \<and> conn p a fd s w' q' st' \<and>
     w' @ q' = w @ q @ take k data \<and> (ok \<longrightarrow> length data \<le> k)"
proof -
  obtain b h where *: "nt_proc st p = Some b" "nt_hand st a = Some h" "bp_io b = Some a"
    "bp_status b = PROCESS_NET_STATUS_CONNECTED" "ib_fits s (bp_out b)" "ib_data (bp_out b) = q"
    using c by (auto simp: conn_def)
  have small: "u32 n = n" if "n \<le> s" for n
    using that s by (simp add: u32_small)
  have cache: "u32 (ib_avail (bp_out b)) = length q"
    using * conn_bounds [OF c] by (simp add: ib_fits_avail small)
  show ?thesis
  proof (cases "q = []")
    case True
    then show ?thesis
      using send_direct_conn [OF _ *(2) calls(2) s d, of p fd w] c * cache by (simp add: SendMsg_def)
  next
    case False
    obtain ok st1 k where st1: "flush_output flush p h st = Some (ok, st1)" "conn p a fd s (w @ take k q) (drop k q) st1"
      "nt_hand st1 = nt_hand st"
      using flush_output_conn [OF c *(2) calls(1)] by blast
    obtain b1 where b1: "nt_proc st1 p = Some b1" "ib_fits s (bp_out b1)" "ib_data (bp_out b1) = drop k q"
      using st1(2) by (auto simp: conn_def)
    have rest: "u32 (ib_avail (bp_out b1)) = length (drop k q)"
      using b1 conn_bounds [OF st1(2)] by (simp add: ib_fits_avail small)
    have run: "SendMsg flush call p data st =
        (if \<not> ok then Some (False, st1)
         else if drop k q \<noteq> [] then save_output p a data (length (drop k q)) st1
         else send_direct call p a h data 0 st1)"
      using * st1(1) b1 cache rest False by (simp add: SendMsg_def)
    show ?thesis
    proof (cases "ok \<and> drop k q = []")
      case True
      then have all: "take k q = q"
        by simp
      show ?thesis
        using send_direct_conn [OF _ _ calls(2) s d, of p a fd "w @ q" st1 h] st1 * run True all by auto
    next
      case no: False
      show ?thesis
      proof (cases ok)
        case False
        then show ?thesis
          using st1 run
          by (intro exI [of _ False] exI [of _ st1] exI [of _ "w @ take k q"] exI [of _ "drop k q"] exI [of _ 0]) simp
      next
        case True
        obtain ok' st' where st': "save_output p a data (length (drop k q)) st1 = Some (ok', st')"
          "conn p a fd s (w @ take k q) (if ok' then drop k q @ data else drop k q) st'"
          using save_output_conn [OF st1(2) s d] by blast
        then show ?thesis
          using run True no
          by (intro exI [of _ ok'] exI [of _ st'] exI [of _ "w @ take k q"]
              exI [of _ "if ok' then drop k q @ data else drop k q"] exI [of _ "if ok' then length data else 0"]) auto
      qed
    qed
  qed
qed

lemma give_up_conn:
  assumes "conn p a fd s w q st"
  shows "\<exists>st'. give_up a e st = Some (False, st') \<and> nt_wire st' fd = w"
proof -
  obtain b h where "nt_proc st p = Some b" "nt_hand st a = Some h" "ih_process h = Some p" "nt_wire st fd = w"
    using assms by (auto simp: conn_def)
  then show ?thesis
    by (simp add: give_up_def process_of_def SetNetStatus_def net_simps)
qed

lemma stream_write_conn:
  assumes c: "conn p a fd s w q st" and call: "sends_ok call"
  shows "\<exists>ok st'. stream_write call a st = Some (ok, st') \<and>
     (ok \<longrightarrow> (\<exists>k. conn p a fd s (w @ take k q) (drop k q) st' \<and>
        (drop k q = [] \<longrightarrow> nt_epoll st' fd = Some (a, False)) \<and>
        (q \<noteq> [] \<longrightarrow> k = nat (sw_sent (call (take 8388608 q)))))) \<and>
     (\<not> ok \<longrightarrow> nt_wire st' fd = w \<and> q \<noteq> [] \<and> sw_sent (call (take 8388608 q)) < 0)"
proof -
  obtain b h where *: "nt_proc st p = Some b" "nt_hand st a = Some h" "bp_io b = Some a" "ih_process h = Some p"
    "ib_fits s (bp_out b)" "ib_data (bp_out b) = q" "ih_fd h = fd"
    using c by (auto simp: conn_def)
  have avail: "ib_avail (bp_out b) = length q"
    using * by (simp add: ib_fits_avail)
  show ?thesis
  proof (cases "q = []")
    case True
    obtain st' where "stop_writing p a st = Some st'" "conn p a fd s w [] st'" "nt_epoll st' fd = Some (a, False)"
      using stop_writing_conn [of p a fd s w st] c True by auto
    then show ?thesis
      using * avail True by (intro exI [of _ True] exI [of _ st']) (simp add: stream_write_def GetOutputBuffer_def)
  next
    case False
    let ?r = "call (take 8388608 q)"
    let ?st1 = "\<lambda>out. sent_on fd (sw_sent ?r) (sw_errno ?r) (take 8388608 q)
        (st\<lparr>nt_proc := heap_mod p (\<lambda>b. b\<lparr>bp_out := out\<rparr>) (nt_proc st)\<rparr>)"
    obtain out where out: "ib_WriteToTCPFd call (bp_out b) 8388608 =
         Some (\<not> (sw_sent ?r < 0 \<and> sw_errno ?r \<noteq> EAGAIN), sw_sent ?r, take 8388608 q, out)"
       "ib_avail out = length (drop (nat (sw_sent ?r)) q)"
       "conn p a fd s (w @ take (nat (sw_sent ?r)) q) (drop (nat (sw_sent ?r)) q) (?st1 out)"
      using write_conn [OF c *(1) call] by blast
    define st1 where "st1 = ?st1 out"
    note c1 = out(3) [folded st1_def]
    have run: "stream_write call a st =
        (if sw_sent ?r < 0 \<and> sw_errno ?r \<noteq> EAGAIN then give_up a PROCESS_NET_STATUS_SYS_ERROR st1
         else if drop (nat (sw_sent ?r)) q = [] then Option.bind (stop_writing p a st1) (\<lambda>st. Some (True, st))
         else Some (True, st1))"
      using * avail False out(1,2)
      by (simp add: stream_write_def GetOutputBuffer_def net_simps st1_def Let_def)
    show ?thesis
    proof (cases "sw_sent ?r < 0 \<and> sw_errno ?r \<noteq> EAGAIN")
      case True
      obtain st' where "give_up a PROCESS_NET_STATUS_SYS_ERROR st1 = Some (False, st')" "nt_wire st' fd = w"
        using give_up_conn [OF c1] True by auto
      then show ?thesis
        using run True \<open>q \<noteq> []\<close> by (intro exI [of _ False] exI [of _ st']) simp
    next
      case go: False
      show ?thesis
      proof (cases "drop (nat (sw_sent ?r)) q = []")
        case True
        obtain st' where "stop_writing p a st1 = Some st'"
          "conn p a fd s (w @ take (nat (sw_sent ?r)) q) [] st'" "nt_epoll st' fd = Some (a, False)"
          using stop_writing_conn [of p a fd s _ st1] c1 True by metis
        then show ?thesis
          using run go True
          by (intro exI [of _ True] exI [of _ st']) (auto intro!: exI [of _ "nat (sw_sent ?r)"])
      next
        case False
        then show ?thesis
          using run go c1 by (intro exI [of _ True] exI [of _ st1]) auto
      qed
    qed
  qed
qed

section \<open>Histories of a connection\<close>

text \<open>
  What happens to a TCP connection from the side of its output: the application sends, and the descriptor
  becomes writable.
\<close>

datatype conn_op =
    Send "byte list" "byte list \<Rightarrow> syswrite" "byte list \<Rightarrow> syswrite"
  | Writable stream_calls

definition writable :: epoll_event where
  "writable = \<lparr>ev_in = False, ev_out = True, ev_err = False, ev_hup = False\<rparr>"

fun conn_step :: "nat \<Rightarrow> nat \<Rightarrow> conn_op \<Rightarrow> net \<Rightarrow> (bool \<times> net) option" where
  "conn_step p a (Send data flush call) st = SendMsg flush call p data st"
| "conn_step p a (Writable c) st = TCPCarrier_OnEvent c a writable st"

fun op_data :: "conn_op \<Rightarrow> byte list" where
  "op_data (Send data flush call) = data"
| "op_data (Writable c) = []"

definition calls_ok :: "stream_calls \<Rightarrow> bool" where
  "calls_ok c \<longleftrightarrow> sends_ok (sc_write c) \<and> (\<forall>p st. \<not> sc_close c p st)"

fun conn_op_ok :: "conn_op \<Rightarrow> bool" where
  "conn_op_ok (Send data flush call) \<longleftrightarrow> sends_ok flush \<and> sends_ok call \<and> length data < 2 ^ 31"
| "conn_op_ok (Writable c) \<longleftrightarrow> calls_ok c"

lemma close_check_conn:
  assumes "conn p a fd s w q st" and "\<not> close p st"
  shows "close_check close a st = Some (True, st)"
  using assms by (auto simp: conn_def close_check_def process_of_def)

lemma writable_event:
  assumes c: "conn p a fd s w q st" and ok: "calls_ok c"
  shows "\<exists>ok st'. TCPCarrier_OnEvent c a writable st = Some (ok, st') \<and> stream_write (sc_write c) a st = Some (ok, st')"
proof -
  obtain good st' where st': "stream_write (sc_write c) a st = Some (good, st')"
    "good \<longrightarrow> (\<exists>k. conn p a fd s (w @ take k q) (drop k q) st')"
    using stream_write_conn [OF c, of "sc_write c"] ok unfolding calls_ok_def by blast
  have "carrier_ready a st = Some True"
    using c by (auto simp: conn_def carrier_ready_def)
  moreover have "close_check (sc_close c) a st' = Some (True, st')" if good
    using st'(2) that ok by (auto simp: calls_ok_def intro: close_check_conn)
  ultimately show ?thesis
    using st'(1) by (auto simp: TCPCarrier_OnEvent_def writable_def stream_errors_def)
qed

text \<open>A \<open>SendMsg\<close> that fails leaves the connection as it is; a write event that fails makes the event loop delete the handler.\<close>

fun conn_lives :: "conn_op \<Rightarrow> bool" where
  "conn_lives (Send data flush call) = True"
| "conn_lives (Writable c) = False"

lemma conn_step_law:
  assumes c: "conn p a fd s w q st" and s: "s \<le> 2 ^ 28" and allowed: "conn_op_ok op"
  shows "\<exists>ok st' part. conn_step p a op st = Some (ok, st') \<and> handed (op_data op) ok part \<and> prefix (nt_wire st' fd) (w @ q @ part) \<and>
     (ok \<or> conn_lives op \<longrightarrow> (\<exists>w' q'. conn p a fd s w' q' st' \<and> w' @ q' = w @ q @ part))"
proof (cases op)
  case (Send data flush call)
  then have ok: "sends_ok flush" "sends_ok call" "length data < 2 ^ 31"
    using allowed by auto
  from SendMsg_conn [OF c ok(1,2) s ok(3)]
  obtain ok st' w' q' k where st': "SendMsg flush call p data st = Some (ok, st')" "conn p a fd s w' q' st'"
    "w' @ q' = w @ q @ take k data" "ok \<longrightarrow> length data \<le> k"
    by blast
  moreover from this have "prefix (nt_wire st' fd) (w @ q @ take k data)"
    using conn_wire by (intro prefixI [of _ _ q']) simp
  ultimately show ?thesis
    using Send by (intro exI [of _ ok] exI [of _ st'] exI [of _ "take k data"]) (auto simp: handed_def take_is_prefix)
next
  case (Writable c)
  then have ok: "calls_ok c"
    using allowed by simp
  obtain good st' where st': "stream_write (sc_write c) a st = Some (good, st')"
    "good \<longrightarrow> (\<exists>k. conn p a fd s (w @ take k q) (drop k q) st')" "\<not> good \<longrightarrow> nt_wire st' fd = w"
    using stream_write_conn [OF c, of "sc_write c"] ok unfolding calls_ok_def by blast
  moreover have "TCPCarrier_OnEvent c a writable st = Some (good, st')"
    using writable_event [OF c ok] st'(1) by auto
  moreover have "prefix (nt_wire st' fd) (w @ q)"
  proof (cases good)
    case True
    then obtain k where "conn p a fd s (w @ take k q) (drop k q) st'"
      using st'(2) by blast
    then show ?thesis
      using conn_wire take_is_prefix [of k q] by auto
  qed (use st'(3) in simp)
  moreover have "\<exists>w' q'. conn p a fd s w' q' st' \<and> w' @ q' = w @ q" if good
    using st'(2) that by (metis append.assoc append_take_drop_id)
  ultimately show ?thesis
    using Writable by (intro exI [of _ good] exI [of _ st'] exI [of _ "[]"]) (simp add: handed_def)
qed

interpretation tcp: channel "\<lambda>w q st. conn p a fd s w q st \<and> s \<le> 2 ^ 28" "\<lambda>st. nt_wire st fd" "conn_step p a" conn_op_ok op_data conn_lives
    "\<lambda>op. handed (op_data op)"
  for p a fd s
proof
  fix w q st op
  assume "conn p a fd s w q st \<and> s \<le> 2 ^ 28" "conn_op_ok op"
  then show "\<exists>ok st' part. conn_step p a op st = Some (ok, st') \<and> handed (op_data op) ok part \<and> prefix (nt_wire st' fd) (w @ q @ part) \<and>
      (ok \<or> conn_lives op \<longrightarrow> (\<exists>w' q'. (conn p a fd s w' q' st' \<and> s \<le> 2 ^ 28) \<and> w' @ q' = w @ q @ part))"
    using conn_step_law [of p a fd s w q st op] by simp
qed (use conn_wire in blast)

lemma drain_step:
  assumes "conn p a fd s w q st" and ok: "calls_ok c" and acc: "\<forall>bs. bs \<noteq> [] \<longrightarrow> 0 < sw_sent (sc_write c bs)"
  shows "\<exists>st' k. TCPCarrier_OnEvent c a writable st = Some (True, st') \<and> conn p a fd s (w @ take k q) (drop k q) st' \<and>
     (drop k q = [] \<longrightarrow> nt_epoll st' fd = Some (a, False)) \<and> (q \<noteq> [] \<longrightarrow> 0 < k)"
proof -
  have pos: "0 < sw_sent (sc_write c (take 8388608 q))" if "q \<noteq> []"
  proof -
    have "take 8388608 q \<noteq> []"
      using that by simp
    then show ?thesis
      using acc by blast
  qed
  obtain good st' where st': "stream_write (sc_write c) a st = Some (good, st')"
    "good \<longrightarrow> (\<exists>k. conn p a fd s (w @ take k q) (drop k q) st' \<and> (drop k q = [] \<longrightarrow> nt_epoll st' fd = Some (a, False)) \<and>
       (q \<noteq> [] \<longrightarrow> k = nat (sw_sent (sc_write c (take 8388608 q)))))"
    "\<not> good \<longrightarrow> q \<noteq> [] \<and> sw_sent (sc_write c (take 8388608 q)) < 0"
    using stream_write_conn [OF assms(1), of "sc_write c"] ok unfolding calls_ok_def by blast
  have good
    using st'(3) pos by force
  then obtain k where k: "conn p a fd s (w @ take k q) (drop k q) st'"
    "drop k q = [] \<longrightarrow> nt_epoll st' fd = Some (a, False)" "q \<noteq> [] \<longrightarrow> 0 < k"
    using st'(2) pos by (metis zero_less_nat_eq)
  moreover have "TCPCarrier_OnEvent c a writable st = Some (True, st')"
    using writable_event [OF assms(1) ok] st'(1) \<open>good\<close> by auto
  ultimately show ?thesis
    by blast
qed

lemma drain:
  assumes "conn p a fd s w q st" and "length q \<le> length cs" and "cs \<noteq> []"
    and "\<forall>c\<in>set cs. calls_ok c \<and> (\<forall>bs. bs \<noteq> [] \<longrightarrow> 0 < sw_sent (sc_write c bs))"
  shows "\<exists>st'. phases (map (\<lambda>c. TCPCarrier_OnEvent c a writable) cs) st = Some (True, st') \<and>
     conn p a fd s (w @ q) [] st' \<and> nt_epoll st' fd = Some (a, False)"
  using assms
proof (induction cs arbitrary: w q st)
  case (Cons c cs)
  obtain st1 k where st1: "TCPCarrier_OnEvent c a writable st = Some (True, st1)"
    "conn p a fd s (w @ take k q) (drop k q) st1"
    "drop k q = [] \<longrightarrow> nt_epoll st1 fd = Some (a, False)" "q \<noteq> [] \<longrightarrow> 0 < k"
    using drain_step [OF Cons.prems(1), of c] Cons.prems(4) by auto
  show ?case
  proof (cases "cs = []")
    case True
    then have "drop k q = []"
      using Cons.prems(2) st1(4) by (cases q) auto
    then show ?thesis
      using st1 True by (auto dest: drop_eq_Nil [THEN iffD1] simp del: drop_eq_Nil)
  next
    case False
    have "length (drop k q) \<le> length cs"
      using Cons.prems(2) st1(4) by (cases q) auto
    from Cons.IH [OF st1(2) this False] show ?thesis
      using Cons.prems(4) st1(1) by auto
  qed
qed simp

section \<open>Properties\<close>

text \<open>
  C2: What reaches the kernel on a TCP connection. In any history of \<open>SendMsg\<close> calls and write events, calls after failed ones
  included, whatever the kernel accepts or refuses, no step is undefined, and the kernel has got, in order and without
  repetition, a prefix of what the calls have handed over: the whole message where a call succeeds, a first part of
  it where a call fails (the rest of a message sent in part is dropped when it does not fit into the buffer). Until a write event fails
  and ends the connection, only what waits in the output buffer is missing, \<open>EPOLLOUT\<close> is asked
  for exactly when \<open>is_write_\<close> is set, and it is set while bytes wait; the buffer stays within
  three times \<open>send_buffer_size_\<close> and a chunk (\<^term>\<open>conn\<close>). Messages are shorter than 2 GiB and \<open>send_buffer_size_\<close> is at most 256 MiB.
\<close>
theorem stream_in_order:
  assumes "conn p a fd s [] [] st" and "s \<le> 2 ^ 28" and "\<forall>op\<in>set ops. conn_op_ok op"
  shows "\<exists>oks st' parts. history_run conn_lives (conn_step p a) ops st = Some (oks, st') \<and>
     list_all2 (\<lambda>(op, ok) part. handed (op_data op) ok part) (zip ops oks) parts \<and> prefix (nt_wire st' fd) (concat parts) \<and>
     (goes_on conn_lives ops oks \<longrightarrow> (\<exists>q. nt_wire st' fd @ q = concat parts \<and> conn p a fd s (nt_wire st' fd) q st'))"
  using tcp.whole_history [of p a fd s "[]" "[]" st ops] assms by auto

definition demo_out :: "byte list \<Rightarrow> iobuf" where
  "demo_out q = ib_new\<lparr>ib_buffer := Some (map Some q), ib_size := length q, ib_published := length q\<rparr>"

definition demo_net :: "byte list \<Rightarrow> net" where
  "demo_net q = \<lparr>nt_open = {5}, nt_epoll = [5 \<mapsto> (11, True)],
     nt_hand = [11 \<mapsto> \<lparr>ih_fd = 5, ih_managed = True, ih_flag = IOHT_FLAG_CLOSE_ALL, ih_process = Some 21,
       ih_type = IOHT_TCP_CARRIER, ih_peer = [], ih_name = []\<rparr>],
     nt_proc = [21 \<mapsto> \<lparr>bp_ex = True, bp_io = Some 11, bp_recv = 4096, bp_send = 65536, bp_errno = 0,
       bp_status = PROCESS_NET_STATUS_CONNECTED, bp_write = True, bp_with_me = True, bp_out = demo_out q, bp_in = ib_new\<rparr>],
     nt_timeouts = {21}, nt_manager = True, nt_udp = {}, nt_errno = 0, nt_wire = (\<lambda>_. []), nt_dgrams = (\<lambda>_. [])\<rparr>"

definition demo_send :: "byte list \<Rightarrow> syswrite" where
  "demo_send bs = \<lparr>sw_sent = (if bs = [] then 0 else 1), sw_errno = 0\<rparr>"

definition demo_calls :: stream_calls where
  "demo_calls = \<lparr>sc_read = (\<lambda>_. \<lparr>sr_data = None, sr_errno = EAGAIN\<rparr>), sc_write = demo_send,
     sc_process = (\<lambda>_ _ st. Some (True, st)), sc_close = (\<lambda>_ _. False)\<rparr>"

lemma demo_conn:
  assumes "length q \<le> 65536"
  shows "conn 21 11 5 65536 [] q (demo_net q)"
proof -
  have "ib_data (demo_out q) = q" "ib_fits 65536 (demo_out q)"
    using assms by (simp_all add: ib_fits_def ib_wf_def demo_out_def ib_data_def ib_cells_def ib_new_def ib_block_def list_all_iff comp_def)
  then show ?thesis
    by (simp add: conn_def demo_net_def)
qed

lemma demo_calls_ok: "sends_ok demo_send" "calls_ok demo_calls" "bs \<noteq> [] \<Longrightarrow> 0 < sw_sent (sc_write demo_calls bs)"
proof -
  show "sends_ok demo_send"
    by (auto simp: sends_ok_def demo_send_def Suc_le_eq intro: ccontr)
  then show "calls_ok demo_calls"
    by (simp add: calls_ok_def demo_calls_def)
qed (simp add: demo_calls_def demo_send_def)

definition demo_refuse :: "byte list \<Rightarrow> syswrite" where
  "demo_refuse bs = \<lparr>sw_sent = -1, sw_errno = 104\<rparr>"

lemma stream_in_order_witness:
  "\<exists>oks st' parts. history_run conn_lives (conn_step 21 11) [Send [1, 2, 3] demo_send demo_send, Writable demo_calls,
       Send [4] demo_refuse demo_refuse, Send [5] demo_send demo_send] (demo_net []) = Some (oks, st') \<and> prefix (nt_wire st' 5) (concat parts)"
proof -
  have "\<forall>op\<in>set [Send [1, 2, 3] demo_send demo_send, Writable demo_calls, Send [4] demo_refuse demo_refuse, Send [5] demo_send demo_send].
      conn_op_ok op"
    using demo_calls_ok by (simp add: sends_ok_def demo_refuse_def)
  from stream_in_order [OF demo_conn [of "[]"] _ this] show ?thesis
    by (simp del: history_run.simps) blast
qed

text \<open>
  C19: Waiting bytes leave. From any such state with \<open>n\<close> bytes waiting, \<open>n\<close> write events (at least one) in which the kernel
  accepts at least a byte each hand over everything, in order, and the last one switches \<open>EPOLLOUT\<close> off again, so
  that the event loop does not spin.
\<close>
theorem stream_drains:
  assumes "conn p a fd s w q st" and "length q \<le> length cs" and "cs \<noteq> []"
    and "\<forall>c\<in>set cs. calls_ok c \<and> (\<forall>bs. bs \<noteq> [] \<longrightarrow> 0 < sw_sent (sc_write c bs))"
  shows "\<exists>st'. phases (map (\<lambda>c. TCPCarrier_OnEvent c a writable) cs) st = Some (True, st') \<and>
     nt_wire st' fd = w @ q \<and> conn p a fd s (w @ q) [] st' \<and> nt_epoll st' fd = Some (a, False)"
  using drain [OF assms] conn_wire by blast

lemma stream_drains_witness:
  "\<exists>st'. phases (map (\<lambda>c. TCPCarrier_OnEvent c 11 writable) [demo_calls, demo_calls]) (demo_net [1, 2]) = Some (True, st') \<and>
     nt_wire st' 5 = [1, 2] \<and> nt_epoll st' 5 = Some (11, False)"
  using stream_drains [OF demo_conn [of "[1, 2]"], of "[demo_calls, demo_calls]"] demo_calls_ok
  by (auto simp del: phases.simps)

end
