(* ===== verification/Udp.thy ===== *)
theory Udp
  imports Streams
begin

text \<open>
  Datagrams: \<open>BaseProcess::SendToMsg\<close> and \<open>UDPCarrier\<close>. Datagrams that cannot be sent at once wait in the output
  buffer, each behind a \<open>UDPDataCache\<close> of 20 bytes: a 16-bit length that counts the header, two bytes of padding,
  whose contents are an argument, and the 16 bytes of the address. \<open>sendto\<close> answers its \<open>i\<close>-th call within one
  operation; it takes a datagram whole or not at all.
\<close>

section \<open>The cache record\<close>

definition UDP_CACHE :: nat where "UDP_CACHE = 20"
definition EMSGSIZE :: nat where "EMSGSIZE = 90"

definition udp_cache_len :: "nat \<Rightarrow> nat" where
  "udp_cache_len len = u16 (len + UDP_CACHE)"

definition udp_header :: "nat \<Rightarrow> byte list \<Rightarrow> byte list \<Rightarrow> byte list" where
  "udp_header len pad addr =
     [word_of_nat (udp_cache_len len mod 256), word_of_nat (udp_cache_len len div 256)] @ pad @ addr"

text \<open>The record at a pointer: its length field and its address.\<close>

definition udp_record :: "cell list \<Rightarrow> (nat \<times> byte list) option" where
  "udp_record cells =
     do { hd \<leftarrow> mem_read cells 0 2;
          len \<leftarrow> cells_bytes hd;
          a \<leftarrow> mem_read cells 4 16;
          addr \<leftarrow> cells_bytes a;
          Some (unat (len ! 0) + 256 * unat (len ! 1), addr) }"

datatype udp_outcome = UdpSent | UdpAgain | UdpFailed nat

type_synonym sendto = "nat \<Rightarrow> byte list \<Rightarrow> byte list \<Rightarrow> syswrite"

definition udp_outcome_of :: "syswrite \<Rightarrow> udp_outcome" where
  "udp_outcome_of r =
     (if sw_sent r < 0 then (if sw_errno r = EAGAIN then UdpAgain else UdpFailed (sw_errno r)) else UdpSent)"

text \<open>
  \<open>SendTo\<close>: more than 65507 bytes are \<open>EMSGSIZE\<close>, before the kernel looks at them; the length is the 32-bit
  difference of the length field and the size of the header.
\<close>

definition udp_data_len :: "nat \<Rightarrow> nat" where
  "udp_data_len len = u32 (sub64 len UDP_CACHE)"

function udp_flush ::
    "sendto \<Rightarrow> nat \<Rightarrow> cell list \<Rightarrow> nat \<Rightarrow> iobuf \<Rightarrow> (udp_outcome \<times> nat \<times> nat \<times> iobuf \<times> (byte list \<times> byte list) list) option"
where
  "udp_flush call i cells rest out =
     (if rest = 0 then Some (UdpSent, i, rest, out, [])
      else case udp_record cells of
          None \<Rightarrow> None
        | Some (len, addr) \<Rightarrow>
            if 65507 < udp_data_len len then Some (UdpFailed EMSGSIZE, i, rest, out, [])
            else case Option.bind (mem_read cells UDP_CACHE (udp_data_len len)) cells_bytes of
                None \<Rightarrow> None
              | Some data \<Rightarrow>
                  (case udp_outcome_of (call i addr data) of
                     UdpSent \<Rightarrow>
                       (case udp_flush call (Suc i) (drop len cells) (sub32 rest len) (snd (ib_Ignore out len)) of
                          None \<Rightarrow> None
                        | Some (o', i', rest', out', sent) \<Rightarrow> Some (o', i', rest', out', (addr, data) # sent))
                   | outcome \<Rightarrow> Some (outcome, Suc i, rest, out, [])))"
  by pat_completeness auto

lemma udp_flush_progress:
  assumes "udp_record cells = Some (len, addr)" and "\<not> 65507 < udp_data_len len"
  shows "length (drop len cells) < length cells"
proof -
  have "20 \<le> length cells"
    using assms(1) by (auto simp: udp_record_def mem_read_def elim!: bind_SomeE split: if_splits)
  moreover have "0 < len"
  proof (rule ccontr)
    assume "\<not> 0 < len"
    then have "udp_data_len len = 4294967276"
      by (simp add: udp_data_len_def UDP_CACHE_def sub64_def u32_def u64_def)
    then show False
      using assms(2) by simp
  qed
  ultimately show ?thesis
    by (cases cells) auto
qed

termination udp_flush
  by (relation "measure (\<lambda>(call, i, cells, rest, out). length cells)") (auto dest: udp_flush_progress)

declare udp_flush.simps [simp del]

section \<open>SendToMsg\<close>

definition log_sent :: "int \<Rightarrow> (byte list \<times> byte list) list \<Rightarrow> net \<Rightarrow> net" where
  "log_sent fd sent st = st\<lparr>nt_dgrams := (nt_dgrams st)(fd := nt_dgrams st fd @ sent)\<rparr>"

definition save_datagram ::
    "nat \<Rightarrow> nat \<Rightarrow> byte list \<Rightarrow> byte list \<Rightarrow> byte list \<Rightarrow> nat \<Rightarrow> net \<Rightarrow> (bool \<times> net) option" where
  "save_datagram p a data peer pad cache_send_len st =
     do { b \<leftarrow> nt_proc st p;
          if bp_send b < u32 (cache_send_len + length data) + UDP_CACHE then Some (False, st)
          else do {
            (ok, out) \<leftarrow> ib_ReadFromBuffer (bp_out b) (map Some (udp_header (length data) pad peer)) UDP_CACHE;
            st \<leftarrow> set_proc p (\<lambda>b. b\<lparr>bp_out := out\<rparr>) st;
            if \<not> ok then Some (False, st)
            else do {
              (ok, out) \<leftarrow> ib_ReadFromBuffer out (map Some data) (length data);
              st \<leftarrow> set_proc p (\<lambda>b. b\<lparr>bp_out := out\<rparr>) st;
              if \<not> ok then Some (False, st)
              else if bp_write b then Some (True, st)
              else do {
                (_, st) \<leftarrow> EnableWriteData a st;
                st \<leftarrow> set_proc p (\<lambda>b. b\<lparr>bp_write := True\<rparr>) st;
                Some (True, st) } } } }"

definition SendToMsg ::
    "sendto \<Rightarrow> nat \<Rightarrow> byte list \<Rightarrow> byte list \<Rightarrow> byte list \<Rightarrow> net \<Rightarrow> (bool \<times> net) option" where
  "SendToMsg call p data peer pad st =
     do { b \<leftarrow> nt_proc st p;
          a \<leftarrow> bp_io b;
          h \<leftarrow> nt_hand st a;
          if ih_type h \<noteq> IOHT_UDP_CARRIER then Some (False, st)
          else do {
            (outcome, i, rest, out, sent) \<leftarrow>
              udp_flush call 0 (ib_pointer (bp_out b)) (u32 (ib_avail (bp_out b))) (bp_out b);
            st \<leftarrow> set_proc p (\<lambda>b. b\<lparr>bp_out := out\<rparr>) st;
            let st = log_sent (ih_fd h) sent st;
            case outcome of
              UdpFailed e \<Rightarrow> Some (False, st\<lparr>nt_errno := e\<rparr>)
            | UdpAgain \<Rightarrow> save_datagram p a data peer pad rest (st\<lparr>nt_errno := EAGAIN\<rparr>)
            | UdpSent \<Rightarrow>
                (case (if 65507 < length data then UdpFailed EMSGSIZE else udp_outcome_of (call i peer data)) of
                   UdpFailed e \<Rightarrow> Some (False, st\<lparr>nt_errno := e\<rparr>)
                 | UdpAgain \<Rightarrow> save_datagram p a data peer pad rest (st\<lparr>nt_errno := EAGAIN\<rparr>)
                 | UdpSent \<Rightarrow>
                     let st = log_sent (ih_fd h) [(peer, data)] st in
                     if bp_write b then do { st \<leftarrow> stop_writing p a st; Some (True, st) } else Some (True, st)) } }"

definition SendToMsg_peer ::
    "sendto \<Rightarrow> nat \<Rightarrow> byte list \<Rightarrow> byte list \<Rightarrow> net \<Rightarrow> (bool \<times> net) option" where
  "SendToMsg_peer call p data pad st =
     do { b \<leftarrow> nt_proc st p;
          a \<leftarrow> bp_io b;
          h \<leftarrow> nt_hand st a;
          if ih_type h \<noteq> IOHT_UDP_CARRIER then Some (False, st) else SendToMsg call p data (ih_peer h) pad st }"

section \<open>Events\<close>

record udp_calls =
  uc_read :: "nat \<Rightarrow> nat \<Rightarrow> sysread \<times> byte list \<times> nat"
  uc_write :: sendto
  uc_process :: app
  uc_close :: "nat \<Rightarrow> net \<Rightarrow> bool"

definition UDP_errors :: "nat \<Rightarrow> epoll_event \<Rightarrow> net \<Rightarrow> (bool \<times> net) option" where
  "UDP_errors a ev st = (if ev_err ev then give_up a PROCESS_NET_STATUS_SYS_ERROR st else Some (True, st))"

text \<open>
  A read that fails leaves \<open>errno\<close>, one that returns no bytes does not touch it: an empty datagram
  counts as a failure with whatever \<open>errno\<close> says, so the test for zero bytes is never reached.
\<close>

definition UDP_read ::
    "(nat \<Rightarrow> nat \<Rightarrow> sysread \<times> byte list \<times> nat) \<Rightarrow> app \<Rightarrow> nat \<Rightarrow> net \<Rightarrow> (bool \<times> net) option" where
  "UDP_read rd app a st =
     do { p \<leftarrow> process_of a st;
          b \<leftarrow> nt_proc st p;
          (ok, amount, peer, inb) \<leftarrow> ib_ReadFromUDPFd rd (bp_in b);
          st \<leftarrow> set_proc p (\<lambda>b. b\<lparr>bp_in := inb\<rparr>) st;
          st \<leftarrow> (case peer of None \<Rightarrow> Some st | Some addr \<Rightarrow> set_hand a (\<lambda>h. h\<lparr>ih_peer := addr\<rparr>) st);
          let st = read_errno (fst (rd 65536 (ib_dummy (bp_in b)))) st;
          if \<not> ok then
            (if nt_errno st \<noteq> EAGAIN then give_up a PROCESS_NET_STATUS_SYS_ERROR st else Some (True, st))
          else if amount = 0 then give_up a PROCESS_NET_STATUS_PEER_RESET st
          else call_process app a amount st }"

definition UDP_write :: "sendto \<Rightarrow> nat \<Rightarrow> net \<Rightarrow> (bool \<times> net) option" where
  "UDP_write call a st =
     do { h \<leftarrow> nt_hand st a;
          p \<leftarrow> ih_process h;
          b \<leftarrow> nt_proc st p;
          case GetOutputBuffer b of
            None \<Rightarrow> Some (True, st)
          | Some out \<Rightarrow> do {
              (outcome, i, rest, out, sent) \<leftarrow> udp_flush call 0 (ib_pointer out) (u32 (ib_avail out)) out;
              st \<leftarrow> set_proc p (\<lambda>b. b\<lparr>bp_out := out\<rparr>) st;
              let st = log_sent (ih_fd h) sent st;
              case outcome of
                UdpFailed e \<Rightarrow> give_up a PROCESS_NET_STATUS_SYS_ERROR (st\<lparr>nt_errno := e\<rparr>)
              | UdpAgain \<Rightarrow> Some (True, st\<lparr>nt_errno := EAGAIN\<rparr>)
              | UdpSent \<Rightarrow> do { st \<leftarrow> stop_writing p a st; Some (True, st) } } }"

definition UDPCarrier_OnEvent :: "udp_calls \<Rightarrow> nat \<Rightarrow> epoll_event \<Rightarrow> net \<Rightarrow> (bool \<times> net) option" where
  "UDPCarrier_OnEvent c a ev st =
     do { ready \<leftarrow> carrier_ready a st;
          if \<not> ready then Some (False, st)
          else phases
            [UDP_errors a ev,
             (\<lambda>st. if ev_in ev then UDP_read (uc_read c) (uc_process c) a st else Some (True, st)),
             (\<lambda>st. if ev_out ev then UDP_write (uc_write c) a st else Some (True, st)),
             close_check (uc_close c) a] st }"

section \<open>Creation\<close>

text \<open>
  \<open>s_addr\<close> and the order of its bytes: \<open>ip\<close> is the address in host order, \<^term>\<open>None\<close> when \<open>inet_addr\<close> cannot read it;
  the empty text binds nothing. \<open>ttl\<close> and \<open>tos\<close> above 255 and buffer sizes that are not positive set nothing.
\<close>

definition INADDR_NONE :: nat where "INADDR_NONE = 0xffffffff"

definition is_multicast :: "nat \<Rightarrow> bool" where
  "is_multicast ip \<longleftrightarrow> 0xe0000000 < ip \<and> ip < 0xefffffff"

record udp_socket_calls =
  us_socket :: "int option"
  us_options :: kernel
  us_bind :: bool
  us_membership :: bool

definition udp_setup :: "udp_socket_calls \<Rightarrow> nat option option \<Rightarrow> nat \<Rightarrow> nat \<Rightarrow> int \<Rightarrow> int \<Rightarrow> bool" where
  "udp_setup c bind_ip ttl tos rcv_buf snd_buf =
     (let k = us_options c;
          (ok, tr) = setFdOptions k False [];
          (ok, tr) = (if \<not> ok then (False, tr) else if tos \<le> 255 then setFdTOS k tos tr else (True, tr));
          (ok, tr) = (if \<not> ok then (False, tr) else if 0 < rcv_buf then setFdRcvBuf k rcv_buf tr else (True, tr));
          (ok, tr) = (if \<not> ok then (False, tr) else if 0 < snd_buf then setFdSndBuf k snd_buf tr else (True, tr))
      in ok \<and>
         (case bind_ip of
            None \<Rightarrow> True
          | Some None \<Rightarrow> False
          | Some (Some ip) \<Rightarrow>
              ip \<noteq> INADDR_NONE \<and>
              (255 < ttl \<or> fst (if is_multicast ip then setFdMulticastTTL k ttl tr else setFdTTL k ttl tr)) \<and>
              us_bind c \<and> (is_multicast ip \<longrightarrow> us_membership c)))"

definition UDPCarrier_Create ::
    "udp_socket_calls \<Rightarrow> nat option option \<Rightarrow> nat \<Rightarrow> nat \<Rightarrow> int \<Rightarrow> int \<Rightarrow> nat \<Rightarrow> nat option \<Rightarrow> net \<Rightarrow> (nat option \<times> net) option"
where
  "UDPCarrier_Create c bind_ip ttl tos rcv_buf snd_buf a process st =
     (case process of
        None \<Rightarrow> Some (None, st)
      | Some p \<Rightarrow>
          (case us_socket c of
             None \<Rightarrow> Some (None, st)
           | Some fd \<Rightarrow>
               let st = open_fd fd st in
               if \<not> udp_setup c bind_ip ttl tos rcv_buf snd_buf then Some (None, CloseFd fd st)
               else do { st \<leftarrow> new_UDPCarrier a fd (Some p) st; Some (Some a, st) }))"

text \<open>The copy works on a duplicate of the descriptor, which \<open>dup\<close> answers.\<close>

definition UDPCarrier_Copy :: "int \<Rightarrow> nat \<Rightarrow> nat \<Rightarrow> nat option \<Rightarrow> net \<Rightarrow> (nat option \<times> net) option" where
  "UDPCarrier_Copy dup copy_udp a process st =
     (case process of
        None \<Rightarrow> Some (None, st)
      | Some p \<Rightarrow> do {
          _ \<leftarrow> nt_hand st copy_udp;
          st \<leftarrow> new_UDPCarrier a dup (Some p) (if 0 \<le> dup then open_fd dup st else st);
          Some (Some a, st) })"

section \<open>Who is at the other end\<close>

text \<open>\<open>sockaddr_in\<close>: the port at bytes 2 and 3 in network order, the address at bytes 4 to 7.\<close>

definition sin_s_addr :: "byte list \<Rightarrow> nat" where
  "sin_s_addr addr = unat (addr ! 4) + 256 * unat (addr ! 5) + 65536 * unat (addr ! 6) + 16777216 * unat (addr ! 7)"

definition sin_port_host :: "byte list \<Rightarrow> nat" where
  "sin_port_host addr = 256 * unat (addr ! 2) + unat (addr ! 3)"

definition inet_ntop4 :: "nat \<Rightarrow> string" where
  "inet_ntop4 s =
     dec_digits (s mod 256) @ ''.'' @ dec_digits (s div 256 mod 256) @ ''.'' @
     dec_digits (s div 65536 mod 256) @ ''.'' @ dec_digits (s div 16777216 mod 256)"

definition getHostIPv4 :: "nat \<Rightarrow> string" where
  "getHostIPv4 addr = inet_ntop4 addr"

definition handler_of :: "nat \<Rightarrow> net \<Rightarrow> iohandler option" where
  "handler_of p st = do { b \<leftarrow> nt_proc st p; a \<leftarrow> bp_io b; nt_hand st a }"

definition GetAddressIn :: "nat \<Rightarrow> net \<Rightarrow> byte list option option" where
  "GetAddressIn p st =
     map_option (\<lambda>h. if ih_type h = IOHT_TCP_CARRIER \<or> ih_type h = IOHT_UDP_CARRIER then Some (ih_peer h) else None)
       (handler_of p st)"

definition GetIP :: "nat \<Rightarrow> net \<Rightarrow> nat option" where
  "GetIP p st =
     map_option (\<lambda>h. if ih_type h = IOHT_TCP_CARRIER \<or> ih_type h = IOHT_UDP_CARRIER
                     then sin_s_addr (ih_peer h) else INADDR_NONE) (handler_of p st)"

definition GetPort :: "nat \<Rightarrow> net \<Rightarrow> nat option" where
  "GetPort p st =
     map_option (\<lambda>h. if ih_type h = IOHT_TCP_CARRIER \<or> ih_type h = IOHT_UDP_CARRIER
                     then sin_port_host (ih_peer h) else 0) (handler_of p st)"

definition GetAddress :: "nat \<Rightarrow> net \<Rightarrow> string option" where
  "GetAddress p st =
     map_option (\<lambda>h. if ih_type h = IOHT_TCP_CARRIER \<or> ih_type h = IOHT_UDP_CARRIER
                     then getHostIPv4 (sin_s_addr (ih_peer h))
                     else if ih_type h = IOHT_PIPE_CARRIER then ih_name h else []) (handler_of p st)"

section \<open>The queue of datagrams\<close>

text \<open>A stored record of a datagram, given as its address and its data; the padding may be anything.\<close>

definition is_record :: "byte list \<Rightarrow> byte list \<times> byte list \<Rightarrow> bool" where
  "is_record r d \<longleftrightarrow> length (fst d) = 16 \<and> length (snd d) \<le> 65507 \<and>
     (\<exists>pad. length pad = 2 \<and> r = udp_header (length (snd d)) pad (fst d) @ snd d)"

lemma udp_cache_len_small: "n \<le> 65507 \<Longrightarrow> udp_cache_len n = n + 20"
  by (simp add: udp_cache_len_def UDP_CACHE_def u16_def)

lemma udp_header_length:
  assumes "length pad = 2" and "length addr = 16"
  shows "length (udp_header n pad addr) = 20"
  using assms by (simp add: udp_header_def)

lemma is_record_length: "is_record r d \<Longrightarrow> length r = length (snd d) + 20"
  by (auto simp: is_record_def udp_header_length)

lemma cells_bytes_Some [simp]: "cells_bytes (map Some bs) = Some bs"
  by (rule cells_bytes_map_Some)

lemma udp_record_read:
  assumes "is_record r d"
  shows "udp_record (map Some r @ tail) = Some (length r, fst d)"
    and "Option.bind (mem_read (map Some r @ tail) UDP_CACHE (udp_data_len (length r))) cells_bytes = Some (snd d)"
    and "\<not> 65507 < udp_data_len (length r)"
proof -
  obtain pad where r: "r = udp_header (length (snd d)) pad (fst d) @ snd d" and pad: "length pad = 2"
    and len: "length (fst d) = 16" "length (snd d) \<le> 65507"
    using assms by (auto simp: is_record_def)
  let ?n = "length (snd d) + 20"
  have lr: "length r = ?n"
    using assms by (rule is_record_length)
  have bytes: "unat (word_of_nat (?n mod 256) :: byte) + 256 * unat (word_of_nat (?n div 256) :: byte) = ?n"
  proof -
    have "?n div 256 < 256"
      using len(2) by simp
    then have "unat (word_of_nat (?n mod 256) :: byte) = ?n mod 256" "unat (word_of_nat (?n div 256) :: byte) = ?n div 256"
      by (simp_all add: unat_of_nat take_bit_eq_mod)
    then show ?thesis
      by simp
  qed
  show "udp_record (map Some r @ tail) = Some (length r, fst d)"
    using pad len bytes lr
    by (simp add: udp_record_def mem_read_def r udp_header_def udp_cache_len_small take_map drop_map flip: map_append)
  have dl: "udp_data_len (length r) = length (snd d)"
    using len lr by (simp add: udp_data_len_def UDP_CACHE_def sub64_le u32_small)
  then show "Option.bind (mem_read (map Some r @ tail) UDP_CACHE (udp_data_len (length r))) cells_bytes = Some (snd d)"
    using pad len by (simp add: mem_read_def r UDP_CACHE_def udp_header_length)
  show "\<not> 65507 < udp_data_len (length r)"
    using dl len by simp
qed

lemma ib_Ignore_fits:
  assumes "ib_fits s b" and "n \<le> length (ib_data b)"
  shows "ib_fits s (snd (ib_Ignore b n)) \<and> ib_data (snd (ib_Ignore b n)) = drop n (ib_data b)"
proof -
  have "ib_size (snd (ib_Ignore b n)) = ib_size b"
    by (simp add: ib_Ignore_def ib_Recycle_def)
  then show ?thesis
    using ib_Ignore_spec [of b n] assms by (auto simp: ib_fits_def ib_dropped_def)
qed

lemma udp_flush_spec:
  assumes "list_all2 is_record rs q" and "ib_fits s out" and "ib_data out = concat rs" and "length (concat rs) < 2 ^ 31"
  shows "\<exists>outcome i' out' k. udp_flush call i (map Some (concat rs) @ tail) (length (concat rs)) out =
       Some (outcome, i', length (concat (drop k rs)), out', take k q) \<and>
     ib_fits s out' \<and> ib_data out' = concat (drop k rs) \<and> (outcome = UdpSent \<longrightarrow> length q \<le> k)"
  using assms
proof (induction rs q arbitrary: i out rule: list_all2_induct)
  case Nil
  then show ?case
    by (simp add: udp_flush.simps)
next
  case (Cons r rs d q)
  note read = udp_record_read(1,2) [OF Cons.hyps(1), where tail = "map Some (concat rs) @ tail"]
    udp_record_read(3) [OF Cons.hyps(1)]
  have r0: "0 < length r"
    using is_record_length [OF Cons.hyps(1)] by simp
  have ign: "ib_fits s (snd (ib_Ignore out (length r)))" "ib_data (snd (ib_Ignore out (length r))) = concat rs"
    using ib_Ignore_fits [OF Cons.prems(1), of "length r"] Cons.prems(2) by simp_all
  have rest: "sub32 (length r + length (concat rs)) (length r) = length (concat rs)"
    using Cons.prems(3) by (simp add: sub32_le)
  show ?case
  proof (cases "udp_outcome_of (call i (fst d) (snd d)) = UdpSent")
    case True
    from Cons.IH [OF ign, of "Suc i"] Cons.prems(3)
    obtain outcome i' out' k where "udp_flush call (Suc i) (map Some (concat rs) @ tail) (length (concat rs))
          (snd (ib_Ignore out (length r))) = Some (outcome, i', length (concat (drop k rs)), out', take k q)"
        "ib_fits s out'" "ib_data out' = concat (drop k rs)" "outcome = UdpSent \<longrightarrow> length q \<le> k"
      by auto
    then show ?thesis
      using read r0 rest True
      by (subst udp_flush.simps) (auto intro!: exI [of _ "Suc k"])
  next
    case False
    then show ?thesis
      using read r0 Cons.prems
      by (subst udp_flush.simps) (auto intro!: exI [of _ 0] split: udp_outcome.splits)
  qed
qed

text \<open>
  The state around a UDP carrier: \<open>w\<close> are the datagrams the kernel has got, \<open>q\<close> those that wait.
\<close>

definition uconn ::
    "nat \<Rightarrow> nat \<Rightarrow> int \<Rightarrow> nat \<Rightarrow> (byte list \<times> byte list) list \<Rightarrow> (byte list \<times> byte list) list \<Rightarrow> net \<Rightarrow> bool" where
  "uconn p a fd s w q st \<longleftrightarrow> (\<exists>b h rs. nt_proc st p = Some b \<and> nt_hand st a = Some h \<and>
     bp_io b = Some a \<and> bp_status b = PROCESS_NET_STATUS_CONNECTED \<and> bp_send b = s \<and>
     ib_fits s (bp_out b) \<and> ib_data (bp_out b) = concat rs \<and> list_all2 is_record rs q \<and> (q \<noteq> [] \<longrightarrow> bp_write b) \<and>
     ih_process h = Some p \<and> ih_fd h = fd \<and> ih_type h = IOHT_UDP_CARRIER \<and>
     fd \<in> nt_open st \<and> nt_epoll st fd = Some (a, bp_write b) \<and> nt_dgrams st fd = w)"

lemma uconnI:
  assumes "nt_proc st p = Some b" and "nt_hand st a = Some h" and "bp_io b = Some a"
    and "bp_status b = PROCESS_NET_STATUS_CONNECTED" and "bp_send b = s" and "ib_fits s (bp_out b)"
    and "ib_data (bp_out b) = concat rs" and "list_all2 is_record rs q" and "q \<noteq> [] \<longrightarrow> bp_write b"
    and "ih_process h = Some p" and "ih_fd h = fd" and "ih_type h = IOHT_UDP_CARRIER"
    and "fd \<in> nt_open st" and "nt_epoll st fd = Some (a, bp_write b)" and "nt_dgrams st fd = w"
  shows "uconn p a fd s w q st"
  using assms unfolding uconn_def by blast

lemma uconn_sent: "uconn p a fd s w q st \<Longrightarrow> nt_dgrams st fd = w"
  by (auto simp: uconn_def)

lemma uconn_errno: "uconn p a fd s w q st \<Longrightarrow> uconn p a fd s w q (st\<lparr>nt_errno := e\<rparr>)"
  by (simp add: uconn_def)

lemma pointer_data: "ib_wf b \<Longrightarrow> \<exists>tail. ib_pointer b = map Some (ib_data b) @ tail"
  by (metis ib_cells_data ib_cells_def ib_pointer_def append_take_drop_id)

lemma flush_uconn:
  assumes c: "uconn p a fd s w q st" and s: "s \<le> 2 ^ 28" and b: "nt_proc st p = Some b"
  shows "\<exists>outcome i out k. udp_flush call 0 (ib_pointer (bp_out b)) (u32 (ib_avail (bp_out b))) (bp_out b) =
       Some (outcome, i, length (ib_data out), out, take k q) \<and> (outcome = UdpSent \<longrightarrow> length q \<le> k) \<and>
     uconn p a fd s (w @ take k q) (drop k q)
       (log_sent fd (take k q) (st\<lparr>nt_proc := heap_mod p (\<lambda>b. b\<lparr>bp_out := out\<rparr>) (nt_proc st)\<rparr>))"
proof -
  obtain rs where rs: "ib_data (bp_out b) = concat rs" "list_all2 is_record rs q" "ib_fits s (bp_out b)"
    using c b by (auto simp: uconn_def)
  have len: "length (concat rs) \<le> s"
    using rs by (simp add: ib_fits_def)
  then have avail: "u32 (ib_avail (bp_out b)) = length (concat rs)"
    using rs s by (simp add: ib_fits_avail u32_small)
  obtain tail where tail: "ib_pointer (bp_out b) = map Some (concat rs) @ tail"
    using pointer_data [of "bp_out b"] rs by (auto simp: ib_fits_def)
  have "length (concat rs) < 2 ^ 31"
    using len s by simp
  from udp_flush_spec [OF rs(2,3,1) this, of call 0 tail]
  obtain outcome i out k where run: "udp_flush call 0 (ib_pointer (bp_out b)) (u32 (ib_avail (bp_out b))) (bp_out b) =
      Some (outcome, i, length (concat (drop k rs)), out, take k q)"
    "ib_fits s out" "ib_data out = concat (drop k rs)" "outcome = UdpSent \<longrightarrow> length q \<le> k"
    unfolding tail avail by blast
  have "list_all2 is_record (drop k rs) (drop k q)"
    using rs(2) by (rule list_all2_dropI)
  then have "uconn p a fd s (w @ take k q) (drop k q)
       (log_sent fd (take k q) (st\<lparr>nt_proc := heap_mod p (\<lambda>b. b\<lparr>bp_out := out\<rparr>) (nt_proc st)\<rparr>))"
    using c b run(2,3) by (auto simp: uconn_def log_sent_def heap_simps dest: in_set_dropD)
  then show ?thesis
    using run by auto
qed

lemma stop_writing_uconn:
  assumes "uconn p a fd s w [] st"
  shows "\<exists>st'. stop_writing p a st = Some st' \<and> uconn p a fd s w [] st'"
proof -
  obtain b h where *: "nt_proc st p = Some b" "nt_hand st a = Some h" "fd \<in> nt_open st"
    "nt_epoll st fd = Some (a, bp_write b)" "ih_fd h = fd"
    using assms by (auto simp: uconn_def)
  then show ?thesis
    using assms by (auto simp: stop_writing_def DisableWriteData_def epoll_mod_conn net_simps uconn_def)
qed

lemma save_datagram_uconn:
  assumes c: "uconn p a fd s w q st" and s: "s \<le> 2 ^ 28" and b: "nt_proc st p = Some b"
    and d: "length data \<le> 65507" and peer: "length peer = 16" and pad: "length pad = 2"
  shows "\<exists>ok st'. save_datagram p a data peer pad (length (ib_data (bp_out b))) st = Some (ok, st') \<and>
     uconn p a fd s w (if ok then q @ [(peer, data)] else q) st'"
proof -
  obtain h rs where *: "nt_hand st a = Some h" "fd \<in> nt_open st" "bp_send b = s"
    "nt_epoll st fd = Some (a, bp_write b)" "ih_fd h = fd" "ib_fits s (bp_out b)" "ib_data (bp_out b) = concat rs"
    "list_all2 is_record rs q" "bp_io b = Some a" "bp_status b = PROCESS_NET_STATUS_CONNECTED" "ih_process h = Some p"
    "ih_type h = IOHT_UDP_CARRIER" "nt_dgrams st fd = w"
    using c b by (auto simp: uconn_def)
  let ?n = "length (ib_data (bp_out b))"
  have "?n \<le> s"
    using * by (simp add: ib_fits_def)
  then have u: "u32 (?n + length data) = ?n + length data"
    using s d by (simp add: u32_small)
  show ?thesis
  proof (cases "s < ?n + length data + 20")
    case True
    then show ?thesis
      using b u * c by (intro exI [of _ False]) (simp add: save_datagram_def UDP_CACHE_def)
  next
    case False
    let ?h = "udp_header (length data) pad peer"
    have lh: "length ?h = 20"
      using peer pad by (rule udp_header_length [rotated])
    obtain o1 where o1: "ib_ReadFromBuffer (bp_out b) (map Some ?h) UDP_CACHE = Some (True, o1)"
      "ib_fits s o1" "ib_data o1 = concat rs @ ?h"
      using ib_ReadFromBuffer_fits [OF *(6), of ?h "[]"] False lh s *(7) by (auto simp: UDP_CACHE_def)
    obtain o2 where o2: "ib_ReadFromBuffer o1 (map Some data) (length data) = Some (True, o2)"
      "ib_fits s o2" "ib_data o2 = concat (rs @ [?h @ data])"
      using ib_ReadFromBuffer_fits [OF o1(2), of data "[]"] False lh s *(7) o1(3) by auto
    have "is_record (?h @ data) (peer, data)"
      unfolding is_record_def using peer pad d by (intro conjI exI [of _ pad]) simp_all
    then have rec: "list_all2 is_record (rs @ [?h @ data]) (q @ [(peer, data)])"
      using *(8) by (intro list_all2_appendI) simp_all
    show ?thesis
    proof (cases "bp_write b")
      case True
      then show ?thesis
        using b u * False o1 o2 rec
        by (auto simp: save_datagram_def UDP_CACHE_def net_simps
            intro!: exI [of _ True] uconnI [where rs = "rs @ [?h @ data]"])
    next
      case off: False
      then show ?thesis
        using b u * False o1 o2 rec
        by (auto simp: save_datagram_def UDP_CACHE_def net_simps EnableWriteData_def epoll_mod_conn
            intro!: exI [of _ True] uconnI [where rs = "rs @ [?h @ data]"])
    qed
  qed
qed

lemma SendToMsg_uconn:
  assumes c: "uconn p a fd s w q st" and s: "s \<le> 2 ^ 28"
    and d: "length data \<le> 65507" and peer: "length peer = 16" and pad: "length pad = 2"
  shows "\<exists>ok st' w' q'. SendToMsg call p data peer pad st = Some (ok, st') \<and> uconn p a fd s w' q' st' \<and>
     w' @ q' = w @ q @ (if ok then [(peer, data)] else [])"
proof -
  obtain b h where *: "nt_proc st p = Some b" "nt_hand st a = Some h" "bp_io b = Some a"
    "ih_type h = IOHT_UDP_CARRIER" "ih_fd h = fd"
    using c by (auto simp: uconn_def)
  obtain outcome i out k where flush: "udp_flush call 0 (ib_pointer (bp_out b)) (u32 (ib_avail (bp_out b))) (bp_out b) =
       Some (outcome, i, length (ib_data out), out, take k q)" "outcome = UdpSent \<longrightarrow> length q \<le> k"
     "uconn p a fd s (w @ take k q) (drop k q)
       (log_sent fd (take k q) (st\<lparr>nt_proc := heap_mod p (\<lambda>b. b\<lparr>bp_out := out\<rparr>) (nt_proc st)\<rparr>))"
    using flush_uconn [OF c s *(1)] by blast
  define st1 where "st1 = log_sent fd (take k q) (st\<lparr>nt_proc := heap_mod p (\<lambda>b. b\<lparr>bp_out := out\<rparr>) (nt_proc st)\<rparr>)"
  note c1 = flush(3) [folded st1_def]
  have proc1: "nt_proc (st1\<lparr>nt_errno := e\<rparr>) p = Some (b\<lparr>bp_out := out\<rparr>)" for e
    using * by (simp add: st1_def log_sent_def heap_simps)
  have save: "\<exists>ok st' w' q'. save_datagram p a data peer pad (length (ib_data out)) (st1\<lparr>nt_errno := e\<rparr>) = Some (ok, st') \<and>
      uconn p a fd s w' q' st' \<and> w' @ q' = w @ q @ (if ok then [(peer, data)] else [])" for e
  proof -
    obtain ok st' where "save_datagram p a data peer pad (length (ib_data out)) (st1\<lparr>nt_errno := e\<rparr>) = Some (ok, st')"
      "uconn p a fd s (w @ take k q) (if ok then drop k q @ [(peer, data)] else drop k q) st'"
      using save_datagram_uconn [OF uconn_errno [OF c1] s proc1 d peer pad, of e] by auto
    then show ?thesis
      by (intro exI [of _ ok] exI [of _ st'] exI [of _ "w @ take k q"]
          exI [of _ "if ok then drop k q @ [(peer, data)] else drop k q"]) simp
  qed
  have fail: "\<exists>w' q'. uconn p a fd s w' q' (st1\<lparr>nt_errno := e\<rparr>) \<and> w' @ q' = w @ q" for e
    using uconn_errno [OF c1] by (intro exI [of _ "w @ take k q"] exI [of _ "drop k q"]) simp
  define direct where "direct = (if 65507 < length data then UdpFailed EMSGSIZE else udp_outcome_of (call i peer data))"
  have run: "SendToMsg call p data peer pad st =
      (case outcome of
         UdpFailed e \<Rightarrow> Some (False, st1\<lparr>nt_errno := e\<rparr>)
       | UdpAgain \<Rightarrow> save_datagram p a data peer pad (length (ib_data out)) (st1\<lparr>nt_errno := EAGAIN\<rparr>)
       | UdpSent \<Rightarrow>
           (case direct of
              UdpFailed e \<Rightarrow> Some (False, st1\<lparr>nt_errno := e\<rparr>)
            | UdpAgain \<Rightarrow> save_datagram p a data peer pad (length (ib_data out)) (st1\<lparr>nt_errno := EAGAIN\<rparr>)
            | UdpSent \<Rightarrow>
                let st = log_sent fd [(peer, data)] st1 in
                if bp_write b then do { st \<leftarrow> stop_writing p a st; Some (True, st) } else Some (True, st)))"
    using * flush(1) by (simp add: SendToMsg_def net_simps st1_def direct_def Let_def cong: udp_outcome.case_cong)
  show ?thesis
  proof (cases "outcome = UdpSent \<and> direct = UdpSent")
    case True
    then have all: "take k q = q" "drop k q = []"
      using flush(2) by simp_all
    let ?st = "log_sent fd [(peer, data)] st1"
    have c2: "uconn p a fd s (w @ q @ [(peer, data)]) [] ?st"
      using c1 all by (simp add: uconn_def log_sent_def)
    obtain st' where st': "stop_writing p a ?st = Some st'" "uconn p a fd s (w @ q @ [(peer, data)]) [] st'"
      using stop_writing_uconn [OF c2] by blast
    show ?thesis
      using run True c2 st'
      by (intro exI [of _ True] exI [of _ "if bp_write b then st' else ?st"]
          exI [of _ "w @ q @ [(peer, data)]"] exI [of _ "[]"]) simp
  next
    case False
    have "(\<exists>e. SendToMsg call p data peer pad st = Some (False, st1\<lparr>nt_errno := e\<rparr>)) \<or>
        SendToMsg call p data peer pad st =
          save_datagram p a data peer pad (length (ib_data out)) (st1\<lparr>nt_errno := EAGAIN\<rparr>)"
    proof (cases outcome)
      case UdpSent
      then show ?thesis
        using run False by (cases direct) (simp, simp, metis udp_outcome.simps(10) udp_outcome.simps(8))
    next
      case (UdpFailed e)
      then show ?thesis
        using run by (intro disjI1 exI [of _ e]) simp
    qed (use run in simp)
    then consider e where "SendToMsg call p data peer pad st = Some (False, st1\<lparr>nt_errno := e\<rparr>)"
      | "SendToMsg call p data peer pad st =
           save_datagram p a data peer pad (length (ib_data out)) (st1\<lparr>nt_errno := EAGAIN\<rparr>)"
      by blast
    then show ?thesis
    proof cases
      case 1
      then show ?thesis
        using fail [of e] by (intro exI [of _ False] exI [of _ "st1\<lparr>nt_errno := e\<rparr>"]) simp
    qed (use save [of EAGAIN] in simp)
  qed
qed

lemma UDP_write_uconn:
  assumes c: "uconn p a fd s w q st" and s: "s \<le> 2 ^ 28"
  shows "\<exists>ok st' k. UDP_write call a st = Some (ok, st') \<and> nt_dgrams st' fd = w @ take k q \<and>
     (ok \<longrightarrow> uconn p a fd s (w @ take k q) (drop k q) st')"
proof -
  obtain b h where *: "nt_proc st p = Some b" "nt_hand st a = Some h" "bp_io b = Some a" "ih_process h = Some p"
    "ih_fd h = fd" "ib_fits s (bp_out b)"
    using c by (auto simp: uconn_def)
  show ?thesis
  proof (cases "ib_avail (bp_out b) = 0")
    case True
    then show ?thesis
      using * c by (intro exI [of _ True] exI [of _ st] exI [of _ 0]) (simp add: UDP_write_def GetOutputBuffer_def uconn_sent)
  next
    case False
    obtain outcome i out k where flush: "udp_flush call 0 (ib_pointer (bp_out b)) (u32 (ib_avail (bp_out b))) (bp_out b) =
         Some (outcome, i, length (ib_data out), out, take k q)" "outcome = UdpSent \<longrightarrow> length q \<le> k"
       "uconn p a fd s (w @ take k q) (drop k q)
         (log_sent fd (take k q) (st\<lparr>nt_proc := heap_mod p (\<lambda>b. b\<lparr>bp_out := out\<rparr>) (nt_proc st)\<rparr>))"
      using flush_uconn [OF c s *(1)] by blast
    define st1 where "st1 = log_sent fd (take k q) (st\<lparr>nt_proc := heap_mod p (\<lambda>b. b\<lparr>bp_out := out\<rparr>) (nt_proc st)\<rparr>)"
    note c1 = flush(3) [folded st1_def]
    have run: "UDP_write call a st =
        (case outcome of
           UdpFailed e \<Rightarrow> give_up a PROCESS_NET_STATUS_SYS_ERROR (st1\<lparr>nt_errno := e\<rparr>)
         | UdpAgain \<Rightarrow> Some (True, st1\<lparr>nt_errno := EAGAIN\<rparr>)
         | UdpSent \<Rightarrow> do { st \<leftarrow> stop_writing p a st1; Some (True, st) })"
      using * flush(1) False
      by (simp add: UDP_write_def GetOutputBuffer_def net_simps st1_def Let_def cong: udp_outcome.case_cong)
    show ?thesis
    proof (cases outcome)
      case UdpSent
      then have "drop k q = []"
        using flush(2) by simp
      then obtain st' where "stop_writing p a st1 = Some st'" "uconn p a fd s (w @ take k q) (drop k q) st'"
        using stop_writing_uconn [of p a fd s "w @ take k q" st1] c1 by auto
      then show ?thesis
        using run UdpSent by (intro exI [of _ True] exI [of _ st'] exI [of _ k]) (simp add: uconn_sent)
    next
      case UdpAgain
      then show ?thesis
        using run uconn_errno [OF c1] uconn_sent [OF c1]
        by (intro exI [of _ True] exI [of _ "st1\<lparr>nt_errno := EAGAIN\<rparr>"] exI [of _ k]) simp
    next
      case (UdpFailed e)
      obtain b1 h1 where "nt_proc st1 p = Some b1" "nt_hand st1 a = Some h1" "ih_process h1 = Some p"
        "nt_dgrams st1 fd = w @ take k q"
        using c1 by (auto simp: uconn_def)
      then show ?thesis
        using run UdpFailed
        by (intro exI [of _ False]) (auto simp: give_up_def process_of_def SetNetStatus_def net_simps)
    qed
  qed
qed

section \<open>Histories of a UDP carrier\<close>

datatype udp_op =
    SendTo "byte list" "byte list" "byte list" sendto
  | UdpWritable udp_calls

fun udp_step :: "nat \<Rightarrow> nat \<Rightarrow> udp_op \<Rightarrow> net \<Rightarrow> (bool \<times> net) option" where
  "udp_step p a (SendTo peer data pad call) st = SendToMsg call p data peer pad st"
| "udp_step p a (UdpWritable c) st = UDPCarrier_OnEvent c a writable st"

fun udp_op_data :: "udp_op \<Rightarrow> (byte list \<times> byte list) list" where
  "udp_op_data (SendTo peer data pad call) = [(peer, data)]"
| "udp_op_data (UdpWritable c) = []"

fun udp_op_ok :: "udp_op \<Rightarrow> bool" where
  "udp_op_ok (SendTo peer data pad call) \<longleftrightarrow> length data \<le> 65507 \<and> length peer = 16 \<and> length pad = 2"
| "udp_op_ok (UdpWritable c) \<longleftrightarrow> (\<forall>p st. \<not> uc_close c p st)"

lemma udp_writable:
  assumes c: "uconn p a fd s w q st" and s: "s \<le> 2 ^ 28" and ok: "\<forall>p st. \<not> uc_close c p st"
  shows "\<exists>good st' k. UDPCarrier_OnEvent c a writable st = Some (good, st') \<and> nt_dgrams st' fd = w @ take k q \<and>
     (good \<longrightarrow> uconn p a fd s (w @ take k q) (drop k q) st')"
proof -
  obtain good st' k where st': "UDP_write (uc_write c) a st = Some (good, st')" "nt_dgrams st' fd = w @ take k q"
    "good \<longrightarrow> uconn p a fd s (w @ take k q) (drop k q) st'"
    using UDP_write_uconn [OF c s] by blast
  have "carrier_ready a st = Some True"
    using c by (auto simp: uconn_def carrier_ready_def)
  moreover have "close_check (uc_close c) a st' = Some (True, st')" if good
    using st'(3) that ok by (auto simp: uconn_def close_check_def process_of_def)
  ultimately show ?thesis
    using st' by (intro exI [of _ good] exI [of _ st'] exI [of _ k])
      (auto simp: UDPCarrier_OnEvent_def writable_def UDP_errors_def)
qed

text \<open>A datagram that cannot be sent leaves the carrier as it is; a write event that fails makes the event loop delete it.\<close>

fun udp_lives :: "udp_op \<Rightarrow> bool" where
  "udp_lives (SendTo peer data pad call) = True"
| "udp_lives (UdpWritable c) = False"

interpretation udp: channel "\<lambda>w q st. uconn p a fd s w q st \<and> s \<le> 2 ^ 28" "\<lambda>st. nt_dgrams st fd" "udp_step p a"
    udp_op_ok udp_op_data udp_lives "\<lambda>op ok part. part = (if ok then udp_op_data op else [])"
  for p a fd s
proof
  fix w q st op
  assume c: "uconn p a fd s w q st \<and> s \<le> 2 ^ 28" and allowed: "udp_op_ok op"
  show "\<exists>ok st' part. udp_step p a op st = Some (ok, st') \<and> part = (if ok then udp_op_data op else []) \<and>
      prefix (nt_dgrams st' fd) (w @ q @ part) \<and>
      (ok \<or> udp_lives op \<longrightarrow> (\<exists>w' q'. (uconn p a fd s w' q' st' \<and> s \<le> 2 ^ 28) \<and> w' @ q' = w @ q @ part))"
  proof (cases op)
    case (SendTo peer data pad call)
    then obtain ok st' w' q' where st': "SendToMsg call p data peer pad st = Some (ok, st')" "uconn p a fd s w' q' st'"
      "w' @ q' = w @ q @ (if ok then [(peer, data)] else [])"
      using SendToMsg_uconn [of p a fd s w q st data peer pad call] c allowed by auto
    have "prefix (nt_dgrams st' fd) (w @ q @ (if ok then [(peer, data)] else []))"
      using st'(3) uconn_sent [OF st'(2)] by (metis prefixI)
    moreover have "\<exists>w' q'. (uconn p a fd s w' q' st' \<and> s \<le> 2 ^ 28) \<and> w' @ q' = w @ q @ (if ok then [(peer, data)] else [])"
      using st'(2,3) c by blast
    ultimately show ?thesis
      using st'(1) SendTo by (intro exI [of _ ok] exI [of _ st'] exI [of _ "if ok then [(peer, data)] else []"]) simp
  next
    case (UdpWritable k)
    then obtain good st' n where st': "UDPCarrier_OnEvent k a writable st = Some (good, st')"
      "nt_dgrams st' fd = w @ take n q" "good \<longrightarrow> uconn p a fd s (w @ take n q) (drop n q) st'"
      using udp_writable [of p a fd s w q st k] c allowed by auto
    moreover have "\<exists>w' q'. uconn p a fd s w' q' st' \<and> w' @ q' = w @ q" if good
      using st'(3) that by (intro exI [of _ "w @ take n q"] exI [of _ "drop n q"]) simp
    ultimately show ?thesis
      using UdpWritable c by (intro exI [of _ good] exI [of _ st'] exI [of _ "[]"]) (simp add: take_is_prefix)
  qed
qed (use uconn_sent in \<open>auto simp: handed_def\<close>)

lemma each_handed: "list_all2 (\<lambda>(op, ok) part. part = f op ok) (zip ops oks) parts \<Longrightarrow> parts = map2 f ops oks"
  by (rule nth_equalityI) (auto simp: list_all2_conv_all_nth min_less_iff_conj [symmetric] simp del: min_less_iff_conj)

section \<open>Properties\<close>

text \<open>
  C17: Datagrams keep their borders, their addresses and their order. In any history of \<open>SendToMsg\<close> calls with at
  most 65507 bytes each and of write events, calls after failed ones included, whatever the kernel accepts or refuses, no step is
  undefined and the kernel has got, in order and each once, a prefix of the datagrams of the calls that succeeded; one whose call
  failed is never sent. Until a write event fails and ends the carrier, the others wait in the
  output buffer as records of address and data, and \<open>EPOLLOUT\<close> is asked for while any waits (\<^term>\<open>uconn\<close>).
\<close>
theorem datagrams_in_order:
  assumes "uconn p a fd s [] [] st" and "s \<le> 2 ^ 28" and "\<forall>op\<in>set ops. udp_op_ok op"
  shows "\<exists>oks st'. history_run udp_lives (udp_step p a) ops st = Some (oks, st') \<and>
     (let accepted = concat (map2 (\<lambda>op ok. if ok then udp_op_data op else []) ops oks) in
      prefix (nt_dgrams st' fd) accepted \<and>
      (goes_on udp_lives ops oks \<longrightarrow> (\<exists>q. nt_dgrams st' fd @ q = accepted \<and> uconn p a fd s (nt_dgrams st' fd) q st')))"
proof -
  obtain oks st' parts where run: "history_run udp_lives (udp_step p a) ops st = Some (oks, st')"
    "list_all2 (\<lambda>(op, ok) part. part = (if ok then udp_op_data op else [])) (zip ops oks) parts"
    "prefix (nt_dgrams st' fd) (concat parts)"
    "goes_on udp_lives ops oks \<longrightarrow> (\<exists>q. nt_dgrams st' fd @ q = concat parts \<and> uconn p a fd s (nt_dgrams st' fd) q st')"
    using udp.whole_history [of p a fd s "[]" "[]" st ops] assms by auto
  then show ?thesis
    using each_handed [OF run(2)] by (intro exI [of _ oks] exI [of _ st']) (simp add: Let_def)
qed

definition demo_udp :: net where
  "demo_udp = (demo_net [])\<lparr>nt_hand := [11 \<mapsto> \<lparr>ih_fd = 5, ih_managed = True, ih_flag = IOHT_FLAG_CLOSE_ALL,
     ih_process = Some 21, ih_type = IOHT_UDP_CARRIER, ih_peer = replicate 16 0, ih_name = []\<rparr>]\<rparr>"

lemma demo_uconn: "uconn 21 11 5 65536 [] [] demo_udp"
proof -
  have out: "ib_data (demo_out []) = concat []" "ib_fits 65536 (demo_out [])"
    by (simp_all add: ib_fits_def ib_wf_def demo_out_def ib_data_def ib_cells_def ib_new_def ib_block_def)
  show ?thesis
    unfolding demo_udp_def demo_net_def by (rule uconnI [where rs = "[]"], simp, simp) (simp_all add: out)
qed

lemma datagrams_in_order_witness:
  "\<exists>oks st'. history_run udp_lives (udp_step 21 11)
       [SendTo (replicate 16 1) [7] [0, 0] (\<lambda>i addr bs. \<lparr>sw_sent = -1, sw_errno = 1\<rparr>),
        SendTo (replicate 16 2) [8, 9] [0, 0] (\<lambda>i addr bs. \<lparr>sw_sent = int (length bs), sw_errno = 0\<rparr>)] demo_udp = Some (oks, st') \<and>
     prefix (nt_dgrams st' 5) (concat (map2 (\<lambda>op ok. if ok then udp_op_data op else [])
       [SendTo (replicate 16 1) [7] [0, 0] (\<lambda>i addr bs. \<lparr>sw_sent = -1, sw_errno = 1\<rparr>),
        SendTo (replicate 16 2) [8, 9] [0, 0] (\<lambda>i addr bs. \<lparr>sw_sent = int (length bs), sw_errno = 0\<rparr>)] oks))"
  using datagrams_in_order [OF demo_uconn, of "[SendTo (replicate 16 1) [7] [0, 0] (\<lambda>i addr bs. \<lparr>sw_sent = -1, sw_errno = 1\<rparr>),
        SendTo (replicate 16 2) [8, 9] [0, 0] (\<lambda>i addr bs. \<lparr>sw_sent = int (length bs), sw_errno = 0\<rparr>)]"]
  unfolding Let_def by (simp del: history_run.simps) blast

end
