(* ===== verification/NetWorker.thy ===== *)
theory NetWorker
  imports Udp
begin

text \<open>
  Worker threads (\<open>src/eventdrive/networker.cpp\<close>, \<open>baseworkerex.cpp\<close>, the command classes and the acceptors): the
  queues through which a worker gets commands from the others, what a command does, the hand-over of accepted and
  transferred connections, the event loop and its shut-down. A queue is a \<^typ>\<open>cyclist\<close> and the contents
  of its nodes. Threads are taken one call at a time; the sender's and the receiver's accesses do not interleave inside
  a call.
\<close>

section \<open>Commands\<close>

text \<open>\<open>data_\<close> of a transfer is \<^term>\<open>None\<close> for the null pointer.\<close>

datatype cmd =
    BaseCmd
  | TCPAcceptCmd int nat
  | UNIXAcceptCmd int string
  | TCPTransferCmd int nat "byte list option" nat
  | UNIXTransferCmd int string "byte list option" nat

text \<open>
  What the worker's extension and the system contribute: the processes that \<open>CreateTCPProcess\<close> and
  \<open>CreateUNIXProcess\<close> make, the application's \<open>Process\<close>, the peer of a descriptor and the addresses of new handlers.
\<close>

record cmd_env =
  ce_tcp :: "nat \<Rightarrow> net \<Rightarrow> nat option \<times> net"
  ce_unix :: "string \<Rightarrow> net \<Rightarrow> nat option \<times> net"
  ce_app :: app
  ce_peer :: "int \<Rightarrow> byte list"
  ce_fresh :: "net \<Rightarrow> nat"

definition set_ex :: "nat \<Rightarrow> net \<Rightarrow> net option" where
  "set_ex p st = set_proc p (\<lambda>b. b\<lparr>bp_ex := True\<rparr>) st"

definition TCPAcceptCmd_Process :: "cmd_env \<Rightarrow> int \<Rightarrow> nat \<Rightarrow> net \<Rightarrow> (bool \<times> net) option" where
  "TCPAcceptCmd_Process e fd port st =
     (case ce_tcp e port st of
        (Some p, st) \<Rightarrow> do {
          st \<leftarrow> set_ex p st;
          st \<leftarrow> new_TCPCarrier (ce_fresh e st) fd (Some p) (ce_peer e fd) st;
          Some (True, st) }
      | (None, st) \<Rightarrow> Some (False, CloseFd fd st))"

definition UNIXAcceptCmd_Process :: "cmd_env \<Rightarrow> int \<Rightarrow> string \<Rightarrow> net \<Rightarrow> (bool \<times> net) option" where
  "UNIXAcceptCmd_Process e fd path st =
     (case ce_unix e path st of
        (Some p, st) \<Rightarrow> do {
          st \<leftarrow> set_ex p st;
          st \<leftarrow> new_UNIXCarrier (ce_fresh e st) fd (Some p) st;
          Some (True, st) }
      | (None, st) \<Rightarrow> Some (False, CloseFd fd st))"

text \<open>
  The received bytes go into the input buffer before \<open>Process\<close> sees them; a null \<open>data_\<close> holds no byte to copy.
\<close>

definition transfer_input :: "cmd_env \<Rightarrow> nat \<Rightarrow> byte list option \<Rightarrow> nat \<Rightarrow> net \<Rightarrow> net option" where
  "transfer_input e p data len st =
     do { b \<leftarrow> nt_proc st p;
          (_, input) \<leftarrow> ib_ReadFromBuffer (bp_in b) (case data of None \<Rightarrow> [] | Some bs \<Rightarrow> map Some bs) len;
          st \<leftarrow> set_proc p (\<lambda>b. b\<lparr>bp_in := input\<rparr>) st;
          (ok, st) \<leftarrow> ce_app e p (i32 (int len)) st;
          if ok then Some st else Free p st }"

definition TCPTransferCmd_Process :: "cmd_env \<Rightarrow> int \<Rightarrow> nat \<Rightarrow> byte list option \<Rightarrow> nat \<Rightarrow> net \<Rightarrow> (bool \<times> net) option" where
  "TCPTransferCmd_Process e fd port data len st =
     (case ce_tcp e port st of
        (Some p, st) \<Rightarrow> do {
          st \<leftarrow> set_ex p st;
          st \<leftarrow> new_TCPCarrier (ce_fresh e st) fd (Some p) (ce_peer e fd) st;
          st \<leftarrow> transfer_input e p data len st;
          Some (True, st) }
      | (None, st) \<Rightarrow> Some (True, CloseFd fd st))"

definition UNIXTransferCmd_Process ::
    "cmd_env \<Rightarrow> int \<Rightarrow> string \<Rightarrow> byte list option \<Rightarrow> nat \<Rightarrow> net \<Rightarrow> (bool \<times> net) option" where
  "UNIXTransferCmd_Process e fd path data len st =
     (case ce_unix e path st of
        (Some p, st) \<Rightarrow> do {
          st \<leftarrow> set_ex p st;
          st \<leftarrow> new_UNIXCarrier (ce_fresh e st) fd (Some p) st;
          st \<leftarrow> transfer_input e p data len st;
          Some (True, st) }
      | (None, st) \<Rightarrow> Some (True, CloseFd fd st))"

text \<open>The virtual call; the second result is the command afterwards, whose \<open>data_\<close> a transfer has deleted.\<close>

fun cmd_Process :: "cmd_env \<Rightarrow> cmd \<Rightarrow> net \<Rightarrow> (bool \<times> cmd \<times> net) option" where
  "cmd_Process e BaseCmd st = Some (False, BaseCmd, st)"
| "cmd_Process e (TCPAcceptCmd fd port) st =
     map_option (\<lambda>(ok, st). (ok, TCPAcceptCmd fd port, st)) (TCPAcceptCmd_Process e fd port st)"
| "cmd_Process e (UNIXAcceptCmd fd path) st =
     map_option (\<lambda>(ok, st). (ok, UNIXAcceptCmd fd path, st)) (UNIXAcceptCmd_Process e fd path st)"
| "cmd_Process e (TCPTransferCmd fd port data len) st =
     map_option (\<lambda>(ok, st). (ok, TCPTransferCmd fd port None len, st)) (TCPTransferCmd_Process e fd port data len st)"
| "cmd_Process e (UNIXTransferCmd fd path data len) st =
     map_option (\<lambda>(ok, st). (ok, UNIXTransferCmd fd path None len, st)) (UNIXTransferCmd_Process e fd path data len st)"

section \<open>Queues\<close>

record cmd_queue =
  cq_list :: cyclist
  cq_cmd :: "nat \<rightharpoonup> cmd"

datatype worker_status = WORKER_STATUS_RUN | WORKER_STATUS_CLOSE | WORKER_STATUS_CLEAR | WORKER_STATUS_STOP

text \<open>
  \<open>nw_queues\<close> is \<open>worker_queue_\<close>, indexed by the sending worker and the type of the command; \<open>nw_posts\<close> are the
  \<open>GsdmCmdInfo\<close> datagrams that wait on the worker's wake-up socket.
\<close>

record worker =
  nw_id :: nat
  nw_status :: worker_status
  nw_net :: net
  nw_queues :: "nat \<Rightarrow> int \<rightharpoonup> cmd_queue"
  nw_posts :: "(nat \<times> int) list"

definition set_queue :: "nat \<Rightarrow> int \<Rightarrow> cmd_queue \<Rightarrow> worker \<Rightarrow> worker" where
  "set_queue src type q w = w\<lparr>nw_queues := (nw_queues w)(src := (nw_queues w src)(type \<mapsto> q))\<rparr>"

text \<open>The two nodes a new queue starts with are marked as free to delete.\<close>

definition new_queue :: cmd_queue where
  "new_queue = \<lparr>cq_list = cl_new [0 \<mapsto> \<lparr>cn_next = None, cn_is_free = True\<rparr>, 1 \<mapsto> \<lparr>cn_next = None, cn_is_free = True\<rparr>] 0 1,
     cq_cmd = [0 \<mapsto> BaseCmd, 1 \<mapsto> BaseCmd]\<rparr>"

definition SetupQueue :: "nat \<Rightarrow> int \<Rightarrow> worker \<Rightarrow> worker" where
  "SetupQueue src type w = (if nw_queues w src type = None then set_queue src type new_queue w else w)"

definition GetCmd :: "nat \<Rightarrow> int \<Rightarrow> worker \<Rightarrow> (nat option \<times> worker) option" where
  "GetCmd src type w =
     (case nw_queues w src type of
        None \<Rightarrow> Some (None, w)
      | Some q \<Rightarrow> do { (a, l) \<leftarrow> cl_GetCycle (cq_list q); Some (a, set_queue src type (q\<lparr>cq_list := l\<rparr>) w) })"

text \<open>\<open>room\<close> is whether the wake-up socket took the datagram; the code does not look.\<close>

definition Post :: "bool \<Rightarrow> nat \<times> int \<Rightarrow> worker \<Rightarrow> worker" where
  "Post room info w = (if room then w\<lparr>nw_posts := nw_posts w @ [info]\<rparr> else w)"

definition SendCmd :: "bool \<Rightarrow> nat \<Rightarrow> int \<Rightarrow> nat \<Rightarrow> worker \<Rightarrow> worker option" where
  "SendCmd room src type a w =
     (case nw_queues w src type of
        None \<Rightarrow> Some w
      | Some q \<Rightarrow> do {
          l \<leftarrow> cl_Insert a (cq_list q);
          Some (Post room (src, type) (set_queue src type (q\<lparr>cq_list := l\<rparr>) w)) })"

partial_function (option) process_loop :: "cmd_env \<Rightarrow> cmd_queue \<Rightarrow> net \<Rightarrow> (cmd_queue \<times> net) option" where
  "process_loop e q st =
     do { (r, l) \<leftarrow> cl_GetData (cq_list q);
          case r of
            None \<Rightarrow> Some (q\<lparr>cq_list := l\<rparr>, st)
          | Some a \<Rightarrow> do {
              c \<leftarrow> cq_cmd q a;
              (_, c, st) \<leftarrow> cmd_Process e c st;
              process_loop e (q\<lparr>cq_list := l, cq_cmd := (cq_cmd q)(a \<mapsto> c)\<rparr>) st } }"

definition ProcessCmd :: "cmd_env \<Rightarrow> nat \<times> int \<Rightarrow> worker \<Rightarrow> worker option" where
  "ProcessCmd e info w =
     (case info of (src, type) \<Rightarrow>
        if src = 0xffffffff then Some w
        else case nw_queues w src type of
            None \<Rightarrow> Some w
          | Some q \<Rightarrow> do {
              (q, st) \<leftarrow> process_loop e q (nw_net w);
              Some (set_queue src type q (w\<lparr>nw_net := st\<rparr>)) })"

text \<open>
  The senders of this code base all do the same: they take a used command of the queue or make a new one, fill
  it in and send it. \<open>fill\<close> gets the contents of a used command. A new node is allocated outside
  every queue; here it gets the first free number of the queue it is for.
\<close>

definition alloc_cmd :: "cmd \<Rightarrow> nat \<Rightarrow> cmd_queue \<Rightarrow> cmd_queue" where
  "alloc_cmd c a q = q\<lparr>cq_list := (cq_list q)\<lparr>cl_heap := (cl_heap (cq_list q))(a \<mapsto> \<lparr>cn_next = None, cn_is_free = False\<rparr>)\<rparr>,
     cq_cmd := (cq_cmd q)(a \<mapsto> c)\<rparr>"

definition fresh_cmd :: "(nat \<rightharpoonup> cnode) \<Rightarrow> nat" where
  "fresh_cmd h = Suc (Max (insert 0 (dom h)))"

definition send_new_cmd :: "bool \<Rightarrow> nat \<Rightarrow> int \<Rightarrow> (cmd option \<Rightarrow> cmd) \<Rightarrow> worker \<Rightarrow> worker option" where
  "send_new_cmd room src type fill w =
     do { (r, w) \<leftarrow> GetCmd src type w;
          case nw_queues w src type of
            None \<Rightarrow> Some w
          | Some q \<Rightarrow>
              (case r of
                 Some a \<Rightarrow> do {
                   c \<leftarrow> cq_cmd q a;
                   SendCmd room src type a
                     (set_queue src type (q\<lparr>cq_cmd := (cq_cmd q)(a \<mapsto> fill (Some c))\<rparr>) w) }
               | None \<Rightarrow>
                   let a = fresh_cmd (cl_heap (cq_list q)) in
                   SendCmd room src type a (set_queue src type (alloc_cmd (fill None) a q) w)) }"

section \<open>A queue holds the commands that were sent and not run\<close>

text \<open>The specification: the commands \<open>cs\<close> wait in order; they will be run one after the other.\<close>

fun run_cmds :: "cmd_env \<Rightarrow> cmd list \<Rightarrow> net \<Rightarrow> net option" where
  "run_cmds e [] st = Some st"
| "run_cmds e (c # cs) st = do { (_, _, st) \<leftarrow> cmd_Process e c st; run_cmds e cs st }"

definition queue_holds :: "cmd_queue \<Rightarrow> cmd list \<Rightarrow> bool" where
  "queue_holds q cs \<longleftrightarrow>
     (\<exists>D x xs r. cl_repr (\<lambda>a. a < 2) (cq_list q) (D, x # xs, r) \<and> finite D \<and> D \<subseteq> dom (cq_cmd q) \<and>
        map (cq_cmd q) xs = map Some cs)"

lemma queue_holdsI:
  "cl_repr (\<lambda>a. a < 2) (cq_list q) (D, x # xs, r) \<Longrightarrow> finite D \<Longrightarrow> D \<subseteq> dom (cq_cmd q) \<Longrightarrow>
     map (cq_cmd q) xs = map Some cs \<Longrightarrow> queue_holds q cs"
  by (auto simp: queue_holds_def)

lemma new_queue_holds: "queue_holds new_queue []"
proof (rule queue_holdsI)
  show "cl_repr (\<lambda>a. a < 2) (cq_list new_queue) ({0, 1}, [0], [1])"
    by (auto simp: new_queue_def cl_new_def cl_repr_def split: if_splits)
qed (auto simp: new_queue_def)

lemma cl_repr_members: "cl_repr fr c (D, q, r) \<Longrightarrow> set q \<subseteq> D \<and> set r \<subseteq> D \<and> distinct (q @ r) \<and> D = dom (cl_heap c)"
  by (auto simp: cl_repr_def dest: chain_dom)

lemma process_loop_holds:
  assumes "queue_holds q cs" and "run_cmds e cs st = Some st'"
  shows "\<exists>q'. process_loop e q st = Some (q', st') \<and> queue_holds q' []"
  using assms
proof (induction cs arbitrary: q st)
  case Nil
  then obtain D x r where R: "cl_repr (\<lambda>a. a < 2) (cq_list q) (D, [x], r)" "finite D" "D \<subseteq> dom (cq_cmd q)"
    by (auto simp: queue_holds_def)
  then obtain l where l: "cl_GetData (cq_list q) = Some (None, l)" "cl_repr (\<lambda>a. a < 2) l (D, [x], r)"
    using cl_GetData_repr [OF R(1), of None "(D, [x], r)"] by auto
  then have "queue_holds (q\<lparr>cq_list := l\<rparr>) []"
    using R by (intro queue_holdsI [where D = D and x = x and xs = "[]" and r = r]) auto
  then show ?case
    using Nil.prems(2) l(1) by (subst process_loop.simps) auto
next
  case (Cons c cs)
  then obtain D x y ys r where R: "cl_repr (\<lambda>a. a < 2) (cq_list q) (D, x # y # ys, r)" "finite D" "D \<subseteq> dom (cq_cmd q)"
    and cmds: "cq_cmd q y = Some c" "map (cq_cmd q) ys = map Some cs"
    by (auto simp: queue_holds_def map_eq_Cons_conv)
  obtain ok c' st1 where run: "cmd_Process e c st = Some (ok, c', st1)" "run_cmds e cs st1 = Some st'"
    using Cons.prems(2) by (auto elim!: bind_SomeE)
  let ?a = "if x < 2 then (D - {x}, y # ys, r) else (D, y # ys, r @ [x])"
  obtain l where l: "cl_GetData (cq_list q) = Some (Some y, l)" "cl_repr (\<lambda>a. a < 2) l ?a"
    using cl_GetData_repr [OF R(1), of "Some y" ?a] by auto
  let ?q = "q\<lparr>cq_list := l, cq_cmd := (cq_cmd q)(y \<mapsto> c')\<rparr>"
  have "y \<notin> set ys"
    using cl_repr_members [OF R(1)] by simp
  then have "map ((cq_cmd q)(y \<mapsto> c')) ys = map Some cs"
    using cmds(2) by (metis fun_upd_apply map_cong)
  then have "queue_holds ?q cs"
    using l(2) R(2,3)
    by (intro queue_holdsI [where D = "fst ?a" and x = y and xs = ys and r = "snd (snd ?a)"]) (auto split: if_splits)
  then show ?case
    using Cons.IH [OF _ run(2), of ?q] l(1) cmds(1) run(1) by (subst process_loop.simps) simp
qed

text \<open>A command that is undefined on the state of the network makes the whole queue undefined.\<close>

lemma process_loop_undefined:
  assumes "queue_holds q (c # cs)" and "cmd_Process e c st = None"
  shows "process_loop e q st = None"
proof -
  obtain D x y ys r where R: "cl_repr (\<lambda>a. a < 2) (cq_list q) (D, x # y # ys, r)" and c: "cq_cmd q y = Some c"
    using assms(1) by (auto simp: queue_holds_def map_eq_Cons_conv)
  obtain l where "cl_GetData (cq_list q) = Some (Some y, l)"
    using cl_GetData_repr [OF R, of "Some y" "if x < 2 then (D - {x}, y # ys, r) else (D, y # ys, r @ [x])"] by auto
  then show ?thesis
    using c assms(2) by (subst process_loop.simps) simp
qed

text \<open>A reused node is in no chain any more, and a new one gets a fresh number above the first two.\<close>

lemma cq_cycle_out:
  assumes "cq_cycle fr D r = (out, D', r')" and "distinct r" and "set r \<subseteq> D"
  shows "D' \<subseteq> D \<and> D - set r \<subseteq> D' \<and> set r' \<subseteq> set r \<and> (\<forall>a. out = Some a \<longrightarrow> a \<in> D' \<and> a \<in> set r \<and> a \<notin> set r')"
  using assms
proof (induction fr D r rule: cq_cycle.induct)
  case (1 fr D x y r)
  show ?case
  proof (cases "fr x")
    case True
    have "set (y # r) \<subseteq> D - {x}" "distinct (y # r)"
      using 1(3,4) by auto
    then have "D' \<subseteq> D - {x} \<and> D - {x} - set (y # r) \<subseteq> D' \<and> set r' \<subseteq> set (y # r) \<and>
        (\<forall>a. out = Some a \<longrightarrow> a \<in> D' \<and> a \<in> set (y # r) \<and> a \<notin> set r')"
      using 1(1) [OF True _ _] 1(2) True by simp
    moreover have "x \<notin> D - set (x # y # r)"
      by simp
    ultimately show ?thesis
      by (simp; blast)
  next
    case False
    then show ?thesis
      using 1(2-4) by auto
  qed
qed auto

lemma cl_repr_alloc:
  assumes "cl_repr fr c (D, q, r)" and "a \<notin> D" and "\<not> fr a"
  shows "cl_repr fr (c\<lparr>cl_heap := (cl_heap c)(a \<mapsto> \<lparr>cn_next = None, cn_is_free = False\<rparr>)\<rparr>) (insert a D, q, r)"
proof -
  have "a \<notin> set q" "a \<notin> set r"
    using assms(2) cl_repr_members [OF assms(1)] by auto
  then have "chain ((cl_heap c)(a \<mapsto> n)) q = chain (cl_heap c) q" "chain ((cl_heap c)(a \<mapsto> n)) r = chain (cl_heap c) r" for n
    by (auto intro!: chain_cong)
  then show ?thesis
    using assms by (auto simp: cl_repr_def)
qed

lemma fresh_cmd_fresh:
  assumes "cl_repr fr c (D, q, r)" and "finite D"
  shows "fresh_cmd (cl_heap c) \<notin> D \<and> 2 \<le> fresh_cmd (cl_heap c)"
proof -
  have D: "D = dom (cl_heap c)" and dist: "distinct (q @ r)" and sub: "set q \<subseteq> D" "set r \<subseteq> D"
    using cl_repr_members [OF assms(1)] by auto
  obtain x y where xy: "x \<in> D" "y \<in> D" "x \<noteq> y"
    using assms(1) sub dist by (cases q; cases r) (auto simp: cl_repr_def)
  have le: "a \<le> Max (insert 0 D)" if "a \<in> D" for a
    using that assms(2) by simp
  have "Suc (Max (insert 0 D)) \<notin> D"
    using le by fastforce
  moreover have "2 \<le> Suc (Max (insert 0 D))"
    using le [OF xy(1)] le [OF xy(2)] xy(3) by linarith
  ultimately show ?thesis
    by (simp add: fresh_cmd_def D [symmetric])
qed

lemma set_queue_simps [simp]:
  "nw_queues (set_queue src type q w) src type = Some q"
  "set_queue src type q (set_queue src type q' w) = set_queue src type q w"
  "nw_net (set_queue src type q w) = nw_net w" "nw_posts (set_queue src type q w) = nw_posts w"
  by (simp_all add: set_queue_def)

lemma send_new_cmd_holds:
  assumes Q: "nw_queues w src type = Some q" and H: "queue_holds q cs"
  shows "\<exists>q'. send_new_cmd room src type (\<lambda>_. c) w = Some (Post room (src, type) (set_queue src type q' w)) \<and>
     queue_holds q' (cs @ [c])"
proof -
  obtain D x xs r where R: "cl_repr (\<lambda>a. a < 2) (cq_list q) (D, x # xs, r)" "finite D" "D \<subseteq> dom (cq_cmd q)"
      "map (cq_cmd q) xs = map Some cs"
    using H by (auto simp: queue_holds_def)
  obtain out D' r' where cyc: "cq_cycle (\<lambda>a. a < 2) D r = (out, D', r')"
    by (metis prod_cases3)
  note mem = cl_repr_members [OF R(1)]
  have out: "D' \<subseteq> D" "\<And>a. out = Some a \<Longrightarrow> a \<in> D' \<and> a \<in> set r \<and> a \<notin> set r'"
    using cq_cycle_out [OF cyc] mem by auto
  obtain l where l: "cl_GetCycle (cq_list q) = Some (out, l)" "cl_repr (\<lambda>a. a < 2) l (D', x # xs, r')"
    using cl_GetCycle_repr [OF R(1) cyc] by auto
  define a where "a = (case out of Some a \<Rightarrow> a | None \<Rightarrow> fresh_cmd (cl_heap l))"
  define l1 where "l1 = (case out of Some _ \<Rightarrow> l
      | None \<Rightarrow> l\<lparr>cl_heap := (cl_heap l)(a \<mapsto> \<lparr>cn_next = None, cn_is_free = False\<rparr>)\<rparr>)"
  have fin: "finite D'"
    using out(1) R(2) by (rule finite_subset)
  have a: "a \<notin> set (x # xs)" "a \<notin> set r'"
    using out mem cl_repr_members [OF l(2)] fresh_cmd_fresh [OF l(2) fin] by (auto simp: a_def split: option.splits)
  have l1: "cl_repr (\<lambda>a. a < 2) l1 (insert a D', x # xs, r')"
  proof (cases out)
    case None
    then show ?thesis
      using cl_repr_alloc [OF l(2), of a] fresh_cmd_fresh [OF l(2) fin] by (simp add: a_def l1_def)
  next
    case (Some b)
    then show ?thesis
      using l(2) out(2) by (simp add: a_def l1_def insert_absorb)
  qed
  obtain l2 where l2: "cl_Insert a l1 = Some l2" "cl_repr (\<lambda>a. a < 2) l2 (insert a D', (x # xs) @ [a], r')"
    using cl_Insert_repr [OF l1 _ a] by auto
  let ?q = "q\<lparr>cq_cmd := (cq_cmd q)(a \<mapsto> c), cq_list := l2\<rparr>"
  have "map ((cq_cmd q)(a \<mapsto> c)) xs = map (cq_cmd q) xs"
    using a(1) by simp
  then have "queue_holds ?q (cs @ [c])"
    using l2(2) R(3,4) fin out(1)
    by (intro queue_holdsI [where D = "insert a D'" and x = x and xs = "xs @ [a]" and r = r']) auto
  moreover have "send_new_cmd room src type (\<lambda>_. c) w = Some (Post room (src, type) (set_queue src type ?q w))"
  proof (cases out)
    case None
    then show ?thesis
      using Q l(1) l2(1) by (simp add: send_new_cmd_def GetCmd_def SendCmd_def alloc_cmd_def a_def l1_def Let_def)
  next
    case (Some b)
    then have "b \<in> dom (cq_cmd q)"
      using out R(3) by blast
    then show ?thesis
      using Q l(1) l2(1) Some by (auto simp: send_new_cmd_def GetCmd_def SendCmd_def a_def l1_def)
  qed
  ultimately show ?thesis
    by blast
qed

section \<open>The queues of a worker\<close>

text \<open>
  The part of \<open>Pulse\<close> that serves the wake-up socket: all waiting datagrams are received, then one after the other
  names a queue to run.
\<close>

fun ProcessCmds :: "cmd_env \<Rightarrow> (nat \<times> int) list \<Rightarrow> worker \<Rightarrow> worker option" where
  "ProcessCmds e [] w = Some w"
| "ProcessCmds e (i # infos) w = do { w \<leftarrow> ProcessCmd e i w; ProcessCmds e infos w }"

definition receive_posts :: "worker \<Rightarrow> (nat \<times> int) list \<times> worker" where
  "receive_posts w = (nw_posts w, w\<lparr>nw_posts := []\<rparr>)"

definition serve_posts :: "cmd_env \<Rightarrow> worker \<Rightarrow> worker option" where
  "serve_posts e w = (case receive_posts w of (infos, w) \<Rightarrow> ProcessCmds e infos w)"

text \<open>The specification: every queue is a list of commands that wait.\<close>

record worker_spec =
  sp_pending :: "nat \<Rightarrow> int \<rightharpoonup> cmd list"
  sp_posts :: "(nat \<times> int) list"
  sp_net :: net

definition sp_set :: "nat \<Rightarrow> int \<Rightarrow> cmd list \<Rightarrow> worker_spec \<Rightarrow> worker_spec" where
  "sp_set src type cs a = a\<lparr>sp_pending := (sp_pending a)(src := (sp_pending a src)(type \<mapsto> cs))\<rparr>"

fun sp_handle :: "cmd_env \<Rightarrow> (nat \<times> int) list \<Rightarrow> worker_spec \<Rightarrow> worker_spec option" where
  "sp_handle e [] a = Some a"
| "sp_handle e ((src, type) # infos) a =
     (if src = 0xffffffff then sp_handle e infos a
      else case sp_pending a src type of
          None \<Rightarrow> sp_handle e infos a
        | Some cs \<Rightarrow> do {
            st \<leftarrow> run_cmds e cs (sp_net a);
            sp_handle e infos (sp_set src type [] (a\<lparr>sp_net := st\<rparr>)) })"

datatype worker_op = WSetup nat int | WSend bool nat int cmd | WServe

fun worker_step :: "cmd_env \<Rightarrow> worker_op \<Rightarrow> worker \<Rightarrow> (unit \<times> worker) option" where
  "worker_step e (WSetup src type) w = Some ((), SetupQueue src type w)"
| "worker_step e (WSend room src type c) w = map_option (Pair ()) (send_new_cmd room src type (\<lambda>_. c) w)"
| "worker_step e WServe w = map_option (Pair ()) (serve_posts e w)"

fun worker_spec_step :: "cmd_env \<Rightarrow> worker_op \<Rightarrow> worker_spec \<Rightarrow> (unit \<times> worker_spec) option" where
  "worker_spec_step e (WSetup src type) a =
     Some ((), if sp_pending a src type = None then sp_set src type [] a else a)"
| "worker_spec_step e (WSend room src type c) a =
     Some ((), case sp_pending a src type of
         None \<Rightarrow> a
       | Some cs \<Rightarrow> (sp_set src type (cs @ [c]) a)\<lparr>sp_posts := sp_posts a @ (if room then [(src, type)] else [])\<rparr>)"
| "worker_spec_step e WServe a = map_option (Pair ()) (sp_handle e (sp_posts a) (a\<lparr>sp_posts := []\<rparr>))"

definition worker_repr :: "worker \<Rightarrow> worker_spec \<Rightarrow> bool" where
  "worker_repr w a \<longleftrightarrow> nw_net w = sp_net a \<and> nw_posts w = sp_posts a \<and>
     (\<forall>src type. rel_option queue_holds (nw_queues w src type) (sp_pending a src type))"

lemma worker_reprD:
  "worker_repr w a \<Longrightarrow> sp_pending a src type = None \<longleftrightarrow> nw_queues w src type = None"
  "worker_repr w a \<Longrightarrow> sp_pending a src type = Some cs \<Longrightarrow> \<exists>q. nw_queues w src type = Some q \<and> queue_holds q cs"
  by (auto simp: worker_repr_def option_rel_Some2 dest: spec2 [of _ src type])

lemma worker_repr_set:
  assumes "worker_repr w a" and "queue_holds q cs"
  shows "worker_repr (set_queue src type q w) (sp_set src type cs a)"
  using assms by (auto simp: worker_repr_def set_queue_def sp_set_def)

lemma worker_repr_posts:
  "worker_repr w a \<Longrightarrow> worker_repr (w\<lparr>nw_posts := ps\<rparr>) (a\<lparr>sp_posts := ps\<rparr>)"
  "worker_repr w a \<Longrightarrow> worker_repr (w\<lparr>nw_net := st\<rparr>) (a\<lparr>sp_net := st\<rparr>)"
  by (auto simp: worker_repr_def)

lemma ProcessCmds_repr:
  assumes "worker_repr w a" and "sp_handle e infos a = Some a'"
  shows "\<exists>w'. ProcessCmds e infos w = Some w' \<and> worker_repr w' a'"
  using assms
proof (induction e infos a arbitrary: w rule: sp_handle.induct)
  case (2 e src type infos a)
  show ?case
  proof (cases "src = 0xffffffff \<or> sp_pending a src type = None")
    case True
    then have "ProcessCmd e (src, type) w = Some w" "sp_handle e infos a = Some a'"
      using 2(4,5) worker_reprD(1) [OF 2(4), of src type] by (auto simp: ProcessCmd_def split: option.splits)
    then show ?thesis
      using 2(1,2) 2(4) True by (cases "src = 0xffffffff") auto
  next
    case False
    then obtain cs where cs: "sp_pending a src type = Some cs" "src \<noteq> 0xffffffff"
      by auto
    obtain q where q: "nw_queues w src type = Some q" "queue_holds q cs"
      using worker_reprD(2) [OF 2(4) cs(1)] by auto
    obtain st where st: "run_cmds e cs (sp_net a) = Some st"
        "sp_handle e infos (sp_set src type [] (a\<lparr>sp_net := st\<rparr>)) = Some a'"
      using 2(5) cs by (auto elim: bind_SomeE)
    obtain q' where q': "process_loop e q (nw_net w) = Some (q', st)" "queue_holds q' []"
      using process_loop_holds [OF q(2), of e "nw_net w" st] st(1) 2(4) by (auto simp: worker_repr_def)
    let ?w = "set_queue src type q' (w\<lparr>nw_net := st\<rparr>)"
    have "ProcessCmd e (src, type) w = Some ?w"
      using cs q q' by (simp add: ProcessCmd_def)
    moreover have "worker_repr ?w (sp_set src type [] (a\<lparr>sp_net := st\<rparr>))"
      using worker_repr_set worker_repr_posts(2) 2(4) q'(2) by blast
    ultimately show ?thesis
      using 2(3) [OF cs(2,1) st(1), of ?w] st(2) by simp
  qed
qed simp

lemma worker_step_repr:
  assumes R: "worker_repr w a" and S: "worker_spec_step e x a = Some (r, a')"
  shows "\<exists>w'. worker_step e x w = Some (r, w') \<and> worker_repr w' a'"
proof (cases x)
  case (WSetup src type)
  then show ?thesis
    using S R worker_reprD(1) [OF R, of src type] worker_repr_set [OF R new_queue_holds]
    by (auto simp: SetupQueue_def)
next
  case (WSend room src type c)
  show ?thesis
  proof (cases "sp_pending a src type")
    case None
    then show ?thesis
      using WSend S R worker_reprD(1) [OF R, of src type] by (simp add: send_new_cmd_def GetCmd_def)
  next
    case (Some cs)
    then obtain q where q: "nw_queues w src type = Some q" "queue_holds q cs"
      using worker_reprD(2) [OF R] by blast
    obtain q' where q': "send_new_cmd room src type (\<lambda>_. c) w = Some (Post room (src, type) (set_queue src type q' w))"
        "queue_holds q' (cs @ [c])"
      using send_new_cmd_holds [OF q] by blast
    have "worker_repr (set_queue src type q' w) (sp_set src type (cs @ [c]) a)"
      by (rule worker_repr_set [OF R q'(2)])
    then show ?thesis
      using WSend S q' Some R by (auto simp: Post_def worker_repr_def)
  qed
next
  case WServe
  then show ?thesis
    using S ProcessCmds_repr [OF worker_repr_posts(1) [OF R, of "[]"]] R
    by (auto simp: serve_posts_def receive_posts_def worker_repr_def)
qed

interpretation worker: simulation worker_repr "worker_step e" "worker_spec_step e"
  by unfold_locales (rule worker_step_repr)

section \<open>No command is lost\<close>

definition sp_posted :: "worker_spec \<Rightarrow> bool" where
  "sp_posted a \<longleftrightarrow> (\<forall>i\<in>set (sp_posts a). fst i \<noteq> 0xffffffff) \<and>
     (\<forall>src type cs. sp_pending a src type = Some cs \<longrightarrow> cs = [] \<or> (src, type) \<in> set (sp_posts a))"

fun op_posted :: "worker_op \<Rightarrow> bool" where
  "op_posted (WSend room src type c) \<longleftrightarrow> room \<and> src \<noteq> 0xffffffff"
| "op_posted _ \<longleftrightarrow> True"

lemma sp_set_sel [simp]:
  "sp_pending (sp_set src type cs a) s t = (if s = src \<and> t = type then Some cs else sp_pending a s t)"
  "sp_posts (sp_set src type cs a) = sp_posts a" "sp_net (sp_set src type cs a) = sp_net a"
  by (simp_all add: sp_set_def)

lemma sp_handle_spec:
  assumes "sp_handle e infos a = Some a'" and "\<forall>i\<in>set infos. fst i \<noteq> 0xffffffff"
  shows "sp_posts a' = sp_posts a \<and> (\<forall>s t. sp_pending a' s t =
     (if (s, t) \<in> set infos then map_option (\<lambda>_. []) (sp_pending a s t) else sp_pending a s t))"
  using assms
proof (induction e infos a rule: sp_handle.induct)
  case (2 e src type infos a)
  then show ?case
    by (cases "sp_pending a src type") (auto elim!: bind_SomeE)
qed simp

lemma sp_postedD:
  "sp_posted a \<Longrightarrow> sp_pending a src type = Some cs \<Longrightarrow> cs = [] \<or> (src, type) \<in> set (sp_posts a)"
  "sp_posted a \<Longrightarrow> \<forall>i\<in>set (sp_posts a). fst i \<noteq> 0xffffffff"
  unfolding sp_posted_def by blast+

lemma sp_served:
  assumes "sp_posted a" and "worker_spec_step e WServe a = Some (r, a')"
  shows "sp_posts a' = [] \<and> (\<forall>src type cs. sp_pending a' src type = Some cs \<longrightarrow> cs = [])"
proof -
  have "sp_handle e (sp_posts a) (a\<lparr>sp_posts := []\<rparr>) = Some a'"
    using assms(2) by auto
  note H = sp_handle_spec [OF this sp_postedD(2) [OF assms(1)]]
  have "cs = []" if "sp_pending a' src type = Some cs" for src type cs
    using that H sp_postedD(1) [OF assms(1), of src type] by (auto split: if_splits)
  then show ?thesis
    using H by simp
qed

lemma sp_posted_step:
  assumes P: "sp_posted a" and "op_posted x" and "worker_spec_step e x a = Some (r, a')"
  shows "sp_posted a'"
proof (cases "x = WServe")
  case True
  then show ?thesis
    using sp_served [OF P, of e r a'] assms(3) unfolding sp_posted_def by auto
next
  case False
  have "cs = [] \<or> (src, type) \<in> set (sp_posts a')" if "sp_pending a' src type = Some cs" for src type cs
    using that False assms(2,3) sp_postedD(1) [OF P, of src type cs] by (cases x) (auto split: if_splits option.splits)
  moreover have "\<forall>i\<in>set (sp_posts a'). fst i \<noteq> 0xffffffff"
    using False assms(2,3) sp_postedD(2) [OF P] by (cases x) (auto split: if_splits option.splits)
  ultimately show ?thesis
    unfolding sp_posted_def by blast
qed

lemma sp_posted_run:
  assumes "run_ops (worker_spec_step e) es a = Some (rs, a')" and "sp_posted a" and "\<forall>x\<in>set es. op_posted x"
  shows "sp_posted a'"
  using assms
proof (induction es arbitrary: a rs)
  case (Cons x es)
  obtain r a1 rs' where "worker_spec_step e x a = Some (r, a1)" "run_ops (worker_spec_step e) es a1 = Some (rs', a')"
    using run_ops_ConsE [OF Cons.prems(1)] .
  then show ?case
    using Cons.IH Cons.prems(2,3) sp_posted_step by auto
qed simp

lemma run_ops_snoc:
  "run_ops st (es @ [x]) s = Some (rs, s') \<Longrightarrow>
     \<exists>rs1 s1 r. run_ops st es s = Some (rs1, s1) \<and> st x s1 = Some (r, s')"
proof (induction es arbitrary: s rs)
  case (Cons y es)
  then obtain r s1 rs' where "st y s = Some (r, s1)" "run_ops st (es @ [x]) s1 = Some (rs', s')"
    by (metis append_Cons run_ops_ConsE)
  then show ?case
    using Cons.IH by fastforce
qed (auto elim!: bind_SomeE)

text \<open>
  C9: The queues between the workers deliver commands in order and exactly once. In any history of set-ups of
  queues, sent commands and rounds of the event loop, in which the specification, a list of waiting commands for every
  pair of sender and type, is defined, the linked lists with their reused nodes are never
  followed wrongly, each round runs the commands of the queues it was woken for first in first out on the
  same network state, and what was sent and not run waits in order.
\<close>
theorem commands_in_order:
  assumes "worker_repr w a" and "run_ops (worker_spec_step e) es a = Some (rs, a')"
  shows "\<exists>w'. run_ops (worker_step e) es w = Some (rs, w') \<and> nw_net w' = sp_net a' \<and> nw_posts w' = sp_posts a' \<and>
     (\<forall>src type. rel_option queue_holds (nw_queues w' src type) (sp_pending a' src type))"
  using worker.run [OF assms] unfolding worker_repr_def by blast

text \<open>
  C20: As long as the wake-up socket takes the datagrams, no command is forgotten: from a state in which every waiting
  command has its datagram under way, whatever is sent, the next round of the receiving worker's loop leaves no command
  in any queue and no datagram behind.
\<close>
theorem no_command_forgotten:
  assumes "worker_repr w a" and "sp_posted a" and "\<forall>x\<in>set es. op_posted x"
    and "run_ops (worker_spec_step e) (es @ [WServe]) a = Some (rs, a')"
  shows "\<exists>w'. run_ops (worker_step e) (es @ [WServe]) w = Some (rs, w') \<and> nw_posts w' = [] \<and>
     (\<forall>src type. pred_option (\<lambda>q. queue_holds q []) (nw_queues w' src type))"
proof -
  obtain rs1 a1 r where a1: "run_ops (worker_spec_step e) es a = Some (rs1, a1)" "worker_spec_step e WServe a1 = Some (r, a')"
    using run_ops_snoc [OF assms(4)] by blast
  have served: "sp_posts a' = []" "\<And>src type cs. sp_pending a' src type = Some cs \<Longrightarrow> cs = []"
    using sp_served [OF sp_posted_run [OF a1(1) assms(2,3)] a1(2)] by auto
  obtain w' where w': "run_ops (worker_step e) (es @ [WServe]) w = Some (rs, w')" "worker_repr w' a'"
    using worker.run [OF assms(1,4)] by blast
  have "pred_option (\<lambda>q. queue_holds q []) (nw_queues w' src type)" for src type
    using w'(2) served(2) [of src type] by (cases "sp_pending a' src type") (auto simp: worker_repr_def option_rel_Some2 dest!: spec2 [of _ src type])
  then show ?thesis
    using w' served(1) by (auto simp: worker_repr_def)
qed

section \<open>Examples\<close>

definition demo_proc :: bproc where
  "demo_proc = \<lparr>bp_ex = False, bp_io = None, bp_recv = 4096, bp_send = 65536, bp_errno = 0,
     bp_status = PROCESS_NET_STATUS_DISCONNECT, bp_write = False, bp_with_me = True, bp_out = ib_new, bp_in = ib_new\<rparr>"

text \<open>An application with one process per port, at the address of that number.\<close>

definition demo_env :: cmd_env where
  "demo_env = \<lparr>ce_tcp = (\<lambda>port st. if nt_proc st port = None
         then (Some port, st\<lparr>nt_proc := (nt_proc st)(port \<mapsto> demo_proc)\<rparr>) else (None, st)),
     ce_unix = (\<lambda>_ st. (None, st)), ce_app = (\<lambda>_ _ st. Some (True, st)), ce_peer = (\<lambda>_. []),
     ce_fresh = (\<lambda>st. if nt_hand st 31 = None then 31 else 32)\<rparr>"

definition demo_worker :: worker where
  "demo_worker = \<lparr>nw_id = 7, nw_status = WORKER_STATUS_RUN, nw_net = (demo_net [])\<lparr>nt_open := {5, 6, 8}\<rparr>,
     nw_queues = (\<lambda>_ _. None), nw_posts = []\<rparr>"

definition demo_spec :: worker_spec where
  "demo_spec = \<lparr>sp_pending = (\<lambda>_ _. None), sp_posts = [], sp_net = (demo_net [])\<lparr>nt_open := {5, 6, 8}\<rparr>\<rparr>"

lemma demo_worker_repr: "worker_repr demo_worker demo_spec" "sp_posted demo_spec"
  by (simp_all add: worker_repr_def demo_worker_def demo_spec_def sp_posted_def)

definition demo_ops :: "worker_op list" where
  "demo_ops = [WSetup 3 9, WSend True 3 9 (TCPAcceptCmd 6 80), WSend True 3 9 (TCPAcceptCmd 8 80), WServe]"

lemma demo_run:
  "\<exists>a. run_ops (worker_spec_step demo_env) demo_ops demo_spec = Some ([(), (), (), ()], a) \<and>
     nt_open (sp_net a) = {5, 6} \<and> nt_epoll (sp_net a) 6 = Some (31, False)"
  by (auto simp: demo_ops_def demo_spec_def demo_env_def demo_net_def demo_proc_def TCPAcceptCmd_Process_def set_ex_def set_proc_def
      new_TCPCarrier_def new_carrier_def new_IOHandler_def EnableReadData_def epoll_add_def SetIOHandler_def heap_simps
      SetNetStatus_def AttachNet_def CloseFd_def)

text \<open>Of two connections to the same port the first gets the process, the second is refused and closed.\<close>

lemma commands_in_order_witness:
  "\<exists>w'. run_ops (worker_step demo_env) demo_ops demo_worker = Some ([(), (), (), ()], w') \<and>
     nt_open (nw_net w') = {5, 6} \<and> nt_epoll (nw_net w') 6 = Some (31, False)"
proof -
  obtain a where a: "run_ops (worker_spec_step demo_env) demo_ops demo_spec = Some ([(), (), (), ()], a)"
    "nt_open (sp_net a) = {5, 6}" "nt_epoll (sp_net a) 6 = Some (31, False)"
    using demo_run by blast
  then show ?thesis
    using commands_in_order [OF demo_worker_repr(1) a(1)] by auto
qed

lemma no_command_forgotten_witness:
  "\<exists>w'. run_ops (worker_step demo_env) (butlast demo_ops @ [WServe]) demo_worker = Some ([(), (), (), ()], w') \<and>
     nw_posts w' = [] \<and> pred_option (\<lambda>q. queue_holds q []) (nw_queues w' 3 9)"
proof -
  obtain a where a: "run_ops (worker_spec_step demo_env) demo_ops demo_spec = Some ([(), (), (), ()], a)"
    using demo_run by blast
  have ops: "butlast demo_ops @ [WServe] = demo_ops" "\<forall>x\<in>set (butlast demo_ops). op_posted x"
    by (simp_all add: demo_ops_def)
  show ?thesis
    using no_command_forgotten [OF demo_worker_repr ops(2), of demo_env] a ops(1) by auto
qed

text \<open>
  The datagram is what counts: if the wake-up socket has no room, the command stays in its queue, and serving
  the worker's datagrams does not run it.
\<close>

lemma lost_wake_up:
  assumes "worker_repr w a" and "sp_pending a src type = Some cs" and "sp_posts a = []"
  shows "\<exists>w'. run_ops (worker_step e) [WSend False src type c, WServe] w = Some ([(), ()], w') \<and>
     rel_option queue_holds (nw_queues w' src type) (Some (cs @ [c])) \<and> nw_posts w' = []"
proof -
  let ?a = "(sp_set src type (cs @ [c]) a)\<lparr>sp_posts := []\<rparr>"
  have "run_ops (worker_spec_step e) [WSend False src type c, WServe] a = Some ([(), ()], ?a)"
    using assms(2,3) by (simp add: sp_set_def)
  then obtain w' where "run_ops (worker_step e) [WSend False src type c, WServe] w = Some ([(), ()], w')" "worker_repr w' ?a"
    using worker.run [OF assms(1)] by blast
  then show ?thesis
    by (auto simp: worker_repr_def simp del: run_ops.simps dest!: spec2 [of _ src type])
qed

end
