(* ===== verification/WorkerEx.thy ===== *)
theory WorkerEx
  imports NetWorker
begin

text \<open>
  What an application calls on its worker (\<open>src/eventdrive/baseworkerex.cpp\<close>) and the acceptors
  (\<open>epoll/tcpacceptor.cpp\<close>, \<open>epoll/unixacceptor.cpp\<close>): listening, accepting and dealing the accepted connections out to the
  other workers, connecting, datagram sockets, pipes and the transfer of a live connection to another worker. A
  server is the map of its workers; an acceptor is a handler of its worker's net and the fields below. A descriptor that is
  handed to another worker is open in that worker's view.
\<close>

section \<open>Acceptors\<close>

definition BASECMD_TYPE :: int where "BASECMD_TYPE = 0x7fffffff"
definition TCP_ACCEPTCMD_TYPE :: int where "TCP_ACCEPTCMD_TYPE = BASECMD_TYPE - 1"
definition UNIX_ACCEPTCMD_TYPE :: int where "UNIX_ACCEPTCMD_TYPE = BASECMD_TYPE - 2"
definition TCP_TRANSFERCMD_TYPE :: int where "TCP_TRANSFERCMD_TYPE = BASECMD_TYPE - 3"
definition UNIX_TRANSFERCMD_TYPE :: int where "UNIX_TRANSFERCMD_TYPE = BASECMD_TYPE - 4"

text \<open>\<open>ac_where\<close> is \<open>port_\<close> of a TCP acceptor or \<open>unix_path_\<close> of a UNIX one; \<open>other_count_\<close> is the length of \<open>ac_others\<close>.\<close>

datatype accept_at = AtPort nat | AtPath string

record acceptor =
  ac_where :: accept_at
  ac_worker :: nat
  ac_others :: "nat list"
  ac_count :: nat

record server =
  sv_workers :: "nat \<rightharpoonup> worker"
  sv_acceptors :: "nat \<rightharpoonup> acceptor"

definition put_worker :: "nat \<Rightarrow> worker \<Rightarrow> server \<Rightarrow> server" where
  "put_worker i w sv = sv\<lparr>sv_workers := (sv_workers sv)(i \<mapsto> w)\<rparr>"

definition on_net :: "nat \<Rightarrow> (net \<Rightarrow> ('r \<times> net) option) \<Rightarrow> server \<Rightarrow> ('r \<times> server) option" where
  "on_net i f sv = do { w \<leftarrow> sv_workers sv i; (r, st) \<leftarrow> f (nw_net w); Some (r, put_worker i (w\<lparr>nw_net := st\<rparr>) sv) }"

text \<open>The answers of the system to a \<open>Bind\<close>: the descriptor, the socket options and whether each further call succeeds.\<close>

record bind_calls =
  bi_socket :: int
  bi_options :: kernel
  bi_bind :: bool
  bi_getsockname :: bool
  bi_listen :: bool
  bi_chmod :: bool

definition acceptor_socket :: "bind_calls \<Rightarrow> nat \<Rightarrow> net \<Rightarrow> net option" where
  "acceptor_socket c a st =
     set_hand a (\<lambda>h. h\<lparr>ih_fd := bi_socket c\<rparr>) (if 0 \<le> bi_socket c then open_fd (bi_socket c) st else st)"

definition TCPAcceptor_Bind :: "bind_calls \<Rightarrow> nat \<Rightarrow> nat \<Rightarrow> net \<Rightarrow> (bool \<times> net) option" where
  "TCPAcceptor_Bind c port a st =
     do { st \<leftarrow> acceptor_socket c a st;
          Some (if bi_socket c < 0 then False
                else if \<not> fst (setFdOptions (bi_options c) True []) then False
                else if \<not> bi_bind c then False
                else if port = 0 \<and> \<not> bi_getsockname c then False
                else bi_listen c, st) }"

definition UNIXAcceptor_Bind :: "bind_calls \<Rightarrow> nat \<Rightarrow> net \<Rightarrow> (bool \<times> net) option" where
  "UNIXAcceptor_Bind c a st =
     do { st \<leftarrow> acceptor_socket c a st;
          Some (if bi_socket c < 0 then False
                else if \<not> fst (setFdOptions (bi_options c) False []) then False
                else if \<not> bi_bind c then False
                else if \<not> bi_listen c then False
                else bi_chmod c, st) }"

definition StartAccept :: "nat \<Rightarrow> net \<Rightarrow> (bool \<times> net) option" where
  "StartAccept a st = EnableAcceptConnections a st"

text \<open>\<open>other_[accepted_count_++ % other_count_]\<close>; with no other worker the remainder has no value.\<close>

definition next_other :: "acceptor \<Rightarrow> (nat \<times> acceptor) option" where
  "next_other ac =
     (if ac_others ac = [] then None
      else Some (ac_others ac ! (ac_count ac mod length (ac_others ac)), ac\<lparr>ac_count := u32 (ac_count ac + 1)\<rparr>))"

definition accept_cmd :: "accept_at \<Rightarrow> int \<Rightarrow> int \<times> cmd" where
  "accept_cmd at fd =
     (case at of AtPort port \<Rightarrow> (TCP_ACCEPTCMD_TYPE, TCPAcceptCmd fd port)
      | AtPath path \<Rightarrow> (UNIX_ACCEPTCMD_TYPE, UNIXAcceptCmd fd path))"

text \<open>
  The answers to an \<open>Accept\<close>: the descriptor, its socket options, and whether the wake-up socket of the chosen
  worker has room. The command is handed to the worker together with the descriptor.
\<close>

record accept_calls =
  al_fd :: int
  al_options :: kernel
  al_room :: bool

definition hand_over :: "bool \<Rightarrow> nat \<Rightarrow> int \<Rightarrow> (cmd option \<Rightarrow> cmd) \<Rightarrow> int \<Rightarrow> nat \<Rightarrow> server \<Rightarrow> server option" where
  "hand_over room src type fill fd dst sv =
     do { d \<leftarrow> sv_workers sv dst;
          d \<leftarrow> send_new_cmd room src type fill (d\<lparr>nw_net := (if 0 \<le> fd then open_fd fd (nw_net d) else nw_net d)\<rparr>);
          Some (put_worker dst d sv) }"

definition Accept :: "accept_calls \<Rightarrow> nat \<Rightarrow> server \<Rightarrow> (bool \<times> server) option" where
  "Accept c a sv =
     do { ac \<leftarrow> sv_acceptors sv a;
          w \<leftarrow> sv_workers sv (ac_worker ac);
          if al_fd c < 0 then Some (False, sv)
          else if \<not> fst (setFdOptions (al_options c) (case ac_where ac of AtPort _ \<Rightarrow> True | AtPath _ \<Rightarrow> False) [])
          then Some (False, sv)
          else if nw_status w = WORKER_STATUS_RUN
          then do {
            (dst, ac) \<leftarrow> next_other ac;
            let (type, cmd) = accept_cmd (ac_where ac) (al_fd c);
            sv \<leftarrow> hand_over (al_room c) (nw_id w) type (\<lambda>_. cmd) (al_fd c) dst
                     (sv\<lparr>sv_acceptors := (sv_acceptors sv)(a \<mapsto> ac)\<rparr>);
            Some (True, sv) }
          else Some (True, sv) }"

text \<open>\<open>IsAlive\<close> is not implemented in the sources and says true: a failed accept keeps the acceptor.\<close>

definition IsAlive :: bool where
  "IsAlive = True"

definition acceptor_OnEvent :: "accept_calls \<Rightarrow> nat \<Rightarrow> server \<Rightarrow> (bool \<times> server) option" where
  "acceptor_OnEvent c a sv = do { (ok, sv) \<leftarrow> Accept c a sv; Some (if \<not> ok then IsAlive else True, sv) }"

text \<open>
  The acceptor of a UNIX path is a class of its own with the same steps (\<open>src/eventdrive/epoll/unixacceptor.cpp\<close>): it does not
  ask for \<open>TCP_NODELAY\<close> and its command carries the path. \<^term>\<open>None\<close> also stands for an acceptor of the other class.
\<close>

definition UNIXAcceptor_Accept :: "accept_calls \<Rightarrow> nat \<Rightarrow> server \<Rightarrow> (bool \<times> server) option" where
  "UNIXAcceptor_Accept c a sv =
     do { ac \<leftarrow> sv_acceptors sv a;
          unix_path \<leftarrow> (case ac_where ac of AtPath path \<Rightarrow> Some path | AtPort _ \<Rightarrow> None);
          w \<leftarrow> sv_workers sv (ac_worker ac);
          if al_fd c < 0 then Some (False, sv)
          else if \<not> fst (setFdOptions (al_options c) False []) then Some (False, sv)
          else if nw_status w \<noteq> WORKER_STATUS_RUN then Some (True, sv)
          else do {
            (dst, ac) \<leftarrow> next_other ac;
            sv \<leftarrow> hand_over (al_room c) (nw_id w) UNIX_ACCEPTCMD_TYPE (\<lambda>_. UNIXAcceptCmd (al_fd c) unix_path) (al_fd c) dst
                     (sv\<lparr>sv_acceptors := (sv_acceptors sv)(a \<mapsto> ac)\<rparr>);
            Some (True, sv) } }"

definition UNIXAcceptor_OnEvent :: "accept_calls \<Rightarrow> nat \<Rightarrow> server \<Rightarrow> (bool \<times> server) option" where
  "UNIXAcceptor_OnEvent c a sv =
     do { (ok, sv) \<leftarrow> UNIXAcceptor_Accept c a sv; Some (if \<not> ok then IsAlive else True, sv) }"

text \<open>What is shown of \<open>Accept\<close> holds of both classes: the other definitions choose by \<open>ac_where\<close>.\<close>

lemma UNIXAcceptor_Accept_eq:
  assumes "sv_acceptors sv a = Some ac" and "ac_where ac = AtPath path"
  shows "UNIXAcceptor_Accept c a sv = Accept c a sv"
  using assms
  by (cases "sv_workers sv (ac_worker ac)"; cases "next_other ac")
    (auto simp: UNIXAcceptor_Accept_def Accept_def accept_cmd_def next_other_def split: if_splits)

lemma UNIXAcceptor_OnEvent_eq:
  assumes "sv_acceptors sv a = Some ac" and "ac_where ac = AtPath path"
  shows "UNIXAcceptor_OnEvent c a sv = acceptor_OnEvent c a sv"
  using UNIXAcceptor_Accept_eq [OF assms] by (simp add: UNIXAcceptor_OnEvent_def acceptor_OnEvent_def)

section \<open>Queues between workers\<close>

text \<open>\<open>EventManager::SetupQueue\<close>: a queue in every receiver for the commands of the sender.\<close>

fun setup_queues :: "nat \<Rightarrow> nat list \<Rightarrow> int \<Rightarrow> server \<Rightarrow> server option" where
  "setup_queues src [] type sv = Some sv"
| "setup_queues src (dst # dsts) type sv =
     do { w \<leftarrow> sv_workers sv src;
          d \<leftarrow> sv_workers sv dst;
          setup_queues src dsts type (put_worker dst (SetupQueue (nw_id w) type d) sv) }"

fun setup_queues_all :: "nat list \<Rightarrow> nat list \<Rightarrow> int \<Rightarrow> server \<Rightarrow> server option" where
  "setup_queues_all [] dsts type sv = Some sv"
| "setup_queues_all (src # srcs) dsts type sv =
     do { sv \<leftarrow> setup_queues src dsts type sv; setup_queues_all srcs dsts type sv }"

definition CreateTCPTransfer :: "nat \<Rightarrow> nat list \<Rightarrow> server \<Rightarrow> server option" where
  "CreateTCPTransfer me others sv = setup_queues me others TCP_TRANSFERCMD_TYPE sv"

definition CreateUNIXTransfer :: "nat \<Rightarrow> nat list \<Rightarrow> server \<Rightarrow> server option" where
  "CreateUNIXTransfer me others sv = setup_queues me others UNIX_TRANSFERCMD_TYPE sv"

section \<open>Listening\<close>

definition listen_at :: "bind_calls \<Rightarrow> accept_at \<Rightarrow> nat \<Rightarrow> nat \<Rightarrow> nat list \<Rightarrow> server \<Rightarrow> (bool \<times> server) option" where
  "listen_at c at a me others sv =
     do { (_, sv) \<leftarrow> on_net me (\<lambda>st. map_option (Pair ())
              (new_IOHandler a (-1) (case at of AtPort _ \<Rightarrow> IOHT_TCP_ACCEPTOR | AtPath _ \<Rightarrow> IOHT_UNIX_ACCEPTOR) False None [] [] st)) sv;
          (ok, sv) \<leftarrow> on_net me (case at of AtPort port \<Rightarrow> TCPAcceptor_Bind c port a | AtPath _ \<Rightarrow> UNIXAcceptor_Bind c a) sv;
          if \<not> ok then do {
            (_, sv) \<leftarrow> on_net me (\<lambda>st. map_option (Pair ()) (delete_handler a st)) sv;
            Some (False, sv) }
          else do {
            sv \<leftarrow> setup_queues me others (fst (accept_cmd at 0))
              (sv\<lparr>sv_acceptors := (sv_acceptors sv)(a \<mapsto> \<lparr>ac_where = at, ac_worker = me, ac_others = others, ac_count = 0\<rparr>)\<rparr>);
            Some (True, sv) } }"

text \<open>The constructor of the TCP acceptor asserts that \<open>inet_addr\<close> could read the address.\<close>

definition TCPListen :: "bind_calls \<Rightarrow> bool \<Rightarrow> nat \<Rightarrow> nat \<Rightarrow> nat \<Rightarrow> nat list \<Rightarrow> server \<Rightarrow> (bool \<times> server) option" where
  "TCPListen c address port a me others sv = (if \<not> address then None else listen_at c (AtPort port) a me others sv)"

definition UNIXListen :: "bind_calls \<Rightarrow> string \<Rightarrow> nat \<Rightarrow> nat \<Rightarrow> nat list \<Rightarrow> server \<Rightarrow> (bool \<times> server) option" where
  "UNIXListen c path a me others sv = listen_at c (AtPath path) a me others sv"

section \<open>Transfers\<close>

text \<open>
  A used command keeps its \<open>data_len_\<close> while its \<open>data_\<close> is null; \<open>size\<close> bytes of the input buffer replace both, no
  bytes replace neither.
\<close>

fun transfer_left :: "cmd option \<Rightarrow> byte list option \<times> nat" where
  "transfer_left (Some (TCPTransferCmd _ _ data len)) = (data, len)"
| "transfer_left (Some (UNIXTransferCmd _ _ data len)) = (data, len)"
| "transfer_left _ = (None, 0)"

definition transfer_data :: "byte list \<Rightarrow> cmd option \<Rightarrow> byte list option \<times> nat" where
  "transfer_data bs old = (if bs \<noteq> [] then (Some bs, length bs) else transfer_left old)"

definition transfer_bytes :: "nat \<Rightarrow> net \<Rightarrow> byte list option" where
  "transfer_bytes p st =
     do { b \<leftarrow> nt_proc st p;
          a \<leftarrow> bp_io b;
          _ \<leftarrow> nt_hand st a;
          cs \<leftarrow> mem_read (ib_pointer (bp_in b)) 0 (u32 (ib_avail (bp_in b)));
          cells_bytes cs }"

definition TCPTransfer :: "int \<Rightarrow> bool \<Rightarrow> nat \<Rightarrow> nat \<Rightarrow> nat \<Rightarrow> nat \<Rightarrow> server \<Rightarrow> server option" where
  "TCPTransfer dup room me dst port p sv =
     do { w \<leftarrow> sv_workers sv me;
          bs \<leftarrow> transfer_bytes p (nw_net w);
          hand_over room (nw_id w) TCP_TRANSFERCMD_TYPE
            (\<lambda>old. let (data, len) = transfer_data bs old in TCPTransferCmd dup port data len) dup dst sv }"

definition UNIXTransfer :: "int \<Rightarrow> bool \<Rightarrow> nat \<Rightarrow> nat \<Rightarrow> string \<Rightarrow> nat \<Rightarrow> server \<Rightarrow> server option" where
  "UNIXTransfer dup room me dst path p sv =
     do { w \<leftarrow> sv_workers sv me;
          bs \<leftarrow> transfer_bytes p (nw_net w);
          hand_over room (nw_id w) UNIX_TRANSFERCMD_TYPE
            (\<lambda>old. let (data, len) = transfer_data bs old in UNIXTransferCmd dup path data len) dup dst sv }"

section \<open>Connecting, datagram sockets and pipes\<close>

text \<open>
  \<open>worker_\<close> is null until the extension is added to the manager; the calls that look return false then.
\<close>

definition with_worker :: "(net \<Rightarrow> (bool \<times> net) option) \<Rightarrow> worker option \<Rightarrow> (bool \<times> worker option) option" where
  "with_worker f w =
     (case w of None \<Rightarrow> Some (False, None)
      | Some w \<Rightarrow> do { (ok, st) \<leftarrow> f (nw_net w); Some (ok, Some (w\<lparr>nw_net := st\<rparr>)) })"

definition TCPConnect ::
    "kernel \<Rightarrow> int option \<Rightarrow> bool \<Rightarrow> int \<times> nat \<Rightarrow> nat \<Rightarrow> nat \<Rightarrow> worker option \<Rightarrow> (bool \<times> worker option) option" where
  "TCPConnect kern socket address connect a p =
     with_worker (\<lambda>st. do { st \<leftarrow> set_ex p st; TCPConnector_Connect kern socket address connect a p st })"

definition UNIXConnect ::
    "kernel \<Rightarrow> int option \<Rightarrow> int \<times> nat \<Rightarrow> nat \<Rightarrow> nat \<Rightarrow> worker option \<Rightarrow> (bool \<times> worker option) option" where
  "UNIXConnect kern socket connect a p =
     with_worker (\<lambda>st. do { st \<leftarrow> set_ex p st; UNIXConnector_Connect kern socket connect a p st })"

definition UDPListenOrConnect ::
    "udp_socket_calls \<Rightarrow> nat option option \<Rightarrow> int \<Rightarrow> int \<Rightarrow> nat \<Rightarrow> nat \<Rightarrow> worker option \<Rightarrow> (bool \<times> worker option) option" where
  "UDPListenOrConnect c bind_ip rcv_buf snd_buf a p =
     with_worker (\<lambda>st. do {
       st \<leftarrow> set_ex p st;
       (r, st) \<leftarrow> UDPCarrier_Create c bind_ip 256 256 rcv_buf snd_buf a (Some p) st;
       Some (r \<noteq> None, st) })"

text \<open>
  The copy casts the handler of \<open>copy_process\<close> to a UDP carrier without a look at its type; \<open>dup\<close> is the
  duplicate of its descriptor.
\<close>

definition UDPListenOrConnect_copy ::
    "int \<Rightarrow> nat \<Rightarrow> nat \<Rightarrow> nat \<Rightarrow> worker option \<Rightarrow> (bool \<times> worker option) option" where
  "UDPListenOrConnect_copy dup copy_process a p =
     with_worker (\<lambda>st. do {
       st \<leftarrow> set_ex p st;
       b \<leftarrow> nt_proc st copy_process;
       h \<leftarrow> bp_io b;
       (r, st) \<leftarrow> UDPCarrier_Copy dup h a (Some p) st;
       Some (r \<noteq> None, st) })"

text \<open>\<open>fd\<close> is the answer of \<open>open\<close> on the pipe.\<close>

definition open_pipe :: "kernel \<Rightarrow> int \<Rightarrow> string \<Rightarrow> nat \<Rightarrow> nat \<Rightarrow> net \<Rightarrow> (bool \<times> net) option" where
  "open_pipe kern fd path a p st =
     (if fd = -1 then Some (False, st)
      else let st = open_fd fd st in
        if \<not> fst (setFdNonBlock kern []) then Some (False, CloseFd fd st)
        else do {
          st \<leftarrow> set_ex p st;
          st \<leftarrow> new_PIPECarrier a fd (Some p) path st;
          Some (True, st) })"

definition OpenPipeForRead :: "kernel \<Rightarrow> int \<Rightarrow> string \<Rightarrow> nat \<Rightarrow> nat \<Rightarrow> net \<Rightarrow> (bool \<times> net) option" where
  "OpenPipeForRead kern fd path a p st = open_pipe kern fd path a p st"

definition OpenPipeForWrite :: "kernel \<Rightarrow> int \<Rightarrow> string \<Rightarrow> nat \<Rightarrow> nat \<Rightarrow> net \<Rightarrow> (bool \<times> net) option" where
  "OpenPipeForWrite kern fd path a p st =
     do { (ok, st) \<leftarrow> open_pipe kern fd path a p st;
          if \<not> ok then Some (False, st)
          else do { (_, st) \<leftarrow> EnableWriteData a st; Some (True, st) } }"

section \<open>What a transferred connection brings along\<close>

lemma transfer_delivers:
  assumes p: "nt_proc st p = Some b" and wf: "ib_wf (bp_in b)" and room: "ib_published (bp_in b) + length bs \<le> 2 ^ 31"
  shows "\<exists>b' st'. transfer_input e p (Some bs) (length bs) st =
       do { (ok, st) \<leftarrow> ce_app e p (i32 (int (length bs))) st'; if ok then Some st else Free p st } \<and>
     nt_proc st' p = Some (b\<lparr>bp_in := b'\<rparr>) \<and> ib_wf b' \<and> ib_data b' = ib_data (bp_in b) @ bs"
proof -
  obtain b' where "ib_ReadFromBuffer (bp_in b) (map Some bs @ []) (length bs) = Some (True, b')" "ib_appended (bp_in b) bs b'"
    using ib_ReadFromBuffer_spec [OF wf room] by blast
  then show ?thesis
    using p
    by (intro exI [of _ b'] exI [of _ "st\<lparr>nt_proc := heap_mod p (\<lambda>b. b\<lparr>bp_in := b'\<rparr>) (nt_proc st)\<rparr>"])
      (simp add: transfer_input_def set_proc_def heap_simps ib_appended_def)
qed

text \<open>
  A command that has carried bytes once and is used again for a connection with none pending keeps the old length with a
  null pointer: the receiver copies from the null pointer.
\<close>

lemma reused_transfer_undefined:
  assumes "TCPTransferCmd_Process e fd port (Some bs) (length bs) st0 = Some (True, st1)"
    and p: "nt_proc st p = Some b" and wf: "ib_wf (bp_in b)" and n: "bs \<noteq> []" and room: "ib_published (bp_in b) + length bs \<le> 2 ^ 31"
  shows "\<exists>c. cmd_Process e (TCPTransferCmd fd port (Some bs) (length bs)) st0 = Some (True, c, st1) \<and>
     transfer_data [] (Some c) = (None, length bs) \<and> transfer_input e p None (length bs) st = None"
proof -
  obtain b1 where "ib_EnsureSize (bp_in b) (length bs) = Some (True, b1)"
    using ib_EnsureSize_spec [OF wf room] by blast
  then have "transfer_input e p None (length bs) st = None"
    using p n by (simp add: transfer_input_def ib_ReadFromBuffer_def mem_read_def)
  then show ?thesis
    using assms(1) by (simp add: transfer_data_def)
qed

section \<open>Connections are dealt out in turn\<close>

text \<open>What the \<open>k\<close>-th of the connections accepted from now on is for.\<close>

definition dealt_to :: "acceptor \<Rightarrow> nat \<Rightarrow> nat" where
  "dealt_to ac k = ac_others ac ! (u32 (ac_count ac + k) mod length (ac_others ac))"

definition dealt :: "acceptor \<Rightarrow> int list \<Rightarrow> nat \<Rightarrow> int list" where
  "dealt ac fds d = map fst (filter (\<lambda>(fd, k). dealt_to ac k = d) (zip fds [0..<length fds]))"

fun accept_all :: "accept_calls list \<Rightarrow> nat \<Rightarrow> server \<Rightarrow> (bool list \<times> server) option" where
  "accept_all [] a sv = Some ([], sv)"
| "accept_all (c # cs) a sv =
     do { (ok, sv) \<leftarrow> Accept c a sv; (oks, sv) \<leftarrow> accept_all cs a sv; Some (ok # oks, sv) }"

definition accepts_ok :: "accept_at \<Rightarrow> accept_calls \<Rightarrow> bool" where
  "accepts_ok at c \<longleftrightarrow> 0 \<le> al_fd c \<and> fst (setFdOptions (al_options c) (case at of AtPort _ \<Rightarrow> True | AtPath _ \<Rightarrow> False) [])"

text \<open>The queue of worker \<open>d\<close> for the connections of acceptor \<open>ac\<close> holds \<open>cs\<close>.\<close>

definition waits_at :: "nat \<Rightarrow> int \<Rightarrow> server \<Rightarrow> nat \<Rightarrow> cmd list \<Rightarrow> bool" where
  "waits_at src type sv d cs \<longleftrightarrow> (\<exists>w q. sv_workers sv d = Some w \<and> nw_queues w src type = Some q \<and> queue_holds q cs)"

definition accept_type :: "accept_at \<Rightarrow> int" where
  "accept_type at = fst (accept_cmd at 0)"

lemma accept_cmd_type: "fst (accept_cmd at fd) = accept_type at"
  by (cases at) (simp_all add: accept_cmd_def accept_type_def)

lemma Post_simps [simp]:
  "nw_queues (Post room i w) = nw_queues w" "nw_status (Post room i w) = nw_status w" "nw_id (Post room i w) = nw_id w"
  "nw_net (Post room i w) = nw_net w"
  by (simp_all add: Post_def)

lemma set_queue_keeps [simp]:
  "nw_status (set_queue src type q w) = nw_status w" "nw_id (set_queue src type q w) = nw_id w"
  by (simp_all add: set_queue_def)

lemma hand_over_waits:
  assumes "waits_at src type sv dst cs"
  shows "\<exists>sv'. hand_over room src type (\<lambda>_. c) fd dst sv = Some sv' \<and> waits_at src type sv' dst (cs @ [c]) \<and>
     sv_acceptors sv' = sv_acceptors sv \<and>
     (\<forall>d. d \<noteq> dst \<longrightarrow> sv_workers sv' d = sv_workers sv d) \<and>
     (\<forall>d w. sv_workers sv d = Some w \<longrightarrow> (\<exists>w'. sv_workers sv' d = Some w' \<and> nw_status w' = nw_status w \<and> nw_id w' = nw_id w \<and>
        nw_net w' = (if d = dst \<and> 0 \<le> fd then open_fd fd (nw_net w) else nw_net w)))"
proof -
  obtain w q where w: "sv_workers sv dst = Some w" "nw_queues w src type = Some q" "queue_holds q cs"
    using assms by (auto simp: waits_at_def)
  let ?w = "w\<lparr>nw_net := (if 0 \<le> fd then open_fd fd (nw_net w) else nw_net w)\<rparr>"
  have "nw_queues ?w src type = Some q"
    using w(2) by simp
  then obtain q' where q': "send_new_cmd room src type (\<lambda>_. c) ?w = Some (Post room (src, type) (set_queue src type q' ?w))"
      "queue_holds q' (cs @ [c])"
    using send_new_cmd_holds [OF _ w(3)] by blast
  then show ?thesis
    using w(1) by (auto simp: hand_over_def put_worker_def waits_at_def)
qed

lemma u32_add: "u32 (u32 m + n) = u32 (m + n)"
  by (simp add: u32_def mod_add_left_eq)

lemma dealt_Cons:
  "dealt ac (fd # fds) d = (if dealt_to ac 0 = d then [fd] else []) @ dealt (ac\<lparr>ac_count := u32 (ac_count ac + 1)\<rparr>) fds d"
proof -
  have "dealt_to (ac\<lparr>ac_count := u32 (ac_count ac + 1)\<rparr>) k = dealt_to ac (Suc k)" for k
    by (simp add: dealt_to_def u32_add)
  then have "filter (\<lambda>(fd, k). dealt_to ac k = d) (zip fds (map Suc [0..<length fds])) =
      map (map_prod id Suc) (filter (\<lambda>(fd, k). dealt_to (ac\<lparr>ac_count := u32 (ac_count ac + 1)\<rparr>) k = d) (zip fds [0..<length fds]))"
    by (simp add: zip_map2 filter_map comp_def case_prod_beta map_prod_def cong: filter_cong)
  then show ?thesis
    unfolding dealt_def by (simp add: upt_conv_Cons map_Suc_upt [symmetric] comp_def del: upt_Suc)
qed

lemma Accept_dealt:
  assumes ac: "sv_acceptors sv a = Some ac" "ac_others ac \<noteq> []" and w: "sv_workers sv (ac_worker ac) = Some w" "nw_status w = WORKER_STATUS_RUN"
    and Q: "\<forall>d\<in>set (ac_others ac). waits_at (nw_id w) (accept_type (ac_where ac)) sv d (cs d)"
    and c: "accepts_ok (ac_where ac) c" and count: "ac_count ac < 2 ^ 32"
  shows "\<exists>sv' w'. Accept c a sv = Some (True, sv') \<and>
     sv_acceptors sv' a = Some (ac\<lparr>ac_count := u32 (ac_count ac + 1)\<rparr>) \<and>
     sv_workers sv' (ac_worker ac) = Some w' \<and> nw_status w' = nw_status w \<and> nw_id w' = nw_id w \<and>
     (\<forall>d\<in>set (ac_others ac). waits_at (nw_id w) (accept_type (ac_where ac)) sv' d
        (cs d @ (if dealt_to ac 0 = d then [snd (accept_cmd (ac_where ac) (al_fd c))] else []))) \<and>
     (\<forall>d v. sv_workers sv d = Some v \<longrightarrow> (\<exists>v'. sv_workers sv' d = Some v' \<and>
        nw_net v' = (if dealt_to ac 0 = d then open_fd (al_fd c) (nw_net v) else nw_net v)))"
proof -
  let ?dst = "dealt_to ac 0" and ?ac = "ac\<lparr>ac_count := u32 (ac_count ac + 1)\<rparr>"
  let ?sv = "sv\<lparr>sv_acceptors := (sv_acceptors sv)(a \<mapsto> ?ac)\<rparr>"
  let ?type = "accept_type (ac_where ac)" and ?c = "snd (accept_cmd (ac_where ac) (al_fd c))"
  have dst: "next_other ac = Some (?dst, ?ac)" "?dst \<in> set (ac_others ac)"
    using ac(2) count by (simp_all add: next_other_def dealt_to_def u32_small)
  have "waits_at (nw_id w) ?type ?sv ?dst (cs ?dst)"
    using Q dst(2) by (auto simp: waits_at_def)
  from hand_over_waits [OF this, of "al_room c" ?c "al_fd c"] obtain sv' where
    sv': "hand_over (al_room c) (nw_id w) ?type (\<lambda>_. ?c) (al_fd c) ?dst ?sv = Some sv'"
      "waits_at (nw_id w) ?type sv' ?dst (cs ?dst @ [?c])" "sv_acceptors sv' = sv_acceptors ?sv"
      "\<forall>d. d \<noteq> ?dst \<longrightarrow> sv_workers sv' d = sv_workers sv d"
      "\<forall>d w. sv_workers sv d = Some w \<longrightarrow> (\<exists>w'. sv_workers sv' d = Some w' \<and> nw_status w' = nw_status w \<and> nw_id w' = nw_id w \<and>
         nw_net w' = (if d = ?dst \<and> 0 \<le> al_fd c then open_fd (al_fd c) (nw_net w) else nw_net w))"
    by auto
  have "Accept c a sv = Some (True, sv')"
    using ac(1) w c dst(1) sv'(1) by (simp add: Accept_def accepts_ok_def case_prod_beta accept_cmd_type)
  moreover have "waits_at (nw_id w) ?type sv' d (cs d @ (if ?dst = d then [?c] else []))" if "d \<in> set (ac_others ac)" for d
    using Q that sv'(2,4) by (cases "d = ?dst") (auto simp: waits_at_def)
  moreover have "\<exists>v'. sv_workers sv' d = Some v' \<and>
      nw_net v' = (if ?dst = d then open_fd (al_fd c) (nw_net v) else nw_net v)" if "sv_workers sv d = Some v" for d v
    using sv'(5) [rule_format, OF that] c by (cases "?dst = d") (auto simp: accepts_ok_def)
  ultimately show ?thesis
    using sv'(3,5) w(1) by fastforce
qed

lemma accept_all_dealt:
  assumes "sv_acceptors sv a = Some ac" and "ac_others ac \<noteq> []" and "ac_count ac < 2 ^ 32"
    and "sv_workers sv (ac_worker ac) = Some w" and "nw_status w = WORKER_STATUS_RUN"
    and "\<forall>d\<in>set (ac_others ac). waits_at (nw_id w) (accept_type (ac_where ac)) sv d (cs d)"
    and "\<forall>c\<in>set calls. accepts_ok (ac_where ac) c"
  shows "\<exists>sv'. accept_all calls a sv = Some (replicate (length calls) True, sv') \<and>
     (\<forall>d\<in>set (ac_others ac). waits_at (nw_id w) (accept_type (ac_where ac)) sv' d
        (cs d @ map (\<lambda>fd. snd (accept_cmd (ac_where ac) fd)) (dealt ac (map al_fd calls) d))) \<and>
     (\<forall>d v. sv_workers sv d = Some v \<longrightarrow> (\<exists>v'. sv_workers sv' d = Some v' \<and>
        nw_net v' = fold open_fd (dealt ac (map al_fd calls) d) (nw_net v)))"
  using assms
proof (induction calls arbitrary: sv ac w cs)
  case Nil
  then show ?case
    by (simp add: dealt_def)
next
  case (Cons c calls)
  let ?ac = "ac\<lparr>ac_count := u32 (ac_count ac + 1)\<rparr>"
  let ?cs = "\<lambda>d. cs d @ (if dealt_to ac 0 = d then [snd (accept_cmd (ac_where ac) (al_fd c))] else [])"
  have c: "accepts_ok (ac_where ac) c"
    using Cons.prems(7) by simp
  obtain sv1 w1 where step: "Accept c a sv = Some (True, sv1)" "sv_acceptors sv1 a = Some ?ac"
      "sv_workers sv1 (ac_worker ac) = Some w1" "nw_status w1 = nw_status w" "nw_id w1 = nw_id w"
      "\<forall>d\<in>set (ac_others ac). waits_at (nw_id w) (accept_type (ac_where ac)) sv1 d (?cs d)"
      "\<forall>d v. sv_workers sv d = Some v \<longrightarrow> (\<exists>v'. sv_workers sv1 d = Some v' \<and>
        nw_net v' = (if dealt_to ac 0 = d then open_fd (al_fd c) (nw_net v) else nw_net v))"
    using Accept_dealt [OF Cons.prems(1,2,4,5,6) c Cons.prems(3)] by blast
  obtain sv2 where "accept_all calls a sv1 = Some (replicate (length calls) True, sv2)"
      "\<forall>d\<in>set (ac_others ac). waits_at (nw_id w) (accept_type (ac_where ac)) sv2 d
        (?cs d @ map (\<lambda>fd. snd (accept_cmd (ac_where ac) fd)) (dealt ?ac (map al_fd calls) d))"
      "\<forall>d v. sv_workers sv1 d = Some v \<longrightarrow> (\<exists>v'. sv_workers sv2 d = Some v' \<and>
        nw_net v' = fold open_fd (dealt ?ac (map al_fd calls) d) (nw_net v))"
    using Cons.IH [OF step(2), of w1 ?cs] step Cons.prems u32_less [of "Suc (ac_count ac)"] by auto
  moreover from this(3) step(7) have "\<exists>v'. sv_workers sv2 d = Some v' \<and>
      nw_net v' = fold open_fd (dealt ac (map al_fd (c # calls)) d) (nw_net v)" if "sv_workers sv d = Some v" for d v
    using that by (fastforce simp: dealt_Cons)
  ultimately show ?case
    using step(1) by (auto simp: dealt_Cons)
qed

text \<open>
  C18: The acceptors deal connections out in turn. While the accepting worker runs, every accepted connection is
  handed to one of the workers it was started for, the \<open>k\<close>-th one to the worker at place \<open>count + k\<close> (of 32 bits)
  modulo their number, as a command at the end of that worker's queue for this acceptor's type; no connection
  is lost, handed over twice or overtaken by a later one.
\<close>
theorem accept_round_robin:
  assumes "sv_acceptors sv a = Some ac" and "ac_others ac \<noteq> []" and "ac_count ac < 2 ^ 32"
    and "sv_workers sv (ac_worker ac) = Some w" and "nw_status w = WORKER_STATUS_RUN"
    and "\<forall>d\<in>set (ac_others ac). waits_at (nw_id w) (accept_type (ac_where ac)) sv d (cs d)"
    and "\<forall>c\<in>set calls. accepts_ok (ac_where ac) c"
  shows "\<exists>sv'. accept_all calls a sv = Some (replicate (length calls) True, sv') \<and>
     (\<forall>d\<in>set (ac_others ac). waits_at (nw_id w) (accept_type (ac_where ac)) sv' d
        (cs d @ map (\<lambda>k. snd (accept_cmd (ac_where ac) (al_fd (calls ! k))))
           (filter (\<lambda>k. ac_others ac ! (u32 (ac_count ac + k) mod length (ac_others ac)) = d) [0..<length calls])))"
proof -
  have "zip (map al_fd calls) [0..<length calls] = map (\<lambda>k. (al_fd (calls ! k), k)) [0..<length calls]"
    by (rule nth_equalityI) auto
  then have "dealt ac (map al_fd calls) d = map (\<lambda>k. al_fd (calls ! k))
      (filter (\<lambda>k. ac_others ac ! (u32 (ac_count ac + k) mod length (ac_others ac)) = d) [0..<length calls])" for d
    by (simp add: dealt_def filter_map comp_def dealt_to_def)
  then show ?thesis
    using accept_all_dealt [OF assms] by (auto simp: comp_def)
qed

text \<open>Three connections on port 80, dealt to workers 2 and 3 by worker 2.\<close>

definition demo_acceptor :: acceptor where
  "demo_acceptor = \<lparr>ac_where = AtPort 80, ac_worker = 2, ac_others = [2, 3], ac_count = 0\<rparr>"

definition demo_server :: server where
  "demo_server = \<lparr>sv_workers = (\<lambda>i. if i < 4 then Some (SetupQueue 7 TCP_ACCEPTCMD_TYPE demo_worker) else None),
     sv_acceptors = [41 \<mapsto> demo_acceptor]\<rparr>"

definition demo_accept :: "int \<Rightarrow> accept_calls" where
  "demo_accept fd = \<lparr>al_fd = fd, al_options = (\<lambda>_ _. 0), al_room = True\<rparr>"

lemma demo_accepts_ok: "0 \<le> fd \<Longrightarrow> accepts_ok (AtPort 80) (demo_accept fd)"
  by (simp add: accepts_ok_def demo_accept_def setFdOptions_def setFd_defs)

lemma demo_server_waits: "d < 4 \<Longrightarrow> waits_at 7 (accept_type (AtPort 80)) demo_server d []"
  using new_queue_holds
  by (simp add: waits_at_def demo_server_def SetupQueue_def demo_worker_def accept_type_def accept_cmd_def)

lemma demo_deal:
  "filter (\<lambda>k. ac_others demo_acceptor ! (u32 (ac_count demo_acceptor + k) mod length (ac_others demo_acceptor)) = 2) [0..<3] = [0, 2]"
  "filter (\<lambda>k. ac_others demo_acceptor ! (u32 (ac_count demo_acceptor + k) mod length (ac_others demo_acceptor)) = 3) [0..<3] = [1]"
  by (simp_all add: demo_acceptor_def u32_def upt_rec)

lemma accept_round_robin_witness:
  "\<exists>sv'. accept_all (map demo_accept [6, 8, 9]) 41 demo_server = Some ([True, True, True], sv') \<and>
     waits_at 7 (accept_type (AtPort 80)) sv' 2 [TCPAcceptCmd 6 80, TCPAcceptCmd 9 80] \<and>
     waits_at 7 (accept_type (AtPort 80)) sv' 3 [TCPAcceptCmd 8 80]"
proof -
  let ?w = "SetupQueue 7 TCP_ACCEPTCMD_TYPE demo_worker" and ?calls = "map demo_accept [6, 8, 9]"
  have sv: "sv_acceptors demo_server 41 = Some demo_acceptor" "sv_workers demo_server (ac_worker demo_acceptor) = Some ?w"
    by (simp_all add: demo_server_def demo_acceptor_def)
  have ac: "ac_others demo_acceptor \<noteq> []" "ac_count demo_acceptor < 2 ^ 32" "ac_where demo_acceptor = AtPort 80"
    "set (ac_others demo_acceptor) = {2, 3}"
    by (auto simp: demo_acceptor_def)
  have w: "nw_status ?w = WORKER_STATUS_RUN" "nw_id ?w = 7"
    by (simp_all add: SetupQueue_def demo_worker_def)
  have ok: "\<forall>c\<in>set ?calls. accepts_ok (ac_where demo_acceptor) c"
    using demo_accepts_ok ac(3) by simp
  have waits: "\<forall>d\<in>set (ac_others demo_acceptor). waits_at (nw_id ?w) (accept_type (ac_where demo_acceptor)) demo_server d []"
    using demo_server_waits ac(3,4) w(2) by simp
  have len: "length ?calls = 3"
    by simp
  obtain sv' where sv': "accept_all ?calls 41 demo_server = Some (replicate 3 True, sv')"
    "\<forall>d\<in>{2, 3}. waits_at 7 (accept_type (AtPort 80)) sv' d
        ([] @ map (\<lambda>k. snd (accept_cmd (AtPort 80) (al_fd (?calls ! k))))
           (filter (\<lambda>k. ac_others demo_acceptor ! (u32 (ac_count demo_acceptor + k) mod length (ac_others demo_acceptor)) = d) [0..<3]))"
    using accept_round_robin [OF sv(1) ac(1,2) sv(2) w(1) waits ok] unfolding len ac(3,4) w(2) by blast
  then show ?thesis
    using demo_deal by (auto simp: accept_cmd_def demo_accept_def numeral_3_eq_3 simp del: accept_all.simps)
qed

end
