(* ===== verification/EventLoop.thy ===== *)
theory EventLoop
  imports WorkerEx
begin

text \<open>
  The event loop of a worker: \<open>IOHandlerManager::Pulse\<close> and \<open>Run\<close>, \<open>Close\<close> of \<open>NetWorker\<close>. One pulse serves the
  events of an \<open>epoll_wait\<close>, then the commands, then the time-outs; the loop around it goes through the states \<open>RUN\<close>,
  \<open>CLOSE\<close>, \<open>CLEAR\<close> and \<open>STOP\<close> when the program is told to quit, which a signal handler does at any time. The loop is a step
  relation, and its shut-down is proved by rule induction.
\<close>

section \<open>Serving events\<close>

text \<open>The answers of the system and of the application to one event.\<close>

record event_calls =
  ec_stream :: stream_calls
  ec_udp :: udp_calls
  ec_peer :: "byte list"
  ec_fresh :: nat
  ec_accept :: accept_calls

text \<open>The virtual \<open>OnEvent\<close>; no class has the type \<open>IOHT_THREAD_CARRIER\<close>.\<close>

definition handler_OnEvent :: "event_calls \<Rightarrow> nat \<Rightarrow> nat \<Rightarrow> epoll_event \<Rightarrow> server \<Rightarrow> (bool \<times> server) option" where
  "handler_OnEvent c me a ev sv =
     do { w \<leftarrow> sv_workers sv me;
          h \<leftarrow> nt_hand (nw_net w) a;
          case ih_type h of
            IOHT_TCP_CARRIER \<Rightarrow> on_net me (TCPCarrier_OnEvent (ec_stream c) a ev) sv
          | IOHT_UNIX_CARRIER \<Rightarrow> on_net me (UNIXCarrier_OnEvent (ec_stream c) a ev) sv
          | IOHT_PIPE_CARRIER \<Rightarrow> on_net me (PIPECarrier_OnEvent (ec_stream c) a ev) sv
          | IOHT_UDP_CARRIER \<Rightarrow> on_net me (UDPCarrier_OnEvent (ec_udp c) a ev) sv
          | IOHT_TCP_CONNECTOR \<Rightarrow> on_net me (TCPConnector_OnEvent (ec_peer c) (ec_fresh c) a ev) sv
          | IOHT_UNIX_CONNECTOR \<Rightarrow> on_net me (UNIXConnector_OnEvent (ec_fresh c) a ev) sv
          | IOHT_TCP_ACCEPTOR \<Rightarrow> acceptor_OnEvent (ec_accept c) a sv
          | IOHT_UNIX_ACCEPTOR \<Rightarrow> acceptor_OnEvent (ec_accept c) a sv
          | IOHT_THREAD_CARRIER \<Rightarrow> None }"

definition serve_handler :: "event_calls \<Rightarrow> nat \<Rightarrow> nat \<Rightarrow> epoll_event \<Rightarrow> server \<Rightarrow> server option" where
  "serve_handler c me a ev sv =
     do { (ok, sv) \<leftarrow> handler_OnEvent c me a ev sv;
          if ok then Some sv
          else map_option snd (on_net me (\<lambda>st. map_option (Pair ()) (EnqueueForDelete a st)) sv) }"

text \<open>
  An event holds \<open>data.ptr\<close>: a handler, or null for the wake-up socket. The pointers were taken when \<open>epoll_wait\<close>
  returned; a handler that an earlier event of the batch has deleted is followed all the same.
\<close>

type_synonym ready = "nat option \<times> epoll_event \<times> event_calls"

fun serve_events :: "nat \<Rightarrow> ready list \<Rightarrow> (nat \<times> int) list \<Rightarrow> server \<Rightarrow> ((nat \<times> int) list \<times> server) option" where
  "serve_events me [] infos sv = Some (infos, sv)"
| "serve_events me ((None, ev, c) # evs) infos sv =
     do { w \<leftarrow> sv_workers sv me;
          let (more, w) = receive_posts w;
          serve_events me evs (infos @ more) (put_worker me w sv) }"
| "serve_events me ((Some a, ev, c) # evs) infos sv =
     do { sv \<leftarrow> serve_handler c me a ev sv; serve_events me evs infos sv }"

section \<open>A pulse\<close>

text \<open>
  What the timers do in a pulse: the processes whose time is out, in the order of their list (theory \<open>Timers\<close> says
  which), the effect of the application's timers and the time until the next one.
\<close>

record tick =
  tk_expired :: "nat list"
  tk_timers :: "net \<Rightarrow> net option"
  tk_wait :: nat

fun expire_processes :: "nat list \<Rightarrow> net \<Rightarrow> net option" where
  "expire_processes [] st = Some st"
| "expire_processes (p # ps) st =
     do { (free, st) \<leftarrow> DoTimeout p (st\<lparr>nt_timeouts := nt_timeouts st - {p}\<rparr>);
          st \<leftarrow> (if free then Free p st else Some st);
          expire_processes ps st }"

definition TimeElapsed :: "tick \<Rightarrow> net \<Rightarrow> (nat \<times> net) option" where
  "TimeElapsed t st =
     do { st \<leftarrow> expire_processes (tk_expired t) st; st \<leftarrow> tk_timers t st; Some (tk_wait t, st) }"

datatype epoll_answer = Ready "ready list" | WaitFailed nat

definition Pulse :: "cmd_env \<Rightarrow> nat \<Rightarrow> epoll_answer \<Rightarrow> nat \<Rightarrow> tick \<Rightarrow> server \<Rightarrow> (nat \<times> server) option" where
  "Pulse e me ans now t sv =
     (case ans of
        WaitFailed err \<Rightarrow>
          if err = EINTR
          then do { (wait, sv) \<leftarrow> on_net me (TimeElapsed t) sv; Some (u64 (wait + now), sv) }
          else Some (0, sv)
      | Ready evs \<Rightarrow> do {
          (infos, sv) \<leftarrow> serve_events me evs [] sv;
          w \<leftarrow> sv_workers sv me;
          w \<leftarrow> ProcessCmds e infos w;
          (wait, sv) \<leftarrow> on_net me (TimeElapsed t) (put_worker me w sv);
          Some (if wait > 1000 then 1000 else wait, sv) })"

text \<open>\<open>epoll_wait\<close> gets the value of the last pulse as an \<open>int\<close>; a negative one waits without end.\<close>

definition epoll_timeout :: "nat \<Rightarrow> int" where
  "epoll_timeout ms = i32 (int ms)"

section \<open>The loop\<close>

text \<open>
  \<open>ex_->Close()\<close> and \<open>ex_->Clear()\<close> belong to the application; \<open>ExClear b\<close> records a \<open>Clear\<close> that returned \<open>b\<close>. The
  result says whether the loop goes on.
\<close>

datatype ex_call = ExClose | ExClear bool

record ex_env =
  ee_close :: "net \<Rightarrow> net option"
  ee_clear :: "net \<Rightarrow> (bool \<times> net) option"
  ee_timers :: "net \<Rightarrow> net option"
  ee_attached :: "net \<Rightarrow> nat list"

text \<open>
  \<open>timer_manager_->Close()\<close> deletes all time-out managers and timers: those of the application, whose effect is \<open>ee_timers\<close>,
  and \<open>net_timeout_manager_\<close>, which the worker keeps pointing to. The destructor of that one frees every process in its
  list, \<open>ee_attached\<close> being their order. A second \<open>Close\<close> finds nothing to delete.
\<close>

fun free_all :: "nat list \<Rightarrow> net \<Rightarrow> net option" where
  "free_all [] st = Some st"
| "free_all (p # ps) st = do { st \<leftarrow> Free p st; free_all ps st }"

definition close_timers :: "ex_env \<Rightarrow> net \<Rightarrow> net option" where
  "close_timers x st =
     do { st \<leftarrow> ee_timers x st;
          if \<not> nt_manager st then Some st
          else do { st \<leftarrow> free_all (ee_attached x st) st; Some (st\<lparr>nt_timeouts := {}, nt_manager := False\<rparr>) } }"

definition loop_body :: "ex_env \<Rightarrow> worker \<Rightarrow> (ex_call list \<times> bool \<times> worker) option" where
  "loop_body x w =
     (case nw_status w of
        WORKER_STATUS_CLOSE \<Rightarrow> do {
          st \<leftarrow> ee_close x (nw_net w);
          st \<leftarrow> close_timers x st;
          Some ([ExClose], True, w\<lparr>nw_net := st, nw_status := WORKER_STATUS_CLEAR\<rparr>) }
      | WORKER_STATUS_CLEAR \<Rightarrow> do {
          (ok, st) \<leftarrow> ee_clear x (nw_net w);
          Some (if ok then ([ExClear True], False, w\<lparr>nw_net := st, nw_status := WORKER_STATUS_STOP\<rparr>)
                else ([ExClear False], True, w\<lparr>nw_net := st\<rparr>)) }
      | _ \<Rightarrow> Some ([], True, w))"

definition NetWorker_Close :: "bool \<Rightarrow> worker \<Rightarrow> worker" where
  "NetWorker_Close room w = Post room (0xffffffff, -1) (w\<lparr>nw_status := WORKER_STATUS_CLOSE\<rparr>)"

text \<open>
  The loop on a list of answers, one for each turn; the second result is whether the loop still runs when
  the list ends.
\<close>

fun Run :: "cmd_env \<Rightarrow> nat \<Rightarrow> (epoll_answer \<times> nat \<times> tick \<times> ex_env) list \<Rightarrow> server \<Rightarrow> (ex_call list \<times> bool \<times> server) option" where
  "Run e me [] sv = Some ([], True, sv)"
| "Run e me ((ans, now, t, x) # turns) sv =
     do { w \<leftarrow> sv_workers sv me;
          if nw_status w = WORKER_STATUS_STOP then Some ([], False, sv)
          else do {
            (ms, sv) \<leftarrow> Pulse e me ans now t sv;
            if ms = 0 then Some ([], False, sv)
            else do {
              w \<leftarrow> sv_workers sv me;
              (cs, go, w) \<leftarrow> loop_body x w;
              if \<not> go then Some (cs, False, put_worker me w sv)
              else do {
                (cs', go, sv) \<leftarrow> Run e me turns (put_worker me w sv);
                Some (cs @ cs', go, sv) } } } }"

text \<open>
  The same loop with \<open>Close\<close> called between any two steps, by a signal handler or another thread. The loop of worker
  \<open>me\<close>: the server, whether the loop runs, and the calls of the application so far.\<close>

type_synonym loop_state = "server \<times> bool \<times> ex_call list"

inductive loop_step :: "cmd_env \<Rightarrow> nat \<Rightarrow> loop_state \<Rightarrow> loop_state \<Rightarrow> bool" for e me where
  quit: "sv_workers sv me = Some w \<Longrightarrow>
     loop_step e me (sv, go, calls) (put_worker me (NetWorker_Close room w) sv, go, calls)"
| turn: "sv_workers sv me = Some w0 \<Longrightarrow> nw_status w0 \<noteq> WORKER_STATUS_STOP \<Longrightarrow>
     Pulse e me ans now t sv = Some (ms, sv1) \<Longrightarrow> ms \<noteq> 0 \<Longrightarrow> sv_workers sv1 me = Some w1 \<Longrightarrow>
     loop_body x w1 = Some (cs, go, w2) \<Longrightarrow>
     loop_step e me (sv, True, calls) (put_worker me w2 sv1, go, calls @ cs)"
| pulse_0: "sv_workers sv me = Some w0 \<Longrightarrow> nw_status w0 \<noteq> WORKER_STATUS_STOP \<Longrightarrow>
     Pulse e me ans now t sv = Some (0, sv1) \<Longrightarrow>
     loop_step e me (sv, True, calls) (sv1, False, calls)"
| stopped: "sv_workers sv me = Some w0 \<Longrightarrow> nw_status w0 = WORKER_STATUS_STOP \<Longrightarrow>
     loop_step e me (sv, True, calls) (sv, False, calls)"

inductive_cases loop_stepE: "loop_step e me s s'"

text \<open>Before the loop every acceptor of the worker is registered.\<close>

fun start_acceptors :: "nat list \<Rightarrow> net \<Rightarrow> net option" where
  "start_acceptors [] st = Some st"
| "start_acceptors (a # as) st = do { (_, st) \<leftarrow> StartAccept a st; start_acceptors as st }"

section \<open>Only the loop and \<open>Close\<close> change the state of a worker\<close>

definition same_status :: "server \<Rightarrow> server \<Rightarrow> bool" where
  "same_status sv sv' \<longleftrightarrow> (\<forall>d. map_option nw_status (sv_workers sv' d) = map_option nw_status (sv_workers sv d))"

lemma same_status_refl [intro]: "same_status sv sv"
  by (simp add: same_status_def)

lemma same_status_trans: "same_status sv sv1 \<Longrightarrow> same_status sv1 sv2 \<Longrightarrow> same_status sv sv2"
  by (simp add: same_status_def)

lemma same_status_put:
  "sv_workers sv d = Some w \<Longrightarrow> nw_status w' = nw_status w \<Longrightarrow> same_status sv (put_worker d w' sv)"
  by (simp add: same_status_def put_worker_def)

lemma same_status_putD:
  "same_status (put_worker d w' sv) sv' \<Longrightarrow> sv_workers sv d = Some w \<Longrightarrow> nw_status w' = nw_status w \<Longrightarrow> same_status sv sv'"
  by (rule same_status_trans [OF same_status_put])

lemma on_net_status: "on_net me f sv = Some (r, sv') \<Longrightarrow> same_status sv sv'"
  by (auto simp: on_net_def intro!: same_status_put elim!: bind_SomeE)

lemma SendCmd_status: "SendCmd room src type a w = Some w' \<Longrightarrow> nw_status w' = nw_status w"
  by (auto simp: SendCmd_def split: option.splits elim!: bind_SomeE)

lemma GetCmd_status: "GetCmd src type w = Some (r, w') \<Longrightarrow> nw_status w' = nw_status w"
  by (auto simp: GetCmd_def split: option.splits elim!: bind_SomeE)

lemma send_new_cmd_status: "send_new_cmd room src type fill w = Some w' \<Longrightarrow> nw_status w' = nw_status w"
  by (auto simp: send_new_cmd_def Let_def split: option.splits elim!: bind_SomeE dest!: SendCmd_status GetCmd_status)

lemma hand_over_status: "hand_over room src type fill fd dst sv = Some sv' \<Longrightarrow> same_status sv sv'"
  by (auto simp: hand_over_def elim!: bind_SomeE dest!: send_new_cmd_status intro!: same_status_put)

lemma Accept_status: "Accept c a sv = Some (r, sv') \<Longrightarrow> same_status sv sv'"
  by (auto simp: Accept_def split: if_splits prod.splits elim!: bind_SomeE dest!: hand_over_status)
    (simp_all add: same_status_def)

lemma handler_OnEvent_status: "handler_OnEvent c me a ev sv = Some (r, sv') \<Longrightarrow> same_status sv sv'"
  by (auto simp: handler_OnEvent_def acceptor_OnEvent_def split: io_type.splits elim!: bind_SomeE
      dest!: Accept_status on_net_status)

lemma serve_handler_status: "serve_handler c me a ev sv = Some sv' \<Longrightarrow> same_status sv sv'"
  by (auto simp: serve_handler_def split: if_splits elim!: bind_SomeE
      dest!: handler_OnEvent_status on_net_status intro: same_status_trans)

lemma serve_events_status: "serve_events me evs infos sv = Some (infos', sv') \<Longrightarrow> same_status sv sv'"
proof (induction me evs infos sv rule: serve_events.induct)
  case (2 me ev c evs infos sv)
  then show ?case
    by (auto simp: receive_posts_def elim!: bind_SomeE) (fastforce intro: same_status_putD)
next
  case (3 me a ev c evs infos sv)
  then obtain sv1 where sv1: "serve_handler c me a ev sv = Some sv1" "serve_events me evs infos sv1 = Some (infos', sv')"
    by (auto elim: bind_SomeE)
  show ?case
    by (rule same_status_trans [OF serve_handler_status [OF sv1(1)] 3(1) [OF sv1]])
qed auto

lemma ProcessCmd_status: "ProcessCmd e i w = Some w' \<Longrightarrow> nw_status w' = nw_status w"
  by (auto simp: ProcessCmd_def split: prod.splits if_splits option.splits elim!: bind_SomeE)

lemma ProcessCmds_status: "ProcessCmds e infos w = Some w' \<Longrightarrow> nw_status w' = nw_status w"
  by (induction e infos w rule: ProcessCmds.induct) (auto elim!: bind_SomeE dest: ProcessCmd_status)

lemma Pulse_status: "Pulse e me ans now t sv = Some (ms, sv') \<Longrightarrow> same_status sv sv'"
  by (auto simp: Pulse_def split: epoll_answer.splits if_splits elim!: bind_SomeE
      dest!: serve_events_status on_net_status ProcessCmds_status)
    (metis same_status_putD same_status_trans)+

lemma Pulse_keeps:
  assumes "Pulse e me ans now t sv = Some (ms, sv1)" and "sv_workers sv me = Some w0" and "sv_workers sv1 me = Some w1"
  shows "nw_status w1 = nw_status w0"
  using Pulse_status [OF assms(1)] assms(2,3) by (auto simp: same_status_def dest!: spec [of _ me])


section \<open>Shutting down\<close>

text \<open>
  What holds of the calls in every state of the loop: none before the program is told to quit; \<open>Close\<close> comes first;
  in the state \<open>CLEAR\<close> the last \<open>Close\<close> has been followed by calls of \<open>Clear\<close> that returned false only; a \<open>Clear\<close> that
  returned true is the last call and ends the loop.
\<close>

definition only_cleared :: "ex_call list \<Rightarrow> bool" where
  "only_cleared calls \<longleftrightarrow> (\<exists>cs n. calls = cs @ [ExClose] @ replicate n (ExClear False))"

lemma only_clearedI: "only_cleared (calls @ [ExClose])"
  unfolding only_cleared_def by (intro exI [of _ calls] exI [of _ 0]) simp

lemma only_cleared_again: "only_cleared calls \<Longrightarrow> only_cleared (calls @ [ExClear False])"
  unfolding only_cleared_def by (metis append_assoc replicate_Suc replicate_append_same)

lemma only_cleared_nonempty: "only_cleared calls \<Longrightarrow> calls \<noteq> []"
  by (auto simp: only_cleared_def)

definition loop_inv :: "worker_status \<Rightarrow> bool \<Rightarrow> ex_call list \<Rightarrow> bool" where
  "loop_inv s go calls \<longleftrightarrow>
     (s = WORKER_STATUS_RUN \<longrightarrow> calls = []) \<and>
     (calls \<noteq> [] \<longrightarrow> hd calls = ExClose) \<and>
     (s = WORKER_STATUS_CLEAR \<longrightarrow> only_cleared calls) \<and>
     ExClear True \<notin> set (if go then calls else butlast calls) \<and>
     (s = WORKER_STATUS_STOP \<longrightarrow> \<not> go \<and> calls \<noteq> [] \<and> last calls = ExClear True)"

fun loop_ok :: "nat \<Rightarrow> loop_state \<Rightarrow> bool" where
  "loop_ok me (sv, go, calls) \<longleftrightarrow> (\<exists>w. sv_workers sv me = Some w \<and> loop_inv (nw_status w) go calls)"

lemma loop_inv_body:
  assumes I: "loop_inv (nw_status w) True calls" and B: "loop_body x w = Some (cs, go, w')"
  shows "loop_inv (nw_status w') go (calls @ cs)"
proof (cases "nw_status w")
  case WORKER_STATUS_CLEAR
  then have "only_cleared calls" "calls \<noteq> []"
    using I only_cleared_nonempty by (auto simp: loop_inv_def)
  then show ?thesis
    using I B WORKER_STATUS_CLEAR only_cleared_again [of calls]
    by (auto simp: loop_inv_def loop_body_def split: if_splits elim!: bind_SomeE)
next
  case WORKER_STATUS_CLOSE
  then show ?thesis
    using I B only_clearedI [of calls]
    by (auto simp: loop_inv_def loop_body_def hd_append split: if_splits elim!: bind_SomeE)
qed (use I B in \<open>auto simp: loop_inv_def loop_body_def\<close>)

lemma loop_step_ok: "loop_step e me s s' \<Longrightarrow> loop_ok me s \<Longrightarrow> loop_ok me s'"
proof (induction rule: loop_step.induct)
  case (quit sv w go calls room)
  then show ?case
    by (auto simp: loop_inv_def put_worker_def NetWorker_Close_def)
next
  case (turn sv w0 ans now t ms sv1 w1 x cs go w2 calls)
  then show ?case
    using Pulse_keeps [OF turn(3,1,5)] loop_inv_body [OF _ turn(6)] by (auto simp: put_worker_def)
next
  case (pulse_0 sv w0 ans now t sv1 calls)
  then obtain w1 where "sv_workers sv1 me = Some w1" "nw_status w1 = nw_status w0"
    using Pulse_status [OF pulse_0(3)] by (fastforce simp: same_status_def dest: spec [of _ me])
  then show ?case
    using pulse_0 by (auto simp: loop_inv_def dest: in_set_butlastD)
next
  case (stopped sv w0 calls)
  then show ?case
    by (auto simp: loop_inv_def)
qed

lemma Run_steps:
  "Run e me turns sv = Some (cs, go, sv') \<Longrightarrow> (loop_step e me)\<^sup>*\<^sup>* (sv, True, calls) (sv', go, calls @ cs)"
proof (induction turns arbitrary: sv cs calls)
  case (Cons i turns)
  obtain ans now t x where i: "i = (ans, now, t, x)"
    by (metis prod_cases4)
  obtain w where w: "sv_workers sv me = Some w"
    using Cons.prems i by (auto elim: bind_SomeE)
  show ?case
  proof (cases "nw_status w = WORKER_STATUS_STOP")
    case True
    then show ?thesis
      using Cons.prems i w by (auto intro: stopped)
  next
    case False
    then obtain ms sv1 where P: "Pulse e me ans now t sv = Some (ms, sv1)"
      using Cons.prems i w by (auto elim: bind_SomeE)
    show ?thesis
    proof (cases "ms = 0")
      case True
      then show ?thesis
        using Cons.prems i w False P by (auto intro: pulse_0)
    next
      case ms: False
      then obtain w1 cs1 go1 w2 where B: "sv_workers sv1 me = Some w1" "loop_body x w1 = Some (cs1, go1, w2)"
        using Cons.prems i w False P by (auto elim!: bind_SomeE)
      have step: "loop_step e me (sv, True, calls) (put_worker me w2 sv1, go1, calls @ cs1)"
        by (rule turn [OF w False P ms B])
      show ?thesis
      proof (cases go1)
        case False
        then show ?thesis
          using Cons.prems i w \<open>nw_status w \<noteq> WORKER_STATUS_STOP\<close> P ms B step by auto
      next
        case True
        then obtain cs2 where cs2: "Run e me turns (put_worker me w2 sv1) = Some (cs2, go, sv')" "cs = cs1 @ cs2"
          using Cons.prems i w \<open>nw_status w \<noteq> WORKER_STATUS_STOP\<close> P ms B by (auto elim!: bind_SomeE)
        show ?thesis
          using converse_rtranclp_into_rtranclp [of "loop_step e me", OF step] Cons.IH [OF cs2(1), of "calls @ cs1"] True cs2(2) by simp
      qed
    qed
  qed
qed simp

text \<open>A pulse in which nothing happens.\<close>

definition idle :: "nat \<Rightarrow> ex_env \<Rightarrow> epoll_answer \<times> nat \<times> tick \<times> ex_env" where
  "idle wait x = (Ready [], 0, \<lparr>tk_expired = [], tk_timers = Some, tk_wait = wait\<rparr>, x)"

lemma idle_pulse:
  "sv_workers sv me = Some w \<Longrightarrow>
     Pulse e me (Ready []) now \<lparr>tk_expired = [], tk_timers = Some, tk_wait = wait\<rparr> sv =
       Some (if wait > 1000 then 1000 else wait, sv)"
  by (simp add: Pulse_def on_net_def TimeElapsed_def put_worker_def fun_upd_idem)

lemma put_worker_sel [simp]: "sv_workers (put_worker i w sv) d = (if d = i then Some w else sv_workers sv d)"
  by (simp add: put_worker_def)

text \<open>
  Turns in which the pulse is defined and does not return 0, which would leave the loop, and the calls of the application
  return. What arrives in them, which commands and time-outs they serve, is free.
\<close>

fun turns_go :: "cmd_env \<Rightarrow> nat \<Rightarrow> (epoll_answer \<times> nat \<times> tick \<times> ex_env) list \<Rightarrow> server \<Rightarrow> bool" where
  "turns_go e me [] sv = True"
| "turns_go e me ((ans, now, t, x) # turns) sv =
     (case Pulse e me ans now t sv of
        None \<Rightarrow> False
      | Some (ms, sv) \<Rightarrow> ms \<noteq> 0 \<and>
          (case sv_workers sv me of
             None \<Rightarrow> False
           | Some w \<Rightarrow>
               (case loop_body x w of
                  None \<Rightarrow> False
                | Some (cs, go, w) \<Rightarrow> go \<longrightarrow> turns_go e me turns (put_worker me w sv))))"

definition clears :: "epoll_answer \<times> nat \<times> tick \<times> ex_env \<Rightarrow> bool" where
  "clears i \<longleftrightarrow> (\<forall>st ok st'. ee_clear (snd (snd (snd i))) st = Some (ok, st') \<longrightarrow> ok)"

lemma turns_goD:
  assumes "turns_go e me ((ans, now, t, x) # turns) sv" and "sv_workers sv me = Some w0"
  obtains ms sv1 w1 cs go w2 where "Pulse e me ans now t sv = Some (ms, sv1)" "ms \<noteq> 0" "sv_workers sv1 me = Some w1"
    "nw_status w1 = nw_status w0" "loop_body x w1 = Some (cs, go, w2)" "go \<longrightarrow> turns_go e me turns (put_worker me w2 sv1)"
proof -
  obtain ms sv1 where P: "Pulse e me ans now t sv = Some (ms, sv1)" "ms \<noteq> 0"
    using assms(1) by (cases "Pulse e me ans now t sv") auto
  moreover obtain w1 where w1: "sv_workers sv1 me = Some w1"
    using assms(1) P by (cases "sv_workers sv1 me") auto
  moreover obtain cs go w2 where "loop_body x w1 = Some (cs, go, w2)"
    using assms(1) P w1 by (cases "loop_body x w1") auto
  ultimately show ?thesis
    using that Pulse_keeps [OF P(1) assms(2) w1] assms(1) by auto
qed

lemma clear_completes:
  assumes "sv_workers sv me = Some w" and "nw_status w = WORKER_STATUS_CLEAR" and "turns_go e me turns sv"
    and "j < length turns" and "clears (turns ! j)"
  shows "\<exists>k sv' w'. k \<le> j \<and> Run e me turns sv = Some (replicate k (ExClear False) @ [ExClear True], False, sv') \<and>
     sv_workers sv' me = Some w' \<and> nw_status w' = WORKER_STATUS_STOP"
  using assms
proof (induction turns arbitrary: sv w j)
  case (Cons i turns)
  obtain ans now t x where i: "i = (ans, now, t, x)"
    by (metis prod_cases4)
  obtain ms sv1 w1 cs go w2 where g: "Pulse e me ans now t sv = Some (ms, sv1)" "ms \<noteq> 0" "sv_workers sv1 me = Some w1"
    "nw_status w1 = WORKER_STATUS_CLEAR" "loop_body x w1 = Some (cs, go, w2)" "go \<longrightarrow> turns_go e me turns (put_worker me w2 sv1)"
    using turns_goD [OF Cons.prems(3) [unfolded i] Cons.prems(1)] Cons.prems(2) by metis
  obtain ok st where c: "ee_clear x (nw_net w1) = Some (ok, st)"
    using g(4,5) by (auto simp: loop_body_def elim!: bind_SomeE)
  show ?case
  proof (cases ok)
    case True
    then have "cs = [ExClear True]" "\<not> go" "nw_status w2 = WORKER_STATUS_STOP"
      using g(4,5) c by (auto simp: loop_body_def)
    then show ?thesis
      using i g Cons.prems(1,2) by (intro exI [of _ 0]) simp
  next
    case False
    then have b: "cs = [ExClear False]" "go" "w2 = w1\<lparr>nw_net := st\<rparr>"
      using g(4,5) c by (simp_all add: loop_body_def)
    obtain j' where j: "j = Suc j'"
      using Cons.prems(5) i c False by (cases j) (auto simp: clears_def)
    have "sv_workers (put_worker me w2 sv1) me = Some w2" "nw_status w2 = WORKER_STATUS_CLEAR"
      using b(3) g(4) by simp_all
    then obtain k sv' w' where "k \<le> j'" "Run e me turns (put_worker me w2 sv1) =
        Some (replicate k (ExClear False) @ [ExClear True], False, sv')"
      "sv_workers sv' me = Some w'" "nw_status w' = WORKER_STATUS_STOP"
      using Cons.IH [of "put_worker me w2 sv1" w2 j'] b(2) g(6) Cons.prems(4,5) j by auto
    then show ?thesis
      using i g Cons.prems(1,2) b j by (intro exI [of _ "Suc k"]) simp
  qed
qed simp

text \<open>
  C14: The shut-down of a worker is orderly, whenever and however often it is told to quit: the application's \<open>Close\<close> is the
  first of its calls and none is made before; \<open>Clear\<close> is called after a \<open>Close\<close>, never again after it has returned
  true; the state \<open>STOP\<close> is reached only through a \<open>Clear\<close> that returned true, and then the loop has been left.
\<close>
theorem shutdown_order:
  assumes "sv_workers sv me = Some w" and "nw_status w = WORKER_STATUS_RUN"
    and "(loop_step e me)\<^sup>*\<^sup>* (sv, True, []) (sv', go, calls)"
  shows "\<exists>w'. sv_workers sv' me = Some w' \<and>
     (nw_status w' = WORKER_STATUS_RUN \<longrightarrow> calls = []) \<and>
     (calls \<noteq> [] \<longrightarrow> hd calls = ExClose) \<and>
     ExClear True \<notin> set (butlast calls) \<and>
     (ExClear True \<in> set calls \<longrightarrow> \<not> go) \<and>
     (nw_status w' = WORKER_STATUS_STOP \<longrightarrow> \<not> go \<and> calls \<noteq> [] \<and> last calls = ExClear True)"
proof -
  have "loop_ok me (sv, True, [])"
    using assms(1,2) by (simp add: loop_inv_def)
  from assms(3) this have "loop_ok me (sv', go, calls)"
    by (induction rule: rtranclp_induct) (auto intro: loop_step_ok)
  then show ?thesis
    by (auto simp: loop_inv_def dest: in_set_butlastD split: if_splits)
qed

text \<open>
  C27: A worker that has been told to quit stops, whatever happens in the meantime. In any turns that are defined, with any events,
  the wake-up that \<open>Close\<close> of the worker posts among them, commands, time-outs and timers, the loop calls \<open>Close\<close> of the
  application in the first turn and \<open>Clear\<close> once in each turn after it; it reaches the state \<open>STOP\<close> and ends in the turn in which \<open>Clear\<close> first returns true, at the latest
  in a turn \<open>j\<close> in which it cannot return anything else. The turns are ones whose pulse does not return 0.
\<close>
theorem shutdown_completes:
  assumes "sv_workers sv me = Some w" and "nw_status w = WORKER_STATUS_CLOSE" and "turns_go e me turns sv"
    and "0 < j" and "j < length turns" and "clears (turns ! j)"
  shows "\<exists>k sv' w'. k < j \<and> Run e me turns sv = Some (ExClose # replicate k (ExClear False) @ [ExClear True], False, sv') \<and>
     sv_workers sv' me = Some w' \<and> nw_status w' = WORKER_STATUS_STOP"
proof -
  obtain ans now t x rest where turns: "turns = (ans, now, t, x) # rest"
    using assms(5) by (cases turns) auto
  obtain ms sv1 w1 cs go w2 where g: "Pulse e me ans now t sv = Some (ms, sv1)" "ms \<noteq> 0" "sv_workers sv1 me = Some w1"
    "nw_status w1 = WORKER_STATUS_CLOSE" "loop_body x w1 = Some (cs, go, w2)" "go \<longrightarrow> turns_go e me rest (put_worker me w2 sv1)"
    using turns_goD [OF assms(3) [unfolded turns] assms(1)] assms(2) by metis
  then have b: "cs = [ExClose]" "go" "nw_status w2 = WORKER_STATUS_CLEAR"
    by (auto simp: loop_body_def elim!: bind_SomeE)
  have j: "j - 1 < length rest" "clears (rest ! (j - 1))"
    using assms(4-6) turns by (simp_all add: nth_Cons' Suc_less_eq2)
  obtain k sv' w' where "k \<le> j - 1" "Run e me rest (put_worker me w2 sv1) =
      Some (replicate k (ExClear False) @ [ExClear True], False, sv')" "sv_workers sv' me = Some w'" "nw_status w' = WORKER_STATUS_STOP"
    using clear_completes [of "put_worker me w2 sv1" me w2 e rest "j - 1"] b g(6) j turns by auto
  then show ?thesis
    using turns g assms(1,2,4) b by (intro exI [of _ k] exI [of _ sv'] exI [of _ w']) auto
qed

definition demo_ex :: ex_env where
  "demo_ex = \<lparr>ee_close = Some, ee_clear = (\<lambda>st. if nt_errno st = 0 then Some (True, st)
     else Some (False, st\<lparr>nt_errno := nt_errno st - 1\<rparr>)), ee_timers = Some, ee_attached = (\<lambda>_. [])\<rparr>"

definition demo_loop :: "nat \<Rightarrow> server" where
  "demo_loop n = \<lparr>sv_workers = [2 \<mapsto> NetWorker_Close True (demo_worker\<lparr>nw_net := (demo_net [])\<lparr>nt_errno := n\<rparr>\<rparr>)],
     sv_acceptors = Map.empty\<rparr>"

lemma demo_close_timers: "nt_manager st \<Longrightarrow> close_timers demo_ex st = Some (st\<lparr>nt_timeouts := {}, nt_manager := False\<rparr>)"
  by (simp add: close_timers_def demo_ex_def)

lemma demo_managers: "nt_manager (demo_net b)" "nt_manager (nw_net demo_worker)"
  by (simp_all add: demo_net_def demo_worker_def)

text \<open>The worker that was told to quit: its wake-up is served in the first turn, and a signal interrupts the second wait.\<close>

definition demo_turns :: "event_calls \<Rightarrow> (epoll_answer \<times> nat \<times> tick \<times> ex_env) list" where
  "demo_turns c = (let tick = \<lparr>tk_expired = [], tk_timers = Some, tk_wait = 7\<rparr> in
     [(Ready [(None, \<lparr>ev_in = True, ev_out = False, ev_err = False, ev_hup = False\<rparr>, c)], 0, tick, demo_ex),
      (WaitFailed EINTR, 3, tick, demo_ex), idle 7 demo_ex, idle 7 (demo_ex\<lparr>ee_clear := (\<lambda>st. Some (True, st))\<rparr>)])"

lemma shutdown_completes_witness:
  "\<forall>c. \<exists>k sv' w'. k < 3 \<and> Run demo_env 2 (demo_turns c) (demo_loop 2) =
       Some (ExClose # replicate k (ExClear False) @ [ExClear True], False, sv') \<and>
     sv_workers sv' 2 = Some w' \<and> nw_status w' = WORKER_STATUS_STOP"
proof (rule allI, rule shutdown_completes)
  fix c
  show "sv_workers (demo_loop 2) 2 = Some (NetWorker_Close True (demo_worker\<lparr>nw_net := (demo_net [])\<lparr>nt_errno := 2\<rparr>\<rparr>))"
    by (simp add: demo_loop_def)
  show "clears (demo_turns c ! 3)"
    by (simp add: demo_turns_def clears_def idle_def Let_def)
  show "turns_go demo_env 2 (demo_turns c) (demo_loop 2)"
    by (simp add: demo_turns_def idle_def Let_def Pulse_def on_net_def TimeElapsed_def demo_loop_def receive_posts_def put_worker_def
        NetWorker_Close_def Post_def ProcessCmd_def loop_body_def close_timers_def demo_ex_def demo_worker_def demo_net_def u64_def)
qed (simp_all add: NetWorker_Close_def Post_def demo_turns_def Let_def)

lemma shutdown_order_witness:
  "\<exists>sv' w'. (loop_step demo_env 2)\<^sup>*\<^sup>* (demo_server, True, []) (sv', True, [ExClose]) \<and>
     sv_workers sv' 2 = Some w' \<and> nw_status w' \<noteq> WORKER_STATUS_STOP \<and> hd [ExClose] = ExClose"
proof -
  let ?w = "SetupQueue 7 TCP_ACCEPTCMD_TYPE demo_worker"
  have w: "sv_workers demo_server 2 = Some ?w" "nw_status ?w = WORKER_STATUS_RUN"
    by (simp_all add: demo_server_def SetupQueue_def demo_worker_def)
  let ?st = "(nw_net ?w)\<lparr>nt_timeouts := {}, nt_manager := False\<rparr>"
  have closed: "ee_close demo_ex = Some" "close_timers demo_ex (nw_net ?w) = Some ?st"
    by (simp_all add: demo_close_timers demo_managers SetupQueue_def set_queue_def, simp add: demo_ex_def)
  let ?sv = "put_worker 2 (NetWorker_Close True ?w) demo_server"
  have "Run demo_env 2 [idle 7 demo_ex] ?sv = Some ([ExClose], True, put_worker 2 ((NetWorker_Close True ?w)\<lparr>nw_net := ?st, nw_status := WORKER_STATUS_CLEAR\<rparr>) ?sv)"
    using idle_pulse [of ?sv 2 "NetWorker_Close True ?w"]
    by (simp add: idle_def loop_body_def NetWorker_Close_def Post_def closed)
  from Run_steps [OF this, of "[]"] quit [OF w(1), of demo_env True "[]" True]
  have R: "(loop_step demo_env 2)\<^sup>*\<^sup>* (demo_server, True, [])
      (put_worker 2 ((NetWorker_Close True ?w)\<lparr>nw_net := ?st, nw_status := WORKER_STATUS_CLEAR\<rparr>) ?sv, True, [ExClose])"
    by (auto intro: converse_rtranclp_into_rtranclp)
  show ?thesis
    using shutdown_order [OF w R] R by (auto intro!: exI)
qed

end
