(* ===== verification/HttpProtocol.thy ===== *)
theory HttpProtocol
  imports Platform
begin

text \<open>
  The HTTP server and client protocol of \<open>protocols/httpprotocol.cpp\<close>. The receive buffer is a block of
  characters that the parser edits in place: it writes a \<open>NUL\<close> over every delimiter and takes C strings
  between them. Pointers are offsets into the block. The hash tables are maps; the members that
  subclasses implement (\<open>Handler\<close>, \<open>HandlerRespond\<close>, \<open>SendHTTPData\<close>) are arguments.
\<close>

section \<open>State\<close>

record http =
  h_request :: "string \<rightharpoonup> string"
  h_respond :: "string \<rightharpoonup> string"
  h_args :: "string \<rightharpoonup> string"
  h_content_length :: int
  h_code :: int
  h_sent :: "string list"

definition http_new :: http where
  "http_new = \<lparr>h_request = Map.empty, h_respond = Map.empty, h_args = Map.empty,
     h_content_length = -1, h_code = 0, h_sent = []\<rparr>"

abbreviation HTTP_HEADER_URI :: string where "HTTP_HEADER_URI \<equiv> ''uri''"
abbreviation HTTP_HEADER_ARGS :: string where "HTTP_HEADER_ARGS \<equiv> ''args''"
abbreviation HTTP_HEADER_VERSION :: string where "HTTP_HEADER_VERSION \<equiv> ''http_version''"
abbreviation HTTP_HEADER_HOST :: string where "HTTP_HEADER_HOST \<equiv> ''Host''"
abbreviation HTTP_HEADER_PORT :: string where "HTTP_HEADER_PORT \<equiv> ''Port''"
abbreviation HTTP_CONTENT_LENGTH :: string where "HTTP_CONTENT_LENGTH \<equiv> ''Content-Length''"
abbreviation CRLF :: string where "CRLF \<equiv> [CR, LF]"

text \<open>\<open>SendHTTPData\<close>: whether it accepts the data may depend on what was sent before.\<close>

type_synonym http_sender = "string list \<Rightarrow> string \<Rightarrow> bool"

definition http_send :: "http_sender \<Rightarrow> string \<Rightarrow> http \<Rightarrow> bool \<times> http" where
  "http_send sender d h = (sender (h_sent h) d, h\<lparr>h_sent := h_sent h @ [d]\<rparr>)"

text \<open>The subscript operator of the hash tables inserts an empty value for a missing key.\<close>

definition hash_get :: "(string \<rightharpoonup> string) \<Rightarrow> string \<Rightarrow> string \<times> (string \<rightharpoonup> string)" where
  "hash_get m k = (case m k of Some v \<Rightarrow> (v, m) | None \<Rightarrow> ([], m(k \<mapsto> [])))"

definition GetRequestArgs :: "string \<Rightarrow> http \<Rightarrow> string \<times> http" where
  "GetRequestArgs k h = (let (v, m) = hash_get (h_args h) k in (v, h\<lparr>h_args := m\<rparr>))"

definition GetRequestHeader :: "string \<Rightarrow> http \<Rightarrow> string \<times> http" where
  "GetRequestHeader k h = (let (v, m) = hash_get (h_request h) k in (v, h\<lparr>h_request := m\<rparr>))"

definition SetRequestHeader :: "string \<Rightarrow> string \<Rightarrow> http \<Rightarrow> http" where
  "SetRequestHeader k v h = h\<lparr>h_request := (h_request h)(k \<mapsto> v)\<rparr>"

definition SetRespondHeader :: "string \<Rightarrow> string \<Rightarrow> http \<Rightarrow> http" where
  "SetRespondHeader k v h = h\<lparr>h_respond := (h_respond h)(k \<mapsto> v)\<rparr>"

definition SetRespondHeaderForContentLength :: "nat \<Rightarrow> http \<Rightarrow> http" where
  "SetRespondHeaderForContentLength n = SetRespondHeader ''Content-Length'' (dec_digits n)"

definition SetRespondHeaderForTransferEncoding :: "http \<Rightarrow> http" where
  "SetRespondHeaderForTransferEncoding = SetRespondHeader ''Transfer-Encoding'' ''chunked''"

definition SetRespondHeaderForConnectionKeepalive :: "http \<Rightarrow> http" where
  "SetRespondHeaderForConnectionKeepalive = SetRespondHeader ''Connection'' ''keep-alive''"

definition SetRespondHeaderForConnectionClose :: "http \<Rightarrow> http" where
  "SetRespondHeaderForConnectionClose = SetRespondHeader ''Connection'' ''close''"

definition GetHttpCode :: "http \<Rightarrow> int" where
  "GetHttpCode h = h_code h"

section \<open>Sending\<close>

definition header_line :: "string \<times> string \<Rightarrow> string" where
  "header_line kv = fst kv @ '': '' @ snd kv @ CRLF"

text \<open>The date and the iteration order of a hash table are arguments.\<close>

definition SendHead ::
  "http_sender \<Rightarrow> string \<Rightarrow> ((string \<rightharpoonup> string) \<Rightarrow> (string \<times> string) list) \<Rightarrow>
     string \<Rightarrow> string \<Rightarrow> http \<Rightarrow> bool \<times> http" where
  "SendHead sender date enum code content_type h =
     (let (version, h) = GetRequestHeader HTTP_HEADER_VERSION h;
          version = (if version = [] then ''HTTP/1.1'' else version)
      in http_send sender
           (version @ '' '' @ code @ CRLF @ ''Server: libgsdm'' @ CRLF @ ''Date: '' @ date @ CRLF @
            ''Content-Type: '' @ content_type @ CRLF @
            concat (map header_line (enum (h_respond h))) @ CRLF) h)"

definition SendContent :: "http_sender \<Rightarrow> string \<Rightarrow> http \<Rightarrow> bool \<times> http" where
  "SendContent = http_send"

definition SendChunked :: "http_sender \<Rightarrow> string \<Rightarrow> http \<Rightarrow> bool \<times> http" where
  "SendChunked sender d h =
     (let (ok, h) = http_send sender (hex_upper (length d) @ CRLF) h in
      if \<not> ok then (False, h)
      else let (ok, h) = (if length d \<noteq> 0 then http_send sender d h else (True, h)) in
           if \<not> ok then (False, h) else http_send sender CRLF h)"

text \<open>
  \<open>ParseUrl\<close> copies what follows the first seven characters into an array of 4096 characters and edits it
  there. A shorter url is read past its end.
\<close>

definition url_array :: "string \<Rightarrow> string option" where
  "url_array url = do {
     s \<leftarrow> (if 7 \<le> length (takeWhile (\<lambda>c. c \<noteq> NUL) url) then c_str_at (url @ [NUL]) 7 else None);
     let s = take 4095 s;
     Some (s @ replicate (4096 - length s) NUL)
   }"

definition ParseUrl :: "string \<Rightarrow> http \<Rightarrow> (bool \<times> http) option" where
  "ParseUrl url h = do {
     let h = h\<lparr>h_request := Map.empty, h_content_length := -1, h_code := 0\<rparr>;
     str \<leftarrow> url_array url;
     fnd \<leftarrow> c_strstr str 0 ''/'';
     (case fnd of
        None \<Rightarrow> Some (False, h)
      | Some fnd \<Rightarrow> do {
          let str = str[fnd := NUL];
          v \<leftarrow> c_strstr str 0 '':'';
          (str, h) \<leftarrow> (case v of
              None \<Rightarrow> do {
                host \<leftarrow> c_str_at str 0;
                Some (str, SetRequestHeader HTTP_HEADER_PORT ''80'' (SetRequestHeader HTTP_HEADER_HOST host h))
              }
            | Some v \<Rightarrow> do {
                let str = str[v := NUL];
                host \<leftarrow> c_str_at str 0;
                port \<leftarrow> c_str_at str (v + 1);
                Some (str, SetRequestHeader HTTP_HEADER_PORT port (SetRequestHeader HTTP_HEADER_HOST host h))
              });
          let str = str[fnd := CHR ''/''];
          uri \<leftarrow> c_str_at str fnd;
          Some (True, SetRequestHeader ''Connection'' ''keep-alive''
            (SetRequestHeader ''Accept'' ''*/*''
              (SetRequestHeader ''User-Agent'' ''libgsdm''
                (SetRequestHeader HTTP_HEADER_URI uri h))))
        })
   }"

definition HTTPGet ::
  "http_sender \<Rightarrow> ((string \<rightharpoonup> string) \<Rightarrow> (string \<times> string) list) \<Rightarrow> http \<Rightarrow> bool \<times> http" where
  "HTTPGet sender enum h =
     (let (uri, m) = hash_get (h_request h) HTTP_HEADER_URI;
          h = h\<lparr>h_request := m\<rparr>
      in http_send sender
           (''GET '' @ uri @ '' HTTP/1.1'' @ CRLF @
            concat (map header_line
              (filter (\<lambda>kv. fst kv \<noteq> HTTP_HEADER_PORT \<and> fst kv \<noteq> HTTP_HEADER_URI) (enum m))) @ CRLF) h)"

section \<open>Parsing a request\<close>

text \<open>One \<open>key=value\<close> argument of the query, a C string at \<open>find\<close>.\<close>

definition http_arg ::
  "string \<Rightarrow> nat \<Rightarrow> (string \<rightharpoonup> string) \<Rightarrow> (string \<times> (string \<rightharpoonup> string)) option" where
  "http_arg mem fnd args = do {
     arg2 \<leftarrow> c_strstr mem fnd ''='';
     (case arg2 of
        None \<Rightarrow> do { k \<leftarrow> c_str_at mem fnd; Some (mem, args(k \<mapsto> [])) }
      | Some a \<Rightarrow> do {
          let mem = mem[a := NUL];
          k \<leftarrow> c_str_at mem fnd;
          v \<leftarrow> c_str_at mem (a + 1);
          Some (mem, args(k \<mapsto> v))
        })
   }"

lemma http_arg_length: "http_arg mem fnd args = Some (mem', args') \<Longrightarrow> length mem' = length mem"
  by (auto simp: http_arg_def Let_def split: bind_splits option.splits)

function http_args_loop ::
  "string \<Rightarrow> nat \<Rightarrow> (string \<rightharpoonup> string) \<Rightarrow> (string \<times> (string \<rightharpoonup> string)) option" where
  "http_args_loop mem fnd args =
     (case c_strstr mem fnd ''&'' of
        None \<Rightarrow> None
      | Some None \<Rightarrow> http_arg mem fnd args
      | Some (Some arg1) \<Rightarrow>
          (case http_arg (mem[arg1 := NUL]) fnd args of
             None \<Rightarrow> None
           | Some (mem', args') \<Rightarrow> http_args_loop mem' (arg1 + 1) args'))"
  by pat_completeness auto
termination
  by (relation "measure (\<lambda>(mem, fnd, args). length mem - fnd)")
     (auto dest!: c_strstr_found http_arg_length)

declare http_args_loop.simps [simp del]

text \<open>
  The loop over the header lines from \<open>header\<close>; \<open>last_ok\<close> is the result when the last line has no
  colon: success for a request, failure for a response.
\<close>

function http_lines ::
  "bool \<Rightarrow> string \<Rightarrow> nat \<Rightarrow> (string \<rightharpoonup> string) \<Rightarrow> (bool \<times> string \<times> (string \<rightharpoonup> string)) option" where
  "http_lines last_ok mem header hash =
     (case c_strstr mem header CRLF of
        None \<Rightarrow> None
      | Some None \<Rightarrow> do {
          c \<leftarrow> c_strstr mem header '':'';
          (case c of
             None \<Rightarrow> Some (last_ok, mem, hash)
           | Some c \<Rightarrow> do {
               let mem = mem[c := NUL];
               k \<leftarrow> c_str_at mem header;
               v \<leftarrow> c_str_at mem (c + 2);
               Some (True, mem, hash(k \<mapsto> v))
             })
        }
      | Some (Some tmp1) \<Rightarrow>
          (case c_strstr (mem[tmp1 := NUL]) header '':'' of
             None \<Rightarrow> None
           | Some None \<Rightarrow> Some (False, mem[tmp1 := NUL], hash)
           | Some (Some c) \<Rightarrow>
               (case (c_str_at (mem[tmp1 := NUL, c := NUL]) header,
                      c_str_at (mem[tmp1 := NUL, c := NUL]) (c + 2)) of
                  (Some k, Some v) \<Rightarrow>
                    http_lines last_ok (mem[tmp1 := NUL, c := NUL]) (tmp1 + 2) (hash(k \<mapsto> v))
                | _ \<Rightarrow> None)))"
  by pat_completeness auto
termination
  by (relation "measure (\<lambda>(last_ok, mem, header, hash). length mem - header)") (auto dest!: c_strstr_found)

declare http_lines.simps [simp del]

text \<open>The query part of the request line, and the rest of \<open>ParseHeader\<close>.\<close>

definition http_query :: "string \<Rightarrow> nat \<Rightarrow> http \<Rightarrow> (string \<times> http) option" where
  "http_query mem header h = do {
     fnd \<leftarrow> c_strstr mem header ''?'';
     (case fnd of
        None \<Rightarrow> do {
          uri \<leftarrow> c_str_at mem header;
          Some (mem, SetRequestHeader HTTP_HEADER_URI uri h)
        }
      | Some fnd \<Rightarrow> do {
          let mem = mem[fnd := NUL];
          uri \<leftarrow> c_str_at mem header;
          query \<leftarrow> c_str_at mem (fnd + 1);
          let h = SetRequestHeader HTTP_HEADER_ARGS query (SetRequestHeader HTTP_HEADER_URI uri h);
          (mem, args) \<leftarrow> http_args_loop mem (fnd + 1) (h_args h);
          Some (mem, h\<lparr>h_args := args\<rparr>)
        })
   }"

definition ParseHeader :: "string \<Rightarrow> http \<Rightarrow> (bool \<times> string \<times> http) option" where
  "ParseHeader mem h = do {
     let h = h\<lparr>h_request := Map.empty\<rparr>;
     tmp1 \<leftarrow> c_strstr mem 0 CRLF;
     (case tmp1 of
        None \<Rightarrow> Some (False, mem, h)
      | Some eol \<Rightarrow> do {
          let mem = mem[eol := NUL];
          let header = 4;
          sp \<leftarrow> c_strstr mem header '' '';
          (case sp of
             None \<Rightarrow> Some (False, mem, h)
           | Some sp \<Rightarrow> do {
               let mem = mem[sp := NUL];
               (mem, h) \<leftarrow> http_query mem header h;
               version \<leftarrow> c_str_at mem (sp + 1);
               let h = SetRequestHeader HTTP_HEADER_VERSION version h;
               (ok, mem, hash) \<leftarrow> http_lines True mem (eol + 2) (h_request h);
               Some (ok, mem, h\<lparr>h_request := hash\<rparr>)
             })
        })
   }"

definition ParseRespondHeader :: "string \<Rightarrow> http \<Rightarrow> (bool \<times> string \<times> http) option" where
  "ParseRespondHeader mem h = do {
     let h = h\<lparr>h_respond := Map.empty\<rparr>;
     tmp1 \<leftarrow> c_strstr mem 0 CRLF;
     (case tmp1 of
        None \<Rightarrow> Some (False, mem, h)
      | Some eol \<Rightarrow> do {
          let mem = mem[eol := NUL];
          let header = 9;
          sp \<leftarrow> c_strstr mem header '' '';
          (case sp of
             None \<Rightarrow> Some (False, mem, h)
           | Some sp \<Rightarrow> do {
               let mem = mem[sp := NUL];
               code \<leftarrow> c_str_at mem header;
               let h = h\<lparr>h_code := c_atoi code\<rparr>;
               (ok, mem, hash) \<leftarrow> http_lines False mem (eol + 2) (h_respond h);
               Some (ok, mem, h\<lparr>h_respond := hash\<rparr>)
             })
        })
   }"

definition CheckHeader :: "http \<Rightarrow> bool" where
  "CheckHeader h = (h_request h HTTP_HEADER_VERSION \<noteq> None)"

section \<open>The handlers\<close>

text \<open>
  What a subclass and the platform contribute: the virtual members, the date and the iteration order of
  a hash table.
\<close>

record http_env =
  he_sender :: http_sender
  he_handler :: "http \<Rightarrow> bool \<times> http"
  he_respond :: "string \<Rightarrow> int \<Rightarrow> http \<Rightarrow> bool \<times> http"
  he_date :: string
  he_enum :: "(string \<rightharpoonup> string) \<Rightarrow> (string \<times> string) list"

definition HTTPHandler :: "http \<Rightarrow> bool \<times> http" where
  "HTTPHandler h = (False, h)"

definition HTTPHandlerRespond :: "string \<Rightarrow> int \<Rightarrow> http \<Rightarrow> bool \<times> http" where
  "HTTPHandlerRespond d n h = (False, h)"

text \<open>
  The result is \<open>-1\<close>, or the number of bytes of the buffer that were used, as an \<open>int\<close>. The first definition is what follows when the
  end of the header has been found at \<open>fnd\<close>. The literal \<open>"\r\n\r\n"\<close> is a block of its own: \<^term>\<open>None\<close> is also a
  search that leaves it.
\<close>

definition http_found :: "http_env \<Rightarrow> string \<Rightarrow> nat \<Rightarrow> http \<Rightarrow> (int \<times> string \<times> http) option" where
  "http_found env data fnd h = do {
     let data = data[fnd := NUL];
     (ok, data, h) \<leftarrow> ParseHeader data h;
     (if \<not> ok then Some (-1, data, h)
      else if \<not> CheckHeader h then
        (let (_, h) = SendHead (he_sender env) (he_date env) (he_enum env) ''400 Bad Request'' ''text/html'' h
         in Some (-1, data, h))
      else let (ok, h) = he_handler env h in
        if \<not> ok then Some (-1, data, h) else Some (i32 (int fnd) + 4, data, h))
   }"

definition HandlerProtocol :: "http_env \<Rightarrow> string \<Rightarrow> nat \<Rightarrow> http \<Rightarrow> (int \<times> string \<times> http) option" where
  "HandlerProtocol env data len h = do {
     fnd \<leftarrow> (if i32 (int len) < 0 then Some None else rstrstr data 0 len (CRLF @ CRLF @ [NUL]) 0 4);
     (case fnd of
        None \<Rightarrow> Some (0, data, h)
      | Some fnd \<Rightarrow> http_found env data fnd h)
   }"

text \<open>The part of \<open>HandlerProtocolRespond\<close> after the header: \<open>off\<close> is where the body starts.\<close>

definition http_body ::
  "http_env \<Rightarrow> string \<Rightarrow> nat \<Rightarrow> nat \<Rightarrow> http \<Rightarrow> (int \<times> string \<times> http) option" where
  "http_body env data off len h =
     (if h_content_length h = 0 then Some (-1, data, h)
      else if h_content_length h > i32 (int len) then Some (i32 (int off), data, h)
      else let (ok, h) = he_respond env (drop off data) (h_content_length h) h in
        if \<not> ok then Some (-1, data, h) else Some (i32 (int (off + len)), data, h))"

definition HandlerProtocolRespond ::
  "http_env \<Rightarrow> string \<Rightarrow> nat \<Rightarrow> http \<Rightarrow> (int \<times> string \<times> http) option" where
  "HandlerProtocolRespond env data len h =
     (if h_content_length h \<noteq> -1 then http_body env data 0 len h
      else if 4 > len then Some (0, data, h)
      else if length data < len then None
      else do {
        let bak = data ! (len - 1);
        let data = data[len - 1 := NUL];
        fnd \<leftarrow> c_strstr data 0 [CR, LF, CR];
        (case fnd of
           None \<Rightarrow> Some (0, data[len - 1 := bak], h)
         | Some fnd \<Rightarrow> do {
             let data = data[fnd := NUL, len - 1 := bak];
             (ok, data, h) \<leftarrow> ParseRespondHeader data h;
             (if \<not> ok then Some (-1, data, h)
              else case h_respond h HTTP_CONTENT_LENGTH of
                None \<Rightarrow> Some (-1, data, h)
              | Some v \<Rightarrow> do {
                  s \<leftarrow> c_str_at (v @ [NUL]) 0;
                  http_body env data (fnd + 4) (sub32 len (fnd + 4)) (h\<lparr>h_content_length := c_atoi s\<rparr>)
                })
           })
      })"

section \<open>The text of a request\<close>

definition request_line :: "string \<Rightarrow> string \<Rightarrow> string" where
  "request_line uri version = ''GET '' @ uri @ '' '' @ version"

definition key_ok :: "string \<Rightarrow> bool" where
  "key_ok k \<longleftrightarrow> NUL \<notin> set k \<and> CR \<notin> set k \<and> CHR '':'' \<notin> set k"

definition text_ok :: "string \<Rightarrow> bool" where
  "text_ok v \<longleftrightarrow> NUL \<notin> set v \<and> CR \<notin> set v"

definition headers_ok :: "(string \<times> string) list \<Rightarrow> bool" where
  "headers_ok hs \<longleftrightarrow> list_all (\<lambda>(k, v). key_ok k \<and> text_ok v) hs"

fun hash_add :: "(string \<times> string) list \<Rightarrow> (string \<rightharpoonup> string) \<Rightarrow> (string \<rightharpoonup> string)" where
  "hash_add [] m = m"
| "hash_add (kv # hs) m = hash_add hs (m(fst kv \<mapsto> snd kv))"

fun header_block :: "(string \<times> string) list \<Rightarrow> string" where
  "header_block [] = []"
| "header_block [kv] = fst kv @ '': '' @ snd kv"
| "header_block (kv # kv' # hs) = fst kv @ '': '' @ snd kv @ CRLF @ header_block (kv' # hs)"

lemma header_block_Cons: "hs \<noteq> [] \<Longrightarrow> header_block (kv # hs) = fst kv @ '': '' @ snd kv @ CRLF @ header_block hs"
  by (cases hs) simp_all

lemma concat_header_lines:
  "hs \<noteq> [] \<Longrightarrow> concat (map header_line hs) = header_block hs @ CRLF"
  by (induction hs rule: header_block.induct) (simp_all add: header_line_def)

lemma list_update_pre [simp]: "(pre @ x)[length pre + i := c] = pre @ x[i := c]"
  by (simp add: list_update_append)

lemma list_update_at [simp]: "(t @ a # u)[length t := c] = t @ c # u"
  by (simp add: list_update_append)

lemma line_strstr_crlf:
  assumes "key_ok k" and "text_ok v"
  shows "c_strstr (pre @ k @ CHR '':'' # CHR '' '' # v @ CR # LF # t) (length pre) CRLF =
     Some (Some (length pre + (length k + 2 + length v)))"
proof -
  have "c_strstr ((k @ CHR '':'' # CHR '' '' # v) @ CRLF @ t) 0 CRLF =
      Some (Some (length (k @ CHR '':'' # CHR '' '' # v)))"
    using assms by (intro c_strstr_first) (auto simp: key_ok_def text_ok_def)
  then show ?thesis
    by (simp add: c_strstr_append0)
qed

lemma http_lines_step:
  assumes "key_ok k" and "text_ok v"
  shows "http_lines ok (pre @ k @ CHR '':'' # CHR '' '' # v @ CR # LF # t) (length pre) m =
     http_lines ok (pre @ k @ NUL # CHR '' '' # v @ NUL # LF # t) (length pre + (length k + 2 + length v) + 2)
       (m(k \<mapsto> v))"
proof -
  let ?eol = "length pre + (length k + 2 + length v)"
  let ?mem = "pre @ k @ CHR '':'' # CHR '' '' # v @ CR # LF # t"
  have m1: "?mem[?eol := NUL] = pre @ k @ CHR '':'' # CHR '' '' # v @ NUL # LF # t"
    using list_update_at [of "pre @ k @ CHR '':'' # CHR '' '' # v" CR "LF # t" NUL] by (simp add: add_ac)
  have colon: "c_strstr (pre @ k @ CHR '':'' # CHR '' '' # v @ NUL # LF # t) (length pre) '':'' =
      Some (Some (length pre + length k))"
    using assms c_strstr_char [of "CHR '':''" k "CHR '' '' # v @ NUL # LF # t"]
    by (simp add: c_strstr_append0 key_ok_def)
  have m2: "(pre @ k @ CHR '':'' # CHR '' '' # v @ NUL # LF # t)[length pre + length k := NUL] =
      pre @ k @ NUL # CHR '' '' # v @ NUL # LF # t"
    by simp
  have key: "c_str_at (pre @ k @ NUL # CHR '' '' # v @ NUL # LF # t) (length pre) = Some k"
    using assms by (simp add: key_ok_def)
  have val: "c_str_at (pre @ k @ NUL # CHR '' '' # v @ NUL # LF # t) (length pre + length k + 2) = Some v"
    using assms c_str_at_append0 [of "pre @ k @ [NUL, CHR '' '']" "v @ NUL # LF # t"]
    by (simp add: text_ok_def add_ac)
  show ?thesis
    by (subst http_lines.simps) (simp only: line_strstr_crlf [OF assms] m1 colon m2 key val option.case prod.case)
qed

lemma http_lines_last:
  assumes "key_ok k" and "text_ok v"
  shows "http_lines ok (pre @ k @ CHR '':'' # CHR '' '' # v @ NUL # t) (length pre) m =
     Some (True, pre @ k @ NUL # CHR '' '' # v @ NUL # t, m(k \<mapsto> v))"
proof -
  have "c_strstr ((k @ CHR '':'' # CHR '' '' # v) @ NUL # t) 0 CRLF = Some None"
    using assms by (intro c_strstr_absent) (auto simp: key_ok_def text_ok_def)
  then have eol: "c_strstr (pre @ k @ CHR '':'' # CHR '' '' # v @ NUL # t) (length pre) CRLF = Some None"
    by (simp add: c_strstr_append0)
  have colon: "c_strstr (pre @ k @ CHR '':'' # CHR '' '' # v @ NUL # t) (length pre) '':'' =
      Some (Some (length pre + length k))"
    using assms c_strstr_char [of "CHR '':''" k "CHR '' '' # v @ NUL # t"]
    by (simp add: c_strstr_append0 key_ok_def)
  have key: "c_str_at (pre @ k @ NUL # CHR '' '' # v @ NUL # t) (length pre) = Some k"
    using assms by (simp add: key_ok_def)
  have val: "c_str_at (pre @ k @ NUL # CHR '' '' # v @ NUL # t) (length pre + length k + 2) = Some v"
    using assms c_str_at_append0 [of "pre @ k @ [NUL, CHR '' '']" "v @ NUL # t"]
    by (simp add: text_ok_def add_ac)
  show ?thesis
    using key val by (subst http_lines.simps) (simp add: eol colon)
qed

lemma http_lines_empty:
  "http_lines ok (pre @ NUL # t) (length pre) m = Some (ok, pre @ NUL # t, m)"
  by (subst http_lines.simps)
     (simp add: c_strstr_append0 c_strstr_absent [of _ "[]", simplified])

lemma http_lines_block:
  assumes "headers_ok hs"
  shows "\<exists>x. length x = length (header_block hs) \<and>
     http_lines ok (pre @ header_block hs @ NUL # t) (length pre) m =
       Some (hs \<noteq> [] \<or> ok, pre @ x @ NUL # t, hash_add hs m)"
  using assms
proof (induction hs arbitrary: pre m rule: header_block.induct)
  case 1
  then show ?case
    by (simp add: http_lines_empty)
next
  case (2 kv)
  obtain k v where kv: "kv = (k, v)"
    by (cases kv)
  then have ok: "key_ok k" "text_ok v"
    using "2.prems" by (simp_all add: headers_ok_def)
  have "http_lines ok (pre @ header_block [kv] @ NUL # t) (length pre) m =
      Some ([kv] \<noteq> [] \<or> ok, pre @ (k @ NUL # CHR '' '' # v) @ NUL # t, hash_add [kv] m)"
    by (simp only: kv hash_add.simps fst_conv snd_conv header_block.simps append.simps append_assoc
        http_lines_last [OF ok] simp_thms list.distinct)
  moreover have "length (k @ NUL # CHR '' '' # v) = length (header_block [kv])"
    by (simp add: kv)
  ultimately show ?case
    by blast
next
  case (3 kv kv' hs)
  obtain k v where kv: "kv = (k, v)"
    by (cases kv)
  then have ok: "key_ok k" "text_ok v" "headers_ok (kv' # hs)"
    using "3.prems" by (simp_all add: headers_ok_def)
  let ?pre = "pre @ k @ NUL # CHR '' '' # v @ NUL # [LF]"
  have "http_lines ok (pre @ header_block (kv # kv' # hs) @ NUL # t) (length pre) m =
      http_lines ok (?pre @ header_block (kv' # hs) @ NUL # t) (length ?pre) (m(k \<mapsto> v))"
    using http_lines_step [OF ok(1,2), of ok pre "header_block (kv' # hs) @ NUL # t" m]
    by (simp add: kv add_ac)
  moreover obtain x where x: "length x = length (header_block (kv' # hs))"
    "http_lines ok (?pre @ header_block (kv' # hs) @ NUL # t) (length ?pre) (m(k \<mapsto> v)) =
      Some (kv' # hs \<noteq> [] \<or> ok, ?pre @ x @ NUL # t, hash_add (kv' # hs) (m(k \<mapsto> v)))"
    using "3.IH" [OF ok(3)] by blast
  ultimately have "http_lines ok (pre @ header_block (kv # kv' # hs) @ NUL # t) (length pre) m =
      Some (kv # kv' # hs \<noteq> [] \<or> ok, pre @ (k @ NUL # CHR '' '' # v @ NUL # LF # x) @ NUL # t,
        hash_add (kv # kv' # hs) m)"
    by (simp only: kv hash_add.simps fst_conv snd_conv) simp
  moreover have "length (k @ NUL # CHR '' '' # v @ NUL # LF # x) = length (header_block (kv # kv' # hs))"
    using x(1) by (simp add: kv)
  ultimately show ?case
    by blast
qed

text \<open>The same with a line end after the last line, as \<open>HandlerProtocol\<close> may leave one.\<close>

lemma http_lines_block_crlf:
  assumes "headers_ok hs"
  shows "\<exists>mem. http_lines ok (pre @ concat (map header_line hs) @ NUL # t) (length pre) m =
     Some (ok, mem, hash_add hs m)"
  using assms
proof (induction hs arbitrary: pre m)
  case Nil
  then show ?case
    by (simp add: http_lines_empty)
next
  case (Cons kv hs)
  obtain k v where kv: "kv = (k, v)"
    by (cases kv)
  then have ok: "key_ok k" "text_ok v" "headers_ok hs"
    using Cons.prems by (simp_all add: headers_ok_def)
  let ?pre = "pre @ k @ NUL # CHR '' '' # v @ NUL # [LF]"
  have "http_lines ok (pre @ concat (map header_line (kv # hs)) @ NUL # t) (length pre) m =
      http_lines ok (?pre @ concat (map header_line hs) @ NUL # t) (length ?pre) (m(k \<mapsto> v))"
    using http_lines_step [OF ok(1,2), of ok pre "concat (map header_line hs) @ NUL # t" m]
    by (simp add: kv header_line_def add_ac)
  then show ?case
    using Cons.IH [OF ok(3), of ?pre "m(k \<mapsto> v)"] by (simp only: kv hash_add.simps fst_conv snd_conv)
qed

definition arg_ok :: "string \<times> string \<Rightarrow> bool" where
  "arg_ok kv \<longleftrightarrow> NUL \<notin> set (fst kv) \<and> NUL \<notin> set (snd kv) \<and> CHR ''='' \<notin> set (fst kv) \<and>
     CHR ''&'' \<notin> set (fst kv) \<and> CHR ''&'' \<notin> set (snd kv) \<and> CHR '' '' \<notin> set (fst kv) \<and>
     CHR '' '' \<notin> set (snd kv) \<and> CR \<notin> set (fst kv) \<and> CR \<notin> set (snd kv)"

fun arg_block :: "(string \<times> string) list \<Rightarrow> string" where
  "arg_block [] = []"
| "arg_block [kv] = fst kv @ ''='' @ snd kv"
| "arg_block (kv # kv' # q) = fst kv @ ''='' @ snd kv @ ''&'' @ arg_block (kv' # q)"

lemma http_arg_spec:
  assumes "NUL \<notin> set k" and "NUL \<notin> set v" and "CHR ''='' \<notin> set k"
  shows "http_arg (pre @ k @ CHR ''='' # v @ NUL # t) (length pre) m =
     Some (pre @ k @ NUL # v @ NUL # t, m(k \<mapsto> v))"
proof -
  have "c_strstr (pre @ k @ CHR ''='' # v @ NUL # t) (length pre) ''='' = Some (Some (length pre + length k))"
    using assms c_strstr_char [of "CHR ''=''" k "v @ NUL # t"] by (simp add: c_strstr_append0)
  moreover have "c_str_at (pre @ k @ NUL # v @ NUL # t) (length pre + length k + 1) = Some v"
    using assms c_str_at_append0 [of "pre @ k @ [NUL]" "v @ NUL # t"] by simp
  ultimately show ?thesis
    using assms by (simp add: http_arg_def)
qed

lemma http_args_last:
  assumes "arg_ok (k, v)"
  shows "http_args_loop (pre @ k @ CHR ''='' # v @ NUL # t) (length pre) m =
     Some (pre @ k @ NUL # v @ NUL # t, m(k \<mapsto> v))"
proof -
  have "c_strstr ((k @ CHR ''='' # v) @ NUL # t) 0 ''&'' = Some None"
    using assms by (intro c_strstr_absent) (auto simp: arg_ok_def)
  then have "c_strstr (pre @ k @ CHR ''='' # v @ NUL # t) (length pre) ''&'' = Some None"
    by (simp add: c_strstr_append0)
  then show ?thesis
    using assms by (subst http_args_loop.simps) (simp add: http_arg_spec arg_ok_def)
qed

lemma http_args_step:
  assumes "arg_ok (k, v)"
  shows "http_args_loop (pre @ k @ CHR ''='' # v @ CHR ''&'' # t) (length pre) m =
     http_args_loop (pre @ k @ NUL # v @ NUL # t) (length pre + (length k + 1 + length v) + 1) (m(k \<mapsto> v))"
proof -
  have "c_strstr ((k @ CHR ''='' # v) @ CHR ''&'' # t) 0 ''&'' = Some (Some (length (k @ CHR ''='' # v)))"
    using assms by (intro c_strstr_char) (auto simp: arg_ok_def)
  then have amp: "c_strstr (pre @ k @ CHR ''='' # v @ CHR ''&'' # t) (length pre) ''&'' =
      Some (Some (length pre + (length k + 1 + length v)))"
    by (simp add: c_strstr_append0)
  have m1: "(pre @ k @ CHR ''='' # v @ CHR ''&'' # t)[length pre + (length k + 1 + length v) := NUL] =
      pre @ k @ CHR ''='' # v @ NUL # t"
    using list_update_at [of "pre @ k @ CHR ''='' # v" "CHR ''&''" t NUL] by (simp add: add_ac)
  have step: "http_arg (pre @ k @ CHR ''='' # v @ NUL # t) (length pre) m =
      Some (pre @ k @ NUL # v @ NUL # t, m(k \<mapsto> v))"
    using assms by (intro http_arg_spec) (simp_all add: arg_ok_def)
  show ?thesis
    by (subst http_args_loop.simps) (simp only: amp m1 step option.case prod.case)
qed

lemma http_args_block:
  assumes "q \<noteq> []" and "list_all arg_ok q"
  shows "\<exists>x. length x = length (arg_block q) \<and>
     http_args_loop (pre @ arg_block q @ NUL # t) (length pre) m = Some (pre @ x @ NUL # t, hash_add q m)"
  using assms
proof (induction q arbitrary: pre m rule: arg_block.induct)
  case (2 kv)
  obtain k v where kv: "kv = (k, v)"
    by (cases kv)
  then have "http_args_loop (pre @ arg_block [kv] @ NUL # t) (length pre) m =
      Some (pre @ (k @ NUL # v) @ NUL # t, hash_add [kv] m)"
    using "2.prems" http_args_last [of k v pre t m] by simp
  moreover have "length (k @ NUL # v) = length (arg_block [kv])"
    by (simp add: kv)
  ultimately show ?case
    by blast
next
  case (3 kv kv' q)
  obtain k v where kv: "kv = (k, v)"
    by (cases kv)
  then have ok: "arg_ok (k, v)" "kv' # q \<noteq> []" "list_all arg_ok (kv' # q)"
    using "3.prems" by simp_all
  let ?pre = "pre @ k @ NUL # v @ [NUL]"
  obtain x where x: "length x = length (arg_block (kv' # q))"
    "http_args_loop (?pre @ arg_block (kv' # q) @ NUL # t) (length ?pre) (m(k \<mapsto> v)) =
      Some (?pre @ x @ NUL # t, hash_add (kv' # q) (m(k \<mapsto> v)))"
    using "3.IH" [OF ok(2,3)] by blast
  have "http_args_loop (pre @ arg_block (kv # kv' # q) @ NUL # t) (length pre) m =
      http_args_loop (?pre @ arg_block (kv' # q) @ NUL # t) (length ?pre) (m(k \<mapsto> v))"
    using http_args_step [OF ok(1), of pre "arg_block (kv' # q) @ NUL # t" m] by (simp add: kv add_ac)
  also have "\<dots> = Some (pre @ (k @ NUL # v @ NUL # x) @ NUL # t, hash_add (kv # kv' # q) m)"
    by (simp only: x(2) kv hash_add.simps fst_conv snd_conv) simp
  finally show ?case
    using x(1) by (intro exI [of _ "k @ NUL # v @ NUL # x"]) (simp add: kv)
qed simp

text \<open>The target of a request: a path and, if it has arguments, the query.\<close>

definition target :: "string \<Rightarrow> (string \<times> string) list \<Rightarrow> string" where
  "target uri q = (if q = [] then uri else uri @ ''?'' @ arg_block q)"

definition uri_ok :: "string \<Rightarrow> bool" where
  "uri_ok u \<longleftrightarrow> NUL \<notin> set u \<and> CR \<notin> set u \<and> CHR '' '' \<notin> set u \<and> CHR ''?'' \<notin> set u"

definition http_parsed :: "string \<Rightarrow> (string \<times> string) list \<Rightarrow> http \<Rightarrow> http" where
  "http_parsed uri q h =
     (if q = [] then SetRequestHeader HTTP_HEADER_URI uri h
      else (SetRequestHeader HTTP_HEADER_ARGS (arg_block q) (SetRequestHeader HTTP_HEADER_URI uri h))
        \<lparr>h_args := hash_add q (h_args h)\<rparr>)"

lemma arg_block_chars:
  "list_all arg_ok q \<Longrightarrow> NUL \<notin> set (arg_block q) \<and> CR \<notin> set (arg_block q) \<and> CHR '' '' \<notin> set (arg_block q)"
  by (induction q rule: arg_block.induct) (auto simp: arg_ok_def)

lemma http_query_spec:
  assumes "uri_ok uri" and "list_all arg_ok q"
  shows "\<exists>x. length x = length (target uri q) \<and>
     http_query (pre @ target uri q @ NUL # t) (length pre) h = Some (pre @ x @ NUL # t, http_parsed uri q h)"
proof (cases "q = []")
  case True
  have "c_strstr (uri @ NUL # t) 0 ''?'' = Some None"
    using assms by (intro c_strstr_absent) (auto simp: uri_ok_def)
  then show ?thesis
    using True assms
    by (intro exI [of _ uri]) (simp add: target_def http_query_def c_strstr_append0 http_parsed_def uri_ok_def)
next
  case False
  let ?pre = "pre @ uri @ [NUL]" and ?q = "arg_block q"
  have q: "NUL \<notin> set ?q"
    using arg_block_chars [OF assms(2)] by simp
  have mark: "c_strstr (pre @ uri @ CHR ''?'' # ?q @ NUL # t) (length pre) ''?'' = Some (Some (length pre + length uri))"
    using assms(1) c_strstr_char [of "CHR ''?''" uri "?q @ NUL # t"] by (simp add: c_strstr_append0 uri_ok_def)
  have query: "c_str_at (pre @ uri @ NUL # ?q @ NUL # t) (length pre + length uri + 1) = Some ?q"
    using q c_str_at_append0 [of ?pre "?q @ NUL # t"] by simp
  obtain x where x: "length x = length ?q"
    "http_args_loop (?pre @ ?q @ NUL # t) (length ?pre) (h_args h) = Some (?pre @ x @ NUL # t, hash_add q (h_args h))"
    using http_args_block [OF False assms(2)] by blast
  have "http_query (pre @ target uri q @ NUL # t) (length pre) h =
      Some (pre @ (uri @ NUL # x) @ NUL # t, http_parsed uri q h)"
    using False mark query x(2) assms(1)
    by (simp add: target_def http_query_def http_parsed_def uri_ok_def SetRequestHeader_def)
  then show ?thesis
    using x(1) False by (intro exI [of _ "uri @ NUL # x"]) (simp add: target_def)
qed

text \<open>The result of parsing a whole request.\<close>

definition http_request_of ::
  "string \<Rightarrow> (string \<times> string) list \<Rightarrow> string \<Rightarrow> (string \<times> string) list \<Rightarrow> http \<Rightarrow> http" where
  "http_request_of uri q version hs h =
     (let h = SetRequestHeader HTTP_HEADER_VERSION version (http_parsed uri q (h\<lparr>h_request := Map.empty\<rparr>))
      in h\<lparr>h_request := hash_add hs (h_request h)\<rparr>)"

lemma target_chars:
  "uri_ok uri \<Longrightarrow> list_all arg_ok q \<Longrightarrow>
     NUL \<notin> set (target uri q) \<and> CR \<notin> set (target uri q) \<and> CHR '' '' \<notin> set (target uri q)"
  using arg_block_chars [of q] by (auto simp: target_def uri_ok_def)

lemma ParseHeader_lines:
  assumes u: "uri_ok uri" and q: "list_all arg_ok q" and v: "text_ok version"
    and lines: "\<And>pre m. \<exists>mem. http_lines True (pre @ block @ NUL # t) (length pre) m = Some (True, mem, hash_add hs m)"
  shows "\<exists>mem. ParseHeader (request_line (target uri q) version @ CRLF @ block @ NUL # t) h =
     Some (True, mem, http_request_of uri q version hs h)"
proof -
  let ?g = "''GET ''" and ?t = "target uri q" and ?r = "LF # block @ NUL # t"
  let ?h = "h\<lparr>h_request := Map.empty\<rparr>"
  note tc = target_chars [OF u q]
  have len4: "length ?g = 4"
    by simp
  let ?line = "?g @ ?t @ CHR '' '' # version"
  have "c_strstr (?line @ CRLF @ block @ NUL # t) 0 CRLF = Some (Some (length ?line))"
    using tc v by (intro c_strstr_first) (auto simp: text_ok_def)
  then have eol: "c_strstr (?g @ ?t @ CHR '' '' # version @ CR # ?r) 0 CRLF = Some (Some (length ?line))"
    by simp
  have m1: "(?g @ ?t @ CHR '' '' # version @ CR # ?r)[length ?line := NUL] = ?g @ ?t @ CHR '' '' # version @ NUL # ?r"
    using list_update_at [of ?line CR ?r NUL] by simp
  have "c_strstr (?g @ ?t @ CHR '' '' # version @ NUL # ?r) (length ?g) '' '' = Some (Some (length ?g + length ?t))"
    using tc c_strstr_char [of "CHR '' ''" ?t "version @ NUL # ?r"] by (simp only: c_strstr_append0) simp
  then have sp: "c_strstr (?g @ ?t @ CHR '' '' # version @ NUL # ?r) 4 '' '' = Some (Some (length (?g @ ?t)))"
    by (simp only: len4 length_append)
  have m2: "(?g @ ?t @ CHR '' '' # version @ NUL # ?r)[length (?g @ ?t) := NUL] = ?g @ ?t @ NUL # version @ NUL # ?r"
    using list_update_at [of "?g @ ?t" "CHR '' ''" "version @ NUL # ?r" NUL] by simp
  obtain x where x: "length x = length ?t"
    "http_query (?g @ ?t @ NUL # version @ NUL # ?r) (length ?g) ?h =
      Some (?g @ x @ NUL # version @ NUL # ?r, http_parsed uri q ?h)"
    using http_query_spec [OF u q] by blast
  then have query: "http_query (?g @ ?t @ NUL # version @ NUL # ?r) 4 ?h =
      Some (?g @ x @ NUL # version @ NUL # ?r, http_parsed uri q ?h)"
    by (simp only: len4)
  have "c_str_at ((?g @ x @ [NUL]) @ version @ NUL # ?r) (length (?g @ x @ [NUL])) = Some version"
    using v by (simp only: c_str_at_append0) (simp add: text_ok_def)
  then have ver: "c_str_at (?g @ x @ NUL # version @ NUL # ?r) (length (?g @ ?t) + 1) = Some version"
    using x(1) by simp
  let ?pre = "?g @ x @ NUL # version @ [NUL, LF]"
  have pre: "?g @ x @ NUL # version @ NUL # ?r = ?pre @ block @ NUL # t" "length ?line + 2 = length ?pre"
    using x(1) by simp_all
  let ?h1 = "SetRequestHeader HTTP_HEADER_VERSION version (http_parsed uri q ?h)"
  obtain mem where lns: "http_lines True (?pre @ block @ NUL # t) (length ?pre) (h_request ?h1) =
      Some (True, mem, hash_add hs (h_request ?h1))"
    using lines by blast
  have "ParseHeader (?g @ ?t @ CHR '' '' # version @ CR # ?r) h = Some (True, mem, http_request_of uri q version hs h)"
    unfolding ParseHeader_def Let_def eol Option.bind.bind_lunit option.case m1 sp m2 query prod.case ver
    unfolding pre lns by (simp add: http_request_of_def Let_def)
  then show ?thesis
    by (auto simp: request_line_def)
qed

lemma ParseHeader_spec:
  assumes "uri_ok uri" and "list_all arg_ok q" and "text_ok version" and "headers_ok hs"
  shows "\<exists>mem. ParseHeader (request_line (target uri q) version @ CRLF @ header_block hs @ NUL # t) h =
     Some (True, mem, http_request_of uri q version hs h)"
proof (intro ParseHeader_lines [OF assms(1-3)])
  fix pre m
  show "\<exists>mem. http_lines True (pre @ header_block hs @ NUL # t) (length pre) m = Some (True, mem, hash_add hs m)"
    using http_lines_block [OF assms(4), of True pre t m] by auto
qed

lemma hash_add_dom: "k \<in> dom m \<Longrightarrow> k \<in> dom (hash_add hs m)"
  by (induction hs arbitrary: m) auto

lemma CheckHeader_request [simp]: "CheckHeader (http_request_of uri q version hs h)"
  using hash_add_dom [of HTTP_HEADER_VERSION]
  by (auto simp: CheckHeader_def http_request_of_def SetRequestHeader_def Let_def domIff)

text \<open>The text of a complete request, up to the blank line.\<close>

definition request_text :: "string \<Rightarrow> (string \<times> string) list \<Rightarrow> string \<Rightarrow> (string \<times> string) list \<Rightarrow> string" where
  "request_text uri q version hs = request_line (target uri q) version @ CRLF @ header_block hs"

lemma http_found_parsed:
  assumes parse: "ParseHeader (data[n := NUL]) h = Some (True, mem, h1)"
    and "CheckHeader h1" and "he_handler env h1 = (True, h2)" and "n < 2 ^ 31"
  shows "http_found env data n h = Some (int n + 4, mem, h2)"
  using assms by (simp add: http_found_def i32_small)

lemma http_request_parsed_helper:
  assumes "uri_ok uri" and "list_all arg_ok q" and "text_ok version" and "headers_ok hs" and "hs \<noteq> []"
    and data: "data = request_text uri q version hs @ CRLF @ CRLF @ body"
    and len: "length (request_text uri q version hs) < 2 ^ 31"
    and acc: "he_handler env (http_request_of uri q version hs h) = (True, h')"
  shows "\<exists>mem. http_found env data (length (request_text uri q version hs)) h =
     Some (int (length (request_text uri q version hs @ CRLF @ CRLF)), mem, h')"
proof -
  let ?n = "length (request_text uri q version hs)"
  obtain mem where "ParseHeader (request_line (target uri q) version @ CRLF @ header_block hs @ NUL # LF # CR # LF # body) h =
      Some (True, mem, http_request_of uri q version hs h)"
    using ParseHeader_spec assms by blast
  moreover have "data[?n := NUL] = request_text uri q version hs @ NUL # LF # CR # LF # body"
    using list_update_at [of "request_text uri q version hs" CR "LF # CR # LF # body" NUL] by (simp add: data)
  ultimately have "ParseHeader (data[?n := NUL]) h = Some (True, mem, http_request_of uri q version hs h)"
    by (simp add: request_text_def)
  from http_found_parsed [OF this _ acc len] show ?thesis
    by simp
qed

section \<open>Properties\<close>

text \<open>
  C13: Once the end of its header has been found, a request with its path, query arguments, version and header lines is parsed
  into exactly its parts, whatever follows it: the handler sees a request table made of the path, the
  query, the version and the header lines, and an argument table extended by the query's arguments, and when
  it accepts the bytes up to the end of the blank line are used. The header is shorter than 2 GiB.
\<close>
theorem http_request_parsed:
  assumes "uri_ok uri" and "list_all arg_ok q" and "text_ok version" and "headers_ok hs" and "hs \<noteq> []"
    and data: "data = request_text uri q version hs @ CRLF @ CRLF @ body"
    and len: "length (request_text uri q version hs) < 2 ^ 31"
    and acc: "he_handler env (http_request_of uri q version hs h) = (True, h')"
  shows "\<exists>mem. http_found env data (length (request_text uri q version hs)) h =
     Some (int (length (request_text uri q version hs @ CRLF @ CRLF)), mem, h')"
  using assms by (rule http_request_parsed_helper)

text \<open>An environment for the witnesses: a handler that accepts, and nothing unusual in memory.\<close>

definition http_demo_env :: http_env where
  "http_demo_env = \<lparr>he_sender = (\<lambda>_ _. True), he_handler = (\<lambda>h. (True, h)), he_respond = (\<lambda>_ _ h. (True, h)),
     he_date = ''now'', he_enum = (\<lambda>_. [])\<rparr>"

lemma http_request_parsed_witness:
  "\<exists>mem. http_found http_demo_env
     (request_text ''/chat'' [(''a'', ''1''), (''b'', ''2'')] ''HTTP/1.1'' [(''Host'', ''h:80''), (''Accept'', ''*'')] @ CRLF @ CRLF @ ''body'')
     (length (request_text ''/chat'' [(''a'', ''1''), (''b'', ''2'')] ''HTTP/1.1'' [(''Host'', ''h:80''), (''Accept'', ''*'')]))
     http_new =
   Some (int (length (request_text ''/chat'' [(''a'', ''1''), (''b'', ''2'')] ''HTTP/1.1'' [(''Host'', ''h:80''), (''Accept'', ''*'')] @ CRLF @ CRLF)),
     mem, http_request_of ''/chat'' [(''a'', ''1''), (''b'', ''2'')] ''HTTP/1.1'' [(''Host'', ''h:80''), (''Accept'', ''*'')] http_new)"
  by (rule http_request_parsed [where body = "''body''"])
     (simp_all add: http_demo_env_def uri_ok_def arg_ok_def text_ok_def headers_ok_def key_ok_def request_text_def target_def request_line_def)

text \<open>
  The search for the end of a header is undefined on every request. On any data of less than 2 GiB \<open>HandlerProtocol\<close> does one
  of two things: it waits for more, leaving data and state alone, or, as soon as a carriage return lies at least four
  characters before the end, \<open>rstrstr\<close> compares with the memory before its literal, which is undefined behaviour. No
  request is handled in a defined way, for a request holds such a carriage return before its end is reached.
\<close>
lemma http_search_undefined:
  assumes "len \<le> length data" and "len < 2 ^ 31"
  shows "HandlerProtocol env data len h = (if CR \<in> set (take (len - 3) data) then None else Some (0, data, h))"
proof (cases "4 \<le> len")
  case True
  have sizes: "length (CRLF @ CRLF) = 4" "length [LF, CR, LF] = 3"
    by simp_all
  have "rstrstr data 0 len ((CRLF @ CRLF) @ [NUL]) 0 4 = (if CR \<in> set (take (len - 3) data) then None else Some None)"
    using rstrstr_literal [of CR len data "CRLF @ CRLF" "[LF, CR, LF]", unfolded sizes] assms(1) True by simp
  then show ?thesis
    using assms by (simp add: HandlerProtocol_def i32_small)
next
  case False
  then have "len - 3 = 0" "rstrstr data 0 len (CRLF @ CRLF @ [NUL]) 0 4 = Some None"
    by (simp_all add: rstrstr_def)
  then show ?thesis
    using assms by (simp add: HandlerProtocol_def i32_small)
qed

lemma http_search_undefined_witness:
  "HandlerProtocol http_demo_env (''GET / HTTP/1.1'' @ CRLF @ CRLF) 18 http_new = None \<and>
   HandlerProtocol http_demo_env ''GET / HTTP/1.1'' 14 http_new = Some (0, ''GET / HTTP/1.1'', http_new)"
  using http_search_undefined [of 18 "''GET / HTTP/1.1'' @ CRLF @ CRLF" http_demo_env http_new]
    http_search_undefined [of 14 "''GET / HTTP/1.1''" http_demo_env http_new]
  by simp

text \<open>
  C30: What the client sends with \<open>HTTPGet\<close> ends with its blank line and is understood by the server side once that is found: the
  server uses all of it and its tables hold the path, the arguments, the version \<open>HTTP/1.1\<close> and every header line of
  the client. The request is shorter than 2 GiB.
\<close>
theorem http_client_server:
  assumes "uri_ok uri" and "list_all arg_ok q" and "headers_ok hs" and "hs \<noteq> []"
    and req: "h_request c HTTP_HEADER_URI = Some (target uri q)"
    and hs: "hs = filter (\<lambda>kv. fst kv \<noteq> HTTP_HEADER_PORT \<and> fst kv \<noteq> HTTP_HEADER_URI) (enum (h_request c))"
    and len: "length (request_text uri q ''HTTP/1.1'' hs) < 2 ^ 31"
    and acc: "\<And>h. he_handler env h = (True, h)"
  shows "\<exists>d mem. h_sent (snd (HTTPGet sender enum c)) = h_sent c @ [d] \<and> drop (length d - 4) d = CRLF @ CRLF \<and>
     http_found env d (length d - 4) s = Some (int (length d), mem, http_request_of uri q ''HTTP/1.1'' hs s)"
proof -
  let ?r = "request_text uri q ''HTTP/1.1'' hs"
  have "h_sent (snd (HTTPGet sender enum c)) = h_sent c @ [?r @ CRLF @ CRLF]"
    using req concat_header_lines [OF \<open>hs \<noteq> []\<close>]
    by (simp add: HTTPGet_def hash_get_def http_send_def request_text_def request_line_def flip: hs)
  moreover have "\<exists>mem. http_found env (?r @ CRLF @ CRLF @ []) (length ?r) s =
      Some (int (length (?r @ CRLF @ CRLF)), mem, http_request_of uri q ''HTTP/1.1'' hs s)"
    using assms by (intro http_request_parsed_helper) (auto simp: text_ok_def)
  then obtain mem where "http_found env (?r @ CRLF @ CRLF) (length ?r) s =
      Some (int (length (?r @ CRLF @ CRLF)), mem, http_request_of uri q ''HTTP/1.1'' hs s)"
    by auto
  ultimately show ?thesis
    by (intro exI [of _ "?r @ CRLF @ CRLF"] exI [of _ mem]) simp
qed

definition http_demo_client :: http where
  "http_demo_client = http_new\<lparr>h_request := [''uri'' \<mapsto> ''/live.flv'', ''Host'' \<mapsto> ''h'', ''Port'' \<mapsto> ''80'']\<rparr>"

definition http_demo_enum :: "(string \<rightharpoonup> string) \<Rightarrow> (string \<times> string) list" where
  "http_demo_enum m = [(''uri'', ''/live.flv''), (''Host'', ''h''), (''Port'', ''80'')]"

lemma http_client_server_witness:
  "\<exists>d mem. h_sent (snd (HTTPGet (\<lambda>_ _. True) http_demo_enum http_demo_client)) = h_sent http_demo_client @ [d] \<and>
     drop (length d - 4) d = CRLF @ CRLF \<and> http_found http_demo_env d (length d - 4) http_new =
       Some (int (length d), mem, http_request_of ''/live.flv'' [] ''HTTP/1.1'' [(''Host'', ''h'')] http_new)"
  by (rule http_client_server)
     (simp_all add: http_demo_client_def http_demo_enum_def http_demo_env_def uri_ok_def headers_ok_def key_ok_def
        text_ok_def target_def request_text_def request_line_def)

section \<open>Responses\<close>

lemma fp_skip: "CR \<notin> set l \<Longrightarrow> find_prefix (CR # p) (l @ s) i = find_prefix (CR # p) s (i + length l)"
  by (induction l arbitrary: i) auto

lemma fp_line:
  assumes "CR \<notin> set l" and "x \<noteq> CR"
  shows "find_prefix [CR, LF, CR] (l @ CR # LF # x # s) i = find_prefix [CR, LF, CR] (x # s) (i + length l + 2)"
  using assms by (simp add: fp_skip)

lemma header_block_hd:
  assumes "headers_ok hs" and "hs \<noteq> []"
  obtains x t where "header_block hs = x # t" and "x \<noteq> CR"
proof -
  obtain k v r where hs: "hs = (k, v) # r"
    using assms(2) by (cases hs) auto
  then have "key_ok k"
    using assms(1) by (simp add: headers_ok_def)
  moreover obtain s where "header_block hs = (k @ '': '') @ s"
    by (cases r) (auto simp: hs)
  ultimately show thesis
    using that by (cases k) (auto simp: key_ok_def)
qed

lemma fp_block:
  assumes "headers_ok hs" and "hs \<noteq> []"
  shows "find_prefix [CR, LF, CR] (header_block hs @ CR # LF # CR # s) i = Some (i + length (header_block hs))"
  using assms
proof (induction hs arbitrary: i rule: header_block.induct)
  case (2 kv)
  then show ?case
    using fp_skip [of "fst kv @ '': '' @ snd kv" "[LF, CR]" "CR # LF # CR # s" i]
    by (auto simp: headers_ok_def key_ok_def text_ok_def split: prod.splits)
next
  case (3 kv kv' hs)
  then have ok: "headers_ok (kv' # hs)"
    by (simp add: headers_ok_def)
  let ?l = "fst kv @ '': '' @ snd kv"
  have l: "CR \<notin> set ?l"
    using "3.prems" by (auto simp: headers_ok_def key_ok_def text_ok_def split: prod.splits)
  obtain x t where x: "header_block (kv' # hs) = x # t" "x \<noteq> CR"
    using header_block_hd [OF ok] by blast
  have "find_prefix [CR, LF, CR] (header_block (kv # kv' # hs) @ CR # LF # CR # s) i =
      find_prefix [CR, LF, CR] (header_block (kv' # hs) @ CR # LF # CR # s) (i + length ?l + 2)"
    using fp_line [OF l x(2), of "t @ CR # LF # CR # s" i] by (simp add: x(1))
  then show ?case
    using "3.IH" [OF ok] by simp
qed simp

definition status_line :: "string \<Rightarrow> string \<Rightarrow> string" where
  "status_line code reason = ''HTTP/1.1 '' @ code @ '' '' @ reason"

definition response_text :: "string \<Rightarrow> string \<Rightarrow> (string \<times> string) list \<Rightarrow> string" where
  "response_text code reason hs = status_line code reason @ CRLF @ header_block hs"

definition code_ok :: "string \<Rightarrow> bool" where
  "code_ok c \<longleftrightarrow> NUL \<notin> set c \<and> CR \<notin> set c \<and> CHR '' '' \<notin> set c"

lemma header_block_NUL: "headers_ok hs \<Longrightarrow> NUL \<notin> set (header_block hs)"
  by (induction hs rule: header_block.induct)
     (auto simp: headers_ok_def key_ok_def text_ok_def split: prod.splits)

lemma ParseRespondHeader_spec:
  assumes c: "code_ok code" and r: "text_ok reason" and hs: "headers_ok hs" "hs \<noteq> []"
  shows "\<exists>x. length x = length (response_text code reason hs) \<and>
     ParseRespondHeader (response_text code reason hs @ NUL # t) h =
     Some (True, x @ NUL # t, h\<lparr>h_respond := hash_add hs Map.empty, h_code := c_atoi code\<rparr>)"
proof -
  let ?g = "''HTTP/1.1 ''" and ?r = "LF # header_block hs @ NUL # t"
  let ?h = "h\<lparr>h_respond := Map.empty\<rparr>"
  let ?line = "?g @ code @ CHR '' '' # reason"
  have len9: "length ?g = 9"
    by simp
  have "c_strstr (?line @ CRLF @ header_block hs @ NUL # t) 0 CRLF = Some (Some (length ?line))"
    using c r by (intro c_strstr_first) (auto simp: text_ok_def code_ok_def)
  then have eol: "c_strstr (?g @ code @ CHR '' '' # reason @ CR # ?r) 0 CRLF = Some (Some (length ?line))"
    by simp
  have m1: "(?g @ code @ CHR '' '' # reason @ CR # ?r)[length ?line := NUL] = ?g @ code @ CHR '' '' # reason @ NUL # ?r"
    using list_update_at [of ?line CR ?r NUL] by simp
  have "c_strstr (?g @ code @ CHR '' '' # reason @ NUL # ?r) (length ?g) '' '' = Some (Some (length ?g + length code))"
    using c c_strstr_char [of "CHR '' ''" code "reason @ NUL # ?r"] by (simp only: c_strstr_append0) (simp add: code_ok_def)
  then have sp: "c_strstr (?g @ code @ CHR '' '' # reason @ NUL # ?r) 9 '' '' = Some (Some (length (?g @ code)))"
    by (simp only: len9 length_append)
  have m2: "(?g @ code @ CHR '' '' # reason @ NUL # ?r)[length (?g @ code) := NUL] = ?g @ code @ NUL # reason @ NUL # ?r"
    using list_update_at [of "?g @ code" "CHR '' ''" "reason @ NUL # ?r" NUL] by simp
  have "c_str_at (?g @ code @ NUL # reason @ NUL # ?r) (length ?g) = Some code"
    using c by (simp only: c_str_at_append0) (simp add: code_ok_def)
  then have code: "c_str_at (?g @ code @ NUL # reason @ NUL # ?r) 9 = Some code"
    by (simp only: len9)
  let ?pre = "?g @ code @ NUL # reason @ [NUL, LF]"
  have pre: "?g @ code @ NUL # reason @ NUL # ?r = ?pre @ header_block hs @ NUL # t" "length ?line + 2 = length ?pre"
    by simp_all
  obtain x where x: "length x = length (header_block hs)"
    "http_lines False (?pre @ header_block hs @ NUL # t) (length ?pre) Map.empty =
      Some (hs \<noteq> [] \<or> False, ?pre @ x @ NUL # t, hash_add hs Map.empty)"
    using http_lines_block [OF hs(1)] by blast
  have "ParseRespondHeader (?g @ code @ CHR '' '' # reason @ CR # ?r) h =
      Some (True, ?pre @ x @ NUL # t, h\<lparr>h_respond := hash_add hs Map.empty, h_code := c_atoi code\<rparr>)"
    unfolding ParseRespondHeader_def Let_def eol Option.bind.bind_lunit option.case m1 sp m2 prod.case code
    unfolding pre using x(2) hs(2) by simp
  then show ?thesis
    using x(1) by (intro exI [of _ "?pre @ x"]) (simp add: response_text_def status_line_def)
qed

lemma response_end:
  assumes "code_ok code" "text_ok reason" "headers_ok hs" "hs \<noteq> []"
  shows "c_strstr (response_text code reason hs @ CR # LF # CR # s @ [NUL]) 0 [CR, LF, CR] =
     Some (Some (length (response_text code reason hs)))"
proof -
  let ?st = "status_line code reason" and ?p = "[CR, LF, CR]"
  obtain x t where x: "header_block hs = x # t" "x \<noteq> CR"
    using header_block_hd [OF assms(3,4)] by blast
  have cr: "CR \<notin> set ?st" and nul: "NUL \<notin> set (response_text code reason hs)"
    using assms header_block_NUL [OF assms(3)]
    by (auto simp: status_line_def response_text_def code_ok_def text_ok_def)
  let ?u = "takeWhile (\<lambda>c. c \<noteq> NUL) (s @ [NUL])"
  have "find_prefix ?p (response_text code reason hs @ CR # LF # CR # ?u) 0 =
      find_prefix ?p (header_block hs @ CR # LF # CR # ?u) (0 + length ?st + 2)"
    using fp_line [OF cr x(2), of "t @ CR # LF # CR # ?u" 0] by (simp add: x(1) response_text_def)
  also have "\<dots> = Some (length (response_text code reason hs))"
    using fp_block [OF assms(3,4)] by (simp add: response_text_def)
  finally have f: "find_prefix ?p (response_text code reason hs @ CR # LF # CR # ?u) 0 = \<dots>" .
  have "takeWhile (\<lambda>c. c \<noteq> NUL) (response_text code reason hs @ CR # LF # CR # s @ [NUL]) =
      response_text code reason hs @ CR # LF # CR # ?u"
    using nul by (subst takeWhile_append2) auto
  then show ?thesis
    using f by (simp add: c_strstr_def)
qed

lemma dec_digits_NUL: "NUL \<notin> set (dec_digits n)"
  using dec_digits_set [of NUL n] by (auto simp: digit_val_def)

definition http_response_of :: "string \<Rightarrow> (string \<times> string) list \<Rightarrow> nat \<Rightarrow> http \<Rightarrow> http" where
  "http_response_of code hs n h =
     h\<lparr>h_respond := hash_add hs Map.empty, h_code := c_atoi code, h_content_length := int n\<rparr>"

text \<open>
  A response with header lines and a \<open>Content-Length\<close> between one and the number of bytes that follow the
  header is parsed into its status code and header table, and the handler gets the body and that length;
  all the data count as used, also those beyond the announced length.
\<close>
theorem http_response_parsed:
  assumes ok: "code_ok code" "text_ok reason" "headers_ok hs" "hs \<noteq> []"
    and st: "h_content_length h = -1"
    and len: "hash_add hs Map.empty HTTP_CONTENT_LENGTH = Some (dec_digits n)" "0 < n" "n \<le> length body"
    and data: "data = response_text code reason hs @ CRLF @ CRLF @ body" "length data < 2 ^ 31"
    and acc: "he_respond env body (int n) (http_response_of code hs n h) = (True, h')"
  shows "\<exists>mem. HandlerProtocolRespond env data (length data) h = Some (int (length data), mem, h')"
proof -
  let ?r = "response_text code reason hs"
  obtain b l where body: "body = b @ [l]"
    using len by (metis append_butlast_last_id list.size(3) not_less)
  have dl: "length data - 1 = length (?r @ CR # LF # CR # LF # b)"
    by (simp add: data(1) body)
  have bak: "data ! (length data - 1) = l" "data[length data - 1 := NUL] = ?r @ CR # LF # CR # (LF # b) @ [NUL]"
    unfolding dl using list_update_at [of "?r @ CR # LF # CR # LF # b" l "[]" NUL]
      nth_append_length [of "?r @ CR # LF # CR # LF # b" l "[]"]
    by (simp_all add: data(1) body)
  note fnd = response_end [OF ok, of "LF # b"]
  have upd: "(?r @ NUL # LF # CR # LF # b @ [NUL])[length data - Suc 0 := l] = ?r @ NUL # LF # CR # LF # body"
    unfolding dl [unfolded One_nat_def] using list_update_at [of "?r @ NUL # LF # CR # LF # b" NUL "[]" l] by (simp add: body)
  obtain x where x: "length x = length ?r" "ParseRespondHeader (?r @ NUL # (LF # CR # LF # body)) h =
      Some (True, x @ NUL # (LF # CR # LF # body),
        h\<lparr>h_respond := hash_add hs Map.empty, h_code := c_atoi code\<rparr>)"
    using ParseRespondHeader_spec [OF ok, of "LF # CR # LF # body" h] by blast
  have ret: "i32 (int (length ?r + 4 + length body)) = int (length data)"
    using data by (simp add: i32_small)
  have n: "c_str_at (dec_digits n @ [NUL]) 0 = Some (dec_digits n)" "c_atoi (dec_digits n) = int n"
    "i32 (int (length body)) = int (length body)" "sub32 (length data) (length ?r + 4) = length body"
    using len data dec_digits_NUL [of n] by (simp_all add: c_atoi_dec_digits i32_small sub32_le)
  have "drop (length ?r + 4) (x @ NUL # LF # CR # LF # body) = body"
    by (simp add: x(1) [symmetric])
  then have "http_body env (x @ NUL # LF # CR # LF # body) (length ?r + 4) (length body) (http_response_of code hs n h) =
      Some (int (length data), x @ NUL # LF # CR # LF # body, h')"
    using len acc n ret by (simp add: http_body_def http_response_of_def)
  moreover have "\<not> length data < 4"
    by (simp add: data(1))
  ultimately show ?thesis
    using st fnd x(2) len n bak
    by (simp add: HandlerProtocolRespond_def upd http_response_of_def)
qed

lemma http_response_parsed_witness:
  "\<exists>mem. HandlerProtocolRespond http_demo_env
     (response_text ''200'' ''OK'' [(''Content-Length'', ''5'')] @ CRLF @ CRLF @ ''hello'')
     (length (response_text ''200'' ''OK'' [(''Content-Length'', ''5'')] @ CRLF @ CRLF @ ''hello'')) http_new =
   Some (int (length (response_text ''200'' ''OK'' [(''Content-Length'', ''5'')] @ CRLF @ CRLF @ ''hello'')), mem,
     http_response_of ''200'' [(''Content-Length'', ''5'')] 5 http_new)"
  by (rule http_response_parsed [where body = "''hello''" and hs = "[(''Content-Length'', ''5'')]"])
     (simp_all add: code_ok_def text_ok_def headers_ok_def key_ok_def http_new_def http_demo_env_def
        dec_digits.simps digit_chr_def response_text_def status_line_def)

section \<open>Chunked sending\<close>

text \<open>A reader of the chunked framing: the size line, the data and the line end after them.\<close>

definition chunk_read :: "string \<Rightarrow> (string \<times> string) option" where
  "chunk_read s = do {
     let size = takeWhile (\<lambda>c. c \<noteq> CR) s;
     n \<leftarrow> hex_value size 0;
     let r = drop (length size) s;
     (if take 2 r = CRLF \<and> n + 4 \<le> length r \<and> take 2 (drop (n + 2) r) = CRLF
      then Some (take n (drop 2 r), drop (n + 4) r) else None)
   }"

text \<open>
  What \<open>SendChunked\<close> sends when the sender accepts it is one chunk that a reader of the framing takes apart
  into exactly the data, also for the empty chunk that ends the transfer.
\<close>
theorem SendChunked_framing:
  assumes "\<And>sent d. sender sent d"
  shows "\<exists>ps. SendChunked sender d h = (True, h\<lparr>h_sent := h_sent h @ ps\<rparr>) \<and> chunk_read (concat ps @ rest) = Some (d, rest)"
proof -
  let ?ps = "[hex_upper (length d) @ CRLF] @ (if d = [] then [] else [d]) @ [CRLF]"
  have "CR \<notin> set (hex_upper (length d))"
    using hex_upper_set [of CR "length d"] by (auto simp: xdigit_val_def)
  then have "takeWhile (\<lambda>c. c \<noteq> CR) (hex_upper (length d) @ CR # t) = hex_upper (length d)" for t
    by (subst takeWhile_append2) auto
  moreover have "drop (length d + 4) (CR # LF # d @ CR # LF # rest) = rest"
    by (simp add: numeral_eq_Suc)
  moreover have "concat ?ps @ rest = hex_upper (length d) @ CR # LF # d @ CR # LF # rest"
    by simp
  ultimately have "chunk_read (concat ?ps @ rest) = Some (d, rest)"
    by (simp add: chunk_read_def hex_value_hex_upper)
  moreover have "SendChunked sender d h = (True, h\<lparr>h_sent := h_sent h @ ?ps\<rparr>)"
    using assms by (simp add: SendChunked_def http_send_def)
  ultimately show ?thesis
    by blast
qed

lemma SendChunked_framing_witness:
  "\<exists>ps. SendChunked (\<lambda>_ _. True) ''abc'' http_new = (True, http_new\<lparr>h_sent := h_sent http_new @ ps\<rparr>) \<and>
     chunk_read (concat ps @ ''xyz'') = Some (''abc'', ''xyz'')"
  by (rule SendChunked_framing) simp

section \<open>Urls\<close>

definition url_parsed :: "string \<Rightarrow> string \<Rightarrow> string \<Rightarrow> (string \<rightharpoonup> string)" where
  "url_parsed host port uri =
     [HTTP_HEADER_HOST \<mapsto> host, HTTP_HEADER_PORT \<mapsto> port, HTTP_HEADER_URI \<mapsto> uri,
      ''User-Agent'' \<mapsto> ''libgsdm'', ''Accept'' \<mapsto> ''*/*'', ''Connection'' \<mapsto> ''keep-alive'']"

lemma url_array_http:
  assumes "NUL \<notin> set s" and "length s \<le> 4095"
  shows "\<exists>z. url_array (''http://'' @ s) = Some (s @ NUL # z)"
proof -
  have "takeWhile (\<lambda>c. c \<noteq> NUL) (''http://'' @ s) = ''http://'' @ s"
    using assms(1) by (auto simp: takeWhile_eq_all_conv)
  moreover have "c_str_at (''http://'' @ s @ [NUL]) (length ''http://'') = Some s"
    unfolding c_str_at_append0 using assms(1) by simp
  then have "c_str_at ((''http://'' @ s) @ [NUL]) 7 = Some s"
    by (simp add: numeral_eq_Suc)
  moreover have "replicate (4096 - length s) NUL = NUL # replicate (4095 - length s) NUL"
    using assms(2) by (simp add: Suc_diff_le flip: replicate_Suc)
  ultimately show ?thesis
    using assms(2) by (simp add: url_array_def)
qed

text \<open>
  \<open>ParseUrl\<close> takes an \<open>http\<close> url apart into host, port (80 when none is given) and path, and sets the
  default request headers; a url of fewer than seven characters is read past its end.
\<close>
theorem ParseUrl_parts:
  assumes "NUL \<notin> set host" "CHR ''/'' \<notin> set host" "CHR '':'' \<notin> set host"
    and "NUL \<notin> set port" "CHR ''/'' \<notin> set port" and "NUL \<notin> set path"
    and "length host + length port + length path \<le> 4093"
  shows "ParseUrl (''http://'' @ host @ CHR '':'' # port @ CHR ''/'' # path) h =
       Some (True, h\<lparr>h_request := url_parsed host port (CHR ''/'' # path), h_content_length := -1, h_code := 0\<rparr>) \<and>
     ParseUrl (''http://'' @ host @ CHR ''/'' # path) h =
       Some (True, h\<lparr>h_request := url_parsed host ''80'' (CHR ''/'' # path), h_content_length := -1, h_code := 0\<rparr>) \<and>
     ParseUrl (take 6 url) h = None"
proof (intro conjI)
  let ?hp = "host @ CHR '':'' # port" and ?h = "h\<lparr>h_content_length := -1, h_code := 0\<rparr>"
  obtain z where z: "url_array (''http://'' @ ?hp @ CHR ''/'' # path) = Some (?hp @ CHR ''/'' # path @ NUL # z)"
    using url_array_http [of "?hp @ CHR ''/'' # path"] assms by auto
  have slash: "c_strstr (?hp @ CHR ''/'' # path @ NUL # z) 0 ''/'' = Some (Some (length ?hp))"
    using assms by (intro c_strstr_char) auto
  have m1: "(?hp @ CHR ''/'' # path @ NUL # z)[length ?hp := NUL] = ?hp @ NUL # path @ NUL # z"
    by (rule list_update_at)
  have colon: "c_strstr (?hp @ NUL # path @ NUL # z) 0 '':'' = Some (Some (length host))"
    using assms c_strstr_char [of "CHR '':''" host "port @ NUL # path @ NUL # z"] by simp
  have m2: "(?hp @ NUL # path @ NUL # z)[length host := NUL] = (host @ NUL # port) @ NUL # path @ NUL # z"
    using list_update_at [of host "CHR '':''" "port @ NUL # path @ NUL # z" NUL] by simp
  have host: "c_str_at ((host @ NUL # port) @ NUL # path @ NUL # z) 0 = Some host"
    using assms by simp
  have port: "c_str_at ((host @ NUL # port) @ NUL # path @ NUL # z) (length host + 1) = Some port"
    using assms c_str_at_append0 [of "host @ [NUL]" "port @ NUL # path @ NUL # z"] by simp
  have m3: "((host @ NUL # port) @ NUL # path @ NUL # z)[length ?hp := CHR ''/''] =
      (host @ NUL # port) @ (CHR ''/'' # path) @ NUL # z"
    using list_update_at [of "host @ NUL # port" NUL "path @ NUL # z" "CHR ''/''"] by simp
  have uri: "c_str_at ((host @ NUL # port) @ (CHR ''/'' # path) @ NUL # z) (length ?hp) = Some (CHR ''/'' # path)"
    using assms c_str_at_append0 [of "host @ NUL # port" "(CHR ''/'' # path) @ NUL # z"]
      c_str_at_text [of "CHR ''/'' # path" z] by simp
  show "ParseUrl (''http://'' @ host @ CHR '':'' # port @ CHR ''/'' # path) h =
      Some (True, h\<lparr>h_request := url_parsed host port (CHR ''/'' # path), h_content_length := -1, h_code := 0\<rparr>)"
    using z slash colon host port uri
    by (simp add: ParseUrl_def m1 [simplified] m2 [simplified] m3 [simplified] SetRequestHeader_def url_parsed_def)
next
  obtain z where z: "url_array (''http://'' @ host @ CHR ''/'' # path) = Some (host @ CHR ''/'' # path @ NUL # z)"
    using url_array_http [of "host @ CHR ''/'' # path"] assms by auto
  have slash: "c_strstr (host @ CHR ''/'' # path @ NUL # z) 0 ''/'' = Some (Some (length host))"
    using assms by (intro c_strstr_char) auto
  have colon: "c_strstr (host @ NUL # path @ NUL # z) 0 '':'' = Some None"
    using assms by (intro c_strstr_absent) auto
  have uri: "c_str_at (host @ (CHR ''/'' # path) @ NUL # z) (length host) = Some (CHR ''/'' # path)"
    using assms c_str_at_append0 [of host "(CHR ''/'' # path) @ NUL # z"] c_str_at_text [of "CHR ''/'' # path" z]
    by simp
  show "ParseUrl (''http://'' @ host @ CHR ''/'' # path) h =
      Some (True, h\<lparr>h_request := url_parsed host ''80'' (CHR ''/'' # path), h_content_length := -1, h_code := 0\<rparr>)"
    using z slash colon uri assms by (simp add: ParseUrl_def SetRequestHeader_def url_parsed_def)
next
  have "length (takeWhile (\<lambda>c. c \<noteq> NUL) (take 6 url)) \<le> 6"
    using length_takeWhile_le [of "\<lambda>c. c \<noteq> NUL" "take 6 url"] by simp
  then show "ParseUrl (take 6 url) h = None"
    by (simp add: ParseUrl_def url_array_def)
qed

lemma ParseUrl_parts_witness:
  "ParseUrl (''http://'' @ ''h'' @ CHR '':'' # ''81'' @ CHR ''/'' # ''p'') http_new =
     Some (True, http_new\<lparr>h_request := url_parsed ''h'' ''81'' (CHR ''/'' # ''p''), h_content_length := -1, h_code := 0\<rparr>) \<and>
   ParseUrl (''http://'' @ ''h'' @ CHR ''/'' # ''p'') http_new =
     Some (True, http_new\<lparr>h_request := url_parsed ''h'' ''80'' (CHR ''/'' # ''p''), h_content_length := -1, h_code := 0\<rparr>) \<and>
   ParseUrl (take 6 ''http:'') http_new = None"
  by (rule ParseUrl_parts) simp_all

end
