(* ===== verification/Folders.thy ===== *)
theory Folders
  imports Platform
begin

text \<open>
  Files and folders of \<open>src/platform/linuxplatform.cpp\<close>. The file system is a list of entries under absolute
  paths, a path being the list of its names; \<open>readdir\<close> gives the names of a folder in the order of the list. The
  functions of the C library resolve paths by POSIX. Log output is left out.
\<close>

section \<open>The file system\<close>

type_synonym path = "string list"

datatype entry = EFile | EFolder | ELink path

type_synonym fsys = "(path \<times> entry) list"

abbreviation entry_at :: "fsys \<Rightarrow> path \<Rightarrow> entry option" where "entry_at \<equiv> map_of"

definition readdir :: "fsys \<Rightarrow> path \<Rightarrow> string list" where
  "readdir fs p = map last (filter (\<lambda>q. q \<noteq> [] \<and> butlast q = p) (map fst fs))"

text \<open>
  \<open>realpath\<close> and the path resolution of the other calls: \<open>links\<close> is the number of symbolic links that may still be
  followed, 40 in Linux.
\<close>

fun resolve :: "nat \<Rightarrow> fsys \<Rightarrow> path \<Rightarrow> path \<Rightarrow> path option" where
  "resolve links fs here [] = Some here"
| "resolve 0 fs here (c # cs) =
     (case entry_at fs (here @ [c]) of
        None \<Rightarrow> None
      | Some EFolder \<Rightarrow> resolve 0 fs (here @ [c]) cs
      | Some EFile \<Rightarrow> if cs = [] then Some (here @ [c]) else None
      | Some (ELink t) \<Rightarrow> None)"
| "resolve (Suc links) fs here (c # cs) =
     (case entry_at fs (here @ [c]) of
        None \<Rightarrow> None
      | Some EFolder \<Rightarrow> resolve (Suc links) fs (here @ [c]) cs
      | Some EFile \<Rightarrow> if cs = [] then Some (here @ [c]) else None
      | Some (ELink t) \<Rightarrow> resolve links fs [] (t @ cs))"

text \<open>
  The text of a path, a slash before every name, takes fewer than \<open>PATH_MAX\<close> characters in a call, and so does the result of \<open>realpath\<close>.
\<close>

definition PATH_MAX :: nat where "PATH_MAX = 4096"

definition path_length :: "path \<Rightarrow> nat" where
  "path_length p = (if p = [] then 1 else sum_list (map (\<lambda>c. Suc (length c)) p))"

definition lookup :: "fsys \<Rightarrow> path \<Rightarrow> path option" where
  "lookup fs p = (if path_length p < PATH_MAX then resolve 40 fs [] p else None)"

definition normalizePath :: "fsys \<Rightarrow> path \<Rightarrow> path option" where
  "normalizePath fs p =
     (case lookup fs p of None \<Rightarrow> None | Some q \<Rightarrow> if path_length q < PATH_MAX then Some q else None)"

text \<open>\<open>access\<close> and \<open>stat\<close> follow links to the end; \<open>remove\<close> does not follow the last one.\<close>

definition fileExists :: "fsys \<Rightarrow> path \<Rightarrow> bool" where
  "fileExists fs p = (case lookup fs p of Some q \<Rightarrow> entry_at fs q \<noteq> None | None \<Rightarrow> False)"

definition isDirectory :: "fsys \<Rightarrow> path \<Rightarrow> bool" where
  "isDirectory fs p = (case lookup fs p of Some q \<Rightarrow> entry_at fs q = Some EFolder | None \<Rightarrow> False)"

definition isFile :: "fsys \<Rightarrow> path \<Rightarrow> bool" where
  "isFile fs p = (case lookup fs p of Some q \<Rightarrow> entry_at fs q = Some EFile | None \<Rightarrow> False)"

definition parent_place :: "fsys \<Rightarrow> path \<Rightarrow> path option" where
  "parent_place fs p =
     (if p = [] \<or> PATH_MAX \<le> path_length p then None else map_option (\<lambda>d. d @ [last p]) (resolve 40 fs [] (butlast p)))"

definition drop_entry :: "path \<Rightarrow> fsys \<Rightarrow> fsys" where
  "drop_entry p fs = filter (\<lambda>e. fst e \<noteq> p) fs"

text \<open>\<open>ok\<close> is whether the process may change the folder that holds a path.\<close>

definition deleteFile :: "(path \<Rightarrow> bool) \<Rightarrow> path \<Rightarrow> fsys \<Rightarrow> bool \<times> fsys" where
  "deleteFile ok p fs =
     (case parent_place fs p of
        None \<Rightarrow> (False, fs)
      | Some q \<Rightarrow>
          (case entry_at fs q of
             None \<Rightarrow> (False, fs)
           | Some EFolder \<Rightarrow> if readdir fs q = [] \<and> ok q then (True, drop_entry q fs) else (False, fs)
           | Some _ \<Rightarrow> if ok q then (True, drop_entry q fs) else (False, fs)))"

definition createFolder :: "(path \<Rightarrow> bool) \<Rightarrow> (path \<Rightarrow> bool) \<Rightarrow> path \<Rightarrow> fsys \<Rightarrow> bool \<times> fsys" where
  "createFolder ok chmod p fs =
     (case parent_place fs p of
        None \<Rightarrow> (False, fs)
      | Some q \<Rightarrow>
          if entry_at fs (butlast q) = Some EFolder \<and> entry_at fs q = None \<and> ok q then (chmod q, fs @ [(q, EFolder)])
          else (False, fs))"

section \<open>Deleting a folder\<close>

text \<open>
  \<open>fuel\<close> bounds the depth of the recursion; \<^term>\<open>None\<close> is a recursion deeper than that. \<open>opens\<close> is whether \<open>opendir\<close> opens a
  folder.
\<close>

fun deleteFolder :: "(path \<Rightarrow> bool) \<Rightarrow> (path \<Rightarrow> bool) \<Rightarrow> nat \<Rightarrow> path \<Rightarrow> fsys \<Rightarrow> (bool \<times> fsys) option"
  and deleteEntries :: "(path \<Rightarrow> bool) \<Rightarrow> (path \<Rightarrow> bool) \<Rightarrow> nat \<Rightarrow> path \<Rightarrow> string list \<Rightarrow> fsys \<Rightarrow> (bool \<times> fsys) option" where
  "deleteFolder ok opens 0 p fs = None"
| "deleteFolder ok opens (Suc fuel) p fs =
     (case normalizePath fs p of
        None \<Rightarrow> Some (False, fs)
      | Some q \<Rightarrow>
          if \<not> isDirectory fs q then Some (deleteFile ok q fs)
          else if \<not> opens q then Some (False, fs)
          else do {
            (r, fs) \<leftarrow> deleteEntries ok opens fuel q (readdir fs q) fs;
            if r then Some (True, snd (deleteFile ok q fs)) else Some (False, fs) })"
| "deleteEntries ok opens fuel q [] fs = Some (True, fs)"
| "deleteEntries ok opens fuel q (e # es) fs =
     do { (r, fs) \<leftarrow> deleteFolder ok opens fuel (q @ [e]) fs;
          if r then deleteEntries ok opens fuel q es fs else Some (False, fs) }"

section \<open>Listing a folder\<close>

text \<open>An entry of the result is the full path or the bare name.\<close>

datatype listed = FullPath path | BareName string

definition list_entry :: "bool \<Rightarrow> path \<Rightarrow> listed" where
  "list_entry full p = (if full then FullPath p else BareName (last p))"

fun listFolder :: "(path \<Rightarrow> bool) \<Rightarrow> fsys \<Rightarrow> nat \<Rightarrow> bool \<Rightarrow> bool \<Rightarrow> bool \<Rightarrow> path \<Rightarrow> listed list \<Rightarrow> (bool \<times> listed list) option"
  and listEntries :: "(path \<Rightarrow> bool) \<Rightarrow> fsys \<Rightarrow> nat \<Rightarrow> bool \<Rightarrow> bool \<Rightarrow> bool \<Rightarrow> path \<Rightarrow> string list \<Rightarrow> listed list \<Rightarrow> (bool \<times> listed list) option" where
  "listFolder opens fs 0 full folders recursive p result = None"
| "listFolder opens fs (Suc fuel) full folders recursive p result =
     (case normalizePath fs p of
        None \<Rightarrow> Some (False, result)
      | Some q \<Rightarrow>
          if entry_at fs q \<noteq> Some EFolder \<or> \<not> opens q then Some (False, result)
          else listEntries opens fs fuel full folders recursive q (readdir fs q) result)"
| "listEntries opens fs fuel full folders recursive q [] result = Some (True, result)"
| "listEntries opens fs fuel full folders recursive q (e # es) result =
     (if e = [] then listEntries opens fs fuel full folders recursive q es result
      else if isDirectory fs (q @ [e])
      then do {
        let result = (if folders then result @ [list_entry full (q @ [e])] else result);
        (r, result) \<leftarrow> (if recursive then listFolder opens fs fuel full folders recursive (q @ [e]) result
                       else Some (True, result));
        if r then listEntries opens fs fuel full folders recursive q es result else Some (False, result) }
      else listEntries opens fs fuel full folders recursive q es (result @ [list_entry full (q @ [e])]))"

section \<open>A tree of folders\<close>

text \<open>Every entry is in a folder, every name occurs once, and there are no links below \<open>p\<close>.\<close>

definition fs_ok :: "fsys \<Rightarrow> bool" where
  "fs_ok fs \<longleftrightarrow> distinct (map fst fs) \<and> entry_at fs [] = Some EFolder \<and>
     (\<forall>q\<in>set (map fst fs). q \<noteq> [] \<longrightarrow> entry_at fs (butlast q) = Some EFolder)"

definition no_links :: "path \<Rightarrow> fsys \<Rightarrow> bool" where
  "no_links p fs \<longleftrightarrow> (\<forall>e\<in>set fs. prefix p (fst e) \<longrightarrow> (\<forall>t. snd e \<noteq> ELink t))"

definition below :: "path \<Rightarrow> fsys \<Rightarrow> fsys" where
  "below p fs = filter (\<lambda>e. prefix p (fst e)) fs"

definition without :: "path \<Rightarrow> fsys \<Rightarrow> fsys" where
  "without p fs = filter (\<lambda>e. \<not> prefix p (fst e)) fs"

definition depth_ok :: "nat \<Rightarrow> path \<Rightarrow> fsys \<Rightarrow> bool" where
  "depth_ok fuel p fs \<longleftrightarrow> (\<forall>q\<in>set (map fst fs). prefix p q \<longrightarrow> length q < length p + fuel)"

lemma fs_ok_parents:
  assumes "fs_ok fs" and "entry_at fs q \<noteq> None" and "strict_prefix p q"
  shows "entry_at fs p = Some EFolder"
  using assms(2,3)
proof (induction q rule: rev_induct)
  case (snoc c q)
  have "q @ [c] \<in> set (map fst fs)"
    using snoc(2) by (simp add: map_of_eq_None_iff)
  then have "entry_at fs q = Some EFolder"
    using assms(1) unfolding fs_ok_def by (metis butlast_snoc snoc_eq_iff_butlast)
  then show ?case
    using snoc(1,3) by (cases "p = q") (auto simp: strict_prefix_def prefix_snoc)
qed simp

lemma resolve_real:
  assumes "\<And>p. p \<noteq> [] \<Longrightarrow> prefix p cs \<Longrightarrow> p \<noteq> cs \<Longrightarrow> entry_at fs (here @ p) = Some EFolder"
    and "cs \<noteq> [] \<Longrightarrow> entry_at fs (here @ cs) \<in> {Some EFile, Some EFolder}"
  shows "resolve links fs here cs = Some (here @ cs)"
  using assms
proof (induction cs arbitrary: here)
  case (Cons c cs)
  show ?case
  proof (cases "cs = []")
    case True
    then show ?thesis
      using Cons.prems(2) by (cases links) auto
  next
    case False
    have "entry_at fs (here @ [c]) = Some EFolder"
      using Cons.prems(1) [of "[c]"] False by simp
    moreover have "resolve links fs (here @ [c]) cs = Some ((here @ [c]) @ cs)"
    proof (rule Cons.IH)
      fix p
      assume "p \<noteq> []" "prefix p cs" "p \<noteq> cs"
      then show "entry_at fs ((here @ [c]) @ p) = Some EFolder"
        using Cons.prems(1) [of "c # p"] by simp
    qed (use Cons.prems(2) False in simp)
    ultimately show ?thesis
      by (cases links) simp_all
  qed
qed (cases links; simp)

text \<open>What the process may do in the tree below \<open>p\<close>, and paths that the calls take.\<close>

definition may_delete :: "(path \<Rightarrow> bool) \<Rightarrow> (path \<Rightarrow> bool) \<Rightarrow> path \<Rightarrow> bool" where
  "may_delete ok opens p \<longleftrightarrow> (\<forall>q. prefix p q \<longrightarrow> ok q \<and> opens q)"

definition short_paths :: "path \<Rightarrow> fsys \<Rightarrow> bool" where
  "short_paths p fs \<longleftrightarrow> (\<forall>q\<in>set (map fst fs). prefix p q \<longrightarrow> path_length q < PATH_MAX)"

lemma may_delete_below: "may_delete ok opens p \<Longrightarrow> may_delete ok opens (p @ [e])"
  by (auto simp: may_delete_def dest: append_prefixD)

lemma path_length_butlast: "path_length (butlast p) \<le> path_length p"
  by (cases p rule: rev_cases) (auto simp: path_length_def)

lemma normalizePath_real:
  assumes "fs_ok fs" and "entry_at fs q \<in> {Some EFile, Some EFolder}"
  shows "resolve 40 fs [] q = Some q"
proof -
  have "entry_at fs p = Some EFolder" if "prefix p q" "p \<noteq> q" for p
    using fs_ok_parents [OF assms(1), of q p] assms(2) that by (auto simp: strict_prefix_def)
  then show ?thesis
    using resolve_real [of q fs "[]" 40] assms(2) by simp
qed

lemma lookup_real:
  assumes "fs_ok fs" and "entry_at fs q \<in> {Some EFile, Some EFolder}" and "path_length q < PATH_MAX"
  shows "lookup fs q = Some q" and "normalizePath fs q = Some q"
  using normalizePath_real [OF assms(1,2)] assms(3) by (simp_all add: lookup_def normalizePath_def)

lemma parent_place_real:
  assumes "fs_ok fs" and "entry_at fs q \<noteq> None" and "q \<noteq> []" and "path_length q < PATH_MAX"
  shows "parent_place fs q = Some q"
proof -
  have "strict_prefix (butlast q) q"
    using assms(3) by (metis append_butlast_last_id prefix_def self_append_conv strict_prefix_def list.discI)
  then have "entry_at fs (butlast q) = Some EFolder"
    by (rule fs_ok_parents [OF assms(1,2)])
  then show ?thesis
    using normalizePath_real [OF assms(1), of "butlast q"] assms(3,4) by (simp add: parent_place_def)
qed

lemma entry_at_filter:
  "entry_at (filter (\<lambda>e. P (fst e)) fs) q = (if P q then entry_at fs q else None)"
  by (induction fs) auto

lemma entry_at_without: "entry_at (without p fs) q = (if prefix p q then None else entry_at fs q)"
  by (simp add: without_def entry_at_filter [where P = "\<lambda>q. \<not> prefix p q"])

lemma keys_entry: "q \<in> set (map fst fs) \<longleftrightarrow> entry_at fs q \<noteq> None"
  by (simp add: map_of_eq_None_iff)

lemma without_ok:
  assumes "fs_ok fs" and "p \<noteq> []"
  shows "fs_ok (without p fs)"
proof -
  have "distinct (map fst (without p fs))"
    using assms(1) by (auto simp: fs_ok_def without_def distinct_map intro: inj_on_subset)
  moreover have "entry_at (without p fs) (butlast q) = Some EFolder"
    if "q \<in> set (map fst (without p fs))" "q \<noteq> []" for q
  proof -
    have "q \<in> set (map fst fs)" "\<not> prefix p q"
      using that(1) by (auto simp: without_def)
    then have "entry_at fs (butlast q) = Some EFolder" "\<not> prefix p (butlast q)"
      using assms(1) that(2) by (auto simp: fs_ok_def dest: prefix_order.trans [OF _ prefixeq_butlast])
    then show ?thesis
      by (simp add: entry_at_without)
  qed
  ultimately show ?thesis
    using assms by (auto simp: fs_ok_def entry_at_without)
qed

lemma readdir_set:
  assumes "fs_ok fs"
  shows "c \<in> set (readdir fs q) \<longleftrightarrow> entry_at fs (q @ [c]) \<noteq> None"
proof -
  have "c \<in> set (readdir fs q) \<longleftrightarrow> (\<exists>p\<in>set (map fst fs). p \<noteq> [] \<and> butlast p = q \<and> last p = c)"
    by (auto simp: readdir_def)
  also have "\<dots> \<longleftrightarrow> q @ [c] \<in> set (map fst fs)"
    by (metis append_butlast_last_id butlast_snoc last_snoc snoc_eq_iff_butlast)
  finally show ?thesis
    by (simp only: keys_entry)
qed

lemma readdir_distinct:
  assumes "fs_ok fs"
  shows "distinct (readdir fs q)"
proof -
  have "inj_on last {p. p \<noteq> [] \<and> butlast p = q}"
    by (rule inj_onI) (metis (mono_tags) append_butlast_last_id mem_Collect_eq)
  moreover have "set (filter (\<lambda>p. p \<noteq> [] \<and> butlast p = q) (map fst fs)) \<subseteq> {p. p \<noteq> [] \<and> butlast p = q}"
    by auto
  moreover have "distinct (map fst fs)"
    using assms by (simp add: fs_ok_def)
  ultimately show ?thesis
    unfolding readdir_def by (subst distinct_map) (meson distinct_filter inj_on_subset)
qed

definition without_names :: "path \<Rightarrow> string list \<Rightarrow> fsys \<Rightarrow> fsys" where
  "without_names q es fs = filter (\<lambda>e. \<forall>x\<in>set es. \<not> prefix (q @ [x]) (fst e)) fs"

lemma without_names_Cons: "without_names q (e # es) fs = without_names q es (without (q @ [e]) fs)"
  by (auto simp: without_names_def without_def intro: filter_cong)

lemma deleteEntries_tree:
  assumes folder: "\<And>p fs. fs_ok fs \<Longrightarrow> entry_at fs p \<noteq> None \<Longrightarrow> p \<noteq> [] \<Longrightarrow> no_links p fs \<Longrightarrow> depth_ok fuel p fs \<Longrightarrow>
      may_delete ok opens p \<Longrightarrow> short_paths p fs \<Longrightarrow> deleteFolder ok opens fuel p fs = Some (True, without p fs)"
    and may: "may_delete ok opens q"
    and "fs_ok fs" and "distinct es" and "\<forall>e\<in>set es. entry_at fs (q @ [e]) \<noteq> None" and "no_links q fs" and "depth_ok (Suc fuel) q fs" and "short_paths q fs"
  shows "deleteEntries ok opens fuel q es fs = Some (True, without_names q es fs) \<and> fs_ok (without_names q es fs)"
  using assms(3-)
proof (induction es arbitrary: fs)
  case Nil
  have "filter (\<lambda>e. True) fs = fs"
    by simp
  then show ?case
    using Nil by (simp add: without_names_def)
next
  case (Cons e es)
  let ?fs = "without (q @ [e]) fs"
  have sub: "no_links (q @ [e]) fs" "depth_ok fuel (q @ [e]) fs" "short_paths (q @ [e]) fs"
    using Cons.prems(4-6) by (auto simp: no_links_def depth_ok_def short_paths_def dest: append_prefixD)
  then have "deleteFolder ok opens fuel (q @ [e]) fs = Some (True, ?fs)"
    using folder [of fs "q @ [e]"] may_delete_below [OF may] Cons.prems(1,3) by simp
  moreover have "fs_ok ?fs"
    using without_ok Cons.prems(1) by simp
  moreover have "\<forall>x\<in>set es. entry_at ?fs (q @ [x]) \<noteq> None"
    using Cons.prems(2,3) by (auto simp: entry_at_without)
  moreover have "no_links q ?fs" "depth_ok (Suc fuel) q ?fs" "short_paths q ?fs"
    using Cons.prems(4-6) by (auto simp: no_links_def depth_ok_def short_paths_def without_def)
  ultimately show ?case
    using Cons.IH [of ?fs] Cons.prems(2) by (simp add: without_names_Cons)
qed

lemma tree_below:
  assumes "fs_ok fs" and "entry_at fs p \<noteq> None" and "prefix q p" and "p \<noteq> q"
  shows "\<exists>x\<in>set (readdir fs q). prefix (q @ [x]) p" and "entry_at fs q = Some EFolder"
proof -
  obtain x r where p: "p = q @ x # r"
    using assms(3,4) by (metis append_Nil2 neq_Nil_conv prefixE)
  then have "prefix (q @ [x]) p"
    by simp
  moreover have "entry_at fs (q @ [x]) \<noteq> None"
    using fs_ok_parents [OF assms(1,2), of "q @ [x]"] assms(2) p by (cases "r = []") (auto simp: strict_prefix_def)
  ultimately show "\<exists>x\<in>set (readdir fs q). prefix (q @ [x]) p"
    using readdir_set [OF assms(1)] by blast
  show "entry_at fs q = Some EFolder"
    using fs_ok_parents [OF assms(1,2)] assms(3,4) by (simp add: strict_prefix_def)
qed

lemma drop_without_names:
  assumes "fs_ok fs"
  shows "drop_entry q (without_names q (readdir fs q) fs) = without q fs"
proof -
  have "p \<noteq> q \<and> (\<forall>x\<in>set (readdir fs q). \<not> prefix (q @ [x]) p) \<longleftrightarrow> \<not> prefix q p" if "p \<in> fst ` set fs" for p
    using tree_below(1) [OF assms, of p q] keys_entry [of p fs] that by (auto dest: append_prefixD)
  then show ?thesis
    unfolding drop_entry_def without_names_def without_def filter_filter by (intro filter_cong) (auto simp: conj_commute)
qed

lemma deleteFolder_tree:
  "fs_ok fs \<Longrightarrow> entry_at fs p \<noteq> None \<Longrightarrow> p \<noteq> [] \<Longrightarrow> no_links p fs \<Longrightarrow> depth_ok fuel p fs \<Longrightarrow>
     may_delete ok opens p \<Longrightarrow> short_paths p fs \<Longrightarrow> deleteFolder ok opens fuel p fs = Some (True, without p fs)"
proof (induction fuel arbitrary: p fs)
  case 0
  then show ?case
    using keys_entry [of p fs] by (auto simp: depth_ok_def)
next
  case (Suc fuel)
  note F = Suc.prems(1)
  obtain e where e: "entry_at fs p = Some e"
    using Suc.prems(2) by blast
  then have "(p, e) \<in> set fs"
    by (rule map_of_SomeD)
  then have "\<forall>t. e \<noteq> ELink t"
    using Suc.prems(4) by (auto simp: no_links_def)
  then have real: "entry_at fs p \<in> {Some EFile, Some EFolder}"
    using e by (cases e) auto
  have len: "path_length p < PATH_MAX"
    using Suc.prems(2,7) keys_entry [of p fs] by (auto simp: short_paths_def)
  have norm: "normalizePath fs p = Some p" "isDirectory fs p \<longleftrightarrow> entry_at fs p = Some EFolder"
    using lookup_real [OF F real len] by (auto simp: isDirectory_def)
  have may: "ok p" "opens p"
    using Suc.prems(6) by (auto simp: may_delete_def)
  show ?case
  proof (cases "entry_at fs p = Some EFolder")
    case True
    let ?fs = "without_names p (readdir fs p) fs"
    have E: "deleteEntries ok opens fuel p (readdir fs p) fs = Some (True, ?fs)" "fs_ok ?fs"
      using deleteEntries_tree [OF Suc.IH Suc.prems(6) F readdir_distinct [OF F] _ Suc.prems(4,5,7)] readdir_set [OF F]
      by simp_all
    have at: "entry_at ?fs q = (if \<forall>x\<in>set (readdir fs p). \<not> prefix (p @ [x]) q then entry_at fs q else None)" for q
      unfolding without_names_def by (rule entry_at_filter)
    have "entry_at ?fs p = Some EFolder"
      using True by (simp add: at)
    moreover have "readdir ?fs p = []"
    proof -
      have "c \<notin> set (readdir ?fs p)" for c
        using readdir_set [OF E(2), of c p] readdir_set [OF F, of c p] by (auto simp: at)
      then show ?thesis
        by (metis list.set_intros(1) neq_Nil_conv)
    qed
    ultimately have "deleteFile ok p ?fs = (True, without p fs)"
      using parent_place_real [OF E(2), of p] Suc.prems(3) len may by (simp add: deleteFile_def drop_without_names [OF F])
    then show ?thesis
      using E(1) norm True may by simp
  next
    case False
    then have reg: "entry_at fs p = Some EFile"
      using real by simp
    have "q \<noteq> p \<longleftrightarrow> \<not> prefix p q" if "q \<in> fst ` set fs" for q
      using tree_below(2) [OF F, of q p] keys_entry [of q fs] that reg by auto
    then have "drop_entry p fs = without p fs"
      unfolding drop_entry_def without_def by (intro filter_cong) auto
    then show ?thesis
      using norm reg parent_place_real [OF F, of p] Suc.prems(3) len may by (simp add: deleteFile_def)
  qed
qed

section \<open>Properties\<close>

text \<open>
  C39: \<open>deleteFolder\<close> removes exactly the tree it is given. In a file system without links below the path, where the process
  may change and open every folder of the tree and no path in it has \<open>PATH_MAX\<close> characters, it reports success, nothing at or below
  the path is left and everything else is as it was.
\<close>
theorem deleteFolder_exact:
  assumes "fs_ok fs" and "entry_at fs p \<noteq> None" and "p \<noteq> []" and "no_links p fs" and "depth_ok fuel p fs"
    and "may_delete ok opens p" and "short_paths p fs"
  shows "\<exists>fs'. deleteFolder ok opens fuel p fs = Some (True, fs') \<and> fs_ok fs' \<and>
     (\<forall>q. entry_at fs' q = (if prefix p q then None else entry_at fs q))"
  using deleteFolder_tree [OF assms] without_ok [OF assms(1,3)] by (simp add: entry_at_without)

definition demo_fs :: fsys where
  "demo_fs = [([], EFolder), ([''log''], EFolder), ([''log'', ''a''], EFile), ([''log'', ''b''], EFolder),
     ([''log'', ''b'', ''c''], EFile), ([''etc''], EFile)]"

lemma deleteFolder_exact_witness:
  "\<exists>fs'. deleteFolder (\<lambda>p. p \<noteq> [''etc'']) (\<lambda>p. prefix [''log''] p) 3 [''log''] demo_fs = Some (True, fs') \<and> entry_at fs' [''log'', ''b'', ''c''] = None \<and>
     entry_at fs' [''etc''] = Some EFile"
proof -
  have "fs_ok demo_fs" "no_links [''log''] demo_fs" "depth_ok 3 [''log''] demo_fs"
    by (simp_all add: demo_fs_def fs_ok_def no_links_def depth_ok_def)
  moreover have "may_delete (\<lambda>p. p \<noteq> [''etc'']) (\<lambda>p. prefix [''log''] p) [''log'']" "short_paths [''log''] demo_fs"
    by (auto simp: demo_fs_def may_delete_def short_paths_def path_length_def PATH_MAX_def)
  moreover have "entry_at demo_fs [''log''] \<noteq> None" "entry_at demo_fs [''etc''] = Some EFile"
    by (simp_all add: demo_fs_def)
  ultimately show ?thesis
    using deleteFolder_exact [of demo_fs "[''log'']" 3 "\<lambda>p. p \<noteq> [''etc'']" "prefix [''log'']"] by auto
qed

text \<open>A folder that cannot be opened makes the call fail without a change; so does a path that is too long.\<close>

lemma deleteFolder_refused:
  assumes "fs_ok fs" and "entry_at fs p = Some EFolder" and "\<not> opens p \<or> PATH_MAX \<le> path_length p"
  shows "deleteFolder ok opens (Suc fuel) p fs = Some (False, fs)"
proof (cases "path_length p < PATH_MAX")
  case True
  then show ?thesis
    using lookup_real [OF assms(1) _ True] assms(2,3) by (simp add: isDirectory_def)
qed (simp add: normalizePath_def lookup_def)

lemma resolve_folders:
  assumes "\<And>p. p \<noteq> [] \<Longrightarrow> prefix p cs \<Longrightarrow> entry_at fs (here @ p) = Some EFolder"
  shows "resolve links fs here (cs @ rest) = resolve links fs (here @ cs) rest"
  using assms
proof (induction cs arbitrary: here)
  case (Cons c cs)
  have "entry_at fs (here @ [c]) = Some EFolder"
    using Cons.prems [of "[c]"] by simp
  moreover have "resolve links fs (here @ [c]) (cs @ rest) = resolve links fs ((here @ [c]) @ cs) rest"
    using Cons.prems [of "c # p" for p] by (intro Cons.IH) simp
  ultimately show ?case
    by (cases links) simp_all
qed simp

lemma resolve_link:
  assumes "fs_ok fs" and "entry_at fs d = Some EFolder" and "entry_at fs (d @ [l]) = Some (ELink t)"
    and "entry_at fs t = Some EFolder"
  shows "resolve 40 fs [] (d @ [l]) = Some t"
proof -
  have "entry_at fs p = Some EFolder" if "prefix p d" for p
    using fs_ok_parents [OF assms(1), of d p] assms(2) that by (cases "p = d") (simp_all add: strict_prefix_def)
  then have "resolve 40 fs [] (d @ [l]) = resolve 40 fs d [l]"
    using resolve_folders [of d fs "[]" 40 "[l]"] by simp
  also have "\<dots> = resolve 39 fs [] (t @ [])"
    using assms(3) by (simp add: numeral_eq_Suc)
  also have "\<dots> = Some t"
  proof -
    have "entry_at fs p = Some EFolder" if "prefix p t" for p
      using fs_ok_parents [OF assms(1), of t p] assms(4) that by (cases "p = t") (simp_all add: strict_prefix_def)
    then show ?thesis
      using resolve_real [of t fs "[]" 39] assms(4) by simp
  qed
  finally show ?thesis .
qed

text \<open>
  \<open>deleteFolder\<close> follows links. A folder that holds one link to another folder is reported as deleted, but it
  and the link are still there, and what is gone is the folder the link points to, with everything in it.
\<close>
theorem deleteFolder_follows_link:
  assumes "fs_ok fs" and "entry_at fs d = Some EFolder" and "readdir fs d = [l]" and "entry_at fs (d @ [l]) = Some (ELink t)"
    and "entry_at fs t = Some EFolder" and "\<not> prefix t d" and "\<not> prefix d t" and "no_links t fs" and "depth_ok fuel t fs"
    and short: "short_paths [] fs"
  shows "\<exists>fs'. deleteFolder (\<lambda>_. True) (\<lambda>_. True) (Suc fuel) d fs = Some (True, fs') \<and>
     entry_at fs' d = Some EFolder \<and> entry_at fs' (d @ [l]) = Some (ELink t) \<and> (\<forall>q. prefix t q \<longrightarrow> entry_at fs' q = None)"
proof -
  have t: "t \<noteq> []" and d: "d \<noteq> []"
    using assms(6,7) by auto
  have len: "path_length q < PATH_MAX" if "entry_at fs q \<noteq> None" for q
    using short that keys_entry [of q fs] by (auto simp: short_paths_def)
  have "short_paths t fs"
    using short by (simp add: short_paths_def)
  have "\<not> prefix t (d @ [l])"
    using assms(4-6) by (auto simp: prefix_snoc)
  obtain fuel' where fuel: "fuel = Suc fuel'"
    using assms(5,9) keys_entry [of t fs] by (cases fuel) (auto simp: depth_ok_def)
  have del: "deleteFolder (\<lambda>_. True) (\<lambda>_. True) fuel (d @ [l]) fs = deleteFolder (\<lambda>_. True) (\<lambda>_. True) fuel t fs"
    using resolve_link [OF assms(1,2,4,5)] normalizePath_real [OF assms(1), of t] assms(4,5) len [of t] len [of "d @ [l]"]
    by (simp add: fuel normalizePath_def lookup_def)
  let ?fs = "without t fs"
  have "entry_at ?fs d = Some EFolder" "entry_at ?fs (d @ [l]) = Some (ELink t)" "fs_ok ?fs"
    using assms(2,4,6) \<open>\<not> prefix t (d @ [l])\<close> without_ok [OF assms(1) t] by (simp_all add: entry_at_without)
  moreover from this have "readdir ?fs d \<noteq> []"
    using readdir_set [of ?fs l d] by force
  ultimately have "deleteFile (\<lambda>_. True) d ?fs = (False, ?fs)"
    using parent_place_real [of ?fs d] d len [of d] assms(2) by (simp add: deleteFile_def)
  then have "deleteFolder (\<lambda>_. True) (\<lambda>_. True) (Suc fuel) d fs = Some (True, ?fs)"
    using lookup_real [OF assms(1), of d] len [of d] assms(2,3) del
      deleteFolder_tree [OF assms(1) _ t assms(8,9) _ \<open>short_paths t fs\<close>, of "\<lambda>_. True" "\<lambda>_. True"] assms(5)
    by (simp add: isDirectory_def may_delete_def)
  then show ?thesis
    using \<open>entry_at ?fs d = Some EFolder\<close> \<open>entry_at ?fs (d @ [l]) = Some (ELink t)\<close> by (simp add: entry_at_without)
qed

definition demo_links :: fsys where
  "demo_links = [([], EFolder), ([''log''], EFolder), ([''log'', ''x''], ELink [''home'']), ([''home''], EFolder),
     ([''home'', ''mail''], EFile)]"

lemma deleteFolder_follows_link_witness:
  "\<exists>fs'. entry_at demo_links [''home'', ''mail''] = Some EFile \<and>
     deleteFolder (\<lambda>_. True) (\<lambda>_. True) (Suc 2) [''log''] demo_links = Some (True, fs') \<and> entry_at fs' [''home'', ''mail''] = None \<and>
     entry_at fs' [''log''] = Some EFolder"
proof -
  have "fs_ok demo_links" "no_links [''home''] demo_links" "depth_ok 2 [''home''] demo_links"
    by (simp_all add: demo_links_def fs_ok_def no_links_def depth_ok_def)
  moreover have "short_paths [] demo_links"
    by (simp add: demo_links_def short_paths_def path_length_def PATH_MAX_def)
  moreover have "entry_at demo_links [''log''] = Some EFolder" "readdir demo_links [''log''] = [''x'']"
    "entry_at demo_links ([''log''] @ [''x'']) = Some (ELink [''home''])" "entry_at demo_links [''home''] = Some EFolder"
    by (simp_all add: demo_links_def readdir_def)
  moreover have "\<not> prefix [''home''] [''log'']" "\<not> prefix [''log''] [''home'']" "prefix [''home''] [''home'', ''mail'']"
    by simp_all
  moreover have "entry_at demo_links [''home'', ''mail''] = Some EFile"
    by (simp add: demo_links_def)
  ultimately show ?thesis
    using deleteFolder_follows_link [of demo_links "[''log'']" "''x''" "[''home'']" 2] by blast
qed

section \<open>The other calls\<close>

text \<open>A link that leads back to its own folder: the recursion does not end, whatever the bound.\<close>

lemma deleteFolder_loop:
  assumes "fs_ok fs" and "entry_at fs d = Some EFolder" and "readdir fs d = [l]" and "entry_at fs (d @ [l]) = Some (ELink d)"
    and "opens d" and "path_length (d @ [l]) < PATH_MAX"
  shows "deleteFolder ok opens fuel d fs = None"
proof -
  have "deleteFolder ok opens fuel d fs = None \<and> deleteFolder ok opens fuel (d @ [l]) fs = None"
  proof (induction fuel)
    case (Suc fuel)
    have "normalizePath fs d = Some d" "isDirectory fs d" "normalizePath fs (d @ [l]) = Some d"
      using normalizePath_real [OF assms(1), of d] resolve_link [OF assms(1,2,4)] assms(2,6) path_length_butlast [of "d @ [l]"]
      by (simp_all add: normalizePath_def lookup_def isDirectory_def)
    then show ?case
      using Suc assms(3,5) by simp
  qed simp
  then show ?thesis ..
qed

definition moveFile :: "(path \<Rightarrow> path \<Rightarrow> bool) \<Rightarrow> path \<Rightarrow> path \<Rightarrow> bool" where
  "moveFile rename src dst = (if \<not> rename src dst then False else True)"

definition getFileModificationDate :: "(path \<Rightarrow> int option) \<Rightarrow> path \<Rightarrow> int" where
  "getFileModificationDate stat_mtime p = (case stat_mtime p of None \<Rightarrow> 0 | Some t \<Rightarrow> t)"

text \<open>
  \<open>changeUser\<close>: the calls it makes and their answers. Without a log folder it does nothing and reports success.
\<close>

datatype user_call = Chown path nat nat | Setgid nat | Setuid nat

fun chown_all :: "(user_call \<Rightarrow> bool) \<Rightarrow> nat \<Rightarrow> nat \<Rightarrow> path list \<Rightarrow> bool \<times> user_call list" where
  "chown_all answer uid gid [] = (True, [])"
| "chown_all answer uid gid (p # ps) =
     (if answer (Chown p uid gid)
      then (case chown_all answer uid gid ps of (r, cs) \<Rightarrow> (r, Chown p uid gid # cs))
      else (False, [Chown p uid gid]))"

definition full_paths :: "listed list \<Rightarrow> path list" where
  "full_paths xs = List.map_filter (\<lambda>x. case x of FullPath p \<Rightarrow> Some p | BareName _ \<Rightarrow> None) xs"

definition changeUser ::
    "(path \<Rightarrow> bool) \<Rightarrow> fsys \<Rightarrow> nat \<Rightarrow> (string \<Rightarrow> (nat \<times> nat) option) \<Rightarrow> (user_call \<Rightarrow> bool) \<Rightarrow> string \<Rightarrow> path option \<Rightarrow>
      (bool \<times> user_call list) option" where
  "changeUser opens fs fuel getpwnam answer user log_path =
     (case log_path of
        None \<Rightarrow> Some (True, [])
      | Some p \<Rightarrow>
          (case getpwnam user of
             None \<Rightarrow> Some (False, [])
           | Some (uid, gid) \<Rightarrow>
               if \<not> answer (Chown p uid gid) then Some (False, [Chown p uid gid])
               else do {
                 (r, result) \<leftarrow> listFolder opens fs fuel True True True p [];
                 if \<not> r then Some (False, [Chown p uid gid])
                 else case chown_all answer uid gid (full_paths result) of (r, cs) \<Rightarrow>
                   let cs = Chown p uid gid # cs in
                   if \<not> r then Some (False, cs)
                   else if \<not> answer (Setgid gid) then Some (False, cs @ [Setgid gid])
                   else if \<not> answer (Setuid uid) then Some (False, cs @ [Setgid gid, Setuid uid])
                   else Some (True, cs @ [Setgid gid, Setuid uid]) }))"

text \<open>
  When \<open>changeUser\<close> with a log folder reports success, the group and the user have been changed, in this order, after
  every file; without one nothing has.
\<close>

lemma chown_all_calls: "fst (chown_all answer uid gid ps) \<Longrightarrow> snd (chown_all answer uid gid ps) = map (\<lambda>p. Chown p uid gid) ps"
  by (induction ps) (auto split: if_splits prod.splits)

lemma changeUser_success:
  assumes "changeUser opens fs fuel getpwnam answer user log_path = Some (True, cs)"
  shows "case log_path of
      None \<Rightarrow> cs = []
    | Some p \<Rightarrow> \<exists>uid gid ps. getpwnam user = Some (uid, gid) \<and> cs = map (\<lambda>p. Chown p uid gid) (p # ps) @ [Setgid gid, Setuid uid]"
proof (cases log_path)
  case (Some p)
  then obtain uid gid result where u: "getpwnam user = Some (uid, gid)" "listFolder opens fs fuel True True True p [] = Some (True, result)"
      "fst (chown_all answer uid gid (full_paths result))"
      "cs = Chown p uid gid # snd (chown_all answer uid gid (full_paths result)) @ [Setgid gid, Setuid uid]"
    using assms by (auto simp: changeUser_def Let_def split: option.splits if_splits bind_splits prod.splits)
  then show ?thesis
    using chown_all_calls [OF u(3)] Some by auto
qed (use assms in \<open>simp add: changeUser_def\<close>)

end
