(* ===== verification/LocalTime.thy ===== *)
theory LocalTime
  imports Prelude
begin

text \<open>
  \<open>gsdm_localtime_r\<close> of \<open>src/platform/linuxplatform.cpp\<close>: the calendar date of a time stamp, computed with integer
  divisions only. Divisions truncate towards zero as in C; \<open>time_t\<close> has 64 bits, every other
  variable is an \<open>int\<close>. For a time zone within a day no intermediate value leaves the range of \<open>int\<close> once \<open>i\<close>
  has been converted to it. The reference is the Gregorian calendar, counted in years and months.
\<close>

record tm =
  tm_sec :: int
  tm_min :: int
  tm_hour :: int
  tm_mday :: int
  tm_mon :: int
  tm_year :: int

definition gsdm_localtime_r :: "int \<Rightarrow> int \<Rightarrow> tm" where
  "gsdm_localtime_r unix_sec time_zone =
     (let sec = c_mod unix_sec 60;
          i = i32 (c_div unix_sec 60);
          mn = c_mod i 60;
          i = c_div i 60;
          hour = c_mod (i + time_zone) 24;
          mday = c_div (i + time_zone) 24;
          a = mday + 2472632;
          b = c_div (a * 4 + 3) 146097;
          c = c_div (- b * 146097) 4 + a;
          d = c_div (c * 4 + 3) 1461;
          e = - d * 1461;
          e = c_div e 4 + c;
          m = c_div (5 * e + 2) 153
      in \<lparr>tm_sec = sec, tm_min = mn, tm_hour = hour,
          tm_mday = c_div (- (153 * m + 2)) 5 + e + 1,
          tm_mon = c_div (- m) 10 * 12 + m + 2,
          tm_year = b * 100 + d - 6700 + c_div m 10\<rparr>)"

section \<open>The Gregorian calendar\<close>

definition leap_year :: "int \<Rightarrow> bool" where
  "leap_year y \<longleftrightarrow> y mod 4 = 0 \<and> (y mod 100 \<noteq> 0 \<or> y mod 400 = 0)"

definition month_days :: "int \<Rightarrow> int list" where
  "month_days y = [31, if leap_year y then 29 else 28, 31, 30, 31, 30, 31, 31, 30, 31, 30, 31]"

definition days_before_year :: "int \<Rightarrow> int" where
  "days_before_year y = 365 * (y - 1) + (y - 1) div 4 - (y - 1) div 100 + (y - 1) div 400"

text \<open>Days since 1 January 1970; \<open>mon\<close> counts from 0, as in \<open>struct tm\<close>.\<close>

definition day_number :: "int \<Rightarrow> int \<Rightarrow> int \<Rightarrow> int" where
  "day_number y mon mday =
     days_before_year y - days_before_year 1970 + sum_list (take (nat mon) (month_days y)) + (mday - 1)"

definition valid_tm :: "tm \<Rightarrow> bool" where
  "valid_tm t \<longleftrightarrow> 0 \<le> tm_sec t \<and> tm_sec t < 60 \<and> 0 \<le> tm_min t \<and> tm_min t < 60 \<and> 0 \<le> tm_hour t \<and> tm_hour t < 24 \<and>
     0 \<le> tm_mon t \<and> tm_mon t < 12 \<and> 1 \<le> tm_mday t \<and> tm_mday t \<le> month_days (tm_year t + 1900) ! nat (tm_mon t)"

text \<open>A year is as long as its months, so the two halves of \<^const>\<open>day_number\<close> fit together.\<close>

lemma div_pred:
  fixes n y :: int
  assumes "0 < n"
  shows "y div n - (y - 1) div n = (if y mod n = 0 then 1 else 0)"
proof (cases "y mod n = 0")
  case True
  have "y - 1 = n * (y div n - 1) + (n - 1)"
    using True mult_div_mod_eq [of n y] by (simp add: algebra_simps)
  then have "(y - 1) div n = y div n - 1"
    by (rule int_div_pos_eq) (use assms in auto)
  then show ?thesis
    using True by simp
next
  case False
  have "y - 1 = n * (y div n) + (y mod n - 1)"
    using mult_div_mod_eq [of n y] by simp
  moreover have "0 \<le> y mod n - 1" "y mod n - 1 < n"
    using False pos_mod_sign [OF assms, of y] pos_mod_bound [OF assms, of y] by linarith+
  ultimately have "(y - 1) div n = y div n"
    by (rule int_div_pos_eq)
  then show ?thesis
    using False by simp
qed

lemma days_before_Suc: "days_before_year (y + 1) = days_before_year y + sum_list (month_days y)"
proof -
  have m: "y mod 400 = 0 \<Longrightarrow> y mod 100 = 0" "y mod 100 = 0 \<Longrightarrow> y mod 4 = 0"
    using mod_mod_cancel [of 100 400 y] mod_mod_cancel [of 4 100 y] by simp_all
  have year: "sum_list (month_days y) = 365 + (if leap_year y then 1 else 0)"
    by (simp add: month_days_def)
  have leap: "(if leap_year y then 1 else 0 :: int) =
      (if y mod 4 = 0 then 1 else 0) - (if y mod 100 = 0 then 1 else 0) + (if y mod 400 = 0 then 1 else 0)"
  proof -
    have "(c \<Longrightarrow> b) \<Longrightarrow> (b \<Longrightarrow> a) \<Longrightarrow> (if a \<and> (\<not> b \<or> c) then 1 else 0 :: int) =
        (if a then 1 else 0) - (if b then 1 else 0) + (if c then 1 else 0)" for a b c
      by auto
    from this [OF m] show ?thesis
      by (simp only: leap_year_def)
  qed
  have sum: "p4 - q4 = d4 \<Longrightarrow> p100 - q100 = d100 \<Longrightarrow> p400 - q400 = d400 \<Longrightarrow>
      365 * y + p4 - p100 + p400 = 365 * (y - 1) + q4 - q100 + q400 + (365 + (d4 - d100 + d400))"
    for p4 q4 d4 p100 q100 d100 p400 q400 d400 :: int
    by simp
  show ?thesis
    unfolding days_before_year_def year leap add_diff_cancel_right'
    by (rule sum) (rule div_pred, simp)+
qed

section \<open>The computed date is the right one\<close>

lemma c_div_neg: "0 \<le> x \<Longrightarrow> c_div (- x) n = - (x div n)"
  by (auto simp: c_div_def)

text \<open>Century, year of the century and day of the year that starts on 1 March.\<close>

lemma mult_div_4: "((4 * k + 1) * b) div 4 = k * b + b div (4 :: int)"
proof -
  have "(4 * k + 1) * b = b + 4 * (k * b)"
    by (simp add: algebra_simps)
  then show ?thesis
    by simp
qed

lemma century_bounds:
  fixes a :: int
  assumes "0 \<le> a" and "b = (a * 4 + 3) div 146097" and "c = a - (36524 * b + b div 4)"
  shows "0 \<le> b" and "0 \<le> c" and "c \<le> 36524" and "c = 36524 \<Longrightarrow> b mod 4 = 3"
proof -
  have ab: "146097 * b \<le> a * 4 + 3" "a * 4 + 3 < 146097 * b + 146097" "0 \<le> b"
    using assms(1,2) by linarith+
  have b: "b = 4 * (b div 4) + b mod 4" "0 \<le> b mod 4" "b mod 4 \<le> 3"
    by simp_all
  show "0 \<le> b" "0 \<le> c" "c \<le> 36524"
    using ab b assms(3) by linarith+
  show "b mod 4 = 3" if "c = 36524"
    using ab b assms(3) that by linarith
qed

lemma year_bounds:
  fixes c :: int
  assumes "0 \<le> c" and "c \<le> 36524" and "d = (c * 4 + 3) div 1461" and "e = c - (365 * d + d div 4)"
  shows "0 \<le> d" and "d \<le> 99" and "0 \<le> e" and "e \<le> 365" and "e = 365 \<Longrightarrow> d mod 4 = 3"
    and "e = 365 \<Longrightarrow> d = 99 \<Longrightarrow> c = 36524"
proof -
  have cd: "1461 * d \<le> c * 4 + 3" "c * 4 + 3 < 1461 * d + 1461" "0 \<le> d"
    using assms(1,3) by linarith+
  have d: "d = 4 * (d div 4) + d mod 4" "0 \<le> d mod 4" "d mod 4 \<le> 3"
    by simp_all
  show "0 \<le> d" "d \<le> 99" "0 \<le> e" "e \<le> 365"
    using cd d assms(2,4) by linarith+
  show "d mod 4 = 3" if "e = 365"
    using cd d assms(4) that by linarith
  show "c = 36524" if "e = 365" "d = 99"
    using assms(4) that by simp
qed

lemma month_cases:
  fixes e :: int
  assumes "0 \<le> e" and "e \<le> 365" and "m = (5 * e + 2) div 153"
  shows "m \<in> {0, 1, 2, 3, 4, 5, 6, 7, 8, 9, 10, 11}"
proof -
  have "0 \<le> m" "m \<le> 11"
    using assms by linarith+
  then have "m = 0 \<or> m = 1 \<or> m = 2 \<or> m = 3 \<or> m = 4 \<or> m = 5 \<or> m = 6 \<or> m = 7 \<or> m = 8 \<or> m = 9 \<or> m = 10 \<or> m = 11"
    by arith
  then show ?thesis
    by simp
qed

text \<open>The day of the month, and the day of the calendar year, from the day of the year that starts in March.\<close>

lemma march_date:
  fixes e :: int
  assumes e: "0 \<le> e" "e \<le> 365" and m: "m = (5 * e + 2) div 153" and leap: "e = 365 \<Longrightarrow> leap_year (y + 1)"
    and defs: "mday = e - (153 * m + 2) div 5 + 1" "mon = m + 2 - 12 * (m div 10)" "yr = y + m div 10"
  shows "0 \<le> mon \<and> mon < 12 \<and> 1 \<le> mday \<and> mday \<le> month_days yr ! nat mon"
    and "days_before_year yr + sum_list (take (nat mon) (month_days yr)) + (mday - 1) =
      365 * y + y div 4 - y div 100 + y div 400 - 306 + e"
proof -
  have me: "153 * m \<le> 5 * e + 2" "5 * e + 2 < 153 * m + 153"
    using m by linarith+
  have next_year: "days_before_year (y + 1) = 365 * y + y div 4 - y div 100 + y div 400"
    by (simp add: days_before_year_def)
  have this_year: "days_before_year y + sum_list (month_days y) = 365 * y + y div 4 - y div 100 + y div 400"
    using days_before_Suc [of y] next_year by simp
  have mc: "m \<in> {0, 1, 2, 3, 4, 5, 6, 7, 8, 9, 10, 11}"
    using month_cases [OF e m] .
  have "e \<le> 364 \<or> leap_year (y + 1)"
    using e leap by (cases "e = 365") auto
  then show "0 \<le> mon \<and> mon < 12 \<and> 1 \<le> mday \<and> mday \<le> month_days yr ! nat mon"
    using mc me e unfolding defs by (auto simp: month_days_def)
  show "days_before_year yr + sum_list (take (nat mon) (month_days yr)) + (mday - 1) =
      365 * y + y div 4 - y div 100 + y div 400 - 306 + e"
    using mc me e this_year next_year unfolding defs by (auto simp: month_days_def)
qed

lemma leap_march:
  fixes b d :: int
  assumes "0 \<le> d" and "d \<le> 99" and "d mod 4 = 3" and "d = 99 \<Longrightarrow> b mod 4 = 3"
  shows "leap_year (100 * b + d - 4800 + 1)"
proof -
  obtain k where d: "d = 4 * k + 3"
    using mult_div_mod_eq [of 4 d] assms(3) by metis
  have "100 * b + d - 4800 + 1 = (25 * b + k - 1199) * 4"
    by (simp add: d algebra_simps)
  then have "(100 * b + d - 4800 + 1) mod 4 = 0"
    by simp
  moreover have "(100 * b + d - 4800 + 1) mod 400 = 0" if "d = 99"
  proof -
    have "b mod 4 = 3"
      using assms(4) that by blast
    then obtain l where b: "b = 4 * l + 3"
      using mult_div_mod_eq [of 4 b] by metis
    have "100 * b + d - 4800 + 1 = (l - 11) * 400"
      by (simp add: b that algebra_simps)
    then show ?thesis
      by simp
  qed
  moreover have "(100 * b + d - 4800 + 1) mod 100 = d + 1" if "d \<noteq> 99"
    by (rule int_mod_pos_eq [where q = "b - 48"]) (use assms that in auto)
  ultimately show ?thesis
    using assms(1) unfolding leap_year_def by (cases "d = 99") simp_all
qed

lemma gregorian_years:
  fixes b d :: int
  assumes "0 \<le> d" and "d \<le> 99"
  shows "365 * (100 * b + d - 4800) + (100 * b + d - 4800) div 4 - (100 * b + d - 4800) div 100 + (100 * b + d - 4800) div 400 =
     36524 * b + b div 4 + 365 * d + d div 4 - 1753164"
proof -
  obtain q r where d: "d = 4 * q + r" "0 \<le> r" "r < 4" "d div 4 = q"
    using mult_div_mod_eq [of 4 d] by (metis pos_mod_bound pos_mod_sign zero_less_numeral)
  obtain k l where b: "b = 4 * k + l" "0 \<le> l" "l < 4" "b div 4 = k"
    using mult_div_mod_eq [of 4 b] by (metis pos_mod_bound pos_mod_sign zero_less_numeral)
  have "(100 * b + d - 4800) div 4 = 25 * b + q - 1200"
    by (rule int_div_pos_eq [where r = r]) (use d in \<open>simp_all add: algebra_simps\<close>)
  moreover have "(100 * b + d - 4800) div 100 = b - 48"
    by (rule int_div_pos_eq [where r = d]) (use assms in simp_all)
  moreover have "(100 * b + d - 4800) div 400 = k - 12"
    by (rule int_div_pos_eq [where r = "100 * l + d"]) (use assms b in \<open>simp_all add: algebra_simps\<close>)
  ultimately show ?thesis
    by (simp add: b(4) d(4))
qed

lemma day_number_alt:
  "day_number y mon mday = days_before_year y + sum_list (take (nat mon) (month_days y)) + (mday - 1) - 719162"
  by (simp add: day_number_def days_before_year_def [of 1970])

lemma localtime_fields:
  assumes "0 \<le> s" and "s < 60 * 2 ^ 31" and "0 \<le> h"
    and i_def: "i = s div 60" and h_def: "h = i div 60 + tz" and a_def: "a = h div 24 + 2472632"
    and b_def: "b = (a * 4 + 3) div 146097" and c_def: "c = a - (36524 * b + b div 4)"
    and d_def: "d = (c * 4 + 3) div 1461" and e_def: "e = c - (365 * d + d div 4)" and m_def: "m = (5 * e + 2) div 153"
  shows "gsdm_localtime_r s tz = \<lparr>tm_sec = s mod 60, tm_min = i mod 60, tm_hour = h mod 24,
      tm_mday = e - (153 * m + 2) div 5 + 1, tm_mon = m + 2 - 12 * (m div 10), tm_year = 100 * b + d - 6700 + m div 10\<rparr>"
proof -
  have i: "0 \<le> i" "i < 2 ^ 31"
    using assms(1,2) by (simp_all add: i_def)
  have a0: "0 \<le> a"
    using assms(3) by (simp add: a_def pos_imp_zdiv_nonneg_iff)
  note B = century_bounds [OF a0 b_def c_def]
  note Y = year_bounds [OF B(2,3) d_def e_def]
  have m0: "0 \<le> m"
    using Y(3) by (simp add: m_def)
  have cb: "c_div (- b * 146097) 4 = - (36524 * b + b div 4)"
    using B(1) mult_div_4 [of 36524 b] by (simp add: c_div_neg mult.commute)
  have cd: "c_div (- d * 1461) 4 = - (365 * d + d div 4)"
    using Y(1) mult_div_4 [of 365 d] by (simp add: c_div_neg mult.commute)
  have "c_mod s 60 = s mod 60" and "i32 (c_div s 60) = i"
    using assms(1) i by (simp_all add: i32_small flip: i_def)
  moreover have "c_mod i 60 = i mod 60" and "c_div i 60 + tz = h"
    using i by (simp_all add: h_def)
  moreover have "c_mod h 24 = h mod 24" and "c_div h 24 + 2472632 = a"
    using assms(3) by (simp_all add: a_def)
  moreover have "c_div (a * 4 + 3) 146097 = b" and "c_div (- b * 146097) 4 + a = c"
    using a0 cb by (simp_all add: b_def c_def)
  moreover have "c_div (c * 4 + 3) 1461 = d" and "c_div (- d * 1461) 4 + c = e"
    using B(2) cd by (simp_all add: d_def e_def)
  moreover have "c_div (5 * e + 2) 153 = m" and "c_div (- (153 * m + 2)) 5 = - ((153 * m + 2) div 5)"
    using Y(3) m0 by (simp_all only: c_div_neg c_div_nonneg m_def)
  moreover have "c_div (- m) 10 = - (m div 10)" and "c_div m 10 = m div 10"
    using m0 by (simp_all only: c_div_neg c_div_nonneg)
  ultimately show ?thesis
    by (simp only: gsdm_localtime_r_def Let_def) simp
qed

text \<open>The date computed from the day count \<open>k\<close> is a date and counts \<open>k\<close> days.\<close>

lemma localtime_day:
  assumes "0 \<le> k" and a_def: "a = k + 2472632"
    and b_def: "b = (a * 4 + 3) div 146097" and c_def: "c = a - (36524 * b + b div 4)"
    and d_def: "d = (c * 4 + 3) div 1461" and e_def: "e = c - (365 * d + d div 4)" and m_def: "m = (5 * e + 2) div 153"
    and defs: "mday = e - (153 * m + 2) div 5 + 1" "mon = m + 2 - 12 * (m div 10)" "yr = 100 * b + d - 4800 + m div 10"
  shows "0 \<le> mon \<and> mon < 12 \<and> 1 \<le> mday \<and> mday \<le> month_days yr ! nat mon" and "day_number yr mon mday = k"
proof -
  have a0: "0 \<le> a"
    using assms(1) by (simp add: a_def)
  note B = century_bounds [OF a0 b_def c_def]
  note Y = year_bounds [OF B(2,3) d_def e_def]
  have leap: "e = 365 \<Longrightarrow> leap_year (100 * b + d - 4800 + 1)"
    using leap_march [OF Y(1,2)] Y(5,6) B(4) by blast
  note M = march_date [OF Y(3,4) m_def leap defs]
  show "0 \<le> mon \<and> mon < 12 \<and> 1 \<le> mday \<and> mday \<le> month_days yr ! nat mon"
    by (rule M(1))
  have sum: "p + q + r + t - 1753164 - 306 + e - 719162 = k" if "c = a - (p + q)" "e = c - (r + t)" for p q r t
    using that a_def by simp
  show "day_number yr mon mday = k"
    unfolding day_number_alt using sum [OF c_def e_def] M(2) gregorian_years [OF Y(1,2), of b] by (simp only:)
qed

text \<open>
  C37: For every time stamp whose local time is not before 1970 (up to the year 6000) and every time zone within a day, the computed fields
  are a valid date and time of the Gregorian calendar, and they stand for the local time: the day counted in
  years and months and the time of day add up to the time stamp shifted by the time zone.
\<close>
theorem localtime_correct:
  assumes "0 \<le> s" and "0 \<le> s + 3600 * tz" and "- 24 \<le> tz" and "tz \<le> 24" and "s < 60 * 2 ^ 31"
  shows "valid_tm (gsdm_localtime_r s tz) \<and>
     ((day_number (tm_year (gsdm_localtime_r s tz) + 1900) (tm_mon (gsdm_localtime_r s tz)) (tm_mday (gsdm_localtime_r s tz)) * 24 +
       tm_hour (gsdm_localtime_r s tz)) * 60 + tm_min (gsdm_localtime_r s tz)) * 60 + tm_sec (gsdm_localtime_r s tz) = s + 3600 * tz"
proof -
  define i where "i = s div 60"
  define h where "h = i div 60 + tz"
  have s: "s = 60 * i + s mod 60" "0 \<le> s mod 60" "s mod 60 < 60"
    by (simp_all add: i_def)
  have ih: "i = 60 * (i div 60) + i mod 60" "0 \<le> i mod 60" "i mod 60 < 60"
    by simp_all
  have h: "0 \<le> h"
    using assms(2) s ih unfolding h_def by linarith
  then have k: "0 \<le> h div 24"
    by (simp add: pos_imp_zdiv_nonneg_iff)
  define a where "a = h div 24 + 2472632"
  define b where "b = (a * 4 + 3) div 146097"
  define c where "c = a - (36524 * b + b div 4)"
  define d where "d = (c * 4 + 3) div 1461"
  define e where "e = c - (365 * d + d div 4)"
  define m where "m = (5 * e + 2) div 153"
  note tm = localtime_fields [OF assms(1,5) h i_def h_def a_def b_def c_def d_def e_def m_def]
  note day = localtime_day [OF k a_def b_def c_def d_def e_def m_def refl refl refl]
  have year: "tm_year (gsdm_localtime_r s tz) + 1900 = 100 * b + d - 4800 + m div 10"
    by (simp add: tm)
  have "day_number (tm_year (gsdm_localtime_r s tz) + 1900) (tm_mon (gsdm_localtime_r s tz))
      (tm_mday (gsdm_localtime_r s tz)) = h div 24"
    unfolding year using day(2) by (simp only: tm tm.simps)
  moreover have "((x * 24 + y) * 60 + v) * 60 + w = s + 3600 * tz"
    if "h = 24 * x + y" "i = 60 * u + v" "s = 60 * i + w" "h = u + tz" for x y u v w
    using that by simp
  from this [OF mult_div_mod_eq [symmetric] ih(1) s(1) h_def]
  have "((h div 24 * 24 + h mod 24) * 60 + i mod 60) * 60 + s mod 60 = s + 3600 * tz" .
  moreover have "tm_hour (gsdm_localtime_r s tz) = h mod 24" "tm_min (gsdm_localtime_r s tz) = i mod 60"
    "tm_sec (gsdm_localtime_r s tz) = s mod 60"
    by (simp_all only: tm tm.simps)
  moreover have "valid_tm (gsdm_localtime_r s tz)"
    unfolding valid_tm_def year using day(1) by (simp add: tm)
  ultimately show ?thesis
    by (simp only:)
qed

lemma localtime_correct_witness:
  "valid_tm (gsdm_localtime_r 1709212500 8) \<and>
     ((day_number (tm_year (gsdm_localtime_r 1709212500 8) + 1900) (tm_mon (gsdm_localtime_r 1709212500 8))
         (tm_mday (gsdm_localtime_r 1709212500 8)) * 24 +
       tm_hour (gsdm_localtime_r 1709212500 8)) * 60 + tm_min (gsdm_localtime_r 1709212500 8)) * 60 +
     tm_sec (gsdm_localtime_r 1709212500 8) = 1709212500 + 3600 * 8"
  by (rule localtime_correct) simp_all

end
