(* ===== verification/SysInfo.thy ===== *)
theory SysInfo
  imports Folders LocalTime
begin

text \<open>
  The clock, the time stamps and the queries of the system in \<open>src/platform/linuxplatform.cpp\<close>. What the system answers
  is an argument.
\<close>

section \<open>Clock and time stamps\<close>

text \<open>\<open>gettimeofday\<close> gives seconds and microseconds.\<close>

definition getCurrentGsdmMsec :: "nat \<times> nat \<Rightarrow> nat" where
  "getCurrentGsdmMsec tv = u64 (fst tv * 1000 + snd tv div 1000)"

definition getCurrentGsdmMicro :: "nat \<times> nat \<Rightarrow> nat" where
  "getCurrentGsdmMicro tv = u64 (fst tv * 1000000 + snd tv)"

text \<open>\<open>strftime\<close> for the conversions the sources use.\<close>

definition two_digits :: "int \<Rightarrow> string" where
  "two_digits x = pad_left (CHR ''0'') 2 (dec_int x)"

fun c_strftime :: "string \<Rightarrow> tm \<Rightarrow> string" where
  "c_strftime [] t = []"
| "c_strftime (c # d # cs) t =
     (if c = CHR ''%''
      then (if d = CHR ''Y'' then dec_int (tm_year t + 1900)
            else if d = CHR ''m'' then two_digits (tm_mon t + 1)
            else if d = CHR ''d'' then two_digits (tm_mday t)
            else if d = CHR ''H'' then two_digits (tm_hour t)
            else if d = CHR ''M'' then two_digits (tm_min t)
            else if d = CHR ''S'' then two_digits (tm_sec t)
            else [c, d]) @ c_strftime cs t
      else c # c_strftime (d # cs) t)"
| "c_strftime [c] t = [c]"

text \<open>A text that does not fit into the 128 bytes leaves the buffer unspecified.\<close>

definition getLocalTimeString :: "string \<Rightarrow> int \<Rightarrow> string option" where
  "getLocalTimeString fmt t =
     (let s = c_strftime fmt (gsdm_localtime_r t 8) in if length s < 128 then Some s else None)"

definition getCurrentGsdmMsecStr :: "nat \<Rightarrow> string" where
  "getCurrentGsdmMsecStr now =
     c_strftime ''%Y-%m-%d %H:%M:%S'' (gsdm_localtime_r (int (now div 1000)) 8) @ ''.'' @ dec_digits (now mod 1000)"

text \<open>The milliseconds are not padded: a later time stamp of the same second can come first as a text.\<close>

lemma msec_not_padded:
  "\<exists>t. getCurrentGsdmMsecStr (1000 * s + 7) = t @ ''.7'' \<and> getCurrentGsdmMsecStr (1000 * s + 61) = t @ ''.61''"
  by (simp add: getCurrentGsdmMsecStr_def dec_digits.simps [of 61] dec_digits.simps [of 7] dec_digits.simps [of 6]
      dec_digits.simps [of "Suc 0"] digit_chr_def)

text \<open>The macros on \<open>struct timespec\<close> of \<open>include/platform/linuxplatform.h\<close>: seconds and nanoseconds, without an overflow of the seconds.\<close>

record timespec =
  tv_sec :: int
  tv_nsec :: int

definition timespecsub :: "timespec \<Rightarrow> timespec \<Rightarrow> timespec" where
  "timespecsub a b =
     (let s = tv_sec a - tv_sec b; n = tv_nsec a - tv_nsec b in
      if n < 0 then \<lparr>tv_sec = s - 1, tv_nsec = n + 1000000000\<rparr> else \<lparr>tv_sec = s, tv_nsec = n\<rparr>)"

definition timespecadd :: "timespec \<Rightarrow> timespec \<Rightarrow> timespec" where
  "timespecadd a b =
     (let s = tv_sec a + tv_sec b; n = tv_nsec a + tv_nsec b in
      if 1000000000 \<le> n then \<lparr>tv_sec = s + 1, tv_nsec = n - 1000000000\<rparr> else \<lparr>tv_sec = s, tv_nsec = n\<rparr>)"

definition timespec_ok :: "timespec \<Rightarrow> bool" where
  "timespec_ok t \<longleftrightarrow> 0 \<le> tv_nsec t \<and> tv_nsec t < 1000000000"

text \<open>Both keep the nanoseconds below a second, and each undoes the other.\<close>

lemma timespec_ok_ops:
  assumes "timespec_ok a" and "timespec_ok b"
  shows "timespec_ok (timespecadd a b) \<and> timespec_ok (timespecsub a b)"
  using assms by (auto simp: timespec_ok_def timespecadd_def timespecsub_def Let_def)

lemma timespec_sub_add:
  assumes "timespec_ok a" and "timespec_ok b"
  shows "timespecsub (timespecadd a b) b = a" and "timespecadd (timespecsub a b) b = a"
  using assms by (auto simp: timespec_ok_def timespecadd_def timespecsub_def Let_def)

section \<open>Processors, hosts and addresses\<close>

text \<open>The number of processors is cut to a signed byte.\<close>

definition getCPUCount :: "int \<Rightarrow> int" where
  "getCPUCount n = (n + 128) mod 256 - 128"

text \<open>
  \<open>getHostByName\<close>: \<open>gethostbyname_r\<close> returns a code, positive for an error, and a pointer that is null when there is no
  result. \<^term>\<open>None\<close> follows the null pointer.
\<close>

record hostent =
  h_length :: int
  h_addr_list :: "byte list list option"

definition dotted :: "byte list \<Rightarrow> string" where
  "dotted bs = dec_digits (unat (bs ! 0)) @ ''.'' @ dec_digits (unat (bs ! 1)) @ ''.'' @
     dec_digits (unat (bs ! 2)) @ ''.'' @ dec_digits (unat (bs ! 3))"

definition getHostByName :: "(string \<Rightarrow> int \<times> hostent option) \<Rightarrow> string \<Rightarrow> string option" where
  "getHostByName gethostbyname name =
     (case gethostbyname name of (rc, h) \<Rightarrow>
        if rc < 0 then Some []
        else do {
          h \<leftarrow> h;
          if h_length h \<le> 0 then Some []
          else case h_addr_list h of
              None \<Rightarrow> Some []
            | Some [] \<Rightarrow> Some []
            | Some (a # _) \<Rightarrow> if length a < 4 then None else Some (dotted a) })"

text \<open>
  \<open>getAllHostIP\<close> collects into a \<open>std::multimap\<close>: sorted by the name of the interface, the addresses of one name in
  the order of insertion.
\<close>

record interface =
  if_name :: string
  if_ip :: string
  if_loopback :: bool
  if_up :: bool

definition char_less :: "char \<Rightarrow> char \<Rightarrow> bool" where
  "char_less a b \<longleftrightarrow> (of_char a :: nat) < of_char b"

fun name_less :: "string \<Rightarrow> string \<Rightarrow> bool" where
  "name_less [] [] = False"
| "name_less [] (b # bs) = True"
| "name_less (a # as) [] = False"
| "name_less (a # as) (b # bs) = (if char_less a b then True else if char_less b a then False else name_less as bs)"

fun multimap_insert :: "string \<times> string \<Rightarrow> (string \<times> string) list \<Rightarrow> (string \<times> string) list" where
  "multimap_insert e [] = [e]"
| "multimap_insert e (x # xs) = (if name_less (fst e) (fst x) then e # x # xs else x # multimap_insert e xs)"

fun host_ips :: "bool \<Rightarrow> bool \<Rightarrow> interface list \<Rightarrow> (string \<times> string) list \<Rightarrow> (string \<times> string) list" where
  "host_ips find_lo find_down [] ips = ips"
| "host_ips find_lo find_down (i # is) ips =
     host_ips find_lo find_down is
       (if (find_lo \<or> \<not> if_loopback i) \<and> (find_down \<or> if_up i) then multimap_insert (if_name i, if_ip i) ips else ips)"

definition getAllHostIP :: "interface list \<Rightarrow> bool \<Rightarrow> bool \<Rightarrow> (string \<times> string) list" where
  "getAllHostIP is find_lo find_down = host_ips find_lo find_down is []"

definition getHostPublicIP :: "interface list \<Rightarrow> string" where
  "getHostPublicIP is = getPublicIP (map snd (getAllHostIP is False False))"

definition getHostPrivateIP :: "interface list \<Rightarrow> string" where
  "getHostPrivateIP is = getPrivateIP (map snd (getAllHostIP is False False))"

lemma set_multimap_insert [simp]: "set (multimap_insert e xs) = insert e (set xs)"
  by (induction e xs rule: multimap_insert.induct) auto

lemma set_host_ips:
  "set (host_ips lo down is ips) =
     set ips \<union> (\<lambda>i. (if_name i, if_ip i)) ` {i \<in> set is. (lo \<or> \<not> if_loopback i) \<and> (down \<or> if_up i)}"
  by (induction lo down "is" ips rule: host_ips.induct) auto

text \<open>\<open>inet_pton\<close> stores the address in network order, read here as the machine reads it; a text that is none leaves the 0.\<close>

definition getHostIPv4_of :: "(string \<Rightarrow> byte list option) \<Rightarrow> string \<Rightarrow> nat" where
  "getHostIPv4_of inet_pton ip = (case inet_pton ip of None \<Rightarrow> 0 | Some bs \<Rightarrow> foldr (\<lambda>b a. unat b + 256 * a) bs 0)"

text \<open>\<open>inet_ntop\<close> writes a text with its \<open>NUL\<close> into the cleared array of 128 bytes, or nothing.\<close>

definition getHostIPv6 :: "(byte list \<Rightarrow> nat \<Rightarrow> string option) \<Rightarrow> byte list \<Rightarrow> string" where
  "getHostIPv6 inet_ntop addr = (case inet_ntop addr 128 of None \<Rightarrow> [] | Some s \<Rightarrow> s)"

section \<open>Processes\<close>

datatype daemon_end = DaemonFalse | ParentExit | DaemonTrue

text \<open>The answers of \<open>fork\<close> and \<open>setsid\<close>; the child of the fork goes on as the daemon.\<close>

definition doDaemon :: "int \<Rightarrow> int \<Rightarrow> daemon_end" where
  "doDaemon fork setsid = (if fork < 0 then DaemonFalse else if fork > 0 then ParentExit
     else if setsid < 0 then DaemonFalse else DaemonTrue)"

definition installSignal :: "bool \<Rightarrow> bool \<Rightarrow> bool" where
  "installSignal emptyset act = (if \<not> emptyset then False else if \<not> act then False else True)"

text \<open>\<open>answers\<close> gives what \<open>sigemptyset\<close> and \<open>sigaction\<close> return for a signal.\<close>

definition installQuitSignal :: "(int \<Rightarrow> bool \<times> bool) \<Rightarrow> bool" where
  "installQuitSignal answers = (case answers 2 of (emptyset, act) \<Rightarrow> installSignal emptyset act)"

definition installConfRereadSignal :: "(int \<Rightarrow> bool \<times> bool) \<Rightarrow> bool" where
  "installConfRereadSignal answers = (case answers 1 of (emptyset, act) \<Rightarrow> installSignal emptyset act)"

text \<open>\<open>CPU_SET\<close> ignores what is outside of the 1024 bits of the set; \<open>code\<close> is what the library returns for the set.\<close>

definition setaffinityNp :: "(nat set \<Rightarrow> int) \<Rightarrow> int list \<Rightarrow> bool" where
  "setaffinityNp code cpus =
     (let cpuset = nat ` set (filter (\<lambda>c. 0 \<le> c \<and> c < 1024) cpus) in if code cpuset \<noteq> 0 then False else True)"

definition setLimit :: "int \<Rightarrow> bool" where
  "setLimit setrlimit = (if setrlimit = -1 then False else True)"

text \<open>\<open>sscanf\<close> with the format \<open>%*s %s\<close>: the second word of the line; without one the target keeps its text.\<close>

definition skip_space :: "string \<Rightarrow> string" where "skip_space s = dropWhile is_space s"

definition next_word :: "string \<Rightarrow> string \<times> string" where
  "next_word s = (let t = skip_space s in (takeWhile (\<lambda>c. \<not> is_space c) t, dropWhile (\<lambda>c. \<not> is_space c) t))"

definition scan_second :: "string \<Rightarrow> string \<Rightarrow> string" where
  "scan_second line old =
     (case next_word line of (w, rest) \<Rightarrow>
        if w = [] then old else case next_word rest of (v, _) \<Rightarrow> if v = [] then old else v)"

text \<open>
  An entry of \<open>/proc\<close> is a name with the first line of its status file, the outer \<^term>\<open>None\<close> where it cannot be
  opened and the inner one where nothing can be read. \<open>sscanf\<close> with \<open>%d\<close> leaves the process number as it was when
  the name has none.
\<close>

type_synonym proc_entry = "string \<times> string option option"

fun pids_named :: "string \<Rightarrow> proc_entry list \<Rightarrow> string \<Rightarrow> int list \<Rightarrow> int list" where
  "pids_named task [] cur pids = pids"
| "pids_named task ((name, status) # es) cur pids =
     (if name = ''.'' \<or> name = ''..'' then pids_named task es cur pids
      else case status of
          None \<Rightarrow> pids_named task es cur pids
        | Some None \<Rightarrow> pids_named task es cur pids
        | Some (Some line) \<Rightarrow>
            let cur = scan_second line cur in
            pids_named task es cur (if task = cur then pids @ [c_atoi name] else pids))"

definition getPidByName :: "string \<Rightarrow> proc_entry list option \<Rightarrow> int list" where
  "getPidByName task proc = (case proc of None \<Rightarrow> [] | Some es \<Rightarrow> sort (pids_named task es [] []))"

definition getNameByPid :: "string option option \<Rightarrow> string" where
  "getNameByPid status = (case status of Some (Some line) \<Rightarrow> scan_second line [] | _ \<Rightarrow> [])"

text \<open>\<open>gsdmIconv\<close>: the answers of \<open>iconv_open\<close> and \<open>iconv\<close>, and the room left in the output.\<close>

definition gsdmIconv :: "bool \<Rightarrow> nat \<Rightarrow> nat \<Rightarrow> nat \<Rightarrow> nat" where
  "gsdmIconv opened rs outlen left = (if \<not> opened then 0 else if rs \<noteq> 0 then 0 else sub64 outlen left)"

text \<open>Every listed process has the name, and every process with it is listed, in ascending order.\<close>

lemma scan_second_two: "scan_second line old = (if fst (next_word line) = [] \<or> fst (next_word (snd (next_word line))) = [] then old
     else fst (next_word (snd (next_word line))))"
  by (simp add: scan_second_def split: prod.splits)

lemma pids_named_words:
  assumes "\<forall>(name, status)\<in>set es. \<forall>line. status = Some (Some line) \<longrightarrow> fst (next_word line) \<noteq> [] \<and> fst (next_word (snd (next_word line))) \<noteq> []"
  shows "pids_named task es cur pids = pids @ map (\<lambda>e. c_atoi (fst e))
     (filter (\<lambda>(name, status). name \<noteq> ''.'' \<and> name \<noteq> ''..'' \<and> (\<exists>line. status = Some (Some line) \<and> scan_second line [] = task)) es)"
  using assms
proof (induction task es cur pids rule: pids_named.induct)
  case (2 task name status es cur pids)
  show ?case
  proof (cases "name = ''.'' \<or> name = ''..''")
    case False
    then show ?thesis
      using 2(2-) 2(4) [OF False _ _ refl] by (auto simp: scan_second_two Let_def split: option.splits)
  qed (use 2 in auto)
qed simp

end
