(* ===== verification/HttpClient.thy ===== *)
theory HttpClient
  imports HttpProtocol SysInfo WorkerEx
begin

text \<open>
  The HTTP client process of \<open>src/eventdrive/httpclient.cpp\<close>: a \<open>BaseProcess\<close> that connects to the host of a url,
  sends one \<open>GET\<close> request and hands one response to the virtual member \<open>ProcessRespond\<close>, whose calls the record
  lists in \<open>hc_answers\<close> (status code, header table, body; \<^term>\<open>None\<close> is the null pointer). The members of the class are the
  record, its base class is the process \<open>p\<close> of the worker's network state; the input buffer is edited in place.
\<close>

section \<open>State\<close>

record hclient =
  hc_ip :: string
  hc_port :: nat
  hc_header :: "string \<rightharpoonup> string"
  hc_code :: int
  hc_length :: nat
  hc_domain :: string
  hc_app :: string
  hc_answers :: "(int \<times> (string \<rightharpoonup> string) \<times> string option) list"

definition hc_new :: hclient where
  "hc_new = \<lparr>hc_ip = [], hc_port = 80, hc_header = Map.empty, hc_code = -1, hc_length = 0, hc_domain = [],
     hc_app = [], hc_answers = []\<rparr>"

definition hc_answer :: "int \<Rightarrow> string option \<Rightarrow> hclient \<Rightarrow> hclient" where
  "hc_answer code body c = c\<lparr>hc_answers := hc_answers c @ [(code, hc_header c, body)]\<rparr>"

section \<open>Connecting\<close>

text \<open>
  What the system answers: the resolver, the socket and its options, whether an address can be read and what
  \<open>connect\<close> does, and the address of the new connector. \<open>ex_\<close> must have been set.
\<close>

record hc_calls =
  hcc_resolve :: "string \<Rightarrow> int \<times> hostent option"
  hcc_kernel :: kernel
  hcc_socket :: "int option"
  hcc_address :: "string \<Rightarrow> bool"
  hcc_connect :: "string \<Rightarrow> nat \<Rightarrow> int \<times> nat"
  hcc_fresh :: nat

text \<open>\<open>STR\<close>: a string as C code reads it, and the end of the url from the first slash at \<open>sizeof("http://")\<close>.\<close>

definition hc_path :: "string \<Rightarrow> string option" where
  "hc_path url = do {
     tmp \<leftarrow> c_strstr (url @ [NUL]) 8 ''/'';
     (case tmp of None \<Rightarrow> Some ''/'' | Some i \<Rightarrow> c_str_at (url @ [NUL]) i)
   }"

definition hc_clear_buffers :: "nat \<Rightarrow> net \<Rightarrow> net option" where
  "hc_clear_buffers p st =
     set_proc p (\<lambda>b. b\<lparr>bp_in := snd (ib_IgnoreAll (bp_in b))\<rparr>\<lparr>bp_out := snd (ib_IgnoreAll (bp_out b))\<rparr>) st"

definition HttpClient_Connect ::
    "hc_calls \<Rightarrow> string \<Rightarrow> nat \<Rightarrow> hclient \<Rightarrow> worker \<Rightarrow> (bool \<times> hclient \<times> worker) option" where
  "HttpClient_Connect e url p c w = do {
     status \<leftarrow> GetNetStatus p (nw_net w);
     if status = PROCESS_NET_STATUS_CONNECTING \<or> status = PROCESS_NET_STATUS_CONNECTED then Some (False, c, w)
     else do {
       st \<leftarrow> SetWithMe p False (nw_net w);
       let c = c\<lparr>hc_ip := [], hc_port := 80, hc_header := Map.empty, hc_code := -1, hc_length := 0, hc_domain := [],
                 hc_app := []\<rparr>;
       st \<leftarrow> hc_clear_buffers p st;
       let w = w\<lparr>nw_net := st\<rparr>;
       vec \<leftarrow> split url ''/'';
       if length vec < 3 then Some (False, c, w)
       else do {
         vec1 \<leftarrow> split (vec ! 2) '':'';
         ip \<leftarrow> getHostByName (hcc_resolve e) (vec1 ! 0);
         let c = c\<lparr>hc_ip := ip\<rparr>;
         if ip = [] then Some (False, c, w)
         else do {
           port \<leftarrow> (if length vec1 = 2
              then map_option (\<lambda>s. nat (c_atoi s mod 2 ^ 16)) (c_str_at (vec1 ! 1 @ [NUL]) 0) else Some 80);
           app \<leftarrow> hc_path url;
           let c = c\<lparr>hc_port := port, hc_domain := vec ! 2, hc_app := app\<rparr>;
           b \<leftarrow> nt_proc st p;
           if \<not> bp_ex b then None
           else do {
             (_, w) \<leftarrow> TCPConnect (hcc_kernel e) (hcc_socket e) (hcc_address e ip) (hcc_connect e ip port)
               (hcc_fresh e) p (Some w);
             w \<leftarrow> w;
             Some (True, c, w) } } } } }"

definition hc_request :: "hclient \<Rightarrow> string option" where
  "hc_request c = do {
     app \<leftarrow> c_str_at (hc_app c @ [NUL]) 0;
     domain \<leftarrow> c_str_at (hc_domain c @ [NUL]) 0;
     Some (''GET '' @ app @ '' HTTP/1.1'' @ CRLF @ ''User-Agent: libgsdm'' @ CRLF @ ''Host: '' @ domain @ CRLF @
       ''Accept: */*'' @ CRLF @ CRLF) }"

definition HttpClient_AttachNet ::
    "(byte list \<Rightarrow> syswrite) \<Rightarrow> (byte list \<Rightarrow> syswrite) \<Rightarrow> nat \<Rightarrow> hclient \<Rightarrow> net \<Rightarrow> net option" where
  "HttpClient_AttachNet flush call p c st =
     do { v \<leftarrow> hc_request c; (_, st) \<leftarrow> SendMsg flush call p (map byte_of v) st; Some st }"

definition HttpClient_DetachNet :: "hclient \<Rightarrow> hclient" where
  "HttpClient_DetachNet c = (if hc_ip c \<noteq> [] then hc_answer (-1) None c else c)"

section \<open>Processing the response\<close>

definition hc_ParseHeader :: "string \<Rightarrow> hclient \<Rightarrow> (bool \<times> string \<times> hclient) option" where
  "hc_ParseHeader mem c = do {
     tmp1 \<leftarrow> c_strstr mem 0 CRLF;
     (case tmp1 of
        None \<Rightarrow> Some (False, mem, c)
      | Some eol \<Rightarrow> do {
          let mem = mem[eol := NUL];
          let header = 9;
          sp \<leftarrow> c_strstr mem header '' '';
          (case sp of
             None \<Rightarrow> Some (False, mem, c)
           | Some sp \<Rightarrow> do {
               let mem = mem[sp := NUL];
               code \<leftarrow> c_str_at mem header;
               let c = c\<lparr>hc_code := c_atoi code\<rparr>;
               (ok, mem, hash) \<leftarrow> http_lines False mem (eol + 2) (hc_header c);
               Some (ok, mem, c\<lparr>hc_header := hash\<rparr>)
             })
        })
   }"

text \<open>
  The part of \<open>Process\<close> that looks for the header: the result to return, if it returns there, and the number of bytes used.
  The last byte of the data is replaced by a \<open>NUL\<close> for the search and put back only when the search succeeds.
\<close>

definition hc_head :: "string \<Rightarrow> hclient \<Rightarrow> (bool option \<times> nat \<times> string \<times> hclient) option" where
  "hc_head buffer c =
     (let size = length buffer in
      if 4 > size then Some (Some True, 0, buffer, c)
      else do {
        let bak = buffer ! (size - 1);
        let buffer = buffer[size - 1 := NUL];
        fnd \<leftarrow> c_strstr buffer 0 [CR, LF, CR];
        (case fnd of
           None \<Rightarrow> Some (Some True, 0, buffer, c)
         | Some fnd \<Rightarrow> do {
             let buffer = buffer[fnd := NUL, size - 1 := bak];
             (ok, buffer, c) \<leftarrow> hc_ParseHeader buffer c;
             (if \<not> ok then Some (Some False, 0, buffer, c)
              else case hc_header c HTTP_CONTENT_LENGTH of
                None \<Rightarrow> Some (Some False, 0, buffer, c)
              | Some v \<Rightarrow> do {
                  s \<leftarrow> c_str_at (v @ [NUL]) 0;
                  Some (None, fnd + 4, buffer, c\<lparr>hc_length := nat (c_atoi s mod 2 ^ 32)\<rparr>) })
           }) })"

definition hc_body :: "string \<Rightarrow> hclient \<Rightarrow> bool \<times> hclient" where
  "hc_body buffer c =
     (if hc_length c \<noteq> 0 \<and> hc_length c = length buffer
      then (False, (hc_answer (hc_code c) (Some buffer) c)\<lparr>hc_ip := []\<rparr>) else (True, c))"

definition hc_data :: "string \<Rightarrow> hclient \<Rightarrow> (bool \<times> nat \<times> string \<times> hclient) option" where
  "hc_data buffer c =
     (if hc_length c = 0 then do {
        (ret, used, buffer, c) \<leftarrow> hc_head buffer c;
        (case ret of
           Some r \<Rightarrow> Some (r, used, buffer, c)
         | None \<Rightarrow> let (r, c) = hc_body (drop used buffer) c in Some (r, used, buffer, c)) }
      else let (r, c) = hc_body buffer c in Some (r, 0, buffer, c))"

definition HttpClient_Process :: "nat \<Rightarrow> hclient \<Rightarrow> net \<Rightarrow> (bool \<times> hclient \<times> net) option" where
  "HttpClient_Process p c st = do {
     b \<leftarrow> nt_proc st p;
     let size = u32 (ib_avail (bp_in b));
     cells \<leftarrow> mem_read (ib_block (bp_in b)) (ib_consumed (bp_in b)) size;
     bs \<leftarrow> cells_bytes cells;
     (r, used, buffer, c) \<leftarrow> hc_data (map chr_of bs) c;
     m \<leftarrow> mem_write (ib_block (bp_in b)) (ib_consumed (bp_in b)) (map (Some \<circ> byte_of) buffer);
     let b1 = ib_set_block m (bp_in b);
     st \<leftarrow> set_proc p (\<lambda>b. b\<lparr>bp_in := if used = 0 then b1 else snd (ib_Ignore b1 used)\<rparr>) st;
     Some (r, c, st) }"

section \<open>What the parser does\<close>

lemma hc_ParseHeader_respond:
  assumes "hc_header c = Map.empty" and "ParseRespondHeader mem (http_new\<lparr>h_code := hc_code c\<rparr>) = Some (ok, mem', h)"
  shows "hc_ParseHeader mem c = Some (ok, mem', c\<lparr>hc_code := h_code h, hc_header := h_respond h\<rparr>)"
proof -
  have "c = c\<lparr>hc_code := hc_code c, hc_header := Map.empty\<rparr>"
    using assms(1) by simp
  then show ?thesis
    using assms unfolding hc_ParseHeader_def ParseRespondHeader_def
    by (auto simp: Let_def split: bind_splits option.splits)
qed

lemma http_lines_length: "http_lines ok mem header m = Some (r, mem', m') \<Longrightarrow> length mem' = length mem"
proof (induction "length mem - header" arbitrary: mem header m rule: less_induct)
  case less
  show ?case
  proof (cases "\<exists>tmp1. c_strstr mem header CRLF = Some (Some tmp1)")
    case False
    then show ?thesis
      using less.prems by (subst (asm) http_lines.simps) (auto simp: Let_def split: bind_splits option.splits)
  next
    case True
    then obtain tmp1 where t: "c_strstr mem header CRLF = Some (Some tmp1)"
      by blast
    then have "length (mem[tmp1 := NUL, c := NUL]) - (tmp1 + 2) < length mem - header" for c
      using c_strstr_found [OF t] by simp linarith
    note IH = less.hyps [OF this]
    show ?thesis
      using less.prems t by (subst (asm) http_lines.simps) (auto split: option.splits dest: IH [simplified])
  qed
qed

lemma hc_ParseHeader_keeps:
  assumes "hc_ParseHeader mem c = Some (ok, mem', c')"
  shows "length mem' = length mem \<and> hc_ip c' = hc_ip c \<and> hc_answers c' = hc_answers c \<and> hc_length c' = hc_length c"
  using assms by (auto simp: hc_ParseHeader_def Let_def split: bind_splits option.splits dest: http_lines_length)

lemma hc_head_keeps:
  assumes "hc_head buffer c = Some (ret, used, buffer', c')"
  shows "length buffer' = length buffer" "used \<le> length buffer" "ret = Some False \<or> ret = Some True \<and> c' = c \<or> ret = None"
    "hc_ip c' = hc_ip c" "hc_answers c' = hc_answers c"
proof -
  show "length buffer' = length buffer" "ret = Some False \<or> ret = Some True \<and> c' = c \<or> ret = None"
    "hc_ip c' = hc_ip c" "hc_answers c' = hc_answers c"
    using assms by (auto simp: hc_head_def Let_def split: if_splits bind_splits option.splits dest!: hc_ParseHeader_keeps)
  have "fnd + 4 \<le> length buffer" if f: "c_strstr (buffer[length buffer - 1 := NUL]) 0 [CR, LF, CR] = Some (Some fnd)"
    and l: "\<not> length buffer < 4" for fnd
  proof (rule ccontr)
    let ?b = "buffer[length buffer - 1 := NUL]"
    assume "\<not> fnd + 4 \<le> length buffer"
    moreover have le: "fnd + 3 \<le> length buffer" and t: "take 3 (drop fnd ?b) = [CR, LF, CR]"
      using c_strstr_found [OF f] by (simp_all add: numeral_eq_Suc)
    ultimately have e: "length buffer - 1 = fnd + 2"
      by linarith
    have "CR = ?b ! (fnd + 2)"
      using arg_cong [OF t, of "\<lambda>l. l ! 2"] le by simp
    moreover have "?b ! (fnd + 2) = NUL"
      unfolding e [symmetric] using l by (intro nth_list_update_eq) linarith
    ultimately show False
      by simp
  qed
  then show "used \<le> length buffer"
    using assms by (auto simp: hc_head_def Let_def split: if_splits bind_splits option.splits)
qed

lemma hc_data_keeps:
  assumes "hc_data buffer c = Some (r, used, buffer', c')"
  shows "length buffer' = length buffer \<and> used \<le> length buffer"
  using assms by (auto simp: hc_data_def split: if_splits bind_splits option.splits prod.splits dest: hc_head_keeps)

section \<open>A session\<close>

text \<open>
  The segments of a connection in the order they arrive: the carrier reads one into the input buffer and calls
  \<open>Process\<close>; the connection ends when that returns false. Below, the same on the list of the waiting characters.
\<close>

definition seg_read :: "string \<Rightarrow> nat \<Rightarrow> sysread" where
  "seg_read seg n = \<lparr>sr_data = Some (map byte_of seg), sr_errno = 0\<rparr>"

fun hc_session :: "nat \<Rightarrow> string list \<Rightarrow> hclient \<Rightarrow> net \<Rightarrow> (bool \<times> hclient \<times> net) option" where
  "hc_session p [] c st = Some (True, c, st)"
| "hc_session p (seg # segs) c st = do {
     (_, _, st) \<leftarrow> read_input (seg_read seg) p st;
     (r, c, st) \<leftarrow> HttpClient_Process p c st;
     if r then hc_session p segs c st else Some (False, c, st) }"

fun hc_stream :: "string list \<Rightarrow> string \<Rightarrow> hclient \<Rightarrow> (bool \<times> hclient) option" where
  "hc_stream [] w c = Some (True, c)"
| "hc_stream (seg # segs) w c = do {
     (r, used, buffer, c) \<leftarrow> hc_data (w @ seg) c;
     if r then hc_stream segs (drop used buffer) c else Some (False, c) }"

definition hc_reads :: "nat \<Rightarrow> string \<Rightarrow> string list \<Rightarrow> net \<Rightarrow> bool" where
  "hc_reads p w segs st \<longleftrightarrow> (\<exists>b. nt_proc st p = Some b \<and> ib_wf (bp_in b) \<and> ib_data (bp_in b) = map byte_of w \<and>
     bp_recv b < 2 ^ 31 \<and> list_all (\<lambda>s. s \<noteq> [] \<and> length s \<le> bp_recv b) segs \<and>
     ib_published (bp_in b) + length (concat segs) + bp_recv b \<le> 2 ^ 31)"

lemma ib_overwrite:
  assumes wf: "ib_wf b" and len: "length xs = length (ib_data b)"
  shows "\<exists>m. mem_write (ib_block b) (ib_consumed b) (map Some xs) = Some m \<and>
     ib_wf (ib_set_block m b) \<and> ib_data (ib_set_block m b) = xs"
proof -
  note bounds = ib_wf_bounds [OF wf]
  have l: "length xs = ib_published b - ib_consumed b"
    using len ib_length_data [OF wf] by simp
  define m where "m = take (ib_consumed b) (ib_block b) @ map Some xs @ drop (ib_consumed b + length xs) (ib_block b)"
  have lm: "length m = length (ib_block b)"
    using l bounds by (simp add: m_def)
  have "take (ib_published b - ib_consumed b) (drop (ib_consumed b) m) = map Some xs"
    using bounds l by (simp add: m_def)
  then have "ib_cells (ib_set_block m b) = map Some xs"
    by (simp add: ib_cells_def lm)
  then have "ib_data (ib_set_block m b) = xs" "ib_wf (ib_set_block m b)"
    using bounds by (simp_all add: ib_data_def ib_wf_def lm comp_def list_all_iff)
  moreover have "mem_write (ib_block b) (ib_consumed b) (map Some xs) = Some m"
    using l bounds by (simp add: mem_write_def m_def)
  ultimately show ?thesis
    by blast
qed

lemma HttpClient_Process_data:
  assumes b: "nt_proc st p = Some b" "ib_wf (bp_in b)" "ib_data (bp_in b) = map byte_of w"
    and d: "hc_data w c = Some (r, used, buffer, c')"
  shows "\<exists>inb. HttpClient_Process p c st = Some (r, c', st\<lparr>nt_proc := (nt_proc st)(p \<mapsto> b\<lparr>bp_in := inb\<rparr>)\<rparr>) \<and>
     ib_wf inb \<and> ib_data inb = map byte_of (drop used buffer) \<and> ib_published inb \<le> ib_published (bp_in b)"
proof -
  let ?b = "bp_in b"
  note bounds = ib_wf_bounds [OF b(2)]
  have len: "length (ib_data ?b) = length w"
    using b(3) by simp
  have size: "u32 (ib_avail ?b) = length w"
    using ib_avail_wf [OF b(2)] bounds len ib_length_data [OF b(2)] by (simp add: u32_small)
  have "mem_read (ib_block ?b) (ib_consumed ?b) (length w) = Some (ib_cells ?b)"
    using bounds len ib_length_data [OF b(2)] by (simp add: mem_read_def ib_cells_def)
  then have rd: "mem_read (ib_block ?b) (ib_consumed ?b) (length w) = Some (map Some (map byte_of w))"
    by (simp only: ib_cells_data [OF b(2)] b(3))
  note k = hc_data_keeps [OF d]
  then have "length (map byte_of buffer) = length (ib_data ?b)"
    using len by simp
  from ib_overwrite [OF b(2) this] obtain m where
    m: "mem_write (ib_block ?b) (ib_consumed ?b) (map Some (map byte_of buffer)) = Some m"
      "ib_wf (ib_set_block m ?b)" "ib_data (ib_set_block m ?b) = map byte_of buffer"
    by blast
  let ?inb = "if used = 0 then ib_set_block m ?b else snd (ib_Ignore (ib_set_block m ?b) used)"
  have "HttpClient_Process p c st = Some (r, c', st\<lparr>nt_proc := (nt_proc st)(p \<mapsto> b\<lparr>bp_in := ?inb\<rparr>)\<rparr>)"
    using b(1) m(1) d cells_bytes_map_Some [of "map byte_of w"] unfolding HttpClient_Process_def
    by (simp add: size rd Let_def set_proc_def heap_put_Some heap_mod_def o_def [of chr_of byte_of])
  moreover have "ib_dropped (ib_set_block m ?b) used (snd (ib_Ignore (ib_set_block m ?b) used))"
    using m k by (intro ib_Ignore_spec) simp_all
  then have "ib_wf ?inb \<and> ib_data ?inb = map byte_of (drop used buffer) \<and> ib_published ?inb \<le> ib_published ?b"
    using m by (simp add: ib_dropped_def drop_map)
  ultimately show ?thesis
    by blast
qed

lemma hc_session_stream:
  assumes "hc_reads p w segs st" and "hc_stream segs w c = Some (r, c')"
  shows "\<exists>st'. hc_session p segs c st = Some (r, c', st')"
  using assms
proof (induction segs arbitrary: w c st)
  case (Cons seg segs)
  obtain b where b: "nt_proc st p = Some b" "ib_wf (bp_in b)" "ib_data (bp_in b) = map byte_of w" "bp_recv b < 2 ^ 31"
    "seg \<noteq> []" "length seg \<le> bp_recv b" "list_all (\<lambda>s. s \<noteq> [] \<and> length s \<le> bp_recv b) segs"
    "ib_published (bp_in b) + length (seg @ concat segs) + bp_recv b \<le> 2 ^ 31"
    using Cons.prems(1) by (auto simp: hc_reads_def)
  obtain inb where inb: "ib_ReadFromTCPFd (seg_read seg) (bp_in b) (bp_recv b) = Some (True, int (length seg), inb)"
    "ib_appended (bp_in b) (map byte_of seg) inb"
    using ib_ReadFromTCPFd_spec [OF b(2), of "bp_recv b" "seg_read seg"] b by (auto simp: seg_read_def sr_amount_def)
  let ?b = "b\<lparr>bp_in := inb\<rparr>" and ?st = "st\<lparr>nt_proc := (nt_proc st)(p \<mapsto> b\<lparr>bp_in := inb\<rparr>)\<rparr>"
  have rd: "read_input (seg_read seg) p st = Some (True, int (length seg), ?st)"
    using b(1) inb(1) by (simp add: read_input_def set_proc_def heap_put_Some heap_mod_def read_errno_def seg_read_def)
  obtain r1 used buffer c1 where d: "hc_data (w @ seg) c = Some (r1, used, buffer, c1)"
    "(if r1 then hc_stream segs (drop used buffer) c1 else Some (False, c1)) = Some (r, c')"
    using Cons.prems(2) by (auto elim!: bind_SomeE)
  have wf: "nt_proc ?st p = Some ?b" "ib_wf (bp_in ?b)" "ib_data (bp_in ?b) = map byte_of (w @ seg)"
    using inb(2) b(3) by (simp_all add: ib_appended_def)
  obtain inb' where pr: "HttpClient_Process p c ?st = Some (r1, c1, ?st\<lparr>nt_proc := (nt_proc ?st)(p \<mapsto> ?b\<lparr>bp_in := inb'\<rparr>)\<rparr>)"
    "ib_wf inb'" "ib_data inb' = map byte_of (drop used buffer)" "ib_published inb' \<le> ib_published inb"
    using HttpClient_Process_data [OF wf d(1)] by auto
  show ?case
  proof (cases r1)
    case True
    let ?st1 = "?st\<lparr>nt_proc := (nt_proc ?st)(p \<mapsto> ?b\<lparr>bp_in := inb'\<rparr>)\<rparr>"
    have "hc_reads p (drop used buffer) segs ?st1"
      using b pr inb(2) by (auto simp: hc_reads_def ib_appended_def)
    then show ?thesis
      using Cons.IH d(2) True rd pr(1) by simp
  next
    case False
    then show ?thesis
      using d(2) rd pr(1) by simp
  qed
qed simp

section \<open>Properties\<close>

definition hc_answered :: "string \<Rightarrow> (string \<times> string) list \<Rightarrow> string \<Rightarrow> hclient \<Rightarrow> hclient" where
  "hc_answered code hs body c =
     c\<lparr>hc_code := c_atoi code, hc_header := hash_add hs Map.empty, hc_length := length body,
       hc_answers := hc_answers c @ [(c_atoi code, hash_add hs Map.empty, Some body)], hc_ip := []\<rparr>"

lemma hc_head_response:
  assumes ok: "code_ok code" "text_ok reason" "headers_ok hs" "hs \<noteq> []"
    and len: "hash_add hs Map.empty HTTP_CONTENT_LENGTH = Some (dec_digits n)" "n < 2 ^ 31"
    and c: "hc_header c = Map.empty"
  shows "\<exists>x. length x = length (response_text code reason hs) + 4 \<and>
     hc_head (response_text code reason hs @ CRLF @ CRLF @ b) c =
       Some (None, length (response_text code reason hs) + 4, x @ b,
         c\<lparr>hc_code := c_atoi code, hc_header := hash_add hs Map.empty, hc_length := n\<rparr>)"
proof -
  let ?r = "response_text code reason hs"
  let ?data = "?r @ CRLF @ CRLF @ b"
  obtain s l where sl: "LF # b = s @ [l]"
    by (metis list.distinct(1) rev_exhaust)
  then have data: "?data = (?r @ CR # LF # CR # s) @ l # []" "LF # b = s @ [l]"
    by simp_all
  have dl: "length ?data - 1 = length (?r @ CR # LF # CR # s)"
    unfolding data(1) by simp
  have bak1: "?data ! (length ?data - 1) = l"
    unfolding dl unfolding data(1) by (rule nth_append_length)
  have bak2: "?data[length ?data - 1 := NUL] = ?r @ CR # LF # CR # s @ [NUL]"
    unfolding dl unfolding data(1) list_update_at by simp
  note bak = bak1 bak2
  note fnd = response_end [OF ok, of s]
  have upd: "(?r @ CR # LF # CR # s @ [NUL])[length ?r := NUL, length ?data - 1 := l] = ?r @ NUL # LF # CR # LF # b"
  proof -
    have "(?r @ NUL # LF # CR # s @ [NUL])[length (?r @ NUL # LF # CR # s) := l] = (?r @ NUL # LF # CR # s) @ [l]"
      using list_update_at [of "?r @ NUL # LF # CR # s" NUL "[]" l] by simp
    moreover have "length ?data - 1 = length (?r @ NUL # LF # CR # s)"
      unfolding dl by simp
    ultimately show ?thesis
      using data(2) by simp
  qed
  obtain x where x: "length x = length ?r" "ParseRespondHeader (?r @ NUL # (LF # CR # LF # b)) (http_new\<lparr>h_code := hc_code c\<rparr>) =
      Some (True, x @ NUL # (LF # CR # LF # b),
        (http_new\<lparr>h_code := hc_code c\<rparr>)\<lparr>h_respond := hash_add hs Map.empty, h_code := c_atoi code\<rparr>)"
    using ParseRespondHeader_spec [OF ok] by blast
  from hc_ParseHeader_respond [OF c x(2)]
  have parse: "hc_ParseHeader (?r @ NUL # LF # CR # LF # b) c = Some (True, x @ NUL # LF # CR # LF # b,
      c\<lparr>hc_code := c_atoi code, hc_header := hash_add hs Map.empty\<rparr>)"
    by simp
  have n: "c_str_at (dec_digits n @ [NUL]) 0 = Some (dec_digits n)" "c_atoi (dec_digits n) = int n"
    "nat (int n mod 2 ^ 32) = n"
    using len dec_digits_NUL [of n] by (simp_all add: c_atoi_dec_digits)
  have "hc_head ?data c = Some (None, length ?r + 4, x @ NUL # LF # CR # LF # b,
      c\<lparr>hc_code := c_atoi code, hc_header := hash_add hs Map.empty, hc_length := n\<rparr>)"
    unfolding hc_head_def Let_def bak fnd Option.bind.bind_lunit option.case upd parse prod.case
    using len(1) n by simp
  then show ?thesis
    using x(1) by (intro exI [of _ "x @ NUL # LF # CR # [LF]"]) simp
qed

lemma hc_stream_body:
  assumes "hc_length c = length (w @ concat segs)" and "list_all (\<lambda>s. s \<noteq> []) segs" and "segs \<noteq> []"
  shows "hc_stream segs w c = Some (False, (hc_answer (hc_code c) (Some (w @ concat segs)) c)\<lparr>hc_ip := []\<rparr>)"
  using assms
proof (induction segs arbitrary: w)
  case (Cons seg segs)
  then have s: "seg \<noteq> []" "hc_length c \<noteq> 0"
    by auto
  show ?case
  proof (cases "segs = []")
    case True
    then show ?thesis
      using Cons.prems s by (simp add: hc_data_def hc_body_def)
  next
    case False
    then obtain s1 r where "segs = s1 # r"
      by (cases segs) auto
    then have "length (w @ seg) \<noteq> hc_length c"
      using Cons.prems by simp
    then have "hc_data (w @ seg) c = Some (True, 0, w @ seg, c)"
      using s(2) by (simp add: hc_data_def hc_body_def)
    then show ?thesis
      using Cons.IH [of "w @ seg"] Cons.prems False by simp
  qed
qed simp

text \<open>
  C24: A response with a \<open>Content-Length\<close> whose header arrives in one segment, with any part of the body in that
  segment and the rest in any further segments, is handed to \<open>ProcessRespond\<close> once, when the last byte
  has arrived, with its status code, its header lines and exactly its body.
\<close>
theorem http_get_answered:
  assumes "code_ok code" "text_ok reason" "headers_ok hs" "hs \<noteq> []"
    and "hash_add hs Map.empty HTTP_CONTENT_LENGTH = Some (dec_digits (length (b @ concat segs)))"
    and "0 < length (b @ concat segs)" and "list_all (\<lambda>s. s \<noteq> []) segs"
    and "hc_header c = Map.empty" "hc_length c = 0"
    and "hc_reads p [] ((response_text code reason hs @ CRLF @ CRLF @ b) # segs) st"
  shows "\<exists>st'. hc_session p ((response_text code reason hs @ CRLF @ CRLF @ b) # segs) c st =
     Some (False, hc_answered code hs (b @ concat segs) c, st')"
proof (rule hc_session_stream [OF assms(10)])
  let ?body = "b @ concat segs"
  let ?c = "c\<lparr>hc_code := c_atoi code, hc_header := hash_add hs Map.empty, hc_length := length ?body\<rparr>"
  have "length ?body < 2 ^ 31"
    using assms(10) by (auto simp: hc_reads_def)
  from hc_head_response [OF assms(1-5) this assms(8)] obtain x where
    x: "length x = length (response_text code reason hs) + 4"
      "hc_head (response_text code reason hs @ CRLF @ CRLF @ b) c =
        Some (None, length (response_text code reason hs) + 4, x @ b, ?c)"
    by blast
  then have d: "drop (length (response_text code reason hs) + 4) (x @ b) = b"
    by (simp flip: x(1))
  show "hc_stream ((response_text code reason hs @ CRLF @ CRLF @ b) # segs) [] c = Some (False, hc_answered code hs ?body c)"
  proof (cases "segs = []")
    case True
    then show ?thesis
      using x d assms(6,9) by (simp add: hc_data_def hc_body_def hc_answer_def hc_answered_def)
  next
    case False
    then have "length b \<noteq> length ?body"
      using assms(7) by (cases segs) auto
    then have "hc_data (response_text code reason hs @ CRLF @ CRLF @ b) c =
        Some (True, length (response_text code reason hs) + 4, x @ b, ?c)"
      using x d assms(9) by (simp add: hc_data_def hc_body_def)
    then show ?thesis
      using hc_stream_body [of ?c b segs] False assms(7) d by (simp add: hc_answer_def hc_answered_def)
  qed
qed

definition hc_demo_net :: net where
  "hc_demo_net = (demo_net [])\<lparr>nt_proc := [21 \<mapsto> demo_proc\<lparr>bp_recv := 1024\<rparr>]\<rparr>"

lemma hc_reads_demo: "list_all (\<lambda>s. s \<noteq> [] \<and> length s \<le> 1024) segs \<Longrightarrow> length (concat segs) \<le> 2 ^ 30 \<Longrightarrow>
    hc_reads 21 [] segs hc_demo_net"
  by (simp add: hc_reads_def hc_demo_net_def demo_proc_def)

lemma http_get_answered_witness:
  "\<exists>st'. hc_session 21 ((response_text ''200'' ''OK'' [(''Content-Length'', ''5'')] @ CRLF @ CRLF @ ''he'') # [''l'', ''lo'']) hc_new
       hc_demo_net =
     Some (False, hc_answered ''200'' [(''Content-Length'', ''5'')] (''he'' @ concat [''l'', ''lo'']) hc_new, st')"
  by (rule http_get_answered)
     (simp_all add: code_ok_def text_ok_def headers_ok_def key_ok_def dec_digits.simps digit_chr_def hc_new_def
        hc_reads_demo response_text_def status_line_def)

lemma find_prefix_before:
  assumes "find_prefix pat t 0 = Some n" and "j < n + length pat"
  shows "find_prefix pat (take j t) 0 = None"
proof (rule ccontr)
  note n = find_prefix_SomeD [OF assms(1)]
  assume "find_prefix pat (take j t) 0 \<noteq> None"
  then obtain i where i: "find_prefix pat (take j t) 0 = Some i"
    by auto
  note b = find_prefix_SomeD [OF i]
  have "i + length pat \<le> length (take j t)"
    using b by simp
  then have "i < n"
    using assms(2) by simp
  moreover have "prefix pat (take (j - i) (drop i t))"
    using b by (simp add: drop_take)
  then have "prefix pat (drop i t)"
    using prefix_order.trans take_is_prefix by blast
  ultimately show False
    using n by simp
qed

lemma hc_data_stuck:
  assumes "NUL \<notin> set t" and "find_prefix [CR, LF, CR] t 0 = None" and "hc_length c = 0" and "4 \<le> length t + 1 + length r"
  shows "\<exists>r'. hc_data (t @ NUL # r) c = Some (True, 0, t @ NUL # r', c) \<and> length r' = length r"
proof -
  let ?w = "t @ NUL # r"
  obtain r' where r': "?w[length ?w - 1 := NUL] = t @ NUL # r'" "length r' = length r"
  proof (cases "r = []")
    case True
    then show thesis
      using that [of "[]"] list_update_at [of t NUL "[]" NUL] by simp
  next
    case False
    then have "?w[length ?w - 1 := NUL] = t @ NUL # r[length r - 1 := NUL]"
      by (cases r) (simp_all add: list_update_append)
    then show thesis
      using that [of "r[length r - 1 := NUL]"] by simp
  qed
  have "takeWhile (\<lambda>c. c \<noteq> NUL) (t @ NUL # r') = t"
    using assms(1) by (subst takeWhile_append2) auto
  then have "c_strstr (t @ NUL # r') 0 [CR, LF, CR] = Some None"
    using assms(2) by (simp add: c_strstr_def)
  moreover have "\<not> length ?w < 4"
    using assms(4) by simp
  ultimately have "hc_head ?w c = Some (Some True, 0, t @ NUL # r', c)"
    unfolding hc_head_def Let_def r'(1) by simp
  then show ?thesis
    using assms(3) r'(2) by (simp add: hc_data_def)
qed

lemma hc_stream_stuck:
  assumes "NUL \<notin> set t" and "find_prefix [CR, LF, CR] t 0 = None" and "hc_length c = 0" and "4 \<le> length t + 1 + length r"
  shows "hc_stream segs (t @ NUL # r) c = Some (True, c)"
  using assms(4)
proof (induction segs arbitrary: r)
  case (Cons seg segs)
  then have len: "4 \<le> length t + 1 + length (r @ seg)"
    by simp
  obtain r' where "hc_data (t @ NUL # r @ seg) c = Some (True, 0, t @ NUL # r', c)" "length r' = length (r @ seg)"
    using hc_data_stuck [OF assms(1-3) len] by blast
  then show ?case
    using Cons.IH [of r'] len by simp
qed simp

text \<open>
  A response whose header is cut anywhere between its fourth byte and its end is never recognised, whatever follows:
  the search leaves the last byte of the first segment overwritten, every later call waits for more and \<open>ProcessRespond\<close>
  is not called.
\<close>
theorem http_split_header_ignored:
  assumes ok: "code_ok code" "text_ok reason" "headers_ok hs" "hs \<noteq> []" "hc_length c = 0"
    and k: "4 \<le> k" "k < length (response_text code reason hs) + 4"
    and rd: "hc_reads p [] (take k (response_text code reason hs @ CRLF @ CRLF) # segs) st"
  shows "\<exists>st'. hc_session p (take k (response_text code reason hs @ CRLF @ CRLF) # segs) c st = Some (True, c, st')"
proof (rule hc_session_stream [OF rd])
  let ?r = "response_text code reason hs" and ?p = "[CR, LF, CR]"
  let ?t = "take (k - 1) (?r @ ?p)"
  have nul: "NUL \<notin> set (?r @ ?p)"
    using ok header_block_NUL [OF ok(3)] by (auto simp: response_text_def status_line_def code_ok_def text_ok_def)
  then have tw: "takeWhile (\<lambda>c. c \<noteq> NUL) ((?r @ ?p) @ [NUL]) = ?r @ ?p"
    by (subst takeWhile_append2) auto
  have "c_strstr ((?r @ ?p) @ [NUL]) 0 ?p = Some (Some (length ?r))"
    using response_end [OF ok(1-4), of "[]"] by simp
  then have "find_prefix ?p (?r @ ?p) 0 = Some (length ?r)"
    by (simp only: c_strstr_def tw drop_0) (auto split: option.splits if_splits)
  from find_prefix_before [OF this, of "k - 1"] have none: "find_prefix ?p ?t 0 = None"
    using k by simp
  have lt: "length ?t = k - 1"
    using k by simp
  have "take k (?r @ CRLF @ CRLF) = ?t @ [(?r @ CRLF @ CRLF) ! (k - 1)]"
  proof -
    have "?r @ CRLF @ CRLF = (?r @ ?p) @ [LF]"
      by simp
    then have "take (k - 1) (?r @ CRLF @ CRLF) = ?t"
      using k by (simp only: take_append [of _ _ "[LF]"]) simp
    moreover have "take (Suc (k - 1)) (?r @ CRLF @ CRLF) = take (k - 1) (?r @ CRLF @ CRLF) @ [(?r @ CRLF @ CRLF) ! (k - 1)]"
      using k by (intro take_Suc_conv_app_nth) simp
    ultimately show ?thesis
      using k by simp
  qed
  then obtain l where l: "take k (?r @ CRLF @ CRLF) = ?t @ [l]"
    by blast
  have upd: "(?t @ [l])[length (?t @ [l]) - 1 := NUL] = ?t @ [NUL]"
    using list_update_at [of ?t l "[]" NUL] by simp
  have nt: "NUL \<notin> set ?t"
    using nul by (meson in_set_takeD)
  then have "takeWhile (\<lambda>c. c \<noteq> NUL) (?t @ [NUL]) = ?t"
    by (subst takeWhile_append2) auto
  then have "c_strstr (?t @ [NUL]) 0 ?p = Some None"
    using none by (simp add: c_strstr_def)
  moreover have "\<not> length (?t @ [l]) < 4"
    using k lt by simp
  ultimately have "hc_head (?t @ [l]) c = Some (Some True, 0, ?t @ [NUL], c)"
    unfolding hc_head_def Let_def upd by simp
  then have "hc_data (?t @ [l]) c = Some (True, 0, ?t @ [NUL], c)"
    using ok(5) by (simp add: hc_data_def)
  then show "hc_stream (take k (?r @ CRLF @ CRLF) # segs) [] c = Some (True, c)"
    unfolding l using hc_stream_stuck [OF nt none ok(5), of "[]" segs] k lt by simp
qed

lemma http_split_header_ignored_witness:
  "\<exists>st'. hc_session 21 (take 20 (response_text ''200'' ''OK'' [(''Content-Length'', ''2'')] @ CRLF @ CRLF) #
       [drop 20 (response_text ''200'' ''OK'' [(''Content-Length'', ''2'')] @ CRLF @ CRLF), ''ok'']) hc_new hc_demo_net =
     Some (True, hc_new, st')"
  by (rule http_split_header_ignored)
     (simp_all add: code_ok_def text_ok_def headers_ok_def key_ok_def hc_new_def hc_reads_demo response_text_def
        status_line_def)

lemma hc_head_same:
  "hc_head buffer c = Some (ret, used, buffer', c') \<Longrightarrow> hc_ip c' = hc_ip c \<and> hc_answers c' = hc_answers c"
  using hc_head_keeps(4,5) by blast

lemma hc_data_answers:
  assumes "hc_data buffer c = Some (r, used, buffer', c')"
  shows "hc_ip c' = hc_ip c \<and> hc_answers c' = hc_answers c \<or>
     \<not> r \<and> hc_ip c' = [] \<and> (\<exists>a. hc_answers c' = hc_answers c @ [a])"
  using assms
  by (auto simp: hc_data_def hc_body_def hc_answer_def split: if_splits bind_splits option.splits prod.splits
      dest!: hc_head_same)

lemma HttpClient_Process_dataD:
  "HttpClient_Process p c st = Some (r, c', st') \<Longrightarrow> \<exists>w used buffer. hc_data w c = Some (r, used, buffer, c')"
  by (auto simp: HttpClient_Process_def Let_def split: bind_splits) blast

section \<open>When the parser is defined\<close>

text \<open>
  A search that starts before a \<open>NUL\<close> is defined and finds nothing behind it. So the parser is defined on a text whose end of header
  is at \<open>n\<close>, as long as the first line has the nine characters it skips and the header does not end with a colon: the parser
  takes the value two characters behind the colon, and that of the last line would lie behind the header.
\<close>

lemma c_strstr_defined:
  assumes "m ! n = NUL" and "off \<le> n" and "n < length m"
  shows "\<exists>r. c_strstr m off pat = Some r \<and> (\<forall>i. r = Some i \<longrightarrow> off \<le> i \<and> i + length pat \<le> n)"
proof -
  let ?t = "takeWhile (\<lambda>c. c \<noteq> NUL) (drop off m)"
  have at: "drop off m ! (n - off) = NUL" "n - off < length (drop off m)"
    using assms by simp_all
  then have "NUL \<in> set (drop off m)"
    using nth_mem [of "n - off" "drop off m"] by simp
  moreover have "length ?t \<le> n - off"
  proof (rule ccontr)
    assume l: "\<not> length ?t \<le> n - off"
    then have "?t ! (n - off) \<in> set ?t"
      by (intro nth_mem) simp
    moreover have "?t ! (n - off) = NUL"
      using l at by (simp add: takeWhile_nth)
    ultimately show False
      using set_takeWhileD by fastforce
  qed
  moreover have "off \<le> i \<and> i + length pat \<le> n" if "find_prefix pat ?t off = Some i" for i
    using find_prefix_SomeD [OF that] \<open>length ?t \<le> n - off\<close> assms(2) by linarith
  ultimately show ?thesis
    using assms by (cases "find_prefix pat ?t off") (auto simp: c_strstr_def)
qed

lemma nth_update: "xs[i := x] ! j = (if i = j \<and> j < length xs then x else xs ! j)"
  by (cases "i = j") (auto simp: list_update_beyond)

lemma c_str_at_defined: "m ! n = NUL \<Longrightarrow> off \<le> n \<Longrightarrow> n < length m \<Longrightarrow> \<exists>s. c_str_at m off = Some s"
  using nth_mem [of "n - off" "drop off m"] by (simp add: c_str_at_def)

lemma http_lines_defined:
  assumes "mem ! n = NUL" and "header \<le> n" and "n < length mem" and "mem ! (n - 1) \<noteq> CHR '':''"
  shows "http_lines ok mem header hash \<noteq> None"
  using assms
proof (induction "length mem - header" arbitrary: mem header hash rule: less_induct)
  case less
  obtain l where l: "c_strstr mem header CRLF = Some l" "\<forall>i. l = Some i \<longrightarrow> header \<le> i \<and> i + 2 \<le> n"
    using c_strstr_defined [OF less.prems(1-3), of CRLF] by auto
  show ?case
  proof (cases l)
    case None
    obtain c where c: "c_strstr mem header '':'' = Some c" "\<forall>i. c = Some i \<longrightarrow> header \<le> i \<and> i + 1 \<le> n"
      using c_strstr_defined [OF less.prems(1-3), of "'':''"] by auto
    have "\<exists>k v. c_str_at (mem[i := NUL]) header = Some k \<and> c_str_at (mem[i := NUL]) (i + 2) = Some v" if "c = Some i" for i
    proof -
      have i: "i + 1 \<le> n" "mem ! i = CHR '':''" "i < length mem"
        using c that c_strstr_found [of mem header "'':''" i] less.prems(3) by (auto simp: take_Suc_conv_app_nth hd_drop_conv_nth take_Suc)
      then have "i + 2 \<le> n"
        using less.prems(4) by (cases "i + 1 = n") auto
      moreover have "mem[i := NUL] ! n = NUL"
        using less.prems(1) i by (simp add: nth_update)
      ultimately show ?thesis
        using less.prems i c_str_at_defined [of "mem[i := NUL]" n] by simp
    qed
    then show ?thesis
      using l(1) None c(1) by (subst http_lines.simps) (fastforce split: option.split)
  next
    case (Some tmp1)
    let ?m = "mem[tmp1 := NUL]"
    have t: "header \<le> tmp1" "tmp1 + 2 \<le> n"
      using l(2) Some by auto
    have m: "?m ! tmp1 = NUL" "tmp1 < length ?m"
      using t less.prems(3) by simp_all
    obtain c where c: "c_strstr ?m header '':'' = Some c" "\<forall>i. c = Some i \<longrightarrow> header \<le> i \<and> i + 1 \<le> tmp1"
      using c_strstr_defined [OF m(1) t(1) m(2), of "'':''"] by auto
    show ?thesis
    proof (cases c)
      case None
      then show ?thesis
        using l(1) Some c(1) by (subst http_lines.simps) simp
    next
      case (Some i)
      let ?m2 = "mem[tmp1 := NUL, i := NUL]"
      have i: "header \<le> i" "i + 1 \<le> tmp1"
        using c(2) Some by auto
      have n: "?m2 ! n = NUL" "n < length ?m2" "?m2 ! (n - 1) \<noteq> CHR '':''"
        using less.prems i t by (auto simp: nth_update)
      obtain k v where kv: "c_str_at ?m2 header = Some k" "c_str_at ?m2 (i + 2) = Some v"
        using c_str_at_defined [OF n(1) less.prems(2) n(2)] c_str_at_defined [OF n(1) _ n(2), of "i + 2"] i t by auto
      have "http_lines ok ?m2 (tmp1 + 2) (hash(k \<mapsto> v)) \<noteq> None"
        using less.prems(3) t n by (intro less.hyps) auto
      then show ?thesis
        using l(1) \<open>l = Some tmp1\<close> c(1) Some kv by (subst http_lines.simps) simp
    qed
  qed
qed

lemma hc_ParseHeader_defined:
  assumes "mem ! n = NUL" and "9 \<le> n" and "n < length mem" and "mem ! (n - 1) \<noteq> CHR '':''"
  shows "hc_ParseHeader mem c \<noteq> None"
proof -
  obtain l where l: "c_strstr mem 0 CRLF = Some l" "\<forall>i. l = Some i \<longrightarrow> i + 2 \<le> n"
    using c_strstr_defined [OF assms(1) _ assms(3), of 0 CRLF] by auto
  show ?thesis
  proof (cases l)
    case None
    then show ?thesis
      using l(1) by (simp add: hc_ParseHeader_def)
  next
    case (Some eol)
    let ?m = "mem[eol := NUL]"
    have m: "?m ! n = NUL" "n < length ?m" "?m ! (n - 1) \<noteq> CHR '':''"
      using assms by (auto simp: nth_update)
    obtain sp where sp: "c_strstr ?m 9 '' '' = Some sp"
      using c_strstr_defined [OF m(1) assms(2) m(2), of "'' ''"] by auto
    have "hc_ParseHeader mem c \<noteq> None" if "sp = Some i" for i
    proof -
      let ?m2 = "mem[eol := NUL, i := NUL]"
      have m2: "?m2 ! n = NUL" "n < length ?m2" "?m2 ! (n - 1) \<noteq> CHR '':''"
        using m by (auto simp: nth_update)
      obtain code where "c_str_at ?m2 9 = Some code"
        using c_str_at_defined [OF m2(1) assms(2) m2(2)] by blast
      moreover obtain r where "http_lines False ?m2 (eol + 2) (hc_header c) = Some r"
        using http_lines_defined [OF m2(1) _ m2(2,3), of "eol + 2" False "hc_header c"] l(2) Some by auto
      ultimately show ?thesis
        using l(1) Some sp that by (simp add: hc_ParseHeader_def Let_def split: prod.split)
    qed
    then show ?thesis
      using l(1) Some sp by (cases sp) (auto simp: hc_ParseHeader_def Let_def)
  qed
qed

text \<open>The condition on the waiting text: where \<open>Process\<close> finds the end of a header, it has at least nine characters and does not end with a colon.\<close>

definition hc_head_ok :: "string \<Rightarrow> bool" where
  "hc_head_ok buffer \<longleftrightarrow>
     (case c_strstr (buffer[length buffer - 1 := NUL]) 0 [CR, LF, CR] of
        Some (Some fnd) \<Rightarrow> 9 \<le> fnd \<and> buffer ! (fnd - 1) \<noteq> CHR '':''
      | _ \<Rightarrow> True)"

fun hc_heads_ok :: "string list \<Rightarrow> string \<Rightarrow> hclient \<Rightarrow> bool" where
  "hc_heads_ok [] w c = True"
| "hc_heads_ok (seg # segs) w c =
     ((hc_length c = 0 \<and> 4 \<le> length (w @ seg) \<longrightarrow> hc_head_ok (w @ seg)) \<and>
      (case hc_data (w @ seg) c of
         Some (True, used, buffer, c) \<Rightarrow> hc_heads_ok segs (drop used buffer) c
       | _ \<Rightarrow> True))"

lemma hc_data_defined:
  assumes "hc_length c = 0 \<and> 4 \<le> length buffer \<longrightarrow> hc_head_ok buffer"
  shows "hc_data buffer c \<noteq> None"
proof (cases "hc_length c = 0 \<and> 4 \<le> length buffer")
  case True
  let ?b = "buffer[length buffer - 1 := NUL]"
  have b: "?b ! (length buffer - 1) = NUL" "length buffer - 1 < length ?b"
    using nth_list_update_eq [of "length buffer - 1" buffer NUL] length_list_update [of buffer "length buffer - 1" NUL] True
    by linarith+
  have three: "length [CR, LF, CR] = 3"
    by simp
  obtain l where l: "c_strstr ?b 0 [CR, LF, CR] = Some l" "\<forall>i. l = Some i \<longrightarrow> 0 \<le> i \<and> i + 3 \<le> length buffer - 1"
    using c_strstr_defined [OF b(1) le0 b(2), of "[CR, LF, CR]", unfolded three] by blast
  show ?thesis
  proof (cases l)
    case None
    then show ?thesis
      using True l(1) by (simp add: hc_data_def hc_head_def Let_def split: prod.split)
  next
    case (Some fnd)
    let ?m = "buffer[length buffer - 1 := NUL, fnd := NUL, length buffer - 1 := buffer ! (length buffer - 1)]"
    have f: "fnd + 3 \<le> length buffer - 1" "9 \<le> fnd" "buffer ! (fnd - 1) \<noteq> CHR '':''"
      using assms True l Some by (auto simp: hc_head_ok_def)
    then have "?m ! fnd = NUL" "fnd < length ?m" "?m ! (fnd - 1) \<noteq> CHR '':''"
      by (auto simp: nth_list_update)
    from hc_ParseHeader_defined [OF this(1) f(2) this(2,3)] obtain q where p: "hc_ParseHeader ?m c = Some q"
      by blast
    have v: "c_str_at (v @ [NUL]) 0 = Some (takeWhile (\<lambda>c. c \<noteq> NUL) (v @ [NUL]))" for v
      by (simp add: c_str_at_def)
    obtain ok buffer' c' where q: "q = (ok, buffer', c')"
      by (cases q)
    have "\<not> length buffer < 4"
      using True by simp
    then have "hc_head buffer c \<noteq> None"
      unfolding hc_head_def Let_def using l(1) Some p q v by (simp split: option.split)
    then show ?thesis
      using True by (auto simp: hc_data_def split: option.split prod.split)
  qed
next
  case False
  then show ?thesis
    by (auto simp: hc_data_def hc_head_def split: prod.splits)
qed

lemma hc_stream_answers:
  assumes "hc_heads_ok segs w c" and "hc_ip c \<noteq> []"
  shows "\<exists>r c' a. hc_stream segs w c = Some (r, c') \<and> hc_answers (HttpClient_DetachNet c') = hc_answers c @ [a]"
  using assms
proof (induction segs arbitrary: w c)
  case Nil
  then show ?case
    by (intro exI [of _ True]) (simp add: HttpClient_DetachNet_def hc_answer_def)
next
  case (Cons seg segs)
  obtain r used buffer c1 where d: "hc_data (w @ seg) c = Some (r, used, buffer, c1)"
    using hc_data_defined [of c "w @ seg"] Cons.prems(1) by (cases "hc_data (w @ seg) c") auto
  note a = hc_data_answers [OF d]
  show ?case
  proof (cases r)
    case True
    then show ?thesis
      using a d Cons.IH [of "drop used buffer" c1] Cons.prems by auto
  next
    case False
    then show ?thesis
      using a d Cons.prems(2) by (auto simp: HttpClient_DetachNet_def hc_answer_def)
  qed
qed

text \<open>
  C31: From a connection to its end the application gets exactly one call of \<open>ProcessRespond\<close>. In whatever segments the
  text arrives, complete or not, well formed or not, no read leaves it and after \<open>DetachNet\<close> there is one answer more, whether
  \<open>Process\<close> ended the connection or the peer did. The conditions: the input buffer has room for the text, and each time
  \<open>Process\<close> finds the end of a header, that header has at least nine characters and does not end with a colon. On others the
  parser reads behind the header, as \<open>hc_short_header_undefined\<close> shows.
\<close>
theorem http_one_answer:
  assumes "hc_reads p [] segs st" and "hc_heads_ok segs [] c" and "hc_ip c \<noteq> []"
  shows "\<exists>r c' st' a. hc_session p segs c st = Some (r, c', st') \<and>
     hc_answers (HttpClient_DetachNet c') = hc_answers c @ [a]"
proof -
  obtain r c' a where s: "hc_stream segs [] c = Some (r, c')" "hc_answers (HttpClient_DetachNet c') = hc_answers c @ [a]"
    using hc_stream_answers [OF assms(2,3)] by blast
  from hc_session_stream [OF assms(1) s(1)] s(2) show ?thesis
    by blast
qed

lemma http_one_answer_witness:
  "\<exists>r c' st' a. hc_session 21 [''HTTP/1.1 20'', ''0 OK'' @ CRLF @ ''Host'' @ CRLF @ CRLF @ ''ok''] (hc_new\<lparr>hc_ip := ''10.0.0.1''\<rparr>) hc_demo_net =
     Some (r, c', st') \<and> hc_answers (HttpClient_DetachNet c') = hc_answers (hc_new\<lparr>hc_ip := ''10.0.0.1''\<rparr>) @ [a]"
  by (rule http_one_answer)
     (simp_all add: hc_reads_demo hc_head_ok_def hc_data_def hc_head_def c_strstr_def hc_new_def)

lemma hc_short_header_undefined:
  "hc_data (''A'' @ CRLF @ ''B'' @ CRLF @ CRLF) hc_new = None"
  "hc_data (''HTTP/1.1 200 OK'' @ CRLF @ ''A:'' @ CRLF @ CRLF) hc_new = None"
  by (code_simp)+

section \<open>From the url to the request\<close>

lemma pieces_single:
  "c \<notin> set t \<Longrightarrow> pieces [c] t = [t]"
  "c \<notin> set t \<Longrightarrow> pieces [c] (t @ c # u) = t # pieces [c] u"
proof -
  assume c: "c \<notin> set t"
  then show "pieces [c] t = [t]"
    by (intro pieces_None find_prefix_hd_None) simp_all
  have "find_prefix [c] (t @ [c] @ u) 0 = Some (0 + length t)"
    using c by (intro find_prefix_first) simp_all
  from pieces_Some [OF this [simplified]] show "pieces [c] (t @ c # u) = t # pieces [c] u"
    by simp
qed

lemma length_dec_digits: "length (dec_digits n) \<le> n + 1"
proof (induction n rule: dec_digits.induct)
  case (1 n)
  show ?case
    by (subst dec_digits.simps) (use 1 in \<open>auto\<close>)
qed

definition host_port :: "string \<Rightarrow> nat \<Rightarrow> string" where
  "host_port host port = host @ CHR '':'' # dec_digits port"

definition hc_connected :: "string \<Rightarrow> nat \<Rightarrow> string \<Rightarrow> string \<Rightarrow> hclient \<Rightarrow> hclient" where
  "hc_connected host port path ip c =
     c\<lparr>hc_ip := ip, hc_port := port, hc_header := Map.empty, hc_code := -1, hc_length := 0,
       hc_domain := host_port host port, hc_app := CHR ''/'' # path\<rparr>"

lemma url_pieces:
  assumes "CHR ''/'' \<notin> set host" "CHR '':'' \<notin> set host"
  shows "\<exists>r. split (''http://'' @ host_port host port @ CHR ''/'' # path) ''/'' = Some (''http:'' # [] # host_port host port # r)"
    and "split (host_port host port) '':'' = Some [host, dec_digits port]"
proof -
  have d: "CHR ''/'' \<notin> set (dec_digits port)" "CHR '':'' \<notin> set (dec_digits port)"
    by (intro dec_digits_not; simp add: digit_val_def)+
  have "CHR ''/'' \<notin> set (host_port host port)"
    using assms d by (simp add: host_port_def)
  then have "pieces ''/'' (host_port host port @ CHR ''/'' # path) = host_port host port # pieces ''/'' path"
    by (rule pieces_single)
  moreover have "pieces ''/'' (''http:'' @ CHR ''/'' # u) = ''http:'' # pieces ''/'' u"
    "pieces ''/'' ([] @ CHR ''/'' # u) = [] # pieces ''/'' u" for u
    by (intro pieces_single; simp)+
  ultimately show "\<exists>r. split (''http://'' @ host_port host port @ CHR ''/'' # path) ''/'' =
      Some (''http:'' # [] # host_port host port # r)"
    by (simp add: split_pieces)
  have "pieces '':'' (host @ CHR '':'' # dec_digits port) = host # pieces '':'' (dec_digits port)"
    using assms by (intro pieces_single)
  then show "split (host_port host port) '':'' = Some [host, dec_digits port]"
    using d pieces_single(1) [of "CHR '':''" "dec_digits port"] by (simp add: split_pieces host_port_def)
qed

lemma url_path:
  assumes "NUL \<notin> set host" "CHR ''/'' \<notin> set host" "host \<noteq> []" "NUL \<notin> set path"
  shows "hc_path (''http://'' @ host_port host port @ CHR ''/'' # path) = Some (CHR ''/'' # path)"
proof -
  have d: "CHR ''/'' \<notin> set (dec_digits port)" "NUL \<notin> set (dec_digits port)"
    by (intro dec_digits_not; simp add: digit_val_def)+
  obtain x h where x: "host = x # h"
    using assms(3) by (cases host) auto
  define t where "t = h @ CHR '':'' # dec_digits port"
  have xt: "host_port host port = x # t"
    by (simp add: x t_def host_port_def)
  have t: "CHR ''/'' \<notin> set t" "NUL \<notin> set t"
    using assms d by (simp_all add: x t_def)
  let ?u = "(''http://'' @ [x]) @ t @ CHR ''/'' # path @ [NUL]"
  have len: "length (''http://'' @ [x]) = 8"
    by simp
  have "c_strstr (t @ CHR ''/'' # path @ [NUL]) 0 ''/'' = Some (Some (length t))"
    using t by (intro c_strstr_char) simp_all
  then have "c_strstr ?u (length (''http://'' @ [x])) ''/'' = Some (Some (length (''http://'' @ [x]) + length t))"
    by (simp only: c_strstr_append0) simp
  then have f: "c_strstr ?u 8 ''/'' = Some (Some (8 + length t))"
    by (simp only: len)
  have "c_str_at ?u (length ((''http://'' @ [x]) @ t)) = Some (CHR ''/'' # path)"
    using c_str_at_append0 [of "(''http://'' @ [x]) @ t" "(CHR ''/'' # path) @ [NUL]"]
      c_str_at_text [of "CHR ''/'' # path" "[]"] assms(4) by simp
  moreover have "length ((''http://'' @ [x]) @ t) = 8 + length t"
    by simp
  ultimately have g: "c_str_at ?u (8 + length t) = Some (CHR ''/'' # path)"
    by (simp only:)
  have u: "(''http://'' @ host_port host port @ CHR ''/'' # path) @ [NUL] = ?u"
    by (simp add: xt)
  show ?thesis
    unfolding hc_path_def u f using g by simp
qed

lemma hc_request_connected:
  assumes "NUL \<notin> set host" "NUL \<notin> set path"
  shows "hc_request (hc_connected host port path ip c) =
     Some (request_text (CHR ''/'' # path) [] ''HTTP/1.1''
       [(''User-Agent'', ''libgsdm''), (''Host'', host_port host port), (''Accept'', ''*/*'')] @ CRLF @ CRLF)"
proof -
  have "NUL \<notin> set (dec_digits port)"
    by (intro dec_digits_not) (simp add: digit_val_def)
  then have "c_str_at (host_port host port @ [NUL]) 0 = Some (host_port host port)"
    using assms by (intro c_str_at_text) (simp add: host_port_def)
  moreover have "c_str_at ((CHR ''/'' # path) @ [NUL]) 0 = Some (CHR ''/'' # path)"
    using assms by (intro c_str_at_text) simp
  ultimately show ?thesis
    by (simp add: hc_request_def hc_connected_def request_text_def request_line_def target_def)
qed

text \<open>
  C32: For a url of the form \<open>http://host:port/path\<close> whose host the resolver knows, \<open>Connect\<close> asks the worker to connect to
  the resolved address and that port, and the request that \<open>AttachNet\<close> then sends ends with its blank line and is parsed
  by the HTTP server, once that is found, into that path, with the host and port of the url as the \<open>Host\<close> line. The url is
  shorter than 1 GiB.
\<close>
theorem http_url_to_server:
  assumes host: "CHR ''/'' \<notin> set host" "CHR '':'' \<notin> set host" "NUL \<notin> set host" "CR \<notin> set host" "host \<noteq> []"
    and path: "uri_ok path" and port: "port < 2 ^ 16"
    and st: "GetNetStatus p (nw_net w) = Some s" "s \<noteq> PROCESS_NET_STATUS_CONNECTING" "s \<noteq> PROCESS_NET_STATUS_CONNECTED"
    and me: "SetWithMe p False (nw_net w) = Some st1" "hc_clear_buffers p st1 = Some st2" "nt_proc st2 p = Some b" "bp_ex b"
    and ip: "getHostByName (hcc_resolve e) host = Some ip" "ip \<noteq> []"
    and con: "TCPConnect (hcc_kernel e) (hcc_socket e) (hcc_address e ip) (hcc_connect e ip port) (hcc_fresh e) p
        (Some (w\<lparr>nw_net := st2\<rparr>)) = Some (r, Some w')"
    and len: "length host + length path < 2 ^ 30" and acc: "\<And>h. he_handler env h = (True, h)"
  shows "\<exists>d mem. HttpClient_Connect e (''http://'' @ host_port host port @ CHR ''/'' # path) p c w =
       Some (True, hc_connected host port path ip c, w') \<and>
     hc_request (hc_connected host port path ip c) = Some d \<and> drop (length d - 4) d = CRLF @ CRLF \<and>
     http_found env d (length d - 4) h = Some (int (length d), mem, http_request_of (CHR ''/'' # path) [] ''HTTP/1.1''
       [(''User-Agent'', ''libgsdm''), (''Host'', host_port host port), (''Accept'', ''*/*'')] h)"
proof -
  let ?url = "''http://'' @ host_port host port @ CHR ''/'' # path"
  let ?hs = "[(''User-Agent'', ''libgsdm''), (''Host'', host_port host port), (''Accept'', ''*/*'')]"
  obtain us where us: "split ?url ''/'' = Some (''http:'' # [] # host_port host port # us)"
    using url_pieces(1) [OF host(1,2)] by blast
  have n: "NUL \<notin> set (dec_digits port)" "CR \<notin> set (dec_digits port)"
    by (intro dec_digits_not; simp add: digit_val_def)+
  have p: "nat (c_atoi (dec_digits port) mod 65536) = port"
    using port by (simp add: c_atoi_dec_digits)
  have pathc: "NUL \<notin> set path"
    using path by (simp add: uri_ok_def)
  have "HttpClient_Connect e ?url p c w = Some (True, hc_connected host port path ip c, w')"
    using st me us url_pieces(2) [OF host(1,2)] ip con n(1) p url_path [OF host(3,1,5) pathc, of port]
    by (cases c) (simp add: HttpClient_Connect_def Let_def hc_connected_def)
  moreover have "drop (length d - 4) d = CRLF @ CRLF \<and>
     (\<exists>mem. http_found env d (length d - 4) h = Some (int (length d), mem, http_request_of (CHR ''/'' # path) [] ''HTTP/1.1'' ?hs h))"
    if d: "d = request_text (CHR ''/'' # path) [] ''HTTP/1.1'' ?hs @ CRLF @ CRLF" for d
  proof -
    have "length (request_text (CHR ''/'' # path) [] ''HTTP/1.1'' ?hs) < 2 ^ 31"
      using len port length_dec_digits [of port] by (simp add: request_text_def request_line_def target_def host_port_def)
    then have "\<exists>mem. http_found env (request_text (CHR ''/'' # path) [] ''HTTP/1.1'' ?hs @ CRLF @ CRLF @ [])
        (length (request_text (CHR ''/'' # path) [] ''HTTP/1.1'' ?hs)) h =
      Some (int (length (request_text (CHR ''/'' # path) [] ''HTTP/1.1'' ?hs @ CRLF @ CRLF)), mem,
        http_request_of (CHR ''/'' # path) [] ''HTTP/1.1'' ?hs h)"
      using path host n acc
      by (intro http_request_parsed_helper) (auto simp: uri_ok_def text_ok_def headers_ok_def key_ok_def host_port_def)
    then show ?thesis
      by (simp add: d)
  qed
  ultimately show ?thesis
    using hc_request_connected [OF host(3) pathc, of port ip c] by blast
qed

definition hc_demo_calls :: hc_calls where
  "hc_demo_calls = \<lparr>hcc_resolve = (\<lambda>_. (0, Some \<lparr>h_length = 4, h_addr_list = Some [[10, 0, 0, 1]]\<rparr>)), hcc_kernel = (\<lambda>_ _. 0),
     hcc_socket = None, hcc_address = (\<lambda>_. True), hcc_connect = (\<lambda>_ _. (0, 0)), hcc_fresh = 40\<rparr>"

lemma http_url_to_server_witness:
  "\<exists>d mem w'. HttpClient_Connect hc_demo_calls (''http://'' @ host_port ''web'' 8080 @ CHR ''/'' # ''abc'') 21 hc_new
       (demo_worker\<lparr>nw_net := (demo_net [])\<lparr>nt_proc := [21 \<mapsto> demo_proc\<lparr>bp_ex := True\<rparr>]\<rparr>\<rparr>) =
       Some (True, hc_connected ''web'' 8080 ''abc'' ''10.0.0.1'' hc_new, w') \<and>
     hc_request (hc_connected ''web'' 8080 ''abc'' ''10.0.0.1'' hc_new) = Some d \<and>
     drop (length d - 4) d = CRLF @ CRLF \<and>
     http_found http_demo_env d (length d - 4) http_new = Some (int (length d), mem, http_request_of (CHR ''/'' # ''abc'') []
       ''HTTP/1.1'' [(''User-Agent'', ''libgsdm''), (''Host'', host_port ''web'' 8080), (''Accept'', ''*/*'')] http_new)"
proof -
  let ?st = "(demo_net [])\<lparr>nt_proc := [21 \<mapsto> demo_proc\<lparr>bp_ex := True\<rparr>]\<rparr>"
  let ?w = "demo_worker\<lparr>nw_net := ?st\<rparr>"
  obtain st1 where s1: "SetWithMe 21 False ?st = Some st1" "nt_proc st1 = [21 \<mapsto> demo_proc\<lparr>bp_ex := True, bp_with_me := False\<rparr>]"
    by (simp add: SetWithMe_def set_proc_def heap_put_Some heap_mod_def demo_proc_def)
  then obtain st2 b where s2: "hc_clear_buffers 21 st1 = Some st2" "nt_proc st2 21 = Some b" "bp_ex b"
    by (simp add: hc_clear_buffers_def set_proc_def heap_put_Some heap_mod_def)
  obtain w' where w: "TCPConnect (hcc_kernel hc_demo_calls) (hcc_socket hc_demo_calls) (hcc_address hc_demo_calls ''10.0.0.1'')
      (hcc_connect hc_demo_calls ''10.0.0.1'' 8080) (hcc_fresh hc_demo_calls) 21 (Some (?w\<lparr>nw_net := st2\<rparr>)) = Some (False, Some w')"
    using s2(2) by (simp add: TCPConnect_def with_worker_def set_ex_def set_proc_def heap_put_Some hc_demo_calls_def
        TCPConnector_Connect_def start_connect_def)
  have ip: "getHostByName (hcc_resolve hc_demo_calls) ''web'' = Some ''10.0.0.1''"
    by (simp add: getHostByName_def hc_demo_calls_def dotted_def dec_digits.simps digit_chr_def)
  have g: "GetNetStatus 21 (nw_net ?w) = Some PROCESS_NET_STATUS_DISCONNECT" "SetWithMe 21 False (nw_net ?w) = Some st1"
    using s1 by (simp_all add: GetNetStatus_def demo_proc_def)
  show ?thesis
    using http_url_to_server [where env = http_demo_env and h = http_new, OF _ _ _ _ _ _ _ g(1) _ _ g(2) s2 ip _ w]
    by (fastforce simp: uri_ok_def http_demo_env_def)
qed

end
