(* ===== verification/Lifecycle.thy ===== *)
theory Lifecycle
  imports EventLoop HttpClient
begin

text \<open>
  The life of the connected processes of a worker: a process is made, gets a handler by accepting or connecting, is
  told whether to die with its handler, meets hang-ups, time-outs and \<open>Free\<close>. The pointers between processes and
  handlers, the interest list of the kernel and the time-out list are kept in step by code spread over the classes; here
  the well-formed states of all four are defined, every operation is shown to be defined on them and to keep them, and the one
  way out of them, a connection that fails at once, is shown to leave a dangling pointer.
\<close>

section \<open>Well-formed states\<close>

type_synonym life =
  "int set \<times> (int \<rightharpoonup> nat \<times> bool) \<times> (nat \<rightharpoonup> iohandler) \<times> (nat \<rightharpoonup> bproc) \<times> nat set"

definition life :: "net \<Rightarrow> life" where
  "life st = (nt_open st, nt_epoll st, nt_hand st, nt_proc st, nt_timeouts st)"

definition carrier_type :: "io_type \<Rightarrow> bool" where
  "carrier_type t \<longleftrightarrow> t = IOHT_TCP_CARRIER \<or> t = IOHT_UNIX_CARRIER"

definition connector_type :: "io_type \<Rightarrow> bool" where
  "connector_type t \<longleftrightarrow> t = IOHT_TCP_CONNECTOR \<or> t = IOHT_UNIX_CONNECTOR"

definition flag_of :: "bool \<Rightarrow> io_flag" where
  "flag_of with_me = (if with_me then IOHT_FLAG_CLOSE_ALL else IOHT_FLAG_CLOSE_FD)"

definition linked_to :: "nat \<Rightarrow> iohandler \<Rightarrow> bproc \<Rightarrow> bool" where
  "linked_to a h b \<longleftrightarrow> bp_io b = Some a \<and> bp_ex b \<and> ih_flag h = flag_of (bp_with_me b) \<and>
     (carrier_type (ih_type h) \<and> bp_status b = PROCESS_NET_STATUS_CONNECTED \<or>
      connector_type (ih_type h) \<and> bp_status b = PROCESS_NET_STATUS_CONNECTING)"

definition hand_ok :: "life \<Rightarrow> nat \<Rightarrow> iohandler \<Rightarrow> bool" where
  "hand_ok s a h \<longleftrightarrow> (case s of (fds, epoll, hand, proc, timeouts) \<Rightarrow>
     0 \<le> ih_fd h \<and> ih_fd h \<in> fds \<and> (\<exists>w. epoll (ih_fd h) = Some (a, w)) \<and>
     (\<exists>p b. ih_process h = Some p \<and> proc p = Some b \<and> linked_to a h b))"

definition idle_status :: "net_status \<Rightarrow> bool" where
  "idle_status s \<longleftrightarrow> s \<noteq> PROCESS_NET_STATUS_CONNECTING \<and> s \<noteq> PROCESS_NET_STATUS_CONNECTED \<and> s \<noteq> PROCESS_NET_STATUS_TIMEOUT"

definition proc_ok :: "life \<Rightarrow> nat \<Rightarrow> bproc \<Rightarrow> bool" where
  "proc_ok s p b \<longleftrightarrow> (case s of (fds, epoll, hand, proc, timeouts) \<Rightarrow>
     case bp_io b of None \<Rightarrow> idle_status (bp_status b) | Some a \<Rightarrow> \<exists>h. hand a = Some h \<and> ih_process h = Some p)"

definition life_ok :: "life \<Rightarrow> bool" where
  "life_ok s \<longleftrightarrow> (case s of (fds, epoll, hand, proc, timeouts) \<Rightarrow>
     (\<forall>a h. hand a = Some h \<longrightarrow> hand_ok s a h) \<and> (\<forall>p b. proc p = Some b \<longrightarrow> proc_ok s p b) \<and>
     (\<forall>fd a w. epoll fd = Some (a, w) \<longrightarrow> (\<exists>h. hand a = Some h \<and> ih_fd h = fd)) \<and>
     (\<forall>p. p \<in> timeouts \<longrightarrow> (\<exists>b a h. proc p = Some b \<and> bp_io b = Some a \<and> hand a = Some h \<and> carrier_type (ih_type h))))"

definition net_wf :: "net \<Rightarrow> bool" where
  "net_wf st \<longleftrightarrow> life_ok (life st)"

named_theorems life_simps \<open>what the operations do to the pointers\<close>

lemmas [life_simps] = life_def set_proc_def set_hand_def heap_put_Some heap_mod_def

lemma life_okI:
  assumes "\<And>a h. hand a = Some h \<Longrightarrow> hand_ok (fds, epoll, hand, proc, timeouts) a h"
    and "\<And>p b. proc p = Some b \<Longrightarrow> proc_ok (fds, epoll, hand, proc, timeouts) p b"
    and "\<And>fd a w. epoll fd = Some (a, w) \<Longrightarrow> \<exists>h. hand a = Some h \<and> ih_fd h = fd"
    and "\<And>p. p \<in> timeouts \<Longrightarrow> \<exists>b a h. proc p = Some b \<and> bp_io b = Some a \<and> hand a = Some h \<and> carrier_type (ih_type h)"
  shows "life_ok (fds, epoll, hand, proc, timeouts)"
  unfolding life_ok_def prod.case using assms by blast

lemma hand_okI:
  assumes "0 \<le> ih_fd h" "ih_fd h \<in> fds" "epoll (ih_fd h) = Some (a, w)" "ih_process h = Some p" "proc p = Some b"
    and "linked_to a h b"
  shows "hand_ok (fds, epoll, hand, proc, timeouts) a h"
  unfolding hand_ok_def prod.case using assms by blast

lemma life_ok_hand:
  assumes "life_ok (fds, epoll, hand, proc, timeouts)" and "hand a = Some h"
  obtains p b w where "0 \<le> ih_fd h" "ih_fd h \<in> fds" "epoll (ih_fd h) = Some (a, w)" "ih_process h = Some p"
    "proc p = Some b" "linked_to a h b"
proof -
  have "hand_ok (fds, epoll, hand, proc, timeouts) a h"
    using assms unfolding life_ok_def prod.case by blast
  then show thesis
    using that unfolding hand_ok_def prod.case by blast
qed

lemma life_ok_proc:
  "life_ok (fds, epoll, hand, proc, timeouts) \<Longrightarrow> proc p = Some b \<Longrightarrow>
     case bp_io b of None \<Rightarrow> idle_status (bp_status b) | Some a \<Rightarrow> \<exists>h. hand a = Some h \<and> ih_process h = Some p"
  by (auto simp: life_ok_def proc_ok_def)

lemma life_ok_epoll:
  "life_ok (fds, epoll, hand, proc, timeouts) \<Longrightarrow> epoll fd = Some (a, w) \<Longrightarrow> \<exists>h. hand a = Some h \<and> ih_fd h = fd"
  by (simp add: life_ok_def)

lemma life_ok_timeouts:
  "life_ok (fds, epoll, hand, proc, timeouts) \<Longrightarrow> p \<in> timeouts \<Longrightarrow>
     \<exists>b a h. proc p = Some b \<and> bp_io b = Some a \<and> hand a = Some h \<and> carrier_type (ih_type h)"
  by (simp add: life_ok_def)

text \<open>No two handlers share a descriptor or a process.\<close>

lemma life_ok_distinct:
  assumes ok: "life_ok (fds, epoll, hand, proc, timeouts)" and h: "hand a = Some h" "hand a' = Some h'"
  shows "ih_fd h = ih_fd h' \<or> ih_process h = ih_process h' \<Longrightarrow> a = a'"
  using life_ok_hand [OF ok h(1)] life_ok_hand [OF ok h(2)] by (metis linked_to_def option.inject prod.inject)

section \<open>What keeps a state well-formed\<close>

lemma life_remove:
  assumes ok: "life_ok (fds, epoll, hand, proc, timeouts)" and h: "hand a = Some h" "ih_process h = Some p" "ih_fd h = fd"
    and v: "\<And>b. v = Some b \<Longrightarrow> bp_io b = None \<and> idle_status (bp_status b)"
  shows "life_ok (fds - {fd}, epoll(fd := None), hand(a := None), proc(p := v), timeouts - {p})" (is "life_ok ?s")
proof -
  note d = life_ok_distinct [OF ok h(1)]
  have "hand_ok ?s a' h'" if n: "(hand(a := None)) a' = Some h'" for a' h'
  proof -
    have h': "hand a' = Some h'" "a' \<noteq> a"
      using n by (auto split: if_splits)
    have "ih_fd h' \<noteq> fd" "ih_process h' \<noteq> Some p"
      using d [OF h'(1)] h h'(2) by auto
    moreover obtain p' b' w' where b': "0 \<le> ih_fd h'" "ih_fd h' \<in> fds" "epoll (ih_fd h') = Some (a', w')"
      "ih_process h' = Some p'" "proc p' = Some b'" "linked_to a' h' b'"
      using life_ok_hand [OF ok h'(1)] .
    ultimately have "p' \<noteq> p"
      by auto
    then show ?thesis
      using b' \<open>ih_fd h' \<noteq> fd\<close> by (intro hand_okI [of h' _ _ a' w' p' _ b']) auto
  qed
  moreover have "proc_ok ?s p' b" if n: "(proc(p := v)) p' = Some b" for p' b
  proof (cases "p' = p")
    case True
    then show ?thesis
      using n v by (simp add: proc_ok_def)
  next
    case False
    then show ?thesis
      using n life_ok_proc [OF ok, of p' b] h by (auto simp: proc_ok_def split: option.splits)
  qed
  moreover have "\<exists>h'. (hand(a := None)) a' = Some h' \<and> ih_fd h' = fd'" if "(epoll(fd := None)) fd' = Some (a', w)" for fd' a' w
    using that life_ok_epoll [OF ok, of fd' a' w] h by (auto split: if_splits)
  moreover have "\<exists>b a' h'. (proc(p := v)) p' = Some b \<and> bp_io b = Some a' \<and> (hand(a := None)) a' = Some h' \<and> carrier_type (ih_type h')"
    if n: "p' \<in> timeouts - {p}" for p'
  proof -
    obtain b a' h' where b: "proc p' = Some b" "bp_io b = Some a'" "hand a' = Some h'" "carrier_type (ih_type h')"
      using life_ok_timeouts [OF ok, of p'] n by blast
    have "ih_process h' = Some p'"
      using life_ok_proc [OF ok b(1)] b by simp
    then have "a' \<noteq> a"
      using h b(3) n by auto
    then show ?thesis
      using b n by auto
  qed
  ultimately show ?thesis
    by (rule life_okI)
qed

lemma life_add:
  assumes ok: "life_ok (fds, epoll, hand, proc, timeouts)"
    and new: "hand a = None" "fd \<notin> fds" "proc p = Some b0" "bp_io b0 = None"
    and h: "ih_process h = Some p" "ih_fd h = fd" "0 \<le> fd" "linked_to a h b"
    and T: "T = timeouts \<or> T = insert p timeouts \<and> carrier_type (ih_type h)"
  shows "life_ok (insert fd fds, epoll(fd \<mapsto> (a, w)), hand(a \<mapsto> h), proc(p \<mapsto> b), T)" (is "life_ok ?s")
proof -
  have io: "bp_io b = Some a"
    using h(4) by (simp add: linked_to_def)
  have "hand_ok ?s a' h'" if n: "(hand(a \<mapsto> h)) a' = Some h'" for a' h'
  proof (cases "a' = a")
    case True
    then show ?thesis
      using n h by (simp add: hand_ok_def)
  next
    case False
    then have h': "hand a' = Some h'"
      using n by simp
    obtain p' b' w' where b': "0 \<le> ih_fd h'" "ih_fd h' \<in> fds" "epoll (ih_fd h') = Some (a', w')" "ih_process h' = Some p'"
      "proc p' = Some b'" "linked_to a' h' b'"
      using life_ok_hand [OF ok h'] .
    moreover have "p' \<noteq> p"
      using b' new by (auto simp: linked_to_def)
    moreover have "ih_fd h' \<noteq> fd"
      using b' new by auto
    ultimately show ?thesis
      by (intro hand_okI [of h' _ _ a' w' p' _ b']) auto
  qed
  moreover have "proc_ok ?s p' b'" if n: "(proc(p \<mapsto> b)) p' = Some b'" for p' b'
  proof (cases "p' = p")
    case True
    then show ?thesis
      using n h io by (simp add: proc_ok_def)
  next
    case False
    then show ?thesis
      using n life_ok_proc [OF ok, of p' b'] new(1) by (auto simp: proc_ok_def split: option.splits)
  qed
  moreover have "\<exists>h'. (hand(a \<mapsto> h)) a' = Some h' \<and> ih_fd h' = fd'" if "(epoll(fd \<mapsto> (a, w))) fd' = Some (a', w')" for fd' a' w'
    using that life_ok_epoll [OF ok, of fd' a' w'] h new(1) by (auto split: if_splits)
  moreover have "\<exists>b' a' h'. (proc(p \<mapsto> b)) p' = Some b' \<and> bp_io b' = Some a' \<and> (hand(a \<mapsto> h)) a' = Some h' \<and>
      carrier_type (ih_type h')" if n: "p' \<in> T" for p'
  proof (cases "p' \<in> timeouts")
    case True
    then obtain b' a' h' where b': "proc p' = Some b'" "bp_io b' = Some a'" "hand a' = Some h'" "carrier_type (ih_type h')"
      using life_ok_timeouts [OF ok] by blast
    then have "p' \<noteq> p" "a' \<noteq> a"
      using new by auto
    then show ?thesis
      using b' by auto
  next
    case False
    then have "p' = p" "carrier_type (ih_type h)"
      using T n by auto
    then show ?thesis
      using io by auto
  qed
  ultimately show ?thesis
    by (rule life_okI)
qed

text \<open>A connector gives its descriptor and its process to a carrier.\<close>

lemma life_swap:
  assumes ok: "life_ok (fds, epoll, hand, proc, timeouts)"
    and c: "hand a = Some h0" "ih_process h0 = Some p" "ih_fd h0 = fd" and new: "hand a' = None"
    and h: "ih_process h = Some p" "ih_fd h = fd" "linked_to a' h b"
    and T: "T = timeouts \<or> T = insert p timeouts" "carrier_type (ih_type h)" and out: "p \<notin> timeouts"
  shows "life_ok (fds, epoll(fd \<mapsto> (a', w)), hand(a := None, a' \<mapsto> h), proc(p \<mapsto> b), T)"
proof -
  obtain b0 where b0: "0 \<le> fd" "fd \<in> fds" "proc p = Some b0"
    using life_ok_hand [OF ok c(1)] c(2,3) by (metis option.inject)
  let ?b = "b0\<lparr>bp_io := None, bp_status := PROCESS_NET_STATUS_DISCONNECT\<rparr>"
  have "life_ok (fds - {fd}, epoll(fd := None), hand(a := None), proc(p \<mapsto> ?b), timeouts - {p})"
    by (rule life_remove [OF ok c]) (auto simp: idle_status_def)
  from life_add [OF this, of a' fd p ?b h b "T" w] new h b0 T out
  have "life_ok (insert fd (fds - {fd}), (epoll(fd := None))(fd \<mapsto> (a', w)), (hand(a := None))(a' \<mapsto> h),
      (proc(p \<mapsto> ?b))(p \<mapsto> b), T)"
    by auto
  then show ?thesis
    using b0(2) by (simp add: insert_absorb)
qed

text \<open>A process without a handler may come and go, and its handler and it may be told whether they die together.\<close>

lemma life_idle:
  assumes ok: "life_ok (fds, epoll, hand, proc, timeouts)" and p: "\<And>b. proc p = Some b \<Longrightarrow> bp_io b = None"
    and v: "\<And>b. v = Some b \<Longrightarrow> bp_io b = None \<and> idle_status (bp_status b)"
  shows "life_ok (fds, epoll, hand, proc(p := v), timeouts)"
proof (rule life_okI)
  fix a h
  assume h: "hand a = Some h"
  obtain p' b w where b: "0 \<le> ih_fd h" "ih_fd h \<in> fds" "epoll (ih_fd h) = Some (a, w)" "ih_process h = Some p'"
    "proc p' = Some b" "linked_to a h b"
    using life_ok_hand [OF ok h] .
  then have "p' \<noteq> p"
    using p by (auto simp: linked_to_def)
  then show "hand_ok (fds, epoll, hand, proc(p := v), timeouts) a h"
    using b by (intro hand_okI [of h _ _ a w p' _ b]) auto
next
  fix p' b
  assume "(proc(p := v)) p' = Some b"
  then show "proc_ok (fds, epoll, hand, proc(p := v), timeouts) p' b"
    using v life_ok_proc [OF ok, of p' b] by (auto simp: proc_ok_def split: if_splits option.splits)
next
  fix p'
  assume "p' \<in> timeouts"
  then obtain b a h where b: "proc p' = Some b" "bp_io b = Some a" "hand a = Some h" "carrier_type (ih_type h)"
    using life_ok_timeouts [OF ok] by blast
  then have "p' \<noteq> p"
    using p by auto
  then show "\<exists>b a h. (proc(p := v)) p' = Some b \<and> bp_io b = Some a \<and> hand a = Some h \<and> carrier_type (ih_type h)"
    using b by auto
qed (rule life_ok_epoll [OF ok])

lemma life_with_me:
  assumes ok: "life_ok (fds, epoll, hand, proc, timeouts)" and p: "proc p = Some b" "bp_io b = Some a" "hand a = Some h"
  shows "life_ok (fds, epoll, hand(a \<mapsto> h\<lparr>ih_flag := flag_of m\<rparr>), proc(p \<mapsto> b\<lparr>bp_with_me := m\<rparr>), timeouts)"
proof (rule life_okI)
  have hp: "ih_process h = Some p"
    using life_ok_proc [OF ok p(1)] p by simp
  fix a' h'
  assume n: "(hand(a \<mapsto> h\<lparr>ih_flag := flag_of m\<rparr>)) a' = Some h'"
  show "hand_ok (fds, epoll, hand(a \<mapsto> h\<lparr>ih_flag := flag_of m\<rparr>), proc(p \<mapsto> b\<lparr>bp_with_me := m\<rparr>), timeouts) a' h'"
  proof (cases "a' = a")
    case True
    obtain p' b' w where b': "0 \<le> ih_fd h" "ih_fd h \<in> fds" "epoll (ih_fd h) = Some (a, w)" "ih_process h = Some p'"
      "proc p' = Some b'" "linked_to a h b'"
      using life_ok_hand [OF ok p(3)] .
    then have "linked_to a h' (b\<lparr>bp_with_me := m\<rparr>)"
      using hp p n True by (auto simp: linked_to_def)
    then show ?thesis
      using b' n True hp by (intro hand_okI [of h' _ _ a' w p _ "b\<lparr>bp_with_me := m\<rparr>"]) auto
  next
    case False
    then have h': "hand a' = Some h'"
      using n by simp
    obtain p' b' w where b': "0 \<le> ih_fd h'" "ih_fd h' \<in> fds" "epoll (ih_fd h') = Some (a', w)" "ih_process h' = Some p'"
      "proc p' = Some b'" "linked_to a' h' b'"
      using life_ok_hand [OF ok h'] .
    moreover have "p' \<noteq> p"
      using life_ok_distinct [OF ok p(3) h'] hp b'(4) False by auto
    ultimately show ?thesis
      by (intro hand_okI [of h' _ _ a' w p' _ b']) auto
  qed
next
  have hp: "ih_process h = Some p"
    using life_ok_proc [OF ok p(1)] p by simp
  fix p' b'
  assume n: "(proc(p \<mapsto> b\<lparr>bp_with_me := m\<rparr>)) p' = Some b'"
  show "proc_ok (fds, epoll, hand(a \<mapsto> h\<lparr>ih_flag := flag_of m\<rparr>), proc(p \<mapsto> b\<lparr>bp_with_me := m\<rparr>), timeouts) p' b'"
  proof (cases "p' = p")
    case True
    then show ?thesis
      using n p hp by (auto simp: proc_ok_def)
  next
    case False
    then show ?thesis
      using n p hp life_ok_proc [OF ok, of p' b'] by (auto simp: proc_ok_def split: option.splits)
  qed
next
  fix fd a' w
  assume "epoll fd = Some (a', w)"
  then show "\<exists>h'. (hand(a \<mapsto> h\<lparr>ih_flag := flag_of m\<rparr>)) a' = Some h' \<and> ih_fd h' = fd"
    using life_ok_epoll [OF ok] p(3) by fastforce
next
  fix p'
  assume "p' \<in> timeouts"
  then obtain b' a' h' where "proc p' = Some b'" "bp_io b' = Some a'" "hand a' = Some h'" "carrier_type (ih_type h')"
    using life_ok_timeouts [OF ok] by blast
  then show "\<exists>b' a' h'. (proc(p \<mapsto> b\<lparr>bp_with_me := m\<rparr>)) p' = Some b' \<and> bp_io b' = Some a' \<and>
      (hand(a \<mapsto> h\<lparr>ih_flag := flag_of m\<rparr>)) a' = Some h' \<and> carrier_type (ih_type h')"
    using p by (cases "p' = p"; cases "a' = a") auto
qed

lemma life_ok_fresh_fd: "life_ok (fds, epoll, hand, proc, timeouts) \<Longrightarrow> fd \<notin> fds \<Longrightarrow> epoll fd = None"
  using life_ok_epoll life_ok_hand by (metis option.exhaust surj_pair)

section \<open>The manager of the time-outs\<close>

text \<open>No operation on connected processes deletes \<open>net_timeout_manager_\<close>; only the closing of the worker does.\<close>

named_theorems manager \<open>operations that keep the manager of the time-outs\<close>

lemma put_manager [manager]:
  "set_proc p f st = Some st' \<Longrightarrow> nt_manager st' = nt_manager st"
  "set_hand a g st = Some st' \<Longrightarrow> nt_manager st' = nt_manager st"
  "set_ex p st = Some st' \<Longrightarrow> nt_manager st' = nt_manager st"
  "SetNetStatus p s st = Some st' \<Longrightarrow> nt_manager st' = nt_manager st"
  "SetIOHandler p io st = Some st' \<Longrightarrow> nt_manager st' = nt_manager st"
  "SetFlag a fl st = Some st' \<Longrightarrow> nt_manager st' = nt_manager st"
  by (auto simp: set_proc_def set_hand_def set_ex_def SetNetStatus_def SetIOHandler_def SetFlag_def)

lemma epoll_manager [manager]:
  "DisableReadData a i st = Some (ok, st') \<Longrightarrow> nt_manager st' = nt_manager st"
  "DisableWriteData a i st = Some (ok, st') \<Longrightarrow> nt_manager st' = nt_manager st"
  "EnableReadData a st = Some (ok, st') \<Longrightarrow> nt_manager st' = nt_manager st"
  "EnableWriteData a st = Some (ok, st') \<Longrightarrow> nt_manager st' = nt_manager st"
  by (auto simp: DisableReadData_def DisableWriteData_def EnableReadData_def EnableWriteData_def epoll_add_def epoll_mod_def
      epoll_del_def split: bind_splits if_splits)

lemma SetWithMe_manager [manager]: "SetWithMe p m st = Some st' \<Longrightarrow> nt_manager st' = nt_manager st"
  by (auto simp: SetWithMe_def dest!: manager split: bind_splits option.splits)

lemma detach_manager [manager]:
  "DetachNet p st = Some st' \<Longrightarrow> nt_manager st' = nt_manager st"
  "AttachNet p st = Some st' \<Longrightarrow> nt_manager st' = nt_manager st"
  "delete_process p st = Some st' \<Longrightarrow> nt_manager st' = nt_manager st"
  "unlink_process p h st = Some st' \<Longrightarrow> nt_manager st' = nt_manager st"
  by (auto simp: DetachNet_def AttachNet_def delete_process_def unlink_process_def dest!: manager split: bind_splits if_splits option.splits)

lemma CloseFd_manager [simp]: "nt_manager (CloseFd fd st) = nt_manager st" "nt_manager (open_fd fd st) = nt_manager st"
  by (simp_all add: CloseFd_def open_fd_def)

lemma delete_handler_manager [manager]: "delete_handler a st = Some st' \<Longrightarrow> nt_manager st' = nt_manager st"
  by (auto simp: delete_handler_def TCPCarrier_dtor_def UNIXCarrier_dtor_def PIPECarrier_dtor_def UDPCarrier_dtor_def IOHandler_dtor_def
      dest!: manager split: bind_splits if_splits option.splits io_type.splits)

lemma EnqueueForDelete_manager [manager]: "EnqueueForDelete a st = Some st' \<Longrightarrow> nt_manager st' = nt_manager st"
  by (auto simp: EnqueueForDelete_def dest!: manager split: bind_splits)

lemma Free_manager [manager]: "Free p st = Some st' \<Longrightarrow> nt_manager st' = nt_manager st"
  by (auto simp: Free_def Free_connected_def dest!: manager split: bind_splits net_status.splits)

lemma expire_manager [manager]: "expire_processes ps st = Some st' \<Longrightarrow> nt_manager st' = nt_manager st"
  by (induction ps arbitrary: st) (fastforce simp: DoTimeout_def dest!: manager split: bind_splits if_splits)+

lemma new_IOHandler_manager [manager]:
  "new_IOHandler a fd type managed process peer name st = Some st' \<Longrightarrow> nt_manager st' = nt_manager st"
  by (auto simp: new_IOHandler_def Let_def dest!: manager split: bind_splits if_splits option.splits)

lemma new_handler_manager [manager]:
  "new_carrier a fd type process peer name st = Some st' \<Longrightarrow> nt_manager st' = nt_manager st"
  "new_connector a fd type process st = Some st' \<Longrightarrow> nt_manager st' = nt_manager st"
  by (auto simp: new_carrier_def new_connector_def dest!: manager split: bind_splits option.splits)

lemma start_connect_manager [manager]:
  "start_connect type nagle kern socket address connect a p st = Some (ok, st') \<Longrightarrow> nt_manager st' = nt_manager st"
  by (auto simp: start_connect_def connector_Connect_def Let_def dest!: manager split: bind_splits if_splits option.splits)

lemma connector_OnEvent_manager:
  assumes "\<And>a fd p st st'. carrier a fd p st = Some st' \<Longrightarrow> nt_manager st' = nt_manager st"
  shows "connector_OnEvent carrier fresh a ev st = Some (ok, st') \<Longrightarrow> nt_manager st' = nt_manager st"
  by (auto simp: connector_OnEvent_def dest!: manager assms split: bind_splits if_splits)

section \<open>What the operations do\<close>

lemma flag_of_simps [simp]:
  "closes_process (flag_of m) = m" "closes_fd (flag_of m)"
  by (simp_all add: flag_of_def)

lemma DisableReadData_life:
  assumes "nt_hand st a = Some h"
  shows "\<exists>ok st' ep. DisableReadData a True st = Some (ok, st') \<and> ep(ih_fd h := None) = (nt_epoll st)(ih_fd h := None) \<and>
     life st' = (nt_open st, ep, nt_hand st, nt_proc st, nt_timeouts st) \<and> (ih_fd h \<in> nt_open st \<longrightarrow> ep (ih_fd h) = None)"
  using assms by (auto simp: DisableReadData_def epoll_del_def life_def)

lemma EnqueueForDelete_carrier:
  assumes h: "nt_hand st a = Some h" "carrier_type (ih_type h)" "ih_process h = Some p" "ih_flag h = flag_of m"
    and b: "nt_proc st p = Some b" "bp_ex b" and fd: "0 \<le> ih_fd h"
  shows "\<exists>st'. EnqueueForDelete a st = Some st' \<and>
     life st' = (nt_open st - {ih_fd h}, (nt_epoll st)(ih_fd h := None), (nt_hand st)(a := None),
       (nt_proc st)(p := if m then None else Some (b\<lparr>bp_io := None\<rparr>)), nt_timeouts st - {p})"
proof -
  obtain ok st1 ep where s1: "DisableReadData a True st = Some (ok, st1)" "ep(ih_fd h := None) = (nt_epoll st)(ih_fd h := None)"
    "life st1 = (nt_open st, ep, nt_hand st, nt_proc st, nt_timeouts st)"
    using DisableReadData_life [OF h(1)] by blast
  then have l1: "nt_open st1 = nt_open st" "nt_epoll st1 = ep" "nt_hand st1 = nt_hand st" "nt_proc st1 = nt_proc st"
    "nt_timeouts st1 = nt_timeouts st"
    by (simp_all add: life_def)
  have "\<exists>st'. delete_handler a st1 = Some st' \<and>
     life st' = (nt_open st - {ih_fd h}, (nt_epoll st)(ih_fd h := None), (nt_hand st)(a := None),
       (nt_proc st)(p := if m then None else Some (b\<lparr>bp_io := None\<rparr>)), nt_timeouts st - {p})"
    using h b fd s1(2) unfolding carrier_type_def
    by (auto simp: delete_handler_def l1 TCPCarrier_dtor_def UNIXCarrier_dtor_def DetachNet_def unlink_process_def SetIOHandler_def
        IOHandler_dtor_def delete_process_def CloseFd_def life_simps)
  then show ?thesis
    by (simp add: EnqueueForDelete_def s1(1))
qed

lemma EnqueueForDelete_connector:
  assumes h: "nt_hand st a = Some h" "connector_type (ih_type h)" "ih_process h = Some p" "ih_flag h = flag_of m"
    and b: "nt_proc st p \<noteq> None" and fd: "0 \<le> ih_fd h"
  shows "\<exists>st'. EnqueueForDelete a st = Some st' \<and>
     life st' = (nt_open st - {ih_fd h}, (nt_epoll st)(ih_fd h := None), (nt_hand st)(a := None),
       if m then (nt_proc st)(p := None) else nt_proc st, nt_timeouts st)"
proof -
  obtain ok st1 ep where s1: "DisableReadData a True st = Some (ok, st1)" "ep(ih_fd h := None) = (nt_epoll st)(ih_fd h := None)"
    "life st1 = (nt_open st, ep, nt_hand st, nt_proc st, nt_timeouts st)"
    using DisableReadData_life [OF h(1)] by blast
  then have l1: "nt_open st1 = nt_open st" "nt_epoll st1 = ep" "nt_hand st1 = nt_hand st" "nt_proc st1 = nt_proc st"
    "nt_timeouts st1 = nt_timeouts st"
    by (simp_all add: life_def)
  have "\<exists>st'. delete_handler a st1 = Some st' \<and>
     life st' = (nt_open st - {ih_fd h}, (nt_epoll st)(ih_fd h := None), (nt_hand st)(a := None),
       if m then (nt_proc st)(p := None) else nt_proc st, nt_timeouts st)"
    using h b fd s1(2) unfolding connector_type_def
    by (auto simp: delete_handler_def l1 IOHandler_dtor_def delete_process_def CloseFd_def life_simps)
  then show ?thesis
    by (simp add: EnqueueForDelete_def s1(1))
qed

lemma SetNetStatus_life:
  assumes "nt_proc st p = Some b"
  shows "\<exists>e st'. SetNetStatus p s st = Some st' \<and>
     life st' = (nt_open st, nt_epoll st, nt_hand st, (nt_proc st)(p \<mapsto> b\<lparr>bp_status := s, bp_errno := e\<rparr>), nt_timeouts st)"
  using assms
  by (intro exI [of _ "if s = PROCESS_NET_STATUS_SYS_ERROR then nt_errno st else bp_errno b"]) (simp add: SetNetStatus_def life_simps)

lemma SetWithMe_life:
  assumes "nt_proc st p = Some b" "bp_io b = Some a" "nt_hand st a = Some h"
  shows "\<exists>st'. SetWithMe p m st = Some st' \<and>
     life st' = (nt_open st, nt_epoll st, (nt_hand st)(a \<mapsto> h\<lparr>ih_flag := flag_of m\<rparr>), (nt_proc st)(p \<mapsto> b\<lparr>bp_with_me := m\<rparr>),
       nt_timeouts st)"
  using assms by (auto simp: SetWithMe_def SetFlag_def flag_of_def life_simps)

lemma new_IOHandler_life:
  assumes "nt_hand st a = None" "nt_proc st p = Some b" "fd \<in> nt_open st" "nt_epoll st fd = None"
  shows "\<exists>h st'. new_IOHandler a fd type True (Some p) peer name st = Some st' \<and>
     ih_process h = Some p \<and> ih_fd h = fd \<and> ih_type h = type \<and> ih_flag h = flag_of (bp_with_me b) \<and>
     life st' = (nt_open st, (nt_epoll st)(fd \<mapsto> (a, False)), (nt_hand st)(a \<mapsto> h), (nt_proc st)(p \<mapsto> b\<lparr>bp_io := Some a\<rparr>),
       nt_timeouts st)"
  using assms
  by (intro exI [of _ "\<lparr>ih_fd = fd, ih_managed = True, ih_flag = flag_of (bp_with_me b), ih_process = Some p, ih_type = type,
         ih_peer = peer, ih_name = name\<rparr>"])
     (auto simp: new_IOHandler_def EnableReadData_def epoll_add_def SetIOHandler_def SetFlag_def flag_of_def life_simps)

lemma new_carrier_life:
  assumes "nt_hand st a = None" "nt_proc st p = Some b" "fd \<in> nt_open st" "nt_epoll st fd = None" "bp_ex b" "carrier_type type"
    "nt_manager st"
  shows "\<exists>h b' st'. new_carrier a fd type (Some p) peer name st = Some st' \<and>
     ih_process h = Some p \<and> ih_fd h = fd \<and> carrier_type (ih_type h) \<and> linked_to a h b' \<and>
     life st' = (nt_open st, (nt_epoll st)(fd \<mapsto> (a, False)), (nt_hand st)(a \<mapsto> h), (nt_proc st)(p \<mapsto> b'), insert p (nt_timeouts st))"
proof -
  obtain h st1 where h: "new_IOHandler a fd type True (Some p) peer name st = Some st1"
    "ih_process h = Some p" "ih_fd h = fd" "ih_type h = type" "ih_flag h = flag_of (bp_with_me b)"
    "life st1 = (nt_open st, (nt_epoll st)(fd \<mapsto> (a, False)), (nt_hand st)(a \<mapsto> h), (nt_proc st)(p \<mapsto> b\<lparr>bp_io := Some a\<rparr>),
       nt_timeouts st)"
    using new_IOHandler_life [OF assms(1-4)] by blast
  then have "nt_proc st1 p = Some (b\<lparr>bp_io := Some a\<rparr>)"
    by (simp add: life_def)
  then obtain e st2 where s2: "SetNetStatus p PROCESS_NET_STATUS_CONNECTED st1 = Some st2"
    "life st2 = (nt_open st1, nt_epoll st1, nt_hand st1, (nt_proc st1)(p \<mapsto> b\<lparr>bp_io := Some a,
        bp_status := PROCESS_NET_STATUS_CONNECTED, bp_errno := e\<rparr>), nt_timeouts st1)"
    using SetNetStatus_life by blast
  let ?b = "b\<lparr>bp_io := Some a, bp_status := PROCESS_NET_STATUS_CONNECTED, bp_errno := e\<rparr>"
  have "linked_to a h ?b"
    using h assms(5,6) by (simp add: linked_to_def)
  moreover have "nt_manager st2"
    using manager(4) [OF s2(1)] new_IOHandler_manager [OF h(1)] assms(7) by simp
  then have "new_carrier a fd type (Some p) peer name st = Some (st2\<lparr>nt_timeouts := insert p (nt_timeouts st2)\<rparr>)"
    using h(1) s2 assms(5) by (simp add: new_carrier_def AttachNet_def life_def)
  moreover have "life (st2\<lparr>nt_timeouts := insert p (nt_timeouts st2)\<rparr>) = (nt_open st, (nt_epoll st)(fd \<mapsto> (a, False)),
      (nt_hand st)(a \<mapsto> h), (nt_proc st)(p \<mapsto> ?b), insert p (nt_timeouts st))"
    using s2(2) h(6) by (simp add: life_def)
  ultimately show ?thesis
    using h(2-4) assms(6) by blast
qed

section \<open>Operations on connected processes\<close>

text \<open>
  The operations: an application makes a process; an accepted descriptor \<open>fd\<close> is given to it; it connects, over TCP or UNIX
  sockets; an event arrives for a handler and the event loop removes the handler when \<open>OnEvent\<close> says so; \<open>SetWithMe\<close>,
  \<open>Free\<close> and the time-outs.
\<close>

datatype life_op =
    LNew nat nat nat
  | LAccept bool nat nat int
  | LConnect bool nat nat int bool "int \<times> nat"
  | LEvent nat epoll_event nat
  | LWithMe nat bool
  | LFree nat
  | LExpire "nat list"

record life_env =
  le_kernel :: kernel
  le_stream :: stream_calls
  le_peer :: "byte list"

text \<open>The commands are run with an application that answers with the process \<open>p\<close> and a new handler at \<open>a\<close>.\<close>

definition accept_env :: "life_env \<Rightarrow> nat \<Rightarrow> nat \<Rightarrow> cmd_env" where
  "accept_env e p a = \<lparr>ce_tcp = (\<lambda>_ st. (Some p, st)), ce_unix = (\<lambda>_ st. (Some p, st)), ce_app = (\<lambda>_ _ st. Some (True, st)),
     ce_peer = (\<lambda>_. le_peer e), ce_fresh = (\<lambda>_. a)\<rparr>"

definition life_event :: "life_env \<Rightarrow> nat \<Rightarrow> epoll_event \<Rightarrow> nat \<Rightarrow> net \<Rightarrow> net option" where
  "life_event e a ev fresh st =
     do { h \<leftarrow> nt_hand st a;
          (ok, st) \<leftarrow> (case ih_type h of
              IOHT_TCP_CARRIER \<Rightarrow> TCPCarrier_OnEvent (le_stream e) a ev st
            | IOHT_UNIX_CARRIER \<Rightarrow> UNIXCarrier_OnEvent (le_stream e) a ev st
            | IOHT_TCP_CONNECTOR \<Rightarrow> TCPConnector_OnEvent (le_peer e) fresh a ev st
            | IOHT_UNIX_CONNECTOR \<Rightarrow> UNIXConnector_OnEvent fresh a ev st
            | _ \<Rightarrow> None);
          if ok then Some st else EnqueueForDelete a st }"

fun life_step :: "life_env \<Rightarrow> life_op \<Rightarrow> net \<Rightarrow> net option" where
  "life_step e (LNew p recv send) st =
     do { b \<leftarrow> bp_new recv send; Some (st\<lparr>nt_proc := (nt_proc st)(p \<mapsto> b)\<rparr>) }"
| "life_step e (LAccept tcp p a fd) st =
     map_option snd (if tcp then TCPAcceptCmd_Process (accept_env e p a) fd 0 (open_fd fd st)
                     else UNIXAcceptCmd_Process (accept_env e p a) fd [] (open_fd fd st))"
| "life_step e (LConnect tcp p a fd address connect) st =
     do { st \<leftarrow> set_ex p st;
          map_option snd (if tcp then TCPConnector_Connect (le_kernel e) (Some fd) address connect a p st
                          else UNIXConnector_Connect (le_kernel e) (Some fd) connect a p st) }"
| "life_step e (LEvent a ev fresh) st = life_event e a ev fresh st"
| "life_step e (LWithMe p m) st = SetWithMe p m st"
| "life_step e (LFree p) st = Free p st"
| "life_step e (LExpire ps) st = expire_processes ps st"

text \<open>
  When each may be called. New addresses and descriptors are not in use. A process connects or is accepted for
  when it has no handler; one that must outlive its handler (\<open>SetWithMe(false)\<close>) only makes connections that do not
  fail at once. The events of carriers considered here are hang-ups and errors; the others only move bytes
  (theories \<open>Streams\<close> and \<open>Udp\<close>) and call the application.
\<close>

definition idle :: "nat \<Rightarrow> net \<Rightarrow> bool" where
  "idle p st \<longleftrightarrow> (case nt_proc st p of None \<Rightarrow> False | Some b \<Rightarrow> bp_io b = None)"

fun life_allowed :: "life_op \<Rightarrow> net \<Rightarrow> bool" where
  "life_allowed (LNew p recv send) st \<longleftrightarrow> nt_proc st p = None \<and> recv \<le> 2 ^ 31"
| "life_allowed (LAccept tcp p a fd) st \<longleftrightarrow> idle p st \<and> nt_hand st a = None \<and> 0 \<le> fd \<and> fd \<notin> nt_open st"
| "life_allowed (LConnect tcp p a fd address connect) st \<longleftrightarrow>
     idle p st \<and> nt_hand st a = None \<and> 0 \<le> fd \<and> fd \<notin> nt_open st \<and>
     (map_option bp_with_me (nt_proc st p) = Some True \<or>
      (tcp \<longrightarrow> address) \<and> (fst connect = 0 \<or> snd connect = EINPROGRESS))"
| "life_allowed (LEvent a ev fresh) st \<longleftrightarrow>
     (case nt_hand st a of None \<Rightarrow> False | Some h \<Rightarrow> carrier_type (ih_type h) \<longrightarrow> ev_err ev \<or> ev_hup ev) \<and> nt_hand st fresh = None"
| "life_allowed (LWithMe p m) st \<longleftrightarrow> nt_proc st p \<noteq> None"
| "life_allowed (LFree p) st \<longleftrightarrow> nt_proc st p \<noteq> None"
| "life_allowed (LExpire ps) st \<longleftrightarrow> distinct ps \<and> set ps \<subseteq> nt_timeouts st"

lemma net_wf_idle:
  assumes "net_wf st" "idle p st"
  obtains b where "nt_proc st p = Some b" "bp_io b = None" "idle_status (bp_status b)" "p \<notin> nt_timeouts st"
proof -
  note ok = assms(1) [unfolded net_wf_def life_def]
  obtain b where b: "nt_proc st p = Some b" "bp_io b = None"
    using assms(2) by (auto simp: idle_def split: option.splits)
  moreover have "p \<notin> nt_timeouts st"
    using life_ok_timeouts [OF ok, of p] b by auto
  ultimately show thesis
    using that life_ok_proc [OF ok b(1)] by simp
qed

lemma LNew_wf:
  assumes "net_wf st" "nt_proc st p = None" "recv \<le> 2 ^ 31"
  shows "\<exists>st'. life_step e (LNew p recv send) st = Some st' \<and> net_wf st'"
proof -
  obtain input where "ib_EnsureSize ib_new recv = Some (True, input)"
    using ib_EnsureSize_spec [of ib_new recv] assms(3) by auto
  then have "ib_Initialize ib_new recv = Some input"
    by (simp add: ib_Initialize_def ib_new_def)
  then obtain b where "bp_new recv send = Some b" "bp_io b = None" "idle_status (bp_status b)"
    by (auto simp: bp_new_def idle_status_def)
  then show ?thesis
    using assms life_idle [of "nt_open st" "nt_epoll st" "nt_hand st" "nt_proc st" "nt_timeouts st" p "Some b"]
    by (simp add: net_wf_def life_def)
qed

lemma set_ex_life:
  "nt_proc st p = Some b \<Longrightarrow> \<exists>st'. set_ex p st = Some st' \<and>
     life st' = (nt_open st, nt_epoll st, nt_hand st, (nt_proc st)(p \<mapsto> b\<lparr>bp_ex := True\<rparr>), nt_timeouts st)"
  by (auto simp: set_ex_def life_simps)

text \<open>A descriptor without a handler may be open or not.\<close>

lemma life_open:
  assumes "life_ok (fds, epoll, hand, proc, timeouts)"
  shows "life_ok (insert fd fds, epoll, hand, proc, timeouts)"
    and "epoll fd = None \<Longrightarrow> life_ok (fds - {fd}, epoll, hand, proc, timeouts)"
  using assms unfolding life_ok_def hand_ok_def proc_ok_def by (simp_all, fastforce+)

text \<open>The two steps of an accept command: the process is told its extension and gets a carrier.\<close>

lemma accepted_life:
  assumes wf: "net_wf st" and manager: "nt_manager st" and p: "idle p st" and a: "nt_hand st a = None"
    and fd: "0 \<le> fd" "fd \<in> nt_open st" "nt_epoll st fd = None" and type: "carrier_type type"
    and ex: "set_ex p st = Some st1"
  shows "\<exists>h b' st2. new_carrier a fd type (Some p) peer [] st1 = Some st2 \<and> net_wf st2 \<and> nt_manager st2 \<and>
     ih_process h = Some p \<and> ih_fd h = fd \<and> carrier_type (ih_type h) \<and> linked_to a h b' \<and>
     life st2 = (nt_open st, (nt_epoll st)(fd \<mapsto> (a, False)), (nt_hand st)(a \<mapsto> h), (nt_proc st)(p \<mapsto> b'),
       insert p (nt_timeouts st))"
proof -
  note wfl = wf [unfolded net_wf_def life_def]
  obtain b where b: "nt_proc st p = Some b" "bp_io b = None" "p \<notin> nt_timeouts st"
    using net_wf_idle [OF wf p] by blast
  have s1: "life st1 = (nt_open st, nt_epoll st, nt_hand st, (nt_proc st)(p \<mapsto> b\<lparr>bp_ex := True\<rparr>), nt_timeouts st)"
    using set_ex_life [OF b(1)] ex by auto
  have pre: "nt_hand st1 a = None" "nt_proc st1 p = Some (b\<lparr>bp_ex := True\<rparr>)" "fd \<in> nt_open st1" "nt_epoll st1 fd = None"
    "bp_ex (b\<lparr>bp_ex := True\<rparr>)" "carrier_type type" "nt_manager st1"
    using s1 a fd type put_manager(3) [OF ex] manager by (simp_all add: life_def)
  obtain h b' st2 where s2: "new_carrier a fd type (Some p) peer [] st1 = Some st2"
    "ih_process h = Some p" "ih_fd h = fd" "carrier_type (ih_type h)" "linked_to a h b'"
    "life st2 = (nt_open st1, (nt_epoll st1)(fd \<mapsto> (a, False)), (nt_hand st1)(a \<mapsto> h), (nt_proc st1)(p \<mapsto> b'),
       insert p (nt_timeouts st1))"
    using new_carrier_life [OF pre, of peer "[]"] by auto
  have "life_ok (insert fd (nt_open st - {fd}), (nt_epoll st)(fd \<mapsto> (a, False)), (nt_hand st)(a \<mapsto> h), (nt_proc st)(p \<mapsto> b'),
      insert p (nt_timeouts st))"
    by (rule life_add [OF life_open(2) [OF wfl fd(3)] a _ b(1,2) s2(2,3) fd(1) s2(5)]) (use s2(4) in simp_all)
  moreover have "insert fd (nt_open st - {fd}) = nt_open st"
    using fd(2) by auto
  moreover have "life st2 = (nt_open st, (nt_epoll st)(fd \<mapsto> (a, False)), (nt_hand st)(a \<mapsto> h),
      (nt_proc st)(p \<mapsto> b'), insert p (nt_timeouts st))"
    using s2(6) s1 by (simp add: life_def)
  moreover have "nt_manager st2"
    using new_handler_manager(1) [OF s2(1)] pre(7) by simp
  ultimately show ?thesis
    using s2(1-5) by (intro exI [of _ h] exI [of _ b'] exI [of _ st2]) (simp add: net_wf_def)
qed

lemma LAccept_wf:
  assumes wf: "net_wf st" and manager: "nt_manager st" and ok: "life_allowed (LAccept tcp p a fd) st"
  shows "\<exists>st'. life_step e (LAccept tcp p a fd) st = Some st' \<and> net_wf st'"
proof -
  note wfl = wf [unfolded net_wf_def life_def]
  let ?st = "open_fd fd st"
  have wf': "net_wf ?st" "nt_manager ?st" "idle p ?st" "nt_hand ?st a = None" "0 \<le> fd" "fd \<in> nt_open ?st" "nt_epoll ?st fd = None"
    using ok manager life_open(1) [OF wfl] life_ok_fresh_fd [OF wfl, of fd]
    by (simp_all add: net_wf_def life_def open_fd_def idle_def)
  obtain st1 where s1: "set_ex p ?st = Some st1"
    using set_ex_life wf'(3) by (fastforce simp: idle_def split: option.splits)
  have "carrier_type (if tcp then IOHT_TCP_CARRIER else IOHT_UNIX_CARRIER)"
    by (simp add: carrier_type_def)
  from accepted_life [OF wf' this s1, of "if tcp then le_peer e else []"] s1 show ?thesis
    by (cases tcp) (auto simp: TCPAcceptCmd_Process_def UNIXAcceptCmd_Process_def accept_env_def new_TCPCarrier_def new_UNIXCarrier_def)
qed

lemma new_connector_life:
  assumes "nt_hand st a = None" "nt_proc st p = Some b" "fd \<in> nt_open st" "nt_epoll st fd = None" "bp_ex b" "connector_type type"
  shows "\<exists>h b' st'. new_connector a fd type (Some p) st = Some st' \<and>
     ih_process h = Some p \<and> ih_fd h = fd \<and> connector_type (ih_type h) \<and> linked_to a h b' \<and> bp_with_me b' = bp_with_me b \<and>
     life st' = (nt_open st, (nt_epoll st)(fd \<mapsto> (a, False)), (nt_hand st)(a \<mapsto> h), (nt_proc st)(p \<mapsto> b'), nt_timeouts st)"
proof -
  obtain h st1 where h: "new_IOHandler a fd type True (Some p) [] [] st = Some st1"
    "ih_process h = Some p" "ih_fd h = fd" "ih_type h = type" "ih_flag h = flag_of (bp_with_me b)"
    "life st1 = (nt_open st, (nt_epoll st)(fd \<mapsto> (a, False)), (nt_hand st)(a \<mapsto> h), (nt_proc st)(p \<mapsto> b\<lparr>bp_io := Some a\<rparr>),
       nt_timeouts st)"
    using new_IOHandler_life [OF assms(1-4)] by blast
  then have "nt_proc st1 p = Some (b\<lparr>bp_io := Some a\<rparr>)"
    by (simp add: life_def)
  then obtain e st2 where s2: "SetNetStatus p PROCESS_NET_STATUS_CONNECTING st1 = Some st2"
    "life st2 = (nt_open st1, nt_epoll st1, nt_hand st1, (nt_proc st1)(p \<mapsto> b\<lparr>bp_io := Some a,
        bp_status := PROCESS_NET_STATUS_CONNECTING, bp_errno := e\<rparr>), nt_timeouts st1)"
    using SetNetStatus_life by blast
  let ?b = "b\<lparr>bp_io := Some a, bp_status := PROCESS_NET_STATUS_CONNECTING, bp_errno := e\<rparr>"
  have "linked_to a h ?b"
    using h assms(5,6) by (simp add: linked_to_def)
  moreover have "new_connector a fd type (Some p) st = Some st2"
    using h(1) s2(1) by (simp add: new_connector_def)
  moreover have "life st2 = (nt_open st, (nt_epoll st)(fd \<mapsto> (a, False)), (nt_hand st)(a \<mapsto> h), (nt_proc st)(p \<mapsto> ?b), nt_timeouts st)"
    using s2(2) h(6) by (simp add: life_def)
  moreover have "bp_with_me ?b = bp_with_me b"
    by simp
  ultimately show ?thesis
    using h(2-4) assms(6) by blast
qed

lemma connector_Connect_life:
  assumes "nt_hand st a = Some h" "ih_fd h = fd" "fd \<in> nt_open st" "nt_epoll st fd = Some (a, False)"
  shows "\<exists>w st'. connector_Connect address connect a st =
       Some (address \<and> (fst connect = 0 \<or> snd connect = EINPROGRESS), st') \<and>
     life st' = (nt_open st, (nt_epoll st)(fd \<mapsto> (a, w)), nt_hand st, nt_proc st, nt_timeouts st)"
proof (cases address)
  case True
  then show ?thesis
    using assms by (intro exI [of _ True]) (auto simp: connector_Connect_def EnableWriteData_def epoll_mod_def life_def)
next
  case False
  then show ?thesis
    using assms by (intro exI [of _ False]) (auto simp: connector_Connect_def life_def)
qed

lemma DisableWriteData_life:
  assumes "nt_hand st a = Some h" "ih_fd h = fd" "fd \<in> nt_open st" "nt_epoll st fd = Some (a, w)"
  shows "\<exists>st'. DisableWriteData a True st = Some (True, st') \<and>
     life st' = (nt_open st, (nt_epoll st)(fd \<mapsto> (a, False)), nt_hand st, nt_proc st, nt_timeouts st)"
  using assms by (auto simp: DisableWriteData_def epoll_mod_def life_def)

text \<open>
  A connection that gets as far as the call of \<open>connect\<close> has made its connector; when the call fails at once the connector is
  deleted again, with the process or without it.
\<close>

lemma start_connect_made:
  assumes wf: "life_ok (life st)" and a: "nt_hand st a = None" "fd \<notin> nt_open st" and type: "connector_type type"
    and p: "nt_proc st p = Some b" "bp_ex b"
  shows "\<exists>h b' w st1 st2. new_connector a fd type (Some p) (open_fd fd st) = Some st1 \<and>
     connector_Connect address connect a st1 = Some (address \<and> (fst connect = 0 \<or> snd connect = EINPROGRESS), st2) \<and>
     ih_process h = Some p \<and> ih_fd h = fd \<and> connector_type (ih_type h) \<and> linked_to a h b' \<and> bp_with_me b' = bp_with_me b \<and>
     life st2 = (insert fd (nt_open st), (nt_epoll st)(fd \<mapsto> (a, w)), (nt_hand st)(a \<mapsto> h), (nt_proc st)(p \<mapsto> b'), nt_timeouts st)"
proof -
  let ?st = "open_fd fd st"
  have pre: "nt_hand ?st a = None" "nt_proc ?st p = Some b" "fd \<in> nt_open ?st" "nt_epoll ?st fd = None"
    using a p life_ok_fresh_fd [OF wf [unfolded life_def] a(2)] by (simp_all add: open_fd_def)
  obtain h b' st1 where s1: "new_connector a fd type (Some p) ?st = Some st1"
    "ih_process h = Some p" "ih_fd h = fd" "connector_type (ih_type h)" "linked_to a h b'" "bp_with_me b' = bp_with_me b"
    "life st1 = (nt_open ?st, (nt_epoll ?st)(fd \<mapsto> (a, False)), (nt_hand ?st)(a \<mapsto> h), (nt_proc ?st)(p \<mapsto> b'), nt_timeouts ?st)"
    using new_connector_life [OF pre p(2) type] by blast
  have l1: "nt_hand st1 a = Some h" "fd \<in> nt_open st1" "nt_epoll st1 fd = Some (a, False)"
    using s1(7) by (simp_all add: life_def open_fd_def)
  obtain w st2 where s2: "connector_Connect address connect a st1 =
      Some (address \<and> (fst connect = 0 \<or> snd connect = EINPROGRESS), st2)"
    "life st2 = (nt_open st1, (nt_epoll st1)(fd \<mapsto> (a, w)), nt_hand st1, nt_proc st1, nt_timeouts st1)"
    using connector_Connect_life [OF l1(1) s1(3) l1(2,3)] by blast
  have "life st2 = (insert fd (nt_open st), (nt_epoll st)(fd \<mapsto> (a, w)), (nt_hand st)(a \<mapsto> h), (nt_proc st)(p \<mapsto> b'), nt_timeouts st)"
    using s2(2) s1(7) by (simp add: life_def open_fd_def)
  then show ?thesis
    using s1(1-6) s2(1) by blast
qed

lemma start_connect_fails:
  assumes wf: "life_ok (life st)" and a: "nt_hand st a = None" "fd \<notin> nt_open st" "0 \<le> fd" and type: "connector_type type"
    and p: "nt_proc st p = Some b" "bp_ex b" and opt: "fst (setFdOptions kern nagle [])"
    and c: "\<not> (address \<and> (fst connect = 0 \<or> snd connect = EINPROGRESS))"
  shows "\<exists>st' b'. start_connect type nagle kern (Some fd) address connect a p st = Some (False, st') \<and>
     bp_io b' = Some a \<and> bp_status b' = PROCESS_NET_STATUS_SYS_ERROR \<and>
     life st' = (nt_open st, nt_epoll st, nt_hand st, (nt_proc st)(p := if bp_with_me b then None else Some b'), nt_timeouts st)"
proof -
  obtain h b' w st1 st2 where s: "new_connector a fd type (Some p) (open_fd fd st) = Some st1"
    "connector_Connect address connect a st1 = Some (False, st2)"
    "ih_process h = Some p" "ih_fd h = fd" "connector_type (ih_type h)" "linked_to a h b'" "bp_with_me b' = bp_with_me b"
    "life st2 = (insert fd (nt_open st), (nt_epoll st)(fd \<mapsto> (a, w)), (nt_hand st)(a \<mapsto> h), (nt_proc st)(p \<mapsto> b'), nt_timeouts st)"
    using start_connect_made [OF wf a(1,2) type p, of address connect] c by auto
  then have fl: "ih_flag h = flag_of (bp_with_me b)" "nt_proc st2 p = Some b'" "bp_io b' = Some a"
    by (simp_all add: linked_to_def life_def)
  obtain e st3 where s3: "SetNetStatus p PROCESS_NET_STATUS_SYS_ERROR st2 = Some st3"
    "life st3 = (nt_open st2, nt_epoll st2, nt_hand st2, (nt_proc st2)(p \<mapsto> b'\<lparr>bp_status := PROCESS_NET_STATUS_SYS_ERROR,
       bp_errno := e\<rparr>), nt_timeouts st2)"
    using SetNetStatus_life [OF fl(2)] by blast
  have "nt_hand st3 a = Some h" "fd \<in> nt_open st3" "nt_epoll st3 fd = Some (a, w)"
    using s3(2) s(8) by (simp_all add: life_def)
  from DisableWriteData_life [OF this(1) s(4) this(2,3)] obtain st4 where s4: "DisableWriteData a True st3 = Some (True, st4)"
    "life st4 = (nt_open st3, (nt_epoll st3)(fd \<mapsto> (a, False)), nt_hand st3, nt_proc st3, nt_timeouts st3)"
    by blast
  let ?b = "b'\<lparr>bp_status := PROCESS_NET_STATUS_SYS_ERROR, bp_errno := e\<rparr>"
  have "nt_hand st4 a = Some h" "nt_proc st4 p \<noteq> None"
    using s4(2) s3(2) s(8) by (simp_all add: life_def)
  from EnqueueForDelete_connector [OF this(1) s(5,3) fl(1) this(2)] obtain st5 where s5: "EnqueueForDelete a st4 = Some st5"
    "life st5 = (nt_open st4 - {fd}, (nt_epoll st4)(fd := None), (nt_hand st4)(a := None),
       if bp_with_me b then (nt_proc st4)(p := None) else nt_proc st4, nt_timeouts st4)"
    using s(4) a(3) by auto
  have "nt_epoll st = (nt_epoll st)(fd := None)" "nt_hand st = (nt_hand st)(a := None)"
    using life_ok_fresh_fd [OF wf [unfolded life_def] a(2)] a(1) by auto
  then have "life st5 = (nt_open st, nt_epoll st, nt_hand st, (nt_proc st)(p := if bp_with_me b then None else Some ?b), nt_timeouts st)"
    using s5(2) s4(2) s3(2) s(8) a(2) by (simp add: life_def)
  moreover have "start_connect type nagle kern (Some fd) address connect a p st = Some (False, st5)"
    using opt s(1,2) s3(1) s4(1) s5(1) by (simp add: start_connect_def)
  ultimately show ?thesis
    using fl(3) by (intro exI [of _ st5] exI [of _ ?b]) simp
qed

lemma start_connect_life:
  assumes wf: "life_ok (life st)" and a: "nt_hand st a = None" "0 \<le> fd" "fd \<notin> nt_open st" and type: "connector_type type"
    and p: "nt_proc st p = Some b" "bp_io b = None" "bp_ex b"
    and c: "bp_with_me b \<or> address \<and> (fst connect = 0 \<or> snd connect = EINPROGRESS)"
  shows "\<exists>ok st'. start_connect type nagle kern (Some fd) address connect a p st = Some (ok, st') \<and> net_wf st'"
proof -
  note wfl = wf [unfolded life_def]
  consider "\<not> fst (setFdOptions kern nagle [])"
    | "fst (setFdOptions kern nagle [])" "address \<and> (fst connect = 0 \<or> snd connect = EINPROGRESS)"
    | "fst (setFdOptions kern nagle [])" "\<not> (address \<and> (fst connect = 0 \<or> snd connect = EINPROGRESS))"
    by blast
  then show ?thesis
  proof cases
    case 1
    have "life (CloseFd fd (open_fd fd st)) = life st"
      using a life_ok_fresh_fd [OF wfl a(3)] by (auto simp: CloseFd_def open_fd_def life_def)
    then show ?thesis
      using 1 wf by (intro exI [of _ False]) (simp add: start_connect_def net_wf_def)
  next
    case 2
    obtain h b' w st1 st2 where s: "new_connector a fd type (Some p) (open_fd fd st) = Some st1"
      "connector_Connect address connect a st1 = Some (True, st2)"
      "ih_process h = Some p" "ih_fd h = fd" "connector_type (ih_type h)" "linked_to a h b'"
      "life st2 = (insert fd (nt_open st), (nt_epoll st)(fd \<mapsto> (a, w)), (nt_hand st)(a \<mapsto> h), (nt_proc st)(p \<mapsto> b'), nt_timeouts st)"
      using start_connect_made [OF wf a(1,3) type p(1,3), of address connect] 2(2) by auto
    have "net_wf st2"
      unfolding net_wf_def s(7) using life_add [OF wfl a(1,3) p(1,2) s(3,4) a(2) s(6)] by blast
    moreover have "start_connect type nagle kern (Some fd) address connect a p st = Some (True, st2)"
      using 2(1) s(1,2) by (simp add: start_connect_def)
    ultimately show ?thesis
      by blast
  next
    case 3
    then have "bp_with_me b"
      using c by blast
    with start_connect_fails [OF wf a(1,3,2) type p(1,3) 3] obtain st' where
      s: "start_connect type nagle kern (Some fd) address connect a p st = Some (False, st')"
      "life st' = (nt_open st, nt_epoll st, nt_hand st, (nt_proc st)(p := None), nt_timeouts st)"
      by auto
    have "net_wf st'"
      unfolding net_wf_def s(2) using life_idle [OF wfl, of p None] p(1,2) by simp
    then show ?thesis
      using s(1) by blast
  qed
qed

lemma LConnect_wf:
  assumes wf: "net_wf st" and ok: "life_allowed (LConnect tcp p a fd address connect) st"
  shows "\<exists>st'. life_step e (LConnect tcp p a fd address connect) st = Some st' \<and> net_wf st'"
proof -
  note wfl = wf [unfolded net_wf_def life_def]
  have a: "idle p st" "nt_hand st a = None" "0 \<le> fd" "fd \<notin> nt_open st"
    using ok by simp_all
  obtain b where b: "nt_proc st p = Some b" "bp_io b = None" "idle_status (bp_status b)"
    using net_wf_idle [OF wf a(1)] by blast
  then obtain st1 where s1: "set_ex p st = Some st1"
    "life st1 = (nt_open st, nt_epoll st, nt_hand st, (nt_proc st)(p \<mapsto> b\<lparr>bp_ex := True\<rparr>), nt_timeouts st)"
    using set_ex_life by blast
  have wf1: "life_ok (life st1)"
    unfolding s1(2) using b by (intro life_idle [OF wfl]) auto
  have pre: "nt_hand st1 a = None" "fd \<notin> nt_open st1" "nt_proc st1 p = Some (b\<lparr>bp_ex := True\<rparr>)"
    "bp_io (b\<lparr>bp_ex := True\<rparr>) = None" "bp_ex (b\<lparr>bp_ex := True\<rparr>)"
    "connector_type (if tcp then IOHT_TCP_CONNECTOR else IOHT_UNIX_CONNECTOR)"
    using s1(2) a b by (simp_all add: life_def connector_type_def)
  have c: "bp_with_me (b\<lparr>bp_ex := True\<rparr>) \<or> (tcp \<longrightarrow> address) \<and> (fst connect = 0 \<or> snd connect = EINPROGRESS)"
    using ok b by auto
  note s = start_connect_life [OF wf1 pre(1) a(3) pre(2,6,3,4,5) c]
  show ?thesis
    using s1(1) s by (cases tcp) (fastforce simp: TCPConnector_Connect_def UNIXConnector_Connect_def)+
qed

lemma LWithMe_wf:
  assumes wf: "net_wf st" and p: "nt_proc st p \<noteq> None"
  shows "\<exists>st'. SetWithMe p m st = Some st' \<and> net_wf st'"
proof -
  note wfl = wf [unfolded net_wf_def life_def]
  obtain b where b: "nt_proc st p = Some b"
    using p by auto
  show ?thesis
  proof (cases "bp_io b")
    case None
    have "life_ok (nt_open st, nt_epoll st, nt_hand st, (nt_proc st)(p \<mapsto> b\<lparr>bp_with_me := m\<rparr>), nt_timeouts st)"
      using None b life_ok_proc [OF wfl b] by (intro life_idle [OF wfl]) auto
    then show ?thesis
      using None b by (auto simp: SetWithMe_def net_wf_def life_simps)
  next
    case (Some a)
    then obtain h where h: "nt_hand st a = Some h"
      using life_ok_proc [OF wfl b] by auto
    then show ?thesis
      using SetWithMe_life [OF b Some h, of m] life_with_me [OF wfl b Some h, of m] by (auto simp: net_wf_def)
  qed
qed

lemma Free_connected_life:
  assumes b: "nt_proc st p = Some b" "bp_io b = Some a" "bp_ex b"
    and h: "nt_hand st a = Some h" "ih_process h = Some p" "carrier_type (ih_type h) \<or> connector_type (ih_type h)" "0 \<le> ih_fd h"
    and out: "connector_type (ih_type h) \<longrightarrow> p \<notin> nt_timeouts st"
  shows "\<exists>st'. Free_connected p st = Some st' \<and>
     life st' = (nt_open st - {ih_fd h}, (nt_epoll st)(ih_fd h := None), (nt_hand st)(a := None), (nt_proc st)(p := None),
       nt_timeouts st - {p})"
proof -
  obtain st1 where s1: "SetWithMe p True st = Some st1"
    "life st1 = (nt_open st, nt_epoll st, (nt_hand st)(a \<mapsto> h\<lparr>ih_flag := flag_of True\<rparr>), (nt_proc st)(p \<mapsto> b\<lparr>bp_with_me := True\<rparr>),
       nt_timeouts st)"
    using SetWithMe_life [OF b(1,2) h(1), of True] by blast
  have pre: "nt_hand st1 a = Some (h\<lparr>ih_flag := flag_of True\<rparr>)" "nt_proc st1 p = Some (b\<lparr>bp_with_me := True\<rparr>)"
    using s1(2) by (simp_all add: life_def)
  have "\<exists>st'. EnqueueForDelete a st1 = Some st' \<and>
     life st' = (nt_open st - {ih_fd h}, (nt_epoll st)(ih_fd h := None), (nt_hand st)(a := None), (nt_proc st)(p := None),
       nt_timeouts st - {p})"
  proof (cases "carrier_type (ih_type h)")
    case True
    then show ?thesis
      using EnqueueForDelete_carrier [of st1 a "h\<lparr>ih_flag := flag_of True\<rparr>" p True "b\<lparr>bp_with_me := True\<rparr>"] pre h b s1(2)
      by (auto simp: life_def)
  next
    case False
    then show ?thesis
      using EnqueueForDelete_connector [of st1 a "h\<lparr>ih_flag := flag_of True\<rparr>" p True] pre h b s1(2) out
      by (auto simp: life_def)
  qed
  then show ?thesis
    using s1(1) pre b(2) by (simp add: Free_connected_def)
qed

text \<open>Facts about a process with a handler in a well-formed state.\<close>

lemma net_wf_linked:
  assumes wf: "net_wf st" and p: "nt_proc st p = Some b" "bp_io b = Some a"
  obtains h where "nt_hand st a = Some h" "ih_process h = Some p" "linked_to a h b" "0 \<le> ih_fd h" "ih_fd h \<in> nt_open st"
    "carrier_type (ih_type h) \<or> connector_type (ih_type h)" "connector_type (ih_type h) \<longrightarrow> p \<notin> nt_timeouts st"
proof -
  note wfl = wf [unfolded net_wf_def life_def]
  obtain h where h: "nt_hand st a = Some h" "ih_process h = Some p"
    using life_ok_proc [OF wfl p(1)] p(2) by auto
  have l: "linked_to a h b" "0 \<le> ih_fd h" "ih_fd h \<in> nt_open st"
    using life_ok_hand [OF wfl h(1)] h(2) p(1) by (metis option.inject)+
  have "connector_type (ih_type h) \<longrightarrow> p \<notin> nt_timeouts st"
    using life_ok_timeouts [OF wfl, of p] p h(1) by (auto simp: carrier_type_def connector_type_def)
  then show thesis
    using that [OF h l] l(1) by (auto simp: linked_to_def)
qed

lemma net_wf_connector:
  assumes wf: "net_wf st" and h: "nt_hand st a = Some h" "connector_type (ih_type h)" "ih_process h = Some p"
  shows "p \<notin> nt_timeouts st"
proof -
  obtain b where "nt_proc st p = Some b" "bp_io b = Some a"
    using life_ok_hand [OF wf [unfolded net_wf_def life_def] h(1)] h(3) unfolding linked_to_def by (metis option.inject)
  from net_wf_linked [OF wf this] h(1,2) show ?thesis
    by (metis option.inject)
qed

lemma Free_linked_life:
  assumes wf: "net_wf st" and b: "nt_proc st p = Some b" "bp_io b = Some a" and h: "nt_hand st a = Some h"
  shows "\<exists>st'. Free p st = Some st' \<and> net_wf st' \<and>
     life st' = (nt_open st - {ih_fd h}, (nt_epoll st)(ih_fd h := None), (nt_hand st)(a := None), (nt_proc st)(p := None),
       nt_timeouts st - {p})"
proof -
  have h': "ih_process h = Some p" "linked_to a h b" "0 \<le> ih_fd h" "ih_fd h \<in> nt_open st"
    "carrier_type (ih_type h) \<or> connector_type (ih_type h)" "connector_type (ih_type h) \<longrightarrow> p \<notin> nt_timeouts st"
    using net_wf_linked [OF wf b] h by (metis option.inject)+
  let ?b = "b\<lparr>bp_status := PROCESS_NET_STATUS_DISCONNECT\<rparr>"
  let ?st = "st\<lparr>nt_proc := (nt_proc st)(p \<mapsto> ?b)\<rparr>"
  obtain st' where s: "Free_connected p ?st = Some st'"
    "life st' = (nt_open st - {ih_fd h}, (nt_epoll st)(ih_fd h := None), (nt_hand st)(a := None), (nt_proc st)(p := None),
       nt_timeouts st - {p})"
    using Free_connected_life [of ?st p ?b a h] b h h' by (auto simp: linked_to_def)
  have "bp_status b = PROCESS_NET_STATUS_CONNECTED \<or> bp_status b = PROCESS_NET_STATUS_CONNECTING"
    using h'(2) by (auto simp: linked_to_def)
  then have "Free p st = Some st'"
    using b s(1) by (auto simp: Free_def set_proc_def heap_put_Some heap_mod_def)
  moreover have "net_wf st'"
    unfolding net_wf_def s(2) by (rule life_remove [OF wf [unfolded net_wf_def life_def] h h'(1) refl]) simp
  ultimately show ?thesis
    using s(2) by blast
qed

lemma LFree_wf:
  assumes wf: "net_wf st" and p: "nt_proc st p \<noteq> None"
  shows "\<exists>st'. Free p st = Some st' \<and> net_wf st'"
proof -
  note wfl = wf [unfolded net_wf_def life_def]
  obtain b where b: "nt_proc st p = Some b"
    using p by auto
  show ?thesis
  proof (cases "bp_io b")
    case None
    then have "idle_status (bp_status b)"
      using life_ok_proc [OF wfl b] by simp
    then have "Free p st = Some (st\<lparr>nt_proc := (nt_proc st)(p := None)\<rparr>)"
      using b by (cases "bp_status b") (simp_all add: Free_def delete_process_def idle_status_def)
    moreover have "life_ok (nt_open st, nt_epoll st, nt_hand st, (nt_proc st)(p := None), nt_timeouts st)"
      using None b by (intro life_idle [OF wfl]) auto
    ultimately show ?thesis
      by (simp add: net_wf_def life_def)
  next
    case (Some a)
    then obtain h where "nt_hand st a = Some h"
      using net_wf_linked [OF wf b] by metis
    then show ?thesis
      using Free_linked_life [OF wf b Some] by blast
  qed
qed

lemma LExpire_wf:
  assumes "net_wf st" "distinct ps" "set ps \<subseteq> nt_timeouts st"
  shows "\<exists>st'. expire_processes ps st = Some st' \<and> net_wf st'"
  using assms
proof (induction ps arbitrary: st)
  case (Cons p ps)
  note wfl = Cons.prems(1) [unfolded net_wf_def life_def]
  obtain b a where b: "nt_proc st p = Some b" "bp_io b = Some a"
    using life_ok_timeouts [OF wfl, of p] Cons.prems(3) by auto
  obtain h where h: "nt_hand st a = Some h" "ih_process h = Some p" "linked_to a h b" "0 \<le> ih_fd h" "ih_fd h \<in> nt_open st"
    "carrier_type (ih_type h) \<or> connector_type (ih_type h)"
    using net_wf_linked [OF Cons.prems(1) b] by metis
  let ?st = "st\<lparr>nt_timeouts := nt_timeouts st - {p}\<rparr>"
  obtain e st1 where s1: "SetNetStatus p PROCESS_NET_STATUS_TIMEOUT ?st = Some st1"
    "life st1 = (nt_open st, nt_epoll st, nt_hand st, (nt_proc st)(p \<mapsto> b\<lparr>bp_status := PROCESS_NET_STATUS_TIMEOUT, bp_errno := e\<rparr>),
       nt_timeouts st - {p})"
    using SetNetStatus_life [of ?st p b] b by fastforce
  let ?b = "b\<lparr>bp_status := PROCESS_NET_STATUS_TIMEOUT, bp_errno := e\<rparr>"
  have l1: "nt_proc st1 p = Some ?b" "nt_hand st1 a = Some h"
    using s1(2) h(1) by (simp_all add: life_def)
  obtain st2 where s2: "Free_connected p st1 = Some st2"
    "life st2 = (nt_open st - {ih_fd h}, (nt_epoll st)(ih_fd h := None), (nt_hand st)(a := None), (nt_proc st)(p := None),
       nt_timeouts st - {p})"
    using Free_connected_life [of st1 p ?b a h] b h l1 s1(2) by (auto simp: linked_to_def life_def)
  have "net_wf st2"
    unfolding net_wf_def s2(2) by (rule life_remove [OF wfl h(1,2) refl]) simp
  moreover have "set ps \<subseteq> nt_timeouts st2"
    using Cons.prems s2(2) by (auto simp: life_def)
  moreover have "Free p st1 = Some st2"
    using l1 s2(1) by (simp add: Free_def)
  ultimately show ?case
    using Cons.IH [of st2] Cons.prems(2) s1(1) by (simp add: DoTimeout_def)
qed simp

lemma hang_up_carrier:
  assumes h: "nt_hand st a = Some h" "ih_process h = Some p" and b: "nt_proc st p = Some b" "bp_status b = PROCESS_NET_STATUS_CONNECTED"
    and ev: "ev_err ev \<or> ev_hup ev"
  shows "\<exists>e s st'. idle_status s \<and> TCPCarrier_OnEvent c a ev st = Some (False, st') \<and> UNIXCarrier_OnEvent c a ev st = Some (False, st') \<and>
     nt_manager st' = nt_manager st \<and> life st' = (nt_open st, nt_epoll st, nt_hand st, (nt_proc st)(p \<mapsto> b\<lparr>bp_status := s, bp_errno := e\<rparr>), nt_timeouts st)"
proof -
  define s where "s = (if ev_err ev \<and> \<not> ev_in ev then PROCESS_NET_STATUS_SYS_ERROR else PROCESS_NET_STATUS_PEER_RESET)"
  obtain e st1 where s1: "SetNetStatus p s st = Some st1"
    "life st1 = (nt_open st, nt_epoll st, nt_hand st, (nt_proc st)(p \<mapsto> b\<lparr>bp_status := s, bp_errno := e\<rparr>), nt_timeouts st)"
    using SetNetStatus_life [OF b(1)] by blast
  have "carrier_ready a st = Some True"
    using h b by (simp add: carrier_ready_def)
  moreover have "stream_errors a ev st = Some (False, st1)"
    using ev s1(1) h by (auto simp: stream_errors_def give_up_def process_of_def s_def split: if_splits)
  ultimately have "TCPCarrier_OnEvent c a ev st = Some (False, st1)" "UNIXCarrier_OnEvent c a ev st = Some (False, st1)"
    by (simp_all add: TCPCarrier_OnEvent_def UNIXCarrier_OnEvent_def)
  moreover have "idle_status s"
    by (simp add: s_def idle_status_def)
  ultimately show ?thesis
    using s1(2) put_manager(4) [OF s1(1)] by blast
qed

lemma hang_up_wf:
  assumes wf: "net_wf st" and h: "nt_hand st a = Some h" "carrier_type (ih_type h)" and ev: "ev_err ev \<or> ev_hup ev"
  shows "\<exists>st'. life_event e a ev fresh st = Some st' \<and> net_wf st' \<and> nt_manager st' = nt_manager st"
proof -
  note wfl = wf [unfolded net_wf_def life_def]
  obtain p b w where b: "0 \<le> ih_fd h" "ih_process h = Some p" "nt_proc st p = Some b" "linked_to a h b"
    using life_ok_hand [OF wfl h(1)] by metis
  then have st: "bp_status b = PROCESS_NET_STATUS_CONNECTED" "bp_ex b" "ih_flag h = flag_of (bp_with_me b)"
    using h(2) by (auto simp: linked_to_def carrier_type_def connector_type_def)
  obtain en s st1 where s1: "idle_status s" "TCPCarrier_OnEvent (le_stream e) a ev st = Some (False, st1)"
    "UNIXCarrier_OnEvent (le_stream e) a ev st = Some (False, st1)" "nt_manager st1 = nt_manager st"
    "life st1 = (nt_open st, nt_epoll st, nt_hand st, (nt_proc st)(p \<mapsto> b\<lparr>bp_status := s, bp_errno := en\<rparr>), nt_timeouts st)"
    using hang_up_carrier [OF h(1) b(2,3) st(1) ev] by blast
  have l1: "nt_hand st1 a = Some h" "nt_proc st1 p = Some (b\<lparr>bp_status := s, bp_errno := en\<rparr>)"
    "bp_ex (b\<lparr>bp_status := s, bp_errno := en\<rparr>)"
    using s1(5) h(1) st(2) by (simp_all add: life_def)
  from EnqueueForDelete_carrier [OF l1(1) h(2) b(2) st(3) l1(2,3) b(1)] obtain st2 where s2: "EnqueueForDelete a st1 = Some st2"
    "life st2 = (nt_open st - {ih_fd h}, (nt_epoll st)(ih_fd h := None), (nt_hand st)(a := None),
       (nt_proc st)(p := if bp_with_me b then None else Some (b\<lparr>bp_status := s, bp_errno := en, bp_io := None\<rparr>)), nt_timeouts st - {p})"
    using s1(5) by (auto simp: life_def)
  have "net_wf st2"
    unfolding net_wf_def s2(2) by (rule life_remove [OF wfl h(1) b(2) refl]) (use s1(1) in \<open>auto split: if_splits\<close>)
  moreover have "life_event e a ev fresh st = Some st2"
    using h s1(2,3) s2(1) by (auto simp: life_event_def carrier_type_def)
  ultimately show ?thesis
    using EnqueueForDelete_manager [OF s2(1)] s1(4) by auto
qed

lemma connector_fails:
  assumes wf: "net_wf st" and h: "nt_hand st a = Some h" "connector_type (ih_type h)" and ev: "ev_err ev"
  shows "\<exists>st1 st'. connector_OnEvent carrier fresh a ev st = Some (False, st1) \<and> EnqueueForDelete a st1 = Some st' \<and> net_wf st'"
proof -
  note wfl = wf [unfolded net_wf_def life_def]
  obtain p b w where b: "0 \<le> ih_fd h" "ih_process h = Some p" "nt_proc st p = Some b" "linked_to a h b"
    using life_ok_hand [OF wfl h(1)] by metis
  then have st: "ih_flag h = flag_of (bp_with_me b)" "p \<notin> nt_timeouts st"
    using h net_wf_connector [OF wf h b(2)] by (auto simp: linked_to_def)
  obtain en st1 where s1: "SetNetStatus p PROCESS_NET_STATUS_SYS_ERROR st = Some st1"
    "life st1 = (nt_open st, nt_epoll st, nt_hand st,
       (nt_proc st)(p \<mapsto> b\<lparr>bp_status := PROCESS_NET_STATUS_SYS_ERROR, bp_errno := en\<rparr>), nt_timeouts st)"
    using SetNetStatus_life [OF b(3)] by blast
  let ?b = "b\<lparr>bp_status := PROCESS_NET_STATUS_SYS_ERROR, bp_errno := en, bp_io := None\<rparr>"
  obtain st2 where s2: "SetIOHandler p None st1 = Some st2"
    "life st2 = (nt_open st, nt_epoll st, nt_hand st, (nt_proc st)(p \<mapsto> ?b), nt_timeouts st)"
    using s1(2) by (auto simp: SetIOHandler_def life_simps)
  have l2: "nt_hand st2 a = Some h" "nt_proc st2 p \<noteq> None"
    using s2(2) h(1) by (simp_all add: life_def)
  from EnqueueForDelete_connector [OF l2(1) h(2) b(2) st(1) l2(2) b(1)] obtain st3 where s3: "EnqueueForDelete a st2 = Some st3"
    "life st3 = (nt_open st - {ih_fd h}, (nt_epoll st)(ih_fd h := None), (nt_hand st)(a := None),
       (nt_proc st)(p := if bp_with_me b then None else Some ?b), nt_timeouts st)"
    using s2(2) by (auto simp: life_def)
  have "life_ok (nt_open st - {ih_fd h}, (nt_epoll st)(ih_fd h := None), (nt_hand st)(a := None),
      (nt_proc st)(p := if bp_with_me b then None else Some ?b), nt_timeouts st - {p})"
    by (rule life_remove [OF wfl h(1) b(2) refl]) (auto simp: idle_status_def split: if_splits)
  then have "net_wf st3"
    using s3(2) st(2) by (simp add: net_wf_def)
  moreover have "connector_OnEvent carrier fresh a ev st = Some (False, st2)"
    using h(1) b(2) ev s1(1) s2(1) by (simp add: connector_OnEvent_def)
  ultimately show ?thesis
    using s3(1) by blast
qed

lemma connector_connects:
  assumes wf: "net_wf st" and manager: "nt_manager st" and h: "nt_hand st a = Some h" "connector_type (ih_type h)" and ev: "\<not> ev_err ev"
    and fresh: "nt_hand st fresh = None" and t: "carrier_type type"
  shows "\<exists>st'. connector_OnEvent (\<lambda>a fd process. new_carrier a fd type process peer []) fresh a ev st = Some (True, st') \<and> net_wf st'"
proof -
  note wfl = wf [unfolded net_wf_def life_def]
  obtain p b w where b: "0 \<le> ih_fd h" "ih_fd h \<in> nt_open st" "nt_epoll st (ih_fd h) = Some (a, w)" "ih_process h = Some p"
    "nt_proc st p = Some b" "linked_to a h b"
    using life_ok_hand [OF wfl h(1)] .
  then have st: "bp_status b = PROCESS_NET_STATUS_CONNECTING" "bp_ex b" "p \<notin> nt_timeouts st"
    using h net_wf_connector [OF wf h b(4)] by (auto simp: linked_to_def carrier_type_def connector_type_def)
  obtain st1 where s1: "DisableWriteData a True st = Some (True, st1)"
    "life st1 = (nt_open st, (nt_epoll st)(ih_fd h \<mapsto> (a, False)), nt_hand st, nt_proc st, nt_timeouts st)"
    using DisableWriteData_life [OF h(1) refl b(2,3)] by blast
  have h1: "nt_hand st1 a = Some h" "ih_fd h \<in> nt_open st1"
    using s1(2) h(1) b(2) by (simp_all add: life_def)
  obtain ok st2 ep where s2: "DisableReadData a True st1 = Some (ok, st2)" "ep(ih_fd h := None) = (nt_epoll st1)(ih_fd h := None)"
    "life st2 = (nt_open st1, ep, nt_hand st1, nt_proc st1, nt_timeouts st1)" "ep (ih_fd h) = None"
    using DisableReadData_life [OF h1(1)] h1(2) by blast
  have ep: "ep = (nt_epoll st)(ih_fd h := None)"
  proof -
    have "ep(ih_fd h := None) = ep"
      using s2(4) by (rule fun_upd_idem)
    then show ?thesis
      using s2(2) s1(2) by (simp add: life_def)
  qed
  then have l2: "life st2 = (nt_open st, (nt_epoll st)(ih_fd h := None), nt_hand st, nt_proc st, nt_timeouts st)"
    using s1(2) s2(3) by (simp add: life_def)
  have pre: "nt_hand st2 fresh = None" "nt_proc st2 p = Some b" "ih_fd h \<in> nt_open st2" "nt_epoll st2 (ih_fd h) = None"
    using l2 fresh b by (simp_all add: life_def)
  obtain h' b' st3 where s3: "new_carrier fresh (ih_fd h) type (Some p) peer [] st2 = Some st3"
    "ih_process h' = Some p" "ih_fd h' = ih_fd h" "carrier_type (ih_type h')" "linked_to fresh h' b'"
    "life st3 = (nt_open st2, (nt_epoll st2)(ih_fd h \<mapsto> (fresh, False)), (nt_hand st2)(fresh \<mapsto> h'), (nt_proc st2)(p \<mapsto> b'),
       insert p (nt_timeouts st2))"
    using new_carrier_life [OF pre st(2) t, of peer "[]"] epoll_manager(1) [OF s2(1)] epoll_manager(2) [OF s1(1)] manager by auto
  have fa: "fresh \<noteq> a"
    using fresh h(1) by auto
  let ?h = "h\<lparr>ih_flag := IOHT_FLAG_CLOSE_NONE\<rparr>"
  have h3: "nt_hand st3 a = Some h"
    using s3(6) l2 fa h(1) by (simp add: life_def)
  then obtain st4 where s4: "SetFlag a IOHT_FLAG_CLOSE_NONE st3 = Some st4"
    "life st4 = (nt_open st3, nt_epoll st3, (nt_hand st3)(a \<mapsto> ?h), nt_proc st3, nt_timeouts st3)"
    by (auto simp: SetFlag_def life_simps)
  have h4: "nt_hand st4 a = Some ?h"
    using s4(2) by (simp add: life_def)
  have del: "delete_handler a st4 = Some (st4\<lparr>nt_hand := (nt_hand st4)(a := None)\<rparr>)" (is "_ = Some ?st5")
    using h4 h(2) b(4) by (auto simp: delete_handler_def connector_type_def IOHandler_dtor_def)
  have "(nt_hand st4)(a := None) = (nt_hand st)(a := None, fresh \<mapsto> h')"
    using s4(2) s3(6) l2 fa by (auto simp: life_def fun_upd_twist)
  then have "life ?st5 = (nt_open st, (nt_epoll st)(ih_fd h \<mapsto> (fresh, False)), (nt_hand st)(a := None, fresh \<mapsto> h'),
      (nt_proc st)(p \<mapsto> b'), insert p (nt_timeouts st))"
    using s4(2) s3(6) l2 by (simp add: life_def)
  then have "net_wf ?st5"
    using life_swap [OF wfl h(1) b(4) refl fresh s3(2,3,5) _ s3(4) st(3)] by (simp add: net_wf_def)
  moreover have "connector_OnEvent (\<lambda>a fd process. new_carrier a fd type process peer []) fresh a ev st = Some (True, ?st5)"
    using h(1) b(4) ev s1(1) s2(1) pre(2) st(1) s3(1) s4(1) del by (simp add: connector_OnEvent_def)
  ultimately show ?thesis
    by blast
qed

lemma life_event_connector:
  "nt_hand st a = Some h \<Longrightarrow> connector_type (ih_type h) \<Longrightarrow> life_event e a ev fresh st = Some st' \<Longrightarrow> nt_manager st' = nt_manager st"
  by (auto simp: life_event_def connector_type_def TCPConnector_OnEvent_def UNIXConnector_OnEvent_def new_TCPCarrier_def
      new_UNIXCarrier_def dest!: EnqueueForDelete_manager connector_OnEvent_manager [rotated] new_handler_manager(1)
      split: bind_splits if_splits)

lemma LEvent_wf:
  assumes wf: "net_wf st" and manager: "nt_manager st" and ok: "life_allowed (LEvent a ev fresh) st"
  shows "\<exists>st'. life_event e a ev fresh st = Some st' \<and> net_wf st' \<and> nt_manager st'"
proof -
  obtain h where h: "nt_hand st a = Some h" "carrier_type (ih_type h) \<longrightarrow> ev_err ev \<or> ev_hup ev" "nt_hand st fresh = None"
    using ok by (auto split: option.splits)
  obtain p b w where "linked_to a h b"
    using life_ok_hand [OF wf [unfolded net_wf_def life_def] h(1)] by metis
  then consider "carrier_type (ih_type h)" | "connector_type (ih_type h)" "ev_err ev" | "connector_type (ih_type h)" "\<not> ev_err ev"
    by (auto simp: linked_to_def)
  then show ?thesis
  proof cases
    case 1
    then show ?thesis
      using hang_up_wf [OF wf h(1) 1] h(2) manager by auto
  next
    case 2
    have "\<exists>st'. life_event e a ev fresh st = Some st' \<and> net_wf st'"
      using connector_fails [OF wf h(1) 2, of "\<lambda>a fd process. new_TCPCarrier a fd process (le_peer e)" fresh]
        connector_fails [OF wf h(1) 2, of new_UNIXCarrier fresh] 2(1) h(1)
      by (auto simp: life_event_def connector_type_def TCPConnector_OnEvent_def UNIXConnector_OnEvent_def)
    then show ?thesis
      using life_event_connector [OF h(1) 2(1)] manager by blast
  next
    case 3
    have "new_UNIXCarrier = (\<lambda>a fd process. new_carrier a fd IOHT_UNIX_CARRIER process [] [])"
      "(\<lambda>a fd process. new_TCPCarrier a fd process (le_peer e)) =
        (\<lambda>a fd process. new_carrier a fd IOHT_TCP_CARRIER process (le_peer e) [])"
      by (simp_all add: fun_eq_iff new_UNIXCarrier_def new_TCPCarrier_def)
    then have "\<exists>st'. life_event e a ev fresh st = Some st' \<and> net_wf st'"
      using connector_connects [OF wf manager h(1) 3 h(3), of IOHT_TCP_CARRIER "le_peer e"]
        connector_connects [OF wf manager h(1) 3 h(3), of IOHT_UNIX_CARRIER "[]"] 3(1) h(1)
      by (auto simp: life_event_def connector_type_def carrier_type_def TCPConnector_OnEvent_def UNIXConnector_OnEvent_def)
    then show ?thesis
      using life_event_connector [OF h(1) 3(1)] manager by blast
  qed
qed

lemma life_step_manager:
  "life_step e op st = Some st' \<Longrightarrow> \<forall>a ev fresh. op \<noteq> LEvent a ev fresh \<Longrightarrow> nt_manager st' = nt_manager st"
  by (cases op) (auto simp: TCPAcceptCmd_Process_def UNIXAcceptCmd_Process_def accept_env_def new_TCPCarrier_def new_UNIXCarrier_def
      TCPConnector_Connect_def UNIXConnector_Connect_def dest!: manager split: bind_splits if_splits)

text \<open>
  The life cycle of connected processes is safe: in a well-formed state, where processes and handlers point to each
  other, the kernel's interest list holds exactly live handlers with their open descriptors and only connected processes can time
  out, and the manager of the time-outs has not been deleted, every operation that may be called is defined, following no null pointer
  and no pointer to anything that has been deleted, and leads to such a state.
\<close>
theorem life_safe:
  assumes "net_wf st" and "nt_manager st" and "life_allowed op st"
  shows "\<exists>st'. life_step e op st = Some st' \<and> net_wf st' \<and> nt_manager st'"
proof (cases op)
  case (LEvent a ev fresh)
  then show ?thesis
    using assms LEvent_wf by simp
next
  case (LAccept tcp p a fd)
  then show ?thesis
    using LAccept_wf [OF assms(1,2), of tcp p a fd e] life_step_manager [of e op st] assms by fastforce
next
  case (LConnect tcp p a fd address connect)
  then show ?thesis
    using LConnect_wf [OF assms(1), of tcp p a fd address connect e] life_step_manager [of e op st] assms by fastforce
next
  case (LNew p recv send)
  then show ?thesis
    using LNew_wf [OF assms(1), of p recv e send] life_step_manager [of e op st] assms by fastforce
next
  case (LWithMe p m)
  then show ?thesis
    using LWithMe_wf [OF assms(1), of p m] life_step_manager [of e op st] assms by fastforce
next
  case (LFree p)
  then show ?thesis
    using LFree_wf [OF assms(1), of p] life_step_manager [of e op st] assms by fastforce
next
  case (LExpire ps)
  then show ?thesis
    using LExpire_wf [OF assms(1), of ps] life_step_manager [of e op st] assms by fastforce
qed

definition life_demo_env :: life_env where
  "life_demo_env = \<lparr>le_kernel = (\<lambda>_ _. 0), le_stream = \<lparr>sc_read = (\<lambda>_. \<lparr>sr_data = None, sr_errno = EAGAIN\<rparr>),
     sc_write = (\<lambda>_. \<lparr>sw_sent = -1, sw_errno = EAGAIN\<rparr>), sc_process = (\<lambda>_ _ st. Some (True, st)), sc_close = (\<lambda>_ _. False)\<rparr>,
     le_peer = []\<rparr>"

lemma net_wf_demo: "net_wf (demo_net [])"
  by (auto simp: net_wf_def life_def demo_net_def life_ok_def hand_ok_def proc_ok_def linked_to_def carrier_type_def flag_of_def
      split: if_splits)

lemma life_safe_witness:
  "\<exists>st'. life_step life_demo_env (LEvent 11 \<lparr>ev_in = True, ev_out = False, ev_err = False, ev_hup = True\<rparr> 12) (demo_net []) = Some st' \<and>
     net_wf st' \<and> nt_manager st'"
  by (rule life_safe [OF net_wf_demo]) (simp_all add: demo_net_def)

text \<open>
  The one operation that breaks this: when a process that outlives its handlers, as every HTTP client does, makes a
  connection that fails at once, it keeps a pointer to the connector that has just been deleted. The next \<open>SetWithMe\<close> follows
  it, and so does the next \<open>Connect\<close> of the HTTP client, whatever the url.
\<close>
theorem failed_connect_dangles:
  assumes wf: "net_wf st" and a: "nt_hand st a = None" "fd \<notin> nt_open st" "0 \<le> fd"
    and p: "nt_proc st p = Some b" "bp_io b = None" "\<not> bp_with_me b" and opt: "fst (setFdOptions (le_kernel e) True [])"
    and c: "fst connect \<noteq> 0" "snd connect \<noteq> EINPROGRESS"
  shows "\<exists>st'. life_step e (LConnect True p a fd True connect) st = Some st' \<and> SetWithMe p m st' = None \<and>
     HttpClient_Connect calls url p cl (w\<lparr>nw_net := st'\<rparr>) = None"
proof -
  note wfl = wf [unfolded net_wf_def life_def]
  obtain st1 where s1: "set_ex p st = Some st1"
    "life st1 = (nt_open st, nt_epoll st, nt_hand st, (nt_proc st)(p \<mapsto> b\<lparr>bp_ex := True\<rparr>), nt_timeouts st)"
    using set_ex_life [OF p(1)] by blast
  have wf1: "life_ok (life st1)"
    unfolding s1(2) using p life_ok_proc [OF wfl p(1)] by (intro life_idle [OF wfl]) auto
  have pre: "nt_hand st1 a = None" "fd \<notin> nt_open st1" "nt_proc st1 p = Some (b\<lparr>bp_ex := True\<rparr>)" "bp_ex (b\<lparr>bp_ex := True\<rparr>)"
    "\<not> (True \<and> (fst connect = 0 \<or> snd connect = EINPROGRESS))" "connector_type IOHT_TCP_CONNECTOR"
    using s1(2) a c by (simp_all add: life_def connector_type_def)
  obtain st' b' where s: "start_connect IOHT_TCP_CONNECTOR True (le_kernel e) (Some fd) True connect a p st1 = Some (False, st')"
    "bp_io b' = Some a" "bp_status b' = PROCESS_NET_STATUS_SYS_ERROR"
    "life st' = (nt_open st1, nt_epoll st1, nt_hand st1, (nt_proc st1)(p \<mapsto> b'), nt_timeouts st1)"
    using start_connect_fails [OF wf1 pre(1,2) a(3) pre(6,3,4) opt pre(5)] p(3) by auto
  then have l: "nt_proc st' p = Some b'" "nt_hand st' a = None"
    using pre(1) by (simp_all add: life_def)
  have "SetWithMe p m st' = None" for m
    using l s(2) by (simp add: SetWithMe_def SetFlag_def set_proc_def set_hand_def heap_put_Some heap_put_def heap_mod_def)
  moreover from this have "HttpClient_Connect calls url p cl (w\<lparr>nw_net := st'\<rparr>) = None"
    using l s(3) by (simp add: HttpClient_Connect_def GetNetStatus_def)
  ultimately show ?thesis
    using s1(1) s(1) by (simp add: TCPConnector_Connect_def)
qed

lemma failed_connect_dangles_witness:
  "\<exists>st'. life_step life_demo_env (LConnect True 22 12 7 True (-1, 101))
       ((demo_net [])\<lparr>nt_proc := (nt_proc (demo_net []))(22 \<mapsto> demo_proc\<lparr>bp_with_me := False\<rparr>)\<rparr>) = Some st' \<and>
     SetWithMe 22 False st' = None \<and>
     HttpClient_Connect hc_demo_calls ''http://web/abc'' 22 hc_new (demo_worker\<lparr>nw_net := st'\<rparr>) = None"
proof (rule failed_connect_dangles [where b = "demo_proc\<lparr>bp_with_me := False\<rparr>"])
  have "life_ok (nt_open (demo_net []), nt_epoll (demo_net []), nt_hand (demo_net []),
      (nt_proc (demo_net []))(22 \<mapsto> demo_proc\<lparr>bp_with_me := False\<rparr>), nt_timeouts (demo_net []))"
    using net_wf_demo unfolding net_wf_def life_def
    by (rule life_idle) (simp_all add: demo_net_def demo_proc_def idle_status_def)
  then show "net_wf ((demo_net [])\<lparr>nt_proc := (nt_proc (demo_net []))(22 \<mapsto> demo_proc\<lparr>bp_with_me := False\<rparr>)\<rparr>)"
    by (simp add: net_wf_def life_def)
  show "fst (setFdOptions (le_kernel life_demo_env) True [])"
    by (simp add: life_demo_env_def setFdOptions_def setFdNonBlock_def setFdNoSIGPIPE_def setFdKeepAlive_def setFdNoNagle_def
        setFdReuseAddress_def fd_call_def)
qed (simp_all add: demo_net_def demo_proc_def EINPROGRESS_def)

section \<open>The closing of a worker\<close>

text \<open>The handlers of a set of processes.\<close>

definition handlers_of :: "net \<Rightarrow> nat set \<Rightarrow> nat set" where
  "handlers_of st P = {a. \<exists>h p. nt_hand st a = Some h \<and> ih_process h = Some p \<and> p \<in> P}"

definition fds_of :: "net \<Rightarrow> nat set \<Rightarrow> int set" where
  "fds_of st P = {ih_fd h |a h p. nt_hand st a = Some h \<and> ih_process h = Some p \<and> p \<in> P}"

definition freed :: "nat set \<Rightarrow> net \<Rightarrow> net \<Rightarrow> bool" where
  "freed P st st' \<longleftrightarrow> nt_timeouts st' = nt_timeouts st - P \<and> nt_proc st' = nt_proc st |` (- P) \<and>
     nt_hand st' = nt_hand st |` (- handlers_of st P) \<and> nt_open st' = nt_open st - fds_of st P"

lemma freed_nothing: "freed {} st st"
  by (simp add: freed_def handlers_of_def fds_of_def restrict_map_def)

lemma freed_trans:
  assumes "freed P st st1" and "freed Q st1 st2"
  shows "freed (P \<union> Q) st st2"
proof -
  note 1 = assms(1) [unfolded freed_def] and 2 = assms(2) [unfolded freed_def]
  have H: "handlers_of st (P \<union> Q) = handlers_of st P \<union> handlers_of st1 Q"
    using 1 by (auto simp: handlers_of_def restrict_map_def)
  have F: "fds_of st (P \<union> Q) = fds_of st P \<union> fds_of st1 Q"
    using 1 unfolding fds_of_def handlers_of_def by (fastforce simp: restrict_map_def split: if_splits)
  show ?thesis
    unfolding freed_def using 1 2 by (auto simp: H F Diff_eq Int_ac)
qed

lemma freed_one:
  assumes wf: "net_wf st" and b: "nt_proc st p = Some b" "bp_io b = Some a" and h: "nt_hand st a = Some h"
    and st': "life st' = (nt_open st - {ih_fd h}, (nt_epoll st)(ih_fd h := None), (nt_hand st)(a := None), (nt_proc st)(p := None),
       nt_timeouts st - {p})"
  shows "freed {p} st st'"
proof -
  have hp: "ih_process h = Some p"
    using net_wf_linked [OF wf b] h by (metis option.inject)
  have only: "nt_hand st a' = Some h' \<and> ih_process h' = Some p \<longleftrightarrow> a' = a \<and> h' = h" for a' h'
    using life_ok_distinct [OF wf [unfolded net_wf_def life_def] _ h, of a' h'] h hp by auto
  have "handlers_of st {p} = {a}" "fds_of st {p} = {ih_fd h}"
    by (simp_all add: handlers_of_def fds_of_def only)
  then show ?thesis
    using st' by (simp add: freed_def life_def restrict_complement_singleton_eq)
qed

lemma free_all_wf:
  assumes "net_wf st" "distinct ps" "set ps \<subseteq> nt_timeouts st"
  shows "\<exists>st'. free_all ps st = Some st' \<and> net_wf st' \<and> freed (set ps) st st'"
  using assms
proof (induction ps arbitrary: st)
  case Nil
  then show ?case
    using freed_nothing by simp
next
  case (Cons p ps)
  obtain b a where b: "nt_proc st p = Some b" "bp_io b = Some a"
    using life_ok_timeouts [OF Cons.prems(1) [unfolded net_wf_def life_def], of p] Cons.prems(3) by auto
  obtain h where h: "nt_hand st a = Some h"
    using net_wf_linked [OF Cons.prems(1) b] by metis
  obtain st1 where s1: "Free p st = Some st1" "net_wf st1" "freed {p} st st1"
    using Free_linked_life [OF Cons.prems(1) b h] freed_one [OF Cons.prems(1) b h] by metis
  then have "set ps \<subseteq> nt_timeouts st1"
    using Cons.prems(2,3) by (auto simp: freed_def)
  then obtain st2 where "free_all ps st1 = Some st2" "net_wf st2" "freed (set ps) st1 st2"
    using Cons.IH [OF s1(2)] Cons.prems(2) by auto
  then show ?case
    using s1(1) freed_trans [OF s1(3)] by fastforce
qed

text \<open>
  C15: Closing a worker closes its connections. When the worker has been told to quit and its state is well-formed after what the
  application itself does at the closing, the closing turn of the loop is defined; every process in the
  time-out list has gone with its handler, the descriptors of these handlers are closed, every other process, handler
  and descriptor is as before, and the state is well-formed.
\<close>
theorem closing_frees_connections:
  assumes "nw_status w = WORKER_STATUS_CLOSE" and "ee_close x (nw_net w) = Some st1" and "ee_timers x st1 = Some st"
    and "net_wf st" and "nt_manager st" and "distinct (ee_attached x st)" and "set (ee_attached x st) = nt_timeouts st"
  shows "\<exists>w'. loop_body x w = Some ([ExClose], True, w') \<and> nw_status w' = WORKER_STATUS_CLEAR \<and> net_wf (nw_net w') \<and>
     nt_proc (nw_net w') = nt_proc st |` (- nt_timeouts st) \<and>
     nt_hand (nw_net w') = nt_hand st |` (- handlers_of st (nt_timeouts st)) \<and>
     nt_open (nw_net w') = nt_open st - fds_of st (nt_timeouts st)"
proof -
  obtain st' where s: "free_all (ee_attached x st) st = Some st'" "net_wf st'" "freed (nt_timeouts st) st st'"
    using free_all_wf [OF assms(4,6)] assms(7) by auto
  let ?st = "st'\<lparr>nt_timeouts := {}, nt_manager := False\<rparr>"
  have "nt_timeouts st' = {}"
    using s(3) by (simp add: freed_def)
  then have "net_wf ?st"
    using s(2) by (simp add: net_wf_def life_def)
  moreover have "loop_body x w = Some ([ExClose], True, w\<lparr>nw_net := ?st, nw_status := WORKER_STATUS_CLEAR\<rparr>)"
    using assms(1-3,5) s(1) by (simp add: loop_body_def close_timers_def)
  ultimately show ?thesis
    using s(3) by (simp add: freed_def)
qed

definition demo_closing :: ex_env where
  "demo_closing = demo_ex\<lparr>ee_attached := (\<lambda>_. [21])\<rparr>"

lemma closing_frees_connections_witness:
  "\<exists>w'. loop_body demo_closing (demo_worker\<lparr>nw_status := WORKER_STATUS_CLOSE, nw_net := demo_net []\<rparr>) = Some ([ExClose], True, w') \<and>
     nw_status w' = WORKER_STATUS_CLEAR \<and> nt_proc (nw_net w') 21 = None \<and> nt_hand (nw_net w') 11 = None \<and> nt_open (nw_net w') = {}"
proof -
  let ?w = "demo_worker\<lparr>nw_status := WORKER_STATUS_CLOSE, nw_net := demo_net []\<rparr>"
  have "\<exists>w'. loop_body demo_closing ?w = Some ([ExClose], True, w') \<and> nw_status w' = WORKER_STATUS_CLEAR \<and> net_wf (nw_net w') \<and>
     nt_proc (nw_net w') = nt_proc (demo_net []) |` (- nt_timeouts (demo_net [])) \<and>
     nt_hand (nw_net w') = nt_hand (demo_net []) |` (- handlers_of (demo_net []) (nt_timeouts (demo_net []))) \<and>
     nt_open (nw_net w') = nt_open (demo_net []) - fds_of (demo_net []) (nt_timeouts (demo_net []))"
    by (rule closing_frees_connections [where x = demo_closing and w = ?w, OF _ _ _ net_wf_demo])
      (simp_all add: demo_closing_def demo_ex_def demo_net_def)
  then show ?thesis
    by (fastforce simp: demo_net_def handlers_of_def fds_of_def)
qed

text \<open>
  C29: A connection that reaches a closing worker is its undoing. After the closing turn of the loop the worker goes on to serve the
  commands of the others until its \<open>Clear\<close> returns true, but the manager of the time-outs is deleted: a command that hands over
  an accepted connection, for which the application makes a process, writes into the deleted manager.
\<close>
theorem late_connection_undefined:
  assumes "nw_status w = WORKER_STATUS_CLOSE" and "loop_body x w = Some (cs, go, w')"
    and "nw_queues w' src type = Some q" and "queue_holds q (TCPAcceptCmd fd port # cmds)" and "src \<noteq> 0xffffffff"
    and "ce_tcp e port (nw_net w') = (Some p, st)" and "nt_manager st = nt_manager (nw_net w')"
  shows "ProcessCmd e (src, type) w' = None"
proof -
  obtain st1 st2 where "w' = w\<lparr>nw_net := st2, nw_status := WORKER_STATUS_CLEAR\<rparr>" "close_timers x st1 = Some st2"
    using assms(1,2) by (auto simp: loop_body_def split: bind_splits)
  then have "\<not> nt_manager (nw_net w')"
    by (auto simp: close_timers_def split: bind_splits if_splits)
  then have "\<not> nt_manager st"
    using assms(7) by simp
  have dead: "new_carrier a fd type (Some p) peer name s = None" if "\<not> nt_manager s" for a type peer name s
  proof -
    have "AttachNet p s2 = None" if "\<not> nt_manager s2" for s2
      using that by (simp add: AttachNet_def split: bind_split)
    then show ?thesis
      using that by (fastforce simp: new_carrier_def dest: manager split: bind_splits)
  qed
  have "TCPAcceptCmd_Process e fd port (nw_net w') = None"
    using assms(6) \<open>\<not> nt_manager st\<close> dead put_manager(3)
    by (fastforce simp: TCPAcceptCmd_Process_def new_TCPCarrier_def split: bind_splits)
  then have "process_loop e q (nw_net w') = None"
    by (intro process_loop_undefined [OF assms(4)]) simp
  then show ?thesis
    using assms(3,5) by (simp add: ProcessCmd_def)
qed

lemma late_connection_undefined_witness:
  "\<exists>q w'. queue_holds q [TCPAcceptCmd 5 80] \<and>
     loop_body demo_ex ((set_queue 3 9 q demo_worker)\<lparr>nw_status := WORKER_STATUS_CLOSE\<rparr>) = Some ([ExClose], True, w') \<and>
     ProcessCmd demo_env (3, 9) w' = None"
proof -
  obtain q where q: "queue_holds q [TCPAcceptCmd 5 80]"
    using send_new_cmd_holds [of "set_queue 3 9 new_queue demo_worker" 3 9 new_queue "[]" True "TCPAcceptCmd 5 80"] new_queue_holds
    by (auto simp: set_queue_def)
  let ?w = "(set_queue 3 9 q demo_worker)\<lparr>nw_status := WORKER_STATUS_CLOSE\<rparr>"
  let ?st = "(nw_net demo_worker)\<lparr>nt_timeouts := {}, nt_manager := False\<rparr>"
  have B: "loop_body demo_ex ?w = Some ([ExClose], True, ?w\<lparr>nw_net := ?st, nw_status := WORKER_STATUS_CLEAR\<rparr>)"
    using demo_close_timers [OF demo_managers(2)] by (simp add: loop_body_def set_queue_def) (simp add: demo_ex_def)
  have "ProcessCmd demo_env (3, 9) (?w\<lparr>nw_net := ?st, nw_status := WORKER_STATUS_CLEAR\<rparr>) = None"
    by (rule late_connection_undefined [where p = 80 and st = "?st\<lparr>nt_proc := (nt_proc ?st)(80 \<mapsto> demo_proc)\<rparr>", OF _ B _ q])
      (simp_all add: set_queue_def demo_env_def demo_worker_def demo_net_def)
  then show ?thesis
    using q B by blast
qed

end
