(* ===== verification/WsProtocol.thy ===== *)
theory WsProtocol
  imports IOBuffer HttpProtocol
begin

text \<open>
  The WebSocket server protocol of \<open>protocols/wsprotocol.cpp\<close>: the opening handshake, the incremental frame
  parser with its fragmentation buffer, and the frame writer. The application behind the virtual members is a log of
  the messages it was handed and an argument that says which it accepts; what is handed to \<open>SendWSData\<close>
  is a log too. The parser unmasks a payload inside the receive buffer just before it consumes it; as no
  consumed byte is read again, the model unmasks the payload it takes from the front of the buffer.
\<close>

unbundle bit_operations_syntax

section \<open>State\<close>

record wsframe =
  frame_fin :: bool
  frame_rsv1 :: bool
  frame_rsv2 :: bool
  frame_rsv3 :: bool
  frame_opcode :: byte
  frame_masked :: bool
  frame_masking_key :: "byte list"
  frame_payload_length :: nat
  frame_masked_extension_length :: nat

definition wsframe_zero :: wsframe where
  "wsframe_zero = \<lparr>frame_fin = False, frame_rsv1 = False, frame_rsv2 = False, frame_rsv3 = False,
     frame_opcode = 0, frame_masked = False, frame_masking_key = [0, 0, 0, 0], frame_payload_length = 0,
     frame_masked_extension_length = 0\<rparr>"

datatype ws_event = WsText "byte list" | WsBinary "byte list"

datatype ws_phase = WS_STATE_HANDSHAKE | WS_STATE_OPEN

record ws =
  ws_request :: "string \<rightharpoonup> string"
  ws_respond :: "string \<rightharpoonup> string"
  ws_args :: "string \<rightharpoonup> string"
  ws_state :: ws_phase
  ws_frag :: iobuf
  ws_frame :: wsframe
  ws_opcode_continue :: byte
  ws_is_send_close :: bool
  ws_status_code :: nat
  ws_events :: "ws_event list"
  ws_sent :: "byte list list"

definition ws_new :: "ws option" where
  "ws_new = do {
     frag \<leftarrow> ib_Initialize ib_new 4096;
     Some \<lparr>ws_request = Map.empty, ws_respond = Map.empty, ws_args = Map.empty,
       ws_state = WS_STATE_HANDSHAKE, ws_frag = frag, ws_frame = wsframe_zero, ws_opcode_continue = 0,
       ws_is_send_close = False, ws_status_code = 1001, ws_events = [], ws_sent = []\<rparr>
   }"

text \<open>
  The environment: whether \<open>SendWSData\<close> and the message handlers succeed, the virtual handshake member, the digest
  and its base64 text from the crypto library, and the iteration order of a hash table.
\<close>

record ws_env =
  we_send :: "byte list list \<Rightarrow> byte list \<Rightarrow> bool"
  we_accept :: "ws_event list \<Rightarrow> ws_event \<Rightarrow> bool"
  we_handshake :: "ws \<Rightarrow> bool \<times> ws"
  we_sha1_b64 :: "string \<Rightarrow> string"
  we_enum :: "(string \<rightharpoonup> string) \<Rightarrow> (string \<times> string) list"

definition ws_send :: "ws_env \<Rightarrow> byte list \<Rightarrow> ws \<Rightarrow> bool \<times> ws" where
  "ws_send env d w = (we_send env (ws_sent w) d, w\<lparr>ws_sent := ws_sent w @ [d]\<rparr>)"

definition ws_handle :: "ws_env \<Rightarrow> ws_event \<Rightarrow> ws \<Rightarrow> bool \<times> ws" where
  "ws_handle env e w = (we_accept env (ws_events w) e, w\<lparr>ws_events := ws_events w @ [e]\<rparr>)"

definition ws_GetRequestHeader :: "string \<Rightarrow> ws \<Rightarrow> string \<times> ws" where
  "ws_GetRequestHeader k w = (let (v, m) = hash_get (ws_request w) k in (v, w\<lparr>ws_request := m\<rparr>))"

definition ws_GetRequestHeaderArgs :: "string \<Rightarrow> ws \<Rightarrow> string \<times> ws" where
  "ws_GetRequestHeaderArgs k w = (let (v, m) = hash_get (ws_args w) k in (v, w\<lparr>ws_args := m\<rparr>))"

definition ws_SetRespondHeader :: "string \<Rightarrow> string \<Rightarrow> ws \<Rightarrow> ws" where
  "ws_SetRespondHeader k v w = w\<lparr>ws_respond := (ws_respond w)(k \<mapsto> v)\<rparr>"

definition HandlerHandshake :: "ws \<Rightarrow> bool \<times> ws" where
  "HandlerHandshake w =
     (let (v, w) = ws_GetRequestHeader ''Sec-WebSocket-Protocol'' w in (v = [], w))"

section \<open>Writing frames\<close>

definition be16 :: "nat \<Rightarrow> byte list" where
  "be16 n = [word_of_nat (n div 256), word_of_nat n]"

definition be64 :: "nat \<Rightarrow> byte list" where
  "be64 n = map (\<lambda>i. word_of_nat (n div 256 ^ (7 - i))) [0..<8]"

definition ws_mask :: "byte list \<Rightarrow> byte list \<Rightarrow> byte list" where
  "ws_mask key d = map (\<lambda>i. d ! i XOR key ! (i mod 4)) [0..<length d]"

definition ws_flag :: "bool \<Rightarrow> byte \<Rightarrow> byte" where
  "ws_flag f b = (if f then b else 0)"

definition ws_b0 :: "bool \<Rightarrow> bool \<Rightarrow> bool \<Rightarrow> bool \<Rightarrow> byte \<Rightarrow> byte" where
  "ws_b0 fin rsv1 rsv2 rsv3 opcode =
     ws_flag fin 0x80 OR ws_flag rsv1 0x40 OR ws_flag rsv2 0x20 OR ws_flag rsv3 0x10 OR opcode"

definition ws_frame_head :: "wsframe \<Rightarrow> nat \<Rightarrow> byte list" where
  "ws_frame_head f len =
     (let b0 = ws_b0 (frame_fin f) (frame_rsv1 f) (frame_rsv2 f) (frame_rsv3 f) (frame_opcode f);
          b1 = ws_flag (frame_masked f) 0x80
      in if 0x7d \<ge> len then [b0, b1 OR word_of_nat len]
         else if 0xffff \<ge> len then [b0, b1 OR 0x7e] @ be16 len
         else [b0, b1 OR 0x7f] @ be64 len)"

definition SendWS :: "ws_env \<Rightarrow> wsframe \<Rightarrow> byte list \<Rightarrow> ws \<Rightarrow> bool \<times> ws" where
  "SendWS env f d w =
     (let head = ws_frame_head f (length d) in
      if frame_masked f
      then let (ok, w) = ws_send env (head @ frame_masking_key f) w in
           if \<not> ok then (False, w) else ws_send env (ws_mask (frame_masking_key f) d) w
      else let (ok, w) = ws_send env head w in
           if \<not> ok then (False, w) else ws_send env d w)"

definition SendWhole :: "ws_env \<Rightarrow> byte list \<Rightarrow> bool \<Rightarrow> ws \<Rightarrow> bool \<times> ws" where
  "SendWhole env d binary =
     SendWS env (wsframe_zero\<lparr>frame_fin := True, frame_opcode := if binary then 0x2 else 0x1\<rparr>) d"

definition SendFragmentHead :: "ws_env \<Rightarrow> byte list \<Rightarrow> bool \<Rightarrow> ws \<Rightarrow> bool \<times> ws" where
  "SendFragmentHead env d binary =
     SendWS env (wsframe_zero\<lparr>frame_opcode := if binary then 0x2 else 0x1\<rparr>) d"

definition SendFragment :: "ws_env \<Rightarrow> byte list \<Rightarrow> bool \<Rightarrow> ws \<Rightarrow> bool \<times> ws" where
  "SendFragment env d binary = SendWS env wsframe_zero d"

definition SendFragmentTail :: "ws_env \<Rightarrow> byte list \<Rightarrow> bool \<Rightarrow> ws \<Rightarrow> bool \<times> ws" where
  "SendFragmentTail env d binary = SendWS env (wsframe_zero\<lparr>frame_fin := True\<rparr>) d"

definition SendClose :: "ws_env \<Rightarrow> ws \<Rightarrow> ws" where
  "SendClose env w =
     (if ws_is_send_close w then w
      else snd (SendWS env (wsframe_zero\<lparr>frame_fin := True, frame_opcode := 0x8\<rparr>)
             (be16 (ws_status_code w)) (w\<lparr>ws_is_send_close := True\<rparr>)))"

definition SendPing :: "ws_env \<Rightarrow> byte list \<Rightarrow> ws \<Rightarrow> ws" where
  "SendPing env d w = snd (SendWS env (wsframe_zero\<lparr>frame_fin := True, frame_opcode := 0x9\<rparr>) d w)"

definition SendPong :: "ws_env \<Rightarrow> byte list \<Rightarrow> ws \<Rightarrow> ws" where
  "SendPong env d w = snd (SendWS env (wsframe_zero\<lparr>frame_fin := True, frame_opcode := 0xa\<rparr>) d w)"

section \<open>Reading frames\<close>

definition be_value :: "byte list \<Rightarrow> nat" where
  "be_value bs = foldl (\<lambda>n b. 256 * n + unat b) 0 bs"

text \<open>
  The header at the front of the buffer; the second component is the number of bytes it takes, or
  \<^term>\<open>None\<close> when the buffer ends inside it.
\<close>

definition ws_header_fields :: "byte \<Rightarrow> byte \<Rightarrow> wsframe \<Rightarrow> wsframe" where
  "ws_header_fields b0 b1 f =
     f\<lparr>frame_fin := (b0 AND 0x80 \<noteq> 0), frame_rsv1 := (b0 AND 0x40 \<noteq> 0),
       frame_rsv2 := (b0 AND 0x20 \<noteq> 0), frame_rsv3 := (b0 AND 0x10 \<noteq> 0),
       frame_opcode := b0 AND 0xf, frame_masked := (b1 AND 0x80 \<noteq> 0),
       frame_payload_length := unat (b1 AND 0x7f)\<rparr>"

definition ws_header_length :: "byte list \<Rightarrow> wsframe \<Rightarrow> (wsframe \<times> nat) option" where
  "ws_header_length buf f =
     (if frame_payload_length f = 0x7e
      then if 4 > length buf then None
           else Some (f\<lparr>frame_payload_length := be_value (take 2 (drop 2 buf))\<rparr>, 4)
      else if frame_payload_length f = 0x7f
      then if 10 > length buf then None
           else Some (f\<lparr>frame_payload_length := be_value (take 8 (drop 2 buf))\<rparr>, 10)
      else Some (f, 2))"

definition ws_header :: "byte list \<Rightarrow> wsframe \<Rightarrow> wsframe \<times> nat option" where
  "ws_header buf f =
     (let f = ws_header_fields (buf ! 0) (buf ! 1) f
      in case ws_header_length buf f of
           None \<Rightarrow> (f\<lparr>frame_payload_length := 0\<rparr>, None)
         | Some (f, pos) \<Rightarrow>
             if frame_masked f
             then if 4 > length buf - pos then (f\<lparr>frame_payload_length := 0\<rparr>, None)
                  else (f\<lparr>frame_masking_key := take 4 (drop pos buf)\<rparr>, Some (pos + 4))
             else (f, Some pos))"

text \<open>The bookkeeping of fragmented messages after a header.\<close>

definition ws_continue :: "wsframe \<Rightarrow> ws \<Rightarrow> ws" where
  "ws_continue f w =
     (if \<not> frame_fin f \<and> 1 \<le> frame_opcode f \<and> frame_opcode f \<le> 7 \<and> ws_opcode_continue w = 0
      then w\<lparr>ws_frame := f, ws_opcode_continue := frame_opcode f\<rparr>
      else if frame_fin f \<and> frame_opcode f = 0 \<and> 1 \<le> ws_opcode_continue w \<and> ws_opcode_continue w \<le> 7
      then w\<lparr>ws_frame := f\<lparr>frame_opcode := ws_opcode_continue w\<rparr>, ws_opcode_continue := 0\<rparr>
      else w\<lparr>ws_frame := f\<rparr>)"

definition ws_close_with :: "ws_env \<Rightarrow> nat \<Rightarrow> ws \<Rightarrow> bool \<times> ws" where
  "ws_close_with env code w = (False, SendClose env (w\<lparr>ws_status_code := code\<rparr>))"

text \<open>The reaction to a complete message of \<open>s\<close> bytes at \<open>b\<close>; the result \<^term>\<open>False\<close> is \<open>return -1\<close>.\<close>

definition ws_dispatch :: "ws_env \<Rightarrow> byte \<Rightarrow> byte list \<Rightarrow> ws \<Rightarrow> bool \<times> ws" where
  "ws_dispatch env opcode d w =
     (if opcode = 0x1 then
        (let (ok, w) = ws_handle env (WsText d) w in if ok then (True, w) else ws_close_with env 1001 w)
      else if opcode = 0x2 then
        (let (ok, w) = ws_handle env (WsBinary d) w in if ok then (True, w) else ws_close_with env 1001 w)
      else if opcode = 0x8 then
        (if length d = 2 then ws_close_with env 1000 w else (True, w))
      else if opcode = 0x9 then (True, SendPong env d w)
      else if opcode = 0xa then (True, w)
      else ws_close_with env 1002 w)"

definition ws_deliver :: "ws_env \<Rightarrow> byte list \<Rightarrow> ws \<Rightarrow> (bool \<times> ws) option" where
  "ws_deliver env payload w =
     (let f = ws_frame w;
          d = (if frame_masked f then ws_mask (frame_masking_key f) payload else payload);
          n = u32 (frame_payload_length f)
      in if frame_fin f
         then do {
           (w, b, s) \<leftarrow> (if u32 (ib_avail (ws_frag w)) \<noteq> 0
                        then do {
                          (_, frag) \<leftarrow> ib_ReadFromBuffer (ws_frag w) (map Some d) n;
                          cs \<leftarrow> mem_read (ib_pointer frag) 0 (u32 (ib_avail frag));
                          b \<leftarrow> cells_bytes cs;
                          Some (w\<lparr>ws_frag := frag\<rparr>, b, u32 (ib_avail frag))
                        }
                        else Some (w, d, n));
           (let (ok, w) = ws_dispatch env (frame_opcode f) (take s b) w in
            Some (if ok then (True, w\<lparr>ws_frag := snd (ib_IgnoreAll (ws_frag w))\<rparr>) else (False, w)))
         }
         else do {
           (_, frag) \<leftarrow> ib_ReadFromBuffer (ws_frag w) (map Some d) n;
           Some (True, w\<lparr>ws_frag := frag\<rparr>)
         })"

lemma ws_header_length_pos: "ws_header_length buf f = Some (f', pos) \<Longrightarrow> 2 \<le> pos"
  by (auto simp: ws_header_length_def split: if_splits)

lemma ws_header_pos: "ws_header buf f = (f', Some pos) \<Longrightarrow> 2 \<le> pos"
  by (auto simp: ws_header_def Let_def split: if_splits option.splits prod.splits dest!: ws_header_length_pos)

text \<open>
  The loop of \<open>HandlerProtocol\<close> in the open state, on what is left of the buffer. It yields what is left when it
  waits for more, or \<^term>\<open>None\<close> for \<open>return -1\<close>.
\<close>

definition ws_next :: "ws \<Rightarrow> byte list \<Rightarrow> (ws \<times> byte list) + ws" where
  "ws_next w buf =
     (if frame_payload_length (ws_frame w) = 0
      then if 2 > length buf then Inr w
           else (case ws_header buf (ws_frame w) of
                   (f, None) \<Rightarrow> Inr (w\<lparr>ws_frame := f\<rparr>)
                 | (f, Some pos) \<Rightarrow> Inl (ws_continue f w, drop pos buf))
      else Inl (w, buf))"

lemma ws_next_shorter:
  assumes "ws_next w buf = Inl (w', buf')" and "frame_payload_length (ws_frame w') \<le> length buf'"
  shows "length buf' - frame_payload_length (ws_frame w') < length buf"
  using assms by (auto simp: ws_next_def split: if_splits option.splits prod.splits dest: ws_header_pos)

function ws_loop :: "ws_env \<Rightarrow> ws \<Rightarrow> byte list \<Rightarrow> (byte list option \<times> ws) option" where
  "ws_loop env w buf =
     (case ws_next w buf of
        Inr w' \<Rightarrow> Some (Some buf, w')
      | Inl (w', buf') \<Rightarrow>
          let n = frame_payload_length (ws_frame w') in
          if length buf' < n then Some (Some buf', w')
          else (case ws_deliver env (take n buf') w' of
                  None \<Rightarrow> None
                | Some (False, w'') \<Rightarrow> Some (None, w'')
                | Some (True, w'') \<Rightarrow> ws_loop env (w''\<lparr>ws_frame := wsframe_zero\<rparr>) (drop n buf')))"
  by pat_completeness auto
termination
  by (relation "measure (\<lambda>(env, w, buf). length buf)") (auto dest: ws_next_shorter)

declare ws_loop.simps [simp del]

section \<open>The handshake\<close>

text \<open>\<open>strcasestr\<close> on the C strings.\<close>

definition strcase_contains :: "string \<Rightarrow> string \<Rightarrow> bool" where
  "strcase_contains s pat = (find_prefix (map to_lower pat) (map to_lower (takeWhile (\<lambda>c. c \<noteq> NUL) s)) 0 \<noteq> None)"

definition ws_query :: "string \<Rightarrow> nat \<Rightarrow> ws \<Rightarrow> (string \<times> ws) option" where
  "ws_query mem header w = do {
     q \<leftarrow> c_strstr mem header ''?'';
     (mem, w) \<leftarrow> (case q of
         None \<Rightarrow> Some (mem, w)
       | Some q \<Rightarrow> do {
           (mem, args) \<leftarrow> http_args_loop (mem[q := NUL]) (q + 1) (ws_args w);
           Some (mem, w\<lparr>ws_args := args\<rparr>)
         });
     uri \<leftarrow> c_str_at mem header;
     Some (mem, w\<lparr>ws_request := (ws_request w)(''uri'' \<mapsto> uri)\<rparr>)
   }"

definition ws_ParseHeader :: "string \<Rightarrow> ws \<Rightarrow> (bool \<times> ws) option" where
  "ws_ParseHeader mem w = do {
     tmp1 \<leftarrow> c_strstr mem 0 CRLF;
     (case tmp1 of
        None \<Rightarrow> Some (False, w)
      | Some eol \<Rightarrow> do {
          let mem = mem[eol := NUL];
          sp \<leftarrow> c_strstr mem 4 '' '';
          (case sp of
             None \<Rightarrow> Some (False, w)
           | Some sp \<Rightarrow> do {
               (mem, w) \<leftarrow> ws_query (mem[sp := NUL]) 4 w;
               version \<leftarrow> c_str_at mem (sp + 1);
               (ok, mem, hash) \<leftarrow> http_lines True mem (eol + 2) ((ws_request w)(''ws_version'' \<mapsto> version));
               Some (ok, w\<lparr>ws_request := hash\<rparr>)
             })
        })
   }"

definition ws_CheckHeader :: "ws \<Rightarrow> bool" where
  "ws_CheckHeader w =
     (let h = ws_request w in
      if h ''ws_version'' \<noteq> Some ''HTTP/1.1'' then False
      else if (case h ''Upgrade'' of None \<Rightarrow> True | Some v \<Rightarrow> \<not> strcase_contains v ''websocket'') then False
      else if (case h ''Connection'' of None \<Rightarrow> True | Some v \<Rightarrow> \<not> strcase_contains v ''upgrade'') then False
      else if h ''Sec-WebSocket-Key'' = None then False
      else if h ''Sec-WebSocket-Version'' \<noteq> Some ''13'' then False
      else True)"

definition ws_guid :: string where
  "ws_guid = ''258EAFA5-E914-47DA-95CA-C5AB0DC85B11''"

definition ws_accept_key :: "ws_env \<Rightarrow> ws \<Rightarrow> string \<times> ws" where
  "ws_accept_key env w =
     (let (k, w) = ws_GetRequestHeader ''Sec-WebSocket-Key'' w in (we_sha1_b64 env (k @ ws_guid), w))"

definition Respond101 :: "ws_env \<Rightarrow> ws \<Rightarrow> ws" where
  "Respond101 env w =
     (let (key, w) = ws_accept_key env w in
      snd (ws_send env (map byte_of
        (''HTTP/1.1 101 Switching Protocols'' @ CRLF @ ''Upgrade: websocket'' @ CRLF @
         ''Connection: Upgrade'' @ CRLF @ ''Sec-WebSocket-Accept: '' @ key @ CRLF @
         concat (map header_line (we_enum env (ws_respond w))) @ CRLF)) w))"

text \<open>The line continuation inside the literal leaves 41 blanks before the fourth header name.\<close>

definition Respond400 :: "ws_env \<Rightarrow> ws \<Rightarrow> ws" where
  "Respond400 env w =
     (let (key, w) = ws_accept_key env w in
      snd (ws_send env (map byte_of
        (''HTTP/1.1 400 Bad Request'' @ CRLF @ ''Upgrade: websocket'' @ CRLF @ ''Connection: Upgrade'' @ CRLF @
         replicate 41 (CHR '' '') @ ''Sec-WebSocket-Accept: '' @ key @ CRLF @
         ''Sec-WebSocket-Version: 13'' @ CRLF @ CRLF)) w))"

text \<open>
  \<open>data\<close> is the block from the data pointer on, of which \<open>len\<close> bytes have been received. The result is \<open>-1\<close>, or the number
  of bytes used as an \<open>int\<close>: a difference of pointers that loses its upper bits, and so is negative from 2 GiB on. \<open>ws_found\<close> is
  what follows when the end of the handshake's header has been found at \<open>fnd\<close>. The literal searched for is a block of its own:
  \<^term>\<open>None\<close> is also a search that leaves it.
\<close>

definition ws_open :: "ws_env \<Rightarrow> byte list \<Rightarrow> nat \<Rightarrow> ws \<Rightarrow> (int \<times> ws) option" where
  "ws_open env data len w = do {
     (r, w) \<leftarrow> ws_loop env w (take len data);
     Some (case r of None \<Rightarrow> -1 | Some rest \<Rightarrow> i32 (int (len - length rest)), w)
   }"

definition ws_found :: "ws_env \<Rightarrow> string \<Rightarrow> nat \<Rightarrow> ws \<Rightarrow> (int \<times> ws) option" where
  "ws_found env mem fnd w = do {
     (ok, w) \<leftarrow> ws_ParseHeader (mem[fnd := NUL]) w;
     (if \<not> ok then Some (-1, w)
      else if \<not> ws_CheckHeader w then Some (-1, Respond400 env w)
      else let (ok, w) = we_handshake env w in
        if \<not> ok then Some (-1, Respond400 env w)
        else Some (i32 (int fnd + 4), (Respond101 env w)\<lparr>ws_state := WS_STATE_OPEN\<rparr>))
   }"

definition ws_handshake :: "ws_env \<Rightarrow> byte list \<Rightarrow> nat \<Rightarrow> ws \<Rightarrow> (int \<times> ws) option" where
  "ws_handshake env data len w = do {
     let mem = map chr_of data;
     fnd \<leftarrow> (if i32 (int len) < 0 then Some None else rstrstr mem 0 len (CRLF @ CRLF @ [NUL]) 0 4);
     (case fnd of
        None \<Rightarrow> Some (0, w)
      | Some fnd \<Rightarrow> ws_found env mem fnd w)
   }"

definition ws_HandlerProtocol :: "ws_env \<Rightarrow> byte list \<Rightarrow> nat \<Rightarrow> ws \<Rightarrow> (int \<times> ws) option" where
  "ws_HandlerProtocol env data len w =
     (case ws_state w of WS_STATE_OPEN \<Rightarrow> ws_open env data len w
      | WS_STATE_HANDSHAKE \<Rightarrow> ws_handshake env data len w)"

section \<open>Frames that arrive in pieces\<close>

lemma ws_header_length_append:
  assumes "ws_header_length buf f = Some (f', pos)" and "2 \<le> length buf"
  shows "ws_header_length (buf @ b) f = Some (f', pos)" and "pos \<le> length buf"
  using assms by (auto simp: ws_header_length_def split: if_splits)

lemma ws_header_append:
  assumes "ws_header buf f = (f', Some pos)" and "2 \<le> length buf"
  shows "ws_header (buf @ b) f = (f', Some pos) \<and> pos \<le> length buf"
proof -
  let ?f = "ws_header_fields (buf ! 0) (buf ! 1) f"
  have nth: "(buf @ b) ! 0 = buf ! 0" "(buf @ b) ! Suc 0 = buf ! Suc 0"
    using assms(2) by (auto simp: nth_append)
  obtain g p where g: "ws_header_length buf ?f = Some (g, p)"
    using assms(1) by (auto simp: ws_header_def Let_def split: option.splits)
  note app = ws_header_length_append [OF g assms(2)]
  show ?thesis
    using assms(1) g app by (auto simp: ws_header_def Let_def nth split: if_splits)
qed

lemma ws_header_length_none:
  "ws_header_length buf f = Some (f', pos) \<Longrightarrow> f'\<lparr>frame_payload_length := 0\<rparr> = f\<lparr>frame_payload_length := 0\<rparr>"
  by (auto simp: ws_header_length_def split: if_splits)

lemma ws_header_none:
  "ws_header buf f = (f', None) \<Longrightarrow> f' = (ws_header_fields (buf ! 0) (buf ! 1) f)\<lparr>frame_payload_length := 0\<rparr>"
  by (auto simp: ws_header_def Let_def split: if_splits option.splits prod.splits dest!: ws_header_length_none)

lemma ws_header_incomplete:
  assumes "ws_header buf f = (f', None)"
  shows "ws_header buf' f' = ws_header buf' f \<and> frame_payload_length f' = 0"
proof -
  have "ws_header_fields c0 c1 ((ws_header_fields b0 b1 f)\<lparr>frame_payload_length := 0\<rparr>) = ws_header_fields c0 c1 f" for b0 b1 c0 c1
    by (simp add: ws_header_fields_def)
  then show ?thesis
    using ws_header_none [OF assms] by (simp add: ws_header_def)
qed

lemma ws_continue_frame [simp]: "ws_continue f (w\<lparr>ws_frame := g\<rparr>) = ws_continue f w"
  by (simp add: ws_continue_def)

lemma ws_next_append:
  assumes "ws_next w a = Inl (w', r)"
  shows "ws_next w (a @ b) = Inl (w', r @ b)"
  using assms ws_header_append [of a "ws_frame w" _ _ b]
  by (auto simp: ws_next_def split: if_splits option.splits prod.splits)

lemma ws_next_wait:
  assumes "ws_next w a = Inr w'"
  shows "ws_next w' (a @ b) = ws_next w (a @ b)"
proof (cases "length a < 2")
  case True
  then show ?thesis
    using assms by (auto simp: ws_next_def split: if_splits)
next
  case False
  then obtain f where f: "ws_header a (ws_frame w) = (f, None)" "w' = w\<lparr>ws_frame := f\<rparr>"
    "frame_payload_length (ws_frame w) = 0"
    using assms by (auto simp: ws_next_def split: if_splits option.splits prod.splits)
  then have "ws_header (a @ b) f = ws_header (a @ b) (ws_frame w)" "frame_payload_length f = 0"
    using ws_header_incomplete [OF f(1)] by blast+
  then show ?thesis
    using f False by (auto simp: ws_next_def split: option.split prod.split)
qed

lemma ws_loop_append:
  "(\<forall>r w'. ws_loop env w a = Some (Some r, w') \<longrightarrow> ws_loop env w (a @ b) = ws_loop env w' (r @ b)) \<and>
   (\<forall>w'. ws_loop env w a = Some (None, w') \<longrightarrow> ws_loop env w (a @ b) = Some (None, w')) \<and>
   (ws_loop env w a = None \<longrightarrow> ws_loop env w (a @ b) = None)"
proof (induction env w a rule: ws_loop.induct)
  case (1 env w a)
  show ?case
  proof (cases "ws_next w a")
    case (Inr w')
    have "ws_loop env w (a @ b) = ws_loop env w' (a @ b)"
      by (subst (1 2) ws_loop.simps) (simp add: ws_next_wait [OF Inr])
    then show ?thesis
      using Inr by (simp add: ws_loop.simps [of env w a])
  next
    case (Inl p)
    obtain w1 a1 where p: "p = (w1, a1)"
      by (cases p)
    let ?n = "frame_payload_length (ws_frame w1)"
    have ab: "ws_next w (a @ b) = Inl (w1, a1 @ b)"
      using ws_next_append Inl p by simp
    show ?thesis
    proof (cases "length a1 < ?n")
      case True
      have "ws_next w1 (a1 @ b) = Inl (w1, a1 @ b)"
        using True by (simp add: ws_next_def)
      then have "ws_loop env w (a @ b) = ws_loop env w1 (a1 @ b)"
        by (subst (1 2) ws_loop.simps) (simp add: ab)
      then show ?thesis
        using True Inl p by (simp add: ws_loop.simps [of env w a])
    next
      case False
      then have app: "take ?n (a1 @ b) = take ?n a1" "drop ?n (a1 @ b) = drop ?n a1 @ b"
        by simp_all
      show ?thesis
      proof (cases "ws_deliver env (take ?n a1) w1")
        case None
        then show ?thesis
          using False Inl p ab app
          by (simp add: ws_loop.simps [of env w a] ws_loop.simps [of env w "a @ b"] Let_def)
      next
        case (Some q)
        obtain ok w2 where q: "q = (ok, w2)"
          by (cases q)
        show ?thesis
        proof (cases ok)
          case True
          then show ?thesis
            using False Inl p ab app Some q "1.IH" [OF Inl p [symmetric] refl False Some q [symmetric]]
            by (simp add: ws_loop.simps [of env w a] ws_loop.simps [of env w "a @ b"] Let_def)
        next
          case not_ok: False
          then show ?thesis
            using False Inl p ab app Some q
            by (simp add: ws_loop.simps [of env w a] ws_loop.simps [of env w "a @ b"] Let_def)
        qed
      qed
    qed
  qed
qed

section \<open>A frame that was written is read back\<close>

definition ws_wire :: "wsframe \<Rightarrow> byte list \<Rightarrow> byte list" where
  "ws_wire f d = ws_frame_head f (length d) @
     (if frame_masked f then frame_masking_key f @ ws_mask (frame_masking_key f) d else d)"

definition ws_frame_ok :: "wsframe \<Rightarrow> bool" where
  "ws_frame_ok f \<longleftrightarrow> frame_opcode f AND 0xf = frame_opcode f \<and> length (frame_masking_key f) = 4"

lemma SendWS_wire:
  assumes "\<And>sent d. we_send env sent d"
  shows "\<exists>ps. SendWS env f d w = (True, w\<lparr>ws_sent := ws_sent w @ ps\<rparr>) \<and> concat ps = ws_wire f d"
  using assms by (auto simp: SendWS_def ws_send_def ws_wire_def Let_def)

lemma ws_b0_bits:
  assumes "opc AND 0xf = (opc :: byte)"
  shows "(ws_b0 f r1 r2 r3 opc AND 0x80 \<noteq> 0) = f" "(ws_b0 f r1 r2 r3 opc AND 0x40 \<noteq> 0) = r1"
    "(ws_b0 f r1 r2 r3 opc AND 0x20 \<noteq> 0) = r2" "(ws_b0 f r1 r2 r3 opc AND 0x10 \<noteq> 0) = r3"
    "ws_b0 f r1 r2 r3 opc AND 0xf = opc"
proof -
  have opc: "opc AND 0x80 = 0" "opc AND 0x40 = 0" "opc AND 0x20 = 0" "opc AND 0x10 = 0"
    by (subst assms(1) [symmetric], simp add: and.assoc)+
  show "(ws_b0 f r1 r2 r3 opc AND 0x80 \<noteq> 0) = f" "(ws_b0 f r1 r2 r3 opc AND 0x40 \<noteq> 0) = r1"
    "(ws_b0 f r1 r2 r3 opc AND 0x20 \<noteq> 0) = r2" "(ws_b0 f r1 r2 r3 opc AND 0x10 \<noteq> 0) = r3"
    "ws_b0 f r1 r2 r3 opc AND 0xf = opc"
    using opc assms(1)
    by (cases f; cases r1; cases r2; cases r3; simp add: ws_b0_def ws_flag_def bit.conj_disj_distrib2)+
qed

lemma ws_b1_bits:
  assumes "n < 128"
  shows "((ws_flag m 0x80 OR word_of_nat n :: byte) AND 0x80 \<noteq> 0) = m"
    and "unat ((ws_flag m 0x80 OR word_of_nat n :: byte) AND 0x7f) = n"
proof -
  have "take_bit 7 n = n"
    using assms by (intro take_bit_nat_eq_self) simp
  then have "take_bit 7 (word_of_nat n :: byte) = word_of_nat n"
    by (simp only: take_bit_of_nat)
  moreover have "(word_of_nat n :: byte) AND 0x7f = take_bit 7 (word_of_nat n)"
    by (simp add: take_bit_eq_mask mask_eq_exp_minus_1)
  ultimately have n: "(word_of_nat n :: byte) AND 0x7f = word_of_nat n"
    by simp
  have "((word_of_nat n :: byte) AND 0x7f) AND 0x80 = 0"
    by (simp add: and.assoc)
  then have "(word_of_nat n :: byte) AND 0x80 = 0"
    by (simp only: n)
  then show "((ws_flag m 0x80 OR word_of_nat n :: byte) AND 0x80 \<noteq> 0) = m"
    by (simp add: ws_flag_def bit.conj_disj_distrib2)
  show "unat ((ws_flag m 0x80 OR word_of_nat n :: byte) AND 0x7f) = n"
    using assms n by (simp add: ws_flag_def bit.conj_disj_distrib2 unat_of_nat take_bit_eq_mod)
qed

fun be_bytes :: "nat \<Rightarrow> nat \<Rightarrow> byte list" where
  "be_bytes 0 n = []"
| "be_bytes (Suc k) n = word_of_nat (n div 256 ^ k) # be_bytes k n"

lemma be_value_Cons: "foldl (\<lambda>n b. 256 * n + unat b) a (bs :: byte list) = a * 256 ^ length bs + be_value bs"
proof (induction bs arbitrary: a)
  case (Cons b bs)
  show ?case
    using Cons [of "256 * a + unat b"] Cons [of "unat b"]
    by (simp add: be_value_def algebra_simps)
qed (simp add: be_value_def)

lemma length_be_bytes [simp]: "length (be_bytes k n) = k"
  by (induction k) auto

lemma be_value_be_bytes: "be_value (be_bytes k n) = n mod 256 ^ k"
proof (induction k)
  case (Suc k)
  have "be_value (be_bytes (Suc k) n) = (n div 256 ^ k mod 256) * 256 ^ k + n mod 256 ^ k"
    using be_value_Cons [of "unat (word_of_nat (n div 256 ^ k) :: byte)" "be_bytes k n"] Suc
    by (simp add: be_value_def unat_of_nat take_bit_eq_mod)
  also have "\<dots> = n mod 256 ^ Suc k"
    using mod_mult2_eq [of n "256 ^ k" 256] by (simp add: mult.commute)
  finally show ?case .
qed (simp add: be_value_def)

lemma be16_bytes: "be16 n = be_bytes 2 n"
  by (simp add: be16_def numeral_2_eq_2)

lemma be_bytes_map: "be_bytes k n = map (\<lambda>i. word_of_nat (n div 256 ^ (k - 1 - i))) [0..<k]"
proof (induction k)
  case (Suc k)
  have "[0..<Suc k] = 0 # map Suc [0..<k]"
    by (simp add: upt_conv_Cons map_Suc_upt del: upt_Suc)
  then show ?case
    using Suc by (simp add: comp_def del: upt_Suc)
qed simp

lemma be64_bytes: "be64 n = be_bytes 8 n"
  by (simp add: be64_def be_bytes_map)

definition ws_frame_as :: "wsframe \<Rightarrow> nat \<Rightarrow> wsframe \<Rightarrow> wsframe" where
  "ws_frame_as f n g = f\<lparr>frame_payload_length := n, frame_masked_extension_length := frame_masked_extension_length g,
     frame_masking_key := if frame_masked f then frame_masking_key f else frame_masking_key g\<rparr>"

lemma ws_header_wire:
  assumes "ws_frame_ok f" and "length d < 2 ^ 32"
  shows "ws_header (ws_wire f d @ rest) g =
     (ws_frame_as f (length d) g, Some (length (ws_frame_head f (length d)) + (if frame_masked f then 4 else 0)))"
proof -
  let ?n = "length d"
  have opc: "frame_opcode f AND 0xf = frame_opcode f" and key: "length (frame_masking_key f) = 4"
    using assms(1) by (simp_all add: ws_frame_ok_def)
  note b0 = ws_b0_bits [OF opc, of "frame_fin f" "frame_rsv1 f" "frame_rsv2 f" "frame_rsv3 f"]
  define tail where "tail = (if frame_masked f then frame_masking_key f @ ws_mask (frame_masking_key f) d else d) @ rest"
  have wire: "ws_wire f d @ rest = ws_frame_head f ?n @ tail"
    by (simp add: ws_wire_def tail_def)
  have tail: "frame_masked f \<Longrightarrow> take 4 tail = frame_masking_key f" "frame_masked f \<Longrightarrow> \<not> length tail < 4"
    using key by (simp_all add: tail_def)
  consider "?n \<le> 0x7d" | "0x7d < ?n" "?n \<le> 0xffff" | "0xffff < ?n"
    by linarith
  then show ?thesis
  proof cases
    case 1
    then show ?thesis
      using ws_b1_bits [of ?n "frame_masked f"] tail
      by (simp add: wire ws_frame_head_def ws_header_def ws_header_fields_def ws_header_length_def b0 ws_frame_as_def Let_def)
  next
    case 2
    have "be_value (be16 ?n) = ?n" "length (be16 ?n) = 2"
      using 2 by (simp_all add: be16_bytes be_value_be_bytes)
    then show ?thesis
      using 2 ws_b1_bits [of "0x7e" "frame_masked f"] tail
      by (simp add: wire ws_frame_head_def ws_header_def ws_header_fields_def ws_header_length_def b0 ws_frame_as_def Let_def)
  next
    case 3
    have "be_value (be64 ?n) = ?n" "length (be64 ?n) = 8"
      using 3 assms(2) by (simp_all add: be64_bytes be_value_be_bytes)
    then show ?thesis
      using 3 ws_b1_bits [of "0x7f" "frame_masked f"] tail
      by (simp add: wire ws_frame_head_def ws_header_def ws_header_fields_def ws_header_length_def b0 ws_frame_as_def Let_def)
  qed
qed

lemma ws_mask_mask: "ws_mask key (ws_mask key d) = d"
  by (rule nth_equalityI) (simp_all add: ws_mask_def xor.assoc)

section \<open>The effect of one frame\<close>

lemma ws_continue_sel [simp]:
  "ws_frag (ws_continue f w) = ws_frag w" "ws_events (ws_continue f w) = ws_events w"
  "ws_sent (ws_continue f w) = ws_sent w" "ws_state (ws_continue f w) = ws_state w"
  "frame_payload_length (ws_frame (ws_continue f w)) = frame_payload_length f"
  "frame_fin (ws_frame (ws_continue f w)) = frame_fin f"
  "frame_masked (ws_frame (ws_continue f w)) = frame_masked f"
  "frame_masking_key (ws_frame (ws_continue f w)) = frame_masking_key f"
  by (simp_all add: ws_continue_def)

lemma ws_frame_as_sel [simp]:
  "frame_payload_length (ws_frame_as f n g) = n" "frame_fin (ws_frame_as f n g) = frame_fin f"
  "frame_opcode (ws_frame_as f n g) = frame_opcode f" "frame_masked (ws_frame_as f n g) = frame_masked f"
  "frame_masked f \<Longrightarrow> frame_masking_key (ws_frame_as f n g) = frame_masking_key f"
  by (simp_all add: ws_frame_as_def)

definition ws_payload :: "wsframe \<Rightarrow> byte list \<Rightarrow> byte list" where
  "ws_payload f d = (if frame_masked f then ws_mask (frame_masking_key f) d else d)"

lemma ws_payload_length [simp]: "length (ws_payload f d) = length d"
  by (simp add: ws_payload_def ws_mask_def)

definition ws_arrive :: "ws_env \<Rightarrow> wsframe \<Rightarrow> byte list \<Rightarrow> ws \<Rightarrow> (bool \<times> ws) option" where
  "ws_arrive env f d w =
     ws_deliver env (ws_payload f d) (ws_continue (ws_frame_as f (length d) (ws_frame w)) w)"

lemma ws_loop_frame:
  assumes ok: "ws_frame_ok f" "length d < 2 ^ 32" and idle: "frame_payload_length (ws_frame w) = 0"
  shows "ws_loop env w (ws_wire f d @ rest) =
     (case ws_arrive env f d w of
        None \<Rightarrow> None
      | Some (False, w') \<Rightarrow> Some (None, w')
      | Some (True, w') \<Rightarrow> ws_loop env (w'\<lparr>ws_frame := wsframe_zero\<rparr>) rest)"
proof -
  let ?g = "ws_frame_as f (length d) (ws_frame w)"
  have two: "2 \<le> length (ws_frame_head f (length d))"
    by (simp add: ws_frame_head_def Let_def)
  have wire: "ws_wire f d = ws_frame_head f (length d) @ (if frame_masked f then frame_masking_key f else []) @ ws_payload f d"
    by (simp add: ws_wire_def ws_payload_def)
  have "drop (length (ws_frame_head f (length d)) + (if frame_masked f then 4 else 0)) (ws_wire f d @ rest) =
      ws_payload f d @ rest"
    using ok(1) by (simp add: wire ws_frame_ok_def)
  moreover have "\<not> length (ws_wire f d @ rest) < 2"
    using two by (simp add: wire)
  ultimately have "ws_next w (ws_wire f d @ rest) = Inl (ws_continue ?g w, ws_payload f d @ rest)"
    using ws_header_wire [OF ok, of rest "ws_frame w"] idle by (simp add: ws_next_def del: length_append)
  then show ?thesis
    by (subst ws_loop.simps) (simp add: ws_arrive_def Let_def split: option.split prod.split bool.split)
qed

lemma ws_arrive_fragment:
  assumes "\<not> frame_fin f" and wf: "ib_wf (ws_frag w)" and room: "ib_published (ws_frag w) + length d \<le> 2 ^ 31"
  shows "\<exists>frag. ws_arrive env f d w =
       Some (True, (ws_continue (ws_frame_as f (length d) (ws_frame w)) w)\<lparr>ws_frag := frag\<rparr>) \<and>
     ib_appended (ws_frag w) d frag"
proof -
  let ?w = "ws_continue (ws_frame_as f (length d) (ws_frame w)) w"
  have d: "(if frame_masked (ws_frame ?w) then ws_mask (frame_masking_key (ws_frame ?w)) (ws_payload f d)
      else ws_payload f d) = d"
    by (auto simp: ws_payload_def ws_mask_mask)
  obtain frag where "ib_ReadFromBuffer (ws_frag w) (map Some d) (length d) = Some (True, frag)"
    "ib_appended (ws_frag w) d frag"
    using ib_ReadFromBuffer_spec [OF wf room, of "[]"] by auto
  moreover have "u32 (length d) = length d"
    using room by (simp add: u32_small)
  ultimately show ?thesis
    unfolding ws_arrive_def ws_deliver_def d Let_def using assms(1) by (intro exI [of _ frag]) simp
qed

lemma ib_pointer_read:
  assumes "ib_wf b"
  shows "mem_read (ib_pointer b) 0 (length (ib_data b)) = Some (map Some (ib_data b))"
proof -
  have "take (length (ib_data b)) (ib_pointer b) = ib_cells b"
    using assms by (simp add: ib_length_data ib_pointer_def ib_cells_def)
  moreover have "length (ib_data b) \<le> length (ib_pointer b)"
    using ib_wf_bounds [OF assms] by (simp add: ib_length_data [OF assms] ib_pointer_def)
  ultimately show ?thesis
    using assms by (simp add: mem_read_def ib_cells_data)
qed

lemma ws_arrive_final:
  assumes fin: "frame_fin f" and wf: "ib_wf (ws_frag w)" and room: "ib_published (ws_frag w) + length d \<le> 2 ^ 31"
  shows "\<exists>frag w1. w1 = (ws_continue (ws_frame_as f (length d) (ws_frame w)) w)\<lparr>ws_frag := frag\<rparr> \<and> ib_wf frag \<and>
     ws_arrive env f d w =
       (let (ok, w2) = ws_dispatch env (frame_opcode (ws_frame w1)) (ib_data (ws_frag w) @ d) w1 in
        Some (if ok then (True, w2\<lparr>ws_frag := snd (ib_IgnoreAll (ws_frag w2))\<rparr>) else (False, w2)))"
proof -
  let ?w = "ws_continue (ws_frame_as f (length d) (ws_frame w)) w"
  have d: "(if frame_masked (ws_frame ?w) then ws_mask (frame_masking_key (ws_frame ?w)) (ws_payload f d)
      else ws_payload f d) = d"
    by (auto simp: ws_payload_def ws_mask_mask)
  have n: "u32 (length d) = length d"
    using room by (simp add: u32_small)
  have avail: "u32 (ib_avail b) = length (ib_data b)" if "ib_wf b" for b
    using ib_wf_bounds [OF that] by (simp add: ib_avail_wf [OF that] ib_length_data [OF that] u32_small)
  show ?thesis
  proof (cases "ib_data (ws_frag w) = []")
    case True
    have "ws_arrive env f d w =
       (let (ok, w2) = ws_dispatch env (frame_opcode (ws_frame ?w)) d ?w in
        Some (if ok then (True, w2\<lparr>ws_frag := snd (ib_IgnoreAll (ws_frag w2))\<rparr>) else (False, w2)))"
      unfolding ws_arrive_def ws_deliver_def d Let_def using fin n avail [OF wf] True by simp
    then show ?thesis
      using True wf by (intro exI [of _ "ws_frag w"] exI [of _ ?w]) simp
  next
    case False
    obtain frag where frag: "ib_ReadFromBuffer (ws_frag w) (map Some d) (length d) = Some (True, frag)"
      "ib_appended (ws_frag w) d frag"
      using ib_ReadFromBuffer_spec [OF wf room, of "[]"] by auto
    then have wf': "ib_wf frag" and data: "ib_data frag = ib_data (ws_frag w) @ d"
      by (simp_all add: ib_appended_def)
    have "ws_arrive env f d w =
       (let (ok, w2) = ws_dispatch env (frame_opcode (ws_frame (?w\<lparr>ws_frag := frag\<rparr>))) (ib_data frag) (?w\<lparr>ws_frag := frag\<rparr>) in
        Some (if ok then (True, w2\<lparr>ws_frag := snd (ib_IgnoreAll (ws_frag w2))\<rparr>) else (False, w2)))"
      unfolding ws_arrive_def ws_deliver_def d Let_def
      using fin n avail [OF wf] avail [OF wf'] False frag(1) ib_pointer_read [OF wf'] by simp
    then show ?thesis
      using data wf' by (intro exI [of _ frag] exI [of _ "?w\<lparr>ws_frag := frag\<rparr>"]) simp
  qed
qed

section \<open>Messages\<close>

text \<open>
  A message is a kind and the pieces it is sent in, each with the masking key of its frame if it has one.
\<close>

type_synonym ws_piece = "byte list option \<times> byte list"
type_synonym ws_msg = "bool \<times> ws_piece list"

definition ws_piece_frame :: "bool \<Rightarrow> byte \<Rightarrow> ws_piece \<Rightarrow> wsframe" where
  "ws_piece_frame fin opcode p =
     (case fst p of
        None \<Rightarrow> wsframe_zero\<lparr>frame_fin := fin, frame_opcode := opcode\<rparr>
      | Some key \<Rightarrow> wsframe_zero\<lparr>frame_fin := fin, frame_opcode := opcode, frame_masked := True, frame_masking_key := key\<rparr>)"

fun ws_rest_wire :: "ws_piece list \<Rightarrow> byte list" where
  "ws_rest_wire [] = []"
| "ws_rest_wire (p # ps) = ws_wire (ws_piece_frame (ps = []) 0 p) (snd p) @ ws_rest_wire ps"

definition ws_opcode :: "bool \<Rightarrow> byte" where
  "ws_opcode binary = (if binary then 0x2 else 0x1)"

fun ws_msg_wire :: "ws_msg \<Rightarrow> byte list" where
  "ws_msg_wire (binary, []) = []"
| "ws_msg_wire (binary, p # ps) = ws_wire (ws_piece_frame (ps = []) (ws_opcode binary) p) (snd p) @ ws_rest_wire ps"

definition ws_msg_event :: "ws_msg \<Rightarrow> ws_event" where
  "ws_msg_event m = (if fst m then WsBinary (concat (map snd (snd m))) else WsText (concat (map snd (snd m))))"

definition ws_piece_ok :: "ws_piece \<Rightarrow> bool" where
  "ws_piece_ok p \<longleftrightarrow> (\<forall>key. fst p = Some key \<longrightarrow> length key = 4)"

definition ws_msg_ok :: "ws_msg \<Rightarrow> bool" where
  "ws_msg_ok m \<longleftrightarrow> snd m \<noteq> [] \<and> list_all ws_piece_ok (snd m) \<and> length (concat (map snd (snd m))) \<le> 2 ^ 31"

text \<open>Between two messages.\<close>

definition ws_ready :: "ws \<Rightarrow> bool" where
  "ws_ready w \<longleftrightarrow> ws_frame w = wsframe_zero \<and> ws_opcode_continue w = 0 \<and> ib_wf (ws_frag w) \<and>
     ib_data (ws_frag w) = [] \<and> ib_published (ws_frag w) = 0"

text \<open>Inside a message whose first pieces are \<open>acc\<close>.\<close>

definition ws_inside :: "bool \<Rightarrow> byte list \<Rightarrow> ws \<Rightarrow> bool" where
  "ws_inside binary acc w \<longleftrightarrow> ws_frame w = wsframe_zero \<and> ws_opcode_continue w = ws_opcode binary \<and>
     ib_wf (ws_frag w) \<and> ib_data (ws_frag w) = acc \<and> ib_published (ws_frag w) \<le> length acc"

lemma ws_piece_frame_sel [simp]:
  "frame_fin (ws_piece_frame fin opc p) = fin" "frame_opcode (ws_piece_frame fin opc p) = opc"
  by (simp_all add: ws_piece_frame_def split: option.split)

lemma ws_piece_frame_ok:
  "ws_piece_ok p \<Longrightarrow> opc AND 0xf = opc \<Longrightarrow> ws_frame_ok (ws_piece_frame fin opc p)"
  by (auto simp: ws_piece_ok_def ws_frame_ok_def ws_piece_frame_def wsframe_zero_def split: option.split)

lemma wsframe_zero_sel [simp]:
  "frame_payload_length wsframe_zero = 0" "frame_fin wsframe_zero = False" "frame_opcode wsframe_zero = 0"
  "frame_masked wsframe_zero = False"
  by (simp_all add: wsframe_zero_def)

lemma ws_opcode_range [simp]:
  "ws_opcode b AND 0xf = ws_opcode b" "1 \<le> ws_opcode b" "ws_opcode b \<le> 7" "ws_opcode b \<noteq> 0"
  by (simp_all add: ws_opcode_def)

lemma ib_IgnoreAll_wf:
  "ib_wf b \<Longrightarrow> ib_wf (snd (ib_IgnoreAll b)) \<and> ib_data (snd (ib_IgnoreAll b)) = [] \<and> ib_published (snd (ib_IgnoreAll b)) = 0"
  using ib_IgnoreAll_spec [of b] by (simp add: ib_dropped_def)

text \<open>The last frame of a message, accepted by the application.\<close>

lemma ws_final_frame:
  assumes f: "frame_fin f" "frame_opcode (ws_frame (ws_continue (ws_frame_as f (length d) (ws_frame w)) w)) = ws_opcode binary"
    and cont: "ws_opcode_continue (ws_continue (ws_frame_as f (length d) (ws_frame w)) w) = 0"
    and wf: "ib_wf (ws_frag w)" and room: "ib_published (ws_frag w) + length d \<le> 2 ^ 31"
    and acc: "we_accept env (ws_events w) (if binary then WsBinary (ib_data (ws_frag w) @ d) else WsText (ib_data (ws_frag w) @ d))"
  shows "\<exists>w'. ws_arrive env f d w = Some (True, w') \<and> ws_ready (w'\<lparr>ws_frame := wsframe_zero\<rparr>) \<and>
     ws_events w' = ws_events w @ [if binary then WsBinary (ib_data (ws_frag w) @ d) else WsText (ib_data (ws_frag w) @ d)] \<and>
     ws_sent w' = ws_sent w \<and> ws_state w' = ws_state w"
proof -
  obtain frag w1 where w1: "w1 = (ws_continue (ws_frame_as f (length d) (ws_frame w)) w)\<lparr>ws_frag := frag\<rparr>"
    and wf': "ib_wf frag"
    and arr: "ws_arrive env f d w =
       (let (ok, w2) = ws_dispatch env (frame_opcode (ws_frame w1)) (ib_data (ws_frag w) @ d) w1 in
        Some (if ok then (True, w2\<lparr>ws_frag := snd (ib_IgnoreAll (ws_frag w2))\<rparr>) else (False, w2)))"
    using ws_arrive_final [OF f(1) wf room] by blast
  have opc: "frame_opcode (ws_frame w1) = ws_opcode binary"
    using f(2) by (simp add: w1)
  then show ?thesis
    using acc ib_IgnoreAll_wf [OF wf'] cont
    by (cases binary) (simp_all add: arr ws_dispatch_def ws_opcode_def ws_handle_def w1 ws_ready_def)
qed

lemma ws_rest_received:
  assumes "ps \<noteq> []" and "list_all ws_piece_ok ps" and "ws_inside binary acc w"
    and "length acc + length (concat (map snd ps)) \<le> 2 ^ 31"
    and "we_accept env (ws_events w) (ws_msg_event (binary, (k, acc) # ps))"
  shows "\<exists>w'. ws_loop env w (ws_rest_wire ps @ rest) = ws_loop env w' rest \<and> ws_ready w' \<and>
     ws_events w' = ws_events w @ [ws_msg_event (binary, (k, acc) # ps)] \<and> ws_sent w' = ws_sent w \<and> ws_state w' = ws_state w"
  using assms
proof (induction ps arbitrary: w acc)
  case (Cons p ps)
  let ?f = "ws_piece_frame (ps = []) 0 p" and ?d = "snd p"
  have ok: "ws_frame_ok ?f" "length ?d < 2 ^ 32" "frame_payload_length (ws_frame w) = 0"
    using Cons.prems by (simp_all add: ws_piece_frame_ok ws_inside_def)
  have wf: "ib_wf (ws_frag w)" "ib_data (ws_frag w) = acc" "ib_published (ws_frag w) + length ?d \<le> 2 ^ 31"
    using Cons.prems by (simp_all add: ws_inside_def)
  note loop = ws_loop_frame [OF ok, of env "ws_rest_wire ps @ rest"]
  show ?case
  proof (cases "ps = []")
    case True
    have "ws_msg_event (binary, [(k, acc), p]) = (if binary then WsBinary (acc @ ?d) else WsText (acc @ ?d))"
      by (simp add: ws_msg_event_def)
    moreover have "frame_opcode (ws_frame (ws_continue (ws_frame_as ?f (length ?d) (ws_frame w)) w)) = ws_opcode binary"
      "ws_opcode_continue (ws_continue (ws_frame_as ?f (length ?d) (ws_frame w)) w) = 0"
      using True Cons.prems by (simp_all add: ws_continue_def ws_inside_def)
    ultimately obtain w' where "ws_arrive env ?f ?d w = Some (True, w')" "ws_ready (w'\<lparr>ws_frame := wsframe_zero\<rparr>)"
      "ws_events w' = ws_events w @ [ws_msg_event (binary, [(k, acc), p])]" "ws_sent w' = ws_sent w" "ws_state w' = ws_state w"
      using ws_final_frame [of ?f ?d w binary env] True wf Cons.prems by auto
    then show ?thesis
      using loop True by (intro exI [of _ "w'\<lparr>ws_frame := wsframe_zero\<rparr>"]) simp
  next
    case False
    let ?w = "ws_continue (ws_frame_as ?f (length ?d) (ws_frame w)) w"
    obtain frag where frag: "ws_arrive env ?f ?d w = Some (True, ?w\<lparr>ws_frag := frag\<rparr>)" "ib_appended (ws_frag w) ?d frag"
      using ws_arrive_fragment [of ?f w ?d env] False wf by auto
    let ?w1 = "?w\<lparr>ws_frag := frag, ws_frame := wsframe_zero\<rparr>"
    have "ws_inside binary (acc @ ?d) ?w1"
      using frag(2) wf Cons.prems(3) False by (auto simp: ws_inside_def ib_appended_def ws_continue_def)
    moreover have "ws_msg_event (binary, (k, acc @ ?d) # ps) = ws_msg_event (binary, (k, acc) # p # ps)"
      by (simp add: ws_msg_event_def)
    ultimately obtain w' where "ws_loop env ?w1 (ws_rest_wire ps @ rest) = ws_loop env w' rest" "ws_ready w'"
      "ws_events w' = ws_events w @ [ws_msg_event (binary, (k, acc) # p # ps)]" "ws_sent w' = ws_sent w" "ws_state w' = ws_state w"
      using Cons.IH [of "acc @ ?d" ?w1] Cons.prems False by auto
    then show ?thesis
      using loop frag(1) by auto
  qed
qed simp

lemma ws_msg_received:
  assumes "ws_msg_ok m" and "ws_ready w" and "we_accept env (ws_events w) (ws_msg_event m)"
  shows "\<exists>w'. ws_loop env w (ws_msg_wire m @ rest) = ws_loop env w' rest \<and> ws_ready w' \<and>
     ws_events w' = ws_events w @ [ws_msg_event m] \<and> ws_sent w' = ws_sent w \<and> ws_state w' = ws_state w"
proof -
  obtain binary p ps where m: "m = (binary, p # ps)"
    using assms(1) by (cases m; cases "snd m") (auto simp: ws_msg_ok_def)
  let ?f = "ws_piece_frame (ps = []) (ws_opcode binary) p" and ?d = "snd p"
  have ok: "ws_frame_ok ?f" "length ?d < 2 ^ 32" "frame_payload_length (ws_frame w) = 0"
    using assms by (simp_all add: m ws_msg_ok_def ws_ready_def ws_piece_frame_ok)
  have wf: "ib_wf (ws_frag w)" "ib_data (ws_frag w) = []" "ib_published (ws_frag w) + length ?d \<le> 2 ^ 31"
    using assms by (simp_all add: m ws_msg_ok_def ws_ready_def)
  note loop = ws_loop_frame [OF ok, of env "ws_rest_wire ps @ rest"]
  show ?thesis
  proof (cases "ps = []")
    case True
    have ev: "ws_msg_event m = (if binary then WsBinary ?d else WsText ?d)"
      using True by (simp add: m ws_msg_event_def)
    moreover have "frame_opcode (ws_frame (ws_continue (ws_frame_as ?f (length ?d) (ws_frame w)) w)) = ws_opcode binary"
      "ws_opcode_continue (ws_continue (ws_frame_as ?f (length ?d) (ws_frame w)) w) = 0"
      using True assms(2) by (simp_all add: ws_continue_def ws_ready_def)
    ultimately obtain w' where "ws_arrive env ?f ?d w = Some (True, w')" "ws_ready (w'\<lparr>ws_frame := wsframe_zero\<rparr>)"
      "ws_events w' = ws_events w @ [ws_msg_event m]" "ws_sent w' = ws_sent w" "ws_state w' = ws_state w"
      using ws_final_frame [of ?f ?d w binary env, unfolded wf(2) append_Nil] True wf assms(3) by auto
    then show ?thesis
      using loop True by (intro exI [of _ "w'\<lparr>ws_frame := wsframe_zero\<rparr>"]) (simp add: m)
  next
    case False
    let ?w = "ws_continue (ws_frame_as ?f (length ?d) (ws_frame w)) w"
    obtain frag where frag: "ws_arrive env ?f ?d w = Some (True, ?w\<lparr>ws_frag := frag\<rparr>)" "ib_appended (ws_frag w) ?d frag"
      using ws_arrive_fragment [of ?f w ?d env] False wf by auto
    let ?w1 = "?w\<lparr>ws_frag := frag, ws_frame := wsframe_zero\<rparr>"
    have "ws_inside binary ?d ?w1"
      using frag(2) wf assms(2) False by (auto simp: ws_inside_def ib_appended_def ws_continue_def ws_ready_def)
    moreover have "ws_msg_event (binary, (fst p, ?d) # ps) = ws_msg_event m"
      by (simp add: m)
    ultimately obtain w' where "ws_loop env ?w1 (ws_rest_wire ps @ rest) = ws_loop env w' rest" "ws_ready w'"
      "ws_events w' = ws_events w @ [ws_msg_event m]" "ws_sent w' = ws_sent w" "ws_state w' = ws_state w"
      using ws_rest_received [OF False, of binary ?d ?w1 env "fst p" rest] assms by (auto simp: m ws_msg_ok_def)
    then show ?thesis
      using loop frag(1) by (auto simp: m)
  qed
qed

lemma ws_msgs_received:
  assumes "list_all ws_msg_ok msgs" and "ws_ready w" and "\<And>es e. we_accept env es e"
  shows "\<exists>w'. ws_loop env w (concat (map ws_msg_wire msgs) @ rest) = ws_loop env w' rest \<and> ws_ready w' \<and>
     ws_events w' = ws_events w @ map ws_msg_event msgs \<and> ws_sent w' = ws_sent w \<and> ws_state w' = ws_state w"
  using assms(1,2)
proof (induction msgs arbitrary: w)
  case (Cons m msgs)
  obtain w1 where w1: "ws_loop env w (ws_msg_wire m @ concat (map ws_msg_wire msgs) @ rest) =
      ws_loop env w1 (concat (map ws_msg_wire msgs) @ rest)" "ws_ready w1"
    "ws_events w1 = ws_events w @ [ws_msg_event m]" "ws_sent w1 = ws_sent w" "ws_state w1 = ws_state w"
    using ws_msg_received [of m w env "concat (map ws_msg_wire msgs) @ rest"] Cons.prems assms(3) by auto
  obtain w' where "ws_loop env w1 (concat (map ws_msg_wire msgs) @ rest) = ws_loop env w' rest" "ws_ready w'"
    "ws_events w' = ws_events w1 @ map ws_msg_event msgs" "ws_sent w' = ws_sent w1" "ws_state w' = ws_state w1"
    using Cons.IH [of w1] Cons.prems w1(2) by auto
  then show ?case
    using w1 by (intro exI [of _ w']) simp
qed auto

section \<open>The stream behind a connection\<close>

lemma ws_loop_idle: "ws_ready w \<Longrightarrow> ws_loop env w [] = Some (Some [], w)"
  by (subst ws_loop.simps) (simp add: ws_next_def ws_ready_def)

lemma ws_dispatch_state:
  "ws_dispatch env opc d w = (ok, w') \<Longrightarrow> ws_state w' = ws_state w"
proof -
  have send: "ws_state (snd (SendWS env f x v)) = ws_state v" for f x v
    by (simp add: SendWS_def ws_send_def Let_def)
  have "ws_state (SendClose env v) = ws_state v" for v
    by (simp add: SendClose_def send)
  then show "ws_dispatch env opc d w = (ok, w') \<Longrightarrow> ws_state w' = ws_state w"
    by (auto simp: ws_dispatch_def ws_handle_def ws_close_with_def SendPong_def send split: if_splits)
qed

lemma ws_deliver_state: "ws_deliver env p w = Some (ok, w') \<Longrightarrow> ws_state w' = ws_state w"
  by (auto simp: ws_deliver_def Let_def split: if_splits prod.splits bind_splits dest!: ws_dispatch_state)

text \<open>
  A relation between what was before and what is after that the reading of a header and the delivery of a frame
  respect is respected by the loop, which only drops bytes from the front.
\<close>

lemma ws_loop_respects:
  assumes same: "\<And>w. R w w" and trans: "\<And>u v w. R u v \<Longrightarrow> R v w \<Longrightarrow> R u w"
    and frame: "\<And>w f. R w (w\<lparr>ws_frame := f\<rparr>)" and continue: "\<And>w f. R w (ws_continue f w)"
    and deliver: "\<And>env p w ok w'. ws_deliver env p w = Some (ok, w') \<Longrightarrow> R w w'"
  shows "ws_loop env w buf = Some (r, w') \<Longrightarrow> R w w' \<and> (\<forall>rest. r = Some rest \<longrightarrow> (\<exists>k. rest = drop k buf))"
proof (induction env w buf arbitrary: r w' rule: ws_loop.induct)
  case (1 env w buf)
  have next_respects: "case ws_next w buf of Inr w1 \<Rightarrow> R w w1 | Inl (w1, b1) \<Rightarrow> R w w1 \<and> (\<exists>k. b1 = drop k buf)"
    by (auto simp: ws_next_def same frame continue split: sum.split prod.split option.split intro: exI [of _ 0])
  show ?case
  proof (cases "ws_next w buf")
    case (Inr w1)
    then show ?thesis
      using "1.prems" next_respects by (auto simp: ws_loop.simps [of env w buf] intro: exI [of _ 0])
  next
    case (Inl p)
    obtain w1 b1 where p: "p = (w1, b1)"
      by (cases p)
    let ?n = "frame_payload_length (ws_frame w1)"
    obtain k where k: "b1 = drop k buf" "R w w1"
      using next_respects Inl p by auto
    show ?thesis
    proof (cases "length b1 < ?n")
      case True
      then show ?thesis
        using "1.prems" Inl p k by (auto simp: ws_loop.simps [of env w buf])
    next
      case False
      then obtain ok w2 where d: "ws_deliver env (take ?n b1) w1 = Some (ok, w2)"
        using "1.prems" Inl p by (auto simp: ws_loop.simps [of env w buf] Let_def split: option.splits)
      have R2: "R w w2"
        using trans [OF k(2) deliver [OF d]] .
      show ?thesis
      proof (cases ok)
        case True
        then have "ws_loop env (w2\<lparr>ws_frame := wsframe_zero\<rparr>) (drop ?n b1) = Some (r, w')"
          using "1.prems" False Inl p d by (simp add: ws_loop.simps [of env w buf] Let_def)
        moreover have "ok = True"
          using True by simp
        ultimately show ?thesis
          using "1.IH" [OF Inl p [symmetric] refl False d refl] trans [OF trans [OF R2 frame]] k by auto
      next
        case not_ok: False
        then show ?thesis
          using "1.prems" False Inl p d R2 k by (simp add: ws_loop.simps [of env w buf] Let_def)
      qed
    qed
  qed
qed

lemma ws_loop_rest:
  "ws_loop env w buf = Some (r, w') \<Longrightarrow>
     ws_state w' = ws_state w \<and> (\<forall>rest. r = Some rest \<longrightarrow> (\<exists>k. rest = drop k buf))"
  by (rule ws_loop_respects [of "\<lambda>u v. ws_state v = ws_state u"]) (auto simp: ws_continue_def dest: ws_deliver_state)

text \<open>
  How a carrier drives the protocol: it appends each segment to its input buffer, hands the buffer over and
  drops the bytes reported as used; a negative result ends the connection. \<open>ws_small\<close> says that no call is given 2 GiB or more.
\<close>

fun ws_feed :: "ws_env \<Rightarrow> ws \<Rightarrow> byte list \<Rightarrow> byte list list \<Rightarrow> (byte list option \<times> ws) option" where
  "ws_feed env w pending [] = Some (Some pending, w)"
| "ws_feed env w pending (c # cs) = do {
     (r, w) \<leftarrow> ws_HandlerProtocol env (pending @ c) (length (pending @ c)) w;
     (if r < 0 then Some (None, w) else ws_feed env w (drop (nat r) (pending @ c)) cs)
   }"

fun ws_small :: "ws_env \<Rightarrow> ws \<Rightarrow> byte list \<Rightarrow> byte list list \<Rightarrow> bool" where
  "ws_small env w pending [] = True"
| "ws_small env w pending (c # cs) =
     (length (pending @ c) < 2 ^ 31 \<and>
      (case ws_HandlerProtocol env (pending @ c) (length (pending @ c)) w of
         None \<Rightarrow> True
       | Some (r, w) \<Rightarrow> r < 0 \<or> ws_small env w (drop (nat r) (pending @ c)) cs))"

lemma ws_small_total: "length pending + length (concat cs) < 2 ^ 31 \<Longrightarrow> ws_small env w pending cs"
  by (induction cs arbitrary: w pending) (auto split: option.split)

lemma ws_HandlerProtocol_open:
  assumes "ws_state w = WS_STATE_OPEN" and "ws_loop env w buf = Some (Some b, w')" and "length buf < 2 ^ 31"
  shows "\<exists>r. ws_HandlerProtocol env buf (length buf) w = Some (r, w') \<and> 0 \<le> r \<and> drop (nat r) buf = b"
proof -
  obtain k where "b = drop k buf"
    using ws_loop_rest [OF assms(2)] by blast
  then have "drop (length buf - length b) buf = b"
    by (metis diff_diff_cancel diff_le_self drop_all length_drop linear diff_is_0_eq)
  then show ?thesis
    using assms by (simp add: ws_HandlerProtocol_def ws_open_def i32_small)
qed

lemma ws_loop_stuck: "ws_loop env w buf = Some (Some r, w') \<Longrightarrow> ws_loop env w' r = Some (Some r, w')"
  using ws_loop_append [of env w buf "[]"] by simp

lemma ws_feed_loop:
  "ws_state w = WS_STATE_OPEN \<Longrightarrow> ws_loop env w pending = Some (Some pending, w) \<Longrightarrow> ws_small env w pending cs \<Longrightarrow>
     ws_feed env w pending cs = ws_loop env w (pending @ concat cs)"
proof (induction cs arbitrary: w pending)
  case (Cons c cs)
  let ?buf = "pending @ c"
  note app = ws_loop_append [of env w ?buf "concat cs"]
  show ?case
  proof (cases "ws_loop env w ?buf")
    case None
    then show ?thesis
      using app Cons.prems by (simp add: ws_HandlerProtocol_def ws_open_def)
  next
    case (Some q)
    obtain r w' where q: "q = (r, w')"
      by (cases q)
    note rest = ws_loop_rest [OF Some [unfolded q]]
    show ?thesis
    proof (cases r)
      case None
      then show ?thesis
        using app Cons.prems Some q by (simp add: ws_HandlerProtocol_def ws_open_def)
    next
      case r: (Some b)
      have "length ?buf < 2 ^ 31"
        using Cons.prems(3) by simp
      then obtain n where n: "ws_HandlerProtocol env ?buf (length ?buf) w = Some (n, w')" "0 \<le> n" "drop (nat n) ?buf = b"
        using ws_HandlerProtocol_open Cons.prems(1) Some q r by blast
      then have "ws_feed env w pending (c # cs) = ws_feed env w' b cs"
        by simp
      also have "\<dots> = ws_loop env w' (b @ concat cs)"
        using Cons.IH [of w' b] rest Cons.prems ws_loop_stuck Some q r n by auto
      finally show ?thesis
        using app Some q r by simp
    qed
  qed
qed simp

lemma length_ws_wire: "length (frame_masking_key f) = 4 \<Longrightarrow> length (ws_wire f d) \<le> 14 + length d"
  by (auto simp: ws_wire_def ws_frame_head_def ws_mask_def Let_def be16_def be64_def)

text \<open>
  What waits is never longer than the message it belongs to. So when a message and a segment together are shorter than 2 GiB,
  every call is.
\<close>

lemma ws_left_small:
  assumes "list_all ws_msg_ok msgs" and "ws_ready w" and "\<And>es e. we_accept env es e"
    and "b @ rest = concat (map ws_msg_wire msgs)" and "list_all (\<lambda>m. length (ws_msg_wire m) \<le> n) msgs"
    and "ws_loop env w b = Some (Some r, w')"
  shows "length r \<le> n"
  using assms(1,2,4-6)
proof (induction msgs arbitrary: w b)
  case Nil
  then show ?case
    using ws_loop_rest [of env w b "Some r" w'] by auto
next
  case (Cons m msgs)
  show ?case
  proof (cases "length b < length (ws_msg_wire m)")
    case True
    then show ?thesis
      using Cons.prems(4,5) ws_loop_rest [of env w b "Some r" w'] by auto
  next
    case False
    let ?n = "length (ws_msg_wire m)"
    have "take ?n b = ws_msg_wire m" "drop ?n b @ rest = concat (map ws_msg_wire msgs)"
      using arg_cong [OF Cons.prems(3), of "take ?n"] arg_cong [OF Cons.prems(3), of "drop ?n"] False by simp_all
    then obtain b' where b: "b = ws_msg_wire m @ b'" "b' @ rest = concat (map ws_msg_wire msgs)"
      by (metis append_take_drop_id)
    obtain v where "ws_loop env w (ws_msg_wire m @ b') = ws_loop env v b'" "ws_ready v"
      using ws_msg_received [of m w env b'] Cons.prems(1,2) assms(3) by auto
    then show ?thesis
      using Cons.IH [of v b'] Cons.prems b by simp
  qed
qed

lemma ws_small_stream:
  assumes msgs: "list_all ws_msg_ok msgs" "ws_ready w0" "\<And>es e. we_accept env es e"
      "list_all (\<lambda>m. length (ws_msg_wire m) \<le> n) msgs" and k: "n + k < 2 ^ 31"
  shows "seen @ concat cs @ rest = concat (map ws_msg_wire msgs) \<Longrightarrow> ws_loop env w0 seen = Some (Some pending, w) \<Longrightarrow>
     ws_state w0 = WS_STATE_OPEN \<Longrightarrow> list_all (\<lambda>c. length c \<le> k) cs \<Longrightarrow> ws_small env w pending cs"
proof (induction cs arbitrary: seen pending w)
  case (Cons c cs)
  let ?buf = "pending @ c"
  have "length pending \<le> n"
    using ws_left_small [OF msgs(1-3) _ msgs(4) Cons.prems(2)] Cons.prems(1) by simp
  then have len: "length ?buf < 2 ^ 31"
    using k Cons.prems(4) by simp
  have opn: "ws_state w = WS_STATE_OPEN"
    using ws_loop_rest [OF Cons.prems(2)] Cons.prems(3) by simp
  have app: "ws_loop env w0 (seen @ c) = ws_loop env w ?buf"
    using ws_loop_append [of env w0 seen c] Cons.prems(2) by blast
  show ?case
  proof (cases "\<exists>b w'. ws_loop env w ?buf = Some (Some b, w')")
    case True
    then obtain b w' where b: "ws_loop env w ?buf = Some (Some b, w')"
      by blast
    obtain m where m: "ws_HandlerProtocol env ?buf (length ?buf) w = Some (m, w')" "0 \<le> m" "drop (nat m) ?buf = b"
      using ws_HandlerProtocol_open [OF opn b len] by blast
    have "ws_small env w' b cs"
      using Cons.IH [of "seen @ c" b w'] Cons.prems app b by simp
    then show ?thesis
      using len m by simp
  next
    case False
    then have "case ws_HandlerProtocol env ?buf (length ?buf) w of None \<Rightarrow> True | Some (r, w) \<Rightarrow> r < 0"
      using opn by (auto simp: ws_HandlerProtocol_def ws_open_def split: option.splits bind_splits)
    then show ?thesis
      using len by (auto split: option.splits)
  qed
qed simp

lemmas ws_small_received = ws_small_stream [where seen = "[]", OF _ _ _ _ _ _ ws_loop_idle]

section \<open>Sending a message\<close>

fun ws_send_rest :: "ws_env \<Rightarrow> bool \<Rightarrow> byte list list \<Rightarrow> ws \<Rightarrow> bool \<times> ws" where
  "ws_send_rest env binary [] w = (True, w)"
| "ws_send_rest env binary [d] w = SendFragmentTail env d binary w"
| "ws_send_rest env binary (d # e # ds) w =
     (let (ok, w) = SendFragment env d binary w in
      if \<not> ok then (False, w) else ws_send_rest env binary (e # ds) w)"

text \<open>A message in one piece with \<open>SendWhole\<close>, in several with the fragment functions.\<close>

fun ws_send_message :: "ws_env \<Rightarrow> bool \<Rightarrow> byte list list \<Rightarrow> ws \<Rightarrow> bool \<times> ws" where
  "ws_send_message env binary [] w = (True, w)"
| "ws_send_message env binary [d] w = SendWhole env d binary w"
| "ws_send_message env binary (d # e # ds) w =
     (let (ok, w) = SendFragmentHead env d binary w in
      if \<not> ok then (False, w) else ws_send_rest env binary (e # ds) w)"

lemma ws_plain_frame [simp]:
  "ws_piece_frame fin opc (None, d) = wsframe_zero\<lparr>frame_fin := fin, frame_opcode := opc\<rparr>"
  by (simp add: ws_piece_frame_def)

lemma wsframe_zero_upd [simp]: "wsframe_zero\<lparr>frame_fin := False, frame_opcode := opc\<rparr> = wsframe_zero\<lparr>frame_opcode := opc\<rparr>"
  "wsframe_zero\<lparr>frame_fin := f, frame_opcode := 0\<rparr> = wsframe_zero\<lparr>frame_fin := f\<rparr>"
  "wsframe_zero\<lparr>frame_fin := False\<rparr> = wsframe_zero" "wsframe_zero\<lparr>frame_opcode := 0\<rparr> = wsframe_zero"
  by (simp_all add: wsframe_zero_def)

lemma ws_send_rest_wire:
  assumes acc: "\<And>sent d. we_send env sent d"
  shows "\<exists>ps. ws_send_rest env binary ds w = (True, w\<lparr>ws_sent := ws_sent w @ ps\<rparr>) \<and>
     concat ps = ws_rest_wire (map (Pair None) ds)"
proof (induction ds arbitrary: w)
  case Nil
  show ?case
    by (intro exI [of _ "[]"]) simp
next
  case (Cons d ds)
  obtain ps where ps: "SendWS env (wsframe_zero\<lparr>frame_fin := ds = []\<rparr>) d w = (True, w\<lparr>ws_sent := ws_sent w @ ps\<rparr>)"
    "concat ps = ws_wire (wsframe_zero\<lparr>frame_fin := ds = []\<rparr>) d"
    using SendWS_wire [of env _ d w, OF acc] by blast
  show ?case
  proof (cases ds)
    case Nil
    then show ?thesis
      using ps by (intro exI [of _ ps]) (simp add: SendFragmentTail_def)
  next
    case (Cons e es)
    let ?w = "w\<lparr>ws_sent := ws_sent w @ ps\<rparr>"
    obtain ps' where "ws_send_rest env binary ds ?w = (True, ?w\<lparr>ws_sent := ws_sent ?w @ ps'\<rparr>)"
      "concat ps' = ws_rest_wire (map (Pair None) ds)"
      using Cons.IH [of ?w] by blast
    then show ?thesis
      using ps Cons by (intro exI [of _ "ps @ ps'"]) (simp add: SendFragment_def)
  qed
qed

lemma ws_send_message_wire:
  assumes acc: "\<And>sent d. we_send env sent d"
  shows "\<exists>ps. ws_send_message env binary ds w = (True, w\<lparr>ws_sent := ws_sent w @ ps\<rparr>) \<and>
     concat ps = ws_msg_wire (binary, map (Pair None) ds)"
proof (cases ds)
  case Nil
  then show ?thesis
    by (intro exI [of _ "[]"]) simp
next
  case (Cons d es)
  let ?f = "wsframe_zero\<lparr>frame_fin := es = [], frame_opcode := ws_opcode binary\<rparr>"
  obtain ps where ps: "SendWS env ?f d w = (True, w\<lparr>ws_sent := ws_sent w @ ps\<rparr>)" "concat ps = ws_wire ?f d"
    using SendWS_wire [of env ?f d w, OF acc] by blast
  show ?thesis
  proof (cases es)
    case Nil
    then show ?thesis
      using ps Cons by (intro exI [of _ ps]) (simp add: SendWhole_def ws_opcode_def)
  next
    case (Cons e es')
    let ?w = "w\<lparr>ws_sent := ws_sent w @ ps\<rparr>"
    obtain ps' where "ws_send_rest env binary es ?w = (True, ?w\<lparr>ws_sent := ws_sent ?w @ ps'\<rparr>)"
      "concat ps' = ws_rest_wire (map (Pair None) es)"
      using ws_send_rest_wire [of env binary es ?w, OF acc] by blast
    then show ?thesis
      using ps Cons \<open>ds = d # es\<close> by (intro exI [of _ "ps @ ps'"]) (simp add: SendFragmentHead_def ws_opcode_def)
  qed
qed

section \<open>Control frames\<close>

definition ws_ping :: "byte list option \<Rightarrow> wsframe" where
  "ws_ping key = ws_piece_frame True 0x9 (key, [])"

definition ws_pong :: wsframe where
  "ws_pong = wsframe_zero\<lparr>frame_fin := True, frame_opcode := 0xa\<rparr>"

lemma ws_ping_inside:
  assumes ins: "ws_inside binary acc w" and key: "ws_piece_ok (key, [])" and len: "length acc + length d \<le> 2 ^ 31"
    and send: "\<And>sent x. we_send env sent x"
  shows "\<exists>w'. ws_loop env w (ws_wire (ws_ping key) d @ rest) = ws_loop env w' rest \<and> ib_data (ws_frag w') = [] \<and>
     ws_opcode_continue w' = ws_opcode binary \<and> ws_events w' = ws_events w \<and>
     concat (ws_sent w') = concat (ws_sent w) @ ws_wire ws_pong (acc @ d)"
proof -
  let ?f = "ws_ping key"
  have fin: "frame_fin ?f" "frame_opcode ?f = 0x9"
    by (simp_all add: ws_ping_def)
  have ok: "ws_frame_ok ?f" "length d < 2 ^ 32" "frame_payload_length (ws_frame w) = 0"
    using ins len key by (simp_all add: ws_inside_def ws_ping_def ws_piece_frame_ok)
  have wf: "ib_wf (ws_frag w)" "ib_published (ws_frag w) + length d \<le> 2 ^ 31" "ib_data (ws_frag w) = acc"
    using ins len by (simp_all add: ws_inside_def)
  obtain frag w1 where w1: "w1 = (ws_continue (ws_frame_as ?f (length d) (ws_frame w)) w)\<lparr>ws_frag := frag\<rparr>" "ib_wf frag"
    "ws_arrive env ?f d w = (let (ok, w2) = ws_dispatch env (frame_opcode (ws_frame w1)) (acc @ d) w1 in
        Some (if ok then (True, w2\<lparr>ws_frag := snd (ib_IgnoreAll (ws_frag w2))\<rparr>) else (False, w2)))"
    using ws_arrive_final [OF fin(1) wf(1,2), of env] unfolding wf(3) by blast
  have cont: "frame_opcode (ws_frame w1) = 0x9" "ws_opcode_continue w1 = ws_opcode binary"
    using ins fin by (auto simp: w1(1) ws_continue_def ws_inside_def)
  obtain ps where ps: "SendWS env ws_pong (acc @ d) w1 = (True, w1\<lparr>ws_sent := ws_sent w1 @ ps\<rparr>)"
      "concat ps = ws_wire ws_pong (acc @ d)"
    using SendWS_wire [of env ws_pong "acc @ d" w1, OF send] by blast
  then have "ws_dispatch env (frame_opcode (ws_frame w1)) (acc @ d) w1 = (True, w1\<lparr>ws_sent := ws_sent w1 @ ps\<rparr>)"
    using cont by (simp add: ws_dispatch_def SendPong_def ws_pong_def)
  then have arr: "ws_arrive env ?f d w = Some (True, w1\<lparr>ws_sent := ws_sent w1 @ ps, ws_frag := snd (ib_IgnoreAll frag)\<rparr>)"
    by (simp add: w1)
  show ?thesis
    using ws_loop_frame [OF ok, of env rest] arr ib_IgnoreAll_wf [OF w1(2)] cont(2) ps(2)
    by (intro exI [of _ "w1\<lparr>ws_sent := ws_sent w1 @ ps, ws_frag := snd (ib_IgnoreAll frag), ws_frame := wsframe_zero\<rparr>"])
      (simp add: w1(1))
qed

definition ws_close :: wsframe where
  "ws_close = wsframe_zero\<lparr>frame_fin := True, frame_opcode := 0x8\<rparr>"

definition ws_close_frame :: "byte list option \<Rightarrow> wsframe" where
  "ws_close_frame key = ws_piece_frame True 0x8 (key, [])"

lemma ws_close_arrives:
  assumes ready: "ws_ready w" and key: "ws_piece_ok (key, [])" and len: "length d \<le> 2 ^ 31"
    and send: "\<And>sent x. we_send env sent x" and "\<not> ws_is_send_close w"
  shows "\<exists>w'. ws_loop env w (ws_wire (ws_close_frame key) d @ rest) =
       (if length d = 2 then Some (None, w') else ws_loop env w' rest) \<and>
     ws_events w' = ws_events w \<and>
     (if length d = 2 then ws_is_send_close w' \<and> concat (ws_sent w') = concat (ws_sent w) @ ws_wire ws_close (be16 1000)
      else ws_ready w' \<and> ws_sent w' = ws_sent w)"
proof -
  let ?f = "ws_close_frame key"
  have fin: "frame_fin ?f" "frame_opcode ?f = 0x8"
    by (simp_all add: ws_close_frame_def)
  have ok: "ws_frame_ok ?f" "length d < 2 ^ 32" "frame_payload_length (ws_frame w) = 0"
    using ready len key by (simp_all add: ws_ready_def ws_close_frame_def ws_piece_frame_ok)
  have wf: "ib_wf (ws_frag w)" "ib_published (ws_frag w) + length d \<le> 2 ^ 31" "ib_data (ws_frag w) = []"
    using ready len by (simp_all add: ws_ready_def)
  obtain frag w1 where w1: "w1 = (ws_continue (ws_frame_as ?f (length d) (ws_frame w)) w)\<lparr>ws_frag := frag\<rparr>" "ib_wf frag"
    "ws_arrive env ?f d w = (let (ok, w2) = ws_dispatch env (frame_opcode (ws_frame w1)) d w1 in
        Some (if ok then (True, w2\<lparr>ws_frag := snd (ib_IgnoreAll (ws_frag w2))\<rparr>) else (False, w2)))"
    using ws_arrive_final [OF fin(1) wf(1,2), of env] unfolding wf(3) append_Nil by blast
  have cont: "frame_opcode (ws_frame w1) = 0x8" "ws_opcode_continue w1 = 0"
    using ready fin by (auto simp: w1(1) ws_continue_def ws_ready_def)
  note loop = ws_loop_frame [OF ok, of env rest]
  show ?thesis
  proof (cases "length d = 2")
    case True
    let ?w = "w1\<lparr>ws_status_code := 1000, ws_is_send_close := True\<rparr>"
    obtain ps where ps: "SendWS env ws_close (be16 1000) ?w = (True, ?w\<lparr>ws_sent := ws_sent ?w @ ps\<rparr>)"
      "concat ps = ws_wire ws_close (be16 1000)"
      using SendWS_wire [of env ws_close "be16 1000" ?w, OF send] by blast
    have "ws_dispatch env (frame_opcode (ws_frame w1)) d w1 = (False, ?w\<lparr>ws_sent := ws_sent ?w @ ps\<rparr>)"
      using cont True ps(1) assms(5)
      by (simp add: ws_dispatch_def ws_close_with_def SendClose_def ws_close_def w1(1) ws_continue_def)
    then show ?thesis
      using True loop w1 ps(2) by (intro exI [of _ "?w\<lparr>ws_sent := ws_sent ?w @ ps\<rparr>"]) (simp add: w1(1))
  next
    case False
    then have "ws_dispatch env (frame_opcode (ws_frame w1)) d w1 = (True, w1)"
      using cont by (simp add: ws_dispatch_def)
    then show ?thesis
      using False loop w1 ib_IgnoreAll_wf [OF w1(2)] cont(2)
      by (intro exI [of _ "w1\<lparr>ws_frag := snd (ib_IgnoreAll frag), ws_frame := wsframe_zero\<rparr>"]) (simp add: ws_ready_def w1(1))
  qed
qed

section \<open>The opening handshake\<close>

definition ws_hash_of ::
  "string \<Rightarrow> string \<Rightarrow> (string \<times> string) list \<Rightarrow> (string \<rightharpoonup> string) \<Rightarrow> (string \<rightharpoonup> string)" where
  "ws_hash_of uri version hs m = hash_add hs (m(''uri'' \<mapsto> uri, ''ws_version'' \<mapsto> version))"

definition ws_parsed :: "string \<Rightarrow> (string \<times> string) list \<Rightarrow> string \<Rightarrow> (string \<times> string) list \<Rightarrow> ws \<Rightarrow> ws" where
  "ws_parsed uri q version hs w =
     w\<lparr>ws_args := hash_add q (ws_args w), ws_request := ws_hash_of uri version hs (ws_request w)\<rparr>"

lemma ws_query_spec:
  assumes "uri_ok uri" and "list_all arg_ok q"
  shows "\<exists>x. length x = length (target uri q) \<and>
     ws_query (pre @ target uri q @ NUL # t) (length pre) w =
       Some (pre @ x @ NUL # t,
         w\<lparr>ws_args := hash_add q (ws_args w), ws_request := (ws_request w)(''uri'' \<mapsto> uri)\<rparr>)"
proof (cases "q = []")
  case True
  have "c_strstr (uri @ NUL # t) 0 ''?'' = Some None"
    using assms by (intro c_strstr_absent) (auto simp: uri_ok_def)
  then show ?thesis
    using True assms
    by (intro exI [of _ uri]) (simp add: target_def ws_query_def c_strstr_append0 uri_ok_def)
next
  case False
  let ?pre = "pre @ uri @ [NUL]" and ?q = "arg_block q"
  have mark: "c_strstr (pre @ uri @ CHR ''?'' # ?q @ NUL # t) (length pre) ''?'' = Some (Some (length pre + length uri))"
    using assms(1) c_strstr_char [of "CHR ''?''" uri "?q @ NUL # t"] by (simp add: c_strstr_append0 uri_ok_def)
  obtain x where x: "length x = length ?q"
    "http_args_loop (?pre @ ?q @ NUL # t) (length ?pre) (ws_args w) = Some (?pre @ x @ NUL # t, hash_add q (ws_args w))"
    using http_args_block [OF False assms(2)] by blast
  have "c_str_at (pre @ uri @ NUL # x @ NUL # t) (length pre) = Some uri"
    using assms(1) by (simp add: uri_ok_def)
  then have "ws_query (pre @ target uri q @ NUL # t) (length pre) w = Some (pre @ (uri @ NUL # x) @ NUL # t,
      w\<lparr>ws_args := hash_add q (ws_args w), ws_request := (ws_request w)(''uri'' \<mapsto> uri)\<rparr>)"
    using False mark x(2) by (simp add: target_def ws_query_def)
  then show ?thesis
    using x(1) False by (intro exI [of _ "uri @ NUL # x"]) (simp add: target_def)
qed

lemma ws_ParseHeader_spec:
  assumes u: "uri_ok uri" and q: "list_all arg_ok q" and v: "text_ok version" and hs: "headers_ok hs"
  shows "ws_ParseHeader (request_text uri q version hs @ NUL # t) w = Some (True, ws_parsed uri q version hs w)"
proof -
  let ?g = "''GET ''" and ?t = "target uri q" and ?r = "LF # header_block hs @ NUL # t"
  let ?w = "w\<lparr>ws_args := hash_add q (ws_args w), ws_request := (ws_request w)(''uri'' \<mapsto> uri)\<rparr>"
  note tc = target_chars [OF u q]
  have len4: "length ?g = 4"
    by simp
  let ?line = "?g @ ?t @ CHR '' '' # version"
  have "c_strstr (?line @ CRLF @ header_block hs @ NUL # t) 0 CRLF = Some (Some (length ?line))"
    using tc v by (intro c_strstr_first) (auto simp: text_ok_def)
  then have eol: "c_strstr (?g @ ?t @ CHR '' '' # version @ CR # ?r) 0 CRLF = Some (Some (length ?line))"
    by simp
  have m1: "(?g @ ?t @ CHR '' '' # version @ CR # ?r)[length ?line := NUL] = ?g @ ?t @ CHR '' '' # version @ NUL # ?r"
    using list_update_at [of ?line CR ?r NUL] by simp
  have "c_strstr (?g @ ?t @ CHR '' '' # version @ NUL # ?r) (length ?g) '' '' = Some (Some (length ?g + length ?t))"
    using tc c_strstr_char [of "CHR '' ''" ?t "version @ NUL # ?r"] by (simp only: c_strstr_append0) simp
  then have sp: "c_strstr (?g @ ?t @ CHR '' '' # version @ NUL # ?r) 4 '' '' = Some (Some (length (?g @ ?t)))"
    by (simp only: len4 length_append)
  have m2: "(?g @ ?t @ CHR '' '' # version @ NUL # ?r)[length (?g @ ?t) := NUL] = ?g @ ?t @ NUL # version @ NUL # ?r"
    using list_update_at [of "?g @ ?t" "CHR '' ''" "version @ NUL # ?r" NUL] by simp
  obtain x where x: "length x = length ?t"
    "ws_query (?g @ ?t @ NUL # version @ NUL # ?r) (length ?g) w = Some (?g @ x @ NUL # version @ NUL # ?r, ?w)"
    using ws_query_spec [OF u q] by blast
  then have query: "ws_query (?g @ ?t @ NUL # version @ NUL # ?r) 4 w = Some (?g @ x @ NUL # version @ NUL # ?r, ?w)"
    by (simp only: len4)
  have "c_str_at ((?g @ x @ [NUL]) @ version @ NUL # ?r) (length (?g @ x @ [NUL])) = Some version"
    using v by (simp only: c_str_at_append0) (simp add: text_ok_def)
  then have ver: "c_str_at (?g @ x @ NUL # version @ NUL # ?r) (length (?g @ ?t) + 1) = Some version"
    using x(1) by simp
  let ?pre = "?g @ x @ NUL # version @ [NUL, LF]"
  have pre: "?g @ x @ NUL # version @ NUL # ?r = ?pre @ header_block hs @ NUL # t" "length ?line + 2 = length ?pre"
    using x(1) by simp_all
  let ?h = "(ws_request ?w)(''ws_version'' \<mapsto> version)"
  obtain y where lns: "http_lines True (?pre @ header_block hs @ NUL # t) (length ?pre) ?h =
      Some (hs \<noteq> [] \<or> True, ?pre @ y @ NUL # t, hash_add hs ?h)"
    using http_lines_block [OF hs] by blast
  have "ws_ParseHeader (?g @ ?t @ CHR '' '' # version @ CR # ?r) w = Some (True, ws_parsed uri q version hs w)"
    unfolding ws_ParseHeader_def Let_def eol Option.bind.bind_lunit option.case m1 sp m2 query prod.case ver
    unfolding pre lns by (simp add: ws_parsed_def ws_hash_of_def)
  then show ?thesis
    by (simp add: request_text_def request_line_def)
qed

lemma ws_found_parsed:
  assumes ok: "uri_ok uri" "list_all arg_ok q" "text_ok version" "headers_ok hs"
    and mem: "mem = request_text uri q version hs @ CRLF @ CRLF @ body"
    and len: "length (request_text uri q version hs) < 2 ^ 30"
  shows "ws_found env mem (length (request_text uri q version hs)) w =
     (let w1 = ws_parsed uri q version hs w in
      if \<not> ws_CheckHeader w1 then Some (-1, Respond400 env w1)
      else let (ok, w2) = we_handshake env w1 in
        if \<not> ok then Some (-1, Respond400 env w2)
        else Some (int (length (request_text uri q version hs @ CRLF @ CRLF)), (Respond101 env w2)\<lparr>ws_state := WS_STATE_OPEN\<rparr>))"
proof -
  let ?n = "length (request_text uri q version hs)"
  have "mem[?n := NUL] = request_text uri q version hs @ NUL # LF # CR # LF # body"
    using list_update_at [of "request_text uri q version hs" CR "LF # CR # LF # body" NUL] by (simp add: mem)
  then have "ws_ParseHeader (mem[?n := NUL]) w = Some (True, ws_parsed uri q version hs w)"
    using ws_ParseHeader_spec [OF ok] by simp
  then show ?thesis
    using len by (simp add: ws_found_def Let_def i32_small split: prod.split)
qed

text \<open>The search for the end of the handshake is undefined as soon as it compares a first character, as in the HTTP handler.\<close>

lemma ws_search_undefined:
  assumes "4 \<le> len" and "len \<le> length data" and "len < 2 ^ 31" and "ws_state w = WS_STATE_HANDSHAKE"
  shows "ws_HandlerProtocol env data len w = (if CR \<in> set (take (len - 3) (map chr_of data)) then None else Some (0, w))"
proof -
  have sizes: "length (CRLF @ CRLF) = 4" "length [LF, CR, LF] = 3"
    by simp_all
  have "rstrstr (map chr_of data) 0 len ((CRLF @ CRLF) @ [NUL]) 0 4 =
      (if CR \<in> set (take (len - 3) (map chr_of data)) then None else Some None)"
    using rstrstr_literal [of CR len "map chr_of data" "CRLF @ CRLF" "[LF, CR, LF]", unfolded sizes] assms by simp
  then show ?thesis
    using assms by (simp add: ws_HandlerProtocol_def ws_handshake_def i32_small)
qed

definition ws_101 :: "string \<Rightarrow> (string \<times> string) list \<Rightarrow> string" where
  "ws_101 accept hs = ''HTTP/1.1 101 Switching Protocols'' @ CRLF @ ''Upgrade: websocket'' @ CRLF @
     ''Connection: Upgrade'' @ CRLF @ ''Sec-WebSocket-Accept: '' @ accept @ CRLF @
     concat (map header_line hs) @ CRLF"

lemma ws_new_ready: "\<exists>w. ws_new = Some w \<and> ws_ready w \<and> ws_state w = WS_STATE_HANDSHAKE \<and> ws_events w = [] \<and> ws_sent w = []"
proof -
  have "ib_published ib_new + 4096 \<le> 2 ^ 31"
    by simp
  then obtain b where "ib_EnsureSize ib_new 4096 = Some (True, b)" "ib_same ib_new b"
    using ib_EnsureSize_spec [OF ib_wf_new] by blast
  moreover have "ib_buffer ib_new = None" "ib_size ib_new = 0" "ib_consumed ib_new = 0"
    by (simp_all add: ib_new_def)
  ultimately show ?thesis
    by (simp add: ws_new_def ib_Initialize_def ws_ready_def ib_same_def)
qed

section \<open>Properties\<close>

text \<open>
  C3: How the network cuts the stream into segments does not matter: in the open state, with whatever the
  application accepts, feeding the protocol any two segmentations of the same bytes gives the same final state,
  the same messages handed over, the same answers and the same bytes left waiting. The condition is that no call is
  given 2 GiB or more: from there on the \<open>int\<close> result is negative and taken for an error.
\<close>
theorem ws_segmentation_irrelevant:
  assumes "ws_ready w" and "ws_state w = WS_STATE_OPEN" and "concat cs = concat cs'"
    and "ws_small env w [] cs" and "ws_small env w [] cs'"
  shows "ws_feed env w [] cs = ws_feed env w [] cs'"
  using assms ws_feed_loop [OF assms(2) ws_loop_idle [OF assms(1)]] by simp

definition ws_demo_env :: ws_env where
  "ws_demo_env = \<lparr>we_send = (\<lambda>_ _. True), we_accept = (\<lambda>_ _. True), we_handshake = HandlerHandshake,
     we_sha1_b64 = (\<lambda>s. take 4 s), we_enum = (\<lambda>_. [])\<rparr>"

definition ws_demo :: ws where
  "ws_demo = \<lparr>ws_request = Map.empty, ws_respond = Map.empty, ws_args = Map.empty, ws_state = WS_STATE_OPEN,
     ws_frag = ib_new, ws_frame = wsframe_zero, ws_opcode_continue = 0, ws_is_send_close = False,
     ws_status_code = 1001, ws_events = [], ws_sent = []\<rparr>"

lemma ws_demo_ready [simp]: "ws_ready ws_demo" "ws_state ws_demo = WS_STATE_OPEN"
  by (simp_all add: ws_ready_def ws_demo_def)

lemma ws_segmentation_irrelevant_witness:
  "ws_feed ws_demo_env ws_demo [] [[0x81], [0x01, 0x41]] = ws_feed ws_demo_env ws_demo [] [[0x81, 0x01, 0x41]]"
  by (rule ws_segmentation_irrelevant) (simp_all add: ws_small_total del: ws_small.simps)

text \<open>
  C4: Every message arrives: the frames of any sequence of text and binary messages, each sent whole or in
  any number of fragments, masked or not, with payloads of any of the three length formats, arriving in any segmentation,
  are delivered to an accepting application as exactly these messages in this order; nothing is sent back
  and nothing is left over. The bounds \<open>n\<close> on the bytes of a message and \<open>k\<close> on those of a segment are together below 2 GiB;
  the number of messages and of segments has none.
\<close>
theorem ws_stream_received:
  assumes "list_all ws_msg_ok msgs" and "ws_ready w" and "ws_state w = WS_STATE_OPEN"
    and "\<And>es e. we_accept env es e" and "concat chunks = concat (map ws_msg_wire msgs)"
    and "list_all (\<lambda>m. length (ws_msg_wire m) \<le> n) msgs" and "list_all (\<lambda>c. length c \<le> k) chunks" and "n + k < 2 ^ 31"
  shows "\<exists>w'. ws_feed env w [] chunks = Some (Some [], w') \<and> ws_ready w' \<and>
     ws_events w' = ws_events w @ map ws_msg_event msgs \<and> ws_sent w' = ws_sent w"
proof -
  have "ws_small env w [] chunks"
    using assms by (intro ws_small_received [where rest = "[]"]) simp_all
  then show ?thesis
    using ws_msgs_received [OF assms(1,2,4), of "[]"] ws_feed_loop [OF assms(3) ws_loop_idle [OF assms(2)], of env chunks]
      ws_loop_idle assms(5) by fastforce
qed

lemma ws_stream_received_witness:
  "\<exists>w'. ws_feed ws_demo_env ws_demo []
       [concat (map ws_msg_wire [(False, [(Some [1, 2, 3, 4], [0x41, 0x42]), (None, [0x43])]), (True, [(None, [])])])] =
     Some (Some [], w') \<and> ws_ready w' \<and>
     ws_events w' = ws_events ws_demo @
       map ws_msg_event [(False, [(Some [1, 2, 3, 4], [0x41, 0x42]), (None, [0x43])]), (True, [(None, [])])] \<and>
     ws_sent w' = ws_sent ws_demo"
proof (rule ws_stream_received)
  let ?ms = "[(False, [(Some [1, 2, 3, 4], [0x41, 0x42]), (None, [0x43])]), (True, [(None, [])])] :: ws_msg list"
  show "list_all (\<lambda>m. length (ws_msg_wire m) \<le> 100) ?ms" "list_all (\<lambda>c. length c \<le> 100) [concat (map ws_msg_wire ?ms)]"
    using length_ws_wire [of "ws_piece_frame False 1 (Some [1, 2, 3, 4], [])" "[0x41, 0x42]"]
      length_ws_wire [of "ws_piece_frame True 0 (None, [])" "[0x43]"] length_ws_wire [of "ws_piece_frame True 2 (None, [])" "[]"]
    by (simp_all add: ws_piece_frame_def ws_opcode_def wsframe_zero_def del: ws_plain_frame)
qed (simp_all add: ws_msg_ok_def ws_piece_ok_def ws_demo_env_def)

text \<open>
  What one end sends with \<open>SendWhole\<close>, or with \<open>SendFragmentHead\<close>, \<open>SendFragment\<close> and \<open>SendFragmentTail\<close>, the other end
  delivers as one message with the pieces joined, if it takes less than 1 GiB on the wire.
\<close>
theorem ws_message_roundtrip:
  assumes "ds \<noteq> []" and "length (concat ds) \<le> 2 ^ 31" and "\<And>sent d. we_send senv sent d"
    and "length (ws_msg_wire (binary, map (Pair None) ds)) < 2 ^ 30"
    and "ws_ready w" and "ws_state w = WS_STATE_OPEN" and "\<And>es e. we_accept env es e"
  shows "\<exists>ps. ws_send_message senv binary ds s = (True, s\<lparr>ws_sent := ws_sent s @ ps\<rparr>) \<and>
     (\<exists>w'. ws_feed env w [] ps = Some (Some [], w') \<and>
        ws_events w' = ws_events w @ [if binary then WsBinary (concat ds) else WsText (concat ds)])"
proof -
  let ?m = "(binary, map (Pair None) ds) :: ws_msg"
  obtain ps where ps: "ws_send_message senv binary ds s = (True, s\<lparr>ws_sent := ws_sent s @ ps\<rparr>)"
    "concat ps = ws_msg_wire ?m"
    using ws_send_message_wire [OF assms(3)] by blast
  have "map snd (map (Pair (None :: byte list option)) ds) = ds"
    by (simp add: comp_def)
  then have m: "ws_msg_ok ?m" "ws_msg_event ?m = (if binary then WsBinary (concat ds) else WsText (concat ds))"
    using assms(1,2) by (auto simp: ws_msg_ok_def ws_msg_event_def ws_piece_ok_def list_all_iff)
  have k: "list_all (\<lambda>c. length c \<le> length (concat ps)) ps"
    by (induction ps) (auto simp: list_all_iff intro: trans_le_add2)
  have "ws_small env w [] ps"
    using ws_small_received [of "[?m]" w env "length (concat ps)" "length (concat ps)" ps "[]"] m(1) k ps(2) assms by simp
  then show ?thesis
    using ws_msg_received [of ?m w env "[]"] m assms(5-7) ps ws_loop_idle
      ws_feed_loop [OF assms(6) ws_loop_idle [OF assms(5)], of env ps] by fastforce
qed

lemma ws_message_roundtrip_witness:
  "\<exists>ps. ws_send_message ws_demo_env True [[1], [], [2, 3]] ws_demo = (True, ws_demo\<lparr>ws_sent := ws_sent ws_demo @ ps\<rparr>) \<and>
     (\<exists>w'. ws_feed ws_demo_env ws_demo [] ps = Some (Some [], w') \<and>
        ws_events w' = ws_events ws_demo @ [if True then WsBinary (concat [[1], [], [2, 3]]) else WsText (concat [[1], [], [2, 3]])])"
proof (rule ws_message_roundtrip)
  show "length (ws_msg_wire (True, map (Pair None) [[1], [], [2, 3]])) < 2 ^ 30"
    using length_ws_wire [of "ws_piece_frame False 2 (None, [])" "[1]"] length_ws_wire [of "ws_piece_frame False 0 (None, [])" "[]"]
      length_ws_wire [of "ws_piece_frame True 0 (None, [])" "[2, 3]"]
    by (simp add: ws_opcode_def wsframe_zero_def)
qed (simp_all add: ws_demo_env_def)

text \<open>
  A ping between the fragments of a message destroys the message: the answer is a pong that carries the
  fragments received so far in front of the ping's payload, and the fragments are dropped, although the protocol stays
  inside the fragmented message.
\<close>
theorem ws_ping_between_fragments:
  assumes "ws_inside binary acc w" and "ws_piece_ok (key, [])" and "length acc + length d \<le> 2 ^ 31"
    and "\<And>sent x. we_send env sent x"
  shows "\<exists>w'. ws_loop env w (ws_wire (ws_ping key) d @ rest) = ws_loop env w' rest \<and> ib_data (ws_frag w') = [] \<and>
     ws_opcode_continue w' = ws_opcode binary \<and> ws_events w' = ws_events w \<and>
     concat (ws_sent w') = concat (ws_sent w) @ ws_wire ws_pong (acc @ d)"
  using assms by (rule ws_ping_inside)

lemma ws_ping_between_fragments_witness:
  "\<exists>w'. ws_loop ws_demo_env (ws_demo\<lparr>ws_opcode_continue := ws_opcode False,
          ws_frag := ib_new\<lparr>ib_buffer := Some [Some 1], ib_size := 1, ib_published := 1\<rparr>\<rparr>) (ws_wire (ws_ping None) [7] @ []) =
       ws_loop ws_demo_env w' [] \<and> ib_data (ws_frag w') = [] \<and>
     ws_opcode_continue w' = ws_opcode False \<and>
     ws_events w' = ws_events (ws_demo\<lparr>ws_opcode_continue := ws_opcode False,
          ws_frag := ib_new\<lparr>ib_buffer := Some [Some 1], ib_size := 1, ib_published := 1\<rparr>\<rparr>) \<and>
     concat (ws_sent w') = concat (ws_sent (ws_demo\<lparr>ws_opcode_continue := ws_opcode False,
          ws_frag := ib_new\<lparr>ib_buffer := Some [Some 1], ib_size := 1, ib_published := 1\<rparr>\<rparr>)) @ ws_wire ws_pong ([1] @ [7])"
  by (rule ws_ping_between_fragments)
     (simp_all add: ws_demo_def ws_demo_env_def ws_inside_def ws_piece_ok_def ib_wf_def ib_new_def ib_block_def
        ib_cells_def ib_data_def)

text \<open>
  A close frame between messages is answered with one close frame of status 1000 and ends the connection
  exactly when its payload has two bytes; with any other payload, such as a status code and a reason, it is ignored.
\<close>
theorem ws_close_frame_answer:
  assumes "ws_ready w" and "ws_piece_ok (key, [])" and "length d \<le> 2 ^ 31"
    and "\<And>sent x. we_send env sent x" and "\<not> ws_is_send_close w"
  shows "\<exists>w'. ws_loop env w (ws_wire (ws_close_frame key) d @ rest) =
       (if length d = 2 then Some (None, w') else ws_loop env w' rest) \<and>
     ws_events w' = ws_events w \<and>
     (if length d = 2 then ws_is_send_close w' \<and> concat (ws_sent w') = concat (ws_sent w) @ ws_wire ws_close (be16 1000)
      else ws_ready w' \<and> ws_sent w' = ws_sent w)"
  using assms by (rule ws_close_arrives)

lemma ws_close_frame_answer_witness:
  "\<exists>w'. ws_loop ws_demo_env ws_demo (ws_wire (ws_close_frame None) [3, 0xe8, 0x62] @ []) =
       (if length [3, 0xe8, 0x62 :: byte] = 2 then Some (None, w') else ws_loop ws_demo_env w' []) \<and>
     ws_events w' = ws_events ws_demo \<and>
     (if length [3, 0xe8, 0x62 :: byte] = 2
      then ws_is_send_close w' \<and> concat (ws_sent w') = concat (ws_sent ws_demo) @ ws_wire ws_close (be16 1000)
      else ws_ready w' \<and> ws_sent w' = ws_sent ws_demo)"
  by (rule ws_close_frame_answer) (simp_all add: ws_demo_env_def ws_piece_ok_def, simp add: ws_demo_def)

text \<open>
  C33: A complete upgrade request opens the connection once the end of its header has been found: when the version is
  \<open>HTTP/1.1\<close> and the header lines contain the upgrade fields, a key, version 13 and no sub-protocol, the answer is the 101
  response whose accept field is the digest of the key and the protocol's identifier, the bytes up to the end of the blank line
  are used, and the state becomes open and ready for frames. The header is shorter than 1 GiB.
\<close>
theorem ws_upgrade:
  assumes ok: "uri_ok uri" "list_all arg_ok q" "headers_ok hs"
    and mem: "mem = request_text uri q ''HTTP/1.1'' hs @ CRLF @ CRLF @ body"
    and len: "length (request_text uri q ''HTTP/1.1'' hs) < 2 ^ 30"
    and st: "ws_ready w" "ws_request w = Map.empty"
    and m: "m = ws_hash_of uri ''HTTP/1.1'' hs Map.empty" "m ''ws_version'' = Some ''HTTP/1.1''"
      "m ''Upgrade'' = Some up" "strcase_contains up ''websocket''"
      "m ''Connection'' = Some conn" "strcase_contains conn ''upgrade''"
      "m ''Sec-WebSocket-Key'' = Some key" "m ''Sec-WebSocket-Version'' = Some ''13''"
      "m ''Sec-WebSocket-Protocol'' = None"
    and env: "we_handshake env = HandlerHandshake"
  shows "\<exists>w'. ws_found env mem (length (request_text uri q ''HTTP/1.1'' hs)) w =
       Some (int (length (request_text uri q ''HTTP/1.1'' hs @ CRLF @ CRLF)), w') \<and>
     ws_state w' = WS_STATE_OPEN \<and> ws_ready w' \<and>
     ws_sent w' = ws_sent w @
       [map byte_of (ws_101 (we_sha1_b64 env (key @ ws_guid)) (we_enum env (ws_respond w)))]"
proof -
  let ?w = "ws_parsed uri q ''HTTP/1.1'' hs w"
  have req: "ws_request ?w = m"
    by (simp add: ws_parsed_def st(2) m(1))
  then have chk: "ws_CheckHeader ?w"
    using m by (simp add: ws_CheckHeader_def)
  have hand: "HandlerHandshake ?w = (True, ?w\<lparr>ws_request := m(''Sec-WebSocket-Protocol'' \<mapsto> [])\<rparr>)"
    using req m by (simp add: HandlerHandshake_def ws_GetRequestHeader_def hash_get_def)
  have "text_ok ''HTTP/1.1''"
    by (simp add: text_ok_def)
  from ws_found_parsed [OF ok(1,2) this ok(3) mem len]
  have "ws_found env mem (length (request_text uri q ''HTTP/1.1'' hs)) w =
      Some (int (length (request_text uri q ''HTTP/1.1'' hs @ CRLF @ CRLF)),
        (Respond101 env (?w\<lparr>ws_request := m(''Sec-WebSocket-Protocol'' \<mapsto> [])\<rparr>))\<lparr>ws_state := WS_STATE_OPEN\<rparr>)"
    using chk hand env by (simp only: Let_def simp_thms if_False not_True_eq_False prod.case)
  then show ?thesis
    using m(7) st(1)
    by (simp add: Respond101_def ws_accept_key_def ws_GetRequestHeader_def hash_get_def ws_send_def ws_101_def
        ws_parsed_def ws_ready_def)
qed

definition ws_demo_headers :: "(string \<times> string) list" where
  "ws_demo_headers = [(''Upgrade'', ''WebSocket''), (''Connection'', ''Upgrade''), (''Sec-WebSocket-Key'', ''abc''),
     (''Sec-WebSocket-Version'', ''13'')]"

lemma ws_demo_fields: "strcase_contains ''WebSocket'' ''websocket''" "strcase_contains ''Upgrade'' ''upgrade''"
  by code_simp+

lemma ws_upgrade_witness:
  "\<exists>w'. ws_found ws_demo_env (request_text ''/chat'' [] ''HTTP/1.1'' ws_demo_headers @ CRLF @ CRLF @ [])
       (length (request_text ''/chat'' [] ''HTTP/1.1'' ws_demo_headers)) (ws_demo\<lparr>ws_state := WS_STATE_HANDSHAKE\<rparr>) =
       Some (int (length (request_text ''/chat'' [] ''HTTP/1.1'' ws_demo_headers @ CRLF @ CRLF)), w') \<and>
     ws_state w' = WS_STATE_OPEN \<and> ws_ready w' \<and>
     ws_sent w' = ws_sent (ws_demo\<lparr>ws_state := WS_STATE_HANDSHAKE\<rparr>) @
       [map byte_of (ws_101 (we_sha1_b64 ws_demo_env (''abc'' @ ws_guid))
          (we_enum ws_demo_env (ws_respond (ws_demo\<lparr>ws_state := WS_STATE_HANDSHAKE\<rparr>))))]"
  by (rule ws_upgrade [where m = "ws_hash_of ''/chat'' ''HTTP/1.1'' ws_demo_headers Map.empty" and up = "''WebSocket''" and
        conn = "''Upgrade''"])
     (simp_all add: ws_demo_headers_def ws_demo_env_def uri_ok_def headers_ok_def key_ok_def text_ok_def
        ws_hash_of_def ws_demo_def ws_demo_fields ws_ready_def comp_def request_text_def request_line_def target_def)

end
