(* ===== verification/EndToEnd.thy ===== *)
theory EndToEnd
  imports Lifecycle WsProtocol
begin

text \<open>
  What the components promise together: WebSocket messages written by one process, carried by a TCP connection with its
  buffers and partial sends (theory \<open>Streams\<close>) and parsed by the process at the other end (theory \<open>WsProtocol\<close>).
  The network between them is the bytes that the sending kernel has accepted, of which a prefix has arrived, cut anyhow.
\<close>

section \<open>What a parser has done stays done\<close>

definition ws_grows :: "ws \<Rightarrow> ws \<Rightarrow> bool" where
  "ws_grows w w' \<longleftrightarrow> prefix (ws_events w) (ws_events w') \<and> prefix (ws_sent w) (ws_sent w')"

lemma ws_grows_refl [simp]: "ws_grows w w"
  by (simp add: ws_grows_def)

lemma ws_grows_trans: "ws_grows u v \<Longrightarrow> ws_grows v w \<Longrightarrow> ws_grows u w"
  by (auto simp: ws_grows_def intro: prefix_order.trans)

lemma ws_grows_upd [simp]:
  "ws_grows w (v\<lparr>ws_frag := b\<rparr>) = ws_grows w v" "ws_grows (w\<lparr>ws_frag := b\<rparr>) v = ws_grows w v"
  "ws_grows w (v\<lparr>ws_frame := f\<rparr>) = ws_grows w v" "ws_grows (w\<lparr>ws_frame := f\<rparr>) v = ws_grows w v"
  "ws_grows w (v\<lparr>ws_opcode_continue := c\<rparr>) = ws_grows w v"
  by (simp_all add: ws_grows_def)

lemma SendWS_grows: "ws_grows w (snd (SendWS env f d w))"
  by (simp add: SendWS_def ws_send_def ws_grows_def Let_def)

lemma SendClose_grows: "ws_grows w (SendClose env w)"
  using SendWS_grows [of "w\<lparr>ws_is_send_close := True\<rparr>"] by (simp add: SendClose_def ws_grows_def)

lemma ws_close_with_grows: "ws_close_with env n w = (ok, w') \<Longrightarrow> ws_grows w w'"
  using SendClose_grows [of "w\<lparr>ws_status_code := n\<rparr>" env] by (auto simp: ws_close_with_def ws_grows_def)

lemma ws_handle_grows: "ws_handle env e w = (ok, w') \<Longrightarrow> ws_grows w w'"
  by (auto simp: ws_handle_def ws_grows_def)

lemma ws_dispatch_grows: "ws_dispatch env opc d w = (ok, w') \<Longrightarrow> ws_grows w w'"
  by (auto simp: ws_dispatch_def SendPong_def SendWS_grows split: if_splits prod.splits
      dest: ws_close_with_grows ws_handle_grows intro: ws_grows_trans)

lemma ws_deliver_grows: "ws_deliver env p w = Some (ok, w') \<Longrightarrow> ws_grows w w'"
  by (auto simp: ws_deliver_def Let_def split: if_splits prod.splits bind_splits dest!: ws_dispatch_grows)

lemma ws_loop_grows: "ws_loop env w buf = Some (r, w') \<Longrightarrow> ws_grows w w'"
  by (rule ws_loop_respects [of ws_grows, THEN conjunct1])
    (auto simp: ws_continue_def dest: ws_deliver_grows intro: ws_grows_trans)

section \<open>A part of the stream\<close>

text \<open>
  When only a part of a stream of messages has arrived, the parser has delivered the first ones, among them all
  whose frames are complete, has answered nothing and waits.
\<close>

lemma ws_part_received:
  assumes ok: "list_all ws_msg_ok msgs" and w: "ws_ready w" and acc: "\<And>es e. we_accept env es e"
    and part: "b @ rest = concat (map ws_msg_wire msgs)"
  shows "\<exists>r w' n. ws_loop env w b = Some (Some r, w') \<and> ws_events w' = ws_events w @ take n (map ws_msg_event msgs) \<and>
     ws_sent w' = ws_sent w \<and> n \<le> length msgs \<and>
     (\<forall>j\<le>length msgs. prefix (concat (map ws_msg_wire (take j msgs))) b \<longrightarrow> j \<le> n)"
proof -
  obtain w2 where w2: "ws_loop env w (b @ rest) = Some (Some [], w2)"
    "ws_events w2 = ws_events w @ map ws_msg_event msgs" "ws_sent w2 = ws_sent w"
    using ws_msgs_received [OF ok w acc, of "[]"] ws_loop_idle part by auto
  note app = ws_loop_append [of env w b rest]
  obtain r w1 where w1: "ws_loop env w b = Some (Some r, w1)" "ws_loop env w1 (r @ rest) = Some (Some [], w2)"
  proof -
    consider "ws_loop env w b = None" | v where "ws_loop env w b = Some (None, v)" | r v where "ws_loop env w b = Some (Some r, v)"
      by (metis option.exhaust surj_pair)
    then show thesis
    proof cases
      case 1
      then show thesis
        using app w2(1) by simp
    next
      case (2 v)
      then show thesis
        using app w2(1) by simp
    next
      case (3 r v)
      then have "ws_loop env w (b @ rest) = ws_loop env v (r @ rest)"
        using app by blast
      then show thesis
        using 3 w2(1) that by simp
    qed
  qed
  have grows: "ws_grows w w1" "ws_grows w1 w2"
    using ws_loop_grows w1 by blast+
  then obtain es where es: "ws_events w1 = ws_events w @ es" "prefix es (map ws_msg_event msgs)"
    using w2(2) unfolding ws_grows_def by (metis prefix_def same_prefix_prefix)
  have sent: "ws_sent w1 = ws_sent w"
    using grows w2(3) unfolding ws_grows_def by (metis prefix_order.antisym)
  have es': "es = take (length es) (map ws_msg_event msgs)"
    using es(2) by (metis append_eq_conv_conj prefix_def)
  have "j \<le> length es" if "j \<le> length msgs" and j: "prefix (concat (map ws_msg_wire (take j msgs))) b" for j
  proof -
    obtain more where more: "b = concat (map ws_msg_wire (take j msgs)) @ more"
      using j by (auto simp: prefix_def)
    have "list_all ws_msg_ok (take j msgs)"
      using ok by (auto simp: list_all_iff dest: in_set_takeD)
    then obtain v where "ws_loop env w b = ws_loop env v more" "ws_events v = ws_events w @ map ws_msg_event (take j msgs)"
      using ws_msgs_received [of "take j msgs" w env more] w acc more by auto
    then have "prefix (ws_events w @ map ws_msg_event (take j msgs)) (ws_events w1)"
      using ws_loop_grows [of env v more "Some r" w1] w1(1) by (simp add: ws_grows_def)
    then have "length (map ws_msg_event (take j msgs)) \<le> length es"
      using es(1) by (auto dest: prefix_length_le)
    then show ?thesis
      using \<open>j \<le> length msgs\<close> by simp
  qed
  moreover have "length es \<le> length msgs"
    using es(2) by (auto dest: prefix_length_le)
  ultimately show ?thesis
    using w1(1) es(1) es' sent by (intro exI [of _ r] exI [of _ w1] exI [of _ "length es"]) auto
qed

section \<open>Sending a sequence of messages\<close>

fun ws_send_all :: "ws_env \<Rightarrow> (bool \<times> byte list list) list \<Rightarrow> ws \<Rightarrow> bool \<times> ws" where
  "ws_send_all env [] w = (True, w)"
| "ws_send_all env ((binary, ds) # ms) w =
     (let (ok, w) = ws_send_message env binary ds w in if \<not> ok then (False, w) else ws_send_all env ms w)"

definition ws_plain :: "bool \<times> byte list list \<Rightarrow> ws_msg" where
  "ws_plain m = (fst m, map (Pair None) (snd m))"

definition ws_plain_event :: "bool \<times> byte list list \<Rightarrow> ws_event" where
  "ws_plain_event m = (if fst m then WsBinary (concat (snd m)) else WsText (concat (snd m)))"

lemma ws_plain_msg:
  assumes "snd m \<noteq> []" and "length (concat (snd m)) \<le> 2 ^ 31"
  shows "ws_msg_ok (ws_plain m)" "ws_msg_event (ws_plain m) = ws_plain_event m"
proof -
  have "map snd (map (Pair (None :: byte list option)) (snd m)) = snd m"
    by (simp add: comp_def)
  then show "ws_msg_ok (ws_plain m)" "ws_msg_event (ws_plain m) = ws_plain_event m"
    using assms by (auto simp: ws_plain_def ws_plain_event_def ws_msg_ok_def ws_msg_event_def ws_piece_ok_def list_all_iff)
qed

lemma ws_send_all_wire:
  assumes acc: "\<And>sent d. we_send env sent d"
  shows "\<exists>ps. ws_send_all env ms w = (True, w\<lparr>ws_sent := ws_sent w @ ps\<rparr>) \<and>
     concat ps = concat (map (\<lambda>m. ws_msg_wire (ws_plain m)) ms)"
proof (induction ms arbitrary: w)
  case Nil
  show ?case
    by (intro exI [of _ "[]"]) simp
next
  case (Cons m ms)
  obtain binary ds where m: "m = (binary, ds)"
    by (cases m)
  obtain ps where ps: "ws_send_message env binary ds w = (True, w\<lparr>ws_sent := ws_sent w @ ps\<rparr>)"
    "concat ps = ws_msg_wire (ws_plain m)"
    using ws_send_message_wire [OF acc, of binary ds w] m by (auto simp: ws_plain_def)
  obtain ps' where "ws_send_all env ms (w\<lparr>ws_sent := ws_sent w @ ps\<rparr>) = (True, w\<lparr>ws_sent := (ws_sent w @ ps) @ ps'\<rparr>)"
    "concat ps' = concat (map (\<lambda>m. ws_msg_wire (ws_plain m)) ms)"
    using Cons.IH [of "w\<lparr>ws_sent := ws_sent w @ ps\<rparr>"] by auto
  then show ?case
    using ps m by (intro exI [of _ "ps @ ps'"]) simp
qed

text \<open>\<open>SendWSData\<close> hands every part to \<open>SendMsg\<close>.\<close>

fun sent_parts :: "conn_op list \<Rightarrow> byte list list" where
  "sent_parts [] = []"
| "sent_parts (Send d flush call # ops) = d # sent_parts ops"
| "sent_parts (Writable c # ops) = sent_parts ops"

lemma concat_sent_parts: "concat (sent_parts ops) = concat (map op_data ops)"
  by (induction ops rule: sent_parts.induct) auto

section \<open>An accepted connection is served\<close>

text \<open>The descriptor is in the interest list with a carrier that leads to a connected process, whose time-out runs.\<close>

definition served :: "net \<Rightarrow> int \<Rightarrow> bool" where
  "served st fd \<longleftrightarrow> (\<exists>a w h p b. nt_epoll st fd = Some (a, w) \<and> nt_hand st a = Some h \<and> ih_fd h = fd \<and>
     carrier_type (ih_type h) \<and> ih_process h = Some p \<and> nt_proc st p = Some b \<and> linked_to a h b \<and> p \<in> nt_timeouts st)"

text \<open>The application makes a new process for every connection, and the allocator a new address for every handler.\<close>

definition makes_process :: "(net \<Rightarrow> nat option \<times> net) \<Rightarrow> bool" where
  "makes_process mk \<longleftrightarrow> (\<forall>st. finite (dom (nt_proc st)) \<longrightarrow> (\<exists>p b. mk st = (Some p, st\<lparr>nt_proc := (nt_proc st)(p \<mapsto> b)\<rparr>) \<and>
     nt_proc st p = None \<and> bp_io b = None \<and> idle_status (bp_status b)))"

definition accepts_all :: "cmd_env \<Rightarrow> bool" where
  "accepts_all e \<longleftrightarrow> (\<forall>port. makes_process (ce_tcp e port)) \<and> (\<forall>path. makes_process (ce_unix e path)) \<and>
     (\<forall>st. finite (dom (nt_hand st)) \<longrightarrow> nt_hand st (ce_fresh e st) = None)"

definition worker_net_ok :: "net \<Rightarrow> bool" where
  "worker_net_ok st \<longleftrightarrow> net_wf st \<and> nt_manager st \<and> finite (dom (nt_proc st)) \<and> finite (dom (nt_hand st))"

lemma made_process:
  assumes st: "worker_net_ok st" and mk: "makes_process mk"
  obtains p b st1 where "mk st = (Some p, st1)" "st1 = st\<lparr>nt_proc := (nt_proc st)(p \<mapsto> b)\<rparr>" "nt_proc st p = None"
    "idle p st1" "worker_net_ok st1"
proof -
  obtain p b where "mk st = (Some p, st\<lparr>nt_proc := (nt_proc st)(p \<mapsto> b)\<rparr>)" "nt_proc st p = None"
    "bp_io b = None" "idle_status (bp_status b)"
    using assms unfolding makes_process_def worker_net_ok_def by blast
  moreover from this have "net_wf (st\<lparr>nt_proc := (nt_proc st)(p \<mapsto> b)\<rparr>)"
    using st life_idle [of "nt_open st" "nt_epoll st" "nt_hand st" "nt_proc st" "nt_timeouts st" p "Some b"]
    by (simp add: worker_net_ok_def net_wf_def life_def)
  ultimately show thesis
    using st that by (auto simp: worker_net_ok_def idle_def)
qed

lemma served_added:
  assumes new: "nt_proc st p = None" "nt_hand st a = None" "nt_epoll st fd = None"
    and h: "ih_process h = Some p" "ih_fd h = fd" "carrier_type (ih_type h)" "linked_to a h b"
    and st': "life st' = (fds, (nt_epoll st)(fd \<mapsto> (a, w)), (nt_hand st)(a \<mapsto> h), (nt_proc st)(p \<mapsto> b), insert p (nt_timeouts st))"
  shows "served st' fd" "served st fd' \<Longrightarrow> served st' fd'"
proof -
  have sel: "nt_epoll st' = (nt_epoll st)(fd \<mapsto> (a, w))" "nt_hand st' = (nt_hand st)(a \<mapsto> h)"
    "nt_proc st' = (nt_proc st)(p \<mapsto> b)" "nt_timeouts st' = insert p (nt_timeouts st)"
    using st' by (simp_all add: life_def)
  show "served st' fd"
    using h sel by (auto simp: served_def)
  show "served st' fd'" if "served st fd'"
  proof -
    obtain c v g q d where "nt_epoll st fd' = Some (c, v)" "nt_hand st c = Some g" "ih_fd g = fd'" "carrier_type (ih_type g)"
      "ih_process g = Some q" "nt_proc st q = Some d" "linked_to c g d" "q \<in> nt_timeouts st"
      using \<open>served st fd'\<close> by (auto simp: served_def)
    moreover from this have "fd' \<noteq> fd" "c \<noteq> a" "q \<noteq> p"
      using new by auto
    ultimately show ?thesis
      unfolding served_def sel by (intro exI [of _ c] exI [of _ v] exI [of _ g] exI [of _ q] exI [of _ d]) simp
  qed
qed

lemma accept_cmd_served:
  assumes st: "worker_net_ok st" and e: "accepts_all e" and fd: "0 \<le> fd" "fd \<in> nt_open st" "nt_epoll st fd = None"
  shows "\<exists>st'. cmd_Process e (snd (accept_cmd at fd)) st = Some (True, snd (accept_cmd at fd), st') \<and> worker_net_ok st' \<and>
     served st' fd \<and> (\<forall>fd'. served st fd' \<longrightarrow> served st' fd') \<and>
     nt_open st' = nt_open st \<and> (\<forall>fd'. fd' \<noteq> fd \<longrightarrow> nt_epoll st' fd' = nt_epoll st fd')"
proof -
  let ?mk = "case at of AtPort port \<Rightarrow> ce_tcp e port | AtPath path \<Rightarrow> ce_unix e path"
  let ?type = "case at of AtPort _ \<Rightarrow> IOHT_TCP_CARRIER | AtPath _ \<Rightarrow> IOHT_UNIX_CARRIER"
  let ?peer = "case at of AtPort _ \<Rightarrow> ce_peer e fd | AtPath _ \<Rightarrow> []"
  have "makes_process ?mk"
    using e by (cases at) (auto simp: accepts_all_def)
  from made_process [OF st this] obtain p b st1 where
    made: "?mk st = (Some p, st1)" "st1 = st\<lparr>nt_proc := (nt_proc st)(p \<mapsto> b)\<rparr>" "nt_proc st p = None"
    "idle p st1" "worker_net_ok st1"
    by metis
  obtain st2 where st2: "set_ex p st1 = Some st2" "nt_hand st2 = nt_hand st1"
    using set_ex_life [of st1 p b] made(2) by (auto simp: life_def)
  let ?a = "ce_fresh e st2"
  have a: "nt_hand st1 ?a = None"
    using e made(5) st2(2) by (metis accepts_all_def worker_net_ok_def)
  have type: "carrier_type ?type"
    by (cases at) (simp_all add: carrier_type_def)
  have ok1: "net_wf st1" "nt_manager st1" "fd \<in> nt_open st1" "nt_epoll st1 fd = None"
    using made(2,5) fd by (simp_all add: worker_net_ok_def)
  obtain h b' st3 where st3: "new_carrier ?a fd ?type (Some p) ?peer [] st2 = Some st3" "net_wf st3" "nt_manager st3"
    "ih_process h = Some p" "ih_fd h = fd" "carrier_type (ih_type h)" "linked_to ?a h b'"
    "life st3 = (nt_open st1, (nt_epoll st1)(fd \<mapsto> (?a, False)), (nt_hand st1)(?a \<mapsto> h), (nt_proc st1)(p \<mapsto> b'),
       insert p (nt_timeouts st1))"
    using accepted_life [OF ok1(1,2) made(4) a fd(1) ok1(3,4) type st2(1)] by blast
  have run: "cmd_Process e (snd (accept_cmd at fd)) st = Some (True, snd (accept_cmd at fd), st3)"
    using made(1) st2(1) st3(1)
    by (cases at) (simp_all add: accept_cmd_def TCPAcceptCmd_Process_def UNIXAcceptCmd_Process_def new_TCPCarrier_def new_UNIXCarrier_def)
  have life3: "life st3 = (nt_open st, (nt_epoll st)(fd \<mapsto> (?a, False)), (nt_hand st)(?a \<mapsto> h), (nt_proc st)(p \<mapsto> b'),
      insert p (nt_timeouts st))"
    using st3(8) made(2) by simp
  have "worker_net_ok st3"
    using st st3(2,3) life3 by (simp add: worker_net_ok_def life_def)
  moreover have "nt_hand st ?a = None"
    using a made(2) by simp
  note served_added [OF made(3) this fd(3) st3(4-7) life3]
  moreover have "nt_open st3 = nt_open st" "\<forall>fd'. fd' \<noteq> fd \<longrightarrow> nt_epoll st3 fd' = nt_epoll st fd'"
    using life3 by (simp_all add: life_def)
  ultimately show ?thesis
    using run by blast
qed

lemma accept_cmds_served:
  assumes "worker_net_ok st" and e: "accepts_all e" and "distinct fds"
    and "\<forall>fd\<in>set fds. 0 \<le> fd \<and> fd \<in> nt_open st \<and> nt_epoll st fd = None"
  shows "\<exists>st'. run_cmds e (map (\<lambda>fd. snd (accept_cmd at fd)) fds) st = Some st' \<and> worker_net_ok st' \<and>
     (\<forall>fd\<in>set fds. served st' fd) \<and> (\<forall>fd. served st fd \<longrightarrow> served st' fd)"
  using assms(1,3,4)
proof (induction fds arbitrary: st)
  case (Cons fd fds)
  have fd: "0 \<le> fd" "fd \<in> nt_open st" "nt_epoll st fd = None"
    using Cons.prems(3) by simp_all
  obtain st1 where st1: "cmd_Process e (snd (accept_cmd at fd)) st = Some (True, snd (accept_cmd at fd), st1)" "worker_net_ok st1"
    "served st1 fd" "\<forall>fd'. served st fd' \<longrightarrow> served st1 fd'" "nt_open st1 = nt_open st"
    "\<forall>fd'. fd' \<noteq> fd \<longrightarrow> nt_epoll st1 fd' = nt_epoll st fd'"
    using accept_cmd_served [OF Cons.prems(1) e fd, of at] by blast
  have "\<forall>x\<in>set fds. 0 \<le> x \<and> x \<in> nt_open st1 \<and> nt_epoll st1 x = None"
    using Cons.prems(2,3) st1(5,6) by auto
  from Cons.IH [OF st1(2) _ this] Cons.prems(2) show ?case
    using st1(1,3,4) by fastforce
qed simp

lemma open_fds:
  "nt_epoll (fold open_fd fds st) = nt_epoll st" "nt_open (fold open_fd fds st) = nt_open st \<union> set fds"
  "worker_net_ok st \<Longrightarrow> worker_net_ok (fold open_fd fds st)" "served (fold open_fd fds st) fd = served st fd"
proof (induction fds arbitrary: st)
  case (Cons x fds)
  {
    case 1
    then show ?case
      using Cons.IH(1) by (simp add: open_fd_def)
  next
    case 2
    then show ?case
      using Cons.IH(2) by (simp add: open_fd_def)
  next
    case 3
    then have "worker_net_ok (open_fd x st)"
      using life_open(1) [of "nt_open st" "nt_epoll st" "nt_hand st" "nt_proc st" "nt_timeouts st" x]
      by (simp add: worker_net_ok_def net_wf_def life_def open_fd_def)
    then show ?case
      using Cons.IH(3) by simp
  next
    case 4
    have "served (open_fd x st) fd = served st fd"
      by (simp add: served_def open_fd_def)
    then show ?case
      using Cons.IH(4) by simp
  }
qed simp_all

lemma dealt_set: "set (dealt ac fds d) = {fds ! k |k. k < length fds \<and> dealt_to ac k = d}"
  by (force simp: dealt_def set_zip image_iff)

lemma dealt_distinct: "distinct fds \<Longrightarrow> distinct (dealt ac fds d)"
proof -
  assume "distinct fds"
  then have "distinct (map fst (zip fds [0..<length fds]))"
    by simp
  then show ?thesis
    unfolding dealt_def by (rule distinct_map_filter)
qed

section \<open>Properties\<close>

text \<open>
  C5: WebSocket over TCP, end to end. A process sends a sequence of text and binary messages, each whole or in fragments;
  the parts go through \<open>SendMsg\<close> between write events, whatever pieces the kernel takes. Then no step is
  undefined, and whatever part of the bytes the kernel has taken arrives at the other end, in any segments, its parser
  has delivered the first messages unchanged and in order, at least all whose frames have arrived, has
  answered nothing and goes on. When no send failed, the output buffer is empty and everything has
  arrived, all messages are delivered. The history ends with its first step that fails, if one does. The bounds \<open>m\<close> on the
  bytes of a message and \<open>l\<close> on those of a segment are together below 2 GiB.
\<close>
theorem ws_over_tcp:
  assumes "list_all (\<lambda>m. snd m \<noteq> [] \<and> length (concat (snd m)) \<le> 2 ^ 31) ms"
    and "\<And>sent d. we_send senv sent d" and "ws_sent s = []" and "sent_parts ops = ws_sent (snd (ws_send_all senv ms s))"
    and "conn p a fd k [] [] st" and "k \<le> 2 ^ 28" and "\<forall>op\<in>set ops. conn_op_ok op"
    and "ws_ready w" and "ws_state w = WS_STATE_OPEN" and "\<And>es e. we_accept env es e"
    and "list_all (\<lambda>x. length (ws_msg_wire (ws_plain x)) \<le> m) ms" and "m + l < 2 ^ 31"
  shows "\<exists>ok st'. phases (map (conn_step p a) ops) st = Some (ok, st') \<and>
     (\<forall>chunks. prefix (concat chunks) (nt_wire st' fd) \<and> list_all (\<lambda>c. length c \<le> l) chunks \<longrightarrow>
       (\<exists>r w' n. ws_feed env w [] chunks = Some (Some r, w') \<and> n \<le> length ms \<and>
          ws_events w' = ws_events w @ map ws_plain_event (take n ms) \<and> ws_sent w' = ws_sent w \<and>
          (\<forall>j\<le>length ms. length (concat (map (\<lambda>m. ws_msg_wire (ws_plain m)) (take j ms))) \<le> length (concat chunks) \<longrightarrow> j \<le> n) \<and>
          (ok \<and> (\<forall>b. nt_proc st' p = Some b \<longrightarrow> ib_data (bp_out b) = []) \<and> concat chunks = nt_wire st' fd \<longrightarrow> n = length ms)))"
proof -
  let ?msgs = "map ws_plain ms" and ?wire = "concat (map (\<lambda>m. ws_msg_wire (ws_plain m)) ms)"
  have parts: "concat (map op_data ops) = ?wire"
    using ws_send_all_wire [OF assms(2), of ms s] assms(3,4) by (auto simp flip: concat_sent_parts)
  have ok: "list_all ws_msg_ok ?msgs" "map ws_msg_event ?msgs = map ws_plain_event ms"
    using assms(1) ws_plain_msg by (auto simp: list_all_iff)
  obtain good st' where st': "phases (map (conn_step p a) ops) st = Some (good, st')" "prefix (nt_wire st' fd) ?wire"
    "good \<longrightarrow> (\<exists>q. nt_wire st' fd @ q = ?wire \<and> conn p a fd k (nt_wire st' fd) q st')"
    using tcp.history [of p a fd k "[]" "[]" st ops] assms(5-7) parts by auto
  show ?thesis
  proof (intro exI [of _ good] exI [of _ st'] conjI st'(1) allI impI)
    fix chunks
    assume c: "prefix (concat chunks) (nt_wire st' fd) \<and> list_all (\<lambda>c. length c \<le> l) chunks"
    then have pre: "prefix (concat chunks) ?wire"
      using st'(2) prefix_order.trans by blast
    then obtain rest where rest: "concat chunks @ rest = concat (map ws_msg_wire ?msgs)"
      by (auto simp: prefix_def comp_def)
    have small: "ws_small env w [] chunks"
      using assms rest c ok(1) by (intro ws_small_received [of ?msgs w env m l _ rest]) (simp_all add: list_all_iff)
    from ws_part_received [OF ok(1) assms(8,10) rest]
    obtain r w' n where loop: "ws_loop env w (concat chunks) = Some (Some r, w')" and n: "n \<le> length ms"
      "ws_events w' = ws_events w @ map ws_plain_event (take n ms)" "ws_sent w' = ws_sent w"
      and all: "\<And>j. j \<le> length ms \<Longrightarrow> prefix (concat (map ws_msg_wire (take j ?msgs))) (concat chunks) \<Longrightarrow> j \<le> n"
      unfolding ok(2) length_map take_map by blast
    have feed: "ws_feed env w [] chunks = Some (Some r, w')"
      using ws_feed_loop [OF assms(9) ws_loop_idle [OF assms(8)] small] loop by simp
    show "\<exists>r w' n. ws_feed env w [] chunks = Some (Some r, w') \<and> n \<le> length ms \<and>
          ws_events w' = ws_events w @ map ws_plain_event (take n ms) \<and> ws_sent w' = ws_sent w \<and>
          (\<forall>j\<le>length ms. length (concat (map (\<lambda>m. ws_msg_wire (ws_plain m)) (take j ms))) \<le> length (concat chunks) \<longrightarrow> j \<le> n) \<and>
          (good \<and> (\<forall>b. nt_proc st' p = Some b \<longrightarrow> ib_data (bp_out b) = []) \<and> concat chunks = nt_wire st' fd \<longrightarrow> n = length ms)"
    proof (intro exI [of _ r] exI [of _ w'] exI [of _ n] conjI feed n allI impI)
      fix j
      assume "j \<le> length ms" and len: "length (concat (map (\<lambda>m. ws_msg_wire (ws_plain m)) (take j ms))) \<le> length (concat chunks)"
      have "prefix (concat (map (\<lambda>m. ws_msg_wire (ws_plain m)) (take j ms))) ?wire"
        by (metis append_take_drop_id concat_append map_append prefixI)
      then have "prefix (concat (map ws_msg_wire (take j ?msgs))) (concat chunks)"
        using len pre by (auto simp: take_map comp_def intro: prefix_length_prefix)
      then show "j \<le> n"
        using all \<open>j \<le> length ms\<close> by blast
    next
      assume "good \<and> (\<forall>b. nt_proc st' p = Some b \<longrightarrow> ib_data (bp_out b) = []) \<and> concat chunks = nt_wire st' fd"
      then have "concat chunks = ?wire"
        using st'(3) by (auto simp: conn_def)
      then have "length ms \<le> n"
        by (intro all) (simp_all add: comp_def)
      then show "n = length ms"
        using n(1) by simp
    qed
  qed
qed

lemma ws_over_tcp_witness:
  "\<exists>ok st'. phases (map (conn_step 21 11) [Send [0x81, 2] demo_send demo_send, Writable demo_calls,
       Send [0x41, 0x42] demo_send demo_send]) (demo_net []) = Some (ok, st') \<and>
     (\<exists>r w' n. ws_feed ws_demo_env ws_demo [] (map (\<lambda>b. [b]) (nt_wire st' 5)) = Some (Some r, w') \<and> ws_events w' = map ws_plain_event (take n [(False, [[0x41, 0x42]])]))"
proof -
  let ?ops = "[Send [0x81, 2] demo_send demo_send, Writable demo_calls, Send [0x41, 0x42] demo_send demo_send]"
  let ?ms = "[(False, [[0x41, 0x42]])] :: (bool \<times> byte list list) list"
  have sent: "sent_parts ?ops = ws_sent (snd (ws_send_all ws_demo_env ?ms ws_demo))"
    by code_simp
  have "\<exists>ok st'. phases (map (conn_step 21 11) ?ops) (demo_net []) = Some (ok, st') \<and>
     (\<forall>chunks. prefix (concat chunks) (nt_wire st' 5) \<and> list_all (\<lambda>c. length c \<le> 2 ^ 30) chunks \<longrightarrow>
       (\<exists>r w' n. ws_feed ws_demo_env ws_demo [] chunks = Some (Some r, w') \<and> n \<le> length ?ms \<and>
          ws_events w' = ws_events ws_demo @ map ws_plain_event (take n ?ms) \<and> ws_sent w' = ws_sent ws_demo \<and>
          (\<forall>j\<le>length ?ms. length (concat (map (\<lambda>m. ws_msg_wire (ws_plain m)) (take j ?ms))) \<le> length (concat chunks) \<longrightarrow> j \<le> n) \<and>
          (ok \<and> (\<forall>b. nt_proc st' 21 = Some b \<longrightarrow> ib_data (bp_out b) = []) \<and> concat chunks = nt_wire st' 5 \<longrightarrow> n = length ?ms)))"
  proof (rule ws_over_tcp [OF _ _ _ sent demo_conn])
    show "list_all (\<lambda>x. length (ws_msg_wire (ws_plain x)) \<le> 2 ^ 29) ?ms"
      using length_ws_wire [of "ws_piece_frame True 1 (None, [])" "[0x41, 0x42]"]
      by (simp add: ws_plain_def ws_opcode_def wsframe_zero_def)
  qed (use demo_calls_ok in \<open>simp_all add: ws_demo_env_def ws_demo_def ws_ready_def\<close>)
  moreover have "list_all (\<lambda>c. length c \<le> 2 ^ 30) (map (\<lambda>b. [b]) (nt_wire st' 5))" "concat (map (\<lambda>b. [b]) (nt_wire st' 5)) = nt_wire st' 5" for st'
    by (simp_all add: list_all_iff)
  ultimately obtain good st' r w' n where "phases (map (conn_step 21 11) ?ops) (demo_net []) = Some (good, st')"
    "ws_feed ws_demo_env ws_demo [] (map (\<lambda>b. [b]) (nt_wire st' 5)) = Some (Some r, w')" "ws_events w' = ws_events ws_demo @ map ws_plain_event (take n ?ms)"
    by (metis prefix_order.refl)
  moreover have "ws_events ws_demo = []"
    by (simp add: ws_demo_def)
  ultimately show ?thesis
    by (metis append_Nil)
qed

text \<open>
  C7: Accepted connections are served. The acceptor deals new descriptors out to its workers; when one of them serves the
  wake-up of this queue, every connection that was dealt to it has become a connected process of its own, whose carrier is in
  the interest list and whose time-out runs; the connections it already served are still served, and its
  pointers are in order.
\<close>
theorem accepted_connections_served:
  assumes "sv_acceptors sv a = Some ac" and "ac_others ac \<noteq> []" and "ac_count ac < 2 ^ 32"
    and "sv_workers sv (ac_worker ac) = Some w" and "nw_status w = WORKER_STATUS_RUN" and "nw_id w \<noteq> 0xffffffff"
    and "\<forall>d\<in>set (ac_others ac). waits_at (nw_id w) (accept_type (ac_where ac)) sv d []"
    and "\<forall>c\<in>set calls. accepts_ok (ac_where ac) c" and "distinct (map al_fd calls)" and "accepts_all e"
    and "d \<in> set (ac_others ac)" and "sv_workers sv d = Some v" and "worker_net_ok (nw_net v)"
    and "\<forall>c\<in>set calls. al_fd c \<notin> nt_open (nw_net v)"
  shows "\<exists>sv' v1 v2. accept_all calls a sv = Some (replicate (length calls) True, sv') \<and> sv_workers sv' d = Some v1 \<and>
     ProcessCmd e (nw_id w, accept_type (ac_where ac)) v1 = Some v2 \<and> net_wf (nw_net v2) \<and>
     (\<forall>k<length calls. dealt_to ac k = d \<longrightarrow> served (nw_net v2) (al_fd (calls ! k))) \<and>
     (\<forall>fd. served (nw_net v) fd \<longrightarrow> served (nw_net v2) fd)"
proof -
  let ?fds = "dealt ac (map al_fd calls) d" and ?type = "accept_type (ac_where ac)"
  obtain sv' where sv': "accept_all calls a sv = Some (replicate (length calls) True, sv')"
    "waits_at (nw_id w) ?type sv' d (map (\<lambda>fd. snd (accept_cmd (ac_where ac) fd)) ?fds)"
    "\<exists>v'. sv_workers sv' d = Some v' \<and> nw_net v' = fold open_fd ?fds (nw_net v)"
    using accept_all_dealt [OF assms(1-5,7,8)] assms(11,12) by (metis append_Nil)
  then obtain v1 q where v1: "sv_workers sv' d = Some v1" "nw_net v1 = fold open_fd ?fds (nw_net v)"
    "nw_queues v1 (nw_id w) ?type = Some q" "queue_holds q (map (\<lambda>fd. snd (accept_cmd (ac_where ac) fd)) ?fds)"
    by (auto simp: waits_at_def)
  have set: "set ?fds = {al_fd (calls ! k) |k. k < length calls \<and> dealt_to ac k = d}"
    unfolding dealt_set by force
  have "0 \<le> fd \<and> fd \<in> nt_open (nw_net v1) \<and> nt_epoll (nw_net v1) fd = None" if fd: "fd \<in> set ?fds" for fd
  proof -
    obtain k where "k < length calls" "fd = al_fd (calls ! k)"
      using fd unfolding set by auto
    then have "calls ! k \<in> set calls" "fd = al_fd (calls ! k)"
      by simp_all
    then have "0 \<le> fd" "fd \<notin> nt_open (nw_net v)"
      using assms(8,14) by (auto simp: accepts_ok_def)
    moreover from this have "nt_epoll (nw_net v) fd = None"
      using assms(13) life_ok_fresh_fd by (fastforce simp: worker_net_ok_def net_wf_def life_def)
    ultimately show ?thesis
      using fd v1(2) by (simp add: open_fds)
  qed
  then obtain st where st: "run_cmds e (map (\<lambda>fd. snd (accept_cmd (ac_where ac) fd)) ?fds) (nw_net v1) = Some st"
    "worker_net_ok st" "\<forall>fd\<in>set ?fds. served st fd" "\<forall>fd. served (nw_net v1) fd \<longrightarrow> served st fd"
    using accept_cmds_served [OF _ assms(10) dealt_distinct [OF assms(9)], of "nw_net v1" ac d "ac_where ac"]
      open_fds(3) [OF assms(13)] v1(2) by auto
  obtain q' where "process_loop e q (nw_net v1) = Some (q', st)"
    using process_loop_holds [OF v1(4) st(1)] by blast
  then have "ProcessCmd e (nw_id w, ?type) v1 = Some (set_queue (nw_id w) ?type q' (v1\<lparr>nw_net := st\<rparr>))"
    using v1(3) assms(6) by (simp add: ProcessCmd_def)
  then show ?thesis
    using sv'(1) v1(1,2) st(2-4) set
    by (intro exI [of _ sv'] exI [of _ v1] exI [of _ "set_queue (nw_id w) ?type q' (v1\<lparr>nw_net := st\<rparr>)"])
      (auto simp: open_fds(4) worker_net_ok_def)
qed

text \<open>An application that makes a process at the first free address for every connection.\<close>

definition free_number :: "nat set \<Rightarrow> nat" where
  "free_number D = Suc (Max (insert 0 D))"

lemma free_number: "finite D \<Longrightarrow> free_number D \<notin> D"
proof
  assume "finite D" "free_number D \<in> D"
  then have "free_number D \<le> Max (insert 0 D)"
    by (intro Max_ge) auto
  then show False
    by (simp add: free_number_def)
qed

definition demo_make :: "net \<Rightarrow> nat option \<times> net" where
  "demo_make st = (Some (free_number (dom (nt_proc st))),
     st\<lparr>nt_proc := (nt_proc st)(free_number (dom (nt_proc st)) \<mapsto> demo_proc)\<rparr>)"

definition demo_app :: cmd_env where
  "demo_app = \<lparr>ce_tcp = (\<lambda>_. demo_make), ce_unix = (\<lambda>_. demo_make), ce_app = (\<lambda>_ _ st. Some (True, st)), ce_peer = (\<lambda>_. []),
     ce_fresh = (\<lambda>st. free_number (dom (nt_hand st)))\<rparr>"

lemma demo_app_accepts: "accepts_all demo_app"
proof -
  have "makes_process demo_make"
    unfolding makes_process_def demo_make_def using free_number
    by (fastforce simp: demo_proc_def idle_status_def)
  moreover have "nt_hand st (free_number (dom (nt_hand st))) = None" if "finite (dom (nt_hand st))" for st :: net
    using free_number [OF that] by auto
  ultimately show ?thesis
    by (simp add: accepts_all_def demo_app_def)
qed

lemma demo_net_ok: "worker_net_ok (nw_net (SetupQueue 7 TCP_ACCEPTCMD_TYPE demo_worker))"
proof -
  have "nw_net (SetupQueue 7 TCP_ACCEPTCMD_TYPE demo_worker) = (demo_net [])\<lparr>nt_open := {5, 6, 8}\<rparr>"
    by (simp add: SetupQueue_def demo_worker_def)
  moreover have "life ((demo_net [])\<lparr>nt_open := {5, 6, 8}\<rparr>) = ({6, 8, 5}, nt_epoll (demo_net []), nt_hand (demo_net []),
      nt_proc (demo_net []), nt_timeouts (demo_net []))"
    by (auto simp: life_def)
  moreover have "life_ok ({5}, nt_epoll (demo_net []), nt_hand (demo_net []), nt_proc (demo_net []), nt_timeouts (demo_net []))"
    using net_wf_demo unfolding net_wf_def life_def by (simp add: demo_net_def)
  ultimately show ?thesis
    by (simp add: worker_net_ok_def net_wf_def life_open(1)) (simp add: demo_net_def)
qed

lemma accepted_connections_served_witness:
  "\<exists>sv' v1 v2. accept_all (map demo_accept [12, 13, 14]) 41 demo_server = Some ([True, True, True], sv') \<and>
     sv_workers sv' 2 = Some v1 \<and> ProcessCmd demo_app (7, TCP_ACCEPTCMD_TYPE) v1 = Some v2 \<and>
     served (nw_net v2) 12 \<and> served (nw_net v2) 14"
proof -
  let ?w = "SetupQueue 7 TCP_ACCEPTCMD_TYPE demo_worker" and ?calls = "map demo_accept [12, 13, 14]"
  have sv: "sv_acceptors demo_server 41 = Some demo_acceptor" "sv_workers demo_server (ac_worker demo_acceptor) = Some ?w"
    "sv_workers demo_server 2 = Some ?w"
    by (simp_all add: demo_server_def demo_acceptor_def)
  have ac: "ac_others demo_acceptor \<noteq> []" "ac_count demo_acceptor < 2 ^ 32" "2 \<in> set (ac_others demo_acceptor)"
    by (auto simp: demo_acceptor_def)
  have place: "ac_where demo_acceptor = AtPort 80" "set (ac_others demo_acceptor) = {2, 3}"
    by (auto simp: demo_acceptor_def)
  have w: "nw_status ?w = WORKER_STATUS_RUN" "nw_id ?w = 7" "nw_id ?w \<noteq> 0xffffffff" "nt_open (nw_net ?w) = {5, 6, 8}"
    by (simp_all add: SetupQueue_def demo_worker_def)
  have ok: "\<forall>c\<in>set ?calls. accepts_ok (ac_where demo_acceptor) c" "distinct (map al_fd ?calls)"
    "\<forall>c\<in>set ?calls. al_fd c \<notin> nt_open (nw_net ?w)"
    using demo_accepts_ok place(1) w(4) by (simp_all add: demo_accept_def)
  have waits: "\<forall>d\<in>set (ac_others demo_acceptor). waits_at (nw_id ?w) (accept_type (ac_where demo_acceptor)) demo_server d []"
    using demo_server_waits place w(2) by simp
  have dealt: "dealt_to demo_acceptor 0 = 2" "dealt_to demo_acceptor 2 = 2" "accept_type (AtPort 80) = TCP_ACCEPTCMD_TYPE"
    by (simp_all add: dealt_to_def demo_acceptor_def u32_def accept_type_def accept_cmd_def)
  obtain sv' v1 v2 where sv': "accept_all ?calls 41 demo_server = Some (replicate (length ?calls) True, sv')"
    "sv_workers sv' 2 = Some v1" "ProcessCmd demo_app (nw_id ?w, accept_type (ac_where demo_acceptor)) v1 = Some v2"
    "\<forall>k<length ?calls. dealt_to demo_acceptor k = 2 \<longrightarrow> served (nw_net v2) (al_fd (?calls ! k))"
    using accepted_connections_served [OF sv(1) ac(1,2) sv(2) w(1,3) waits ok(1,2) demo_app_accepts ac(3) sv(3) demo_net_ok ok(3)]
    by blast
  have "served (nw_net v2) (al_fd (?calls ! 0))" "served (nw_net v2) (al_fd (?calls ! 2))"
    using sv'(4) [rule_format, of 0] sv'(4) [rule_format, of 2] dealt by simp_all
  then show ?thesis
    using sv'(1-3) dealt(3) w(2) place(1)
    by (intro exI [of _ sv'] exI [of _ v1] exI [of _ v2]) (simp add: demo_accept_def numeral_3_eq_3 del: accept_all.simps)
qed

end
