(* ===== verification/ProcessBuffers.thy ===== *)
theory ProcessBuffers
  imports Lifecycle
begin

text \<open>
  The buffers of the processes of a worker: when they are in order, that reading keeps them so, and that the operations of
  the life cycle leave them alone, which is shown operation by operation (collection \<open>bufs\<close>).
\<close>

section \<open>Reading within bounds\<close>

lemma ib_deliver_size: "ib_deliver b r = Some (x, b') \<Longrightarrow> ib_size b' = ib_size b \<and> ib_min_chunk b' = ib_min_chunk b"
  by (auto simp: ib_deliver_def Let_def elim!: bind_SomeE split: if_splits option.splits)

lemma ib_ReadFromTCPFd_fits:
  assumes fits: "ib_fits s b" and n: "length (ib_data b) + n \<le> s" and s: "s \<le> 2 ^ 28"
    and rd: "\<And>bs. sr_data (rcv n) = Some bs \<Longrightarrow> length bs \<le> n"
  shows "\<exists>b'. ib_ReadFromTCPFd rcv b n = Some (sr_amount (rcv n) > 0, sr_amount (rcv n), b') \<and> ib_fits s b' \<and>
     ib_data b' = ib_data b @ (case sr_data (rcv n) of None \<Rightarrow> [] | Some bs \<Rightarrow> bs)"
proof -
  have wf: "ib_wf b" and size: "ib_size b \<le> 3 * s + ib_min_chunk b"
    using fits by (simp_all add: ib_fits_def)
  have max: "ib_published b + n \<le> 2 ^ 31"
    using ib_wf_bounds [OF wf] size s n by simp
  obtain b1 where b1: "ib_reserve b n = Some (True, b1)" "ib_same b b1" "ib_published b1 + n \<le> ib_size b1"
    "ib_size b1 \<le> 3 * s + ib_min_chunk b1"
  proof (cases "u64 (ib_published b + n) > ib_size b")
    case True
    then show thesis
      using ib_EnsureSize_fits [OF fits n s] that by (auto simp: ib_reserve_def)
  next
    case False
    then show thesis
      using that [of b] wf size max by (simp add: ib_reserve_def ib_same_def u64_small)
  qed
  have n31: "n < 2 ^ 31"
    using n s by simp
  obtain b' where b': "ib_deliver b1 (rcv n) = Some (sr_amount (rcv n), b')"
    "ib_appended b (case sr_data (rcv n) of None \<Rightarrow> [] | Some bs \<Rightarrow> bs) b'"
    using ib_deliver_spec [OF b1(2,3) n31 rd] by blast
  have "length (case sr_data (rcv n) of None \<Rightarrow> [] | Some bs \<Rightarrow> bs) \<le> n"
    using rd by (auto split: option.splits)
  then show ?thesis
    using b1(1,4) b' ib_deliver_size [OF b'(1)] n by (auto simp: ib_ReadFromTCPFd_def ib_appended_def ib_fits_def)
qed

section \<open>The buffers of the processes\<close>

definition bufs_ok :: "bproc \<Rightarrow> bool" where
  "bufs_ok b \<longleftrightarrow> bp_recv b \<le> 2 ^ 27 \<and> bp_send b \<le> 2 ^ 28 \<and> ib_fits (bp_send b) (bp_out b) \<and> ib_fits (2 ^ 28) (bp_in b)"

definition room_in :: "bproc \<Rightarrow> bool" where
  "room_in b \<longleftrightarrow> length (ib_data (bp_in b)) \<le> 2 ^ 27"

text \<open>Only the processes in \<open>busy\<close> may have more waiting in their input buffer.\<close>

definition bufs_in :: "nat set \<Rightarrow> net \<Rightarrow> bool" where
  "bufs_in busy st \<longleftrightarrow> (\<forall>p b. nt_proc st p = Some b \<longrightarrow> bufs_ok b \<and> (p \<notin> busy \<longrightarrow> room_in b))"

definition same_bufs :: "bproc \<Rightarrow> bproc \<Rightarrow> bool" where
  "same_bufs b b' \<longleftrightarrow> bp_in b' = bp_in b \<and> bp_out b' = bp_out b \<and> bp_recv b' = bp_recv b \<and> bp_send b' = bp_send b \<and>
     bp_write b' = bp_write b"

text \<open>
  An operation leaves the buffers alone when every property of the buffers that all processes had is one that all
  processes have afterwards.
\<close>

definition all_procs :: "(nat \<Rightarrow> bproc \<Rightarrow> bool) \<Rightarrow> net \<Rightarrow> bool" where
  "all_procs Q st \<longleftrightarrow> (\<forall>p b. nt_proc st p = Some b \<longrightarrow> Q p b)"

definition of_bufs :: "(nat \<Rightarrow> bproc \<Rightarrow> bool) \<Rightarrow> bool" where
  "of_bufs Q \<longleftrightarrow> (\<forall>p b b'. same_bufs b b' \<longrightarrow> Q p b \<longrightarrow> Q p b')"

definition keeps_bufs :: "net \<Rightarrow> net \<Rightarrow> bool" where
  "keeps_bufs st st' \<longleftrightarrow> (\<forall>Q. of_bufs Q \<longrightarrow> all_procs Q st \<longrightarrow> all_procs Q st')"

lemma keeps_bufs_in: "keeps_bufs st st' \<Longrightarrow> bufs_in busy st \<Longrightarrow> bufs_in busy st'"
proof -
  let ?Q = "\<lambda>p b. bufs_ok b \<and> (p \<notin> busy \<longrightarrow> room_in b)"
  have "of_bufs ?Q"
    by (simp add: of_bufs_def same_bufs_def bufs_ok_def room_in_def)
  moreover have "bufs_in busy st = all_procs ?Q st" for st
    by (simp add: bufs_in_def all_procs_def)
  ultimately show "keeps_bufs st st' \<Longrightarrow> bufs_in busy st \<Longrightarrow> bufs_in busy st'"
    by (simp add: keeps_bufs_def)
qed

lemma keeps_write: "keeps_bufs st st' \<Longrightarrow> nt_proc st p = Some b \<Longrightarrow> nt_proc st' p = Some b' \<Longrightarrow> same_bufs b b'"
proof -
  assume k: "keeps_bufs st st'" and b: "nt_proc st p = Some b" "nt_proc st' p = Some b'"
  have "of_bufs (\<lambda>q d. q = p \<longrightarrow> same_bufs b d)"
    by (simp add: of_bufs_def same_bufs_def)
  moreover have "all_procs (\<lambda>q d. q = p \<longrightarrow> same_bufs b d) st"
    using b(1) by (simp add: all_procs_def same_bufs_def)
  ultimately have "all_procs (\<lambda>q d. q = p \<longrightarrow> same_bufs b d) st'"
    using k by (simp add: keeps_bufs_def)
  then show "same_bufs b b'"
    using b(2) by (simp add: all_procs_def)
qed

named_theorems bufs \<open>operations that leave the buffers alone\<close>

lemma set_proc_bufs:
  assumes set: "set_proc p f st = Some st'" and f: "\<And>b. same_bufs b (f b)"
  shows "keeps_bufs st st'"
proof -
  have "nt_proc st p \<noteq> None" "nt_proc st' = heap_mod p f (nt_proc st)"
    using set by (auto simp: set_proc_def heap_put_def split: if_splits)
  then obtain b where b: "nt_proc st p = Some b" "nt_proc st' = (nt_proc st)(p \<mapsto> f b)"
    by (auto simp: heap_mod_def)
  show ?thesis
    using b f by (fastforce simp: keeps_bufs_def all_procs_def of_bufs_def)
qed

lemma proc_bufs [bufs]:
  "set_ex p st = Some st' \<Longrightarrow> keeps_bufs st st'"
  "SetNetStatus p s st = Some st' \<Longrightarrow> keeps_bufs st st'"
  "SetIOHandler p io st = Some st' \<Longrightarrow> keeps_bufs st st'"
  unfolding set_ex_def SetNetStatus_def SetIOHandler_def
  by (erule set_proc_bufs, simp_all add: same_bufs_def)+

lemma hand_bufs [bufs]:
  "set_hand a g st = Some st' \<Longrightarrow> keeps_bufs st st'"
  "SetFlag a fl st = Some st' \<Longrightarrow> keeps_bufs st st'"
  by (auto simp: keeps_bufs_def set_hand_def SetFlag_def all_procs_def split: bind_splits)

lemma epoll_bufs [bufs]:
  "DisableReadData a i st = Some (ok, st') \<Longrightarrow> keeps_bufs st st'"
  "DisableWriteData a i st = Some (ok, st') \<Longrightarrow> keeps_bufs st st'"
  "EnableReadData a st = Some (ok, st') \<Longrightarrow> keeps_bufs st st'"
  "EnableWriteData a st = Some (ok, st') \<Longrightarrow> keeps_bufs st st'"
  by (auto simp: keeps_bufs_def DisableReadData_def DisableWriteData_def EnableReadData_def EnableWriteData_def epoll_add_def epoll_mod_def
      epoll_del_def all_procs_def split: bind_splits if_splits)

lemma with_me_bufs: "set_proc p (\<lambda>b. b\<lparr>bp_with_me := m\<rparr>) st = Some st' \<Longrightarrow> keeps_bufs st st'"
  by (erule set_proc_bufs) (simp_all add: same_bufs_def)

lemma SetWithMe_bufs [bufs]: "SetWithMe p m st = Some st' \<Longrightarrow> keeps_bufs st st'"
  by (auto simp: keeps_bufs_def SetWithMe_def dest!: with_me_bufs bufs split: bind_splits option.splits)

lemma detach_bufs [bufs]:
  "DetachNet p st = Some st' \<Longrightarrow> keeps_bufs st st'"
  "AttachNet p st = Some st' \<Longrightarrow> keeps_bufs st st'"
  "delete_process p st = Some st' \<Longrightarrow> keeps_bufs st st'"
  by (auto simp: keeps_bufs_def DetachNet_def AttachNet_def delete_process_def all_procs_def split: bind_splits if_splits)

lemma unlink_bufs [bufs]: "unlink_process p h st = Some st' \<Longrightarrow> keeps_bufs st st'"
  by (auto simp: keeps_bufs_def unlink_process_def dest!: bufs split: if_splits)

lemma open_bufs [simp]: "all_procs Q (CloseFd fd st) = all_procs Q st" "all_procs Q (open_fd fd st) = all_procs Q st"
  "all_procs Q (st\<lparr>nt_hand := x\<rparr>) = all_procs Q st" "all_procs Q (st\<lparr>nt_udp := u\<rparr>) = all_procs Q st"
  "all_procs Q (st\<lparr>nt_errno := n\<rparr>) = all_procs Q st" "all_procs Q (st\<lparr>nt_timeouts := ts\<rparr>) = all_procs Q st"
  by (simp_all add: CloseFd_def open_fd_def all_procs_def)

lemma dtor_bufs [bufs]:
  "TCPCarrier_dtor h st = Some st' \<Longrightarrow> keeps_bufs st st'"
  "UNIXCarrier_dtor h st = Some st' \<Longrightarrow> keeps_bufs st st'"
  "PIPECarrier_dtor h st = Some st' \<Longrightarrow> keeps_bufs st st'"
  "UDPCarrier_dtor a h st = Some st' \<Longrightarrow> keeps_bufs st st'"
  "IOHandler_dtor h st = Some st' \<Longrightarrow> keeps_bufs st st'"
  by (auto simp: keeps_bufs_def TCPCarrier_dtor_def UNIXCarrier_dtor_def PIPECarrier_dtor_def UDPCarrier_dtor_def IOHandler_dtor_def
      dest!: bufs split: bind_splits if_splits option.splits)

lemma delete_handler_bufs [bufs]: "delete_handler a st = Some st' \<Longrightarrow> keeps_bufs st st'"
  by (auto simp: keeps_bufs_def delete_handler_def dest!: bufs split: bind_splits io_type.splits)

lemma EnqueueForDelete_bufs [bufs]: "EnqueueForDelete a st = Some st' \<Longrightarrow> keeps_bufs st st'"
  by (auto simp: keeps_bufs_def EnqueueForDelete_def dest!: bufs split: bind_splits)

lemma status_bufs: "set_proc p (bp_status_update (\<lambda>_. s)) st = Some st' \<Longrightarrow> keeps_bufs st st'"
  by (erule set_proc_bufs) (simp_all add: same_bufs_def)

lemma Free_bufs [bufs]: "Free p st = Some st' \<Longrightarrow> keeps_bufs st st'"
  by (auto simp: keeps_bufs_def Free_def Free_connected_def dest!: bufs status_bufs split: bind_splits net_status.splits)

lemma expire_bufs [bufs]: "expire_processes ps st = Some st' \<Longrightarrow> keeps_bufs st st'"
proof (induction ps arbitrary: st)
  case (Cons p ps)
  from Cons.prems show ?case
    by (auto simp: keeps_bufs_def DoTimeout_def dest!: bufs Cons.IH split: bind_splits if_splits)
qed (simp add: keeps_bufs_def)

lemma new_IOHandler_bufs [bufs]:
  "new_IOHandler a fd type managed process peer name st = Some st' \<Longrightarrow> keeps_bufs st st'"
  by (auto simp: keeps_bufs_def new_IOHandler_def Let_def dest!: bufs split: bind_splits if_splits option.splits)

lemma new_handler_bufs [bufs]:
  "new_carrier a fd type process peer name st = Some st' \<Longrightarrow> keeps_bufs st st'"
  "new_connector a fd type process st = Some st' \<Longrightarrow> keeps_bufs st st'"
  by (auto simp: keeps_bufs_def new_carrier_def new_connector_def dest!: bufs split: bind_splits option.splits)

lemma start_connect_bufs [bufs]:
  "start_connect type nagle kern socket address connect a p st = Some (ok, st') \<Longrightarrow> keeps_bufs st st'"
  by (auto simp: keeps_bufs_def start_connect_def connector_Connect_def Let_def dest!: bufs split: bind_splits if_splits option.splits)

lemma connector_OnEvent_bufs:
  assumes "\<And>a fd p st st'. carrier a fd p st = Some st' \<Longrightarrow> keeps_bufs st st'"
  shows "connector_OnEvent carrier fresh a ev st = Some (ok, st') \<Longrightarrow> keeps_bufs st st'"
  by (auto simp: keeps_bufs_def connector_OnEvent_def dest!: bufs assms split: bind_splits if_splits)

end
