(* ===== verification/CarrierEvents.thy ===== *)
theory CarrierEvents
  imports ProcessBuffers
begin

text \<open>
  Everything that happens to the stream connections of a worker, composed: the life cycle (theory \<open>Lifecycle\<close>), the
  bytes that arrive and leave, with the call-backs of the application between them, and the messages that are sent at any time.
  The state of the buffers joins the invariant; no operation that is allowed is undefined in any reachable state.
\<close>

section \<open>A connection and its process\<close>

text \<open>
  In the middle of an event: the handler at \<open>a\<close> belongs to the process \<open>p\<close> and everything is in order, but for
  what waits in the input buffers of the processes in \<open>busy\<close>.
\<close>

definition carrier_at :: "nat \<Rightarrow> nat \<Rightarrow> nat set \<Rightarrow> net \<Rightarrow> bool" where
  "carrier_at a p busy st \<longleftrightarrow> net_wf st \<and> nt_manager st \<and> bufs_in busy st \<and>
     (\<exists>h. nt_hand st a = Some h \<and> carrier_type (ih_type h) \<and> ih_process h = Some p)"

text \<open>After a phase has given up: the process has lost its status, and the caller will delete the handler.\<close>

definition given_up :: "nat \<Rightarrow> net \<Rightarrow> bool" where
  "given_up a st \<longleftrightarrow> nt_manager st \<and> bufs_in {} st \<and>
     (\<exists>old h p b s e. net_wf old \<and> nt_hand old a = Some h \<and> carrier_type (ih_type h) \<and> ih_process h = Some p \<and>
        nt_proc old p = Some b \<and> idle_status s \<and>
        life st = (nt_open old, nt_epoll old, nt_hand old, (nt_proc old)(p \<mapsto> b\<lparr>bp_status := s, bp_errno := e\<rparr>), nt_timeouts old))"

lemma carrier_atD:
  assumes "carrier_at a p busy st"
  obtains h b w where "nt_hand st a = Some h" "carrier_type (ih_type h)" "ih_process h = Some p" "nt_proc st p = Some b"
    "linked_to a h b" "bp_status b = PROCESS_NET_STATUS_CONNECTED" "bp_io b = Some a" "ih_fd h \<in> nt_open st"
    "nt_epoll st (ih_fd h) = Some (a, w)" "bufs_ok b" "p \<notin> busy \<Longrightarrow> room_in b"
proof -
  obtain h where h: "nt_hand st a = Some h" "carrier_type (ih_type h)" "ih_process h = Some p"
    using assms by (auto simp: carrier_at_def)
  have ok: "life_ok (nt_open st, nt_epoll st, nt_hand st, nt_proc st, nt_timeouts st)"
    using assms by (simp add: carrier_at_def net_wf_def life_def)
  obtain p' b w where b: "ih_fd h \<in> nt_open st" "nt_epoll st (ih_fd h) = Some (a, w)" "ih_process h = Some p'"
    "nt_proc st p' = Some b" "linked_to a h b"
    using life_ok_hand [OF ok h(1)] by metis
  moreover have "bufs_ok b" "p \<notin> busy \<Longrightarrow> room_in b"
    using assms b(3,4) h(3) by (auto simp: carrier_at_def bufs_in_def)
  moreover have "bp_status b = PROCESS_NET_STATUS_CONNECTED" "bp_io b = Some a"
    using b(5) h(2) by (auto simp: linked_to_def carrier_type_def connector_type_def)
  ultimately show thesis
    using that [of h b w] h by simp
qed

lemma give_up_carrier:
  assumes st: "carrier_at a p {} st" and s: "idle_status s"
  shows "\<exists>st'. give_up a s st = Some (False, st') \<and> given_up a st'"
proof -
  obtain h b where h: "nt_hand st a = Some h" "carrier_type (ih_type h)" "ih_process h = Some p" "nt_proc st p = Some b"
    using carrier_atD [OF st] by metis
  obtain e st' where st': "SetNetStatus p s st = Some st'"
    "life st' = (nt_open st, nt_epoll st, nt_hand st, (nt_proc st)(p \<mapsto> b\<lparr>bp_status := s, bp_errno := e\<rparr>), nt_timeouts st)"
    using SetNetStatus_life [OF h(4)] by blast
  have "nt_manager st'" "bufs_in {} st'" "net_wf st"
    using st put_manager(4) [OF st'(1)] keeps_bufs_in [OF proc_bufs(2) [OF st'(1)], of "{}"] by (simp_all add: carrier_at_def)
  then have "given_up a st'"
    unfolding given_up_def using h s st'(2) by blast
  then show ?thesis
    using h st'(1) by (simp add: give_up_def process_of_def)
qed

lemma given_up_removed:
  assumes "given_up a st"
  shows "\<exists>st'. EnqueueForDelete a st = Some st' \<and> net_wf st' \<and> nt_manager st' \<and> bufs_in {} st'"
proof -
  obtain old h p b s e where old: "net_wf old" "nt_hand old a = Some h" "carrier_type (ih_type h)" "ih_process h = Some p"
    "nt_proc old p = Some b" "idle_status s"
    and l: "life st = (nt_open old, nt_epoll old, nt_hand old, (nt_proc old)(p \<mapsto> b\<lparr>bp_status := s, bp_errno := e\<rparr>), nt_timeouts old)"
    using assms unfolding given_up_def by blast
  note wfl = old(1) [unfolded net_wf_def life_def]
  obtain w where b: "0 \<le> ih_fd h" "linked_to a h b"
    using life_ok_hand [OF wfl old(2)] old(4,5) by (metis option.inject)
  then have ex: "bp_ex b" "ih_flag h = flag_of (bp_with_me b)"
    by (auto simp: linked_to_def)
  have l1: "nt_hand st a = Some h" "nt_proc st p = Some (b\<lparr>bp_status := s, bp_errno := e\<rparr>)"
    "bp_ex (b\<lparr>bp_status := s, bp_errno := e\<rparr>)"
    using l old(2) ex(1) by (simp_all add: life_def)
  from EnqueueForDelete_carrier [OF l1(1) old(3,4) ex(2) l1(2,3) b(1)] obtain st2 where s2: "EnqueueForDelete a st = Some st2"
    "life st2 = (nt_open old - {ih_fd h}, (nt_epoll old)(ih_fd h := None), (nt_hand old)(a := None),
       (nt_proc old)(p := if bp_with_me b then None else Some (b\<lparr>bp_status := s, bp_errno := e, bp_io := None\<rparr>)), nt_timeouts old - {p})"
    using l by (auto simp: life_def)
  have "net_wf st2"
    unfolding net_wf_def s2(2) by (rule life_remove [OF wfl old(2,4) refl]) (use old(6) in \<open>auto split: if_splits\<close>)
  then show ?thesis
    using assms s2(1) EnqueueForDelete_manager [OF s2(1)] keeps_bufs_in [OF EnqueueForDelete_bufs [OF s2(1)], of "{}"] by (auto simp: given_up_def)
qed

section \<open>Bytes in and out\<close>

definition same_links :: "bproc \<Rightarrow> bproc \<Rightarrow> bool" where
  "same_links b b' \<longleftrightarrow> bp_io b' = bp_io b \<and> bp_ex b' = bp_ex b \<and> bp_with_me b' = bp_with_me b \<and> bp_status b' = bp_status b"

lemma life_ok_bytes:
  assumes ok: "life_ok (fds, epoll, hand, proc, timeouts)" and h: "hand a = Some h" and p: "proc p = Some b" "same_links b b'"
    and ep: "ep = epoll \<or> (\<exists>w. ep = epoll(ih_fd h \<mapsto> (a, w)))"
  shows "life_ok (fds, ep, hand, proc(p \<mapsto> b'), timeouts)"
proof (rule life_okI)
  fix a' h'
  assume h': "hand a' = Some h'"
  obtain p' d w where d: "0 \<le> ih_fd h'" "ih_fd h' \<in> fds" "epoll (ih_fd h') = Some (a', w)" "ih_process h' = Some p'"
    "proc p' = Some d" "linked_to a' h' d"
    using life_ok_hand [OF ok h'] .
  have "\<exists>w. ep (ih_fd h') = Some (a', w)"
    using ep d(3) life_ok_hand [OF ok h] h h' by (metis fun_upd_apply option.inject prod.inject)
  moreover have "\<exists>d'. (proc(p \<mapsto> b')) p' = Some d' \<and> linked_to a' h' d'"
    using d(5,6) p by (auto simp: linked_to_def same_links_def)
  ultimately show "hand_ok (fds, ep, hand, proc(p \<mapsto> b'), timeouts) a' h'"
    using d(1,2,4) by (auto simp: hand_ok_def)
next
  fix p' d
  assume "(proc(p \<mapsto> b')) p' = Some d"
  then show "proc_ok (fds, ep, hand, proc(p \<mapsto> b'), timeouts) p' d"
    using life_ok_proc [OF ok, of p'] p by (cases "p' = p") (auto simp: proc_ok_def same_links_def split: option.splits)
next
  fix fd c w
  assume "ep fd = Some (c, w)"
  then show "\<exists>h. hand c = Some h \<and> ih_fd h = fd"
    using ep life_ok_epoll [OF ok] h by (fastforce split: if_splits)
next
  fix q
  assume "q \<in> timeouts"
  then obtain d c g where "proc q = Some d" "bp_io d = Some c" "hand c = Some g" "carrier_type (ih_type g)"
    using life_ok_timeouts [OF ok] by metis
  then show "\<exists>d c g. (proc(p \<mapsto> b')) q = Some d \<and> bp_io d = Some c \<and> hand c = Some g \<and> carrier_type (ih_type g)"
    using p by (auto simp: same_links_def)
qed

lemma carrier_at_bytes:
  assumes st: "carrier_at a p busy st" and h: "nt_hand st a = Some h" and b: "nt_proc st p = Some b"
    and b': "same_links b b'" "bufs_ok b'" "p \<notin> busy' \<Longrightarrow> room_in b'" "busy - {p} \<subseteq> busy'"
    and st': "life st' = (nt_open st, ep, nt_hand st, (nt_proc st)(p \<mapsto> b'), nt_timeouts st)"
      "ep = nt_epoll st \<or> (\<exists>w. ep = (nt_epoll st)(ih_fd h \<mapsto> (a, w)))" "nt_manager st' = nt_manager st"
  shows "carrier_at a p busy' st'"
proof -
  have "life_ok (nt_open st, nt_epoll st, nt_hand st, nt_proc st, nt_timeouts st)"
    using st by (simp add: carrier_at_def net_wf_def life_def)
  note life_ok_bytes [OF this h b b'(1) st'(2)]
  moreover have "bufs_in busy' st'"
    using st st'(1) b'(2-4) by (auto simp: carrier_at_def bufs_in_def life_def split: if_splits)
  moreover have "nt_hand st' = nt_hand st"
    using st'(1) by (simp add: life_def)
  ultimately show ?thesis
    using st st' by (simp add: carrier_at_def net_wf_def)
qed

text \<open>What the kernel is told or asked for changes nothing else.\<close>

lemma net_log [simp]:
  "life (sent_on fd n e bs st) = life st" "nt_manager (sent_on fd n e bs st) = nt_manager st"
  "nt_hand (sent_on fd n e bs st) = nt_hand st" "nt_proc (sent_on fd n e bs st) = nt_proc st"
  "life (read_errno r st) = life st" "nt_manager (read_errno r st) = nt_manager st"
  "nt_hand (read_errno r st) = nt_hand st" "nt_proc (read_errno r st) = nt_proc st"
  by (simp_all add: sent_on_def read_errno_def life_def)

lemma carrier_at_log [simp]:
  "carrier_at a p busy (sent_on fd n e bs st) = carrier_at a p busy st"
  "carrier_at a p busy (read_errno r st) = carrier_at a p busy st"
  by (simp_all add: carrier_at_def net_wf_def bufs_in_def)

lemma buffer_set:
  assumes st: "carrier_at a p busy st" and b: "nt_proc st p = Some b"
    and f: "same_links b (f b)" "bufs_ok (f b)" "p \<notin> busy' \<Longrightarrow> room_in (f b)" "busy - {p} \<subseteq> busy'"
  shows "\<exists>st'. set_proc p f st = Some st' \<and> carrier_at a p busy' st' \<and> nt_proc st' p = Some (f b) \<and> nt_hand st' = nt_hand st"
proof -
  obtain h where h: "nt_hand st a = Some h"
    using st by (auto simp: carrier_at_def)
  let ?st = "st\<lparr>nt_proc := (nt_proc st)(p \<mapsto> f b)\<rparr>"
  have "set_proc p f st = Some ?st"
    using b by (simp add: life_simps)
  moreover have "carrier_at a p busy' ?st"
    by (rule carrier_at_bytes [OF st h b f, where ep = "nt_epoll st"]) (simp_all add: life_def)
  ultimately show ?thesis
    by simp
qed

lemma write_interest:
  assumes st: "carrier_at a p busy st"
  shows "\<exists>ok st'. EnableWriteData a st = Some (ok, st') \<and> carrier_at a p busy st' \<and> nt_proc st' = nt_proc st"
    and "\<exists>ok st'. DisableWriteData a i st = Some (ok, st') \<and> carrier_at a p busy st' \<and> nt_proc st' = nt_proc st"
proof -
  obtain h b w where h: "nt_hand st a = Some h" "nt_proc st p = Some b" "ih_fd h \<in> nt_open st" "nt_epoll st (ih_fd h) = Some (a, w)"
    "bufs_ok b" "p \<notin> busy \<Longrightarrow> room_in b"
    using carrier_atD [OF st] by metis
  have "carrier_at a p busy (st\<lparr>nt_epoll := (nt_epoll st)(ih_fd h \<mapsto> (a, v))\<rparr>)" for v
    by (rule carrier_at_bytes [OF st h(1,2) _ h(5,6)]) (use h(2) in \<open>auto simp: same_links_def life_def\<close>)
  then show "\<exists>ok st'. EnableWriteData a st = Some (ok, st') \<and> carrier_at a p busy st' \<and> nt_proc st' = nt_proc st"
    "\<exists>ok st'. DisableWriteData a i st = Some (ok, st') \<and> carrier_at a p busy st' \<and> nt_proc st' = nt_proc st"
    using h by (auto simp: EnableWriteData_def DisableWriteData_def epoll_mod_def)
qed

lemma stop_writing_at:
  assumes st: "carrier_at a p busy st"
  shows "\<exists>st'. stop_writing p a st = Some st' \<and> carrier_at a p busy st'"
proof -
  obtain b where b: "nt_proc st p = Some b" "bufs_ok b" "p \<notin> busy \<Longrightarrow> room_in b"
    using carrier_atD [OF st] by metis
  obtain ok st1 where st1: "DisableWriteData a False st = Some (ok, st1)" "carrier_at a p busy st1" "nt_proc st1 p = Some b"
    using write_interest(2) [OF st, of False] b(1) by auto
  obtain st2 where "set_proc p (\<lambda>b. b\<lparr>bp_write := False\<rparr>) st1 = Some st2" "carrier_at a p busy st2"
    using buffer_set [OF st1(2,3), of "\<lambda>b. b\<lparr>bp_write := False\<rparr>" busy] b(2,3)
    by (auto simp: same_links_def bufs_ok_def room_in_def)
  then show ?thesis
    using st1(1) by (simp add: stop_writing_def)
qed

lemma some_bool [simp]: "\<exists>ok. ok" "\<exists>ok. \<not> ok"
  by blast+

lemma set_output:
  assumes st: "carrier_at a p busy st" and b: "nt_proc st p = Some b" and fits: "ib_fits (bp_send b) out"
  shows "\<exists>st'. set_proc p (\<lambda>b. b\<lparr>bp_out := out\<rparr>) st = Some st' \<and> carrier_at a p busy st' \<and>
     nt_proc st' p = Some (b\<lparr>bp_out := out\<rparr>) \<and> nt_hand st' = nt_hand st"
proof -
  have "bufs_ok b" "p \<notin> busy \<Longrightarrow> room_in b"
    using carrier_atD [OF st] b by (metis option.inject)+
  then show ?thesis
    using buffer_set [OF st b, of "\<lambda>b. b\<lparr>bp_out := out\<rparr>" busy] fits by (simp add: same_links_def bufs_ok_def room_in_def)
qed

lemma output_written:
  assumes st: "carrier_at a p busy st" and b: "nt_proc st p = Some b" and call: "sends_ok call"
  shows "\<exists>ok sent bs out. ib_WriteToTCPFd call (bp_out b) 8388608 = Some (ok, sent, bs, out) \<and> ib_fits (bp_send b) out"
proof -
  have fits: "ib_fits (bp_send b) (bp_out b)"
    using carrier_atD [OF st] b by (metis bufs_ok_def option.inject)
  let ?bs = "take 8388608 (ib_data (bp_out b))"
  have "sw_sent (call ?bs) \<le> int (length ?bs)" "-1 \<le> sw_sent (call ?bs)"
    using call unfolding sends_ok_def by blast+
  then show ?thesis
    using ib_WriteToTCPFd_fits [OF fits, of 8388608 "call ?bs" call] by (auto simp: min.commute)
qed

lemma flush_output_at:
  assumes st: "carrier_at a p busy st" and h: "nt_hand st a = Some h" and call: "sends_ok call"
  shows "\<exists>ok st'. flush_output call p h st = Some (ok, st') \<and> carrier_at a p busy st' \<and> nt_hand st' = nt_hand st"
proof -
  obtain b where b: "nt_proc st p = Some b" "stream_type (ih_type h)"
    using carrier_atD [OF st] h by (metis carrier_type_def option.inject stream_type_def)
  obtain ok sent bs out where out: "ib_WriteToTCPFd call (bp_out b) 8388608 = Some (ok, sent, bs, out)" "ib_fits (bp_send b) out"
    using output_written [OF st b(1) call] by blast
  obtain st1 where "set_proc p (\<lambda>b. b\<lparr>bp_out := out\<rparr>) st = Some st1" "carrier_at a p busy st1" "nt_hand st1 = nt_hand st"
    using set_output [OF st b(1) out(2)] by blast
  then show ?thesis
    using b out(1) by (simp add: flush_output_def)
qed

lemma waiting:
  assumes st: "carrier_at a p busy st" and b: "nt_proc st p = Some b"
  shows "u32 (ib_avail (bp_out b)) = length (ib_data (bp_out b))" "length (ib_data (bp_out b)) \<le> bp_send b" "bp_send b \<le> 2 ^ 28"
proof -
  have "bufs_ok b"
    using carrier_atD [OF st] b by (metis option.inject)
  then show "u32 (ib_avail (bp_out b)) = length (ib_data (bp_out b))" "length (ib_data (bp_out b)) \<le> bp_send b" "bp_send b \<le> 2 ^ 28"
    by (auto simp: bufs_ok_def ib_fits_def ib_avail_wf u32_small)
qed

lemma save_output_at:
  assumes st: "carrier_at a p busy st" and b: "nt_proc st p = Some b" and n: "n = length (ib_data (bp_out b))"
    and d: "length data < 2 ^ 31"
  shows "\<exists>ok st'. save_output p a data n st = Some (ok, st') \<and> carrier_at a p busy st'"
proof (cases "bp_send b < u32 (n + length data)")
  case True
  then show ?thesis
    using st b by (simp add: save_output_def)
next
  case False
  note w = waiting [OF st b]
  have "u32 (n + length data) = n + length data"
    using w n d by (simp add: u32_small)
  then have room: "length (ib_data (bp_out b)) + length data \<le> bp_send b"
    using False n by simp
  have fits: "ib_fits (bp_send b) (bp_out b)"
    using carrier_atD [OF st] b by (metis bufs_ok_def option.inject)
  obtain out where out: "ib_ReadFromBuffer (bp_out b) (map Some data) (length data) = Some (True, out)" "ib_fits (bp_send b) out"
    using ib_ReadFromBuffer_fits [OF fits room w(3), of "[]"] by auto
  obtain st1 where st1: "set_proc p (\<lambda>b. b\<lparr>bp_out := out\<rparr>) st = Some st1" "carrier_at a p busy st1"
    "nt_proc st1 p = Some (b\<lparr>bp_out := out\<rparr>)"
    using set_output [OF st b out(2)] by blast
  show ?thesis
  proof (cases "bp_write b")
    case True
    then show ?thesis
      using False b out(1) st1 by (simp add: save_output_def)
  next
    case no: False
    obtain ok st2 where st2: "EnableWriteData a st1 = Some (ok, st2)" "carrier_at a p busy st2" "nt_proc st2 p = Some (b\<lparr>bp_out := out\<rparr>)"
      using write_interest(1) [OF st1(2)] st1(3) by auto
    have "bufs_ok (b\<lparr>bp_out := out\<rparr>)" "p \<notin> busy \<Longrightarrow> room_in (b\<lparr>bp_out := out\<rparr>)"
      using carrier_atD [OF st2(2)] st2(3) by (metis option.inject)+
    then obtain st3 where "set_proc p (\<lambda>b. b\<lparr>bp_write := True\<rparr>) st2 = Some st3" "carrier_at a p busy st3"
      using buffer_set [OF st2(2,3), of "\<lambda>b. b\<lparr>bp_write := True\<rparr>" busy] by (auto simp: same_links_def bufs_ok_def room_in_def)
    then show ?thesis
      using False no b out(1) st1(1,3) st2(1) by (simp add: save_output_def)
  qed
qed

lemma send_direct_at:
  assumes st: "carrier_at a p busy st" and h: "nt_hand st a = Some h" and b: "nt_proc st p = Some b"
    and n: "n = length (ib_data (bp_out b))" and call: "sends_ok call" and d: "length data < 2 ^ 31"
  shows "\<exists>ok st'. send_direct call p a h data n st = Some (ok, st') \<and> carrier_at a p busy st'"
proof -
  have type: "stream_type (ih_type h)"
    using carrier_atD [OF st] h by (metis carrier_type_def option.inject stream_type_def)
  let ?r = "call data"
  have r: "-1 \<le> sw_sent ?r" "sw_sent ?r \<le> int (length data)"
    using call unfolding sends_ok_def by blast+
  then have i: "i32 (sw_sent ?r) = sw_sent ?r"
    using d by (simp add: i32_small)
  define st1 where "st1 = sent_on (ih_fd h) (sw_sent ?r) (sw_errno ?r) data st"
  have at1: "carrier_at a p busy st1" "nt_proc st1 p = Some b"
    using st b by (simp_all add: st1_def)
  have "length (drop (nat (sw_sent ?r)) data) < 2 ^ 31"
    using d by (auto intro: le_less_trans)
  then obtain ok st2 where s: "save_output p a (drop (nat (sw_sent ?r)) data) n st1 = Some (ok, st2)" "carrier_at a p busy st2"
    using save_output_at [OF at1 n] by blast
  obtain st3 where "stop_writing p a st1 = Some st3" "carrier_at a p busy st3"
    using stop_writing_at [OF at1(1)] by blast
  then show ?thesis
    using type i at1 s by (simp add: send_direct_def Let_def st1_def [symmetric])
qed

lemma SendMsg_at:
  assumes st: "carrier_at a p busy st" and calls: "sends_ok flush" "sends_ok call" and d: "length data < 2 ^ 31"
  shows "\<exists>ok st'. SendMsg flush call p data st = Some (ok, st') \<and> carrier_at a p busy st'"
proof -
  obtain h b where *: "nt_hand st a = Some h" "nt_proc st p = Some b" "bp_status b = PROCESS_NET_STATUS_CONNECTED" "bp_io b = Some a"
    using carrier_atD [OF st] by metis
  obtain ok st1 where st1: "(if 0 < u32 (ib_avail (bp_out b)) then flush_output flush p h st else Some (True, st)) = Some (ok, st1)"
    "carrier_at a p busy st1" "nt_hand st1 a = Some h"
    using flush_output_at [OF st *(1) calls(1)] st * by (cases "0 < u32 (ib_avail (bp_out b))") auto
  obtain b1 where b1: "nt_proc st1 p = Some b1"
    using carrier_atD [OF st1(2)] by metis
  note n = waiting(1) [OF st1(2) b1]
  obtain ok2 st2 ok3 st3 where
    s: "save_output p a data (u32 (ib_avail (bp_out b1))) st1 = Some (ok2, st2)" "carrier_at a p busy st2"
      "send_direct call p a h data (u32 (ib_avail (bp_out b1))) st1 = Some (ok3, st3)" "carrier_at a p busy st3"
    using save_output_at [OF st1(2) b1 n d] send_direct_at [OF st1(2,3) b1 n calls(2) d] by blast
  have "SendMsg flush call p data st =
      (if \<not> ok then Some (False, st1)
       else if 0 < u32 (ib_avail (bp_out b)) \<and> 0 < u32 (ib_avail (bp_out b1)) then Some (ok2, st2) else Some (ok3, st3))"
    unfolding SendMsg_def using * st1(1) b1 s(1,3) by (simp only: bind.bind_lunit Let_def simp_thms prod.case if_True if_False)
  then show ?thesis
    using st1(2) s(2,4) by (auto split: if_splits)
qed

section \<open>The phases of an event\<close>

text \<open>
  The kernel reads no more than it is asked to and accepts no more than it is given; \<open>Process\<close> may do whatever keeps
  the state in order, as long as it leaves the connection it is called for and room for the next read.
\<close>

definition app_safe :: "app \<Rightarrow> bool" where
  "app_safe app \<longleftrightarrow> (\<forall>a p n st. carrier_at a p {p} st \<longrightarrow> (\<exists>ok st'. app p n st = Some (ok, st') \<and> carrier_at a p {} st'))"

definition calls_safe :: "stream_calls \<Rightarrow> bool" where
  "calls_safe c \<longleftrightarrow> (\<forall>n bs. sr_data (sc_read c n) = Some bs \<longrightarrow> length bs \<le> n) \<and> sends_ok (sc_write c) \<and> app_safe (sc_process c)"

definition phase_safe :: "nat \<Rightarrow> nat \<Rightarrow> (net \<Rightarrow> (bool \<times> net) option) \<Rightarrow> bool" where
  "phase_safe a p f \<longleftrightarrow> (\<forall>st. carrier_at a p {} st \<longrightarrow>
     (\<exists>ok st'. f st = Some (ok, st') \<and> (if ok then carrier_at a p {} st' else given_up a st')))"

lemma phases_safe: "(\<And>f. f \<in> set fs \<Longrightarrow> phase_safe a p f) \<Longrightarrow> phase_safe a p (phases fs)"
proof (induction fs)
  case (Cons f fs)
  show ?case
    unfolding phase_safe_def
  proof (intro allI impI)
    fix st
    assume "carrier_at a p {} st"
    then obtain ok st1 where st1: "f st = Some (ok, st1)" "if ok then carrier_at a p {} st1 else given_up a st1"
      using Cons.prems [of f] unfolding phase_safe_def by auto
    show "\<exists>ok st'. phases (f # fs) st = Some (ok, st') \<and> (if ok then carrier_at a p {} st' else given_up a st')"
    proof (cases ok)
      case True
      then show ?thesis
        using st1 Cons by (simp add: phase_safe_def)
    next
      case False
      then show ?thesis
        using st1 by auto
    qed
  qed
qed (simp add: phase_safe_def)

lemma phases_run:
  "carrier_at a p {} st \<Longrightarrow> (\<And>f. f \<in> set fs \<Longrightarrow> phase_safe a p f) \<Longrightarrow>
     \<exists>ok st'. phases fs st = Some (ok, st') \<and> (if ok then carrier_at a p {} st' else given_up a st')"
  using phases_safe [of fs a p] by (simp add: phase_safe_def)

lemma phase_if: "phase_safe a p f \<Longrightarrow> phase_safe a p (\<lambda>st. if c then f st else Some (True, st))"
  by (simp add: phase_safe_def)

lemma give_up_safe: "idle_status s \<Longrightarrow> phase_safe a p (give_up a s)"
  unfolding phase_safe_def using give_up_carrier by fastforce

lemma stream_errors_safe: "phase_safe a p (stream_errors a ev)"
  using give_up_safe [of PROCESS_NET_STATUS_PEER_RESET a p] give_up_safe [of PROCESS_NET_STATUS_SYS_ERROR a p]
  by (auto simp: phase_safe_def stream_errors_def idle_status_def)

lemma close_check_safe: "phase_safe a p (close_check close a)"
  unfolding phase_safe_def
proof (intro allI impI)
  fix st
  assume st: "carrier_at a p {} st"
  obtain h b where "nt_hand st a = Some h" "ih_process h = Some p" "nt_proc st p = Some b"
    using carrier_atD [OF st] by metis
  moreover have "\<exists>st'. give_up a PROCESS_NET_STATUS_DISCONNECT st = Some (False, st') \<and> given_up a st'"
    using give_up_carrier [OF st] by (simp add: idle_status_def)
  ultimately show "\<exists>ok st'. close_check close a st = Some (ok, st') \<and> (if ok then carrier_at a p {} st' else given_up a st')"
    using st by (cases "close p st") (auto simp: close_check_def process_of_def)
qed

lemma stream_write_safe:
  assumes call: "sends_ok call"
  shows "phase_safe a p (stream_write call a)"
  unfolding phase_safe_def
proof (intro allI impI)
  fix st
  assume st: "carrier_at a p {} st"
  obtain h b where h: "nt_hand st a = Some h" "ih_process h = Some p" "nt_proc st p = Some b"
    using carrier_atD [OF st] by metis
  obtain st0 where st0: "stop_writing p a st = Some st0" "carrier_at a p {} st0"
    using stop_writing_at [OF st] by blast
  obtain ok sent bs out where out: "ib_WriteToTCPFd call (bp_out b) 8388608 = Some (ok, sent, bs, out)" "ib_fits (bp_send b) out"
    using output_written [OF st h(3) call] by blast
  obtain st1 where st1: "set_proc p (\<lambda>b. b\<lparr>bp_out := out\<rparr>) st = Some st1" "carrier_at a p {} st1"
    using set_output [OF st h(3) out(2)] by blast
  define st2 where "st2 = sent_on (ih_fd h) sent (sw_errno (call bs)) bs st1"
  have at2: "carrier_at a p {} st2"
    using st1(2) by (simp add: st2_def)
  obtain st3 where st3: "give_up a PROCESS_NET_STATUS_SYS_ERROR st2 = Some (False, st3)" "given_up a st3"
    using give_up_carrier [OF at2, of PROCESS_NET_STATUS_SYS_ERROR] by (auto simp: idle_status_def)
  obtain st4 where st4: "stop_writing p a st2 = Some st4" "carrier_at a p {} st4"
    using stop_writing_at [OF at2] by blast
  have "stream_write call a st =
      (if ib_avail (bp_out b) = 0 then Some (True, st0)
       else if \<not> ok then Some (False, st3) else if ib_avail out = 0 then Some (True, st4) else Some (True, st2))"
    using h st0(1) out(1) st1(1) st3(1) st4(1)
    by (simp add: stream_write_def GetOutputBuffer_def Let_def st2_def [symmetric])
  then show "\<exists>ok st'. stream_write call a st = Some (ok, st') \<and> (if ok then carrier_at a p {} st' else given_up a st')"
    using st0(2) at2 st3(2) st4(2) by (auto split: if_splits)
qed

lemma read_input_at:
  assumes st: "carrier_at a p {} st" and rd: "\<And>n bs. sr_data (rd n) = Some bs \<Longrightarrow> length bs \<le> n"
  shows "\<exists>amount st'. read_input rd p st = Some (0 < amount, amount, st') \<and> carrier_at a p {p} st' \<and>
     (amount \<le> 0 \<longrightarrow> carrier_at a p {} st')"
proof -
  obtain b where b: "nt_proc st p = Some b" "bufs_ok b" "room_in b"
    using carrier_atD [OF st] by (metis empty_iff)
  let ?r = "rd (bp_recv b)"
  have "ib_fits (2 ^ 28) (bp_in b)" "length (ib_data (bp_in b)) + bp_recv b \<le> 2 ^ 28"
    using b(2,3) by (simp_all add: bufs_ok_def room_in_def)
  then obtain inb where inb: "ib_ReadFromTCPFd rd (bp_in b) (bp_recv b) = Some (0 < sr_amount ?r, sr_amount ?r, inb)" "ib_fits (2 ^ 28) inb"
    "ib_data inb = ib_data (bp_in b) @ (case sr_data ?r of None \<Rightarrow> [] | Some bs \<Rightarrow> bs)"
    using ib_ReadFromTCPFd_fits [of "2 ^ 28" "bp_in b" "bp_recv b" rd] rd by auto
  let ?b = "b\<lparr>bp_in := inb\<rparr>"
  have b': "same_links b ?b" "bufs_ok ?b"
    using b(2) inb(2) by (simp_all add: same_links_def bufs_ok_def)
  obtain st1 where st1: "set_proc p (\<lambda>b. b\<lparr>bp_in := inb\<rparr>) st = Some st1" "carrier_at a p {p} st1"
    using buffer_set [OF st b(1), of "\<lambda>b. b\<lparr>bp_in := inb\<rparr>" "{p}"] b' by auto
  have "carrier_at a p {} st1" if "sr_amount ?r \<le> 0"
  proof -
    have "ib_data inb = ib_data (bp_in b)"
      using that inb(3) by (auto simp: sr_amount_def split: option.splits)
    then have "room_in ?b"
      using b(3) by (simp add: room_in_def)
    then show ?thesis
      using buffer_set [OF st b(1), of "\<lambda>b. b\<lparr>bp_in := inb\<rparr>" "{}"] b' st1(1) by auto
  qed
  then show ?thesis
    using b(1) inb(1) st1 by (intro exI [of _ "sr_amount ?r"] exI [of _ "read_errno ?r st1"]) (simp add: read_input_def)
qed

lemma call_process_at:
  assumes st: "carrier_at a p {p} st" and app: "app_safe app"
  shows "\<exists>ok st'. call_process app a n st = Some (ok, st') \<and> (if ok then carrier_at a p {} st' else given_up a st')"
proof -
  obtain ok st1 where st1: "app p n st = Some (ok, st1)" "carrier_at a p {} st1"
    using app st unfolding app_safe_def by blast
  moreover obtain st2 where "give_up a PROCESS_NET_STATUS_DISCONNECT st1 = Some (False, st2)" "given_up a st2"
    using give_up_carrier [OF st1(2), of PROCESS_NET_STATUS_DISCONNECT] by (auto simp: idle_status_def)
  moreover have "process_of a st = Some p"
    using st by (auto simp: carrier_at_def process_of_def)
  ultimately show ?thesis
    by (cases ok) (auto simp: call_process_def)
qed

lemma carrier_at_more: "carrier_at a p {} st \<Longrightarrow> carrier_at a p {p} st"
  by (auto simp: carrier_at_def bufs_in_def)

lemma read_safe:
  assumes rd: "\<And>n bs. sr_data (rd n) = Some bs \<Longrightarrow> length bs \<le> n" and app: "app_safe app"
  shows "phase_safe a p (TCP_read rd app a)" "phase_safe a p (UNIX_read rd app a)"
proof -
  {
    fix st
    assume st: "carrier_at a p {} st"
    have proc: "process_of a st = Some p"
      using st by (auto simp: carrier_at_def process_of_def)
    obtain amount st1 where st1: "read_input rd p st = Some (0 < amount, amount, st1)" "carrier_at a p {p} st1"
      "amount \<le> 0 \<Longrightarrow> carrier_at a p {} st1"
      using read_input_at [OF st rd] by blast
    have call: "\<exists>ok st'. call_process app a n st1 = Some (ok, st') \<and> (if ok then carrier_at a p {} st' else given_up a st')" for n
      using call_process_at [OF st1(2) app] .
    have give: "\<exists>ok st'. give_up a s st1 = Some (ok, st') \<and> (if ok then carrier_at a p {} st' else given_up a st')"
      if "amount \<le> 0" "idle_status s" for s
      using give_up_carrier [OF st1(3) [OF that(1)] that(2)] by fastforce
    have "\<exists>ok st'. TCP_read rd app a st = Some (ok, st') \<and> (if ok then carrier_at a p {} st' else given_up a st')"
      using call give st1(1,3) proc by (cases "0 < amount") (auto simp: TCP_read_def idle_status_def)
    moreover have "\<exists>ok st'. UNIX_read rd app a st = Some (ok, st') \<and> (if ok then carrier_at a p {} st' else given_up a st')"
      using call give st1(1) proc by (cases "0 < amount") (auto simp: UNIX_read_def idle_status_def)
    note calculation this
  }
  then show "phase_safe a p (TCP_read rd app a)" "phase_safe a p (UNIX_read rd app a)"
    unfolding phase_safe_def by blast+
qed

lemma carrier_event:
  assumes st: "carrier_at a p {} st" and c: "calls_safe (le_stream e)"
  shows "\<exists>st'. life_event e a ev fresh st = Some st' \<and> net_wf st' \<and> nt_manager st' \<and> bufs_in {} st'"
proof -
  obtain h b where h: "nt_hand st a = Some h" "carrier_type (ih_type h)" "ih_process h = Some p" "nt_proc st p = Some b"
    "bp_status b = PROCESS_NET_STATUS_CONNECTED"
    using carrier_atD [OF st] by metis
  have ready: "carrier_ready a st = Some True"
    using h by (simp add: carrier_ready_def)
  have safe: "sends_ok (sc_write (le_stream e))" "app_safe (sc_process (le_stream e))"
    "\<And>n bs. sr_data (sc_read (le_stream e) n) = Some bs \<Longrightarrow> length bs \<le> n"
    using c by (simp_all add: calls_safe_def)
  note parts = stream_errors_safe stream_write_safe [OF safe(1)] close_check_safe read_safe [OF safe(3,2)]
  have "\<exists>ok st'. TCPCarrier_OnEvent (le_stream e) a ev st = Some (ok, st') \<and> (if ok then carrier_at a p {} st' else given_up a st')"
    unfolding TCPCarrier_OnEvent_def ready bind.bind_lunit not_True_eq_False if_False
    by (rule phases_run [OF st]) (use parts in \<open>auto intro!: phase_if\<close>)
  moreover have "\<exists>ok st'. UNIXCarrier_OnEvent (le_stream e) a ev st = Some (ok, st') \<and> (if ok then carrier_at a p {} st' else given_up a st')"
    unfolding UNIXCarrier_OnEvent_def ready bind.bind_lunit not_True_eq_False if_False
    by (rule phases_run [OF st]) (use parts in \<open>auto intro!: phase_if\<close>)
  moreover have "net_wf st' \<and> nt_manager st' \<and> bufs_in {} st'" if "carrier_at a p {} st'" for st'
    using that by (simp add: carrier_at_def)
  ultimately show ?thesis
    using h given_up_removed unfolding life_event_def carrier_type_def by (auto split: if_splits)
qed

section \<open>Everything that can happen\<close>

definition net_io :: "net \<Rightarrow> bool" where
  "net_io st \<longleftrightarrow> net_wf st \<and> nt_manager st \<and> bufs_in {} st"

text \<open>
  The operations of the life cycle, now with all events of carriers, and messages that are sent at any time. The application
  chooses sizes of its buffers up to these bounds.
\<close>

datatype net_op = NLife life_op | NSend nat "byte list" "byte list \<Rightarrow> syswrite" "byte list \<Rightarrow> syswrite"

fun net_step :: "life_env \<Rightarrow> net_op \<Rightarrow> net \<Rightarrow> net option" where
  "net_step e (NLife op) st = life_step e op st"
| "net_step e (NSend p data flush call) st = map_option snd (SendMsg flush call p data st)"

fun net_allowed :: "net_op \<Rightarrow> net \<Rightarrow> bool" where
  "net_allowed (NLife op) st \<longleftrightarrow>
     (case op of
        LEvent a ev fresh \<Rightarrow> nt_hand st a \<noteq> None \<and> nt_hand st fresh = None
      | LNew p recv send \<Rightarrow> nt_proc st p = None \<and> recv \<le> 2 ^ 27 \<and> send \<le> 2 ^ 28
      | _ \<Rightarrow> life_allowed op st)"
| "net_allowed (NSend p data flush call) st \<longleftrightarrow>
     nt_proc st p \<noteq> None \<and> sends_ok flush \<and> sends_ok call \<and> length data < 2 ^ 31"

lemma net_io_carrier:
  assumes st: "net_io st" and h: "nt_hand st a = Some h" "carrier_type (ih_type h)"
  obtains p where "ih_process h = Some p" "carrier_at a p {} st"
proof -
  have ok: "life_ok (nt_open st, nt_epoll st, nt_hand st, nt_proc st, nt_timeouts st)"
    using st by (simp add: net_io_def net_wf_def life_def)
  obtain p where "ih_process h = Some p"
    using life_ok_hand [OF ok h(1)] by metis
  then show thesis
    using that st h by (simp add: carrier_at_def net_io_def)
qed

lemma send_safe:
  assumes st: "net_io st" and p: "nt_proc st p = Some b" and calls: "sends_ok flush" "sends_ok call" and d: "length data < 2 ^ 31"
  shows "\<exists>ok st'. SendMsg flush call p data st = Some (ok, st') \<and> net_io st'"
proof (cases "bp_status b = PROCESS_NET_STATUS_CONNECTED")
  case True
  have ok: "life_ok (nt_open st, nt_epoll st, nt_hand st, nt_proc st, nt_timeouts st)"
    using st by (simp add: net_io_def net_wf_def life_def)
  obtain a h where h: "nt_hand st a = Some h" "ih_process h = Some p"
    using life_ok_proc [OF ok p] True by (auto simp: idle_status_def split: option.splits)
  moreover obtain q d where "ih_process h = Some q" "nt_proc st q = Some d" "linked_to a h d"
    using life_ok_hand [OF ok h(1)] by metis
  ultimately have "carrier_type (ih_type h)"
    using p True by (auto simp: linked_to_def)
  then have "carrier_at a p {} st"
    using st h by (simp add: carrier_at_def net_io_def)
  from SendMsg_at [OF this calls d] show ?thesis
    by (auto simp: carrier_at_def net_io_def)
qed (use st p in \<open>simp add: SendMsg_def\<close>)

lemma new_process_bufs:
  assumes "recv \<le> 2 ^ 27" and "send \<le> 2 ^ 28" and b: "bp_new recv send = Some b"
  shows "bufs_ok b \<and> room_in b"
proof -
  have "ib_fits (2 ^ 28) ib_new"
    by simp
  from ib_EnsureSize_fits [OF this, of recv] assms(1) obtain inb where
    inb: "ib_EnsureSize ib_new recv = Some (True, inb)" "ib_same ib_new inb" "ib_size inb \<le> 3 * 2 ^ 28 + ib_min_chunk inb"
    by auto
  have "bp_in b = inb" "bp_out b = ib_new" "bp_recv b = recv" "bp_send b = send"
    using b inb(1) by (auto simp: bp_new_def ib_Initialize_def ib_new_def split: bind_splits if_splits)
  moreover have "ib_fits (2 ^ 28) inb" "ib_data inb = []"
    using inb(2,3) by (simp_all add: ib_fits_def ib_same_def)
  ultimately show ?thesis
    using assms(1,2) by (simp add: bufs_ok_def room_in_def)
qed

lemma life_step_keeps:
  assumes "life_step e op st = Some st'" and "\<And>p recv send. op \<noteq> LNew p recv send" and "\<And>a ev fresh. op \<noteq> LEvent a ev fresh"
  shows "keeps_bufs st st'"
proof (cases op)
  case (LNew p recv send)
  then show ?thesis
    using assms(2) by simp
next
  case (LAccept tcp p a fd)
  then have "keeps_bufs (open_fd fd st) st'"
    using assms(1) by (auto simp: keeps_bufs_def TCPAcceptCmd_Process_def UNIXAcceptCmd_Process_def accept_env_def new_TCPCarrier_def
        new_UNIXCarrier_def dest!: bufs split: bind_splits if_splits)
  then show ?thesis
    by (simp add: keeps_bufs_def)
next
  case (LConnect tcp p a fd address connect)
  then show ?thesis
    using assms(1) by (auto simp: keeps_bufs_def TCPConnector_Connect_def UNIXConnector_Connect_def dest!: bufs split: bind_splits if_splits)
next
  case (LEvent a ev fresh)
  then show ?thesis
    using assms(3) by simp
qed (use assms(1) in \<open>auto dest: bufs\<close>)

lemma life_step_bufs:
  assumes "life_step e op st = Some st'" and "bufs_in {} st"
    and "\<And>p recv send. op = LNew p recv send \<Longrightarrow> recv \<le> 2 ^ 27 \<and> send \<le> 2 ^ 28" and "\<And>a ev fresh. op \<noteq> LEvent a ev fresh"
  shows "bufs_in {} st'"
proof (cases "\<exists>p recv send. op = LNew p recv send")
  case True
  then obtain p recv send b where op: "op = LNew p recv send" "bp_new recv send = Some b" "st' = st\<lparr>nt_proc := (nt_proc st)(p \<mapsto> b)\<rparr>"
    using assms(1) by (auto split: bind_splits)
  then show ?thesis
    using assms(2) new_process_bufs [of recv send b] assms(3) [OF op(1)] by (auto simp: bufs_in_def)
next
  case False
  then show ?thesis
    using keeps_bufs_in [OF life_step_keeps [OF assms(1)]] assms(2,4) by blast
qed

lemma connector_keeps:
  assumes "nt_hand st a = Some h" and "connector_type (ih_type h)" and "life_event e a ev fresh st = Some st'"
  shows "keeps_bufs st st'"
proof -
  have carrier: "new_UNIXCarrier a fd p s = Some s' \<Longrightarrow> keeps_bufs s s'" "new_TCPCarrier a fd p peer s = Some s' \<Longrightarrow> keeps_bufs s s'"
    for a fd p peer s s'
    by (auto simp: new_TCPCarrier_def new_UNIXCarrier_def dest: bufs)
  show ?thesis
    using assms connector_OnEvent_bufs [of "\<lambda>a fd process. new_TCPCarrier a fd process (le_peer e)", OF carrier(2)]
      connector_OnEvent_bufs [of new_UNIXCarrier, OF carrier(1)]
    by (auto simp: keeps_bufs_def life_event_def connector_type_def TCPConnector_OnEvent_def UNIXConnector_OnEvent_def
        dest!: bufs split: bind_splits if_splits)
qed

lemma connector_event:
  assumes st: "net_io st" and h: "nt_hand st a = Some h" "connector_type (ih_type h)" "nt_hand st fresh = None"
  shows "\<exists>st'. life_event e a ev fresh st = Some st' \<and> net_io st'"
proof -
  have "life_allowed (LEvent a ev fresh) st"
    using h by (auto simp: carrier_type_def connector_type_def)
  then obtain st' where st': "life_event e a ev fresh st = Some st'" "net_wf st'" "nt_manager st'"
    using LEvent_wf [of st a ev fresh e] st by (auto simp: net_io_def)
  then show ?thesis
    using st keeps_bufs_in [OF connector_keeps [OF h(1,2) st'(1)], of "{}"] by (simp add: net_io_def)
qed

lemma net_step_safe:
  assumes st: "net_io st" and e: "calls_safe (le_stream e)" and ok: "net_allowed op st"
  shows "\<exists>st'. net_step e op st = Some st' \<and> net_io st'"
proof (cases op)
  case (NSend p data flush call)
  then obtain b where "nt_proc st p = Some b" "sends_ok flush" "sends_ok call" "length data < 2 ^ 31"
    using ok by auto
  then show ?thesis
    using send_safe [OF st] NSend by fastforce
next
  case (NLife lop)
  show ?thesis
  proof (cases "\<exists>a ev fresh. lop = LEvent a ev fresh")
    case True
    then obtain a ev fresh h where lop: "lop = LEvent a ev fresh" "nt_hand st a = Some h" "nt_hand st fresh = None"
      using ok NLife by auto
    have life: "life_ok (nt_open st, nt_epoll st, nt_hand st, nt_proc st, nt_timeouts st)"
      using st by (simp add: net_io_def net_wf_def life_def)
    obtain d where "linked_to a h d"
      using life_ok_hand [OF life lop(2)] by metis
    then consider "carrier_type (ih_type h)" | "connector_type (ih_type h)"
      by (auto simp: linked_to_def)
    then have "\<exists>st'. life_event e a ev fresh st = Some st' \<and> net_io st'"
    proof cases
      case 1
      obtain p where "carrier_at a p {} st"
        using net_io_carrier [OF st lop(2) 1] .
      from carrier_event [OF this e] show ?thesis
        by (simp add: net_io_def)
    next
      case 2
      then show ?thesis
        using connector_event [OF st lop(2) _ lop(3)] by blast
    qed
    then show ?thesis
      using NLife lop(1) by simp
  next
    case False
    then have allowed: "life_allowed lop st"
      using ok NLife by (cases lop) auto
    have sizes: "recv \<le> 2 ^ 27 \<and> send \<le> 2 ^ 28" if "lop = LNew p recv send" for p recv send
      using ok NLife that by simp
    obtain st' where st': "life_step e lop st = Some st'" "net_wf st'" "nt_manager st'"
      using life_safe [OF _ _ allowed] st by (auto simp: net_io_def)
    moreover have "bufs_in {} st'"
      using life_step_bufs [OF st'(1) _ sizes] st False by (auto simp: net_io_def)
    ultimately show ?thesis
      using NLife by (simp add: net_io_def)
  qed
qed

text \<open>The states a worker can reach from its start by steps under these conditions.\<close>

definition net_start :: net where
  "net_start = \<lparr>nt_open = {}, nt_epoll = Map.empty, nt_hand = Map.empty, nt_proc = Map.empty, nt_timeouts = {}, nt_manager = True,
     nt_udp = {}, nt_errno = 0, nt_wire = (\<lambda>_. []), nt_dgrams = (\<lambda>_. [])\<rparr>"

inductive net_run :: "net \<Rightarrow> bool" where
  start: "net_run net_start"
| step: "net_run st \<Longrightarrow> calls_safe (le_stream e) \<Longrightarrow> net_allowed op st \<Longrightarrow> net_step e op st = Some st' \<Longrightarrow> net_run st'"

lemma net_run_io: "net_run st \<Longrightarrow> net_io st"
proof (induction rule: net_run.induct)
  case start
  show ?case
    by (auto simp: net_start_def net_io_def net_wf_def life_def life_ok_def bufs_in_def)
next
  case (step st e op st')
  then show ?case
    using net_step_safe [of st e op] by auto
qed

section \<open>An application that answers\<close>

text \<open>It sends back what it has received, as an echo server does.\<close>

definition echo_app :: "(byte list \<Rightarrow> syswrite) \<Rightarrow> app" where
  "echo_app call p n st =
     do { b \<leftarrow> nt_proc st p;
          st \<leftarrow> set_proc p (\<lambda>b. b\<lparr>bp_in := snd (ib_IgnoreAll (bp_in b))\<rparr>) st;
          SendMsg call call p (ib_data (bp_in b)) st }"

lemma echo_app_safe:
  assumes "sends_ok call"
  shows "app_safe (echo_app call)"
  unfolding app_safe_def
proof (intro allI impI)
  fix a p n st
  assume st: "carrier_at a p {p} st"
  obtain b where b: "nt_proc st p = Some b" "bufs_ok b"
    using carrier_atD [OF st] by metis
  let ?b = "b\<lparr>bp_in := snd (ib_IgnoreAll (bp_in b))\<rparr>"
  have fits: "ib_fits (2 ^ 28) (bp_in b)" "length (ib_data (bp_in b)) < 2 ^ 31"
    using b(2) by (auto simp: bufs_ok_def ib_fits_def)
  have "ib_fits (2 ^ 28) (snd (ib_IgnoreAll (bp_in b)))" "ib_data (snd (ib_IgnoreAll (bp_in b))) = []"
    using ib_IgnoreAll_spec [of "bp_in b"] fits(1)
    by (auto simp: ib_fits_def ib_dropped_def ib_IgnoreAll_def ib_Recycle_def)
  then have b': "bufs_ok ?b" "room_in ?b" "same_links b ?b"
    using b(2) by (simp_all add: bufs_ok_def room_in_def same_links_def)
  obtain st1 where st1: "set_proc p (\<lambda>b. b\<lparr>bp_in := snd (ib_IgnoreAll (bp_in b))\<rparr>) st = Some st1" "carrier_at a p {} st1"
    using buffer_set [OF st b(1), of "\<lambda>b. b\<lparr>bp_in := snd (ib_IgnoreAll (bp_in b))\<rparr>" "{}"] b' by auto
  then show "\<exists>ok st'. echo_app call p n st = Some (ok, st') \<and> carrier_at a p {} st'"
    using b(1) SendMsg_at [OF st1(2) assms assms fits(2)] by (simp add: echo_app_def)
qed

section \<open>Properties\<close>

text \<open>
  C6: The stream connections of a worker are safe under the following conditions (\<open>net_allowed\<close>, \<open>calls_safe\<close>). New objects get
  unused addresses and new descriptors are not open; a process is accepted for or connects only while it has no handler; a
  process that must outlive its handler (\<open>SetWithMe(false)\<close>) only makes connections that do not fail at once
  (without this the claim is false: \<open>failed_connect_dangles\<close> in theory Lifecycle); events reach handlers that still exist, so an
  event that epoll returned in one batch with another one whose handling deleted its handler is left out; receive buffers are at
  most 2^27 and send buffers 2^28 bytes, a message is shorter than 2^31; the kernel reads no more than asked and sends no more than
  given; and \<open>Process\<close> leaves the state in order and its connection in place, and room for the next read (\<open>app_safe\<close>). Then, in every
  state reachable by making processes, accepting, connecting, events of all kinds in any order, messages sent at any
  time, \<open>SetWithMe\<close>, \<open>Free\<close> and time-outs, the next such operation is defined, so that no null pointer and no pointer to anything
  deleted is followed and no byte outside of a buffer is touched, and leads to another such state: processes and handlers point to
  each other, the kernel's interest list holds exactly live handlers with open descriptors, only connected processes can time
  out, and every buffer is in order and within its bounds.
\<close>
theorem net_safe:
  assumes "net_run st" and "calls_safe (le_stream e)" and "net_allowed op st"
  shows "\<exists>st'. net_step e op st = Some st' \<and> net_run st' \<and> net_wf st' \<and> bufs_in {} st'"
proof -
  obtain st' where st': "net_step e op st = Some st'" "net_io st'"
    using net_step_safe [OF net_run_io [OF assms(1)] assms(2,3)] by blast
  then show ?thesis
    using net_run.step [OF assms st'(1)] by (auto simp: net_io_def)
qed

definition echo_env :: life_env where
  "echo_env = life_demo_env\<lparr>le_stream :=
     \<lparr>sc_read = (\<lambda>n. \<lparr>sr_data = Some (take n [1, 2, 3]), sr_errno = 0\<rparr>), sc_write = demo_send, sc_process = echo_app demo_send,
      sc_close = (\<lambda>_ _. False)\<rparr>\<rparr>"

lemma echo_env_safe: "calls_safe (le_stream echo_env)"
  using demo_calls_ok(1) echo_app_safe by (simp add: calls_safe_def echo_env_def)

lemma net_safe_witness:
  "\<exists>st1 st2 st3. net_step echo_env (NLife (LNew 21 4096 65536)) net_start = Some st1 \<and>
     net_step echo_env (NLife (LAccept True 21 11 5)) st1 = Some st2 \<and>
     net_step echo_env (NLife (LEvent 11 \<lparr>ev_in = True, ev_out = True, ev_err = False, ev_hup = False\<rparr> 12)) st2 = Some st3 \<and>
     net_run st3"
proof -
  obtain st1 where st1: "net_step echo_env (NLife (LNew 21 4096 65536)) net_start = Some st1" "net_run st1"
    using net_safe [OF net_run.start echo_env_safe, of "NLife (LNew 21 4096 65536)"] by (auto simp: net_start_def)
  obtain b where b: "st1 = net_start\<lparr>nt_proc := [21 \<mapsto> b]\<rparr>" "bp_io b = None"
    using st1(1) by (auto simp: bp_new_def net_start_def split: bind_splits)
  obtain st2 where st2: "net_step echo_env (NLife (LAccept True 21 11 5)) st1 = Some st2" "net_run st2"
    using net_safe [OF st1(2) echo_env_safe, of "NLife (LAccept True 21 11 5)"] b by (auto simp: net_start_def idle_def)
  have hand: "nt_hand st2 11 \<noteq> None" "nt_hand st2 12 = None"
    using st2(1) b
    by (auto simp: net_start_def TCPAcceptCmd_Process_def accept_env_def set_ex_def new_TCPCarrier_def new_carrier_def new_IOHandler_def
        EnableReadData_def epoll_add_def SetIOHandler_def SetFlag_def SetNetStatus_def AttachNet_def open_fd_def set_hand_def
        set_proc_def heap_put_def heap_mod_def split: bind_splits if_splits)
  obtain st3 where "net_step echo_env (NLife (LEvent 11 \<lparr>ev_in = True, ev_out = True, ev_err = False, ev_hup = False\<rparr> 12)) st2 = Some st3" "net_run st3"
    using net_safe [OF st2(2) echo_env_safe, of "NLife (LEvent 11 \<lparr>ev_in = True, ev_out = True, ev_err = False, ev_hup = False\<rparr> 12)"] hand
    by auto
  then show ?thesis
    using st1(1) st2(1) by blast
qed

section \<open>A flag that outlives the connection\<close>

text \<open>What is left of a process that outlives its connection.\<close>

lemma hang_up_leaves:
  assumes st: "carrier_at a p {} st" and b: "nt_proc st p = Some b" "\<not> bp_with_me b" and ev: "ev_err ev \<or> ev_hup ev"
  shows "\<exists>s n st'. life_event e a ev fresh st = Some st' \<and> net_io st' \<and> idle_status s \<and> nt_hand st' = (nt_hand st)(a := None) \<and>
     nt_open st' \<subseteq> nt_open st \<and> nt_proc st' p = Some (b\<lparr>bp_status := s, bp_errno := n, bp_io := None\<rparr>)"
proof -
  obtain h w where h: "nt_hand st a = Some h" "carrier_type (ih_type h)" "ih_process h = Some p" "linked_to a h b"
    "bp_status b = PROCESS_NET_STATUS_CONNECTED"
    using carrier_atD [OF st] b(1) by (metis option.inject)
  have ok: "life_ok (nt_open st, nt_epoll st, nt_hand st, nt_proc st, nt_timeouts st)"
    using st by (simp add: carrier_at_def net_wf_def life_def)
  have fd: "0 \<le> ih_fd h"
    using life_ok_hand [OF ok h(1)] by metis
  obtain en s st1 where s1: "idle_status s" "TCPCarrier_OnEvent (le_stream e) a ev st = Some (False, st1)"
    "UNIXCarrier_OnEvent (le_stream e) a ev st = Some (False, st1)" "nt_manager st1 = nt_manager st"
    "life st1 = (nt_open st, nt_epoll st, nt_hand st, (nt_proc st)(p \<mapsto> b\<lparr>bp_status := s, bp_errno := en\<rparr>), nt_timeouts st)"
    using hang_up_carrier [OF h(1,3) b(1) h(5) ev] by blast
  have l1: "nt_hand st1 a = Some h" "nt_proc st1 p = Some (b\<lparr>bp_status := s, bp_errno := en\<rparr>)"
    "bp_ex (b\<lparr>bp_status := s, bp_errno := en\<rparr>)" "ih_flag h = flag_of False"
    using s1(5) h(1,4) b(2) by (simp_all add: life_def linked_to_def)
  from EnqueueForDelete_carrier [OF l1(1) h(2,3) l1(4,2,3) fd] obtain st2 where s2: "EnqueueForDelete a st1 = Some st2"
    "life st2 = (nt_open st - {ih_fd h}, (nt_epoll st)(ih_fd h := None), (nt_hand st)(a := None),
       (nt_proc st)(p \<mapsto> b\<lparr>bp_status := s, bp_errno := en, bp_io := None\<rparr>), nt_timeouts st - {p})"
    using s1(5) by (auto simp: life_def)
  have "net_wf st2"
    unfolding net_wf_def s2(2) by (rule life_remove [OF ok h(1,3) refl]) (use s1(1) in auto)
  moreover have "bufs_in {} st1"
    using st b(1) s1(5) by (auto simp: carrier_at_def bufs_in_def bufs_ok_def room_in_def life_def)
  then have "bufs_in {} st2"
    by (rule keeps_bufs_in [OF EnqueueForDelete_bufs [OF s2(1)]])
  moreover have "nt_manager st2"
    using st s1(4) EnqueueForDelete_manager [OF s2(1)] by (simp add: carrier_at_def)
  moreover have "life_event e a ev fresh st = Some st2"
    using h(1,2) s1(2,3) s2(1) by (auto simp: life_event_def carrier_type_def)
  ultimately show ?thesis
    using s1(1) s2(2) by (intro exI [of _ s] exI [of _ en] exI [of _ st2]) (auto simp: net_io_def life_def)
qed

lemma cleared:
  assumes st: "net_io st" and b: "nt_proc st p = Some b" "bp_io b = None"
  shows "\<exists>i out. hc_clear_buffers p st = Some (st\<lparr>nt_proc := (nt_proc st)(p \<mapsto> b\<lparr>bp_in := i, bp_out := out\<rparr>)\<rparr>) \<and>
     net_io (st\<lparr>nt_proc := (nt_proc st)(p \<mapsto> b\<lparr>bp_in := i, bp_out := out\<rparr>)\<rparr>) \<and> ib_data out = []"
proof -
  let ?i = "snd (ib_IgnoreAll (bp_in b))" and ?out = "snd (ib_IgnoreAll (bp_out b))"
  let ?b = "b\<lparr>bp_in := ?i, bp_out := ?out\<rparr>"
  have ok: "bufs_ok b"
    using st b(1) by (auto simp: net_io_def bufs_in_def)
  have fits: "ib_fits s (snd (ib_IgnoreAll c)) \<and> ib_data (snd (ib_IgnoreAll c)) = []" if "ib_fits s c" for s c
    using ib_IgnoreAll_spec [of c] that by (auto simp: ib_fits_def ib_dropped_def ib_IgnoreAll_def ib_Recycle_def)
  have bufs: "bufs_ok ?b" "room_in ?b" "ib_data ?out = []"
    using ok fits [of "bp_send b" "bp_out b"] fits [of "2 ^ 28" "bp_in b"] by (simp_all add: bufs_ok_def room_in_def)
  have life: "life_ok (nt_open st, nt_epoll st, nt_hand st, nt_proc st, nt_timeouts st)"
    using st by (simp add: net_io_def net_wf_def life_def)
  have "life_ok (nt_open st, nt_epoll st, nt_hand st, (nt_proc st)(p \<mapsto> ?b), nt_timeouts st)"
    by (rule life_idle [OF life]) (use b life_ok_proc [OF life b(1)] in auto)
  then have "net_io (st\<lparr>nt_proc := (nt_proc st)(p \<mapsto> ?b)\<rparr>)"
    using st bufs by (auto simp: net_io_def net_wf_def life_def bufs_in_def)
  then show ?thesis
    using b bufs(3) by (intro exI [of _ ?i] exI [of _ ?out]) (simp add: hc_clear_buffers_def life_simps)
qed

text \<open>
  C28: A connection can inherit \<open>is_write_\<close>, which the end of a connection does not reset. When a process that outlives its
  connections (as the HTTP client does) loses one while \<open>is_write_\<close> was set, clears its buffers and gets a new carrier (here for an
  accepted descriptor; connectors make theirs by the same constructor), the first message that the kernel does not take at once
  stays in its output buffer: \<open>SendMsg\<close> says true, but \<open>EPOLLOUT\<close> has never been asked for on the new descriptor, so no event
  will send it.
\<close>
theorem stale_write_interest:
  assumes "net_io st" and "nt_hand st a = Some h" and "carrier_type (ih_type h)" and "ih_process h = Some p"
    and "nt_proc st p = Some b" and "bp_write b" and "\<not> bp_with_me b" and "ev_err ev \<or> ev_hup ev"
    and "nt_hand st c = None" and "0 \<le> fd" and "fd \<notin> nt_open st"
    and "data \<noteq> []" and "length data \<le> bp_send b" and "call data = \<lparr>sw_sent = -1, sw_errno = EAGAIN\<rparr>"
  shows "\<exists>st1 st2 st3 st4 d. net_step e (NLife (LEvent a ev c)) st = Some st1 \<and> hc_clear_buffers p st1 = Some st2 \<and>
     net_step e (NLife (LAccept True p c fd)) st2 = Some st3 \<and> SendMsg flush call p data st3 = Some (True, st4) \<and>
     nt_proc st4 p = Some d \<and> ib_data (bp_out d) = data \<and> nt_epoll st4 fd = Some (c, False)"
proof -
  have at: "carrier_at a p {} st"
    using assms(1-4) by (simp add: carrier_at_def net_io_def)
  obtain s n st1 where st1: "life_event e a ev c st = Some st1" "net_io st1" "idle_status s" "nt_hand st1 = (nt_hand st)(a := None)"
    "nt_open st1 \<subseteq> nt_open st" "nt_proc st1 p = Some (b\<lparr>bp_status := s, bp_errno := n, bp_io := None\<rparr>)"
    using hang_up_leaves [OF at assms(5,7,8)] by blast
  let ?b1 = "b\<lparr>bp_status := s, bp_errno := n, bp_io := None\<rparr>"
  obtain i out where st2: "hc_clear_buffers p st1 = Some (st1\<lparr>nt_proc := (nt_proc st1)(p \<mapsto> ?b1\<lparr>bp_in := i, bp_out := out\<rparr>)\<rparr>)"
    "net_io (st1\<lparr>nt_proc := (nt_proc st1)(p \<mapsto> ?b1\<lparr>bp_in := i, bp_out := out\<rparr>)\<rparr>)" "ib_data out = []"
    using cleared [OF st1(2,6)] by auto
  define st2 where "st2 = st1\<lparr>nt_proc := (nt_proc st1)(p \<mapsto> ?b1\<lparr>bp_in := i, bp_out := out\<rparr>)\<rparr>"
  let ?b2 = "?b1\<lparr>bp_in := i, bp_out := out\<rparr>"
  have s2: "net_wf st2" "nt_manager st2" "bufs_in {} st2" "nt_proc st2 p = Some ?b2" "nt_hand st2 c = None" "fd \<notin> nt_open st2"
    using st2(2) st1(4,5) assms(2,9,11) by (auto simp: st2_def net_io_def)
  have wf: "net_wf (open_fd fd st2)" "nt_manager (open_fd fd st2)" "idle p (open_fd fd st2)" "nt_hand (open_fd fd st2) c = None"
    "fd \<in> nt_open (open_fd fd st2)" "nt_epoll (open_fd fd st2) fd = None"
    using s2 life_open(1) [OF s2(1) [unfolded net_wf_def life_def]] life_ok_fresh_fd [OF s2(1) [unfolded net_wf_def life_def] s2(6)]
    by (simp_all add: net_wf_def life_def open_fd_def idle_def)
  obtain sx where sx: "set_ex p (open_fd fd st2) = Some sx"
    using s2(4) by (auto simp: set_ex_def life_simps open_fd_def)
  have "carrier_type IOHT_TCP_CARRIER"
    by (simp add: carrier_type_def)
  from accepted_life [OF wf(1-4) assms(10) wf(5,6) this sx, of "le_peer e"]
  obtain h3 b3 st3 where s3: "new_carrier c fd IOHT_TCP_CARRIER (Some p) (le_peer e) [] sx = Some st3" "net_wf st3" "nt_manager st3"
    "ih_process h3 = Some p" "ih_fd h3 = fd" "carrier_type (ih_type h3)" "linked_to c h3 b3"
    and l3: "nt_epoll st3 fd = Some (c, False)" "nt_hand st3 c = Some h3" "nt_proc st3 p = Some b3"
    by (auto simp: life_def)
  have run3: "life_step e (LAccept True p c fd) st2 = Some st3"
    using sx s3(1) by (simp add: TCPAcceptCmd_Process_def accept_env_def new_TCPCarrier_def)
  have "same_bufs ?b2 b3"
    using keeps_write [OF life_step_keeps [OF run3] s2(4) l3(3)] by simp
  then have b3: "ib_data (bp_out b3) = []" "bp_write b3" "bp_send b3 = bp_send b" "bp_out b3 = out"
    using st2(3) assms(6) by (simp_all add: same_bufs_def)
  have at3: "carrier_at c p {} st3"
    using s3 l3 keeps_bufs_in [OF life_step_keeps [OF run3] s2(3)] by (simp add: carrier_at_def)
  note w = waiting [OF at3 l3(3)]
  have len: "length data \<le> 2 ^ 28"
    using assms(13) w(3) b3(3) by simp
  have fits: "ib_fits (bp_send b3) (bp_out b3)"
    using carrier_atD [OF at3] l3(3) by (metis bufs_ok_def option.inject)
  obtain out' where out': "ib_ReadFromBuffer (bp_out b3) (map Some data) (length data) = Some (True, out')" "ib_data out' = data"
    using ib_ReadFromBuffer_fits [OF fits _ w(3), of data "[]"] b3(1,3) assms(13) by auto
  let ?st = "sent_on fd (-1) EAGAIN data st3"
  let ?st4 = "?st\<lparr>nt_proc := (nt_proc st3)(p \<mapsto> b3\<lparr>bp_out := out'\<rparr>)\<rparr>"
  have save: "save_output p c data 0 ?st = Some (True, ?st4)"
    using l3(3) b3(2,3) assms(13) len out'(1) by (simp add: save_output_def life_simps u32_small)
  have link: "bp_status b3 = PROCESS_NET_STATUS_CONNECTED" "bp_io b3 = Some c" "stream_type (ih_type h3)"
    using s3(6,7) by (auto simp: linked_to_def carrier_type_def connector_type_def stream_type_def)
  have direct: "send_direct call p c h3 data 0 st3 = Some (True, ?st4)"
    using link(3) l3(3) assms(12,14) len save s3(5) by (simp add: send_direct_def Let_def i32_small sub32_le)
  have "SendMsg flush call p data st3 = Some (True, ?st4)"
    using l3 link(1,2) w(1) b3(1) direct by (simp add: SendMsg_def)
  moreover have "nt_epoll ?st4 fd = Some (c, False)" "nt_proc ?st4 p = Some (b3\<lparr>bp_out := out'\<rparr>)"
    using l3(1) by (simp_all add: sent_on_def)
  ultimately show ?thesis
    using st1(1) st2(1) run3 out'(2) unfolding st2_def [symmetric]
    by (intro exI [of _ st1] exI [of _ st2] exI [of _ st3] exI [of _ ?st4] exI [of _ "b3\<lparr>bp_out := out'\<rparr>"]) simp
qed

definition stale_demo :: net where
  "stale_demo = (demo_net [])\<lparr>nt_hand := map_option (\<lambda>h. h\<lparr>ih_flag := IOHT_FLAG_CLOSE_FD\<rparr>) \<circ> nt_hand (demo_net []),
     nt_proc := map_option (\<lambda>b. b\<lparr>bp_with_me := False\<rparr>) \<circ> nt_proc (demo_net [])\<rparr>"

lemma stale_demo_io: "net_io stale_demo"
proof -
  have "net_wf stale_demo" "nt_manager stale_demo"
    by (auto simp: stale_demo_def net_wf_def life_def demo_net_def life_ok_def hand_ok_def proc_ok_def linked_to_def carrier_type_def
        flag_of_def split: if_splits)
  moreover have "ib_fits 65536 (demo_out [])" "ib_data ib_new = []"
    by (simp_all add: ib_fits_def ib_wf_def demo_out_def ib_data_def ib_cells_def ib_new_def ib_block_def)
  then have "bufs_in {} stale_demo"
    by (auto simp: bufs_in_def stale_demo_def demo_net_def bufs_ok_def room_in_def split: if_splits)
  ultimately show ?thesis
    by (simp add: net_io_def)
qed

lemma stale_write_interest_witness:
  "\<exists>st1 st2 st3 st4 d.
     net_step echo_env (NLife (LEvent 11 \<lparr>ev_in = True, ev_out = False, ev_err = False, ev_hup = True\<rparr> 12)) stale_demo = Some st1 \<and>
     hc_clear_buffers 21 st1 = Some st2 \<and> net_step echo_env (NLife (LAccept True 21 12 7)) st2 = Some st3 \<and>
     SendMsg demo_send (\<lambda>_. \<lparr>sw_sent = -1, sw_errno = EAGAIN\<rparr>) 21 [1, 2, 3] st3 = Some (True, st4) \<and>
     nt_proc st4 21 = Some d \<and> ib_data (bp_out d) = [1, 2, 3] \<and> nt_epoll st4 7 = Some (12, False)"
proof -
  obtain h b where "nt_hand stale_demo 11 = Some h" "carrier_type (ih_type h)" "ih_process h = Some 21"
    "nt_proc stale_demo 21 = Some b" "bp_write b" "\<not> bp_with_me b" "length [1, 2, 3 :: byte] \<le> bp_send b"
    by (simp add: stale_demo_def demo_net_def carrier_type_def)
  then show ?thesis
    by (intro stale_write_interest [OF stale_demo_io]) (assumption | simp add: stale_demo_def demo_net_def)+
qed

end
