(* ===== verification/PoolSocket.thy ===== *)
theory PoolSocket
  imports Platform
begin

text \<open>
  The blocking sockets of the pool services (\<open>src/pooldrive/poolworkerex.cpp\<close>, \<open>poolworker.cpp\<close>): connect, receive
  and send with a time-out on a non-blocking descriptor and an epoll instance of its own, and the listening
  sockets. The system's answers are a list, one element for each round of a waiting loop: what \<open>epoll_wait\<close>
  returned, what the call after it moved, and the milliseconds the round took by \<open>getCurrentGsdmMsec\<close>. A list that ends before the
  call returns has the result \<^term>\<open>None\<close>: the call still waits. In the mode of the state-threads library the
  calls are handed to that library.
\<close>

section \<open>One round of waiting\<close>

datatype wait_result = WaitEvents (w_err: bool) (w_hup: bool) (w_in: bool) (w_out: bool) | WaitNothing | WaitError nat

record 'a round =
  rd_wait :: wait_result
  rd_io :: 'a
  rd_elapsed :: nat

text \<open>What a \<open>recv\<close> or \<open>send\<close> in a round decides.\<close>

datatype 'r io_step = IoDone 'r | IoFail nat | IoAgain

text \<open>A call returns a result, or -1 with an \<open>errno\<close>; \<^term>\<open>None\<close> where the code sets none.\<close>

datatype 'r pool_result = PoolDone 'r | PoolFail "nat option"

definition transient :: "nat \<Rightarrow> bool" where
  "transient errno \<longleftrightarrow> errno = EINTR \<or> errno = EAGAIN"

text \<open>
  The loop of \<open>PoolSysRecvMsg\<close>, which \<open>PoolSysSendMsg\<close>, \<open>PoolSysRecvFromMsg\<close> and \<open>PoolSysSendToMsg\<close> repeat with their own
  call: \<open>ready\<close> is the event they wait for, \<open>io\<close> the call on a state.
\<close>

fun wait_loop ::
    "(wait_result \<Rightarrow> bool) \<Rightarrow> ('s \<Rightarrow> 'a \<Rightarrow> 's \<times> 'r io_step) \<Rightarrow> nat \<Rightarrow> 's \<Rightarrow> 'a round list \<Rightarrow> ('s \<times> 'r pool_result) option" where
  "wait_loop ready io timeout s [] = None"
| "wait_loop ready io timeout s (r # rs) =
     (let again = (\<lambda>s. if rd_elapsed r \<ge> timeout then Some (s, PoolFail (Some ETIME))
                       else wait_loop ready io (timeout - rd_elapsed r) s rs) in
      case rd_wait r of
        WaitEvents err hup rin rout \<Rightarrow>
          if err then Some (s, PoolFail None)
          else if hup then Some (s, PoolFail None)
          else if ready (rd_wait r)
          then (case io s (rd_io r) of
                  (s, IoDone x) \<Rightarrow> Some (s, PoolDone x)
                | (s, IoFail e) \<Rightarrow> Some (s, PoolFail (Some e))
                | (s, IoAgain) \<Rightarrow> again s)
          else again s
      | WaitNothing \<Rightarrow> Some (s, PoolFail (Some ETIME))
      | WaitError e \<Rightarrow> if e \<noteq> EINTR then Some (s, PoolFail (Some e)) else again s)"

section \<open>Receiving\<close>

definition recv_step :: "unit \<Rightarrow> sysread \<Rightarrow> unit \<times> byte list io_step" where
  "recv_step s r =
     (s, case sr_data r of
           Some bs \<Rightarrow> IoDone bs
         | None \<Rightarrow> if transient (sr_errno r) then IoAgain else IoFail (sr_errno r))"

definition PoolSysRecvMsg :: "sysread \<Rightarrow> nat \<Rightarrow> sysread round list \<Rightarrow> byte list pool_result option" where
  "PoolSysRecvMsg first timeout rounds =
     (case snd (recv_step () first) of
        IoDone bs \<Rightarrow> Some (PoolDone bs)
      | IoFail e \<Rightarrow> Some (PoolFail (Some e))
      | IoAgain \<Rightarrow> map_option snd (wait_loop w_in recv_step timeout () rounds))"

text \<open>
  \<open>recvfrom\<close>: an empty datagram is no success, and what follows depends on the \<open>errno\<close> that an earlier call has
  left; the state is that \<open>errno\<close>.
\<close>

definition recvfrom_step :: "nat \<Rightarrow> sysread \<Rightarrow> nat \<times> byte list io_step" where
  "recvfrom_step errno r =
     (let errno = (if sr_data r = None then sr_errno r else errno) in
      (errno,
       case sr_data r of
         Some bs \<Rightarrow> if bs \<noteq> [] then IoDone bs else if transient errno then IoAgain else IoFail errno
       | None \<Rightarrow> if transient errno then IoAgain else IoFail errno))"

definition PoolSysRecvFromMsg :: "nat \<Rightarrow> sysread \<Rightarrow> nat \<Rightarrow> sysread round list \<Rightarrow> byte list pool_result option" where
  "PoolSysRecvFromMsg errno first timeout rounds =
     (case recvfrom_step errno first of
        (_, IoDone bs) \<Rightarrow> Some (PoolDone bs)
      | (_, IoFail e) \<Rightarrow> Some (PoolFail (Some e))
      | (errno, IoAgain) \<Rightarrow> map_option snd (wait_loop w_in recvfrom_step timeout errno rounds))"

section \<open>Sending\<close>

text \<open>
  A \<open>send\<close> gets the rest of the buffer; the state is what the kernel has accepted so far, of which
  \<open>send_len\<close> is the length.
\<close>

definition send_step :: "byte list \<Rightarrow> byte list \<Rightarrow> (byte list \<Rightarrow> syswrite) \<Rightarrow> byte list \<times> nat io_step" where
  "send_step buf wire call =
     (let rest = drop (length wire) buf; w = call rest in
      if sw_sent w < 0 then (wire, if transient (sw_errno w) then IoAgain else IoFail (sw_errno w))
      else let wire = wire @ take (nat (sw_sent w)) rest in
        (wire, if length buf = length wire then IoDone (length wire) else IoAgain))"

text \<open>
  \<open>AutoEpollWrite\<close> asks for the write event before the loop and goes back to reading on every way out; the calls to
  the epoll instance are the last result.
\<close>

datatype pool_epoll = EpollOut | EpollIn

definition auto_epoll_write :: "'x option \<Rightarrow> ('x \<times> pool_epoll list) option" where
  "auto_epoll_write = map_option (\<lambda>x. (x, [EpollOut, EpollIn]))"

definition PoolSysSendMsg ::
    "byte list \<Rightarrow> (byte list \<Rightarrow> syswrite) \<Rightarrow> nat \<Rightarrow> (byte list \<Rightarrow> syswrite) round list \<Rightarrow>
      ((byte list \<times> nat pool_result) \<times> pool_epoll list) option" where
  "PoolSysSendMsg buf first timeout rounds =
     (case send_step buf [] first of
        (wire, IoDone n) \<Rightarrow> Some ((wire, PoolDone n), [])
      | (wire, IoFail e) \<Rightarrow> Some ((wire, PoolFail (Some e)), [])
      | (wire, IoAgain) \<Rightarrow> auto_epoll_write (wait_loop w_out (send_step buf) timeout wire rounds))"

definition sendto_step :: "byte list \<Rightarrow> unit \<Rightarrow> (byte list \<Rightarrow> syswrite) \<Rightarrow> unit \<times> int io_step" where
  "sendto_step buf s call =
     (s, let w = call buf in
         if sw_sent w < 0 then (if transient (sw_errno w) then IoAgain else IoFail (sw_errno w))
         else IoDone (sw_sent w))"

definition PoolSysSendToMsg ::
    "byte list \<Rightarrow> (byte list \<Rightarrow> syswrite) \<Rightarrow> nat \<Rightarrow> (byte list \<Rightarrow> syswrite) round list \<Rightarrow>
      (int pool_result \<times> pool_epoll list) option" where
  "PoolSysSendToMsg buf first timeout rounds =
     (case snd (sendto_step buf () first) of
        IoDone n \<Rightarrow> Some (PoolDone n, [])
      | IoFail e \<Rightarrow> Some (PoolFail (Some e), [])
      | IoAgain \<Rightarrow> auto_epoll_write (map_option snd (wait_loop w_out (sendto_step buf) timeout () rounds)))"

section \<open>Connecting\<close>

text \<open>
  Any event without \<open>EPOLLERR\<close> counts as connected, and \<open>disable\<close> is whether the epoll instance can be set
  back to reading. Only an interrupted wait uses up the time-out here.
\<close>

fun connect_loop :: "bool \<Rightarrow> nat \<Rightarrow> unit round list \<Rightarrow> unit pool_result option" where
  "connect_loop disable timeout [] = None"
| "connect_loop disable timeout (r # rs) =
     (case rd_wait r of
        WaitEvents err hup rin rout \<Rightarrow>
          if err then Some (PoolFail None) else if \<not> disable then Some (PoolFail None) else Some (PoolDone ())
      | WaitNothing \<Rightarrow> Some (PoolFail (Some ETIMEDOUT))
      | WaitError e \<Rightarrow>
          if e = EINTR
          then (if rd_elapsed r \<ge> timeout then Some (PoolFail (Some ETIMEDOUT))
                else connect_loop disable (timeout - rd_elapsed r) rs)
          else Some (PoolFail (Some e)))"

definition PoolSysConnect ::
    "bool \<Rightarrow> int \<times> nat \<Rightarrow> bool \<Rightarrow> nat \<Rightarrow> unit round list \<Rightarrow> unit pool_result option" where
  "PoolSysConnect modify connect disable timeout rounds =
     (if \<not> modify then Some (PoolFail None)
      else if fst connect \<noteq> 0 \<and> snd connect \<noteq> EINTR \<and> snd connect \<noteq> EINPROGRESS then Some (PoolFail (Some (snd connect)))
      else connect_loop disable timeout rounds)"

text \<open>\<open>epoll_wait\<close> takes the 64-bit time-out as an \<open>int\<close>, and waits without end when that is negative.\<close>

definition pool_epoll_timeout :: "nat \<Rightarrow> int" where
  "pool_epoll_timeout timeout = i32 (int timeout)"

section \<open>The calls handed to the state-threads library\<close>

text \<open>
  Its time-outs are in microseconds and 64 bits wide, with \<open>ST_UTIME_NO_TIMEOUT\<close> for none.
\<close>

definition ST_UTIME_NO_TIMEOUT :: nat where "ST_UTIME_NO_TIMEOUT = 2 ^ 64 - 1"

definition st_timeout :: "nat \<Rightarrow> nat" where
  "st_timeout timeout = (if timeout = ST_UTIME_NO_TIMEOUT then ST_UTIME_NO_TIMEOUT else u64 (timeout * 1000))"

definition PoolStConnect :: "(nat \<Rightarrow> int) \<Rightarrow> nat \<Rightarrow> bool" where
  "PoolStConnect st_connect timeout = (if st_connect (st_timeout timeout) = -1 then False else True)"

definition PoolStRecvMsg :: "(nat \<Rightarrow> nat \<Rightarrow> sysread) \<Rightarrow> nat \<Rightarrow> nat \<Rightarrow> sysread" where
  "PoolStRecvMsg st_read len timeout = st_read len (st_timeout timeout)"

definition PoolStSendMsg :: "(byte list \<Rightarrow> nat \<Rightarrow> syswrite) \<Rightarrow> byte list \<Rightarrow> nat \<Rightarrow> syswrite" where
  "PoolStSendMsg st_write buf timeout = st_write buf (st_timeout timeout)"

definition PoolStRecvFromMsg :: "(int \<Rightarrow> nat \<Rightarrow> sysread) \<Rightarrow> nat \<Rightarrow> nat \<Rightarrow> sysread" where
  "PoolStRecvFromMsg st_recvfrom len timeout = st_recvfrom (i32 (int len)) (st_timeout timeout)"

definition PoolStSendToMsg :: "(byte list \<Rightarrow> int \<Rightarrow> nat \<Rightarrow> syswrite) \<Rightarrow> byte list \<Rightarrow> nat \<Rightarrow> syswrite" where
  "PoolStSendToMsg st_sendto buf timeout = st_sendto buf (i32 (int (length buf))) (st_timeout timeout)"

section \<open>Sockets and listeners\<close>

text \<open>
  A \<open>PoolSocket\<close>: a descriptor with an epoll instance, or a descriptor of the library. The state is the set of open
  descriptors; \<open>delete\<close> closes what the socket holds.
\<close>

datatype pool_mode = POOLWORKERMODE_SYS | POOLWORKERMODE_ST

record pool_socket =
  ps_st_fd :: "int option"
  ps_sys_fd :: int
  ps_sys_eq :: int
  ps_mode :: pool_mode

definition PoolSocket_new :: pool_socket where
  "PoolSocket_new = \<lparr>ps_st_fd = None, ps_sys_fd = -1, ps_sys_eq = -1, ps_mode = POOLWORKERMODE_SYS\<rparr>"

definition PoolSocket_delete :: "pool_socket \<Rightarrow> int set \<Rightarrow> int set" where
  "PoolSocket_delete s fds =
     fds - set_option (ps_st_fd s) - (if ps_sys_fd s \<noteq> -1 then {ps_sys_fd s} else {}) -
       (if ps_sys_eq s \<noteq> -1 then {ps_sys_eq s} else {})"

record socket_calls =
  sk_options :: kernel
  sk_epoll :: int
  sk_enable :: bool
  sk_st_open :: bool

definition CreateSocket :: "socket_calls \<Rightarrow> pool_mode \<Rightarrow> int \<Rightarrow> int set \<Rightarrow> pool_socket option \<times> int set" where
  "CreateSocket c mode s fds =
     (case mode of
        POOLWORKERMODE_SYS \<Rightarrow>
          let fd = PoolSocket_new\<lparr>ps_sys_fd := s\<rparr> in
          if \<not> fst (setFdOptions (sk_options c) False []) then (None, PoolSocket_delete fd fds)
          else let fd = fd\<lparr>ps_sys_eq := sk_epoll c\<rparr>; fds = (if sk_epoll c \<noteq> -1 then insert (sk_epoll c) fds else fds) in
            if sk_epoll c = -1 then (None, PoolSocket_delete fd fds)
            else if \<not> sk_enable c then (None, PoolSocket_delete fd fds)
            else (Some (fd\<lparr>ps_mode := POOLWORKERMODE_SYS\<rparr>), fds)
      | POOLWORKERMODE_ST \<Rightarrow>
          if \<not> fst (setFdNoSIGPIPE (sk_options c) []) then (None, fds - {s})
          else if \<not> sk_st_open c then (None, fds - {s})
          else (Some (PoolSocket_new\<lparr>ps_st_fd := Some s, ps_mode := POOLWORKERMODE_ST\<rparr>), fds))"

definition CreateNewSocket :: "int \<Rightarrow> socket_calls \<Rightarrow> pool_mode \<Rightarrow> int set \<Rightarrow> pool_socket option \<times> int set" where
  "CreateNewSocket s c mode fds = (if s = -1 then (None, fds) else CreateSocket c mode s (insert s fds))"

text \<open>
  \<open>TCPListen\<close> and \<open>UNIXListen\<close>: the answers are the socket, whether its options can be set (the second time in the
  system mode only), and whether \<open>bind\<close>, \<open>listen\<close> and, for a UNIX path, \<open>chmod\<close> succeed. The result is the
  descriptor that listens, and the open descriptors: where a call fails, the socket stays open.
\<close>

record listen_calls =
  ln_socket :: int
  ln_options :: bool
  ln_bind :: bool
  ln_listen :: bool
  ln_chmod :: bool
  ln_options2 :: bool

definition PoolListen :: "listen_calls \<Rightarrow> bool \<Rightarrow> pool_mode \<Rightarrow> int set \<Rightarrow> int option \<times> int set" where
  "PoolListen c unix mode fds =
     (if ln_socket c < 0 then (None, fds)
      else let fds = insert (ln_socket c) fds in
        if \<not> ln_options c then (None, fds)
        else if \<not> ln_bind c then (None, fds)
        else if \<not> ln_listen c then (None, fds)
        else if unix \<and> \<not> ln_chmod c then (None, fds)
        else if mode = POOLWORKERMODE_SYS \<and> \<not> ln_options2 c then (None, fds)
        else (Some (ln_socket c), fds))"

text \<open>The address of \<open>TCPConnect\<close> is \<^term>\<open>None\<close> where \<open>inet_addr\<close> cannot read it.\<close>

definition PoolTCPConnect :: "nat option \<Rightarrow> nat \<Rightarrow> (nat \<times> nat \<Rightarrow> bool) \<Rightarrow> bool" where
  "PoolTCPConnect address port pool_connect =
     (case address of None \<Rightarrow> False | Some ip \<Rightarrow> pool_connect (ip, u16 port))"

text \<open>The path is cut to what \<open>sun_path\<close> holds; the first result is the length of the address.\<close>

definition PoolUNIXConnect :: "string \<Rightarrow> (nat \<times> string \<Rightarrow> bool) \<Rightarrow> bool" where
  "PoolUNIXConnect path pool_connect = (let p = take 107 (takeWhile (\<lambda>c. c \<noteq> NUL) path) in pool_connect (2 + length p, p))"

section \<open>The waiting loop returns in time\<close>

lemma wait_loop_returns:
  "rounds \<noteq> [] \<Longrightarrow> timeout \<le> sum_list (map rd_elapsed rounds) \<Longrightarrow> \<exists>x. wait_loop ready io timeout s rounds = Some x"
proof (induction ready io timeout s rounds rule: wait_loop.induct)
  case (2 ready io timeout s r rs)
  have again: "\<exists>x. (if rd_elapsed r \<ge> timeout then Some (s', PoolFail (Some ETIME))
      else wait_loop ready io (timeout - rd_elapsed r) s' rs) = Some x" for s'
  proof (cases "rd_elapsed r \<ge> timeout")
    case False
    then have "rs \<noteq> []" "timeout - rd_elapsed r \<le> sum_list (map rd_elapsed rs)"
      using 2(3) by auto
    then show ?thesis
      using 2(1) False by simp
  qed simp
  then show ?case
    by (auto simp: Let_def split: wait_result.splits prod.splits io_step.splits)
qed simp

definition keeps :: "('s \<Rightarrow> bool) \<Rightarrow> ('s \<Rightarrow> 'r \<Rightarrow> bool) \<Rightarrow> ('s \<Rightarrow> 'a \<Rightarrow> 's \<times> 'r io_step) \<Rightarrow> 'a \<Rightarrow> bool" where
  "keeps I Q io a \<longleftrightarrow> (\<forall>s. I s \<longrightarrow> I (fst (io s a)) \<and> (\<forall>y. snd (io s a) = IoDone y \<longrightarrow> Q (fst (io s a)) y))"

lemma wait_loop_inv:
  assumes "wait_loop ready io timeout s rounds = Some (s', res)" and "I s" and "\<forall>a\<in>set (map rd_io rounds). keeps I Q io a"
  shows "I s' \<and> (\<forall>y. res = PoolDone y \<longrightarrow> Q s' y)"
  using assms
proof (induction ready io timeout s rounds rule: wait_loop.induct)
  case (2 ready io timeout s r rs)
  have keeps: "\<forall>a\<in>set (map rd_io rs). keeps I Q io a"
    using 2(4) by simp
  have again: "I s' \<and> (\<forall>y. res = PoolDone y \<longrightarrow> Q s' y)"
    if "I s1" "(if rd_elapsed r \<ge> timeout then Some (s1, PoolFail (Some ETIME))
      else wait_loop ready io (timeout - rd_elapsed r) s1 rs) = Some (s', res)" for s1
  proof (cases "rd_elapsed r \<ge> timeout")
    case False
    then have "wait_loop ready io (timeout - rd_elapsed r) s1 rs = Some (s', res)"
      using that(2) by simp
    then show ?thesis
      by (rule 2(1) [OF False _ that(1) keeps])
  qed (use that in auto)
  have io: "I (fst (io s (rd_io r)))" "\<And>y. snd (io s (rd_io r)) = IoDone y \<Longrightarrow> Q (fst (io s (rd_io r))) y"
    using 2(3,4) by (simp_all add: keeps_def)
  show ?case
    using 2(2) again 2(3) io
    by (auto simp: Let_def split: wait_result.splits prod.splits io_step.splits if_splits)
qed simp

lemma send_step_prefix:
  assumes "prefix wire buf" and "\<forall>bs. sw_sent (call bs) \<le> int (length bs)"
  shows "prefix (fst (send_step buf wire call)) buf \<and>
     (\<forall>n. snd (send_step buf wire call) = IoDone n \<longrightarrow> fst (send_step buf wire call) = buf \<and> n = length buf)"
proof -
  obtain rest where buf: "buf = wire @ rest"
    using assms(1) by (auto simp: prefix_def)
  have "take n rest @ drop n rest = rest" for n
    by simp
  then have pre: "prefix (wire @ take n rest) buf" for n
    unfolding buf prefix_def by (metis append_assoc)
  show ?thesis
  proof (cases "sw_sent (call rest) < 0")
    case True
    then show ?thesis
      using assms(1) by (simp add: send_step_def Let_def buf)
  next
    case False
    then show ?thesis
      using pre [of "nat (sw_sent (call rest))"] by (auto simp: send_step_def Let_def buf take_all_iff)
  qed
qed

text \<open>
  C26: A blocking send of the pool services sends everything or says so. Whatever parts the kernel accepts and however often
  the wait is interrupted, the bytes the kernel has got are a prefix of the buffer, and the call returns a number
  only when it has got all of it, and then that number is its length; the epoll instance is set back to reading
  whenever it was asked for the write event. The call has returned once the rounds of its loop have taken the time-out.
\<close>
theorem pool_send_complete:
  assumes "\<forall>call\<in>set (first # map rd_io rounds). \<forall>bs. sw_sent (call bs) \<le> int (length bs)"
    and "rounds \<noteq> []" and "timeout \<le> sum_list (map rd_elapsed rounds)"
  shows "\<exists>wire res calls. PoolSysSendMsg buf first timeout rounds = Some ((wire, res), calls) \<and> prefix wire buf \<and>
     (\<forall>n. res = PoolDone n \<longrightarrow> wire = buf \<and> n = length buf) \<and> calls \<in> {[], [EpollOut, EpollIn]}"
proof -
  obtain wire st where first: "send_step buf [] first = (wire, st)"
    by (cases "send_step buf [] first")
  have W: "prefix wire buf" "\<And>n. st = IoDone n \<Longrightarrow> wire = buf \<and> n = length buf"
    using send_step_prefix [of "[]" buf first] assms(1) first by auto
  show ?thesis
  proof (cases st)
    case IoAgain
    obtain wire' res where L: "wait_loop w_out (send_step buf) timeout wire rounds = Some (wire', res)"
      using wait_loop_returns [OF assms(2,3), of w_out "send_step buf" wire] by auto
    have "\<forall>a\<in>set (map rd_io rounds). keeps (\<lambda>w. prefix w buf) (\<lambda>w n. w = buf \<and> n = length buf) (send_step buf) a"
      unfolding keeps_def using assms(1) send_step_prefix by (meson list.set_intros(2))
    from wait_loop_inv [OF L W(1) this]
    have "prefix wire' buf \<and> (\<forall>n. res = PoolDone n \<longrightarrow> wire' = buf \<and> n = length buf)"
      by simp
    then show ?thesis
      using first IoAgain L by (auto simp: PoolSysSendMsg_def auto_epoll_write_def)
  qed (use first W in \<open>auto simp: PoolSysSendMsg_def\<close>)
qed

text \<open>A kernel that takes two bytes at a time, with an interruption in between.\<close>

definition two_bytes :: "byte list \<Rightarrow> syswrite" where
  "two_bytes bs = \<lparr>sw_sent = int (min 2 (length bs)), sw_errno = 0\<rparr>"

definition demo_rounds :: "(byte list \<Rightarrow> syswrite) round list" where
  "demo_rounds = [\<lparr>rd_wait = WaitError EINTR, rd_io = two_bytes, rd_elapsed = 3\<rparr>,
     \<lparr>rd_wait = WaitEvents False False False True, rd_io = two_bytes, rd_elapsed = 4\<rparr>,
     \<lparr>rd_wait = WaitEvents False False False True, rd_io = two_bytes, rd_elapsed = 5\<rparr>]"

lemma pool_send_complete_witness:
  "PoolSysSendMsg [1, 2, 3, 4, 5] two_bytes 10 demo_rounds = Some (([1, 2, 3, 4, 5], PoolDone 5), [EpollOut, EpollIn]) \<and>
   (\<exists>wire res calls. PoolSysSendMsg [1, 2, 3, 4, 5] two_bytes 10 demo_rounds = Some ((wire, res), calls) \<and> prefix wire [1, 2, 3, 4, 5])"
proof
  show "PoolSysSendMsg [1, 2, 3, 4, 5] two_bytes 10 demo_rounds = Some (([1, 2, 3, 4, 5], PoolDone 5), [EpollOut, EpollIn])"
    by (simp add: PoolSysSendMsg_def demo_rounds_def two_bytes_def send_step_def Let_def auto_epoll_write_def errno_defs)
  show "\<exists>wire res calls. PoolSysSendMsg [1, 2, 3, 4, 5] two_bytes 10 demo_rounds = Some ((wire, res), calls) \<and> prefix wire [1, 2, 3, 4, 5]"
    using pool_send_complete [of two_bytes demo_rounds 10 "[1, 2, 3, 4, 5]"]
    by (auto simp: demo_rounds_def two_bytes_def)
qed

lemma pool_recv_returns:
  assumes "rounds \<noteq> []" and "timeout \<le> sum_list (map rd_elapsed rounds)"
  shows "\<exists>res. PoolSysRecvMsg first timeout rounds = Some res \<and>
     (\<forall>bs. res = PoolDone bs \<longrightarrow> Some bs \<in> sr_data ` set (first # map rd_io rounds))"
proof (cases "snd (recv_step () first)")
  case IoAgain
  obtain s res where L: "wait_loop w_in recv_step timeout () rounds = Some (s, res)"
    using wait_loop_returns [OF assms, of w_in recv_step "()"] by auto
  have "\<forall>a\<in>set (map rd_io rounds). keeps (\<lambda>_. True) (\<lambda>_ bs. Some bs \<in> sr_data ` set (map rd_io rounds)) recv_step a"
    by (force simp: keeps_def recv_step_def split: option.splits if_splits)
  from wait_loop_inv [OF L _ this] show ?thesis
    using IoAgain L by (auto simp: PoolSysRecvMsg_def)
qed (auto simp: PoolSysRecvMsg_def recv_step_def split: option.splits if_splits)

text \<open>A failed \<open>CreateSocket\<close> closes the descriptor it was given; a failed listen leaves the socket open.\<close>

lemma CreateSocket_failure_closes:
  assumes "CreateSocket c mode s fds = (None, fds')" and "sk_epoll c \<notin> fds"
    and "s \<noteq> -1"
  shows "fds' = fds - {s}"
  using assms
  by (auto simp: CreateSocket_def PoolSocket_delete_def PoolSocket_new_def Let_def split: pool_mode.splits if_splits)

lemma failed_listen_leaks:
  "PoolListen c unix mode fds = (None, fds') \<Longrightarrow> 0 \<le> ln_socket c \<Longrightarrow> ln_socket c \<in> fds'"
  by (auto simp: PoolListen_def Let_def split: if_splits)

end
