(* ===== verification/PoolWorker.thy ===== *)
theory PoolWorker
  imports PoolSocket "HOL-Library.Multiset"
begin

text \<open>
  The pool services (\<open>src/pooldrive\<close>): acceptors that deal connections out to worker processes
  (\<open>sysaccept.cpp\<close>, \<open>staccept.cpp\<close>), a worker process with its threads (\<open>sysworker.cpp\<close>, \<open>stworker.cpp\<close>) and the master
  that keeps the worker processes alive (\<open>manager.cpp\<close>). The threads of a worker are a step relation in which the
  accesses under its lock, the semaphore operations and the runs of a process are single steps. The two kinds of
  worker have nearly the same code over two libraries; the definitions are of the one with system threads, and the last
  section has what is different with state threads, whose condition variables forget a signal nobody waits for.
\<close>

section \<open>What an acceptor sends along with a connection\<close>

definition ACCEPT_EX_DATA_LENGTH :: nat where "ACCEPT_EX_DATA_LENGTH = 300"

text \<open>\<open>strncpy\<close> of a text into \<open>n\<close> bytes: padded with \<open>NUL\<close>, and without one when the text fills them.\<close>

definition c_strncpy :: "string \<Rightarrow> nat \<Rightarrow> string" where
  "c_strncpy s n = (let t = take n (takeWhile (\<lambda>c. c \<noteq> NUL) s) in t @ replicate (n - length t) NUL)"

text \<open>The first byte is set when the data is sent, the second tells the kind, then the port in memory order or the path.\<close>

definition tcp_ex_data :: "nat \<Rightarrow> string" where
  "tcp_ex_data port = [NUL, NUL, char_of (port mod 256), char_of (port div 256 mod 256)] @
     replicate (ACCEPT_EX_DATA_LENGTH - 4) NUL"

definition unix_ex_data :: "string \<Rightarrow> string" where
  "unix_ex_data path = [NUL, CHR 0x01] @ c_strncpy path (ACCEPT_EX_DATA_LENGTH - 2)"

datatype pool_origin = FromPort nat | FromPath string

text \<open>\<open>CreateTCPProcess\<close> gets the port, \<open>CreateUNIXProcess\<close> the text from byte 2 on, to its \<open>NUL\<close>.\<close>

definition ex_data_origin :: "string \<Rightarrow> pool_origin option" where
  "ex_data_origin ex =
     (if length ex < 4 then None
      else if ex ! 1 = NUL then Some (FromPort (of_char (ex ! 2) + 256 * of_char (ex ! 3)))
      else map_option FromPath (c_str_at ex 2))"

text \<open>
  \<open>SendFd\<close> marks the message and the receiver takes the connection when it finds the mark. Where \<open>sendmsg\<close> fails it
  closes the descriptor; the second result are the descriptors closed.
\<close>

definition SendFd_data :: "string \<Rightarrow> string" where
  "SendFd_data ex = ex[0 := CHR ''A'']"

definition SendFd :: "bool \<Rightarrow> int \<Rightarrow> string \<Rightarrow> string \<times> int list" where
  "SendFd sent fd ex = (SendFd_data ex, if sent then [] else [fd])"

datatype pool_message = MsgConnection string | MsgClose | MsgOther

definition received_message :: "string \<Rightarrow> pool_message" where
  "received_message recv_char =
     (if recv_char ! 0 = CHR ''A'' then MsgConnection recv_char
      else if recv_char ! 0 = CHR ''C'' then MsgClose
      else MsgOther)"

section \<open>Acceptors\<close>

record pool_accept =
  pa_fd :: int
  pa_me :: nat
  pa_workers :: "nat list"
  pa_pos :: nat
  pa_ex :: string

datatype accept_action = HandleHere int | SendTo nat string "int list"

text \<open>
  The workers in turn; a connection for the own worker is processed at once, one for another is sent to it
  and the own descriptor closed, also when \<open>SendFd\<close> has closed it already. \<^term>\<open>None\<close> is the division by zero without
  workers.
\<close>

definition pool_accept_Process :: "int \<Rightarrow> bool \<Rightarrow> pool_accept \<Rightarrow> (accept_action option \<times> pool_accept) option" where
  "pool_accept_Process fd sent a =
     (if fd < 0 then Some (None, a)
      else if pa_workers a = [] then None
      else let w = pa_workers a ! (pa_pos a mod length (pa_workers a)); a = a\<lparr>pa_pos := u32 (pa_pos a + 1)\<rparr> in
        if w = pa_me a then Some (Some (HandleHere fd), a)
        else (case SendFd sent fd (pa_ex a) of
                (ex, closed) \<Rightarrow> Some (Some (SendTo w ex (closed @ [fd])), a\<lparr>pa_ex := ex\<rparr>)))"

lemma unsent_closed_twice:
  "pool_accept_Process fd sent a = Some (Some (SendTo w ex closed), a') \<Longrightarrow> closed = (if sent then [fd] else [fd, fd])"
  by (auto simp: pool_accept_Process_def SendFd_def Let_def split: if_splits)

definition PoolTCPListen :: "listen_calls \<Rightarrow> pool_mode \<Rightarrow> nat \<Rightarrow> nat \<Rightarrow> nat list \<Rightarrow> int set \<Rightarrow> pool_accept option \<times> int set" where
  "PoolTCPListen c mode port me others fds =
     (case PoolListen c False mode fds of
        (None, fds) \<Rightarrow> (None, fds)
      | (Some fd, fds) \<Rightarrow>
          (Some \<lparr>pa_fd = fd, pa_me = me, pa_workers = others, pa_pos = 0, pa_ex = tcp_ex_data port\<rparr>, fds))"

definition PoolUNIXListen :: "listen_calls \<Rightarrow> pool_mode \<Rightarrow> string \<Rightarrow> nat \<Rightarrow> nat list \<Rightarrow> int set \<Rightarrow> pool_accept option \<times> int set" where
  "PoolUNIXListen c mode path me others fds =
     (case PoolListen c True mode fds of
        (None, fds) \<Rightarrow> (None, fds)
      | (Some fd, fds) \<Rightarrow>
          (Some \<lparr>pa_fd = fd, pa_me = me, pa_workers = others, pa_pos = 0, pa_ex = unix_ex_data path\<rparr>, fds))"

section \<open>The threads of a worker\<close>

text \<open>
  A handle is a number. Its thread is at the test of \<open>is_close_\<close>, waits for its semaphore, has been woken, is about to
  give its handle back, or has ended. A process is a number too; \<open>pw_ran\<close> lists the processes whose \<open>Process\<close> was
  called, \<open>pw_main\<close> is whether the main loop runs, \<open>pw_started\<close> those that \<open>StartWithThread\<close> took.
\<close>

datatype thread_at = AtTest | AtWait | AtWoken | AtPark | AtEnd

record pool_worker =
  pw_idle :: "nat set"
  pw_use :: "nat set"
  pw_process :: "nat \<Rightarrow> nat option"
  pw_signal :: "nat \<Rightarrow> nat"
  pw_at :: "nat \<Rightarrow> thread_at"
  pw_close :: bool
  pw_main :: bool
  pw_started :: "nat list"
  pw_ran :: "nat list"

definition pool_start :: "nat \<Rightarrow> pool_worker" where
  "pool_start threads = \<lparr>pw_idle = {0..<threads}, pw_use = {}, pw_process = (\<lambda>_. None), pw_signal = (\<lambda>_. 0),
     pw_at = (\<lambda>_. AtTest), pw_close = False, pw_main = True, pw_started = [], pw_ran = []\<rparr>"

text \<open>\<open>choice\<close> is the handle \<open>idle_handles_.begin()\<close> gives; without an idle handle the process is deleted.\<close>

definition StartWithThread :: "nat \<Rightarrow> nat \<Rightarrow> pool_worker \<Rightarrow> bool \<times> pool_worker" where
  "StartWithThread choice p w =
     (if pw_idle w = {} then (False, w)
      else (True, w\<lparr>pw_process := (pw_process w)(choice := Some p), pw_idle := pw_idle w - {choice},
              pw_use := insert choice (pw_use w), pw_signal := (pw_signal w)(choice := Suc (pw_signal w choice)),
              pw_started := pw_started w @ [p]\<rparr>))"

text \<open>
  A connection: the socket may not come about, and the application may have no process for it, after which the code
  follows its null pointer.
\<close>

definition ProcessFd :: "pool_socket option \<Rightarrow> (pool_origin \<Rightarrow> nat option) \<Rightarrow> nat \<Rightarrow> string \<Rightarrow> pool_worker \<Rightarrow> pool_worker option" where
  "ProcessFd socket create choice ex w =
     (case socket of
        None \<Rightarrow> Some w
      | Some _ \<Rightarrow> do {
          origin \<leftarrow> ex_data_origin ex;
          p \<leftarrow> create origin;
          Some (snd (StartWithThread choice p w)) })"

text \<open>
  The main loop gets the message \<open>C\<close>; or it finds at its head that \<open>is_close_\<close>, which the master shares with it, has been
  set, and leaves at once to join the threads.
\<close>

definition pool_Close :: "pool_worker \<Rightarrow> pool_worker" where
  "pool_Close w = w\<lparr>pw_close := True, pw_signal := (\<lambda>h. if h \<in> pw_idle w then Suc (pw_signal w h) else pw_signal w h)\<rparr>"

definition pool_shared_close :: "pool_worker \<Rightarrow> pool_worker" where
  "pool_shared_close w = w\<lparr>pw_close := True\<rparr>"

definition pool_leave :: "pool_worker \<Rightarrow> pool_worker" where
  "pool_leave w = w\<lparr>pw_main := False\<rparr>"

text \<open>
  What the main loop does with the events of one \<open>epoll_wait\<close>. A message is \<^term>\<open>None\<close> where \<open>recvmsg\<close> fails, else the data
  and the descriptor that came along; an acceptor is a number. The close message ends the batch.
\<close>

datatype pool_event = PoolMessage "(string \<times> int) option" | PoolAccepting nat int bool

fun serve_pool ::
    "(int \<Rightarrow> pool_socket option) \<Rightarrow> (pool_origin \<Rightarrow> nat option) \<Rightarrow> (pool_worker \<Rightarrow> nat) \<Rightarrow> pool_event list \<Rightarrow>
      (nat \<Rightarrow> pool_accept) \<times> pool_worker \<Rightarrow> ((nat \<Rightarrow> pool_accept) \<times> pool_worker) option" where
  "serve_pool socket create choice [] (accs, w) = Some (accs, w)"
| "serve_pool socket create choice (PoolMessage None # es) (accs, w) = serve_pool socket create choice es (accs, w)"
| "serve_pool socket create choice (PoolMessage (Some (d, fd)) # es) (accs, w) =
     (case received_message d of
        MsgConnection ex \<Rightarrow>
          if fd \<noteq> -1
          then do { w \<leftarrow> ProcessFd (socket fd) create (choice w) ex w; serve_pool socket create choice es (accs, w) }
          else serve_pool socket create choice es (accs, w)
      | MsgClose \<Rightarrow> Some (accs, pool_Close w)
      | MsgOther \<Rightarrow> serve_pool socket create choice es (accs, w))"
| "serve_pool socket create choice (PoolAccepting k fd sent # es) (accs, w) =
     do { (action, a) \<leftarrow> pool_accept_Process fd sent (accs k);
          w \<leftarrow> (case action of
                 Some (HandleHere fd) \<Rightarrow> ProcessFd (socket fd) create (choice w) (pa_ex a) w
               | _ \<Rightarrow> Some w);
          serve_pool socket create choice es (accs(k := a), w) }"

text \<open>One step of the thread of handle \<open>h\<close> in \<open>DoRun\<close>; \<^term>\<open>None\<close> where it cannot go on.\<close>

definition DoRun_step :: "nat \<Rightarrow> pool_worker \<Rightarrow> pool_worker option" where
  "DoRun_step h w =
     (case pw_at w h of
        AtTest \<Rightarrow> Some (w\<lparr>pw_at := (pw_at w)(h := if pw_close w then AtEnd else AtWait)\<rparr>)
      | AtWait \<Rightarrow>
          if pw_signal w h = 0 then None
          else Some (w\<lparr>pw_signal := (pw_signal w)(h := pw_signal w h - 1), pw_at := (pw_at w)(h := AtWoken)\<rparr>)
      | AtWoken \<Rightarrow>
          (case pw_process w h of
             Some p \<Rightarrow> Some (w\<lparr>pw_ran := pw_ran w @ [p], pw_process := (pw_process w)(h := None),
                             pw_at := (pw_at w)(h := AtPark)\<rparr>)
           | None \<Rightarrow> Some (w\<lparr>pw_at := (pw_at w)(h := AtPark)\<rparr>))
      | AtPark \<Rightarrow> Some (w\<lparr>pw_use := pw_use w - {h}, pw_idle := insert h (pw_idle w), pw_at := (pw_at w)(h := AtTest)\<rparr>)
      | AtEnd \<Rightarrow> None)"

inductive pool_step :: "nat \<Rightarrow> pool_worker \<Rightarrow> pool_worker \<Rightarrow> bool" for threads where
  pool_start_thread: "choice \<in> pw_idle w \<Longrightarrow> pool_step threads w (snd (StartWithThread choice p w))"
| pool_thread: "h < threads \<Longrightarrow> DoRun_step h w = Some w' \<Longrightarrow> pool_step threads w w'"
| pool_master: "pool_step threads w (pool_shared_close w)"
| pool_closing: "pw_main w \<Longrightarrow> pool_step threads w (pool_Close w)"
| pool_leaving: "pw_main w \<Longrightarrow> pw_close w \<Longrightarrow> pool_step threads w (pool_leave w)"

inductive_cases pool_stepE: "pool_step threads w w'"

text \<open>A batch of events is a sequence of these steps.\<close>

lemma ProcessFd_steps:
  assumes "ProcessFd socket create (choice w) ex w = Some w'" and "\<forall>w. pw_idle w \<noteq> {} \<longrightarrow> choice w \<in> pw_idle w"
  shows "(pool_step n)\<^sup>*\<^sup>* w w' \<and> pw_main w' = pw_main w"
proof (cases socket)
  case (Some s)
  then obtain p where w': "w' = snd (StartWithThread (choice w) p w)"
    using assms(1) by (auto simp: ProcessFd_def split: bind_splits)
  show ?thesis
  proof (cases "pw_idle w = {}")
    case False
    then show ?thesis
      using assms(2) pool_start_thread [of "choice w" w n p] by (auto simp: w' StartWithThread_def)
  qed (simp add: w' StartWithThread_def)
qed (use assms(1) in \<open>simp add: ProcessFd_def\<close>)

lemma serve_pool_steps:
  assumes "serve_pool socket create choice es (accs, w) = Some (accs', w')" and "pw_main w"
    and "\<forall>w. pw_idle w \<noteq> {} \<longrightarrow> choice w \<in> pw_idle w"
  shows "(pool_step n)\<^sup>*\<^sup>* w w'"
  using assms
proof (induction socket create choice es "(accs, w)" arbitrary: accs w rule: serve_pool.induct)
  case (3 socket create choice d fd es accs w)
  show ?case
  proof (cases "received_message d")
    case (MsgConnection ex)
    show ?thesis
    proof (cases "fd = -1")
      case True
      then show ?thesis
        using 3(2) [OF MsgConnection] 3(4-6) MsgConnection by simp
    next
      case False
      then obtain v where v: "ProcessFd (socket fd) create (choice w) ex w = Some v"
          "serve_pool socket create choice es (accs, v) = Some (accs', w')"
        using 3(4) MsgConnection by (auto split: bind_splits)
      then show ?thesis
        using 3(1) [OF MsgConnection False v] 3(5,6) ProcessFd_steps [OF v(1) 3(6), of n] by (metis rtranclp_trans)
    qed
  next
    case MsgClose
    then show ?thesis
      using 3(4,5) pool_closing [of w n] by auto
  next
    case MsgOther
    then show ?thesis
      using 3(3) [OF MsgOther] 3(4-6) by simp
  qed
next
  case (4 socket create choice k fd sent es accs w)
  obtain action a v where v: "pool_accept_Process fd sent (accs k) = Some (action, a)"
      "(case action of Some (HandleHere fd) \<Rightarrow> ProcessFd (socket fd) create (choice w) (pa_ex a) w | _ \<Rightarrow> Some w) = Some v"
      "serve_pool socket create choice es (accs(k := a), v) = Some (accs', w')"
    using 4(2) by (auto split: bind_splits)
  have "(pool_step n)\<^sup>*\<^sup>* w v \<and> pw_main v = pw_main w"
    using v(2) ProcessFd_steps [OF _ 4(4)] by (auto split: option.splits accept_action.splits)
  then show ?case
    using 4(1) [OF v(1) refl v(2) v(3)] 4(3,4) by (metis rtranclp_trans)
qed auto

section \<open>Every process is run once\<close>

text \<open>The processes that wait in their handles.\<close>

definition waiting :: "nat \<Rightarrow> pool_worker \<Rightarrow> nat list" where
  "waiting threads w = List.map_filter (pw_process w) [0..<threads]"

lemma map_filter_other: "h \<notin> set xs \<Longrightarrow> List.map_filter (f(h := v)) xs = List.map_filter f xs"
  by (induction xs) (auto simp: List.map_filter_simps split: option.splits)

lemma map_filter_put:
  "f h = None \<Longrightarrow> distinct xs \<Longrightarrow> h \<in> set xs \<Longrightarrow>
     mset (List.map_filter (f(h \<mapsto> p)) xs) = add_mset p (mset (List.map_filter f xs))"
proof (induction xs)
  case (Cons x xs)
  show ?case
  proof (cases "x = h")
    case True
    then show ?thesis
      using Cons.prems map_filter_other [of h xs f "Some p", unfolded fun_upd_def]
      by (simp add: List.map_filter_simps fun_upd_def)
  next
    case False
    then show ?thesis
      using Cons by (auto simp: List.map_filter_simps split: option.splits)
  qed
qed simp

lemma map_filter_take:
  "f h = Some p \<Longrightarrow> distinct xs \<Longrightarrow> h \<in> set xs \<Longrightarrow>
     mset (List.map_filter f xs) = add_mset p (mset (List.map_filter (f(h := None)) xs))"
  using map_filter_put [of "f(h := None)" h xs p] by (simp add: fun_upd_idem)

text \<open>While the worker is not closing, a handle is in one of four situations.\<close>

definition handle_ok :: "pool_worker \<Rightarrow> nat \<Rightarrow> bool" where
  "handle_ok w h \<longleftrightarrow>
     (case pw_process w h of
        Some p \<Rightarrow> h \<in> pw_use w \<and> h \<notin> pw_idle w \<and>
          (pw_at w h \<in> {AtTest, AtWait} \<and> pw_signal w h = Suc 0 \<or> pw_at w h = AtWoken \<and> pw_signal w h = 0)
      | None \<Rightarrow> pw_signal w h = 0 \<and>
          (h \<in> pw_idle w \<and> h \<notin> pw_use w \<and> pw_at w h \<in> {AtTest, AtWait} \<or>
           h \<in> pw_use w \<and> h \<notin> pw_idle w \<and> pw_at w h = AtPark))"

definition pool_ok :: "nat \<Rightarrow> pool_worker \<Rightarrow> bool" where
  "pool_ok threads w \<longleftrightarrow> pw_idle w \<union> pw_use w \<subseteq> {0..<threads} \<and> (\<forall>h<threads. handle_ok w h) \<and>
     mset (pw_started w) = mset (pw_ran w) + mset (waiting threads w)"

lemma pool_start_ok: "pool_ok n (pool_start n)"
proof -
  have "List.map_filter (\<lambda>_. None) xs = []" for xs :: "nat list"
    by (induction xs) (simp_all add: List.map_filter_simps)
  then show ?thesis
    by (auto simp: pool_ok_def handle_ok_def pool_start_def waiting_def)
qed

lemma handle_ok_other:
  assumes "handle_ok w h" and "pw_process w' h = pw_process w h" and "pw_signal w' h = pw_signal w h" and "pw_at w' h = pw_at w h"
    and "h \<in> pw_use w' \<longleftrightarrow> h \<in> pw_use w" and "h \<in> pw_idle w' \<longleftrightarrow> h \<in> pw_idle w"
  shows "handle_ok w' h"
  using assms by (cases "pw_process w h") (simp_all add: handle_ok_def)

lemma StartWithThread_ok:
  assumes W: "pool_ok n w" and c: "choice \<in> pw_idle w"
  shows "pool_ok n (snd (StartWithThread choice p w))"
proof -
  let ?w = "snd (StartWithThread choice p w)"
  have cn: "choice < n"
    using W c by (auto simp: pool_ok_def)
  then have ok: "handle_ok w choice"
    using W by (simp add: pool_ok_def)
  then have none: "pw_process w choice = None" "pw_signal w choice = 0" "pw_at w choice \<in> {AtTest, AtWait}"
    using c by (auto simp: handle_ok_def split: option.splits)
  have "handle_ok ?w h" if "h < n" for h
  proof (cases "h = choice")
    case True
    then show ?thesis
      using none c by (auto simp: handle_ok_def StartWithThread_def)
  next
    case False
    have "handle_ok w h"
      using W that by (simp add: pool_ok_def)
    then show ?thesis
      using False by (rule_tac handle_ok_other [of w]) (simp_all add: StartWithThread_def)
  qed
  moreover have "mset (waiting n ?w) = add_mset p (mset (waiting n w))"
    using c cn none(1) map_filter_put [of "pw_process w" choice "[0..<n]" p] by (auto simp: waiting_def StartWithThread_def)
  ultimately show ?thesis
    using W c by (auto simp: pool_ok_def StartWithThread_def)
qed

lemma DoRun_step_frame:
  assumes "DoRun_step h w = Some w'" and "k \<noteq> h"
  shows "pw_process w' k = pw_process w k \<and> pw_signal w' k = pw_signal w k \<and> pw_at w' k = pw_at w k \<and>
     (k \<in> pw_use w' \<longleftrightarrow> k \<in> pw_use w) \<and> (k \<in> pw_idle w' \<longleftrightarrow> k \<in> pw_idle w)"
  using assms by (auto simp: DoRun_step_def split: thread_at.splits if_splits option.splits)

lemma DoRun_step_ok:
  assumes W: "pool_ok n w" and h: "h < n" and close: "\<not> pw_close w'" and S: "DoRun_step h w = Some w'"
  shows "pool_ok n w'"
proof -
  have ok: "handle_ok w h"
    using W h by (simp add: pool_ok_def)
  have other: "handle_ok w' k" if "k < n" "k \<noteq> h" for k
    using W that DoRun_step_frame [OF S that(2)] handle_ok_other [of w k w'] by (simp add: pool_ok_def)
  have self: "handle_ok w' h"
    using ok S close by (auto simp: handle_ok_def DoRun_step_def split: thread_at.splits if_splits option.splits)
  have "mset (pw_started w') = mset (pw_ran w') + mset (waiting n w')"
  proof (cases "pw_at w h = AtWoken \<and> pw_process w h \<noteq> None")
    case True
    then obtain p where p: "pw_process w h = Some p"
      by auto
    then show ?thesis
      using True W S h map_filter_take [of "pw_process w" h p "[0..<n]"]
      by (auto simp: pool_ok_def DoRun_step_def waiting_def)
  next
    case False
    then show ?thesis
      using W S by (auto simp: pool_ok_def DoRun_step_def waiting_def split: thread_at.splits if_splits option.splits)
  qed
  moreover have "pw_idle w' \<union> pw_use w' \<subseteq> {0..<n}"
    using W S h by (auto simp: pool_ok_def DoRun_step_def split: thread_at.splits if_splits option.splits)
  moreover have "\<forall>k<n. handle_ok w' k"
    using other self by blast
  ultimately show ?thesis
    unfolding pool_ok_def by blast
qed

lemma pool_step_ok: "pool_step n w w' \<Longrightarrow> \<not> pw_close w' \<Longrightarrow> pool_ok n w \<Longrightarrow> pool_ok n w'"
  by (erule pool_stepE)
    (auto simp: StartWithThread_ok DoRun_step_ok pool_shared_close_def pool_Close_def pool_leave_def)

lemma pool_step_close: "pool_step n w w' \<Longrightarrow> pw_close w \<Longrightarrow> pw_close w'"
  by (erule pool_stepE)
    (auto simp: StartWithThread_def DoRun_step_def pool_shared_close_def pool_Close_def pool_leave_def
      split: thread_at.splits if_splits option.splits)

fun thread_steps :: "nat \<Rightarrow> nat \<Rightarrow> pool_worker \<Rightarrow> pool_worker option" where
  "thread_steps 0 h w = Some w"
| "thread_steps (Suc k) h w = Option.bind (DoRun_step h w) (thread_steps k h)"

lemma waiting_runs:
  assumes "handle_ok w h" and "pw_process w h = Some p" and "\<not> pw_close w"
  shows "\<exists>k\<le>3. \<exists>w'. thread_steps k h w = Some w' \<and> pw_ran w' = pw_ran w @ [p]"
proof -
  have woken: "\<exists>w'. thread_steps 1 h v = Some w' \<and> pw_ran w' = pw_ran v @ [p]"
    if "pw_at v h = AtWoken" "pw_process v h = Some p" for v
    using that by (simp add: DoRun_step_def)
  have wait: "\<exists>w'. thread_steps 2 h v = Some w' \<and> pw_ran w' = pw_ran v @ [p]"
    if "pw_at v h = AtWait" "pw_signal v h = Suc 0" "pw_process v h = Some p" for v
    using that by (simp add: DoRun_step_def numeral_2_eq_2)
  have test: "\<exists>w'. thread_steps 3 h w = Some w' \<and> pw_ran w' = pw_ran w @ [p]"
    if "pw_at w h = AtTest" "pw_signal w h = Suc 0"
    using that assms(2,3) by (simp add: DoRun_step_def numeral_3_eq_3)
  have "pw_at w h \<in> {AtTest, AtWait} \<and> pw_signal w h = Suc 0 \<or> pw_at w h = AtWoken"
    using assms(1,2) by (auto simp: handle_ok_def)
  then show ?thesis
    using woken [of w] wait [of w] test assms(2)
    by (auto intro: exI [of _ "1 :: nat"] exI [of _ "2 :: nat"] exI [of _ "3 :: nat"])
qed

lemma pool_steps_ok: "(pool_step n)\<^sup>*\<^sup>* w w' \<Longrightarrow> \<not> pw_close w' \<Longrightarrow> pool_ok n w \<Longrightarrow> pool_ok n w'"
  by (induction rule: rtranclp_induct) (use pool_step_ok pool_step_close in blast)+

text \<open>
  What the threads of either kind of worker keep until the close: \<open>good\<close> is an invariant of \<open>step\<close> that makes every handle account
  for its process.
\<close>

locale pool_threads =
  fixes n :: nat and step :: "pool_worker \<Rightarrow> pool_worker \<Rightarrow> bool" and start :: pool_worker and good :: "pool_worker \<Rightarrow> bool"
  assumes start_good: "good start"
    and step_good: "step w w' \<Longrightarrow> \<not> pw_close w' \<Longrightarrow> good w \<Longrightarrow> good w'"
    and step_close: "step w w' \<Longrightarrow> pw_close w \<Longrightarrow> pw_close w'"
    and good_ok: "good w \<Longrightarrow> pool_ok n w"
begin

lemma reach_good: "step\<^sup>*\<^sup>* start w \<Longrightarrow> \<not> pw_close w \<Longrightarrow> good w"
  by (induction rule: rtranclp_induct) (use start_good step_good step_close in blast)+

lemma reach_handle: "step\<^sup>*\<^sup>* start w \<Longrightarrow> \<not> pw_close w \<Longrightarrow> h < n \<Longrightarrow> handle_ok w h"
  using good_ok [OF reach_good] by (simp add: pool_ok_def)

lemma accounts:
  assumes "step\<^sup>*\<^sup>* start w" and "\<not> pw_close w"
  shows "mset (pw_started w) = mset (pw_ran w) + mset (waiting n w) \<and>
     pw_idle w \<union> pw_use w = {0..<n} \<and> pw_idle w \<inter> pw_use w = {}"
proof -
  have W: "pool_ok n w"
    by (rule good_ok [OF reach_good [OF assms]])
  have "h \<in> pw_idle w \<longleftrightarrow> h \<notin> pw_use w" if "h < n" for h
    using reach_handle [OF assms that] by (auto simp: handle_ok_def split: option.splits)
  then show ?thesis
    using W by (auto simp: pool_ok_def subset_iff)
qed

end

interpretation sys: pool_threads n "pool_step n" "pool_start n" "pool_ok n"
  by unfold_locales (use pool_start_ok pool_step_ok pool_step_close in blast)+

text \<open>
  C11: Until it is told to close, a pool worker runs every process it has taken exactly once. In every reachable state
  of its threads, whatever their interleaving, the processes taken are those run and those waiting in a
  handle; the handles are divided into idle ones and used ones; and the thread of a handle in which a process
  waits is never blocked: within three of its steps the process has been run.
\<close>
theorem pool_exactly_once:
  assumes "(pool_step n)\<^sup>*\<^sup>* (pool_start n) w" and "\<not> pw_close w"
  shows "mset (pw_started w) = mset (pw_ran w) + mset (waiting n w) \<and>
     pw_idle w \<union> pw_use w = {0..<n} \<and> pw_idle w \<inter> pw_use w = {} \<and>
     (\<forall>h<n. \<forall>p. pw_process w h = Some p \<longrightarrow>
        (\<exists>k\<le>3. \<exists>w'. thread_steps k h w = Some w' \<and> pw_ran w' = pw_ran w @ [p]))"
  using sys.accounts [OF assms] waiting_runs [OF sys.reach_handle [OF assms] _ assms(2)] by blast

lemma pool_exactly_once_witness:
  "\<exists>w. (pool_step 2)\<^sup>*\<^sup>* (pool_start 2) w \<and> pw_started w = [7, 8] \<and>
     mset (pw_started w) = mset (pw_ran w) + mset (waiting 2 w) \<and> pw_idle w \<union> pw_use w = {0..<2}"
proof -
  let ?w1 = "snd (StartWithThread 0 7 (pool_start 2))"
  let ?w2 = "snd (StartWithThread 1 8 ?w1)"
  have two: "{0..<2::nat} = {0, 1}"
    by auto
  have "0 \<in> pw_idle (pool_start 2)" "1 \<in> pw_idle ?w1"
    by (simp_all add: pool_start_def StartWithThread_def two)
  then have R: "(pool_step 2)\<^sup>*\<^sup>* (pool_start 2) ?w2"
    by (meson pool_start_thread r_into_rtranclp rtranclp.rtrancl_into_rtrancl)
  moreover have c: "\<not> pw_close ?w2" "pw_started ?w2 = [7, 8]"
    by (simp_all add: pool_start_def StartWithThread_def two)
  ultimately show ?thesis
    using pool_exactly_once [OF R c(1)] by blast
qed

section \<open>Closing can hang\<close>

text \<open>The state in which the threads of all handles have come to wait.\<close>

definition all_wait :: "nat \<Rightarrow> pool_worker" where
  "all_wait n = (pool_start n)\<lparr>pw_at := (\<lambda>h. if h < n then AtWait else AtTest)\<rparr>"

lemma all_wait_reached: "(pool_step n)\<^sup>*\<^sup>* (pool_start n) (all_wait n)"
proof -
  have "(pool_step n)\<^sup>*\<^sup>* (pool_start n) ((pool_start n)\<lparr>pw_at := (\<lambda>h. if h < k then AtWait else AtTest)\<rparr>)" if "k \<le> n" for k
    using that
  proof (induction k)
    case 0
    then show ?case
      by (simp add: pool_start_def)
  next
    case (Suc k)
    let ?w = "\<lambda>k. (pool_start n)\<lparr>pw_at := (\<lambda>h. if h < k then AtWait else AtTest)\<rparr>"
    have "DoRun_step k (?w k) = Some (?w (Suc k))"
      by (auto simp: DoRun_step_def pool_start_def less_Suc_eq)
    then show ?case
      using Suc pool_thread [of k n "?w k" "?w (Suc k)"] by (auto intro: rtranclp.rtrancl_into_rtrancl)
  qed
  from this [of n] show ?thesis
    by (simp add: all_wait_def)
qed

text \<open>
  C40: The main loop of a pool worker leaves when it finds \<open>is_close_\<close> set by the master, without having received the
  message \<open>C\<close> that would wake its threads. Then with any number of threads there is a reachable state in which
  the main thread has left its loop to join them and each of them waits for its semaphore: no thread has ended and none
  can take a step.
\<close>
theorem close_race_hangs:
  "\<exists>w. (pool_step n)\<^sup>*\<^sup>* (pool_start n) w \<and> \<not> pw_main w \<and> (\<forall>h<n. pw_at w h \<noteq> AtEnd \<and> DoRun_step h w = None)"
proof -
  let ?v = "pool_leave (pool_shared_close (all_wait n))"
  have "pool_step n (all_wait n) (pool_shared_close (all_wait n))"
    by (rule pool_master)
  moreover have "pool_step n (pool_shared_close (all_wait n)) ?v"
    by (rule pool_leaving) (simp_all add: pool_shared_close_def pool_start_def all_wait_def)
  ultimately have "(pool_step n)\<^sup>*\<^sup>* (pool_start n) ?v"
    using all_wait_reached by (meson rtranclp.rtrancl_into_rtrancl)
  then show ?thesis
    by (intro exI [of _ ?v]) (auto simp: all_wait_def pool_leave_def pool_shared_close_def DoRun_step_def pool_start_def)
qed

lemma close_race_hangs_witness:
  "\<exists>w. (pool_step 2)\<^sup>*\<^sup>* (pool_start 2) w \<and> \<not> pw_main w \<and> DoRun_step 0 w = None \<and> DoRun_step 1 w = None \<and> pw_at w 1 \<noteq> AtEnd"
proof -
  have "(0 :: nat) < 2" "(1 :: nat) < 2"
    by simp_all
  then show ?thesis
    using close_race_hangs [of 2] by blast
qed

section \<open>The close message ends every thread\<close>

definition closing_ok :: "nat \<Rightarrow> pool_worker \<Rightarrow> bool" where
  "closing_ok n w \<longleftrightarrow> pw_close w \<and> (\<forall>h<n. pw_at w h = AtWait \<longrightarrow> 0 < pw_signal w h)"

text \<open>
  The master sets \<open>is_close_\<close> before it sends the message, so the message may be handled in a state with the flag set, where the
  situations above are not the only ones. But in every reachable state a handle that is not idle and whose thread may come to wait has its
  signal.
\<close>

definition signalled :: "nat \<Rightarrow> pool_worker \<Rightarrow> bool" where
  "signalled n w \<longleftrightarrow> (\<forall>h<n. h \<notin> pw_idle w \<and> pw_at w h \<in> {AtTest, AtWait} \<longrightarrow> 0 < pw_signal w h)"

lemma signalled_step: "pool_step n w w' \<Longrightarrow> signalled n w \<Longrightarrow> signalled n w'"
  by (erule pool_stepE)
    (auto simp: signalled_def StartWithThread_def DoRun_step_def pool_shared_close_def pool_Close_def pool_leave_def
      split: thread_at.splits if_splits option.splits)

lemma signalled_reach: "(pool_step n)\<^sup>*\<^sup>* (pool_start n) w \<Longrightarrow> signalled n w"
  by (induction rule: rtranclp_induct) (use signalled_step in \<open>auto simp: signalled_def pool_start_def\<close>)

lemma signalled_Close: "signalled n w \<Longrightarrow> closing_ok n (pool_Close w)"
  by (auto simp: signalled_def closing_ok_def pool_Close_def)

lemma closing_step: "pool_step n w w' \<Longrightarrow> closing_ok n w \<Longrightarrow> closing_ok n w'"
  by (erule pool_stepE)
    (auto simp: closing_ok_def StartWithThread_def DoRun_step_def pool_shared_close_def pool_Close_def pool_leave_def
      split: thread_at.splits if_splits option.splits)

lemma closing_thread_ends:
  assumes "closing_ok n w" and "h < n"
  shows "\<exists>k\<le>4. \<exists>w'. thread_steps k h w = Some w' \<and> pw_at w' h = AtEnd"
proof -
  have test: "\<exists>w'. thread_steps 1 h v = Some w' \<and> pw_at w' h = AtEnd" if "pw_at v h = AtTest" "pw_close v" for v
    using that by (simp add: DoRun_step_def)
  have park: "\<exists>w'. thread_steps 2 h v = Some w' \<and> pw_at w' h = AtEnd" if "pw_at v h = AtPark" "pw_close v" for v
    using that by (simp add: DoRun_step_def numeral_2_eq_2)
  have woken: "\<exists>w'. thread_steps 3 h v = Some w' \<and> pw_at w' h = AtEnd" if "pw_at v h = AtWoken" "pw_close v" for v
    using that by (cases "pw_process v h") (simp_all add: DoRun_step_def numeral_3_eq_3)
  have wait: "\<exists>w'. thread_steps 4 h v = Some w' \<and> pw_at w' h = AtEnd" if "pw_at v h = AtWait" "pw_close v" "0 < pw_signal v h" for v
  proof -
    let ?v = "v\<lparr>pw_signal := (pw_signal v)(h := pw_signal v h - 1), pw_at := (pw_at v)(h := AtWoken)\<rparr>"
    have "thread_steps 4 h v = thread_steps 3 h ?v"
      using that by (simp add: DoRun_step_def eval_nat_numeral)
    then show ?thesis
      using woken [of ?v] that(2) by simp
  qed
  have within: "\<exists>k\<le>4. \<exists>w'. thread_steps k h w = Some w' \<and> pw_at w' h = AtEnd"
    if "\<exists>w'. thread_steps j h w = Some w' \<and> pw_at w' h = AtEnd" "j \<le> 4" for j
    using that by blast
  have close: "pw_close w" "pw_at w h = AtWait \<Longrightarrow> 0 < pw_signal w h"
    using assms by (auto simp: closing_ok_def)
  show ?thesis
  proof (cases "pw_at w h")
    case AtTest
    then show ?thesis by (rule within [OF test [OF _ close(1)]]) simp
  next
    case AtWait
    then show ?thesis using close(2) by (intro within [OF wait [OF _ close(1)]]) simp_all
  next
    case AtWoken
    then show ?thesis by (rule within [OF woken [OF _ close(1)]]) simp
  next
    case AtPark
    then show ?thesis by (rule within [OF park [OF _ close(1)]]) simp
  next
    case AtEnd
    then show ?thesis by (intro within [of 0]) simp_all
  qed
qed

text \<open>
  C12: The close message ends every thread of a pool worker. After the main loop has handled it, in any reachable state,
  whether the shared flag \<open>is_close_\<close> was already set, as it is when \<open>Stop\<close> of the master sends the message, or not, then in every
  state that can follow, whatever is started and in whatever order the threads run, no thread is blocked:
  each has ended or ends within four of its own steps.
\<close>
theorem close_message_ends:
  assumes "(pool_step n)\<^sup>*\<^sup>* (pool_start n) w" and "pw_main w" and "(pool_step n)\<^sup>*\<^sup>* (pool_Close w) v" and "h < n"
  shows "\<exists>k\<le>4. \<exists>v'. thread_steps k h v = Some v' \<and> pw_at v' h = AtEnd"
proof -
  have "closing_ok n v"
    using assms(3)
  proof (induction rule: rtranclp_induct)
    case base
    show ?case
      by (rule signalled_Close [OF signalled_reach [OF assms(1)]])
  next
    case (step u v)
    then show ?case
      using closing_step by blast
  qed
  then show ?thesis
    using assms(4) by (rule closing_thread_ends)
qed

lemma close_message_ends_witness:
  "\<exists>k\<le>4. \<exists>v'. thread_steps k 1 (pool_Close (pool_shared_close (all_wait 2))) = Some v' \<and> pw_at v' 1 = AtEnd"
proof -
  have "pw_main (pool_shared_close (all_wait 2))"
    by (simp add: pool_shared_close_def all_wait_def pool_start_def)
  moreover have "(pool_step 2)\<^sup>*\<^sup>* (pool_start 2) (pool_shared_close (all_wait 2))"
    using all_wait_reached pool_master by (rule rtranclp.rtrancl_into_rtrancl)
  ultimately show ?thesis
    using close_message_ends [OF _ _ rtranclp.rtrancl_refl, of 2 "pool_shared_close (all_wait 2)" 1] by simp
qed

section \<open>The data of a connection survives the transfer\<close>

lemma ex_data_tcp:
  assumes "port < 65536"
  shows "received_message (SendFd_data (tcp_ex_data port)) = MsgConnection (SendFd_data (tcp_ex_data port)) \<and>
     ex_data_origin (SendFd_data (tcp_ex_data port)) = Some (FromPort port)"
proof -
  have "port div 256 mod 256 = port div 256"
    using assms by simp
  then show ?thesis
    by (simp add: received_message_def SendFd_data_def tcp_ex_data_def ex_data_origin_def ACCEPT_EX_DATA_LENGTH_def)
qed

lemma unix_ex_data_origin:
  "ex_data_origin (SendFd_data (unix_ex_data path)) = map_option FromPath (c_str_at (c_strncpy path 298) 0)"
proof -
  have "SendFd_data (unix_ex_data path) = CHR ''A'' # CHR 0x01 # c_strncpy path 298"
    by (simp add: SendFd_data_def unix_ex_data_def ACCEPT_EX_DATA_LENGTH_def)
  moreover have "length (c_strncpy path 298) = 298"
    by (simp add: c_strncpy_def Let_def)
  ultimately show ?thesis
    by (simp add: ex_data_origin_def c_str_at_def numeral_2_eq_2)
qed

lemma c_strncpy_fits:
  assumes "NUL \<notin> set s" and "length s < n"
  shows "c_str_at (c_strncpy s n) 0 = Some s"
proof -
  have all: "c \<noteq> NUL" if "c \<in> set s" for c
    using assms(1) that by blast
  then have t: "takeWhile (\<lambda>c. c \<noteq> NUL) s = s"
    by (simp add: takeWhile_eq_all_conv)
  obtain k where "n - length s = Suc k"
    using assms(2) by (metis Suc_diff_Suc)
  then have "c_strncpy s n = s @ NUL # replicate k NUL"
    using assms(2) by (simp add: c_strncpy_def t)
  then show ?thesis
    using all by (simp add: c_str_at_def takeWhile_append)
qed

lemma c_strncpy_full:
  assumes "NUL \<notin> set s" and "n \<le> length s"
  shows "c_str_at (c_strncpy s n) 0 = None"
proof -
  have t: "takeWhile (\<lambda>c. c \<noteq> NUL) s = s"
    using assms(1) by (simp add: takeWhile_eq_all_conv) blast
  have "c_strncpy s n = take n s"
    unfolding c_strncpy_def t using assms(2) by simp
  then show ?thesis
    using assms(1) by (simp add: c_str_at_def) (meson in_set_takeD)
qed

lemma ex_data_unix:
  "NUL \<notin> set path \<Longrightarrow> length path < 298 \<Longrightarrow> ex_data_origin (SendFd_data (unix_ex_data path)) = Some (FromPath path)"
  by (simp add: unix_ex_data_origin c_strncpy_fits)

lemma ex_data_unix_long:
  "NUL \<notin> set path \<Longrightarrow> 298 \<le> length path \<Longrightarrow> ex_data_origin (SendFd_data (unix_ex_data path)) = None"
  by (simp add: unix_ex_data_origin c_strncpy_full)

section \<open>Child processes of a worker\<close>

text \<open>
  \<open>StartWithProcess\<close> in the parent: the result of \<open>fork\<close>, \<open>-1\<close> for a failure included, goes into the table after the
  fork. The main loop collects ended children when it is idle and removes them from it. At the end of \<open>Run\<close> it waits
  until the table is empty; \<open>answers\<close> are the results of \<open>wait\<close>, and after them it fails for lack of children for
  ever. \<^term>\<open>None\<close> is a wait that does not end.
\<close>

definition StartWithProcess :: "bool \<Rightarrow> int \<Rightarrow> int set \<Rightarrow> int set" where
  "StartWithProcess need pid table = (if need then insert pid table else table)"

fun collect_children :: "int list \<Rightarrow> int set \<Rightarrow> int set" where
  "collect_children [] table = table"
| "collect_children (pid # pids) table = (if 0 < pid then collect_children pids (table - {pid}) else table)"

fun wait_children :: "int list \<Rightarrow> int set \<Rightarrow> int set option" where
  "wait_children [] table = (if table = {} then Some {} else if table - {-1} = {} then Some {} else None)"
| "wait_children (pid # pids) table = (if table = {} then Some {} else wait_children pids (table - {pid}))"

text \<open>It ends if and only if every child of the table is still there to be waited for.\<close>

lemma wait_children_iff:
  "wait_children answers table = (if table \<subseteq> set answers \<union> {-1} then Some {} else None)"
  by (induction answers table rule: wait_children.induct) auto

text \<open>
  A child that ends, and is collected, between the fork and the insertion stays in the table: the worker does not end.
\<close>

lemma collected_before_insert:
  assumes "0 < pid" and "pid \<notin> set answers"
  shows "wait_children answers (StartWithProcess True pid (collect_children [pid, 0] {})) = None"
  using assms by (simp add: StartWithProcess_def wait_children_iff)

lemma inserted_before_collect:
  assumes "0 < pid"
  shows "wait_children answers (collect_children [pid, 0] (StartWithProcess True pid {})) = Some {}"
  using assms by (simp add: StartWithProcess_def wait_children_iff)

section \<open>State threads\<close>

text \<open>
  \<open>stworker.cpp\<close> has a condition variable where \<open>sysworker.cpp\<close> has a semaphore: \<open>st_cond_signal\<close> wakes the thread if it waits
  and is forgotten if it does not. The threads are cooperative, so a woken thread has not run before the next
  switch.
\<close>

definition st_signal :: "nat \<Rightarrow> pool_worker \<Rightarrow> pool_worker" where
  "st_signal h w = (if pw_at w h = AtWait then w\<lparr>pw_signal := (pw_signal w)(h := 1)\<rparr> else w)"

definition StPool_StartWithThread :: "nat \<Rightarrow> nat \<Rightarrow> pool_worker \<Rightarrow> bool \<times> pool_worker" where
  "StPool_StartWithThread choice p w =
     (if pw_idle w = {} then (False, w)
      else (True, st_signal choice (w\<lparr>pw_process := (pw_process w)(choice := Some p), pw_idle := pw_idle w - {choice},
              pw_use := insert choice (pw_use w), pw_started := pw_started w @ [p]\<rparr>)))"

definition StPool_Close :: "pool_worker \<Rightarrow> pool_worker" where
  "StPool_Close w = w\<lparr>pw_close := True,
     pw_signal := (\<lambda>h. if h \<in> pw_idle w \<and> pw_at w h = AtWait then 1 else pw_signal w h)\<rparr>"

text \<open>
  \<open>Run\<close> creates the thread of \<open>MainDo\<close> before those of the handles, and all handles are idle when it gives up the processor.
  What \<open>MainDo\<close> starts at once goes to a handle whose thread does not wait yet: the signal is lost, the process is not
  run, and the close, which wakes idle handles only, does not help.
\<close>

lemma st_early_start_lost:
  assumes "h < n" and "w = snd (StPool_StartWithThread h p (pool_start n))"
  shows "\<exists>v. DoRun_step h w = Some v \<and> pw_process v h = Some p \<and> h \<notin> pw_idle v \<and> DoRun_step h v = None \<and>
     DoRun_step h (StPool_Close v) = None"
  using assms
  by (auto simp: StPool_StartWithThread_def st_signal_def pool_start_def DoRun_step_def StPool_Close_def)

end
