(* ===== verification/PoolServe.thy ===== *)
theory PoolServe
  imports PoolWorker
begin

text \<open>
  What the parts of a pool service promise together: the sockets that a process of the pool owns and the calls it makes on them
  (\<open>src/pooldrive/poolworkerex.cpp\<close>, \<open>poolprocess.cpp\<close>), one turn of the main loop of a worker with system threads
  (\<open>sysworker.cpp\<close>), and the way of a connection from the acceptor of one process to a thread of another.
\<close>

section \<open>The socket of a process\<close>

text \<open>\<open>pp_ex\<close> is whether \<open>ex_\<close> has been set; \<open>pp_fd\<close> is \<open>pool_fd_\<close>.\<close>

record pool_process =
  pp_fd :: "pool_socket option"
  pp_ex :: bool

definition PoolProcess_new :: pool_process where
  "PoolProcess_new = \<lparr>pp_fd = None, pp_ex = False\<rparr>"

definition CloseSocket :: "pool_socket \<Rightarrow> int set \<Rightarrow> int set" where
  "CloseSocket fd fds = PoolSocket_delete fd fds"

definition PoolProcess_dtor :: "pool_process \<Rightarrow> int set \<Rightarrow> (pool_process \<times> int set) option" where
  "PoolProcess_dtor p fds =
     (case pp_fd p of
        None \<Rightarrow> Some (p, fds)
      | Some fd \<Rightarrow> if pp_ex p then Some (p\<lparr>pp_fd := None\<rparr>, CloseSocket fd fds) else None)"

text \<open>\<open>is_close_\<close> is shared by all processes of the service.\<close>

definition IsClose :: "bool \<Rightarrow> pool_process \<Rightarrow> bool option" where
  "IsClose is_close p = (if pp_ex p then Some is_close else None)"

text \<open>A process that ends closes what \<open>CreateSocket\<close> has opened for its connection and the connection itself, and nothing else.\<close>

lemma process_releases_socket:
  assumes "CreateSocket c mode s fds = (Some sock, fds1)" and "s \<noteq> -1" and "sk_epoll c \<notin> fds"
  shows "PoolProcess_dtor \<lparr>pp_fd = Some sock, pp_ex = True\<rparr> fds1 = Some (\<lparr>pp_fd = None, pp_ex = True\<rparr>, fds - {s})"
  using assms
  by (cases mode)
    (auto simp: CreateSocket_def PoolProcess_dtor_def CloseSocket_def PoolSocket_delete_def PoolSocket_new_def Let_def split: if_splits)

section \<open>Calls on a socket\<close>

text \<open>
  The members that \<open>CreateSocket\<close> points to the functions of one mode. A call of the thread library gives a number, or -1 with an
  \<open>errno\<close>, like the others.
\<close>

definition read_result :: "sysread \<Rightarrow> byte list pool_result" where
  "read_result r = (case sr_data r of Some bs \<Rightarrow> PoolDone bs | None \<Rightarrow> PoolFail (Some (sr_errno r)))"

definition write_result :: "syswrite \<Rightarrow> int pool_result" where
  "write_result w = (if sw_sent w < 0 then PoolFail (Some (sw_errno w)) else PoolDone (sw_sent w))"

definition pool_RecvMsg ::
    "pool_socket \<Rightarrow> (nat \<Rightarrow> nat \<Rightarrow> sysread) \<Rightarrow> sysread \<Rightarrow> sysread round list \<Rightarrow> nat \<Rightarrow> nat \<Rightarrow> byte list pool_result option" where
  "pool_RecvMsg fd st_read first rounds len timeout =
     (case ps_mode fd of
        POOLWORKERMODE_SYS \<Rightarrow> PoolSysRecvMsg first timeout rounds
      | POOLWORKERMODE_ST \<Rightarrow> Some (read_result (PoolStRecvMsg st_read len timeout)))"

definition pool_SendMsg ::
    "pool_socket \<Rightarrow> (byte list \<Rightarrow> nat \<Rightarrow> syswrite) \<Rightarrow> (byte list \<Rightarrow> syswrite) \<Rightarrow> (byte list \<Rightarrow> syswrite) round list \<Rightarrow>
      byte list \<Rightarrow> nat \<Rightarrow> int pool_result option" where
  "pool_SendMsg fd st_write first rounds buf timeout =
     (case ps_mode fd of
        POOLWORKERMODE_SYS \<Rightarrow>
          map_option (\<lambda>((_, r), _). case r of PoolDone n \<Rightarrow> PoolDone (int n) | PoolFail e \<Rightarrow> PoolFail e)
            (PoolSysSendMsg buf first timeout rounds)
      | POOLWORKERMODE_ST \<Rightarrow> Some (write_result (PoolStSendMsg st_write buf timeout)))"

definition pool_RecvFromMsg ::
    "pool_socket \<Rightarrow> (int \<Rightarrow> nat \<Rightarrow> sysread) \<Rightarrow> nat \<Rightarrow> sysread \<Rightarrow> sysread round list \<Rightarrow> nat \<Rightarrow> nat \<Rightarrow> byte list pool_result option" where
  "pool_RecvFromMsg fd st_recvfrom errno first rounds len timeout =
     (case ps_mode fd of
        POOLWORKERMODE_SYS \<Rightarrow> PoolSysRecvFromMsg errno first timeout rounds
      | POOLWORKERMODE_ST \<Rightarrow> Some (read_result (PoolStRecvFromMsg st_recvfrom len timeout)))"

definition pool_SendToMsg ::
    "pool_socket \<Rightarrow> (byte list \<Rightarrow> int \<Rightarrow> nat \<Rightarrow> syswrite) \<Rightarrow> (byte list \<Rightarrow> syswrite) \<Rightarrow> (byte list \<Rightarrow> syswrite) round list \<Rightarrow>
      byte list \<Rightarrow> nat \<Rightarrow> int pool_result option" where
  "pool_SendToMsg fd st_sendto first rounds buf timeout =
     (case ps_mode fd of
        POOLWORKERMODE_SYS \<Rightarrow> map_option fst (PoolSysSendToMsg buf first timeout rounds)
      | POOLWORKERMODE_ST \<Rightarrow> Some (write_result (PoolStSendToMsg st_sendto buf timeout)))"

text \<open>
  In both modes a kernel that takes all bytes at once makes \<open>SendMsg\<close> return their number.
\<close>

lemma pool_SendMsg_at_once:
  assumes "\<And>bs. sw_sent (first bs) = int (length bs)" and "\<And>bs t. sw_sent (st_write bs t) = int (length bs)"
  shows "pool_SendMsg fd st_write first rounds buf timeout = Some (PoolDone (int (length buf)))"
  using assms
  by (simp add: pool_SendMsg_def PoolSysSendMsg_def send_step_def write_result_def PoolStSendMsg_def Let_def split: pool_mode.splits)

section \<open>The interest list of a socket\<close>

text \<open>
  The epoll instance of a socket of the system mode: for a descriptor in it whether \<open>EPOLLIN\<close> and whether \<open>EPOLLOUT\<close> is asked
  for. The descriptors are open.
\<close>

type_synonym pool_interest = "int \<rightharpoonup> bool \<times> bool"

definition PoolEnableReadData :: "int \<Rightarrow> pool_interest \<Rightarrow> bool \<times> pool_interest" where
  "PoolEnableReadData fd m = (if m fd = None then (True, m(fd \<mapsto> (True, False))) else (False, m))"

definition PoolDisableReadData :: "int \<Rightarrow> pool_interest \<Rightarrow> bool \<times> pool_interest" where
  "PoolDisableReadData fd m = (if m fd = None then (False, m) else (True, m(fd := None)))"

definition PoolEnableWriteData :: "int \<Rightarrow> pool_interest \<Rightarrow> bool \<times> pool_interest" where
  "PoolEnableWriteData fd m = (if m fd = None then (False, m) else (True, m(fd \<mapsto> (False, True))))"

definition PoolDisableWriteData :: "int \<Rightarrow> pool_interest \<Rightarrow> bool \<times> pool_interest" where
  "PoolDisableWriteData fd m = (if m fd = None then (False, m) else (True, m(fd \<mapsto> (True, False))))"

fun epoll_calls :: "int \<Rightarrow> pool_epoll list \<Rightarrow> pool_interest \<Rightarrow> pool_interest" where
  "epoll_calls fd [] m = m"
| "epoll_calls fd (EpollOut # es) m = epoll_calls fd es (snd (PoolEnableWriteData fd m))"
| "epoll_calls fd (EpollIn # es) m = epoll_calls fd es (snd (PoolDisableWriteData fd m))"

text \<open>However a call of \<open>SendMsg\<close> ends, the socket waits for reading again.\<close>

lemma send_keeps_interest:
  assumes "PoolSysSendMsg buf first timeout rounds = Some (r, es)" and "m fd = Some (True, False)"
  shows "epoll_calls fd es m = m"
proof -
  have "es = [] \<or> es = [EpollOut, EpollIn]"
    using assms(1) by (auto simp: PoolSysSendMsg_def auto_epoll_write_def split: prod.splits io_step.splits)
  then show ?thesis
    using assms(2) by (auto simp: PoolEnableWriteData_def PoolDisableWriteData_def)
qed

section \<open>One turn of the main loop\<close>

text \<open>
  A turn tests \<open>is_close_\<close>, waits for events and serves them. A wait that is interrupted is begun anew, any other failure ends the
  process. In a turn without events the children that have ended are collected, if the application asks for it; \<open>ended\<close> are the results of
  \<open>waitpid\<close>. At most 32 events come at once.
\<close>

datatype epoll_answer = EpollReady "pool_event list" | EpollFailed nat

datatype 's turn_end = TurnGoes 's | TurnLeaves 's | TurnExits

definition sys_turn ::
    "bool \<Rightarrow> (int \<Rightarrow> pool_socket option) \<Rightarrow> (pool_origin \<Rightarrow> nat option) \<Rightarrow> (pool_worker \<Rightarrow> nat) \<Rightarrow> epoll_answer \<Rightarrow> int list \<Rightarrow>
      ((nat \<Rightarrow> pool_accept) \<times> pool_worker) \<times> int set \<Rightarrow>
      (((nat \<Rightarrow> pool_accept) \<times> pool_worker) \<times> int set) turn_end option" where
  "sys_turn need socket create choice answer ended st =
     (case st of ((accs, w), kids) \<Rightarrow>
        if pw_close w then Some (TurnLeaves ((accs, pool_leave w), kids))
        else (case answer of
            EpollFailed e \<Rightarrow> Some (if e = EINTR then TurnGoes st else TurnExits)
          | EpollReady es \<Rightarrow>
              let kids = (if es = [] \<and> need then collect_children ended kids else kids) in
              map_option (\<lambda>s. TurnGoes (s, kids)) (serve_pool socket create choice es (accs, w))))"

text \<open>The handle that the code takes is an idle one, when there is one.\<close>

definition picks_idle :: "(pool_worker \<Rightarrow> nat) \<Rightarrow> bool" where
  "picks_idle choice \<longleftrightarrow> (\<forall>w. pw_idle w \<noteq> {} \<longrightarrow> choice w \<in> pw_idle w)"

text \<open>A turn is made of the steps for which the theorems on the threads hold.\<close>

lemma sys_turn_steps:
  assumes "sys_turn need socket create choice answer ended ((accs, w), kids) = Some r" and "pw_main w" and "picks_idle choice"
    and "r = TurnGoes ((accs', w'), kids') \<or> r = TurnLeaves ((accs', w'), kids')"
  shows "(pool_step n)\<^sup>*\<^sup>* w w'"
proof (cases "pw_close w")
  case True
  then show ?thesis
    using assms pool_leaving [of w n] by (auto simp: sys_turn_def)
next
  case False
  show ?thesis
  proof (cases answer)
    case (EpollReady es)
    then have "serve_pool socket create choice es (accs, w) = Some (accs', w')"
      using assms(1,4) False by (auto simp: sys_turn_def Let_def)
    then show ?thesis
      using serve_pool_steps assms(2,3) by (auto simp: picks_idle_def)
  next
    case (EpollFailed e)
    then show ?thesis
      using assms(1,4) False by (auto simp: sys_turn_def split: if_splits)
  qed
qed

text \<open>After the close message the next turn is the last one.\<close>

lemma close_message_leaves:
  assumes "sys_turn need socket create choice (EpollReady (PoolMessage (Some (d, fd)) # es)) ended ((accs, w), kids) =
      Some (TurnGoes ((accs', w'), kids'))" and "received_message d = MsgClose"
  shows "sys_turn need socket create choice answer ended' ((accs', w'), kids') =
     Some (TurnLeaves ((accs', pool_leave w'), kids'))"
proof -
  have "w' = pool_Close w"
    using assms by (auto simp: sys_turn_def split: if_splits)
  then show ?thesis
    by (simp add: sys_turn_def pool_Close_def)
qed

section \<open>From the acceptor to a thread\<close>

text \<open>What a listener tells of its connections: the text is marked by the first \<open>SendFd\<close>.\<close>

definition origin_text :: "pool_origin \<Rightarrow> string" where
  "origin_text og = (case og of FromPort port \<Rightarrow> tcp_ex_data port | FromPath path \<Rightarrow> unix_ex_data path)"

definition origin_ok :: "pool_origin \<Rightarrow> bool" where
  "origin_ok og = (case og of FromPort port \<Rightarrow> port < 65536 | FromPath path \<Rightarrow> NUL \<notin> set path \<and> length path < 298)"

definition announces :: "pool_accept \<Rightarrow> pool_origin \<Rightarrow> bool" where
  "announces a og \<longleftrightarrow> pa_ex a = origin_text og \<or> pa_ex a = SendFd_data (origin_text og)"

lemma listener_announces:
  "PoolTCPListen c mode port me others fds = (Some a, fds') \<Longrightarrow> announces a (FromPort port)"
  "PoolUNIXListen c mode path me others fds = (Some a, fds') \<Longrightarrow> announces a (FromPath path)"
  by (auto simp: PoolTCPListen_def PoolUNIXListen_def announces_def origin_text_def split: prod.splits option.splits)

lemma origin_text_length: "length (origin_text og) = 300"
  by (simp add: origin_text_def tcp_ex_data_def unix_ex_data_def c_strncpy_def Let_def ACCEPT_EX_DATA_LENGTH_def split: pool_origin.splits)

lemma marked_twice: "SendFd_data (SendFd_data ex) = SendFd_data ex"
  by (simp add: SendFd_data_def)

lemma announced_origin:
  assumes "announces a og" and "origin_ok og"
  shows "ex_data_origin (pa_ex a) = Some og" and "SendFd_data (pa_ex a) = SendFd_data (origin_text og)"
    and "received_message (SendFd_data (pa_ex a)) = MsgConnection (SendFd_data (pa_ex a))"
proof -
  have mark: "ex_data_origin (SendFd_data ex) = ex_data_origin ex" if "length ex = 300" for ex
  proof -
    have "length ex \<noteq> 0"
      using that by simp
    then have "c_str_at (ex[0 := c]) 2 = c_str_at ex 2" for c
      by (cases ex) (simp_all add: c_str_at_def numeral_2_eq_2)
    then show ?thesis
      by (simp add: ex_data_origin_def SendFd_data_def)
  qed
  have "ex_data_origin (SendFd_data (origin_text og)) = Some og"
    using assms(2) ex_data_tcp ex_data_unix by (auto simp: origin_ok_def origin_text_def split: pool_origin.splits)
  then show "ex_data_origin (pa_ex a) = Some og"
    using assms(1) mark [OF origin_text_length [of og]] by (auto simp: announces_def)
  show "SendFd_data (pa_ex a) = SendFd_data (origin_text og)"
    using assms(1) by (auto simp: announces_def marked_twice)
  then show "received_message (SendFd_data (pa_ex a)) = MsgConnection (SendFd_data (pa_ex a))"
    using origin_text_length [of og] by (simp add: received_message_def SendFd_data_def)
qed

lemma started_process:
  assumes "create og = Some p" and "picks_idle choice" and "pw_idle w \<noteq> {}" and "ex_data_origin ex = Some og" and "socket \<noteq> None"
  shows "\<exists>w'. ProcessFd socket create (choice w) ex w = Some w' \<and> pw_started w' = pw_started w @ [p] \<and>
     pw_process w' (choice w) = Some p \<and> pw_close w' = pw_close w \<and> pw_main w' = pw_main w"
  using assms by (cases socket) (simp_all add: ProcessFd_def StartWithThread_def)

text \<open>
  C8: A connection accepted by a pool service is run. An acceptor that announces a port or a path gives a connection to the next of its
  workers, keeping its own turn for that of its process, and goes on announcing the same; in the turn in which the worker gets the
  message, or the acceptor's own worker the event, the process made for exactly this port or path is taken, and the thread
  of the handle it waits in runs it within three steps. This holds in every state the worker can reach that is not closing and has
  an idle thread.
\<close>
theorem pool_connection_served:
  assumes "announces a og" and "origin_ok og" and "pa_workers a \<noteq> []" and "0 \<le> fd" and "accs i = a"
    and "(pool_step n)\<^sup>*\<^sup>* (pool_start n) w" and "pw_main w" and "\<not> pw_close w" and "pw_idle w \<noteq> {}" and "picks_idle choice"
    and "\<forall>fd. socket fd \<noteq> None" and "create og = Some p" and "fd' \<noteq> -1"
  shows "\<exists>d ex a' event w' h. d = pa_workers a ! (pa_pos a mod length (pa_workers a)) \<and>
     pool_accept_Process fd True a = Some (Some (if d = pa_me a then HandleHere fd else SendTo d ex [fd]), a') \<and>
     announces a' og \<and> pa_workers a' = pa_workers a \<and> pa_pos a' = u32 (pa_pos a + 1) \<and>
     event = (if d = pa_me a then PoolAccepting i fd True else PoolMessage (Some (ex, fd'))) \<and>
     sys_turn need socket create choice (EpollReady [event]) ended ((accs, w), kids) =
       Some (TurnGoes ((if d = pa_me a then accs(i := a') else accs, w'), kids)) \<and>
     (pool_step n)\<^sup>*\<^sup>* (pool_start n) w' \<and> pw_started w' = pw_started w @ [p] \<and> h < n \<and> pw_process w' h = Some p \<and>
     (\<exists>k\<le>3. \<exists>w''. thread_steps k h w' = Some w'' \<and> pw_ran w'' = pw_ran w' @ [p])"
proof -
  let ?d = "pa_workers a ! (pa_pos a mod length (pa_workers a))" and ?ex = "SendFd_data (pa_ex a)"
  let ?a = "a\<lparr>pa_pos := u32 (pa_pos a + 1), pa_ex := if ?d = pa_me a then pa_ex a else ?ex\<rparr>"
  let ?event = "if ?d = pa_me a then PoolAccepting i fd True else PoolMessage (Some (?ex, fd'))"
  have acc: "pool_accept_Process fd True a = Some (Some (if ?d = pa_me a then HandleHere fd else SendTo ?d ?ex [fd]), ?a)"
    using assms(3,4) by (simp add: pool_accept_Process_def SendFd_def Let_def)
  have again: "announces ?a og"
    using assms(1) announced_origin(2) [OF assms(1,2)] by (simp add: announces_def)
  have sent: "ex_data_origin ?ex = Some og"
    using again announced_origin(1) [OF _ assms(2), of "a\<lparr>pa_ex := ?ex\<rparr>"] announced_origin(2) [OF assms(1,2)]
    by (simp add: announces_def)
  let ?got = "if ?d = pa_me a then pa_ex a else ?ex" and ?socket = "socket (if ?d = pa_me a then fd else fd')"
  have "ex_data_origin ?got = Some og" "?socket \<noteq> None"
    using sent announced_origin(1) [OF assms(1,2)] assms(11) by simp_all
  then obtain w' where w': "ProcessFd ?socket create (choice w) ?got w = Some w'"
    "pw_started w' = pw_started w @ [p]" "pw_process w' (choice w) = Some p" "pw_close w' = pw_close w" "pw_main w' = pw_main w"
    using started_process [of create og p choice w ?got ?socket] assms(9,10,12) by auto
  have turn: "sys_turn need socket create choice (EpollReady [?event]) ended ((accs, w), kids) =
      Some (TurnGoes ((if ?d = pa_me a then accs(i := ?a) else accs, w'), kids))"
    using acc announced_origin(3) [OF assms(1,2)] w'(1) assms(5,8,13)
    by (cases "?d = pa_me a") (simp_all add: sys_turn_def)
  have reach: "(pool_step n)\<^sup>*\<^sup>* (pool_start n) w'"
    using sys_turn_steps [OF turn assms(7,10) disjI1 [OF refl], of n] assms(6) by (rule rtranclp_trans [rotated])
  have "choice w \<in> pw_idle w" "pw_idle w \<union> pw_use w = {0..<n}"
    using assms(9,10) sys.accounts [OF assms(6,8)] by (auto simp: picks_idle_def)
  then have "choice w < n"
    by auto
  moreover have "handle_ok w' (choice w)"
    using sys.reach_handle [OF reach] w'(4) assms(8) \<open>choice w < n\<close> by simp
  then have "\<exists>k\<le>3. \<exists>w''. thread_steps k (choice w) w' = Some w'' \<and> pw_ran w'' = pw_ran w' @ [p]"
    using waiting_runs w'(3,4) assms(8) by blast
  ultimately show ?thesis
    using acc again turn reach w'(2,3)
    by (intro exI [of _ ?d] exI [of _ ?ex] exI [of _ ?a] exI [of _ ?event] exI [of _ w'] exI [of _ "choice w"]) simp
qed

lemma pool_connection_served_witness:
  "\<exists>a fds ex a' w'. PoolTCPListen \<lparr>ln_socket = 9, ln_options = True, ln_bind = True, ln_listen = True, ln_chmod = True, ln_options2 = True\<rparr>
       POOLWORKERMODE_SYS 8080 0 [1] {} = (Some a, fds) \<and>
     pool_accept_Process 5 True a = Some (Some (SendTo 1 ex [5]), a') \<and>
     sys_turn False (\<lambda>_. Some PoolSocket_new) (\<lambda>og. if og = FromPort 8080 then Some 7 else None)
         (\<lambda>w. LEAST h. h \<in> pw_idle w) (EpollReady [PoolMessage (Some (ex, 6))]) [] (((\<lambda>_. a), pool_start 2), {}) =
       Some (TurnGoes (((\<lambda>_. a), w'), {})) \<and> pw_started w' = [7]"
proof -
  let ?l = "\<lparr>ln_socket = 9, ln_options = True, ln_bind = True, ln_listen = True, ln_chmod = True, ln_options2 = True\<rparr>"
  let ?a = "\<lparr>pa_fd = 9, pa_me = 0, pa_workers = [1], pa_pos = 0, pa_ex = tcp_ex_data 8080\<rparr>"
  have listens: "PoolTCPListen ?l POOLWORKERMODE_SYS 8080 0 [1] {} = (Some ?a, {9})"
    by (simp add: PoolTCPListen_def PoolListen_def)
  have ok: "announces ?a (FromPort 8080)" "origin_ok (FromPort 8080)" "picks_idle (\<lambda>w. LEAST h. h \<in> pw_idle w)"
    using listener_announces(1) [OF listens] by (auto simp: origin_ok_def picks_idle_def intro: LeastI)
  have "\<exists>d ex a' event w' h. d = pa_workers ?a ! (pa_pos ?a mod length (pa_workers ?a)) \<and>
     pool_accept_Process 5 True ?a = Some (Some (if d = pa_me ?a then HandleHere 5 else SendTo d ex [5]), a') \<and>
     announces a' (FromPort 8080) \<and> pa_workers a' = pa_workers ?a \<and> pa_pos a' = u32 (pa_pos ?a + 1) \<and>
     event = (if d = pa_me ?a then PoolAccepting 0 5 True else PoolMessage (Some (ex, 6))) \<and>
     sys_turn False (\<lambda>_. Some PoolSocket_new) (\<lambda>og. if og = FromPort 8080 then Some 7 else None)
         (\<lambda>w. LEAST h. h \<in> pw_idle w) (EpollReady [event]) [] (((\<lambda>_. ?a), pool_start 2), {}) =
       Some (TurnGoes ((if d = pa_me ?a then (\<lambda>_. ?a)(0 := a') else (\<lambda>_. ?a), w'), {})) \<and>
     (pool_step 2)\<^sup>*\<^sup>* (pool_start 2) w' \<and> pw_started w' = pw_started (pool_start 2) @ [7] \<and> h < 2 \<and> pw_process w' h = Some 7 \<and>
     (\<exists>k\<le>3. \<exists>w''. thread_steps k h w' = Some w'' \<and> pw_ran w'' = pw_ran w' @ [7])"
    by (rule pool_connection_served [OF ok(1,2) _ _ _ _ _ _ _ ok(3)]) (simp_all add: pool_start_def)
  then show ?thesis
    using listens by (auto simp: pool_start_def)
qed

end
