(* ===== verification/Timers.thy ===== *)
theory Timers
  imports Containers
begin

text \<open>
  \<open>src/utils/timersmanager.cpp\<close>: time-out events kept in a linked list ordered by their last heartbeat
  (\<open>TimeoutManager\<close>), and periodic timers kept in a multimap ordered by their next time (\<open>TimersManager\<close>).

  The clock is an argument: \<open>clk k\<close> is the value of the \<open>k\<close>-th call of \<open>getCurrentGsdmMsec\<close>, and the
  state counts the calls. The virtual \<open>DoTimeout\<close> is an argument too, a function of the event and the
  manager that may change the manager. \<open>Free\<close> deletes the event, and \<open>tm_freed\<close> lists the deletions.
  The links of a time-out event are those of a \<open>BidirectionalList\<close>, and the proofs rest on that.
\<close>

section \<open>The time-out list\<close>

record tevent = bnode +
  te_heart :: nat
  te_managed :: bool

record tmgr =
  tm_heap :: "nat \<rightharpoonup> tevent"
  tm_head :: "nat option"
  tm_tail :: "nat option"
  tm_count :: nat
  tm_timeout :: nat
  tm_clock :: nat
  tm_freed :: "nat list"

definition te_new :: "nat \<Rightarrow> tevent" where
  "te_new now = \<lparr>dn_prev = None, dn_next = None, bn_is_add = False, te_heart = now, te_managed = False\<rparr>"

definition te_Check :: "tevent \<Rightarrow> nat \<Rightarrow> nat \<Rightarrow> bool" where
  "te_Check e now timeout \<longleftrightarrow> u64 (timeout + te_heart e) \<ge> now"

definition tm_new :: "nat \<Rightarrow> tmgr" where
  "tm_new timeout = \<lparr>tm_heap = Map.empty, tm_head = None, tm_tail = None, tm_count = 0, tm_timeout = timeout,
     tm_clock = 0, tm_freed = []\<rparr>"

definition tm_now :: "(nat \<Rightarrow> nat) \<Rightarrow> tmgr \<Rightarrow> nat \<times> tmgr" where
  "tm_now clk m = (clk (tm_clock m), m\<lparr>tm_clock := tm_clock m + 1\<rparr>)"

definition tm_Free :: "nat \<Rightarrow> tmgr \<Rightarrow> tmgr option" where
  "tm_Free d m =
     (if tm_heap m d = None then None
      else Some (m\<lparr>tm_heap := (tm_heap m)(d := None), tm_freed := tm_freed m @ [d]\<rparr>))"

definition tm_AddTimeoutEvent :: "nat \<Rightarrow> tmgr \<Rightarrow> tmgr option" where
  "tm_AddTimeoutEvent d m =
     do { n \<leftarrow> tm_heap m d;
          if bn_is_add n then Some m
          else do {
            let m = m\<lparr>tm_count := u32 (tm_count m + 1)\<rparr>;
            h1 \<leftarrow> heap_put d (\<lambda>n. n\<lparr>bn_is_add := True\<rparr>) (tm_heap m);
            h2 \<leftarrow> heap_put d (\<lambda>n. n\<lparr>te_managed := True\<rparr>) h1;
            case tm_head m of
              None \<Rightarrow> Some (m\<lparr>tm_heap := h2, tm_head := Some d, tm_tail := Some d\<rparr>)
            | Some _ \<Rightarrow> do {
                h3 \<leftarrow> heap_put d (\<lambda>n. n\<lparr>dn_prev := tm_tail m\<rparr>) h2;
                t \<leftarrow> tm_tail m;
                h4 \<leftarrow> heap_put t (\<lambda>n. n\<lparr>dn_next := Some d\<rparr>) h3;
                Some (m\<lparr>tm_heap := h4, tm_tail := Some d\<rparr>)}}}"

definition tm_RemoveTimeoutEvent :: "nat \<Rightarrow> tmgr \<Rightarrow> tmgr option" where
  "tm_RemoveTimeoutEvent d m =
     do { n \<leftarrow> tm_heap m d;
          if \<not> bn_is_add n then Some m
          else do {
            let m = m\<lparr>tm_count := sub32 (tm_count m) 1\<rparr>;
            h1 \<leftarrow> heap_put d (\<lambda>n. n\<lparr>bn_is_add := False\<rparr>) (tm_heap m);
            h2 \<leftarrow> heap_put d (\<lambda>n. n\<lparr>te_managed := False\<rparr>) h1;
            case (dn_prev n, dn_next n) of
              (Some p, Some q) \<Rightarrow> do {
                h3 \<leftarrow> heap_put p (\<lambda>n. n\<lparr>dn_next := Some q\<rparr>) h2;
                h4 \<leftarrow> heap_put q (\<lambda>n. n\<lparr>dn_prev := Some p\<rparr>) h3;
                h5 \<leftarrow> heap_put d (\<lambda>n. n\<lparr>dn_next := None, dn_prev := None\<rparr>) h4;
                Some (m\<lparr>tm_heap := h5\<rparr>)}
            | (None, None) \<Rightarrow> Some (m\<lparr>tm_heap := h2, tm_head := None, tm_tail := None\<rparr>)
            | (None, Some q) \<Rightarrow> do {
                h3 \<leftarrow> heap_put q (\<lambda>n. n\<lparr>dn_prev := None\<rparr>) h2;
                h4 \<leftarrow> heap_put d (\<lambda>n. n\<lparr>dn_next := None\<rparr>) h3;
                Some (m\<lparr>tm_heap := h4, tm_head := Some q\<rparr>)}
            | (Some p, None) \<Rightarrow> do {
                h3 \<leftarrow> heap_put p (\<lambda>n. n\<lparr>dn_next := None\<rparr>) h2;
                h4 \<leftarrow> heap_put d (\<lambda>n. n\<lparr>dn_prev := None\<rparr>) h3;
                Some (m\<lparr>tm_heap := h4, tm_tail := Some p\<rparr>)}}}"

definition tm_ReaddTimeoutEvent :: "nat \<Rightarrow> tmgr \<Rightarrow> tmgr option" where
  "tm_ReaddTimeoutEvent d m = do { m1 \<leftarrow> tm_RemoveTimeoutEvent d m; tm_AddTimeoutEvent d m1 }"

definition tm_UpdateTimeout :: "(nat \<Rightarrow> nat) \<Rightarrow> nat \<Rightarrow> tmgr \<Rightarrow> tmgr option" where
  "tm_UpdateTimeout clk d m =
     do { n \<leftarrow> tm_heap m d;
          if te_managed n then do {
            let (now, m1) = tm_now clk m;
            h \<leftarrow> heap_put d (\<lambda>n. n\<lparr>te_heart := now\<rparr>) (tm_heap m1);
            tm_ReaddTimeoutEvent d (m1\<lparr>tm_heap := h\<rparr>)}
          else Some m }"

definition tm_GetNextTimeoutEvent :: "nat option \<Rightarrow> tmgr \<Rightarrow> nat option option" where
  "tm_GetNextTimeoutEvent t m =
     (case t of Some d \<Rightarrow> map_option dn_next (tm_heap m d) | None \<Rightarrow> Some (tm_head m))"

text \<open>One expired event: unlinked from the front, then told, and freed or put back.\<close>

definition tm_expire :: "(nat \<Rightarrow> nat) \<Rightarrow> (nat \<Rightarrow> tmgr \<Rightarrow> bool \<times> tmgr) \<Rightarrow> nat \<Rightarrow> tmgr \<Rightarrow> tmgr option" where
  "tm_expire clk do_timeout d m =
     do { n \<leftarrow> tm_heap m d;
          h \<leftarrow> heap_put d (\<lambda>n. n\<lparr>bn_is_add := False, dn_prev := None, dn_next := None\<rparr>) (tm_heap m);
          let m1 = m\<lparr>tm_heap := h, tm_head := dn_next n, tm_count := sub32 (tm_count m) 1\<rparr>;
          let (free, m2) = do_timeout d m1;
          if free then tm_Free d m2 else tm_UpdateTimeout clk d m2 }"

partial_function (option) tm_elapse_loop ::
    "(nat \<Rightarrow> nat) \<Rightarrow> (nat \<Rightarrow> tmgr \<Rightarrow> bool \<times> tmgr) \<Rightarrow> nat \<Rightarrow> tmgr \<Rightarrow> tmgr option" where
  "tm_elapse_loop clk do_timeout now m =
     (case tm_head m of None \<Rightarrow> Some m
      | Some d \<Rightarrow> do {
          n \<leftarrow> tm_heap m d;
          if \<not> te_Check n now (tm_timeout m)
          then do { m1 \<leftarrow> tm_expire clk do_timeout d m; tm_elapse_loop clk do_timeout now m1 }
          else Some m })"

definition tm_TimeElapsedTimeout ::
    "(nat \<Rightarrow> nat) \<Rightarrow> (nat \<Rightarrow> tmgr \<Rightarrow> bool \<times> tmgr) \<Rightarrow> tmgr \<Rightarrow> tmgr option" where
  "tm_TimeElapsedTimeout clk do_timeout m =
     (let (now, m) = tm_now clk m in
      do { m1 \<leftarrow> tm_elapse_loop clk do_timeout now m;
           case tm_head m1 of None \<Rightarrow> Some (m1\<lparr>tm_tail := None\<rparr>)
           | Some d \<Rightarrow> do { h \<leftarrow> heap_put d (\<lambda>n. n\<lparr>dn_prev := None\<rparr>) (tm_heap m1); Some (m1\<lparr>tm_heap := h\<rparr>) }})"

text \<open>The destructor frees every event of the list.\<close>

partial_function (option) tm_free_all :: "tmgr \<Rightarrow> tmgr option" where
  "tm_free_all m =
     (case tm_head m of None \<Rightarrow> Some (m\<lparr>tm_tail := None\<rparr>)
      | Some d \<Rightarrow> do { n \<leftarrow> tm_heap m d; m1 \<leftarrow> tm_Free d m; tm_free_all (m1\<lparr>tm_head := dn_next n\<rparr>) })"

section \<open>The time-out list is a bidirectional list\<close>

definition tm_list :: "tmgr \<Rightarrow> tevent bilist" where
  "tm_list m = \<lparr>bl_heap = tm_heap m, bl_head = tm_head m, bl_tail = tm_tail m\<rparr>"

definition tm_holds :: "tmgr \<Rightarrow> nat list \<Rightarrow> bool" where
  "tm_holds m xs \<longleftrightarrow> bl_holds (tm_list m) xs \<and> tm_count m = u32 (length xs) \<and>
     (\<forall>x n. tm_heap m x = Some n \<longrightarrow> x \<in> set xs \<longrightarrow> te_managed n)"

definition tm_known :: "tmgr \<Rightarrow> nat set" where
  "tm_known m = dom (tm_heap m)"

definition tm_with :: "tmgr \<Rightarrow> nat \<Rightarrow> tevent bilist \<Rightarrow> tmgr" where
  "tm_with m c l = m\<lparr>tm_count := c, tm_heap := bl_heap l, tm_head := bl_head l, tm_tail := bl_tail l\<rparr>"

lemma tm_with_sel [simp]:
  "tm_list (tm_with m c l) = l" "tm_count (tm_with m c l) = c" "tm_heap (tm_with m c l) = bl_heap l"
  by (simp_all add: tm_list_def tm_with_def)

lemma heap_mod_mod: "heap_mod a f (heap_mod a g h) = heap_mod a (f \<circ> g) h"
  by (auto simp: heap_mod_def option.map_comp fun_eq_iff)

lemma te_swap: "n\<lparr>te_managed := b, bn_is_add := c\<rparr> = n\<lparr>bn_is_add := c, te_managed := b :: bool\<rparr>" for n :: tevent
  by (cases n) simp

lemma tm_Add_list:
  assumes "tm_heap m d = Some n" and "\<not> bn_is_add n"
  shows "tm_AddTimeoutEvent d m =
     map_option (tm_with m (u32 (tm_count m + 1)))
       (bl_Add d ((tm_list m)\<lparr>bl_heap := heap_mod d (\<lambda>n. n\<lparr>te_managed := True\<rparr>) (tm_heap m)\<rparr>))"
  using assms
  by (auto simp: tm_AddTimeoutEvent_def bl_Add_def tm_list_def tm_with_def heap_put_Some heap_mod_mod heap_simps comp_def
      map_option_bind te_swap split: option.splits bind_splits)

lemma tm_Remove_list:
  assumes "tm_heap m d = Some n" and "bn_is_add n"
  shows "tm_RemoveTimeoutEvent d m =
     map_option (tm_with m (sub32 (tm_count m) 1))
       (bl_Remove d ((tm_list m)\<lparr>bl_heap := heap_mod d (\<lambda>n. n\<lparr>te_managed := False\<rparr>) (tm_heap m)\<rparr>))"
  using assms
  by (auto simp: tm_RemoveTimeoutEvent_def bl_Remove_def tm_list_def tm_with_def heap_put_Some heap_mod_mod heap_simps comp_def
      map_option_bind te_swap split: option.splits bind_splits)

text \<open>Linking and unlinking change links and marks only.\<close>

lemma heap_put_keeps:
  assumes "heap_put a f h = Some h'" and "\<And>n. pr (f n) = pr n"
  shows "map_option pr (h' x) = map_option pr (h x)"
  using assms by (auto simp: heap_put_def heap_mod_def option.map_comp comp_def split: if_splits)

lemma bl_Add_keeps:
  assumes "bl_Add d l = Some l'"
    and "\<And>n v. pr (n\<lparr>dn_prev := v\<rparr>) = pr n" and "\<And>n v. pr (n\<lparr>dn_next := v\<rparr>) = pr n"
    and "\<And>n v. pr (n\<lparr>bn_is_add := v\<rparr>) = pr n"
  shows "map_option pr (bl_heap l' x) = map_option pr (bl_heap l x)"
  using assms(1) unfolding bl_Add_def
  by (auto split: if_splits option.splits elim!: bind_SomeE dest!: heap_put_keeps [where pr = pr and x = x] simp: assms(2-4))

lemma bl_Remove_keeps:
  assumes "bl_Remove d l = Some l'"
    and "\<And>n v. pr (n\<lparr>dn_prev := v\<rparr>) = pr n" and "\<And>n v. pr (n\<lparr>dn_next := v\<rparr>) = pr n"
    and "\<And>n v. pr (n\<lparr>bn_is_add := v\<rparr>) = pr n"
  shows "map_option pr (bl_heap l' x) = map_option pr (bl_heap l x)"
  using assms(1) unfolding bl_Remove_def
  by (auto split: if_splits option.splits elim!: bind_SomeE dest!: heap_put_keeps [where pr = pr and x = x] simp: assms(2-4))

lemma bl_holds_managed:
  "bl_holds (l\<lparr>bl_heap := heap_mod d (\<lambda>n. n\<lparr>te_managed := v\<rparr>) (bl_heap l)\<rparr>) xs \<longleftrightarrow> bl_holds l xs"
  for l :: "tevent bilist"
proof -
  have "(\<forall>n. heap_mod d (\<lambda>n. n\<lparr>te_managed := v\<rparr>) (bl_heap l) x = Some n \<longrightarrow>
        bn_is_add n = (x \<in> set xs) \<and> (x \<notin> set xs \<longrightarrow> dn_prev n = None \<and> dn_next n = None)) \<longleftrightarrow>
      (\<forall>n. bl_heap l x = Some n \<longrightarrow>
        bn_is_add n = (x \<in> set xs) \<and> (x \<notin> set xs \<longrightarrow> dn_prev n = None \<and> dn_next n = None))" for x
    by (cases "bl_heap l x"; cases "x = d") (auto simp: heap_simps)
  then show ?thesis
    by (simp add: bl_holds_def bi_links_def dseg_mod_flag)
qed

lemma sub32_u32: "sub32 (u32 (Suc n)) 1 = u32 n"
proof -
  have "k + 2 ^ 32 - 1 = k + (2 ^ 32 - 1)" for k :: nat
    by simp
  then have "sub32 (u32 (Suc n)) 1 = (Suc n mod 2 ^ 32 + (2 ^ 32 - 1)) mod 2 ^ 32"
    unfolding sub32_def u32_def by metis
  also have "\<dots> = (Suc n + (2 ^ 32 - 1)) mod 2 ^ 32"
    by (rule mod_add_left_eq)
  also have "\<dots> = u32 n"
    by (simp add: u32_def)
  finally show ?thesis .
qed

lemma u32_Suc: "u32 (Suc (u32 n)) = u32 (Suc n)"
  by (simp add: u32_def mod_Suc_eq)

lemma tm_Add_new:
  assumes "tm_holds m xs" and "d \<in> tm_known m" and "d \<notin> set xs"
  shows "\<exists>m'. tm_AddTimeoutEvent d m = Some m' \<and> tm_holds m' (xs @ [d]) \<and> tm_known m' = tm_known m"
proof -
  let ?l = "(tm_list m)\<lparr>bl_heap := heap_mod d (\<lambda>n. n\<lparr>te_managed := True\<rparr>) (tm_heap m)\<rparr>"
  have l: "bl_holds ?l xs" "d \<in> bl_known ?l"
    using assms bl_holds_managed [where l = "tm_list m"] by (simp_all add: tm_holds_def tm_list_def tm_known_def bl_known_def)
  obtain n where n: "tm_heap m d = Some n" "\<not> bn_is_add n"
    using assms bi_linksD(6) by (fastforce simp: tm_known_def tm_holds_def bl_holds_def tm_list_def)
  obtain l' where l': "bl_Add d ?l = Some l'" "bl_holds l' (xs @ [d])" "bl_known l' = bl_known ?l"
    using bl_Add_new [OF l assms(3)] by blast
  have man: "map_option te_managed (bl_heap l' x) = map_option te_managed (bl_heap ?l x)" for x
    by (rule bl_Add_keeps [OF l'(1)]) simp_all
  have "te_managed k" if "bl_heap l' x = Some k" "x \<in> set (xs @ [d])" for x k
    using man [of x] that assms(1) by (cases "tm_heap m x") (auto simp: heap_simps tm_holds_def split: if_splits)
  then show ?thesis
    using assms(1) l' tm_Add_list [OF n]
    by (simp add: tm_holds_def u32_Suc tm_known_def bl_known_def)
qed

lemma tm_Add_again:
  assumes "tm_holds m xs" and "d \<in> set xs"
  shows "tm_AddTimeoutEvent d m = Some m"
proof -
  have B: "bi_links (tm_heap m) (tm_head m) (tm_tail m) xs"
    using assms(1) by (simp add: tm_holds_def bl_holds_def tm_list_def)
  then obtain n where "tm_heap m d = Some n"
    using bi_linksD(5) [OF B] assms(2) by auto
  then show ?thesis
    using bi_linksD(6) [OF B] assms(2) by (simp add: tm_AddTimeoutEvent_def)
qed

lemma tm_Remove_any:
  assumes "tm_holds m xs" and "d \<in> tm_known m"
  shows "\<exists>m'. tm_RemoveTimeoutEvent d m = Some m' \<and> tm_holds m' (remove1 d xs) \<and> tm_known m' = tm_known m"
proof -
  have B: "bi_links (tm_heap m) (tm_head m) (tm_tail m) xs"
    using assms(1) by (simp add: tm_holds_def bl_holds_def tm_list_def)
  obtain n where n: "tm_heap m d = Some n"
    using assms(2) by (auto simp: tm_known_def)
  show ?thesis
  proof (cases "d \<in> set xs")
    case False
    then have "\<not> bn_is_add n"
      using bi_linksD(6) [OF B n] by simp
    then show ?thesis
      using n False assms(1) by (simp add: tm_RemoveTimeoutEvent_def remove1_idem)
  next
    case True
    let ?l = "(tm_list m)\<lparr>bl_heap := heap_mod d (\<lambda>n. n\<lparr>te_managed := False\<rparr>) (tm_heap m)\<rparr>"
    have l: "bl_holds ?l xs" "d \<in> bl_known ?l"
      using assms bl_holds_managed [where l = "tm_list m"] by (simp_all add: tm_holds_def tm_list_def tm_known_def bl_known_def)
    have add: "bn_is_add n"
      using bi_linksD(6) [OF B n] True by simp
    obtain l' where l': "bl_Remove d ?l = Some l'" "bl_holds l' (remove1 d xs)" "bl_known l' = bl_known ?l"
      using bl_Remove_any [OF l] by blast
    have man: "map_option te_managed (bl_heap l' x) = map_option te_managed (bl_heap ?l x)" for x
      by (rule bl_Remove_keeps [OF l'(1)]) simp_all
    have "te_managed k" if "bl_heap l' x = Some k" "x \<in> set (remove1 d xs)" for x k
    proof -
      have "x \<in> set xs" "x \<noteq> d"
        using that(2) bi_linksD(1) [OF B] by auto
      then show ?thesis
        using man [of x] that(1) assms(1) by (cases "tm_heap m x") (auto simp: heap_simps tm_holds_def)
    qed
    moreover have "Suc (length (remove1 d xs)) = length xs"
      using True length_pos_if_in_set [OF True] by (simp add: length_remove1)
    then have "sub32 (tm_count m) 1 = u32 (length (remove1 d xs))"
      using assms(1) sub32_u32 by (metis tm_holds_def)
    ultimately show ?thesis
      using assms(1) l' tm_Remove_list [OF n add]
      by (simp add: tm_holds_def tm_known_def bl_known_def)
  qed
qed

interpretation tml: idempotent_registry tm_holds tm_known tm_AddTimeoutEvent tm_RemoveTimeoutEvent
proof
  show "tm_holds m xs \<Longrightarrow> distinct xs" for m xs
    by (simp add: tm_holds_def bl_holds_def bi_links_def)
  show "tm_holds m xs \<Longrightarrow> set xs \<subseteq> tm_known m" for m xs
    using bi_linksD(5) [of "tm_heap m" "tm_head m" "tm_tail m" xs]
    by (simp add: tm_holds_def bl_holds_def tm_list_def tm_known_def)
qed (use tm_Add_new tm_Add_again tm_Remove_any in blast)+

section \<open>Expiry\<close>

text \<open>
  While events are being expired the back link of the new head is stale, and \<open>tail_\<close> is stale when the list
  runs empty; both are mended after the loop.
\<close>

definition tm_partial :: "tmgr \<Rightarrow> nat list \<Rightarrow> bool" where
  "tm_partial m xs \<longleftrightarrow> distinct xs \<and> (\<exists>p. dseg (tm_heap m) p xs None) \<and> tm_head m = first_or xs None \<and>
     (xs \<noteq> [] \<longrightarrow> tm_tail m = Some (last xs)) \<and> tm_count m = u32 (length xs) \<and>
     (\<forall>x n. tm_heap m x = Some n \<longrightarrow> bn_is_add n = (x \<in> set xs) \<and> (x \<in> set xs \<longrightarrow> te_managed n) \<and>
        (x \<notin> set xs \<longrightarrow> dn_prev n = None \<and> dn_next n = None))"

definition tm_heart :: "tmgr \<Rightarrow> nat \<Rightarrow> nat" where
  "tm_heart m x = (case tm_heap m x of None \<Rightarrow> 0 | Some n \<Rightarrow> te_heart n)"

lemma heart_cong:
  "map_option te_heart a = map_option te_heart b \<Longrightarrow>
     (case a of None \<Rightarrow> 0 | Some n \<Rightarrow> te_heart n) = (case b of None \<Rightarrow> 0 | Some n \<Rightarrow> te_heart n)"
  by (cases a; cases b) auto

lemma tm_partialI: "tm_holds m xs \<Longrightarrow> tm_partial m xs"
  by (auto simp: tm_holds_def bl_holds_def tm_list_def bi_links_def tm_partial_def last_or_def)

lemma tm_partial_mended:
  assumes "tm_partial m xs"
  shows "\<exists>m'. (case tm_head m of None \<Rightarrow> Some (m\<lparr>tm_tail := None\<rparr>)
       | Some d \<Rightarrow> do { h \<leftarrow> heap_put d (\<lambda>n. n\<lparr>dn_prev := None\<rparr>) (tm_heap m); Some (m\<lparr>tm_heap := h\<rparr>) }) = Some m' \<and>
     tm_holds m' xs \<and> tm_known m' = tm_known m \<and> tm_freed m' = tm_freed m \<and> tm_clock m' = tm_clock m \<and>
     tm_timeout m' = tm_timeout m \<and> (\<forall>x. tm_heart m' x = tm_heart m x)"
proof (cases xs)
  case Nil
  then show ?thesis
    using assms by (auto simp: tm_partial_def tm_holds_def bl_holds_def tm_list_def bi_links_def tm_known_def tm_heart_def)
next
  case (Cons x xs')
  obtain p where p: "dseg (tm_heap m) p xs None" "distinct xs" "tm_head m = Some x" "tm_tail m = last_or None xs"
    using assms Cons by (auto simp: tm_partial_def last_or_def)
  obtain n where n: "tm_heap m x = Some n"
    using dseg_dom [OF p(1)] Cons by auto
  have "dseg (heap_mod x (\<lambda>n. n\<lparr>dn_prev := None\<rparr>) (tm_heap m)) None xs None"
    using dseg_set_prev [OF p(1,2)] Cons by simp
  then show ?thesis
    using assms Cons n p
    by (auto simp: tm_partial_def tm_holds_def bl_holds_def tm_list_def bi_links_def tm_known_def tm_heart_def
        heap_simps split: if_splits option.splits)
qed

text \<open>Putting an event back that was taken from the front.\<close>

lemma tm_partial_Add:
  assumes J: "tm_partial m xs" and d: "tm_heap m d = Some n" "d \<notin> set xs"
  shows "\<exists>m'. tm_AddTimeoutEvent d m = Some m' \<and> tm_partial m' (xs @ [d]) \<and> tm_known m' = tm_known m \<and>
     tm_freed m' = tm_freed m \<and> tm_clock m' = tm_clock m \<and> tm_timeout m' = tm_timeout m \<and>
     (\<forall>x. tm_heart m' x = tm_heart m x)"
proof -
  obtain p where p: "dseg (tm_heap m) p xs None" "distinct xs" "tm_head m = first_or xs None"
    "tm_count m = u32 (length xs)"
    using J by (auto simp: tm_partial_def)
  have nd: "\<not> bn_is_add n" "dn_prev n = None" "dn_next n = None"
    using J d by (auto simp: tm_partial_def)
  let ?h2 = "heap_mod d (\<lambda>n. n\<lparr>te_managed := True\<rparr>) (heap_mod d (\<lambda>n. n\<lparr>bn_is_add := True\<rparr>) (tm_heap m))"
  show ?thesis
  proof (cases "xs = []")
    case True
    then have "tm_AddTimeoutEvent d m =
        Some (m\<lparr>tm_count := u32 (Suc (tm_count m)), tm_heap := ?h2, tm_head := Some d, tm_tail := Some d\<rparr>)"
      using d nd p by (simp add: tm_AddTimeoutEvent_def heap_put_Some heap_simps)
    then show ?thesis
      using True J d nd
      by (auto simp: tm_partial_def tm_known_def tm_heart_def heap_simps u32_def split: if_splits option.splits)
  next
    case False
    let ?h3 = "heap_mod d (\<lambda>n. n\<lparr>dn_prev := Some (last xs)\<rparr>) ?h2"
    let ?h4 = "heap_mod (last xs) (\<lambda>n. n\<lparr>dn_next := Some d\<rparr>) ?h3"
    have t: "tm_tail m = Some (last xs)" "tm_head m = Some (hd xs)" "last xs \<noteq> d"
      using J False d(2) p(3) by (auto simp: tm_partial_def first_or_hd)
    obtain k where k: "tm_heap m (last xs) = Some k"
      using dseg_dom [OF p(1)] last_in_set [OF False] by (auto simp: subset_eq)
    have "tm_AddTimeoutEvent d m =
        Some (m\<lparr>tm_count := u32 (Suc (tm_count m)), tm_heap := ?h4, tm_tail := Some d\<rparr>)"
      using d nd t k by (simp add: tm_AddTimeoutEvent_def heap_put_Some heap_simps)
    moreover have "dseg ?h4 p xs (Some d)"
      using p(1,2) False d(2) by (intro dseg_set_next [where q = None]) (simp_all add: heap_simps)
    then have "dseg ?h4 p (xs @ [d]) None"
      using d nd t(3) False by (simp add: dseg_append heap_simps last_or_last)
    moreover have "dom ?h4 = dom (tm_heap m)"
      by simp
    moreover have "map_option te_heart (?h4 x) = map_option te_heart (tm_heap m x)" for x
      by (cases "tm_heap m x") (auto simp: heap_simps)
    then have "(case ?h4 x of None \<Rightarrow> 0 | Some n \<Rightarrow> te_heart n) = (case tm_heap m x of None \<Rightarrow> 0 | Some n \<Rightarrow> te_heart n)" for x
      using heart_cong by blast
    moreover have "bn_is_add k = (x \<in> set (xs @ [d])) \<and> (x \<in> set (xs @ [d]) \<longrightarrow> te_managed k) \<and>
        (x \<notin> set (xs @ [d]) \<longrightarrow> dn_prev k = None \<and> dn_next k = None)" if "?h4 x = Some k" for x k
      using that J False by (cases "x = d"; cases "x = last xs") (auto simp: heap_simps tm_partial_def)
    ultimately show ?thesis
      using J False d(2) p t by (auto simp: tm_partial_def tm_known_def tm_heart_def u32_Suc first_or_hd)
  qed
qed

lemma tm_partial_pop:
  assumes J: "tm_partial m (d # xs)"
  shows "\<exists>n h. tm_heap m d = Some n \<and>
     heap_put d (\<lambda>n. n\<lparr>bn_is_add := False, dn_prev := None, dn_next := None\<rparr>) (tm_heap m) = Some h \<and>
     te_managed n \<and> (\<exists>k. h d = Some k \<and> te_managed k) \<and>
     tm_partial (m\<lparr>tm_heap := h, tm_head := dn_next n, tm_count := sub32 (tm_count m) 1\<rparr>) xs \<and>
     dom h = dom (tm_heap m) \<and> (\<forall>x. map_option te_heart (h x) = map_option te_heart (tm_heap m x))"
proof -
  obtain p where p: "dseg (tm_heap m) p (d # xs) None" "distinct (d # xs)" "tm_count m = u32 (Suc (length xs))"
    using J by (auto simp: tm_partial_def)
  obtain n where n: "tm_heap m d = Some n" "dn_next n = first_or xs None"
    using p(1) by (auto simp: first_or_def split: option.splits)
  let ?h = "heap_mod d (\<lambda>n. n\<lparr>bn_is_add := False, dn_prev := None, dn_next := None\<rparr>) (tm_heap m)"
  have "dseg ?h (Some d) xs None"
    using p by (simp add: heap_simps)
  moreover have "bn_is_add k = (x \<in> set xs) \<and> (x \<in> set xs \<longrightarrow> te_managed k) \<and>
      (x \<notin> set xs \<longrightarrow> dn_prev k = None \<and> dn_next k = None)" if "?h x = Some k" for x k
    using that J p(2) by (cases "x = d") (auto simp: heap_simps tm_partial_def)
  ultimately have "tm_partial (m\<lparr>tm_heap := ?h, tm_head := dn_next n, tm_count := sub32 (tm_count m) 1\<rparr>) xs"
    using J p(2,3) n sub32_u32 by (auto simp: tm_partial_def)
  moreover have "te_managed n"
    using J n by (auto simp: tm_partial_def)
  ultimately show ?thesis
    using n by (auto simp: heap_put_Some heap_simps option.map_comp comp_def)
qed

text \<open>The effect of expiring the first event when \<open>DoTimeout\<close> only gives its verdict.\<close>

lemma tm_expire_spec:
  assumes J: "tm_partial m (d # xs)"
  shows "\<exists>m'. tm_expire clk (\<lambda>d m. (b d, m)) d m = Some m' \<and>
     tm_partial m' (if b d then xs else xs @ [d]) \<and>
     tm_freed m' = tm_freed m @ (if b d then [d] else []) \<and>
     tm_known m' = tm_known m - (if b d then {d} else {}) \<and>
     tm_clock m' = (if b d then tm_clock m else tm_clock m + 1) \<and> tm_timeout m' = tm_timeout m \<and>
     (\<forall>x. x \<noteq> d \<longrightarrow> tm_heart m' x = tm_heart m x) \<and> (\<not> b d \<longrightarrow> tm_heart m' d = clk (tm_clock m))"
proof -
  obtain n h k where pop: "tm_heap m d = Some n"
    "heap_put d (\<lambda>n. n\<lparr>bn_is_add := False, dn_prev := None, dn_next := None\<rparr>) (tm_heap m) = Some h"
    "h d = Some k" "te_managed k"
    "tm_partial (m\<lparr>tm_heap := h, tm_head := dn_next n, tm_count := sub32 (tm_count m) 1\<rparr>) xs"
    "dom h = dom (tm_heap m)" "\<And>x. map_option te_heart (h x) = map_option te_heart (tm_heap m x)"
    using tm_partial_pop [OF J] by blast
  let ?m1 = "m\<lparr>tm_heap := h, tm_head := dn_next n, tm_count := sub32 (tm_count m) 1\<rparr>"
  have d: "d \<notin> set xs"
    using J by (simp add: tm_partial_def)
  have heart1: "tm_heart ?m1 x = tm_heart m x" for x
    using heart_cong [OF pop(7)] by (simp add: tm_heart_def)
  show ?thesis
  proof (cases "b d")
    case True
    let ?m2 = "?m1\<lparr>tm_heap := h(d := None), tm_freed := tm_freed m @ [d]\<rparr>"
    have "dseg (h(d := None)) p xs None \<longleftrightarrow> dseg h p xs None" for p
      by (rule dseg_cong) (use d in auto)
    then have "tm_partial ?m2 xs"
      using pop(5) by (auto simp: tm_partial_def)
    moreover have "tm_heart ?m2 x = tm_heart m x" if "x \<noteq> d" for x
      using heart1 [of x] that by (simp add: tm_heart_def)
    ultimately show ?thesis
      using pop True by (auto simp: tm_expire_def tm_Free_def tm_known_def)
  next
    case False
    let ?h = "heap_mod d (\<lambda>n. n\<lparr>te_heart := clk (tm_clock m)\<rparr>) h"
    let ?m2 = "?m1\<lparr>tm_clock := tm_clock m + 1, tm_heap := ?h\<rparr>"
    have "bn_is_add q = (x \<in> set xs) \<and> (x \<in> set xs \<longrightarrow> te_managed q) \<and>
        (x \<notin> set xs \<longrightarrow> dn_prev q = None \<and> dn_next q = None)" if "?h x = Some q" for x q
      using that pop(3,5) by (cases "x = d") (auto simp: heap_simps tm_partial_def)
    then have J2: "tm_partial ?m2 xs"
      using pop(5) by (simp add: tm_partial_def dseg_mod_flag)
    have h: "tm_heap ?m2 d = Some (k\<lparr>te_heart := clk (tm_clock m)\<rparr>)" "\<not> bn_is_add (k\<lparr>te_heart := clk (tm_clock m)\<rparr>)"
      using pop(3,5) d by (auto simp: heap_simps tm_partial_def)
    obtain m' where m': "tm_AddTimeoutEvent d ?m2 = Some m'" "tm_partial m' (xs @ [d])"
      "tm_known m' = tm_known ?m2" "tm_freed m' = tm_freed ?m2" "tm_clock m' = tm_clock ?m2"
      "tm_timeout m' = tm_timeout ?m2" "\<And>x. tm_heart m' x = tm_heart ?m2 x"
      using tm_partial_Add [OF J2 h(1) d] by blast
    have "tm_UpdateTimeout clk d ?m1 = Some m'"
      using pop(3,4) h m'(1)
      by (simp add: tm_UpdateTimeout_def tm_now_def heap_put_Some tm_ReaddTimeoutEvent_def tm_RemoveTimeoutEvent_def)
    then have "tm_expire clk (\<lambda>d m. (b d, m)) d m = Some m'"
      using pop False by (simp add: tm_expire_def)
    moreover have "tm_heart ?m2 x = tm_heart m x" if "x \<noteq> d" for x
      using heart1 [of x] that by (simp add: tm_heart_def heap_simps)
    moreover have "tm_heart ?m2 d = clk (tm_clock m)"
      using h by (simp add: tm_heart_def)
    ultimately show ?thesis
      using m' False pop(6) by (auto simp: tm_known_def)
  qed
qed

text \<open>
  What a round does: the leading expired events are dealt with in order, the ones to be freed are freed, the others go to
  the end with a new heartbeat.
\<close>

lemma tm_elapse_loop_spec:
  assumes "tm_partial m (es @ rest)" and "\<And>x. x \<in> set es \<Longrightarrow> u64 (tm_timeout m + tm_heart m x) < now"
    and "rest \<noteq> [] \<Longrightarrow> now \<le> u64 (tm_timeout m + tm_heart m (hd rest))"
    and "\<And>k. tm_clock m \<le> k \<Longrightarrow> now \<le> clk k \<and> tm_timeout m + clk k < 2 ^ 64"
  shows "\<exists>m'. tm_elapse_loop clk (\<lambda>d m. (b d, m)) now m = Some m' \<and>
     tm_partial m' (rest @ filter (\<lambda>x. \<not> b x) es) \<and> tm_freed m' = tm_freed m @ filter b es \<and>
     tm_known m' = tm_known m - {x \<in> set es. b x} \<and> tm_timeout m' = tm_timeout m \<and>
     (\<forall>x. x \<notin> set es \<longrightarrow> tm_heart m' x = tm_heart m x) \<and>
     (\<forall>x \<in> set es. \<not> b x \<longrightarrow> now \<le> tm_heart m' x)"
  using assms
proof (induction es arbitrary: m rest)
  case Nil
  show ?case
  proof (cases rest)
    case Nil
    then show ?thesis
      using Nil.prems(1) by (subst tm_elapse_loop.simps) (simp add: tm_partial_def)
  next
    case (Cons r rs)
    then obtain n where n: "tm_heap m r = Some n" "tm_head m = Some r"
      using Nil.prems(1) by (auto simp: tm_partial_def split: option.splits)
    then have "te_Check n now (tm_timeout m)"
      using Nil.prems(3) Cons by (simp add: te_Check_def tm_heart_def)
    then show ?thesis
      using Nil.prems(1) n by (subst tm_elapse_loop.simps) simp
  qed
next
  case (Cons d es)
  have J: "tm_partial m (d # (es @ rest))"
    using Cons.prems(1) by simp
  obtain m1 where m1: "tm_expire clk (\<lambda>d m. (b d, m)) d m = Some m1"
    "tm_partial m1 (if b d then es @ rest else (es @ rest) @ [d])"
    "tm_freed m1 = tm_freed m @ (if b d then [d] else [])"
    "tm_known m1 = tm_known m - (if b d then {d} else {})"
    "tm_clock m1 = (if b d then tm_clock m else tm_clock m + 1)" "tm_timeout m1 = tm_timeout m"
    "\<And>x. x \<noteq> d \<Longrightarrow> tm_heart m1 x = tm_heart m x" "\<not> b d \<Longrightarrow> tm_heart m1 d = clk (tm_clock m)"
    using tm_expire_spec [OF J, of clk b] by blast
  have dn: "d \<notin> set es" "d \<notin> set rest"
    using J by (auto simp: tm_partial_def)
  define rest' where "rest' = (if b d then rest else rest @ [d])"
  obtain n where n: "tm_heap m d = Some n" "tm_head m = Some d"
    using J by (auto simp: tm_partial_def split: option.splits)
  have step: "tm_elapse_loop clk (\<lambda>d m. (b d, m)) now m = tm_elapse_loop clk (\<lambda>d m. (b d, m)) now m1"
    using n m1(1) Cons.prems(2) [of d]
    by (subst tm_elapse_loop.simps) (simp add: te_Check_def tm_heart_def)
  have clk: "tm_clock m \<le> k \<Longrightarrow> now \<le> clk k \<and> tm_timeout m + clk k < 2 ^ 64" for k
    using Cons.prems(4) by blast
  have "tm_partial m1 (es @ rest')"
    using m1(2) by (simp add: rest'_def split: if_splits)
  moreover have "u64 (tm_timeout m1 + tm_heart m1 x) < now" if "x \<in> set es" for x
    using Cons.prems(2) [of x] m1(6) m1(7) [of x] that dn by (cases "x = d") simp_all
  moreover have "now \<le> u64 (tm_timeout m1 + tm_heart m1 (hd rest'))" if "rest' \<noteq> []"
  proof (cases "rest = []")
    case True
    then show ?thesis
      using that m1(6,8) clk [of "tm_clock m"] by (auto simp: rest'_def u64_small split: if_splits)
  next
    case False
    then have "hd rest \<noteq> d"
      using dn(2) hd_in_set by metis
    then show ?thesis
      using False Cons.prems(3) m1(6) m1(7) [of "hd rest"] by (simp add: rest'_def)
  qed
  moreover have "now \<le> clk k \<and> tm_timeout m1 + clk k < 2 ^ 64" if "tm_clock m1 \<le> k" for k
    using clk [of k] that m1(5,6) by (auto split: if_splits)
  ultimately obtain m' where m': "tm_elapse_loop clk (\<lambda>d m. (b d, m)) now m1 = Some m'"
    "tm_partial m' (rest' @ filter (\<lambda>x. \<not> b x) es)" "tm_freed m' = tm_freed m1 @ filter b es"
    "tm_known m' = tm_known m1 - {x \<in> set es. b x}" "tm_timeout m' = tm_timeout m1"
    "\<forall>x. x \<notin> set es \<longrightarrow> tm_heart m' x = tm_heart m1 x" "\<forall>x \<in> set es. \<not> b x \<longrightarrow> now \<le> tm_heart m' x"
    using Cons.IH [of m1 rest'] by blast
  show ?case
  proof (cases "b d")
    case True
    then show ?thesis
      using step m' m1 dn by (auto simp: rest'_def)
  next
    case False
    then show ?thesis
      using step m' m1 dn clk [of "tm_clock m"] by (auto simp: rest'_def)
  qed
qed

lemma takeWhile_sorted:
  "sorted (map f xs) \<Longrightarrow> takeWhile (\<lambda>x. f x < c) xs = filter (\<lambda>x. f x < c) xs \<and>
     dropWhile (\<lambda>x. f x < c) xs = filter (\<lambda>x. \<not> f x < c) xs" for c :: nat
proof (induction xs)
  case (Cons x xs)
  show ?case
  proof (cases "f x < c")
    case False
    then have "\<forall>y \<in> set xs. \<not> f y < c"
      using Cons.prems by fastforce
    then show ?thesis
      using False by (simp add: filter_empty_conv)
  qed (use Cons in simp)
qed simp

text \<open>
  C16: When the events are in the order of their last heartbeats, a round of the time-out manager ends, and it
  deals with exactly the expired events: those whose \<open>DoTimeout\<close> agrees are freed, in order, the others are put at the end of the
  list with a new heartbeat; no other event is touched and no event that is left in the list is expired.
\<close>
theorem TimeoutManager_expiry:
  assumes "tm_holds m xs" and "sorted (map (tm_heart m) xs)" and "clk (tm_clock m) = now"
    and "\<forall>x \<in> set xs. tm_timeout m + tm_heart m x < 2 ^ 64"
    and "\<And>k. tm_clock m < k \<Longrightarrow> now \<le> clk k \<and> tm_timeout m + clk k < 2 ^ 64"
  shows "\<exists>m'. tm_TimeElapsedTimeout clk (\<lambda>d m. (b d, m)) m = Some m' \<and>
     tm_holds m' (filter (\<lambda>x. now \<le> tm_timeout m + tm_heart m x) xs @
       filter (\<lambda>x. \<not> b x) (filter (\<lambda>x. tm_timeout m + tm_heart m x < now) xs)) \<and>
     tm_freed m' = tm_freed m @ filter b (filter (\<lambda>x. tm_timeout m + tm_heart m x < now) xs) \<and>
     (\<forall>x \<in> set xs. (tm_timeout m + tm_heart m x < now \<longrightarrow> b x \<or> now \<le> tm_heart m' x) \<and>
        (now \<le> tm_timeout m + tm_heart m x \<longrightarrow> tm_heart m' x = tm_heart m x))"
proof -
  let ?m = "m\<lparr>tm_clock := tm_clock m + 1\<rparr>" and ?f = "\<lambda>x. tm_timeout m + tm_heart m x"
  let ?es = "filter (\<lambda>x. ?f x < now) xs" and ?rest = "filter (\<lambda>x. \<not> ?f x < now) xs"
  have "sorted (map ?f xs)"
    using assms(2) by (simp add: sorted_map)
  then have xs: "xs = ?es @ ?rest"
    using takeWhile_sorted [of ?f xs now] takeWhile_dropWhile_id [of "\<lambda>x. ?f x < now" xs] by simp
  have heart: "tm_heart (m\<lparr>tm_clock := c\<rparr>) x = tm_heart m x" for x c
    by (simp add: tm_heart_def)
  have "tm_partial ?m xs"
    using tm_partialI [OF assms(1)] by (simp add: tm_partial_def)
  then have J: "tm_partial ?m (?es @ ?rest)"
    using xs by metis
  have "u64 (tm_timeout ?m + tm_heart ?m x) < now" if "x \<in> set ?es" for x
    using that assms(4) by (simp add: heart u64_small)
  moreover have "now \<le> u64 (tm_timeout ?m + tm_heart ?m (hd ?rest))" if "?rest \<noteq> []"
    using hd_in_set [OF that] assms(4) by (simp add: heart u64_small)
  ultimately obtain m1 where m1: "tm_elapse_loop clk (\<lambda>d m. (b d, m)) now ?m = Some m1"
    "tm_partial m1 (?rest @ filter (\<lambda>x. \<not> b x) ?es)" "tm_freed m1 = tm_freed m @ filter b ?es"
    "\<forall>x. x \<notin> set ?es \<longrightarrow> tm_heart m1 x = tm_heart m x" "\<forall>x \<in> set ?es. \<not> b x \<longrightarrow> now \<le> tm_heart m1 x"
    using tm_elapse_loop_spec [OF J, of now clk b] assms(5) by (auto simp: heart)
  obtain m2 where m2: "(case tm_head m1 of None \<Rightarrow> Some (m1\<lparr>tm_tail := None\<rparr>)
       | Some d \<Rightarrow> do { h \<leftarrow> heap_put d (\<lambda>n. n\<lparr>dn_prev := None\<rparr>) (tm_heap m1); Some (m1\<lparr>tm_heap := h\<rparr>) }) = Some m2"
    "tm_holds m2 (?rest @ filter (\<lambda>x. \<not> b x) ?es)" "tm_freed m2 = tm_freed m1" "\<forall>x. tm_heart m2 x = tm_heart m1 x"
    using tm_partial_mended [OF m1(2)] by blast
  have "tm_TimeElapsedTimeout clk (\<lambda>d m. (b d, m)) m = Some m2"
    using m1(1) m2(1) assms(3) by (simp add: tm_TimeElapsedTimeout_def tm_now_def)
  then show ?thesis
    using m2 m1(3,4,5) by (intro exI [of _ m2]) (auto simp: not_less)
qed

definition te_node :: "nat option \<Rightarrow> nat option \<Rightarrow> nat \<Rightarrow> tevent" where
  "te_node p q heart = (te_new heart)\<lparr>dn_prev := p, dn_next := q, bn_is_add := True, te_managed := True\<rparr>"

definition tm_demo :: tmgr where
  "tm_demo = (tm_new 10)\<lparr>tm_heap := [11 \<mapsto> te_node None (Some 12) 5, 12 \<mapsto> te_node (Some 11) (Some 13) 7,
     13 \<mapsto> te_node (Some 12) None 40], tm_head := Some 11, tm_tail := Some 13, tm_count := 3\<rparr>"

lemma tm_demo_holds: "tm_holds tm_demo [11, 12, 13]"
  by (auto simp: tm_demo_def tm_new_def te_node_def te_new_def tm_holds_def bl_holds_def bi_links_def tm_list_def u32_def
      split: if_splits)

lemma tm_demo_sel:
  "tm_timeout tm_demo = 10" "tm_clock tm_demo = 0" "tm_freed tm_demo = []"
  "tm_heart tm_demo 11 = 5" "tm_heart tm_demo 12 = 7" "tm_heart tm_demo 13 = 40" "tm_known tm_demo = {11, 12, 13}"
  by (auto simp: tm_demo_def tm_new_def te_node_def te_new_def tm_heart_def tm_known_def)

lemma TimeoutManager_expiry_witness:
  "\<exists>m'. tm_TimeElapsedTimeout (\<lambda>k. 45) (\<lambda>d m. (d = 11, m)) tm_demo = Some m' \<and>
     tm_holds m' [13, 12] \<and> tm_freed m' = [11]"
  using TimeoutManager_expiry [OF tm_demo_holds, of "\<lambda>k. 45" 45 "\<lambda>d. d = 11"]
  by (auto simp: tm_demo_sel)

text \<open>
  The time-out manager's list behaves as a sequence: after any additions and removals of known events it holds the
  events added and not removed since, in the order of their addition, counts them modulo \<open>2 ^ 32\<close>,
  and walking from \<open>GetTimeoutHead\<close> with \<open>GetNextTimeoutEvent\<close> visits them in this order.
\<close>
theorem TimeoutManager_sequence:
  assumes "tm_holds m xs" and "seq_elem ` set es \<subseteq> tm_known m"
  shows "\<exists>m'. seq_calls tm_AddTimeoutEvent tm_RemoveTimeoutEvent es m = Some m' \<and>
     tm_holds m' (fold seq_spec es xs) \<and> tm_count m' = u32 (length (fold seq_spec es xs)) \<and>
     tm_GetNextTimeoutEvent None m' = Some (first_or (fold seq_spec es xs) None) \<and>
     (\<forall>as d bs. fold seq_spec es xs = as @ d # bs \<longrightarrow> tm_GetNextTimeoutEvent (Some d) m' = Some (first_or bs None))"
proof -
  obtain m' where m': "seq_calls tm_AddTimeoutEvent tm_RemoveTimeoutEvent es m = Some m'"
    "tm_holds m' (fold seq_spec es xs)"
    using tml.calls_hold [OF assms] by blast
  then have L: "bi_links (tm_heap m') (tm_head m') (tm_tail m') (fold seq_spec es xs)"
    by (simp add: tm_holds_def bl_holds_def tm_list_def)
  have "tm_GetNextTimeoutEvent (Some d) m' = Some (first_or bs None)" if "fold seq_spec es xs = as @ d # bs" for as d bs
    using bi_linksD(2) [OF L] unfolding that by (rule dseg_member) (simp add: tm_GetNextTimeoutEvent_def)
  then show ?thesis
    using m' bi_linksD(3) [OF L] by (auto simp: tm_GetNextTimeoutEvent_def tm_holds_def)
qed

lemma TimeoutManager_sequence_witness:
  "\<exists>m'. seq_calls tm_AddTimeoutEvent tm_RemoveTimeoutEvent [SeqRemove 12, SeqAdd 11, SeqAdd 12] tm_demo = Some m' \<and>
     tm_holds m' [11, 13, 12] \<and> tm_count m' = 3 \<and> tm_GetNextTimeoutEvent None m' = Some (Some 11)"
  using TimeoutManager_sequence [OF tm_demo_holds, of "[SeqRemove 12, SeqAdd 11, SeqAdd 12]"]
  by (auto simp: tm_demo_sel u32_def)

section \<open>Periodic timers\<close>

text \<open>
  The multimap of timers is the list of its entries in key order; a new entry goes behind the entries with
  the same key. \<open>Process\<close> of a timer is the application's; \<open>tms_log\<close> records its calls, with
  the time of the round.
\<close>

record timer =
  ti_id :: nat
  ti_period :: nat

record timers =
  tms_process_id :: nat
  tms_slots :: "(nat \<times> timer) list"
  tms_managers :: "nat \<rightharpoonup> tmgr"
  tms_log :: "(nat \<times> nat) list"

definition tms_new :: timers where
  "tms_new = \<lparr>tms_process_id = 0, tms_slots = [], tms_managers = Map.empty, tms_log = []\<rparr>"

fun slot_insert :: "nat \<Rightarrow> timer \<Rightarrow> (nat \<times> timer) list \<Rightarrow> (nat \<times> timer) list" where
  "slot_insert k t [] = [(k, t)]"
| "slot_insert k t ((k', t') # xs) = (if k < k' then (k, t) # (k', t') # xs else (k', t') # slot_insert k t xs)"

definition tms_AddTimeoutManager :: "tmgr \<Rightarrow> timers \<Rightarrow> nat \<times> timers" where
  "tms_AddTimeoutManager m s =
     (let i = u32 (tms_process_id s + 1) in
      (i, s\<lparr>tms_process_id := i, tms_managers := (tms_managers s)(i \<mapsto> m)\<rparr>))"

definition tms_RemoveTimeoutManager :: "nat \<Rightarrow> timers \<Rightarrow> timers" where
  "tms_RemoveTimeoutManager i s = s\<lparr>tms_managers := (tms_managers s)(i := None)\<rparr>"

definition tms_AddTimerEvent :: "nat \<Rightarrow> nat \<Rightarrow> timers \<Rightarrow> nat \<times> timers" where
  "tms_AddTimerEvent now period s =
     (let i = u32 (tms_process_id s + 1) in
      (i, s\<lparr>tms_process_id := i, tms_slots := slot_insert now \<lparr>ti_id = i, ti_period = period\<rparr> (tms_slots s)\<rparr>))"

fun slot_remove :: "nat \<Rightarrow> (nat \<times> timer) list \<Rightarrow> (nat \<times> timer) list" where
  "slot_remove i [] = []"
| "slot_remove i ((k, t) # xs) = (if i = ti_id t then xs else (k, t) # slot_remove i xs)"

definition tms_RemoveTimerEvent :: "nat \<Rightarrow> timers \<Rightarrow> timers" where
  "tms_RemoveTimerEvent i s = s\<lparr>tms_slots := slot_remove i (tms_slots s)\<rparr>"

text \<open>
  The loop over the slots. The iterator stands between \<open>pre\<close> and the rest; the timer is put back before its old entry is
  erased, so a key that has wrapped around goes in front of the iterator and is not visited again.
  A timer whose period is 0 is put back with a due key: the loop need not end.
\<close>

partial_function (option) tms_process_loop ::
    "nat \<Rightarrow> (nat \<times> timer) list \<Rightarrow> (nat \<times> timer) list \<Rightarrow> (nat \<times> nat) list \<Rightarrow>
      (nat \<times> (nat \<times> timer) list \<times> (nat \<times> nat) list) option" where
  "tms_process_loop now pre suf log =
     (case suf of
        [] \<Rightarrow> Some (1000, pre, log)
      | (k, t) # suf' \<Rightarrow>
          if now \<ge> k then
            let k' = u64 (now + ti_period t); log' = log @ [(ti_id t, now)] in
            (if k' < k then tms_process_loop now (slot_insert k' t pre) suf' log'
             else tms_process_loop now pre (slot_insert k' t suf') log')
          else Some (u32 (k - now), pre @ suf, log))"

definition tms_TimeElapsedProcess :: "nat \<Rightarrow> timers \<Rightarrow> (nat \<times> timers) option" where
  "tms_TimeElapsedProcess now s =
     do { (wait, slots, log) \<leftarrow> tms_process_loop now [] (tms_slots s) (tms_log s);
          Some (wait, s\<lparr>tms_slots := slots, tms_log := log\<rparr>) }"

text \<open>\<open>enum\<close> is the order in which the hash table is visited.\<close>

fun tms_timeouts ::
    "(nat \<Rightarrow> nat) \<Rightarrow> (nat \<Rightarrow> tmgr \<Rightarrow> bool \<times> tmgr) \<Rightarrow> nat list \<Rightarrow> (nat \<rightharpoonup> tmgr) \<Rightarrow> (nat \<rightharpoonup> tmgr) option" where
  "tms_timeouts clk do_timeout [] ms = Some ms"
| "tms_timeouts clk do_timeout (i # is) ms =
     do { m \<leftarrow> ms i; m1 \<leftarrow> tm_TimeElapsedTimeout clk do_timeout m;
          tms_timeouts clk do_timeout is (ms(i \<mapsto> m1)) }"

definition tms_TimeElapsed ::
    "((nat \<rightharpoonup> tmgr) \<Rightarrow> nat list) \<Rightarrow> (nat \<Rightarrow> nat) \<Rightarrow> (nat \<Rightarrow> tmgr \<Rightarrow> bool \<times> tmgr) \<Rightarrow> nat \<Rightarrow> timers \<Rightarrow> (nat \<times> timers) option" where
  "tms_TimeElapsed enum clk do_timeout now s =
     do { ms \<leftarrow> tms_timeouts clk do_timeout (enum (tms_managers s)) (tms_managers s);
          tms_TimeElapsedProcess now (s\<lparr>tms_managers := ms\<rparr>) }"

definition tms_Close :: "timers \<Rightarrow> timers" where
  "tms_Close s = s\<lparr>tms_managers := Map.empty, tms_slots := []\<rparr>"

section \<open>A round of the periodic timers\<close>

lemma slot_insert_set: "set (slot_insert k t xs) = insert (k, t) (set xs)"
  by (induction k t xs rule: slot_insert.induct) auto

lemma slot_insert_mset: "length (slot_insert k t xs) = Suc (length xs)"
  by (induction k t xs rule: slot_insert.induct) auto

lemma slot_insert_sorted: "sorted (map fst xs) \<Longrightarrow> sorted (map fst (slot_insert k t xs))"
  by (induction k t xs rule: slot_insert.induct) (auto simp: slot_insert_set)

lemma slot_insert_split:
  "sorted (map fst (as @ bs)) \<Longrightarrow> \<forall>x \<in> set as. fst x \<le> k \<Longrightarrow> slot_insert k t (as @ bs) = as @ slot_insert k t bs"
  by (induction as) auto

lemma process_loop_spec:
  assumes "sorted (map fst (due @ rest))" and "\<forall>(k, t) \<in> set due. k \<le> now \<and> 0 < ti_period t \<and> now + ti_period t < 2 ^ 64"
    and "\<forall>(k, t) \<in> set rest. now < k"
  shows "let slots = fold (\<lambda>(k, t). slot_insert (now + ti_period t) t) due rest in
     tms_process_loop now [] (due @ rest) log =
       Some (if slots = [] then 1000 else u32 (fst (hd slots) - now), slots, log @ map (\<lambda>(k, t). (ti_id t, now)) due) \<and>
     sorted (map fst slots) \<and> (\<forall>(k, t) \<in> set slots. now < k)"
  using assms
proof (induction due arbitrary: rest log)
  case Nil
  then show ?case
    by (cases rest) (auto simp: tms_process_loop.simps)
next
  case (Cons e due)
  obtain k t where e: "e = (k, t)"
    by (cases e)
  let ?k = "now + ti_period t"
  have k: "k \<le> now" "0 < ti_period t" "u64 ?k = ?k" "\<not> ?k < k"
    using Cons.prems(2) by (auto simp: e u64_small)
  have "slot_insert ?k t (due @ rest) = due @ slot_insert ?k t rest"
    using Cons.prems(1,2) by (intro slot_insert_split) (auto simp: e)
  then have step: "tms_process_loop now [] (e # due @ rest) log =
      tms_process_loop now [] (due @ slot_insert ?k t rest) (log @ [(ti_id t, now)])"
    using k by (subst tms_process_loop.simps) (simp add: e Let_def)
  have "sorted (map fst (due @ slot_insert ?k t rest))"
    using Cons.prems k by (auto simp: e sorted_append slot_insert_set slot_insert_sorted)
  moreover have "\<forall>(k, t) \<in> set (slot_insert ?k t rest). now < k"
    using Cons.prems(3) k by (auto simp: slot_insert_set)
  ultimately show ?case
    using Cons.IH [of "slot_insert ?k t rest" "log @ [(ti_id t, now)]"] Cons.prems(2) step
    by (simp add: e Let_def)
qed

lemma sorted_due_split:
  "sorted (map fst xs) \<Longrightarrow> xs = filter (\<lambda>(k, t). k \<le> now) xs @ filter (\<lambda>(k, t). \<not> k \<le> now) xs" for now :: nat
proof (induction xs)
  case (Cons x xs)
  show ?case
  proof (cases "fst x \<le> now")
    case False
    then have "\<forall>y \<in> set xs. \<not> fst y \<le> now"
      using Cons.prems by fastforce
    then show ?thesis
      using False by (auto simp: filter_empty_conv filter_id_conv split_beta)
  qed (use Cons in \<open>simp add: split_beta\<close>)
qed simp

text \<open>
  When every due timer has a positive period, a round of the periodic timers ends. It runs \<open>Process\<close> of every due timer
  exactly once, in the order of their times, puts each back one period after now, and leaves the
  others where they were; the result is the time until the next timer (modulo \<open>2 ^ 32\<close>), or a second when there is
  none. Afterwards no timer is due and the slots are in order again.
\<close>
theorem TimersManager_round:
  assumes "sorted (map fst (tms_slots s))"
    and "\<forall>(k, t) \<in> set (tms_slots s). k \<le> now \<longrightarrow> 0 < ti_period t \<and> now + ti_period t < 2 ^ 64"
  shows "\<exists>wait s'. tms_TimeElapsedProcess now s = Some (wait, s') \<and>
     tms_log s' = tms_log s @ map (\<lambda>(k, t). (ti_id t, now)) (filter (\<lambda>(k, t). k \<le> now) (tms_slots s)) \<and>
     tms_slots s' = fold (\<lambda>(k, t). slot_insert (now + ti_period t) t) (filter (\<lambda>(k, t). k \<le> now) (tms_slots s))
       (filter (\<lambda>(k, t). \<not> k \<le> now) (tms_slots s)) \<and>
     wait = (if tms_slots s' = [] then 1000 else u32 (fst (hd (tms_slots s')) - now)) \<and>
     sorted (map fst (tms_slots s')) \<and> (\<forall>(k, t) \<in> set (tms_slots s'). now < k)"
proof -
  let ?due = "filter (\<lambda>(k, t). k \<le> now) (tms_slots s)" and ?rest = "filter (\<lambda>(k, t). \<not> k \<le> now) (tms_slots s)"
  have eq: "tms_slots s = ?due @ ?rest"
    by (rule sorted_due_split) (rule assms(1))
  then have "sorted (map fst (?due @ ?rest))"
    using assms(1) by metis
  moreover have "\<forall>(k, t) \<in> set ?due. k \<le> now \<and> 0 < ti_period t \<and> now + ti_period t < 2 ^ 64"
    using assms(2) by auto
  moreover have "\<forall>(k, t) \<in> set ?rest. now < k"
    by auto
  ultimately show ?thesis
    using process_loop_spec [of ?due ?rest now "tms_log s"] eq
    by (simp add: tms_TimeElapsedProcess_def Let_def del: fold_filter) 
qed

definition tms_demo :: timers where
  "tms_demo = tms_new\<lparr>tms_slots := [(5, \<lparr>ti_id = 1, ti_period = 100\<rparr>), (7, \<lparr>ti_id = 2, ti_period = 10\<rparr>), (60, \<lparr>ti_id = 3, ti_period = 1\<rparr>)]\<rparr>"

lemma TimersManager_round_witness:
  "\<exists>wait s'. tms_TimeElapsedProcess 50 tms_demo = Some (wait, s') \<and> tms_log s' = [(1, 50), (2, 50)] \<and>
     map (\<lambda>(k, t). (k, ti_id t)) (tms_slots s') = [(60, 3), (60, 2), (150, 1)] \<and> wait = 10"
  using TimersManager_round [of tms_demo 50] by (auto simp: tms_demo_def tms_new_def u32_def)

text \<open>
  A due timer with period 0 is put back as due: a round that meets one never returns.
\<close>
theorem TimersManager_period_0_hangs:
  assumes "sorted (map fst (tms_slots s))" and "(k, t) \<in> set (tms_slots s)" and "k \<le> now" and "ti_period t = 0" and "now < 2 ^ 64"
  shows "tms_TimeElapsedProcess now s = None"
proof -
  have never: "\<not> (sorted (map fst suf) \<and> (\<exists>(k, t) \<in> set suf. k \<le> now \<and> ti_period t = 0) \<and> now < 2 ^ 64)"
    if "tms_process_loop now pre suf log = Some r" for pre suf log r
  proof (rule tms_process_loop.raw_induct [OF _ that])
    fix loop now pre suf log r
    assume IH: "\<And>now pre suf log r. loop now pre suf log = Some r \<Longrightarrow>
        \<not> (sorted (map fst suf) \<and> (\<exists>(k, t) \<in> set suf. k \<le> now \<and> ti_period t = 0) \<and> now < 2 ^ 64)"
      and body: "(case suf of [] \<Rightarrow> Some (1000, pre, log)
        | (k, t) # suf' \<Rightarrow>
            if now \<ge> k then
              let k' = u64 (now + ti_period t); log' = log @ [(ti_id t, now)] in
              (if k' < k then loop now (slot_insert k' t pre) suf' log'
               else loop now pre (slot_insert k' t suf') log')
            else Some (u32 (k - now), pre @ suf, log)) = Some (r :: nat \<times> (nat \<times> timer) list \<times> (nat \<times> nat) list)"
    show "\<not> (sorted (map fst suf) \<and> (\<exists>(k, t) \<in> set suf. k \<le> now \<and> ti_period t = 0) \<and> now < 2 ^ 64)"
    proof
      assume bad: "sorted (map fst suf) \<and> (\<exists>(k, t) \<in> set suf. k \<le> now \<and> ti_period t = 0) \<and> now < 2 ^ 64"
      then obtain k t suf' where suf: "suf = (k, t) # suf'"
        by (cases suf) auto
      let ?k = "u64 (now + ti_period t)"
      have due: "k \<le> now"
        using bad suf by fastforce
      show False
      proof (cases "?k < k")
        case True
        then have "ti_period t \<noteq> 0"
          using due bad by (intro notI) (simp add: u64_small)
        moreover have "loop now (slot_insert ?k t pre) suf' (log @ [(ti_id t, now)]) = Some r"
          using body suf due True by (simp add: Let_def)
        moreover have "sorted (map fst suf')"
          using bad suf by simp
        moreover have "\<exists>(k, t) \<in> set suf'. k \<le> now \<and> ti_period t = 0"
          using bad suf calculation(1) by auto
        ultimately show ?thesis
          using IH bad by blast
      next
        case False
        then have "loop now pre (slot_insert ?k t suf') (log @ [(ti_id t, now)]) = Some r"
          using body suf due by (simp add: Let_def)
        moreover have "\<exists>(k, t) \<in> set (slot_insert ?k t suf'). k \<le> now \<and> ti_period t = 0"
          using bad suf by (cases "ti_period t = 0") (auto simp: slot_insert_set u64_small)
        moreover have "sorted (map fst (slot_insert ?k t suf'))"
          using bad suf by (intro slot_insert_sorted) simp
        ultimately show ?thesis
          using IH bad by blast
      qed
    qed
  qed
  have "tms_process_loop now [] (tms_slots s) (tms_log s) = None"
    using assms never by (cases "tms_process_loop now [] (tms_slots s) (tms_log s)") fastforce+
  then show ?thesis
    by (simp add: tms_TimeElapsedProcess_def)
qed

lemma TimersManager_period_0_hangs_witness:
  "tms_TimeElapsedProcess 50 (snd (tms_AddTimerEvent 50 0 tms_demo)) = None"
  by (rule TimersManager_period_0_hangs [of _ 50 "\<lparr>ti_id = 1, ti_period = 0\<rparr>"])
    (simp_all add: tms_AddTimerEvent_def tms_demo_def tms_new_def u32_def)

end
