(* ===== verification/WorkerApi.thy ===== *)
theory WorkerApi
  imports WorkerEx Timers Folders
begin

text \<open>
  What the extension of a worker offers to the application beside connections (\<open>src/eventdrive/baseworkerex.cpp\<close>): its timers and time-outs,
  which the worker hands on to its timer manager (\<open>include/eventdrive/networker.h\<close>), the walk over the connections, named
  pipes, and the texts for the kinds of handlers and the states of a connection.
\<close>

section \<open>The timers of a worker\<close>

text \<open>\<open>wt_net\<close> is the number of \<open>net_timeout_manager_\<close>, the first that the constructor adds.\<close>

record worker_timers =
  wt_timers :: timers
  wt_net :: nat

definition worker_timers_new :: "nat \<Rightarrow> worker_timers" where
  "worker_timers_new timeout =
     (case tms_AddTimeoutManager (tm_new timeout) tms_new of (i, s) \<Rightarrow> \<lparr>wt_timers = s, wt_net = i\<rparr>)"

definition worker_AddTimeoutManager :: "tmgr \<Rightarrow> worker_timers \<Rightarrow> worker_timers" where
  "worker_AddTimeoutManager m w = w\<lparr>wt_timers := snd (tms_AddTimeoutManager m (wt_timers w))\<rparr>"

definition worker_RemoveTimeoutManager :: "nat \<Rightarrow> worker_timers \<Rightarrow> worker_timers" where
  "worker_RemoveTimeoutManager i w = w\<lparr>wt_timers := tms_RemoveTimeoutManager i (wt_timers w)\<rparr>"

definition worker_AddTimerEvent :: "nat \<Rightarrow> nat \<Rightarrow> worker_timers \<Rightarrow> worker_timers" where
  "worker_AddTimerEvent now period w = w\<lparr>wt_timers := snd (tms_AddTimerEvent now period (wt_timers w))\<rparr>"

definition worker_RemoveTimerEvent :: "nat \<Rightarrow> worker_timers \<Rightarrow> worker_timers" where
  "worker_RemoveTimerEvent i w = w\<lparr>wt_timers := tms_RemoveTimerEvent i (wt_timers w)\<rparr>"

text \<open>\<^term>\<open>None\<close> where \<open>net_timeout_manager_\<close> has been deleted.\<close>

definition on_net_manager :: "(tmgr \<Rightarrow> tmgr option) \<Rightarrow> worker_timers \<Rightarrow> worker_timers option" where
  "on_net_manager f w =
     do { m \<leftarrow> tms_managers (wt_timers w) (wt_net w);
          m \<leftarrow> f m;
          Some (w\<lparr>wt_timers := (wt_timers w)\<lparr>tms_managers := (tms_managers (wt_timers w))(wt_net w \<mapsto> m)\<rparr>\<rparr>) }"

definition worker_AddNetTimeoutEvent :: "nat \<Rightarrow> worker_timers \<Rightarrow> worker_timers option" where
  "worker_AddNetTimeoutEvent d w = on_net_manager (tm_AddTimeoutEvent d) w"

definition worker_RemoveNetTimeoutEvent :: "nat \<Rightarrow> worker_timers \<Rightarrow> worker_timers option" where
  "worker_RemoveNetTimeoutEvent d w = on_net_manager (tm_RemoveTimeoutEvent d) w"

definition worker_GetNextProcess :: "nat option \<Rightarrow> worker_timers \<Rightarrow> nat option option" where
  "worker_GetNextProcess p w = do { m \<leftarrow> tms_managers (wt_timers w) (wt_net w); tm_GetNextTimeoutEvent p m }"

text \<open>An extension that no worker has taken yet refuses; \<^term>\<open>None\<close> is undefined.\<close>

definition on_worker :: "('w \<Rightarrow> 'w option) \<Rightarrow> 'w option \<Rightarrow> (bool \<times> 'w option) option" where
  "on_worker f w = (case w of None \<Rightarrow> Some (False, None) | Some w \<Rightarrow> map_option (\<lambda>w. (True, Some w)) (f w))"

definition ex_AddTimeoutManager :: "tmgr \<Rightarrow> worker_timers option \<Rightarrow> (bool \<times> worker_timers option) option" where
  "ex_AddTimeoutManager m = on_worker (\<lambda>w. Some (worker_AddTimeoutManager m w))"

definition ex_RemoveTimeoutManager :: "nat \<Rightarrow> worker_timers option \<Rightarrow> (bool \<times> worker_timers option) option" where
  "ex_RemoveTimeoutManager i = on_worker (\<lambda>w. Some (worker_RemoveTimeoutManager i w))"

definition ex_AddTimerEvent :: "nat \<Rightarrow> nat \<Rightarrow> worker_timers option \<Rightarrow> (bool \<times> worker_timers option) option" where
  "ex_AddTimerEvent now period = on_worker (\<lambda>w. Some (worker_AddTimerEvent now period w))"

definition ex_RemoveTimerEvent :: "nat \<Rightarrow> worker_timers option \<Rightarrow> (bool \<times> worker_timers option) option" where
  "ex_RemoveTimerEvent i = on_worker (\<lambda>w. Some (worker_RemoveTimerEvent i w))"

definition ex_AddNetTimeoutEvent :: "nat \<Rightarrow> worker_timers option \<Rightarrow> (bool \<times> worker_timers option) option" where
  "ex_AddNetTimeoutEvent d = on_worker (worker_AddNetTimeoutEvent d)"

definition ex_RemoveNetTimeoutEvent :: "nat \<Rightarrow> worker_timers option \<Rightarrow> (bool \<times> worker_timers option) option" where
  "ex_RemoveNetTimeoutEvent d = on_worker (worker_RemoveNetTimeoutEvent d)"

definition ex_GetNextProcess :: "nat option \<Rightarrow> worker_timers option \<Rightarrow> nat option option" where
  "ex_GetNextProcess p w = (case w of None \<Rightarrow> Some None | Some w \<Rightarrow> worker_GetNextProcess p w)"

text \<open>After \<open>Close\<close> of the timer manager the worker's own pointer dangles.\<close>

lemma closed_net_manager: "on_net_manager f (w\<lparr>wt_timers := tms_Close (wt_timers w)\<rparr>) = None"
  by (simp add: on_net_manager_def tms_Close_def)

section \<open>Walking over the connections\<close>

text \<open>The calls of \<open>GetNextProcess\<close> with the result of the last one, from the null pointer to the null pointer, at most \<open>k\<close> of them.\<close>

fun next_processes :: "nat \<Rightarrow> nat option \<Rightarrow> worker_timers \<Rightarrow> nat list option" where
  "next_processes 0 p w = Some []"
| "next_processes (Suc k) p w =
     do { q \<leftarrow> ex_GetNextProcess p (Some w);
          case q of None \<Rightarrow> Some [] | Some d \<Rightarrow> map_option ((#) d) (next_processes k (Some d) w) }"

lemma next_processes_from:
  assumes "tms_managers (wt_timers w) (wt_net w) = Some m" and "dseg (tm_heap m) p (x # xs) None" and "length xs < k"
  shows "next_processes k (Some x) w = Some xs"
  using assms(2,3)
proof (induction xs arbitrary: p x k)
  case Nil
  then show ?case
    using assms(1) by (cases k)
      (auto simp: ex_GetNextProcess_def worker_GetNextProcess_def tm_GetNextTimeoutEvent_def first_or_def split: option.splits)
next
  case (Cons y ys)
  obtain j where j: "k = Suc j" "length ys < j"
    using Cons.prems(2) by (cases k) auto
  have "next_processes j (Some y) w = Some ys"
    using Cons.IH [of "Some x" y j] Cons.prems(1) j(2) by simp
  then show ?case
    using Cons.prems(1) assms(1)
    by (auto simp: j(1) ex_GetNextProcess_def worker_GetNextProcess_def tm_GetNextTimeoutEvent_def first_or_def split: option.splits)
qed

text \<open>The walk visits every process that waits for a time-out, in the order of the list, and ends.\<close>

lemma next_processes_all:
  assumes "tms_managers (wt_timers w) (wt_net w) = Some m" and "tm_holds m xs" and "length xs < k"
  shows "next_processes k None w = Some xs"
proof -
  have D: "dseg (tm_heap m) None xs None" "tm_head m = first_or xs None"
    using assms(2) by (auto simp: tm_holds_def bl_holds_def tm_list_def bi_links_def)
  obtain j where k: "k = Suc j"
    using assms(3) by (cases k) auto
  show ?thesis
  proof (cases xs)
    case Nil
    then show ?thesis
      using D(2) assms(1) by (simp add: k ex_GetNextProcess_def worker_GetNextProcess_def tm_GetNextTimeoutEvent_def first_or_def)
  next
    case (Cons y ys)
    then show ?thesis
      using D assms(1,3) next_processes_from [OF assms(1), of None y ys j]
      by (simp add: k ex_GetNextProcess_def worker_GetNextProcess_def tm_GetNextTimeoutEvent_def first_or_def)
  qed
qed

section \<open>Named pipes\<close>

text \<open>An old file of the name is deleted, whether that succeeds or not; the pipe is an entry that is no folder.\<close>

definition CreatePipe :: "(path \<Rightarrow> bool) \<Rightarrow> path \<Rightarrow> fsys \<Rightarrow> bool \<times> fsys" where
  "CreatePipe ok p fs =
     (let fs = (if fileExists fs p then snd (deleteFile ok p fs) else fs) in
      case parent_place fs p of
        None \<Rightarrow> (False, fs)
      | Some q \<Rightarrow>
          if entry_at fs (butlast q) = Some EFolder \<and> entry_at fs q = None \<and> ok q then (True, fs @ [(q, EFile)])
          else (False, fs))"

text \<open>A link to nothing does not count as a file and is not deleted, so the pipe cannot be created.\<close>

lemma dangling_link_blocks_pipe:
  assumes "\<not> fileExists fs p" and "parent_place fs p = Some q" and "entry_at fs q = Some (ELink t)"
  shows "CreatePipe ok p fs = (False, fs)"
  using assms by (simp add: CreatePipe_def)

section \<open>Texts for the log\<close>

text \<open>The position in the enumeration.\<close>

fun io_type_value :: "io_type \<Rightarrow> nat" where
  "io_type_value IOHT_TCP_ACCEPTOR = 0"
| "io_type_value IOHT_TCP_CONNECTOR = 1"
| "io_type_value IOHT_TCP_CARRIER = 2"
| "io_type_value IOHT_UDP_CARRIER = 3"
| "io_type_value IOHT_UNIX_ACCEPTOR = 4"
| "io_type_value IOHT_UNIX_CONNECTOR = 5"
| "io_type_value IOHT_UNIX_CARRIER = 6"
| "io_type_value IOHT_PIPE_CARRIER = 7"
| "io_type_value IOHT_THREAD_CARRIER = 8"

text \<open>Only four kinds have a name, the others are printed as a number.\<close>

definition IOHTToString :: "io_type \<Rightarrow> string" where
  "IOHTToString t =
     (case t of
        IOHT_TCP_ACCEPTOR \<Rightarrow> ''IOHT_ACCEPTOR''
      | IOHT_TCP_CARRIER \<Rightarrow> ''IOHT_TCP_CARRIER''
      | IOHT_UDP_CARRIER \<Rightarrow> ''IOHT_UDP_CARRIER''
      | IOHT_TCP_CONNECTOR \<Rightarrow> ''IOHT_TCP_CONNECTOR''
      | _ \<Rightarrow> ''#unknown: '' @ dec_digits (io_type_value t) @ ''#'')"

lemma IOHTToString_inject: "IOHTToString t = IOHTToString t' \<longleftrightarrow> t = t'"
  by (cases t; cases t'; simp add: IOHTToString_def dec_digits_inject)

fun ProcessNetStatusString :: "net_status \<Rightarrow> string" where
  "ProcessNetStatusString PROCESS_NET_STATUS_DISCONNECT = ''disconnect''"
| "ProcessNetStatusString PROCESS_NET_STATUS_CONNECTING = ''connecting''"
| "ProcessNetStatusString PROCESS_NET_STATUS_CONNECTED = ''connected''"
| "ProcessNetStatusString PROCESS_NET_STATUS_PEER_RESET = ''peer reset''"
| "ProcessNetStatusString PROCESS_NET_STATUS_SYS_ERROR = ''error of system''"
| "ProcessNetStatusString PROCESS_NET_STATUS_TIMEOUT = ''peer timeout''"

text \<open>\<open>strerror\<close> is the text of the system for an error number, up to its \<open>NUL\<close>.\<close>

definition GetNetStatusStr :: "(nat \<Rightarrow> string) \<Rightarrow> bproc \<Rightarrow> string" where
  "GetNetStatusStr strerror b =
     (if bp_status b = PROCESS_NET_STATUS_SYS_ERROR
      then ProcessNetStatusString PROCESS_NET_STATUS_SYS_ERROR @ '': '' @ strerror (bp_errno b) @ ''('' @
           dec_int (int (bp_errno b)) @ '')''
      else ProcessNetStatusString (bp_status b))"

text \<open>The text tells the status, whatever the system's texts are.\<close>

lemma GetNetStatusStr_status:
  assumes "GetNetStatusStr strerror b = GetNetStatusStr strerror' b'"
  shows "bp_status b = bp_status b'"
  using assms by (cases "bp_status b"; cases "bp_status b'"; simp add: GetNetStatusStr_def)

end
