(* ===== verification/FileStream.thy ===== *)
theory FileStream
  imports Platform
begin

text \<open>
  \<open>GSDMFile\<close> of \<open>src/utils/file.cpp\<close>: binary files through \<open>std::fstream\<close>.

  The stream is modelled as far as the class uses it, by the rules of C++11: one position for reading and writing, a
  fail state (\<open>failbit\<close> or \<open>badbit\<close>), \<open>eofbit\<close>, and a device that may refuse what is written; an input operation on a stream that is not good fails,
  a short read sets both bits, and \<open>seekg\<close> clears \<open>eofbit\<close> first. Integers are stored as the
  machine stores them, lowest byte first. Sizes and counts below \<open>2 ^ 63\<close> are meant. A result
  \<^term>\<open>None\<close> means that \<open>size_\<close> was read before \<open>Initialize\<close> set it.
\<close>

section \<open>The stream\<close>

text \<open>
  What the device below a file does: how many bytes of a write it takes, given the contents, the position and the bytes (all of
  them, or fewer when it is full or fails, which sets \<open>badbit\<close>), and whether a flush succeeds.
\<close>

record device =
  dv_write :: "byte list \<Rightarrow> nat \<Rightarrow> byte list \<Rightarrow> nat"
  dv_sync :: "byte list \<Rightarrow> bool"

definition dv_whole :: device where
  "dv_whole = \<lparr>dv_write = (\<lambda>_ _ bs. length bs), dv_sync = (\<lambda>_. True)\<rparr>"

definition takes_all :: "device \<Rightarrow> bool" where
  "takes_all dev \<longleftrightarrow> (\<forall>contents p bs. length bs \<le> dv_write dev contents p bs)"

lemma takes_all_whole [simp]: "takes_all dv_whole"
  by (simp add: takes_all_def dv_whole_def)

record fstream =
  fs_open :: bool
  fs_data :: "byte list"
  fs_pos :: nat
  fs_fail :: bool
  fs_eof :: bool
  fs_out :: bool
  fs_app :: bool
  fs_device :: device

definition fs_closed :: fstream where
  "fs_closed = \<lparr>fs_open = False, fs_data = [], fs_pos = 0, fs_fail = False, fs_eof = False, fs_out = False, fs_app = False,
     fs_device = dv_whole\<rparr>"

definition fs_good :: "fstream \<Rightarrow> bool" where
  "fs_good f \<longleftrightarrow> \<not> fs_fail f \<and> \<not> fs_eof f"

definition fs_rest :: "fstream \<Rightarrow> byte list" where
  "fs_rest f = (if fs_open f then drop (fs_pos f) (fs_data f) else [])"

definition fs_read :: "nat \<Rightarrow> fstream \<Rightarrow> byte list \<times> fstream" where
  "fs_read n f =
     (if \<not> fs_good f then ([], f\<lparr>fs_fail := True\<rparr>)
      else let d = take n (fs_rest f); short = (length d < n)
           in (d, f\<lparr>fs_pos := fs_pos f + length d, fs_fail := short, fs_eof := short\<rparr>))"

definition fs_getline :: "nat \<Rightarrow> fstream \<Rightarrow> byte list \<times> fstream" where
  "fs_getline n f =
     (if \<not> fs_good f then (if 0 < n then [0] else [], f\<lparr>fs_fail := True\<rparr>)
      else let d = take (n - 1) (takeWhile (\<lambda>b. b \<noteq> 0x0A) (fs_rest f)); after = drop (length d) (fs_rest f);
               newline = (after \<noteq> [] \<and> hd after = 0x0A); count = length d + (if newline then 1 else 0)
           in (if 0 < n then d @ [0] else [],
               f\<lparr>fs_pos := fs_pos f + count, fs_eof := (after = []),
                 fs_fail := (count = 0 \<or> (after \<noteq> [] \<and> \<not> newline))\<rparr>))"

definition fs_seek :: "int \<Rightarrow> fstream \<Rightarrow> fstream" where
  "fs_seek p f =
     (let f = f\<lparr>fs_eof := False\<rparr> in
      if fs_fail f then f
      else if \<not> fs_open f \<or> p < 0 then f\<lparr>fs_fail := True\<rparr>
      else f\<lparr>fs_pos := nat p\<rparr>)"

definition fs_tell :: "fstream \<Rightarrow> int \<times> fstream" where
  "fs_tell f =
     (let f = (if fs_good f then f else f\<lparr>fs_fail := True\<rparr>)
      in (if fs_fail f \<or> \<not> fs_open f then -1 else int (fs_pos f), f))"

definition fs_write :: "byte list \<Rightarrow> fstream \<Rightarrow> fstream" where
  "fs_write bs f =
     (if \<not> fs_good f \<or> \<not> fs_open f \<or> \<not> fs_out f then f\<lparr>fs_fail := True\<rparr>
      else let p = (if fs_app f then length (fs_data f) else fs_pos f);
               d = fs_data f @ replicate (p - length (fs_data f)) 0;
               k = min (length bs) (dv_write (fs_device f) (fs_data f) p bs)
           in f\<lparr>fs_data := (if k = 0 then fs_data f else take p d @ take k bs @ drop (p + k) d), fs_pos := p + k,
                fs_fail := k < length bs\<rparr>)"

definition fs_flush :: "fstream \<Rightarrow> fstream" where
  "fs_flush f =
     (if fs_good f \<and> fs_open f \<and> \<not> dv_sync (fs_device f) (fs_data f) then f\<lparr>fs_fail := True\<rparr> else f)"

definition fs_close :: "fstream \<Rightarrow> fstream" where
  "fs_close f = (if fs_open f then f\<lparr>fs_open := False\<rparr> else f\<lparr>fs_fail := True\<rparr>)"

section \<open>Opening, positions\<close>

datatype file_mode = GSDM_FILE_OPEN_MODE_READ | GSDM_FILE_OPEN_MODE_TRUNCATE | GSDM_FILE_OPEN_MODE_APPEND

record gsdm_file =
  gf_stream :: fstream
  gf_size :: "nat option"
  gf_path :: string

definition gf_new :: gsdm_file where
  "gf_new = \<lparr>gf_stream = fs_closed, gf_size = None, gf_path = []\<rparr>"

text \<open>
  \<open>disk\<close> gives the contents of the existing files, \<open>may_open\<close> the permission of the system to open one.
\<close>

definition fs_do_open ::
    "device \<Rightarrow> (string \<rightharpoonup> byte list) \<Rightarrow> (string \<Rightarrow> bool) \<Rightarrow> string \<Rightarrow> bool \<Rightarrow> bool \<Rightarrow> bool \<Rightarrow> fstream \<Rightarrow> fstream" where
  "fs_do_open dev disk may_open path out trunc app f =
     (if fs_open f \<or> \<not> may_open path \<or> (disk path = None \<and> \<not> trunc) then f\<lparr>fs_fail := True\<rparr>
      else \<lparr>fs_open = True, fs_data = (if trunc then [] else the (disk path)), fs_pos = 0,
            fs_fail = False, fs_eof = False, fs_out = out, fs_app = app, fs_device = dev\<rparr>)"

definition gf_with :: "fstream \<Rightarrow> gsdm_file \<Rightarrow> bool \<times> gsdm_file" where
  "gf_with f g = (\<not> fs_fail f, g\<lparr>gf_stream := f\<rparr>)"

definition gf_SeekBegin :: "gsdm_file \<Rightarrow> bool \<times> gsdm_file" where
  "gf_SeekBegin g = gf_with (fs_seek 0 (gf_stream g)) g"

definition gf_SeekEnd :: "gsdm_file \<Rightarrow> bool \<times> gsdm_file" where
  "gf_SeekEnd g = gf_with (fs_seek (int (length (fs_data (gf_stream g)))) (gf_stream g)) g"

definition gf_Cursor :: "gsdm_file \<Rightarrow> nat \<times> gsdm_file" where
  "gf_Cursor g = (case fs_tell (gf_stream g) of (p, f) \<Rightarrow> (nat (p mod 2 ^ 64), g\<lparr>gf_stream := f\<rparr>))"

definition gf_Initialize ::
    "device \<Rightarrow> (string \<rightharpoonup> byte list) \<Rightarrow> (string \<Rightarrow> bool) \<Rightarrow> string \<Rightarrow> file_mode \<Rightarrow> gsdm_file \<Rightarrow> bool \<times> gsdm_file" where
  "gf_Initialize dev disk may_open path mode g0 =
     (let g = g0\<lparr>gf_path := path\<rparr>;
          f = (case mode of
                 GSDM_FILE_OPEN_MODE_READ \<Rightarrow> fs_do_open dev disk may_open path False False False (gf_stream g)
               | GSDM_FILE_OPEN_MODE_TRUNCATE \<Rightarrow> fs_do_open dev disk may_open path True True False (gf_stream g)
               | GSDM_FILE_OPEN_MODE_APPEND \<Rightarrow>
                   if disk path \<noteq> None then fs_do_open dev disk may_open path True False True (gf_stream g)
                   else fs_do_open dev disk may_open path True True False (gf_stream g));
          g = g\<lparr>gf_stream := f\<rparr>
      in if fs_fail f then (False, g)
         else (case gf_SeekEnd g of
             (False, g) \<Rightarrow> (False, g)
           | (True, g) \<Rightarrow>
               (case gf_Cursor g of (sz, g) \<Rightarrow> gf_SeekBegin (g\<lparr>gf_size := Some sz\<rparr>))))"

text \<open>Opened for reading the file is never written, so any device will do.\<close>

definition gf_Initialize_read ::
    "(string \<rightharpoonup> byte list) \<Rightarrow> (string \<Rightarrow> bool) \<Rightarrow> string \<Rightarrow> gsdm_file \<Rightarrow> bool \<times> gsdm_file" where
  "gf_Initialize_read disk may_open path g = gf_Initialize dv_whole disk may_open path GSDM_FILE_OPEN_MODE_READ g"

definition gf_Close :: "gsdm_file \<Rightarrow> gsdm_file" where
  "gf_Close g = g\<lparr>gf_stream := fs_close (gf_stream g)\<rparr>"

definition gf_Size :: "gsdm_file \<Rightarrow> nat option" where
  "gf_Size g = gf_size g"

definition gf_IsEOF :: "gsdm_file \<Rightarrow> bool" where
  "gf_IsEOF g = fs_eof (gf_stream g)"

definition gf_GetPath :: "gsdm_file \<Rightarrow> string" where
  "gf_GetPath g = gf_path g"

definition gf_Failed :: "gsdm_file \<Rightarrow> bool" where
  "gf_Failed g = fs_fail (gf_stream g)"

definition gf_IsOpen :: "gsdm_file \<Rightarrow> bool" where
  "gf_IsOpen g = fs_open (gf_stream g)"

definition gf_SeekAhead :: "int \<Rightarrow> gsdm_file \<Rightarrow> (bool \<times> gsdm_file) option" where
  "gf_SeekAhead count g =
     (if count < 0 then Some (False, g)
      else case gf_Cursor g of (cur, g) \<Rightarrow>
        do { sz \<leftarrow> gf_size g;
             if u64 (nat count + cur) > sz then Some (False, g)
             else Some (gf_with (fs_seek (int (fs_pos (gf_stream g)) + count) (gf_stream g)) g) })"

definition gf_SeekBehind :: "int \<Rightarrow> gsdm_file \<Rightarrow> bool \<times> gsdm_file" where
  "gf_SeekBehind count g =
     (if count < 0 then (False, g)
      else case gf_Cursor g of (cur, g) \<Rightarrow>
        if cur < nat count then (False, g)
        else gf_with (fs_seek (int (fs_pos (gf_stream g)) - count) (gf_stream g)) g)"

definition gf_SeekTo :: "nat \<Rightarrow> gsdm_file \<Rightarrow> (bool \<times> gsdm_file) option" where
  "gf_SeekTo position g =
     do { sz \<leftarrow> gf_size g;
          if sz < position then Some (False, g)
          else Some (gf_with (fs_seek (int position) (gf_stream g)) g) }"

section \<open>Reading and writing\<close>

fun le_bytes :: "nat \<Rightarrow> int \<Rightarrow> byte list" where
  "le_bytes 0 v = []"
| "le_bytes (Suc n) v = word_of_int v # le_bytes n (v div 256)"

fun le_uint :: "byte list \<Rightarrow> int" where
  "le_uint [] = 0"
| "le_uint (b # bs) = uint b + 256 * le_uint bs"

definition sext :: "nat \<Rightarrow> int \<Rightarrow> int" where
  "sext n v = (if v < 2 ^ (8 * n - 1) then v else v - 2 ^ (8 * n))"

definition gf_ReadBuffer :: "nat \<Rightarrow> gsdm_file \<Rightarrow> byte list \<times> bool \<times> gsdm_file" where
  "gf_ReadBuffer count g = (case fs_read count (gf_stream g) of (d, f) \<Rightarrow> (d, gf_with f g))"

definition gf_ReadLine :: "nat \<Rightarrow> gsdm_file \<Rightarrow> byte list \<times> bool \<times> gsdm_file" where
  "gf_ReadLine max_size g = (case fs_getline max_size (gf_stream g) of (d, f) \<Rightarrow> (d, gf_with f g))"

definition gf_ReadAll :: "gsdm_file \<Rightarrow> (byte list \<times> bool \<times> gsdm_file) option" where
  "gf_ReadAll g =
     do { sz \<leftarrow> gf_Size g;
          if sz \<ge> 0xffffffff then Some ([], False, g)
          else if sz = 0 then Some ([], True, g)
          else case gf_SeekBegin g of
              (False, g) \<Rightarrow> Some ([], False, g)
            | (True, g) \<Rightarrow>
                (case gf_ReadBuffer sz g of (d, ok, g) \<Rightarrow> Some (if ok then d else [], ok, g)) }"

text \<open>The bytes read land at the front of the variable, which keeps the others when the read is short.\<close>

definition gf_read_int :: "nat \<Rightarrow> int \<Rightarrow> gsdm_file \<Rightarrow> int \<times> bool \<times> gsdm_file" where
  "gf_read_int n old g =
     (case gf_ReadBuffer n g of (d, ok, g) \<Rightarrow> (sext n (le_uint (d @ drop (length d) (le_bytes n old))), ok, g))"

definition gf_ReadI8 :: "int \<Rightarrow> gsdm_file \<Rightarrow> int \<times> bool \<times> gsdm_file" where
  "gf_ReadI8 old g = gf_read_int 1 old g"

definition gf_ReadI16 :: "int \<Rightarrow> gsdm_file \<Rightarrow> int \<times> bool \<times> gsdm_file" where
  "gf_ReadI16 old g = gf_read_int 2 old g"

definition gf_ReadI24 :: "int \<Rightarrow> gsdm_file \<Rightarrow> int \<times> bool \<times> gsdm_file" where
  "gf_ReadI24 old g =
     (case gf_ReadBuffer 3 g of (d, ok, g) \<Rightarrow>
        let value = le_uint (d @ drop (length d) (le_bytes 4 0))
        in (if ok then i32 (value * 2 ^ 8) div 2 ^ 8 else value, ok, g))"

definition gf_ReadI32 :: "int \<Rightarrow> gsdm_file \<Rightarrow> int \<times> bool \<times> gsdm_file" where
  "gf_ReadI32 old g = gf_read_int 4 old g"

definition gf_ReadI64 :: "int \<Rightarrow> gsdm_file \<Rightarrow> int \<times> bool \<times> gsdm_file" where
  "gf_ReadI64 old g = gf_read_int 8 old g"

text \<open>The unsigned variants read into the same memory.\<close>

definition gf_unsigned :: "nat \<Rightarrow> int \<times> bool \<times> gsdm_file \<Rightarrow> int \<times> bool \<times> gsdm_file" where
  "gf_unsigned n r = (case r of (v, ok, g) \<Rightarrow> (v mod 2 ^ (8 * n), ok, g))"

definition gf_ReadUI8 :: "int \<Rightarrow> gsdm_file \<Rightarrow> int \<times> bool \<times> gsdm_file" where
  "gf_ReadUI8 old g = gf_unsigned 1 (gf_ReadI8 old g)"

definition gf_ReadUI16 :: "int \<Rightarrow> gsdm_file \<Rightarrow> int \<times> bool \<times> gsdm_file" where
  "gf_ReadUI16 old g = gf_unsigned 2 (gf_ReadI16 old g)"

definition gf_ReadUI24 :: "int \<Rightarrow> gsdm_file \<Rightarrow> int \<times> bool \<times> gsdm_file" where
  "gf_ReadUI24 old g = gf_unsigned 4 (gf_ReadI24 old g)"

definition gf_ReadUI32 :: "int \<Rightarrow> gsdm_file \<Rightarrow> int \<times> bool \<times> gsdm_file" where
  "gf_ReadUI32 old g = gf_unsigned 4 (gf_ReadI32 old g)"

definition gf_ReadUI64 :: "int \<Rightarrow> gsdm_file \<Rightarrow> int \<times> bool \<times> gsdm_file" where
  "gf_ReadUI64 old g = gf_unsigned 8 (gf_ReadI64 old g)"

definition gf_peek :: "nat \<Rightarrow> 'v \<times> bool \<times> gsdm_file \<Rightarrow> 'v \<times> bool \<times> gsdm_file" where
  "gf_peek n r = (case r of (v, ok, g) \<Rightarrow> if \<not> ok then (v, False, g) else (v, gf_SeekBehind (int n) g))"

definition gf_PeekI8 :: "int \<Rightarrow> gsdm_file \<Rightarrow> int \<times> bool \<times> gsdm_file" where
  "gf_PeekI8 old g = gf_peek 1 (gf_ReadI8 old g)"

definition gf_PeekI16 :: "int \<Rightarrow> gsdm_file \<Rightarrow> int \<times> bool \<times> gsdm_file" where
  "gf_PeekI16 old g = gf_peek 2 (gf_ReadI16 old g)"

definition gf_PeekI24 :: "int \<Rightarrow> gsdm_file \<Rightarrow> int \<times> bool \<times> gsdm_file" where
  "gf_PeekI24 old g = gf_peek 3 (gf_ReadI24 old g)"

definition gf_PeekI32 :: "int \<Rightarrow> gsdm_file \<Rightarrow> int \<times> bool \<times> gsdm_file" where
  "gf_PeekI32 old g = gf_peek 4 (gf_ReadI32 old g)"

definition gf_PeekI64 :: "int \<Rightarrow> gsdm_file \<Rightarrow> int \<times> bool \<times> gsdm_file" where
  "gf_PeekI64 old g = gf_peek 8 (gf_ReadI64 old g)"

definition gf_PeekUI8 :: "int \<Rightarrow> gsdm_file \<Rightarrow> int \<times> bool \<times> gsdm_file" where
  "gf_PeekUI8 old g = gf_unsigned 1 (gf_PeekI8 old g)"

definition gf_PeekUI16 :: "int \<Rightarrow> gsdm_file \<Rightarrow> int \<times> bool \<times> gsdm_file" where
  "gf_PeekUI16 old g = gf_unsigned 2 (gf_PeekI16 old g)"

definition gf_PeekUI24 :: "int \<Rightarrow> gsdm_file \<Rightarrow> int \<times> bool \<times> gsdm_file" where
  "gf_PeekUI24 old g = gf_unsigned 4 (gf_PeekI24 old g)"

definition gf_PeekUI32 :: "int \<Rightarrow> gsdm_file \<Rightarrow> int \<times> bool \<times> gsdm_file" where
  "gf_PeekUI32 old g = gf_unsigned 4 (gf_PeekI32 old g)"

definition gf_PeekUI64 :: "int \<Rightarrow> gsdm_file \<Rightarrow> int \<times> bool \<times> gsdm_file" where
  "gf_PeekUI64 old g = gf_unsigned 8 (gf_PeekI64 old g)"

definition gf_PeekBuffer :: "nat \<Rightarrow> gsdm_file \<Rightarrow> byte list \<times> bool \<times> gsdm_file" where
  "gf_PeekBuffer count g = gf_peek count (gf_ReadBuffer count g)"

definition gf_WriteBuffer :: "byte list \<Rightarrow> gsdm_file \<Rightarrow> bool \<times> gsdm_file" where
  "gf_WriteBuffer bs g = gf_with (fs_write bs (gf_stream g)) g"

definition gf_WriteI8 :: "int \<Rightarrow> gsdm_file \<Rightarrow> bool \<times> gsdm_file" where
  "gf_WriteI8 v g = gf_WriteBuffer (le_bytes 1 v) g"

definition gf_WriteI16 :: "int \<Rightarrow> gsdm_file \<Rightarrow> bool \<times> gsdm_file" where
  "gf_WriteI16 v g = gf_WriteBuffer (le_bytes 2 v) g"

definition gf_WriteI24 :: "int \<Rightarrow> gsdm_file \<Rightarrow> bool \<times> gsdm_file" where
  "gf_WriteI24 v g = gf_WriteBuffer (take 3 (le_bytes 4 v)) g"

definition gf_WriteI32 :: "int \<Rightarrow> gsdm_file \<Rightarrow> bool \<times> gsdm_file" where
  "gf_WriteI32 v g = gf_WriteBuffer (le_bytes 4 v) g"

definition gf_WriteI64 :: "int \<Rightarrow> gsdm_file \<Rightarrow> bool \<times> gsdm_file" where
  "gf_WriteI64 v g = gf_WriteBuffer (le_bytes 8 v) g"

definition gf_WriteUI8 :: "int \<Rightarrow> gsdm_file \<Rightarrow> bool \<times> gsdm_file" where
  "gf_WriteUI8 v g = gf_WriteI8 (sext 1 v) g"

definition gf_WriteUI16 :: "int \<Rightarrow> gsdm_file \<Rightarrow> bool \<times> gsdm_file" where
  "gf_WriteUI16 v g = gf_WriteI16 (sext 2 v) g"

definition gf_WriteUI24 :: "int \<Rightarrow> gsdm_file \<Rightarrow> bool \<times> gsdm_file" where
  "gf_WriteUI24 v g = gf_WriteI24 (sext 4 v) g"

definition gf_WriteUI32 :: "int \<Rightarrow> gsdm_file \<Rightarrow> bool \<times> gsdm_file" where
  "gf_WriteUI32 v g = gf_WriteI32 (sext 4 v) g"

definition gf_WriteUI64 :: "int \<Rightarrow> gsdm_file \<Rightarrow> bool \<times> gsdm_file" where
  "gf_WriteUI64 v g = gf_WriteI64 (sext 8 v) g"

definition gf_WriteString :: "string \<Rightarrow> gsdm_file \<Rightarrow> bool \<times> gsdm_file" where
  "gf_WriteString s g = gf_WriteBuffer (map byte_of s) g"

definition gf_Flush :: "gsdm_file \<Rightarrow> bool \<times> gsdm_file" where
  "gf_Flush g = gf_with (fs_flush (gf_stream g)) g"

section \<open>What is written is read back\<close>

lemma le_bytes_length [simp]: "length (le_bytes n v) = n"
  by (induction n v rule: le_bytes.induct) auto

lemma le_uint_bytes: "le_uint (le_bytes n v) = v mod 256 ^ n"
proof (induction n v rule: le_bytes.induct)
  case (2 n v)
  have "v mod (256 * 256 ^ n) = 256 * (v div 256 mod 256 ^ n) + v mod 256"
    by (rule zmod_zmult2_eq) simp
  then show ?case
    using 2 by (simp add: uint_word_of_int)
qed simp

lemma take_le_bytes: "k \<le> n \<Longrightarrow> take k (le_bytes n v) = le_bytes k v"
  by (induction n v arbitrary: k rule: le_bytes.induct) (auto simp: take_Cons split: nat.splits)

lemma sext_mod:
  assumes "- (2 ^ (8 * n - 1)) \<le> v" and "v < 2 ^ (8 * n - 1)" and "0 < n"
  shows "sext n (v mod 256 ^ n) = v"
proof -
  have M: "(256 :: int) ^ n = 2 ^ (8 * n)" "(2 :: int) ^ (8 * n) = 2 * 2 ^ (8 * n - 1)"
    using assms(3) by (simp_all add: power_mult flip: power_Suc)
  show ?thesis
  proof (cases "0 \<le> v")
    case True
    then have "v mod 256 ^ n = v"
      using assms(2) M by (intro mod_pos_pos_trivial) linarith+
    then show ?thesis
      using assms(2) by (simp add: sext_def)
  next
    case False
    then have "v mod 256 ^ n = v + 256 ^ n"
      using assms(1) M by (intro int_mod_pos_eq [where q = "- 1"]) linarith+
    then show ?thesis
      using assms(1) M by (simp add: sext_def)
  qed
qed

text \<open>The kinds of values of the class, their ranges, and the calls for each.\<close>

datatype fkind = FI8 | FI16 | FI24 | FI32 | FI64 | FUI8 | FUI16 | FUI24 | FUI32 | FUI64

fun fwidth :: "fkind \<Rightarrow> nat" where
  "fwidth FI8 = 1" | "fwidth FI16 = 2" | "fwidth FI24 = 3" | "fwidth FI32 = 4" | "fwidth FI64 = 8"
| "fwidth FUI8 = 1" | "fwidth FUI16 = 2" | "fwidth FUI24 = 3" | "fwidth FUI32 = 4" | "fwidth FUI64 = 8"

definition fsigned :: "fkind \<Rightarrow> bool" where
  "fsigned k \<longleftrightarrow> k \<in> {FI8, FI16, FI24, FI32, FI64}"

definition frange :: "fkind \<Rightarrow> int \<Rightarrow> bool" where
  "frange k v \<longleftrightarrow>
     (if fsigned k then - (2 ^ (8 * fwidth k - 1)) \<le> v \<and> v < 2 ^ (8 * fwidth k - 1) else 0 \<le> v \<and> v < 2 ^ (8 * fwidth k))"

fun gf_read_kind :: "fkind \<Rightarrow> int \<Rightarrow> gsdm_file \<Rightarrow> int \<times> bool \<times> gsdm_file" where
  "gf_read_kind FI8 = gf_ReadI8" | "gf_read_kind FI16 = gf_ReadI16" | "gf_read_kind FI24 = gf_ReadI24"
| "gf_read_kind FI32 = gf_ReadI32" | "gf_read_kind FI64 = gf_ReadI64"
| "gf_read_kind FUI8 = gf_ReadUI8" | "gf_read_kind FUI16 = gf_ReadUI16" | "gf_read_kind FUI24 = gf_ReadUI24"
| "gf_read_kind FUI32 = gf_ReadUI32" | "gf_read_kind FUI64 = gf_ReadUI64"

fun gf_peek_kind :: "fkind \<Rightarrow> int \<Rightarrow> gsdm_file \<Rightarrow> int \<times> bool \<times> gsdm_file" where
  "gf_peek_kind FI8 = gf_PeekI8" | "gf_peek_kind FI16 = gf_PeekI16" | "gf_peek_kind FI24 = gf_PeekI24"
| "gf_peek_kind FI32 = gf_PeekI32" | "gf_peek_kind FI64 = gf_PeekI64"
| "gf_peek_kind FUI8 = gf_PeekUI8" | "gf_peek_kind FUI16 = gf_PeekUI16" | "gf_peek_kind FUI24 = gf_PeekUI24"
| "gf_peek_kind FUI32 = gf_PeekUI32" | "gf_peek_kind FUI64 = gf_PeekUI64"

fun gf_write_kind :: "fkind \<Rightarrow> int \<Rightarrow> gsdm_file \<Rightarrow> bool \<times> gsdm_file" where
  "gf_write_kind FI8 = gf_WriteI8" | "gf_write_kind FI16 = gf_WriteI16" | "gf_write_kind FI24 = gf_WriteI24"
| "gf_write_kind FI32 = gf_WriteI32" | "gf_write_kind FI64 = gf_WriteI64"
| "gf_write_kind FUI8 = gf_WriteUI8" | "gf_write_kind FUI16 = gf_WriteUI16" | "gf_write_kind FUI24 = gf_WriteUI24"
| "gf_write_kind FUI32 = gf_WriteUI32" | "gf_write_kind FUI64 = gf_WriteUI64"

lemmas gf_read_defs = gf_ReadI8_def gf_ReadI16_def gf_ReadI24_def gf_ReadI32_def gf_ReadI64_def gf_ReadUI8_def
  gf_ReadUI16_def gf_ReadUI24_def gf_ReadUI32_def gf_ReadUI64_def gf_read_int_def gf_unsigned_def
lemmas gf_peek_defs = gf_PeekI8_def gf_PeekI16_def gf_PeekI24_def gf_PeekI32_def gf_PeekI64_def gf_PeekUI8_def
  gf_PeekUI16_def gf_PeekUI24_def gf_PeekUI32_def gf_PeekUI64_def gf_peek_def
lemmas gf_write_defs = gf_WriteI8_def gf_WriteI16_def gf_WriteI24_def gf_WriteI32_def gf_WriteI64_def gf_WriteUI8_def
  gf_WriteUI16_def gf_WriteUI24_def gf_WriteUI32_def gf_WriteUI64_def

text \<open>A 24-bit unsigned value comes back with its sign bit spread over the upper byte.\<close>

definition as_read :: "fkind \<Rightarrow> int \<Rightarrow> int" where
  "as_read k v = (if k = FUI24 \<and> 2 ^ 23 \<le> v then v + (2 ^ 32 - 2 ^ 24) else v)"

lemma le_bytes_shift: "le_bytes n (v + 256 ^ n * c) = le_bytes n v"
proof (induction n arbitrary: v)
  case (Suc n)
  have "word_of_int (v + 256 ^ Suc n * c) = (word_of_int v :: byte)"
    by (rule word_of_int_eq_iff [THEN iffD2]) (simp add: take_bit_eq_mod mult.assoc)
  moreover have "(v + 256 ^ Suc n * c) div 256 = v div 256 + 256 ^ n * c"
    by (simp add: mult.assoc)
  ultimately show ?case
    using Suc by simp
qed simp

lemma le_bytes_sext: "0 < n \<Longrightarrow> le_bytes n (sext n v) = le_bytes n v"
  using le_bytes_shift [of n v "- 1"] by (simp add: sext_def power_mult)

lemma le_uint_append: "le_uint (a @ b) = le_uint a + 256 ^ length a * le_uint b"
  by (induction a) (auto simp: algebra_simps)

lemma gf_write_kind_bytes:
  assumes "frange k v"
  shows "gf_write_kind k v g = gf_WriteBuffer (le_bytes (fwidth k) v) g"
proof (cases "k = FUI24")
  case True
  then show ?thesis
    using assms by (simp add: gf_write_defs take_le_bytes frange_def fsigned_def sext_def)
next
  case False
  then show ?thesis
    using le_bytes_sext [of 1 v] by (cases k) (simp_all add: gf_write_defs take_le_bytes le_bytes_sext)
qed

lemma i24_shift:
  assumes "0 \<le> x" and "x < 2 ^ 24"
  shows "i32 (x * 2 ^ 8) div 2 ^ 8 = sext 3 x"
proof (cases "x < 2 ^ 23")
  case True
  then have "i32 (x * 2 ^ 8) = x * 2 ^ 8"
    using assms by (intro i32_small) auto
  then show ?thesis
    using True by (simp add: sext_def)
next
  case False
  then have "(x * 2 ^ 8 + 2 ^ 31) mod 2 ^ 32 = x * 2 ^ 8 + 2 ^ 31 - 2 ^ 32"
    using assms by (intro int_mod_pos_eq [where q = 1]) simp_all
  then have "i32 (x * 2 ^ 8) = (x - 2 ^ 24) * 2 ^ 8"
    by (simp add: i32_def)
  then show ?thesis
    using False by (simp add: sext_def)
qed

lemma sext_unsigned:
  assumes "0 \<le> v" and "v < 2 ^ (8 * n)"
  shows "sext n v mod 2 ^ (8 * n) = v"
proof (cases "v < 2 ^ (8 * n - 1)")
  case True
  then show ?thesis
    using assms by (simp add: sext_def)
next
  case False
  then have "sext n v mod 2 ^ (8 * n) = (v + - 1 * 2 ^ (8 * n)) mod 2 ^ (8 * n)"
    by (simp add: sext_def)
  also have "\<dots> = v mod 2 ^ (8 * n)"
    by (rule mod_mult_self1)
  finally show ?thesis
    using assms by simp
qed

text \<open>The value a read finds where the bytes of a value stand.\<close>

lemma gf_read_kind_int:
  "k \<noteq> FI24 \<Longrightarrow> k \<noteq> FUI24 \<Longrightarrow> gf_read_kind k old g =
     (if fsigned k then gf_read_int (fwidth k) old g else gf_unsigned (fwidth k) (gf_read_int (fwidth k) old g))"
  by (cases k) (simp_all add: gf_read_defs fsigned_def)

lemma gf_read_int_value:
  assumes "fs_read n (gf_stream g) = (le_bytes n v, f)" and "\<not> fs_fail f"
  shows "gf_read_int n old g = (sext n (v mod 256 ^ n), True, g\<lparr>gf_stream := f\<rparr>)"
  using assms by (simp add: gf_read_int_def gf_ReadBuffer_def gf_with_def le_uint_bytes)

lemma gf_ReadI24_value:
  assumes "fs_read 3 (gf_stream g) = (le_bytes 3 v, f)" and "\<not> fs_fail f"
  shows "gf_ReadI24 old g = (sext 3 (v mod 256 ^ 3), True, g\<lparr>gf_stream := f\<rparr>)"
proof -
  have "drop 3 (le_bytes 4 0) = [0]"
    by (simp add: numeral_eq_Suc)
  then have "le_uint (le_bytes 3 v @ drop 3 (le_bytes 4 0)) = v mod 256 ^ 3"
    by (simp only: le_uint_append le_uint_bytes) simp
  moreover have "i32 (v mod 256 ^ 3 * 2 ^ 8) div 2 ^ 8 = sext 3 (v mod 256 ^ 3)"
    by (rule i24_shift) simp_all
  ultimately show ?thesis
    using assms by (simp add: gf_ReadI24_def gf_ReadBuffer_def gf_with_def)
qed

lemma fwidth_pos: "0 < fwidth k"
  by (cases k) simp_all

lemma gf_read_kind_value:
  assumes f: "fs_read (fwidth k) (gf_stream g) = (le_bytes (fwidth k) v, f)" "\<not> fs_fail f" and r: "frange k v"
  shows "gf_read_kind k old g = (as_read k v, True, g\<lparr>gf_stream := f\<rparr>)"
proof -
  have signed: "sext (fwidth k) (v mod 256 ^ fwidth k) = v" if "fsigned k"
    using r that fwidth_pos by (intro sext_mod) (auto simp: frange_def)
  have unsigned: "sext (fwidth k) (v mod 256 ^ fwidth k) mod 2 ^ (8 * fwidth k) = v" if "\<not> fsigned k"
  proof -
    have v: "0 \<le> v" "v < 2 ^ (8 * fwidth k)"
      using r that by (auto simp: frange_def)
    then have "v mod 256 ^ fwidth k = v"
      by (simp add: power_mult)
    then show ?thesis
      using sext_unsigned [OF v] by simp
  qed
  consider "k = FI24" | "k = FUI24" | "k \<noteq> FI24" "k \<noteq> FUI24"
    by blast
  then show ?thesis
  proof cases
    case 1
    then show ?thesis
      using gf_ReadI24_value [of g v f old] f signed by (simp add: fsigned_def as_read_def)
  next
    case 2
    have v: "0 \<le> v" "v < 2 ^ 24"
      using r 2 by (auto simp: frange_def fsigned_def)
    have "(v - 2 ^ 24) mod 2 ^ 32 = v + (2 ^ 32 - 2 ^ 24)"
      by (rule int_mod_pos_eq [where q = "- 1"]) (use v in simp_all)
    then have "sext 3 v mod 2 ^ 32 = as_read k v"
      using v 2 by (auto simp: sext_def as_read_def)
    moreover have "v mod 256 ^ 3 = v"
      using v by simp
    ultimately show ?thesis
      using gf_ReadI24_value [of g v f old] f 2 by (simp add: gf_ReadUI24_def gf_unsigned_def)
  next
    case 3
    then show ?thesis
      using gf_read_kind_int [OF 3] gf_read_int_value [OF f] signed unsigned by (simp add: gf_unsigned_def as_read_def)
  qed
qed

text \<open>Streams that are ready: open and good, at a position inside the file.\<close>

definition fs_ready :: "fstream \<Rightarrow> byte list \<Rightarrow> byte list \<Rightarrow> bool" where
  "fs_ready f pre rest \<longleftrightarrow> fs_open f \<and> fs_good f \<and> fs_data f = pre @ rest \<and> fs_pos f = length pre"

lemma fs_read_ready:
  assumes "fs_ready f pre (bs @ rest)"
  shows "\<exists>f'. fs_read (length bs) f = (bs, f') \<and> fs_ready f' (pre @ bs) rest \<and> \<not> fs_fail f' \<and>
     fs_out f' = fs_out f \<and> fs_app f' = fs_app f"
  using assms by (simp add: fs_ready_def fs_read_def fs_rest_def fs_good_def)

lemma fs_write_end:
  assumes "fs_ready f pre []" and "fs_out f" and "takes_all (fs_device f)"
  shows "fs_ready (fs_write bs f) (pre @ bs) [] \<and> fs_out (fs_write bs f) \<and> fs_app (fs_write bs f) = fs_app f \<and>
     fs_device (fs_write bs f) = fs_device f \<and> \<not> fs_fail (fs_write bs f)"
proof -
  have "min (length bs) (dv_write (fs_device f) pre (length pre) bs) = length bs"
    using assms(3) by (simp add: takes_all_def)
  then show ?thesis
    using assms(1,2) by (simp add: fs_ready_def fs_write_def fs_good_def Let_def)
qed

text \<open>A device that does not take all bytes makes \<open>WriteBuffer\<close> fail, and every write after it.\<close>

lemma gf_WriteBuffer_refused:
  assumes "dv_write (fs_device (gf_stream g)) (fs_data (gf_stream g)) (fs_pos (gf_stream g)) bs < length bs"
    and "\<not> fs_app (gf_stream g)"
  shows "\<exists>g'. gf_WriteBuffer bs g = (False, g') \<and> fst (gf_WriteBuffer bs' g') = False"
  using assms by (simp add: gf_WriteBuffer_def gf_with_def fs_write_def fs_good_def Let_def)

lemma fs_seek_ready:
  assumes "fs_ready f pre rest" and "length new = p" and "new @ rest' = pre @ rest"
  shows "fs_ready (fs_seek (int p) f) new rest' \<and> fs_out (fs_seek (int p) f) = fs_out f \<and> \<not> fs_fail (fs_seek (int p) f)"
  using assms by (simp add: fs_ready_def fs_seek_def fs_good_def)

text \<open>Calls in sequence, as a client makes them: all must succeed.\<close>

fun gf_write_all :: "(fkind \<times> int) list \<Rightarrow> gsdm_file \<Rightarrow> bool \<times> gsdm_file" where
  "gf_write_all [] g = (True, g)"
| "gf_write_all ((k, v) # kvs) g =
     (case gf_write_kind k v g of (ok, g) \<Rightarrow> if ok then gf_write_all kvs g else (False, g))"

fun gf_read_all :: "fkind list \<Rightarrow> gsdm_file \<Rightarrow> int list \<times> bool \<times> gsdm_file" where
  "gf_read_all [] g = ([], True, g)"
| "gf_read_all (k # ks) g =
     (case gf_read_kind k 0 g of (v, ok, g) \<Rightarrow>
        if ok then (case gf_read_all ks g of (vs, r) \<Rightarrow> (v # vs, r)) else ([], False, g))"

definition kvs_bytes :: "(fkind \<times> int) list \<Rightarrow> byte list" where
  "kvs_bytes kvs = concat (map (\<lambda>(k, v). le_bytes (fwidth k) v) kvs)"

lemma gf_write_all_bytes:
  assumes "fs_ready (gf_stream g) pre []" and "fs_out (gf_stream g)" and "list_all (\<lambda>(k, v). frange k v) kvs"
    and "takes_all (fs_device (gf_stream g))"
  shows "\<exists>f. gf_write_all kvs g = (True, g\<lparr>gf_stream := f\<rparr>) \<and> fs_ready f (pre @ kvs_bytes kvs) [] \<and> fs_out f"
  using assms
proof (induction kvs arbitrary: g pre)
  case Nil
  then show ?case
    by (intro exI [of _ "gf_stream g"]) (simp add: kvs_bytes_def)
next
  case (Cons kv kvs)
  obtain k v where kv: "kv = (k, v)"
    by (cases kv)
  let ?f = "fs_write (le_bytes (fwidth k) v) (gf_stream g)"
  have w: "fs_ready ?f (pre @ le_bytes (fwidth k) v) []" "fs_out ?f" "\<not> fs_fail ?f" "takes_all (fs_device ?f)"
    using fs_write_end [OF Cons.prems(1,2,4)] Cons.prems(4) by auto
  have "gf_write_kind k v g = (True, g\<lparr>gf_stream := ?f\<rparr>)"
    using Cons.prems(3) w(3) by (simp add: kv gf_write_kind_bytes gf_WriteBuffer_def gf_with_def)
  moreover obtain f where "gf_write_all kvs (g\<lparr>gf_stream := ?f\<rparr>) = (True, (g\<lparr>gf_stream := ?f\<rparr>)\<lparr>gf_stream := f\<rparr>)"
    "fs_ready f ((pre @ le_bytes (fwidth k) v) @ kvs_bytes kvs) []" "fs_out f"
    using Cons.IH [of "g\<lparr>gf_stream := ?f\<rparr>" "pre @ le_bytes (fwidth k) v"] w Cons.prems(3) by auto
  ultimately show ?case
    by (intro exI [of _ f]) (simp add: kv kvs_bytes_def)
qed

lemma gf_read_all_values:
  assumes "fs_ready (gf_stream g) pre (kvs_bytes kvs @ rest)" and "list_all (\<lambda>(k, v). frange k v) kvs"
  shows "\<exists>f. gf_read_all (map fst kvs) g = (map (\<lambda>(k, v). as_read k v) kvs, True, g\<lparr>gf_stream := f\<rparr>) \<and>
     fs_ready f (pre @ kvs_bytes kvs) rest"
  using assms
proof (induction kvs arbitrary: g pre)
  case Nil
  then show ?case
    by (intro exI [of _ "gf_stream g"]) (simp add: kvs_bytes_def)
next
  case (Cons kv kvs)
  obtain k v where kv: "kv = (k, v)"
    by (cases kv)
  have "fs_ready (gf_stream g) pre (le_bytes (fwidth k) v @ (kvs_bytes kvs @ rest))"
    using Cons.prems(1) by (simp add: kv kvs_bytes_def)
  from fs_read_ready [OF this] obtain f1 where f1: "fs_read (fwidth k) (gf_stream g) = (le_bytes (fwidth k) v, f1)"
    "fs_ready f1 (pre @ le_bytes (fwidth k) v) (kvs_bytes kvs @ rest)" "\<not> fs_fail f1"
    by auto
  have "gf_read_kind k 0 g = (as_read k v, True, g\<lparr>gf_stream := f1\<rparr>)"
    using gf_read_kind_value [OF f1(1,3)] Cons.prems(2) by (simp add: kv)
  moreover obtain f where
    "gf_read_all (map fst kvs) (g\<lparr>gf_stream := f1\<rparr>) =
       (map (\<lambda>(k, v). as_read k v) kvs, True, (g\<lparr>gf_stream := f1\<rparr>)\<lparr>gf_stream := f\<rparr>)"
    "fs_ready f ((pre @ le_bytes (fwidth k) v) @ kvs_bytes kvs) rest"
    using Cons.IH [of "g\<lparr>gf_stream := f1\<rparr>" "pre @ le_bytes (fwidth k) v"] f1 Cons.prems(2) by auto
  ultimately show ?case
    by (intro exI [of _ f]) (simp add: kv kvs_bytes_def)
qed

lemma gf_Initialize_truncate:
  assumes "may_open path" and "\<not> fs_open (gf_stream g)"
  shows "\<exists>g'. gf_Initialize dev disk may_open path GSDM_FILE_OPEN_MODE_TRUNCATE g = (True, g') \<and>
     fs_ready (gf_stream g') [] [] \<and> fs_out (gf_stream g') \<and> gf_size g' = Some 0 \<and> fs_device (gf_stream g') = dev"
  using assms
  by (simp add: gf_Initialize_def fs_do_open_def gf_SeekEnd_def gf_SeekBegin_def gf_Cursor_def gf_with_def fs_seek_def
      fs_tell_def fs_good_def fs_ready_def)

text \<open>
  C36: Values written to a new file and read back from its beginning with the matching calls are the same values, for
  every sequence of the ten integer kinds, each in its range and little-endian in its width, on a device that takes what is
  written. The exception is a 24-bit unsigned value
  with its top bit set: \<open>ReadUI24\<close> reads it through \<open>ReadI24\<close> and spreads that bit over the upper byte.
\<close>
theorem file_values_roundtrip:
  assumes "may_open path" and "\<not> fs_open (gf_stream g)" and "list_all (\<lambda>(k, v). frange k v) kvs"
    and dev: "takes_all dev"
  shows "\<exists>g1 g2 g3 g4. gf_Initialize dev disk may_open path GSDM_FILE_OPEN_MODE_TRUNCATE g = (True, g1) \<and>
     gf_write_all kvs g1 = (True, g2) \<and> gf_SeekBegin g2 = (True, g3) \<and>
     gf_read_all (map fst kvs) g3 = (map (\<lambda>(k, v). as_read k v) kvs, True, g4) \<and>
     fs_data (gf_stream g4) = kvs_bytes kvs"
proof -
  obtain g1 where g1: "gf_Initialize dev disk may_open path GSDM_FILE_OPEN_MODE_TRUNCATE g = (True, g1)"
    "fs_ready (gf_stream g1) [] []" "fs_out (gf_stream g1)" "takes_all (fs_device (gf_stream g1))"
    using gf_Initialize_truncate [where may_open = may_open, OF assms(1,2)] dev by metis
  obtain f2 where f2: "gf_write_all kvs g1 = (True, g1\<lparr>gf_stream := f2\<rparr>)" "fs_ready f2 (kvs_bytes kvs) []"
    using gf_write_all_bytes [OF g1(2,3) assms(3) g1(4)] by auto
  let ?f3 = "fs_seek 0 f2"
  have f3: "fs_ready ?f3 [] (kvs_bytes kvs @ [])" "\<not> fs_fail ?f3"
    using fs_seek_ready [OF f2(2), of "[]" 0 "kvs_bytes kvs"] by auto
  obtain f4 where f4: "gf_read_all (map fst kvs) (g1\<lparr>gf_stream := ?f3\<rparr>) =
      (map (\<lambda>(k, v). as_read k v) kvs, True, g1\<lparr>gf_stream := f4\<rparr>)" "fs_ready f4 (kvs_bytes kvs) []"
    using gf_read_all_values [of "g1\<lparr>gf_stream := ?f3\<rparr>" "[]" kvs "[]"] f3 assms(3) by auto
  show ?thesis
    using g1(1) f2(1) f3(2) f4 by (auto simp: gf_SeekBegin_def gf_with_def fs_ready_def)
qed

lemma file_values_roundtrip_witness:
  "\<exists>g1 g2 g3 g4. gf_Initialize dv_whole Map.empty (\<lambda>_. True) ''f'' GSDM_FILE_OPEN_MODE_TRUNCATE gf_new = (True, g1) \<and>
     gf_write_all [(FI16, -2), (FUI24, 0xABCDEF), (FI64, 5)] g1 = (True, g2) \<and> gf_SeekBegin g2 = (True, g3) \<and>
     gf_read_all (map fst [(FI16, - 2 :: int), (FUI24, 0xABCDEF), (FI64, 5)]) g3 =
       (map (\<lambda>(k, v). as_read k v) [(FI16, -2), (FUI24, 0xABCDEF), (FI64, 5)], True, g4) \<and>
     fs_data (gf_stream g4) = kvs_bytes [(FI16, -2), (FUI24, 0xABCDEF), (FI64, 5)]"
  by (rule file_values_roundtrip) (simp_all add: gf_new_def fs_closed_def frange_def fsigned_def)

text \<open>
  \<open>size_\<close> is set once, by \<open>Initialize\<close>: after any writes to a new file it is still 0, so every \<open>SeekTo\<close> a position
  in the written part is refused and \<open>ReadAll\<close> answers success with no data.
\<close>
theorem file_size_stale:
  assumes "may_open path" and "\<not> fs_open (gf_stream g)" and "list_all (\<lambda>(k, v). frange k v) kvs" and "0 < p"
    and dev: "takes_all dev"
  shows "\<exists>g1 g2. gf_Initialize dev disk may_open path GSDM_FILE_OPEN_MODE_TRUNCATE g = (True, g1) \<and>
     gf_write_all kvs g1 = (True, g2) \<and> fs_data (gf_stream g2) = kvs_bytes kvs \<and>
     gf_Size g2 = Some 0 \<and> gf_SeekTo p g2 = Some (False, g2) \<and> gf_ReadAll g2 = Some ([], True, g2)"
proof -
  obtain g1 where g1: "gf_Initialize dev disk may_open path GSDM_FILE_OPEN_MODE_TRUNCATE g = (True, g1)"
    "fs_ready (gf_stream g1) [] []" "fs_out (gf_stream g1)" "takes_all (fs_device (gf_stream g1))" "gf_size g1 = Some 0"
    using gf_Initialize_truncate [where may_open = may_open, OF assms(1,2)] dev by metis
  obtain f2 where f2: "gf_write_all kvs g1 = (True, g1\<lparr>gf_stream := f2\<rparr>)" "fs_ready f2 (kvs_bytes kvs) []"
    using gf_write_all_bytes [OF g1(2,3) assms(3) g1(4)] by auto
  show ?thesis
    using g1 f2 assms(4)
    by (intro exI [of _ g1] exI [of _ "g1\<lparr>gf_stream := f2\<rparr>"])
      (simp add: gf_Size_def gf_SeekTo_def gf_ReadAll_def fs_ready_def)
qed

lemma file_size_stale_witness:
  "\<exists>g1 g2. gf_Initialize dv_whole Map.empty (\<lambda>_. True) ''f'' GSDM_FILE_OPEN_MODE_TRUNCATE gf_new = (True, g1) \<and>
     gf_write_all [(FI32, 7)] g1 = (True, g2) \<and> fs_data (gf_stream g2) = kvs_bytes [(FI32, 7)] \<and>
     gf_Size g2 = Some 0 \<and> gf_SeekTo 2 g2 = Some (False, g2) \<and> gf_ReadAll g2 = Some ([], True, g2)"
  by (rule file_size_stale) (simp_all add: gf_new_def fs_closed_def frange_def fsigned_def)

end
