(* ===== verification/Config.thy ===== *)
theory Config
  imports FileStream
begin

text \<open>
  \<open>GsdmConfig\<close> of \<open>src/utils/gsdmconfig.cpp\<close>: a file of \<open>key = value\<close> lines read into a map, and the typed
  look-ups. The map is the state; the line buffer of 4096 bytes is the result of \<^term>\<open>gf_ReadLine\<close>, of which the
  code reads the text up to the first \<open>NUL\<close>.
\<close>

type_synonym config_map = "string \<rightharpoonup> string"

text \<open>What the body of the loop does with one line.\<close>

definition config_value :: "string \<Rightarrow> string \<Rightarrow> config_map \<Rightarrow> config_map" where
  "config_value key h m =
     (case str_find h [CHR 0x22] 0 of
        Some q \<Rightarrow>
          (let h = drop (q + 1) h in
           case str_find h [CHR 0x22] 0 of
             None \<Rightarrow> m
           | Some e \<Rightarrow> m(key \<mapsto> take e h))
      | None \<Rightarrow>
          (let h = (case str_find h ''#'' 0 of Some f \<Rightarrow> take f h | None \<Rightarrow> h)
           in m(key \<mapsto> trim h)))"

definition config_line :: "string \<Rightarrow> config_map \<Rightarrow> config_map" where
  "config_line buffer m =
     (case str_find buffer ''='' 0 of
        None \<Rightarrow> m
      | Some p \<Rightarrow>
          (let key = trim (take p buffer) in
           if key = [] \<or> hd key = CHR ''#'' \<or> hd key = LF \<or> hd key = CR then m
           else config_value key (drop (p + 1) buffer) m))"

definition line_text :: "byte list \<Rightarrow> string" where
  "line_text buffer = takeWhile (\<lambda>c. c \<noteq> NUL) (map chr_of buffer)"

lemma getline_progress:
  assumes "fs_getline n f = (d, f')" and "\<not> fs_fail f'"
  shows "length (fs_rest f') < length (fs_rest f)"
proof -
  have good: "fs_good f"
    using assms by (auto simp: fs_getline_def split: if_splits)
  let ?d = "take (n - 1) (takeWhile (\<lambda>b. b \<noteq> 0x0A) (fs_rest f))"
  let ?after = "drop (length ?d) (fs_rest f)"
  let ?count = "length ?d + (if ?after \<noteq> [] \<and> hd ?after = 0x0A then 1 else 0)"
  have f': "f' = f\<lparr>fs_pos := fs_pos f + ?count, fs_eof := (?after = []),
      fs_fail := (?count = 0 \<or> (?after \<noteq> [] \<and> \<not> (?after \<noteq> [] \<and> hd ?after = 0x0A)))\<rparr>"
    using assms(1) good unfolding fs_getline_def Let_def by simp
  then have "?count \<noteq> 0"
    using assms(2) by simp
  then have "fs_rest f \<noteq> []"
    by (auto split: if_splits)
  moreover have "fs_rest f' = drop ?count (fs_rest f)"
    by (simp add: f' fs_rest_def add.commute)
  ultimately show ?thesis
    using \<open>?count \<noteq> 0\<close> by simp
qed

function config_loop :: "gsdm_file \<Rightarrow> config_map \<Rightarrow> config_map \<times> gsdm_file" where
  "config_loop file m =
     (case gf_ReadLine 4096 file of
        (buffer, True, file) \<Rightarrow> config_loop file (config_line (line_text buffer) m)
      | (_, False, file) \<Rightarrow> (m, file))"
  by pat_completeness auto
termination
  by (relation "measure (\<lambda>(file, _). length (fs_rest (gf_stream file)))")
    (auto simp: gf_ReadLine_def gf_with_def split: prod.splits dest: getline_progress)

declare config_loop.simps [simp del]

definition gc_Initialize :: "(string \<rightharpoonup> byte list) \<Rightarrow> (string \<Rightarrow> bool) \<Rightarrow> string \<Rightarrow> bool \<times> config_map" where
  "gc_Initialize disk may_open path =
     (if path = [] then (True, Map.empty)
      else case gf_Initialize_read disk may_open path gf_new of
          (False, _) \<Rightarrow> (False, Map.empty)
        | (True, file) \<Rightarrow> (True, fst (config_loop file Map.empty)))"

definition gc_GetInt :: "config_map \<Rightarrow> string \<Rightarrow> int \<Rightarrow> int" where
  "gc_GetInt m key def = (case m key of None \<Rightarrow> def | Some v \<Rightarrow> c_atoi v)"

definition gc_GetLongInt :: "config_map \<Rightarrow> string \<Rightarrow> int \<Rightarrow> int" where
  "gc_GetLongInt m key def = (case m key of None \<Rightarrow> def | Some v \<Rightarrow> fst (c_strtol 10 v))"

definition gc_GetString :: "config_map \<Rightarrow> string \<Rightarrow> string \<Rightarrow> string" where
  "gc_GetString m key def = (case m key of None \<Rightarrow> def | Some v \<Rightarrow> v)"

definition gc_GetBool :: "config_map \<Rightarrow> string \<Rightarrow> bool \<Rightarrow> bool" where
  "gc_GetBool m key def = (case m key of None \<Rightarrow> def | Some v \<Rightarrow> lowerCase v = ''true'')"

section \<open>The loop reads the file line by line\<close>

lemma getline_line:
  assumes "fs_ready f pre (map byte_of l @ byte_of LF # rest)" and "LF \<notin> set l"
  shows getline_short: "length l \<le> 4095 \<Longrightarrow> \<exists>f'. fs_getline 4096 f = (map byte_of l @ [0], f') \<and> \<not> fs_fail f' \<and>
       fs_ready f' (pre @ map byte_of l @ [byte_of LF]) rest"
    and getline_long: "4095 < length l \<Longrightarrow> fs_fail (snd (fs_getline 4096 f))"
proof -
  have lf: "byte_of LF = 0x0A"
    by (simp add: byte_of_def)
  have ne: "\<forall>b\<in>set (map byte_of l). b \<noteq> 0x0A"
    using assms(2) by (auto simp: lf [symmetric] dest: arg_cong [of _ _ chr_of])
  have line: "takeWhile (\<lambda>b. b \<noteq> 0x0A) (map byte_of l @ 0x0A # rest) = map byte_of l"
    using ne by (subst takeWhile_append2) auto
  have f: "fs_good f" "fs_rest f = map byte_of l @ 0x0A # rest" "fs_open f" "fs_data f = pre @ map byte_of l @ 0x0A # rest"
    "fs_pos f = length pre"
    using assms(1) by (auto simp: fs_ready_def fs_rest_def lf)
  show "\<exists>f'. fs_getline 4096 f = (map byte_of l @ [0], f') \<and> \<not> fs_fail f' \<and>
       fs_ready f' (pre @ map byte_of l @ [byte_of LF]) rest" if "length l \<le> 4095"
    using that f by (simp add: fs_getline_def Let_def line fs_ready_def fs_good_def lf)
  show "fs_fail (snd (fs_getline 4096 f))" if long: "4095 < length l"
  proof -
    obtain b bs where b: "drop 4095 (map byte_of l) = b # bs"
      using long by (cases "drop 4095 (map byte_of l)") auto
    then have "b \<in> set (map byte_of l)"
      by (metis in_set_dropD list.set_intros(1))
    then have "b \<noteq> 0x0A"
      using ne by blast
    then show ?thesis
      using that f b by (simp add: fs_getline_def Let_def line min_def drop_map [symmetric])
  qed
qed

lemma getline_end: "fs_ready f pre [] \<Longrightarrow> fs_fail (snd (fs_getline 4096 f))"
  by (auto simp: fs_ready_def fs_rest_def fs_getline_def Let_def)

lemma line_text_bytes: "line_text (map byte_of l @ [0]) = takeWhile (\<lambda>c. c \<noteq> NUL) l"
proof -
  have "chr_of 0 = NUL"
    by code_simp
  then show ?thesis
    by (simp add: line_text_def comp_def takeWhile_tail)
qed

lemma config_loop_lines:
  assumes "fs_ready (gf_stream g) pre (map byte_of (concat (map (\<lambda>l. l @ [LF]) ls)))"
    and "\<forall>l\<in>set ls. LF \<notin> set l"
  shows "fst (config_loop g m) =
     fold (\<lambda>l. config_line (takeWhile (\<lambda>c. c \<noteq> NUL) l)) (takeWhile (\<lambda>l. length l \<le> 4095) ls) m"
  using assms
proof (induction ls arbitrary: g pre m)
  case Nil
  then have "fs_fail (snd (fs_getline 4096 (gf_stream g)))"
    by (simp add: getline_end)
  then show ?case
    by (subst config_loop.simps) (auto simp: gf_ReadLine_def gf_with_def split: prod.splits bool.splits)
next
  case (Cons l ls)
  let ?rest = "map byte_of (concat (map (\<lambda>l. l @ [LF]) ls))"
  have ready: "fs_ready (gf_stream g) pre (map byte_of l @ byte_of LF # ?rest)" and lf: "LF \<notin> set l"
    using Cons.prems by auto
  show ?case
  proof (cases "length l \<le> 4095")
    case True
    obtain f' where f': "fs_getline 4096 (gf_stream g) = (map byte_of l @ [0], f')" "\<not> fs_fail f'"
        "fs_ready f' (pre @ map byte_of l @ [byte_of LF]) ?rest"
      using getline_short [OF ready lf True] by blast
    then show ?thesis
      using True Cons.prems(2) Cons.IH [of "g\<lparr>gf_stream := f'\<rparr>"]
      by (subst config_loop.simps) (simp add: gf_ReadLine_def gf_with_def line_text_bytes)
  next
    case False
    then have "fs_fail (snd (fs_getline 4096 (gf_stream g)))"
      using getline_long [OF ready lf] by simp
    then show ?thesis
      using False
      by (subst config_loop.simps) (auto simp: gf_ReadLine_def gf_with_def split: prod.splits bool.splits)
  qed
qed

lemma gf_Initialize_read_ready:
  assumes "disk path = Some d" and "may_open path"
  shows "\<exists>g. gf_Initialize_read disk may_open path gf_new = (True, g) \<and> fs_ready (gf_stream g) [] d"
  using assms
  by (simp add: gf_Initialize_read_def gf_Initialize_def gf_new_def fs_closed_def fs_do_open_def gf_SeekEnd_def
      gf_SeekBegin_def gf_with_def gf_Cursor_def fs_seek_def fs_tell_def fs_good_def fs_ready_def Let_def)

section \<open>The lines of a configuration file\<close>

text \<open>
  A line that sets nothing, one that sets a bare value, followed by a comment or not, and one that sets a
  quoted value. The text around a quoted value is free: it may hold \<open>#\<close>.
\<close>

datatype cfg_line =
    CfgNote string
  | CfgPlain string string string string string string string
  | CfgQuoted string string string string string string

fun cfg_text :: "cfg_line \<Rightarrow> string" where
  "cfg_text (CfgNote t) = t"
| "cfg_text (CfgPlain b1 k b2 b3 v b4 t) = b1 @ k @ b2 @ ''='' @ b3 @ v @ b4 @ t"
| "cfg_text (CfgQuoted b1 k b2 t1 v t2) = b1 @ k @ b2 @ ''='' @ t1 @ [CHR 0x22] @ v @ [CHR 0x22] @ t2"

definition stripped :: "string \<Rightarrow> bool" where
  "stripped s \<longleftrightarrow> (s = [] \<or> \<not> is_blank (hd s) \<and> \<not> is_blank (List.last s))"

definition cfg_key :: "string \<Rightarrow> string \<Rightarrow> string \<Rightarrow> bool" where
  "cfg_key b1 k b2 \<longleftrightarrow> list_all is_blank b1 \<and> list_all is_blank b2 \<and> k \<noteq> [] \<and> stripped k \<and>
     hd k \<noteq> CHR ''#'' \<and> CHR ''='' \<notin> set k"

fun cfg_ok :: "cfg_line \<Rightarrow> bool" where
  "cfg_ok (CfgNote t) \<longleftrightarrow> CHR ''='' \<notin> set t \<or> (\<exists>b s. t = b @ CHR ''#'' # s \<and> list_all is_blank b)"
| "cfg_ok (CfgPlain b1 k b2 b3 v b4 t) \<longleftrightarrow> cfg_key b1 k b2 \<and> list_all is_blank b3 \<and> list_all is_blank b4 \<and>
     stripped v \<and> CHR 0x22 \<notin> set (v @ t) \<and> CHR ''#'' \<notin> set v \<and> (t = [] \<or> hd t = CHR ''#'')"
| "cfg_ok (CfgQuoted b1 k b2 t1 v t2) \<longleftrightarrow> cfg_key b1 k b2 \<and> CHR 0x22 \<notin> set (t1 @ v)"

fun cfg_pair :: "cfg_line \<Rightarrow> (string \<times> string) list" where
  "cfg_pair (CfgNote t) = []"
| "cfg_pair (CfgPlain b1 k b2 b3 v b4 t) = [(k, v)]"
| "cfg_pair (CfgQuoted b1 k b2 t1 v t2) = [(k, v)]"

lemma str_find_hit: "c \<notin> set s \<Longrightarrow> str_find (s @ c # t) [c] 0 = Some (length s)"
  by (auto simp: str_find_def find_prefix_single takeWhile_tail intro: arg_cong [of _ _ length] iffD2 [OF takeWhile_eq_all_conv])

lemma str_find_miss: "c \<notin> set s \<Longrightarrow> str_find s [c] 0 = None"
  by (simp add: str_find_def find_prefix_single)

lemma rTrim_unique:
  assumes "stripped s" and "list_all is_blank r" and "length (s @ r) < 2 ^ 31"
  shows "rTrim (s @ r) = s"
proof -
  obtain r' where r': "s @ r = rTrim (s @ r) @ r'" "list_all is_blank r'"
      "rTrim (s @ r) = [] \<or> \<not> is_blank (List.last (rTrim (s @ r)))"
    using rTrim_spec [OF assms(3)] by blast
  then consider us where "s = rTrim (s @ r) @ us" "us @ r = r'" | us where "s @ us = rTrim (s @ r)" "r = us @ r'"
    by (metis append_eq_append_conv2)
  then show ?thesis
  proof cases
    case 1
    then have "list_all is_blank us"
      using r'(2) by auto
    then have "us = []"
      using 1(1) assms(1) unfolding stripped_def
      by (metis append_is_Nil_conv last_appendR last_in_set list_all_iff)
    then show ?thesis
      using 1(1) by simp
  next
    case 2
    then have "list_all is_blank us"
      using assms(2) by auto
    then have "us = []"
      using 2(1) r'(3) by (metis append_is_Nil_conv last_appendR last_in_set list_all_iff)
    then show ?thesis
      using 2(1) by simp
  qed
qed

lemma trim_unique:
  assumes "list_all is_blank l" and "stripped s" and "list_all is_blank r" and "length (l @ s @ r) < 2 ^ 31"
  shows "trim (l @ s @ r) = s"
proof -
  have l: "\<forall>c\<in>set l. is_blank c" and r: "\<forall>c\<in>set r. is_blank c"
    using assms by (simp_all add: list_all_iff)
  show ?thesis
  proof (cases s)
    case Nil
    then show ?thesis
      using l r by (simp add: trim_def lTrim_def rTrim_def dropWhile_eq_Nil_conv [THEN iffD2] i32_def)
  next
    case (Cons c cs)
    then have "lTrim (l @ s @ r) = s @ r"
      using l assms(2) by (simp add: lTrim_def stripped_def)
    then show ?thesis
      using rTrim_unique [OF assms(2,3)] assms(4) by (simp add: trim_def)
  qed
qed

lemma is_blank_not:
  assumes "is_blank c"
  shows "c \<noteq> CHR ''='' \<and> c \<noteq> CHR 0x22 \<and> c \<noteq> CHR ''#''"
  using assms by (auto simp: is_blank_def)

lemma blanks_not: "list_all is_blank s \<Longrightarrow> CHR ''='' \<notin> set s \<and> CHR 0x22 \<notin> set s \<and> CHR ''#'' \<notin> set s"
  by (auto simp: list_all_iff dest: is_blank_not)

lemma config_line_key:
  assumes "cfg_key b1 k b2" and "length (b1 @ k @ b2) < 2 ^ 31"
  shows "config_line (b1 @ k @ b2 @ CHR ''='' # h) m = config_value k h m"
proof -
  note key = assms(1) [unfolded cfg_key_def]
  have "str_find ((b1 @ k @ b2) @ CHR ''='' # h) ''='' 0 = Some (length (b1 @ k @ b2))"
    using key by (intro str_find_hit) (auto dest: blanks_not)
  moreover have "trim (b1 @ k @ b2) = k"
    using key assms(2) by (intro trim_unique) auto
  moreover have "hd k \<noteq> LF" "hd k \<noteq> CR"
    using key by (auto simp: stripped_def is_blank_def)
  ultimately show ?thesis
    using key by (simp add: config_line_def)
qed

lemma config_line_note:
  assumes "cfg_ok (CfgNote t)" and "length t < 2 ^ 31"
  shows "config_line t m = m"
proof (cases "CHR ''='' \<in> set t")
  case True
  then obtain b s where t: "t = b @ CHR ''#'' # s" and b: "list_all is_blank b"
    using assms by auto
  let ?p = "length (takeWhile (\<lambda>c. c \<noteq> CHR ''='') s)"
  have mem: "CHR ''='' \<in> set s" "CHR ''='' \<notin> set b"
    using True b by (auto simp: t dest: blanks_not)
  then have find: "str_find t ''='' 0 = Some (length b + Suc ?p)"
    by (simp add: str_find_def find_prefix_single t takeWhile_append)
  have "hd (trim (take (length b + Suc ?p) t)) = CHR ''#'' \<or> trim (take (length b + Suc ?p) t) = []"
  proof -
    let ?v = "take (length b + Suc ?p) t"
    have v: "?v = b @ CHR ''#'' # take ?p s"
      by (simp add: t)
    have "length ?v < 2 ^ 31"
      using assms(2) by simp
    from trim_spec [OF this] obtain l r where lr: "?v = l @ trim ?v @ r" "list_all is_blank l"
        "trim ?v = [] \<or> \<not> is_blank (hd (trim ?v))"
      by blast
    have "lTrim ?v = CHR ''#'' # take ?p s"
      using b unfolding v lTrim_def by (subst dropWhile_append2) (simp_all add: list_all_iff is_blank_def)
    then show ?thesis
      by (auto simp: trim_def rTrim_def Let_def take_Cons' split: if_splits)
  qed
  then show ?thesis
    by (auto simp: config_line_def find Let_def)
qed (simp add: config_line_def str_find_miss)

lemma config_line_entry:
  assumes "cfg_ok c" and "length (cfg_text c) < 2 ^ 31"
  shows "config_line (cfg_text c) m = m ++ map_of (cfg_pair c)"
proof (cases c)
  case (CfgNote t)
  then show ?thesis
    using config_line_note assms by simp
next
  case (CfgPlain b1 k b2 b3 v b4 t)
  then have ok: "cfg_key b1 k b2" "list_all is_blank b3" "list_all is_blank b4" "stripped v"
      "CHR 0x22 \<notin> set (v @ t)" "CHR ''#'' \<notin> set v" "t = [] \<or> hd t = CHR ''#''"
    using assms(1) by auto
  note nb = blanks_not [OF ok(2)] blanks_not [OF ok(3)]
  have cut: "(case str_find (b3 @ v @ b4 @ t) ''#'' 0 of Some f \<Rightarrow> take f (b3 @ v @ b4 @ t) | None \<Rightarrow> b3 @ v @ b4 @ t) =
      b3 @ v @ b4"
  proof (cases t)
    case Nil
    then show ?thesis
      using ok nb by (simp add: str_find_miss)
  next
    case (Cons x u)
    then show ?thesis
      using ok nb str_find_hit [of "CHR ''#''" "b3 @ v @ b4" u] by simp
  qed
  have "str_find (b3 @ v @ b4 @ t) [CHR 0x22] 0 = None"
    using ok nb by (intro str_find_miss) auto
  moreover have "trim (b3 @ v @ b4) = v"
    using ok assms(2) CfgPlain by (intro trim_unique) auto
  ultimately have "config_value k (b3 @ v @ b4 @ t) m = m(k \<mapsto> v)"
    using cut by (simp add: config_value_def)
  then show ?thesis
    using config_line_key [OF ok(1)] assms(2) CfgPlain by simp
next
  case (CfgQuoted b1 k b2 t1 v t2)
  then have ok: "cfg_key b1 k b2" "CHR 0x22 \<notin> set t1" "CHR 0x22 \<notin> set v"
    using assms(1) by auto
  then have "config_value k (t1 @ CHR 0x22 # v @ CHR 0x22 # t2) m = m(k \<mapsto> v)"
    by (simp add: config_value_def str_find_hit)
  then show ?thesis
    using config_line_key [OF ok(1)] assms(2) CfgQuoted by simp
qed

lemma fold_config_lines:
  assumes "list_all (\<lambda>c. cfg_ok c \<and> length (cfg_text c) \<le> 4095 \<and> LF \<notin> set (cfg_text c) \<and> NUL \<notin> set (cfg_text c)) cs"
  shows "fold (\<lambda>l. config_line (takeWhile (\<lambda>c. c \<noteq> NUL) l)) (takeWhile (\<lambda>l. length l \<le> 4095) (map cfg_text cs)) m =
     m ++ map_of (rev (concat (map cfg_pair cs)))"
  using assms
proof (induction cs arbitrary: m)
  case (Cons c cs)
  then have "takeWhile (\<lambda>c. c \<noteq> NUL) (cfg_text c) = cfg_text c"
    by (intro iffD2 [OF takeWhile_eq_all_conv]) auto
  moreover have "rev (cfg_pair c) = cfg_pair c"
    by (cases c) auto
  ultimately show ?case
    using Cons config_line_entry [of c m] by (simp del: takeWhile_eq_all_conv)
qed simp

lemma gc_Initialize_lines:
  assumes "path \<noteq> []" and "may_open path"
    and "disk path = Some (map byte_of (concat (map (\<lambda>l. l @ [LF]) ls)))" and "\<forall>l\<in>set ls. LF \<notin> set l"
  shows "gc_Initialize disk may_open path =
     (True, fold (\<lambda>l. config_line (takeWhile (\<lambda>c. c \<noteq> NUL) l)) (takeWhile (\<lambda>l. length l \<le> 4095) ls) Map.empty)"
proof -
  obtain g where g: "gf_Initialize_read disk may_open path gf_new = (True, g)"
      "fs_ready (gf_stream g) [] (map byte_of (concat (map (\<lambda>l. l @ [LF]) ls)))"
    using gf_Initialize_read_ready [of disk path _ may_open, OF assms(3,2)] by blast
  then show ?thesis
    using config_loop_lines [OF g(2) assms(4)] assms(1) by (simp add: gc_Initialize_def)
qed

section \<open>Properties\<close>

text \<open>
  \<open>GsdmConfig::Initialize\<close> on a readable file takes its lines in order, each up to its first
  \<open>NUL\<close>, and stops without an error at the first line of 4096 characters or more: everything after it
  is ignored and the call still succeeds.
\<close>
theorem config_stops_at_long_line:
  assumes "path \<noteq> []" and "may_open path"
    and "disk path = Some (map byte_of (concat (map (\<lambda>l. l @ [LF]) ls)))" and "\<forall>l\<in>set ls. LF \<notin> set l"
  shows "gc_Initialize disk may_open path =
     (True, fold (\<lambda>l. config_line (takeWhile (\<lambda>c. c \<noteq> NUL) l)) (takeWhile (\<lambda>l. length l \<le> 4095) ls) Map.empty)"
  using assms by (rule gc_Initialize_lines)

lemma config_stops_at_long_line_witness:
  "gc_Initialize (\<lambda>_. Some (map byte_of (concat (map (\<lambda>l. l @ [LF]) [''a=1'', replicate 4096 CHR ''x'', ''b=2'']))))
     (\<lambda>_. True) ''c'' = (True, [''a'' \<mapsto> ''1''])"
proof -
  let ?ls = "[''a=1'', replicate 4096 CHR ''x'', ''b=2'']"
  have line: "config_line ''a=1'' Map.empty = [''a'' \<mapsto> ''1'']"
    using config_line_entry [of "CfgPlain [] ''a'' [] [] ''1'' [] []" Map.empty]
    by (simp add: cfg_key_def stripped_def is_blank_def)
  have "gc_Initialize (\<lambda>_. Some (map byte_of (concat (map (\<lambda>l. l @ [LF]) ?ls)))) (\<lambda>_. True) ''c'' =
      (True, fold (\<lambda>l. config_line (takeWhile (\<lambda>c. c \<noteq> NUL) l)) (takeWhile (\<lambda>l. length l \<le> 4095) ?ls) Map.empty)"
    by (rule config_stops_at_long_line) simp_all
  moreover have "takeWhile (\<lambda>l. length l \<le> 4095) ?ls = [''a=1'']"
    by simp
  ultimately show ?thesis
    using line by (simp only: fold_simps list.simps) simp
qed

text \<open>
  C35: Written and read back: any file of notes, bare values and quoted values, with blanks and
  comments where the format allows them, whatever the values are, is read into the map that gives each key the value of its last line.
  \<open>GetString\<close> then gives this text; a value that is a decimal number comes back through \<open>GetInt\<close> below \<open>2\<^sup>3\<^sup>1\<close> and
  through \<open>GetLongInt\<close> below \<open>2\<^sup>6\<^sup>3\<close>; a key without a line gives the default. The text around a quoted value is free, so a quoted text inside
  the comment after a bare value takes its place.
\<close>
theorem config_roundtrip:
  assumes "path \<noteq> []" and "may_open path"
    and "disk path = Some (map byte_of (concat (map (\<lambda>l. l @ [LF]) (map cfg_text cs))))"
    and "list_all (\<lambda>c. cfg_ok c \<and> length (cfg_text c) \<le> 4095 \<and> LF \<notin> set (cfg_text c) \<and> NUL \<notin> set (cfg_text c)) cs"
    and m: "m = map_of (rev (concat (map cfg_pair cs)))"
  shows "gc_Initialize disk may_open path = (True, m) \<and>
     (\<forall>key v dflt. m key = Some v \<longrightarrow> gc_GetString m key dflt = v) \<and>
     (\<forall>key n i. m key = Some (dec_digits n) \<longrightarrow> n < 2 ^ 31 \<longrightarrow> gc_GetInt m key i = int n) \<and>
     (\<forall>key n i. m key = Some (dec_digits n) \<longrightarrow> n < 2 ^ 63 \<longrightarrow> gc_GetLongInt m key i = int n) \<and>
     (\<forall>key dflt i. m key = None \<longrightarrow> gc_GetString m key dflt = dflt \<and> gc_GetInt m key i = i \<and> gc_GetLongInt m key i = i)"
  using gc_Initialize_lines [of path may_open disk, OF assms(1-3)] fold_config_lines [OF assms(4), of Map.empty] assms(4)
  by (simp add: m gc_GetString_def gc_GetInt_def gc_GetLongInt_def c_atoi_dec_digits c_strtol_dec_digits list_all_iff)

lemma config_roundtrip_witness:
  "gc_Initialize (\<lambda>_. Some (map byte_of (concat (map (\<lambda>l. l @ [LF]) (map cfg_text
       [CfgNote ''# workers'', CfgPlain [] ''count'' '' '' '' '' ''1'' '' '' ''# one'', CfgPlain [] ''name'' [] [] ''gsdm'' [] [],
        CfgQuoted [] ''count'' [] ''9 # was '' ''8'' '' ''])))))
     (\<lambda>_. True) ''gsdm.conf'' = (True, [''name'' \<mapsto> ''gsdm'', ''count'' \<mapsto> ''8'']) \<and>
   gc_GetInt [''name'' \<mapsto> ''gsdm'', ''count'' \<mapsto> ''8''] ''count'' 0 = 8 \<and>
   gc_GetString [''name'' \<mapsto> ''gsdm'', ''count'' \<mapsto> ''8''] ''name'' [] = ''gsdm''"
proof -
  let ?cs = "[CfgNote ''# workers'', CfgPlain [] ''count'' '' '' '' '' ''1'' '' '' ''# one'', CfgPlain [] ''name'' [] [] ''gsdm'' [] [],
        CfgQuoted [] ''count'' [] ''9 # was '' ''8'' '' '']"
  let ?m = "[''name'' \<mapsto> ''gsdm'', ''count'' \<mapsto> ''8'']"
  have eight: "dec_digits 8 = ''8''"
    by (simp add: dec_digits.simps digit_chr_def)
  have ok: "list_all (\<lambda>c. cfg_ok c \<and> length (cfg_text c) \<le> 4095 \<and> LF \<notin> set (cfg_text c) \<and> NUL \<notin> set (cfg_text c)) ?cs"
    by (simp add: cfg_key_def stripped_def is_blank_def)
  have m: "?m = map_of (rev (concat (map cfg_pair ?cs)))"
    by (simp add: fun_eq_iff)
  let ?disk = "\<lambda>_. Some (map byte_of (concat (map (\<lambda>l. l @ [LF]) (map cfg_text ?cs))))"
  have path: "''gsdm.conf'' \<noteq> []"
    by simp
  note r = config_roundtrip [of "''gsdm.conf''" "\<lambda>_. True" ?disk ?cs ?m, OF path TrueI refl ok m]
  have vals: "?m ''count'' = Some (dec_digits 8)" "?m ''name'' = Some ''gsdm''"
    by (simp_all add: eight)
  have "gc_GetInt ?m ''count'' 0 = int 8"
    by (rule conjunct1 [OF conjunct2 [OF conjunct2 [OF r]], rule_format, OF vals(1)]) simp
  then show ?thesis
    using conjunct1 [OF r] conjunct1 [OF conjunct2 [OF r]] vals(2) by simp
qed

end
