(* ===== verification/Logger.thy ===== *)
theory Logger
  imports SysInfo Config
begin

text \<open>
  \<open>GLogger\<close> (\<open>src/logging/logger.cpp\<close>): a log line is put together in a buffer of 1500 bytes, printed or sent as a
  datagram to the logger, which appends it to its file, starts a new file every hour and takes commands that set the
  level. The arguments of \<open>Log\<close> are the values of its format arguments: file, line, thread, time stamp and the
  formatted text. A write outside of a buffer is \<^term>\<open>None\<close>.
\<close>

section \<open>One line\<close>

definition MAX_PRINT_LEN :: nat where "MAX_PRINT_LEN = 1500"
definition CHANGE_FILE_TIME :: int where "CHANGE_FILE_TIME = 3600"
definition GSDM_BACK_ROOT_DIR :: string where "GSDM_BACK_ROOT_DIR = ''/tmp/.gsdm1''"
definition NORMAL_COLOR :: string where "NORMAL_COLOR = [CHR 0x1B] @ ''[0m''"

definition level_names :: "string list" where
  "level_names = [''FATAL'', ''ERROR'', ''WARNING'', ''INFO'', ''DEBUG'', ''FINE'', ''FINEST'']"

definition level_colors :: "string list" where
  "level_colors = map ((@) [CHR 0x1B])
     [''[01;31m'', ''[22;31m'', ''[01;33m'', ''[22;36m'', ''[01;37m'', ''[22;37m'', ''[22;37m'']"

text \<open>
  \<open>snprintf\<close> into a buffer at an offset: it writes at most \<open>room - 1\<close> bytes and a \<open>NUL\<close> and returns the length of the whole
  text. The room is converted to \<open>size_t\<close>, so a negative one is huge.
\<close>

definition c_snprintf :: "string \<Rightarrow> int \<Rightarrow> int \<Rightarrow> string \<Rightarrow> (int \<times> string) option" where
  "c_snprintf buf off room text =
     (let size = nat (room mod 2 ^ 64) in
      if size = 0 then Some (int (length text), buf)
      else if off < 0 then None
      else map_option (Pair (int (length text))) (mem_write buf (nat off) (take (size - 1) text @ [NUL])))"

text \<open>
  The common part of the two branches of \<open>Log\<close> and of \<open>Statistics\<close>: \<open>tail\<close> is the end of the line, for which \<open>sizeof\<close>
  keeps one byte more than it has.
\<close>

definition print_line :: "string \<Rightarrow> string \<Rightarrow> string \<Rightarrow> string option" where
  "print_line tail head text =
     (let size = int (length tail) + 1 in
      do { (len, buf) \<leftarrow> c_snprintf (replicate MAX_PRINT_LEN NUL) 0 (int MAX_PRINT_LEN - size) head;
           let a = int MAX_PRINT_LEN - len - size;
           (b, buf) \<leftarrow> c_snprintf buf len a text;
           let len = len + (if b > a then a else b);
           buf \<leftarrow> (if len < 0 then None else mem_write buf (nat len) tail);
           Some (take (nat len + length tail) buf) })"

definition log_prefix :: "bool \<Rightarrow> nat \<Rightarrow> string \<Rightarrow> nat \<Rightarrow> nat \<Rightarrow> string \<Rightarrow> string" where
  "log_prefix colors level file line tid now =
     ''l'' @ (if colors then level_colors ! level else []) @ file @ '':'' @ dec_digits line @ ''('' @ dec_digits tid @
     '') ['' @ level_names ! level @ ''] ['' @ now @ ''] ''"

text \<open>
  The state of a process: \<open>gl_log\<close> and \<open>gl_stat\<close> are the paths of the files behind \<open>log_\<close> and \<open>stat_\<close>, empty for standard
  output; \<open>gl_files\<close> the texts of the files, \<open>gl_made\<close> the folders made; \<open>gl_fd\<close> the socket of the thread, \<open>-1\<close> without;
  \<open>gl_address\<close> the path in \<open>log_address_\<close>.
\<close>

record glogger =
  gl_level :: nat
  gl_colors :: bool
  gl_dir :: string
  gl_check :: int
  gl_close :: bool
  gl_no_cache :: bool
  gl_fd :: int
  gl_log :: string
  gl_stat :: string
  gl_files :: "string \<Rightarrow> string"
  gl_made :: "string list"
  gl_address :: string
  gl_cpu :: int

text \<open>The static members at the start of the program; both files are the standard output.\<close>

definition GLogger_new :: glogger where
  "GLogger_new = \<lparr>gl_level = 3, gl_colors = True, gl_dir = [], gl_check = 0, gl_close = True, gl_no_cache = False, gl_fd = -1,
     gl_log = [], gl_stat = [], gl_files = (\<lambda>_. []), gl_made = [], gl_address = [], gl_cpu = 0\<rparr>"

datatype log_out = NoOutput | Printed string | Sent string

definition put_out :: "glogger \<Rightarrow> string \<Rightarrow> log_out" where
  "put_out g d = (if gl_fd g = -1 then Printed (takeWhile (\<lambda>c. c \<noteq> NUL) (drop 1 d)) else Sent d)"

definition Log :: "glogger \<Rightarrow> nat \<Rightarrow> string \<Rightarrow> nat \<Rightarrow> nat \<Rightarrow> string \<Rightarrow> string \<Rightarrow> log_out option" where
  "Log g level file line tid now text =
     (if level > gl_level g then Some NoOutput
      else map_option (put_out g)
        (if gl_colors g then print_line (NORMAL_COLOR @ [LF]) (log_prefix True level file line tid now) text
         else print_line [LF] (log_prefix False level file line tid now) text))"

definition Statistics :: "glogger \<Rightarrow> string \<Rightarrow> string \<Rightarrow> log_out option" where
  "Statistics g now text = map_option (put_out g) (print_line [LF] (''s['' @ now @ ''] '') text)"

text \<open>\<open>strncpy\<close> into the cleared \<open>sun_path\<close> of an address, which has room for 107 characters and a \<open>NUL\<close>.\<close>

definition sun_path :: "string \<Rightarrow> string" where
  "sun_path path = take 107 (takeWhile (\<lambda>c. c \<noteq> NUL) path)"

text \<open>The first result is the path that is removed.\<close>

definition GLogger_Initialize :: "string \<Rightarrow> string \<Rightarrow> nat \<Rightarrow> bool \<Rightarrow> int \<Rightarrow> glogger \<Rightarrow> string \<times> glogger" where
  "GLogger_Initialize log_unix_path log_dir level colors cpu g =
     (log_unix_path,
      g\<lparr>gl_address := sun_path log_unix_path, gl_dir := log_dir, gl_level := level,
        gl_colors := colors, gl_cpu := cpu\<rparr>)"

section \<open>The logger\<close>

text \<open>\<open>fprintf\<close> of a C string appends its text up to the \<open>NUL\<close>.\<close>

definition append_file :: "string \<Rightarrow> string \<Rightarrow> glogger \<Rightarrow> glogger" where
  "append_file path s g = g\<lparr>gl_files := (gl_files g)(path := gl_files g path @ s)\<rparr>"

definition level_of :: "string \<Rightarrow> nat \<Rightarrow> nat" where
  "level_of v old =
     (if v = ''FATAL'' then 0
      else if v = ''ERROR'' then 1
      else if v = ''WARNING'' then 2
      else if v = ''INFO'' then 3
      else if v = ''DEBUG'' then 4
      else if v = ''FINE'' then 5
      else if v = ''FINEST'' then 6
      else old)"

definition update_command :: "string \<Rightarrow> glogger \<Rightarrow> glogger option" where
  "update_command v g =
     do { vec \<leftarrow> split v '','';
          Some (if length vec = 3
                then g\<lparr>gl_level := level_of (trim (vec ! 0)) (gl_level g),
                       gl_colors := (if trim (vec ! 1) = ''yes'' then True
                                     else if trim (vec ! 1) = ''no'' then False else gl_colors g),
                       gl_no_cache := (if trim (vec ! 2) = ''yes'' then False
                                       else if trim (vec ! 2) = ''no'' then True else gl_no_cache g)\<rparr>
                else g) }"

text \<open>A datagram is cut to the buffer, and the byte after it set to \<open>NUL\<close>.\<close>

definition LogRun_receive :: "string \<Rightarrow> glogger \<Rightarrow> glogger option" where
  "LogRun_receive dgram g =
     (let d = take MAX_PRINT_LEN dgram in
      if d = [] then Some g
      else if length d \<ge> MAX_PRINT_LEN then None
      else let text = takeWhile (\<lambda>c. c \<noteq> NUL) (drop 1 d) in
        if d ! 0 = CHR ''l'' then Some (append_file (gl_log g) text g)
        else if d ! 0 = CHR ''s'' then Some (append_file (gl_stat g) text g)
        else if d ! 0 = CHR ''u'' then update_command text g
        else if d ! 0 = CHR ''c'' then Some (g\<lparr>gl_close := True\<rparr>)
        else Some g)"

section \<open>Files by the hour\<close>

text \<open>The loop of \<open>SetupLogFile\<close> that looks for the next full hour.\<close>

function next_check :: "int \<Rightarrow> int \<Rightarrow> int \<Rightarrow> int" where
  "next_check tmp now i =
     (if tmp + i * CHANGE_FILE_TIME \<ge> now then tmp + i * CHANGE_FILE_TIME else next_check tmp now (i + 1))"
  by pat_completeness auto
termination
  by (relation "measure (\<lambda>(tmp, now, i). nat (now - (tmp + i * CHANGE_FILE_TIME)))") (auto simp: CHANGE_FILE_TIME_def)

declare next_check.simps [simp del]

text \<open>The date is computed for the zone +8, \<open>mktime\<close> reads it in the zone of the system.\<close>

definition first_check :: "(tm \<Rightarrow> int) \<Rightarrow> int \<Rightarrow> int" where
  "first_check mktime now =
     (let tmp = mktime ((gsdm_localtime_r now 8)\<lparr>tm_sec := 0, tm_min := 0\<rparr>)
      in if tmp \<le> now then next_check tmp now 0 else tmp)"

text \<open>The folder of the day with its two parts is made where it does not exist; \<open>exists\<close> is \<open>fileExists\<close>.\<close>

definition day_folder :: "string \<Rightarrow> int \<Rightarrow> string option" where
  "day_folder dir now = do { day \<leftarrow> getLocalTimeString ''%Y%m%d'' now; Some (dir @ ''/'' @ day) }"

definition make_folder :: "(string \<Rightarrow> bool) \<Rightarrow> string \<Rightarrow> glogger \<Rightarrow> glogger" where
  "make_folder exists path g = (if exists path then g else g\<lparr>gl_made := gl_made g @ [path]\<rparr>)"

definition make_folders :: "(string \<Rightarrow> bool) \<Rightarrow> string \<Rightarrow> glogger \<Rightarrow> glogger" where
  "make_folders exists d g =
     make_folder exists (d @ ''/stat'') (make_folder exists (d @ ''/log'') (make_folder exists d g))"

text \<open>\<open>snprintf\<close> of the path into 255 of 256 bytes.\<close>

definition hour_file :: "string \<Rightarrow> string \<Rightarrow> int \<Rightarrow> int \<Rightarrow> string option" where
  "hour_file d kind pid now =
     do { name \<leftarrow> getLocalTimeString ''%H_%M'' now;
          Some (take 254 (d @ ''/'' @ kind @ ''/'' @ dec_int pid @ ''_'' @ name @ ''.txt'')) }"

text \<open>\<open>fopen\<close> with \<open>w+\<close> empties the file.\<close>

definition open_log :: "string \<Rightarrow> glogger \<Rightarrow> glogger" where
  "open_log path g = g\<lparr>gl_log := path, gl_files := (gl_files g)(path := [])\<rparr>"

definition open_stat :: "string \<Rightarrow> glogger \<Rightarrow> glogger" where
  "open_stat path g = g\<lparr>gl_stat := path, gl_files := (gl_files g)(path := [])\<rparr>"

text \<open>\<open>real\<close> is what \<open>realpath\<close> gives for an existing folder; \<open>fopen\<close> is whether a file can be opened.\<close>

definition SetupLogFile ::
    "(string \<Rightarrow> string option) \<Rightarrow> (tm \<Rightarrow> int) \<Rightarrow> (string \<Rightarrow> bool) \<Rightarrow> (string \<Rightarrow> bool) \<Rightarrow> int \<Rightarrow> int \<Rightarrow> glogger \<Rightarrow>
      (bool \<times> glogger) option" where
  "SetupLogFile real mktime exists fopen pid now g =
     (if gl_dir g = [] then Some (True, g)
      else case real (gl_dir g) of
          None \<Rightarrow> Some (False, g)
        | Some dir \<Rightarrow>
            do { d \<leftarrow> day_folder dir now;
                 let g = make_folders exists d (g\<lparr>gl_dir := dir, gl_check := first_check mktime now\<rparr>);
                 log_path \<leftarrow> hour_file d ''log'' pid now;
                 stat_path \<leftarrow> hour_file d ''stat'' pid now;
                 if \<not> fopen log_path then Some (False, g)
                 else let g = open_log log_path g in
                   if \<not> fopen stat_path then Some (False, g) else Some (True, open_stat stat_path g) })"

text \<open>
  The folders that \<open>ChangeLogFile\<close> deletes at four o'clock: those of the log folder whose name, read as a number, is below
  the day \<open>clear_day\<close> days ago. An entry is a name with whether it is a folder.
\<close>

definition old_folders :: "int \<Rightarrow> (string \<times> bool) list \<Rightarrow> string list" where
  "old_folders num entries =
     map fst (filter (\<lambda>(n, folder). n \<noteq> ''.'' \<and> n \<noteq> ''..'' \<and> n \<noteq> [] \<and> folder \<and> c_atoi n < num) entries)"

definition ChangeLogFile ::
    "config_map \<Rightarrow> (string \<Rightarrow> bool) \<Rightarrow> (string \<Rightarrow> bool) \<Rightarrow> (string \<times> bool) list option \<Rightarrow> int \<Rightarrow> int \<Rightarrow> glogger \<Rightarrow>
      ((bool \<times> string list) \<times> glogger) option" where
  "ChangeLogFile m exists fopen opendir pid now g =
     (if gl_dir g = [] \<or> gl_check g \<ge> now then Some ((True, []), g)
      else do {
        d \<leftarrow> day_folder (gl_dir g) now;
        let g = make_folders exists d (g\<lparr>gl_check := gl_check g + CHANGE_FILE_TIME\<rparr>);
        log_path \<leftarrow> hour_file d ''log'' pid now;
        stat_path \<leftarrow> hour_file d ''stat'' pid now;
        hour \<leftarrow> getLocalTimeString ''%H_%M'' now;
        if \<not> fopen log_path then Some ((False, []), g)
        else let g = open_log log_path g in
          if \<not> fopen stat_path then Some ((False, []), g)
          else let g = open_stat stat_path g in
            if hour \<noteq> ''04_00'' then Some ((True, []), g)
            else do {
              day \<leftarrow> getLocalTimeString ''%Y%m%d'' (now - 86400 * gc_GetInt m ''clear_day'' 5);
              case opendir of
                None \<Rightarrow> Some ((True, []), g)
              | Some entries \<Rightarrow> Some ((True, old_folders (c_atoi day) entries), g) } })"

text \<open>One turn of the loop of \<open>LogRun\<close>: the time, and the datagram where one has come.\<close>

definition LogRun_turn ::
    "config_map \<Rightarrow> (string \<Rightarrow> bool) \<Rightarrow> (string \<Rightarrow> bool) \<Rightarrow> (string \<times> bool) list option \<Rightarrow> int \<Rightarrow> int \<Rightarrow> string option \<Rightarrow>
      glogger \<Rightarrow> glogger option" where
  "LogRun_turn m exists fopen opendir pid now dgram g =
     do { (_, g) \<leftarrow> ChangeLogFile m exists fopen opendir pid now g;
          case dgram of None \<Rightarrow> Some g | Some d \<Rightarrow> LogRun_receive d g }"

fun LogRun ::
    "config_map \<Rightarrow> (string \<Rightarrow> bool) \<Rightarrow> (string \<Rightarrow> bool) \<Rightarrow> (string \<times> bool) list option \<Rightarrow> int \<Rightarrow>
      (int \<times> string option) list \<Rightarrow> glogger \<Rightarrow> glogger option" where
  "LogRun m exists fopen opendir pid [] g = Some g"
| "LogRun m exists fopen opendir pid ((now, dgram) # turns) g =
     (if gl_close g then Some g
      else do { g \<leftarrow> LogRun_turn m exists fopen opendir pid now dgram g; LogRun m exists fopen opendir pid turns g })"

text \<open>The datagram sent to the logger, and the path deleted.\<close>

definition GLogger_Close :: "glogger \<Rightarrow> string \<times> string \<times> glogger" where
  "GLogger_Close g = (''c'', gl_address g, g\<lparr>gl_close := True\<rparr>)"

section \<open>What a line becomes\<close>

lemma mem_write_at:
  "length s \<le> length q \<Longrightarrow> mem_write (p @ q) (length p) s = Some (p @ s @ drop (length s) q)"
  by (simp add: mem_write_def)

lemma print_line_result:
  assumes "length head + length tail + 1 < MAX_PRINT_LEN"
  defines "room \<equiv> MAX_PRINT_LEN - length head - length tail - 1"
  shows "print_line tail head text =
     Some (if length text < room then head @ text @ tail else head @ take (room - 1) text @ [NUL] @ tail)"
proof -
  let ?size = "int (length tail) + 1"
  have room: "0 < room" "room < MAX_PRINT_LEN" "int MAX_PRINT_LEN - int (length head) - ?size = int room"
    "MAX_PRINT_LEN = length head + room + length tail + 1"
    using assms(1) by (simp_all add: room_def)
  have word: "nat (int n mod 2 ^ 64) = n" if "n \<le> MAX_PRINT_LEN" for n
    using that by (simp add: MAX_PRINT_LEN_def nat_mod_distrib)
  have size: "int MAX_PRINT_LEN - ?size = int (length head + room)"
    using room(4) by simp
  have first: "c_snprintf (replicate MAX_PRINT_LEN NUL) 0 (int MAX_PRINT_LEN - ?size) head =
      Some (int (length head), head @ replicate (MAX_PRINT_LEN - length head) NUL)"
  proof -
    have "mem_write (replicate MAX_PRINT_LEN NUL) 0 (head @ [NUL]) = Some (head @ replicate (MAX_PRINT_LEN - length head) NUL)"
      using room mem_write_at [of "head @ [NUL]" "replicate MAX_PRINT_LEN NUL" "[]"]
      by (simp add: replicate_Suc [symmetric] Suc_diff_Suc del: replicate_Suc)
    then show ?thesis
      unfolding c_snprintf_def size using word [of "length head + room"] room by simp
  qed
  let ?out = "take (room - 1) text @ [NUL]"
  have second: "c_snprintf (head @ replicate (MAX_PRINT_LEN - length head) NUL) (int (length head)) (int room) text =
      Some (int (length text), head @ ?out @ replicate (MAX_PRINT_LEN - length head - length ?out) NUL)"
  proof -
    have "length ?out \<le> length (replicate (MAX_PRINT_LEN - length head) NUL)"
      using room by simp
    from mem_write_at [OF this, of head] show ?thesis
      unfolding c_snprintf_def using word [of room] room by simp
  qed
  let ?len = "length head + min (length text) room"
  let ?buf = "head @ ?out @ replicate (MAX_PRINT_LEN - length head - length ?out) NUL"
  have steps: "print_line tail head text =
      (if int (length head) + (if int (length text) > int room then int room else int (length text)) < 0 then None
       else mem_write ?buf (nat (int (length head) + (if int (length text) > int room then int room else int (length text)))) tail) \<bind>
        (\<lambda>buf. Some (take (nat (int (length head) + (if int (length text) > int room then int room else int (length text))) + length tail) buf))"
    by (simp only: print_line_def Let_def first second room(3) bind.bind_lunit prod.case)
  have len: "int (length head) + (if int (length text) > int room then int room else int (length text)) = int ?len"
    by simp
  have "print_line tail head text = mem_write ?buf ?len tail \<bind> (\<lambda>buf. Some (take (?len + length tail) buf))"
    unfolding steps len nat_int by simp
  moreover have "mem_write ?buf ?len tail \<bind> (\<lambda>buf. Some (take (?len + length tail) buf)) =
     Some (if length text < room then head @ text @ tail else head @ take (room - 1) text @ [NUL] @ tail)"
  proof (cases "length text < room")
    case True
    then have "?buf = (head @ text) @ replicate (MAX_PRINT_LEN - length head - length text) NUL" "?len = length (head @ text)"
      using room by (simp_all add: replicate_Suc [symmetric] Suc_diff_Suc del: replicate_Suc)
    moreover have "length tail \<le> length (replicate (MAX_PRINT_LEN - length head - length text) NUL)"
      using True room by simp
    ultimately show ?thesis
      using True mem_write_at [of tail "replicate (MAX_PRINT_LEN - length head - length text) NUL" "head @ text"] by simp
  next
    case False
    then have "?buf = (head @ ?out) @ replicate (MAX_PRINT_LEN - length head - length ?out) NUL" "?len = length (head @ ?out)"
      using room by simp_all
    moreover have "length tail \<le> length (replicate (MAX_PRINT_LEN - length head - length ?out) NUL)"
      using False room by simp
    ultimately show ?thesis
      using False mem_write_at [of tail "replicate (MAX_PRINT_LEN - length head - length ?out) NUL" "head @ ?out"] by simp
  qed
  ultimately show ?thesis
    by simp
qed

definition line_tail :: "bool \<Rightarrow> string" where
  "line_tail colors = (if colors then NORMAL_COLOR @ [LF] else [LF])"

lemma NUL_dec_digits: "NUL \<notin> set (dec_digits n)"
  by (auto dest: dec_digits_set simp: digit_val_def Let_def)

lemma log_prefix_text:
  assumes "level < 7" and "NUL \<notin> set file" and "NUL \<notin> set now"
  shows "log_prefix colors level file line tid now = CHR ''l'' # drop 1 (log_prefix colors level file line tid now)"
    and "NUL \<notin> set (log_prefix colors level file line tid now)"
proof -
  have "\<forall>l\<in>set [0..<7]. NUL \<notin> set (level_names ! l) \<and> NUL \<notin> set (level_colors ! l)"
    by code_simp
  then have "NUL \<notin> set (level_names ! level)" "NUL \<notin> set (level_colors ! level)"
    using assms(1) by simp_all
  then show "NUL \<notin> set (log_prefix colors level file line tid now)"
    using assms(2,3) by (simp add: log_prefix_def NUL_dec_digits)
qed (simp add: log_prefix_def)

text \<open>What the logger reads of a line that \<open>Log\<close> has put together: the first of its bytes and the text up to the first \<open>NUL\<close>.\<close>

definition sent_line :: "string \<Rightarrow> string \<Rightarrow> nat \<Rightarrow> string \<Rightarrow> string" where
  "sent_line head tail room text = (if length text < room then head @ text @ tail else head @ take (room - 1) text @ [NUL] @ tail)"

lemma sent_line_received:
  assumes "head = CHR ''l'' # h0" and "NUL \<notin> set (h0 @ text @ tail)" and "length (sent_line head tail room text) < MAX_PRINT_LEN"
  shows "LogRun_receive (sent_line head tail room text) h =
     Some (append_file (gl_log h) (h0 @ (if length text < room then text @ tail else take (room - 1) text)) h)"
proof -
  have plain: "\<forall>c\<in>set (h0 @ text @ tail). c \<noteq> NUL" "\<forall>c\<in>set (h0 @ take (room - 1) text). c \<noteq> NUL"
    using assms(2) by (auto dest: in_set_takeD)
  have "takeWhile (\<lambda>c. c \<noteq> NUL) (drop 1 (sent_line head tail room text)) =
      h0 @ (if length text < room then text @ tail else take (room - 1) text)"
  proof (cases "length text < room")
    case True
    then have "drop 1 (sent_line head tail room text) = h0 @ text @ tail"
      by (simp add: sent_line_def assms(1))
    then show ?thesis
      using True plain(1) by (simp only: takeWhile_eq_all_conv if_True)
  next
    case False
    then have "drop 1 (sent_line head tail room text) = (h0 @ take (room - 1) text) @ NUL # tail"
      by (simp add: sent_line_def assms(1))
    then show ?thesis
      using False plain(2) takeWhile_append2 [of "h0 @ take (room - 1) text" "\<lambda>c. c \<noteq> NUL" "NUL # tail"] by simp
  qed
  moreover have "sent_line head tail room text \<noteq> []" "sent_line head tail room text ! 0 = CHR ''l''"
    by (simp_all add: sent_line_def assms(1))
  ultimately show ?thesis
    using assms(3) by (simp add: LogRun_receive_def Let_def)
qed

text \<open>
  C23: A log line keeps to its buffers and arrives. When the level is on and the part before the text fits, \<open>Log\<close> sends a
  datagram of at most 1499 bytes, which the logger can take, and the logger appends to its file that part
  and the text with the end of the line. Only where the text does not fit is it cut, and then the end of the
  line, with the reset of the colour, is missing in the file, since a \<open>NUL\<close> has been sent before it.
\<close>
theorem log_delivered:
  assumes "level \<le> gl_level g" and "level < 7" and "gl_fd g \<noteq> -1" and "NUL \<notin> set (file @ now @ text)"
    and "head = log_prefix (gl_colors g) level file line tid now" and "tail = line_tail (gl_colors g)"
    and "length head + length tail + 1 < MAX_PRINT_LEN" and "room = MAX_PRINT_LEN - length head - length tail - 1"
  shows "\<exists>d. Log g level file line tid now text = Some (Sent d) \<and> length d < MAX_PRINT_LEN \<and>
     LogRun_receive d h =
       Some (append_file (gl_log h) (drop 1 head @ (if length text < room then text @ tail else take (room - 1) text)) h)"
proof -
  let ?d = "sent_line head tail room text"
  have "head = CHR ''l'' # drop 1 head" and NUL: "NUL \<notin> set head"
    unfolding assms(5) by (rule log_prefix_text; use assms in simp)+
  then obtain h0 where h0: "head = CHR ''l'' # h0"
    by blast
  have "NUL \<notin> set tail"
    by (simp add: assms(6) line_tail_def NORMAL_COLOR_def)
  then have plain: "NUL \<notin> set (h0 @ text @ tail)"
    using NUL assms(4) by (auto simp: h0)
  have "print_line tail head text = Some ?d"
    using print_line_result [OF assms(7)] by (simp add: sent_line_def assms(8))
  then have "Log g level file line tid now text = Some (Sent ?d)"
    using assms(1,3,5,6) by (cases "gl_colors g") (simp_all add: Log_def put_out_def line_tail_def)
  moreover have len: "length ?d < MAX_PRINT_LEN"
    using assms(7,8) by (auto simp: sent_line_def)
  moreover have "drop 1 head = h0"
    by (simp add: h0)
  ultimately show ?thesis
    using sent_line_received [OF h0 plain len, of h] by metis
qed

definition demo_logger :: glogger where
  "demo_logger = \<lparr>gl_level = 3, gl_colors = False, gl_dir = ''/d'', gl_check = 0, gl_close = False, gl_no_cache = False,
     gl_fd = 5, gl_log = ''/d/x'', gl_stat = ''/d/y'', gl_files = (\<lambda>_. []), gl_made = [], gl_address = [],
     gl_cpu = -1\<rparr>"

lemma log_delivered_witness:
  "\<exists>d g. Log demo_logger 3 ''a.cpp'' 7 9 ''now'' ''up'' = Some (Sent d) \<and> LogRun_receive d demo_logger = Some g \<and>
     gl_files g ''/d/x'' = ''a.cpp:7(9) [INFO] [now] up'' @ [LF]"
proof -
  let ?head = "log_prefix False 3 ''a.cpp'' 7 9 ''now''"
  have head: "?head = ''la.cpp:7(9) [INFO] [now] ''"
    by (simp add: log_prefix_def level_names_def dec_digits.simps [of 7] dec_digits.simps [of 9] digit_chr_def)
  have "\<exists>d. Log demo_logger 3 ''a.cpp'' 7 9 ''now'' ''up'' = Some (Sent d) \<and> length d < MAX_PRINT_LEN \<and>
     LogRun_receive d demo_logger = Some (append_file (gl_log demo_logger)
       (drop 1 ?head @ (if length ''up'' < MAX_PRINT_LEN - length ?head - length [LF] - 1 then ''up'' @ [LF]
          else take (MAX_PRINT_LEN - length ?head - length [LF] - 1 - 1) ''up'')) demo_logger)"
    by (rule log_delivered)
      (simp_all add: demo_logger_def line_tail_def MAX_PRINT_LEN_def, simp_all only: head, simp_all)
  then show ?thesis
    by (auto simp: head MAX_PRINT_LEN_def append_file_def demo_logger_def)
qed

section \<open>Hours\<close>

text \<open>The loop ends at the first full hour, counted from \<open>tmp\<close>, that has not passed.\<close>

lemma next_check_from:
  "tmp + i * CHANGE_FILE_TIME < now + CHANGE_FILE_TIME \<Longrightarrow>
     now \<le> next_check tmp now i \<and> next_check tmp now i < now + CHANGE_FILE_TIME \<and>
     CHANGE_FILE_TIME dvd next_check tmp now i - tmp"
proof (induction tmp now i rule: next_check.induct)
  case (1 tmp now i)
  show ?case
  proof (cases "tmp + i * CHANGE_FILE_TIME \<ge> now")
    case True
    then show ?thesis
      using 1(2) by (subst (1 2 3) next_check.simps) simp
  next
    case False
    then have "tmp + (i + 1) * CHANGE_FILE_TIME < now + CHANGE_FILE_TIME"
      by (simp add: distrib_right)
    from 1(1) [OF False this] show ?thesis
      using False by (subst (1 2 3) next_check.simps) simp
  qed
qed

lemma first_check_bounds:
  assumes "mktime ((gsdm_localtime_r now 8)\<lparr>tm_sec := 0, tm_min := 0\<rparr>) \<le> now"
  shows "now \<le> first_check mktime now \<and> first_check mktime now < now + 3600"
  using assms next_check_from [of _ 0 now] by (simp add: first_check_def Let_def CHANGE_FILE_TIME_def)

text \<open>
  A logger that is late loses what it writes. When more than an hour has passed since the check time (the
  machine slept, or the clock was set), the new file is opened once per turn until the check time has caught up, under
  the same name as long as the minute is the same, and every time it is emptied: a line
  written in between is gone.
\<close>
theorem late_logger_loses:
  assumes "gl_dir g \<noteq> []" and "gl_check g + CHANGE_FILE_TIME < now"
    and "day_folder (gl_dir g) now = Some d"
    and "hour_file d ''log'' pid now = Some p" and "hour_file d ''stat'' pid now = Some q" and "p \<noteq> q"
    and "getLocalTimeString ''%H_%M'' now = Some hour" and "hour \<noteq> ''04_00''"
    and "NUL \<notin> set text" and "length text + 1 < MAX_PRINT_LEN"
  shows "\<exists>g1 g2. LogRun_turn m exists (\<lambda>_. True) dirs pid now (Some (''l'' @ text)) g = Some g1 \<and> gl_files g1 p = text \<and>
     LogRun_turn m exists (\<lambda>_. True) dirs pid now None g1 = Some g2 \<and> gl_log g2 = p \<and> gl_files g2 p = []"
proof -
  let ?late = "\<lambda>h. make_folders exists d (h\<lparr>gl_check := gl_check h + CHANGE_FILE_TIME\<rparr>)"
  have late: "gl_check (?late h) = gl_check h + CHANGE_FILE_TIME" "gl_dir (?late h) = gl_dir h" for h
    by (simp_all add: make_folders_def make_folder_def)
  have turn: "ChangeLogFile m exists (\<lambda>_. True) dirs pid now h = Some ((True, []), open_stat q (open_log p (?late h)))"
    if "gl_dir h = gl_dir g" "gl_check h < now" for h
    using that assms(1,3,4,5,7,8) by (simp add: ChangeLogFile_def Let_def open_log_def open_stat_def)
  have T: "takeWhile (\<lambda>c. c \<noteq> NUL) text = text"
    using assms(9) by (simp add: takeWhile_eq_all_conv) blast
  have recv: "LogRun_receive (''l'' @ text) h = Some (append_file (gl_log h) text h)" for h
    using assms(10) by (simp add: LogRun_receive_def T)
  define g1 where "g1 = append_file p text (open_stat q (open_log p (?late g)))"
  have "gl_check g < now"
    using assms(2) by (simp add: CHANGE_FILE_TIME_def)
  from turn [OF refl this] have "LogRun_turn m exists (\<lambda>_. True) dirs pid now (Some (''l'' @ text)) g = Some g1"
    using recv by (simp add: LogRun_turn_def g1_def open_stat_def open_log_def)
  moreover have "gl_files g1 p = text" "gl_dir g1 = gl_dir g" "gl_check g1 < now"
    using assms(2,6) late by (simp_all add: g1_def append_file_def open_stat_def open_log_def)
  ultimately show ?thesis
    using turn [of g1] assms(6) by (simp add: LogRun_turn_def open_stat_def open_log_def)
qed

lemma late_logger_loses_witness:
  "\<exists>g1 g2. LogRun_turn Map.empty (\<lambda>_. True) (\<lambda>_. True) None 7 100000 (Some (''l'' @ ''up'')) demo_logger = Some g1 \<and>
     gl_files g1 ''/d/19700102/log/7_11_46.txt'' = ''up'' \<and>
     LogRun_turn Map.empty (\<lambda>_. True) (\<lambda>_. True) None 7 100000 None g1 = Some g2 \<and> gl_files g2 ''/d/19700102/log/7_11_46.txt'' = []"
proof -
  have "day_folder ''/d'' 100000 = Some ''/d/19700102''"
    "hour_file ''/d/19700102'' ''log'' 7 100000 = Some ''/d/19700102/log/7_11_46.txt''"
    "hour_file ''/d/19700102'' ''stat'' 7 100000 = Some ''/d/19700102/stat/7_11_46.txt''"
    "getLocalTimeString ''%H_%M'' 100000 = Some ''11_46''"
    by code_simp+
  moreover have "gl_dir demo_logger = ''/d''" "gl_check demo_logger + CHANGE_FILE_TIME < 100000" "length ''up'' + 1 < MAX_PRINT_LEN"
    by (simp_all add: demo_logger_def CHANGE_FILE_TIME_def MAX_PRINT_LEN_def)
  ultimately have "\<exists>g1 g2. LogRun_turn Map.empty (\<lambda>_. True) (\<lambda>_. True) None 7 100000 (Some (''l'' @ ''up'')) demo_logger = Some g1 \<and>
      gl_files g1 ''/d/19700102/log/7_11_46.txt'' = ''up'' \<and>
      LogRun_turn Map.empty (\<lambda>_. True) (\<lambda>_. True) None 7 100000 None g1 = Some g2 \<and> gl_log g2 = ''/d/19700102/log/7_11_46.txt'' \<and>
      gl_files g2 ''/d/19700102/log/7_11_46.txt'' = []"
    by (intro late_logger_loses [where d = "''/d/19700102''" and q = "''/d/19700102/stat/7_11_46.txt''" and hour = "''11_46''"]) simp_all
  then show ?thesis
    by blast
qed

text \<open>A folder whose name is no number reads as day 0 and is deleted as an old one.\<close>

lemma other_folders_deleted: "0 < num \<Longrightarrow> old_folders num [(''backup'', True)] = [''backup'']"
  by (simp add: old_folders_def c_atoi_def c_strtol_def is_space_def strtol_sign_def strtol_prefix_def base_digit_def i32_def)

text \<open>A datagram that fills the buffer makes the logger write past it.\<close>

lemma full_datagram_overflows: "length d \<ge> MAX_PRINT_LEN \<Longrightarrow> LogRun_receive d g = None"
  by (cases d) (auto simp: LogRun_receive_def Let_def MAX_PRINT_LEN_def)

end
