(* ===== verification/Manager.thy ===== *)
theory Manager
  imports EventLoop Config
begin

text \<open>
  \<open>EventManager\<close> (\<open>src/eventdrive/manager.cpp\<close>): what \<open>Initialize\<close> makes of the configuration, how workers are put on
  the processors, starting and stopping. \<open>PoolManager::Initialize\<close> and \<open>Loop\<close> hold copies of the same fragments. The
  processors are the list of the numbers of workers on each, a detached one counted as \<open>INT32_MAX\<close>.
\<close>

section \<open>The configuration\<close>

definition INT32_MAX :: int where "INT32_MAX = 0x7fffffff"
definition ERANGE :: nat where "ERANGE = 34"

text \<open>What \<open>strtol\<close> reads before it saturates, for the \<open>ERANGE\<close> it leaves in \<open>errno\<close>, which no one resets.\<close>

definition strtol_value :: "nat \<Rightarrow> string \<Rightarrow> int" where
  "strtol_value base s =
     (let ws = length (takeWhile is_space s);
          (neg, sg) = strtol_sign (drop ws s);
          (b, pre) = strtol_prefix base (drop (ws + sg) s);
          (v, n) = strtol_digits b (drop (ws + sg + pre) s) 0 0
      in if neg then - int v else int v)"

definition strtol_errno :: "string \<Rightarrow> nat \<Rightarrow> nat" where
  "strtol_errno s errno = (if sat64 (strtol_value 10 s) \<noteq> strtol_value 10 s then ERANGE else errno)"

definition detach_one :: "string \<Rightarrow> nat \<times> int list \<Rightarrow> nat \<times> int list" where
  "detach_one piece a =
     (case a of (errno, cpus) \<Rightarrow>
        let v = trim piece; (value, used) = c_strtol 10 v; rs = i32 value; errno = strtol_errno v errno in
        (errno,
         if errno \<noteq> ERANGE \<and> used = length v \<and> used \<noteq> 0 \<and> 0 \<le> rs \<and> rs < int (length cpus)
         then cpus[nat rs := INT32_MAX] else cpus))"

definition detach_cpus :: "string \<Rightarrow> nat \<Rightarrow> int list \<Rightarrow> int list option" where
  "detach_cpus detach errno cpus =
     (if detach = [] then Some cpus
      else do { pieces \<leftarrow> split (trim detach) '',''; Some (snd (fold detach_one pieces (errno, cpus))) })"

datatype limit_call = LimitCore (infinite: bool) nat | LimitNoFile nat

definition limit_calls :: "config_map \<Rightarrow> limit_call list" where
  "limit_calls m =
     (let core = gc_GetLongInt m ''limit_core'' (-1); file = gc_GetLongInt m ''limit_file'' (-1) in
      (if core = 0 then [LimitCore True 0] else if 0 < core then [LimitCore False (nat core)] else []) @
      (if 0 < file then [LimitNoFile (nat file)] else []))"

text \<open>The calls up to the first one that fails.\<close>

fun run_limits :: "(limit_call \<Rightarrow> bool) \<Rightarrow> limit_call list \<Rightarrow> bool" where
  "run_limits ok [] = True"
| "run_limits ok (c # cs) = (if ok c then run_limits ok cs else False)"

definition log_level_of :: "string \<Rightarrow> nat" where
  "log_level_of s =
     (let v = trim s in
      if v = ''FATAL'' then 0
      else if v = ''ERROR'' then 1
      else if v = ''WARNING'' then 2
      else if v = ''INFO'' then 3
      else if v = ''DEBUG'' then 4
      else if v = ''FINE'' then 5
      else if v = ''FINEST'' then 6
      else 3)"

section \<open>Processors\<close>

text \<open>The first of the least loaded processors below \<open>INT32_MAX\<close>; the first of all when there is none.\<close>

fun least_loop :: "int list \<Rightarrow> nat \<Rightarrow> int \<Rightarrow> nat \<Rightarrow> nat" where
  "least_loop [] i least index = index"
| "least_loop (c # cs) i least index =
     (if least > c then least_loop cs (Suc i) c i else least_loop cs (Suc i) least index)"

text \<open>\<open>cpu_[index]++\<close> on a 32-bit \<open>int\<close>: past \<open>INT32_MAX\<close> it is undefined.\<close>

definition count_cpu :: "nat \<Rightarrow> int list \<Rightarrow> int list option" where
  "count_cpu i cpus =
     (if i < length cpus \<and> cpus ! i < INT32_MAX then Some (cpus[i := cpus ! i + 1]) else None)"

definition choose_cpu :: "int list \<Rightarrow> (int \<times> int list) option" where
  "choose_cpu cpus =
     (if cpus = [] then Some (-1, [])
      else let i = least_loop cpus 0 INT32_MAX 0 in map_option (Pair (int i)) (count_cpu i cpus))"

section \<open>Initialize and AddWorker\<close>

record manager =
  mg_cpu :: "int list"
  mg_worker_id :: nat
  mg_workers :: "(nat \<times> int) list"

definition EventManager_new :: "nat \<Rightarrow> manager" where
  "EventManager_new n = \<lparr>mg_cpu = replicate n 0, mg_worker_id = 0, mg_workers = []\<rparr>"

text \<open>
  \<open>Initialize\<close> from the configuration on: \<open>config\<close> is the result of reading it. The system's answers are whether a
  limit can be set, whether the clock can be read and whether the logger starts with a level, a colour and
  a processor.
\<close>

record init_calls =
  in_limit :: "limit_call \<Rightarrow> bool"
  in_clock :: bool
  in_logger :: "string \<Rightarrow> nat \<Rightarrow> bool \<Rightarrow> int \<Rightarrow> bool"

definition EventManager_Initialize ::
    "init_calls \<Rightarrow> bool \<times> config_map \<Rightarrow> nat \<Rightarrow> manager \<Rightarrow> (bool \<times> manager) option" where
  "EventManager_Initialize c config errno g =
     (case config of (ok, m) \<Rightarrow>
        if \<not> ok then Some (False, g)
        else do {
          cpus \<leftarrow> detach_cpus (gc_GetString m ''detach'' []) errno (mg_cpu g);
          let cpus = (if gc_GetBool m ''bind_cpu'' True then cpus else []);
          if \<not> run_limits (in_limit c) (limit_calls m) then Some (False, g\<lparr>mg_cpu := cpus\<rparr>)
          else do {
            (index, cpus) \<leftarrow> choose_cpu cpus;
            Some (in_clock c \<and>
                  in_logger c (gc_GetString m ''log_dir'' []) (log_level_of (gc_GetString m ''log_level'' ''INFO''))
                    (gc_GetBool m ''log_color'' False) index,
                  g\<lparr>mg_cpu := cpus\<rparr>) } })"

definition AddWorker :: "manager \<Rightarrow> manager option" where
  "AddWorker g =
     do { (index, cpus) \<leftarrow> choose_cpu (mg_cpu g);
          Some (g\<lparr>mg_cpu := cpus, mg_worker_id := u32 (mg_worker_id g + 1),
             mg_workers := mg_workers g @ [(mg_worker_id g, index)]\<rparr>) }"

section \<open>Loop, Stop and Close\<close>

text \<open>
  \<open>Loop\<close> runs worker 0 itself and every other one in a thread of its own. The answers of the system are those to the signal
  handlers, \<open>doDaemon\<close>, \<open>changeUser\<close> and the threads; the result is false where one of them fails.
\<close>

record start_calls =
  st_quit_signal :: bool
  st_pipe_signal :: bool
  st_daemon :: bool
  st_user :: "string \<Rightarrow> bool"
  st_log_thread :: bool
  st_thread :: "nat \<Rightarrow> bool"

fun start_threads :: "(nat \<Rightarrow> bool) \<Rightarrow> nat list \<Rightarrow> bool \<times> nat list" where
  "start_threads ok [] = (True, [])"
| "start_threads ok (i # is) =
     (if ok i then (case start_threads ok is of (r, started) \<Rightarrow> (r, i # started)) else (False, []))"

definition start_workers :: "start_calls \<Rightarrow> config_map \<Rightarrow> manager \<Rightarrow> bool \<times> nat list" where
  "start_workers c m g =
     (if \<not> st_quit_signal c then (False, [])
      else if \<not> st_pipe_signal c then (False, [])
      else if gc_GetBool m ''daemon'' False \<and> \<not> st_daemon c then (False, [])
      else let user = gc_GetString m ''user'' [] in
        if user \<noteq> [] \<and> \<not> st_user c user then (False, [])
        else if \<not> st_log_thread c then (False, [])
        else start_threads (st_thread c) (map fst (drop 1 (mg_workers g))))"

text \<open>\<open>Stop\<close> tells every worker to quit; \<open>room\<close> is whether the wake-up socket of a worker took the datagram.\<close>

fun Stop :: "(nat \<Rightarrow> bool) \<Rightarrow> nat list \<Rightarrow> server \<Rightarrow> server option" where
  "Stop room [] sv = Some sv"
| "Stop room (i # js) sv =
     do { w \<leftarrow> sv_workers sv i; Stop room js (put_worker i (NetWorker_Close (room i) w) sv) }"

section \<open>The workers are spread over the processors\<close>

lemma least_loop_spec:
  "(least_loop cs i m x = x \<and> (\<forall>c\<in>set cs. m \<le> c)) \<or>
   (\<exists>k<length cs. least_loop cs i m x = i + k \<and> cs ! k < m \<and> (\<forall>c\<in>set cs. cs ! k \<le> c))"
proof (induction cs arbitrary: i m x)
  case (Cons c cs)
  show ?case
  proof (cases "c < m")
    case True
    from Cons [of "Suc i" c i] show ?thesis
    proof (elim disjE exE conjE)
      fix k assume "k < length cs" "least_loop cs (Suc i) c i = Suc i + k" "cs ! k < c" "\<forall>c\<in>set cs. cs ! k \<le> c"
      then show ?thesis
        using True by (intro disjI2 exI [of _ "Suc k"]) auto
    qed (use True in \<open>auto intro!: exI [of _ 0]\<close>)
  next
    case False
    from Cons [of "Suc i" m x] show ?thesis
    proof (elim disjE exE conjE)
      fix k assume "k < length cs" "least_loop cs (Suc i) m x = Suc i + k" "cs ! k < m" "\<forall>c\<in>set cs. cs ! k \<le> c"
      then show ?thesis
        using False by (intro disjI2 exI [of _ "Suc k"]) auto
    qed (use False in auto)
  qed
qed simp

lemma choose_cpu_least:
  assumes "\<exists>c\<in>set cpus. c < INT32_MAX"
  shows "\<exists>k<length cpus. choose_cpu cpus = Some (int k, cpus[k := cpus ! k + 1]) \<and> cpus ! k < INT32_MAX \<and>
     (\<forall>c\<in>set cpus. cpus ! k \<le> c)"
proof -
  obtain k where "k < length cpus" "least_loop cpus 0 INT32_MAX 0 = k" "cpus ! k < INT32_MAX" "\<forall>c\<in>set cpus. cpus ! k \<le> c"
    using least_loop_spec [of cpus 0 INT32_MAX 0] assms by force
  then show ?thesis
    by (auto simp: choose_cpu_def count_cpu_def)
qed

lemma all_detached_undefined:
  assumes "cpus \<noteq> []" and "\<forall>c\<in>set cpus. c = INT32_MAX"
  shows "choose_cpu cpus = None"
proof -
  have "\<not> cpus ! k < INT32_MAX" if "k < length cpus" for k
    using assms(2) nth_mem [OF that] by auto
  then have "least_loop cpus 0 INT32_MAX 0 = 0"
    using least_loop_spec [of cpus 0 INT32_MAX 0] by auto
  then show ?thesis
    using assms by (cases cpus) (auto simp: choose_cpu_def count_cpu_def)
qed

fun AddWorkers :: "nat \<Rightarrow> manager \<Rightarrow> manager option" where
  "AddWorkers 0 g = Some g"
| "AddWorkers (Suc n) g = do { g \<leftarrow> AddWorkers n g; AddWorker g }"

text \<open>The workers put on processor \<open>i\<close> by the manager.\<close>

definition put_on :: "manager \<Rightarrow> nat \<Rightarrow> nat" where
  "put_on g i = length (filter (\<lambda>w. snd w = int i) (mg_workers g))"

text \<open>With the logger, which \<open>Initialize\<close> has put on processor \<open>l\<close>.\<close>

definition cpu_load :: "nat \<Rightarrow> manager \<Rightarrow> nat \<Rightarrow> nat" where
  "cpu_load l g i = put_on g i + (if i = l then 1 else 0)"

definition spread :: "nat \<Rightarrow> int list \<Rightarrow> nat \<Rightarrow> manager \<Rightarrow> bool" where
  "spread l cpus n g \<longleftrightarrow>
     length (mg_cpu g) = length cpus \<and> map fst (mg_workers g) = [0..<n] \<and> mg_worker_id g = n \<and>
     (\<forall>w\<in>set (mg_workers g). \<exists>i<length cpus. snd w = int i \<and> cpus ! i = 0) \<and>
     (\<forall>i<length cpus. if cpus ! i = 0 then mg_cpu g ! i = int (cpu_load l g i) else mg_cpu g ! i = INT32_MAX) \<and>
     (\<forall>i<length cpus. \<forall>j<length cpus. cpus ! i = 0 \<longrightarrow> cpus ! j = 0 \<longrightarrow> cpu_load l g i \<le> cpu_load l g j + 1)"

lemma put_on_le: "put_on g i \<le> length (mg_workers g)"
  by (simp add: put_on_def)

lemma AddWorker_spread:
  assumes "spread l cpus n g" and "0 \<in> set cpus" and "n < 2 ^ 31 - 2"
  shows "\<exists>g'. AddWorker g = Some g' \<and> spread l cpus (Suc n) g'"
proof -
  note S = assms(1) [unfolded spread_def]
  have len: "length (mg_cpu g) = length cpus" "length (mg_workers g) = n"
    using S by (auto dest: arg_cong [where f = length])
  have load: "mg_cpu g ! i = (if cpus ! i = 0 then int (cpu_load l g i) else INT32_MAX)" if "i < length cpus" for i
    using S that by (auto split: if_splits)
  have small: "int (cpu_load l g i) < INT32_MAX" for i
    using put_on_le [of g i] len(2) assms(3) by (auto simp: INT32_MAX_def cpu_load_def)
  obtain z where z: "z < length cpus" "cpus ! z = 0"
    using assms(2) by (auto simp: in_set_conv_nth)
  have "mg_cpu g ! z < INT32_MAX"
    using load [OF z(1)] z(2) small by simp
  then have "\<exists>c\<in>set (mg_cpu g). c < INT32_MAX"
    using z(1) len(1) by (metis nth_mem)
  from choose_cpu_least [OF this] obtain k where k: "k < length cpus" "choose_cpu (mg_cpu g) = Some (int k, (mg_cpu g)[k := mg_cpu g ! k + 1])"
      "mg_cpu g ! k < INT32_MAX" "\<forall>c\<in>set (mg_cpu g). mg_cpu g ! k \<le> c"
    using len(1) by auto
  have k0: "cpus ! k = 0"
    using load [OF k(1)] k(3) by (auto split: if_splits)
  define g' where "g' = g\<lparr>mg_cpu := (mg_cpu g)[k := mg_cpu g ! k + 1], mg_worker_id := u32 (mg_worker_id g + 1),
             mg_workers := mg_workers g @ [(mg_worker_id g, int k)]\<rparr>"
  have put: "cpu_load l g' i = cpu_load l g i + (if i = k then 1 else 0)" for i
    by (simp add: put_on_def cpu_load_def g'_def)
  have least: "cpu_load l g k \<le> cpu_load l g j" if "j < length cpus" "cpus ! j = 0" for j
    using k(4) load [OF that(1)] load [OF k(1)] that k0 len(1) by (metis nth_mem of_nat_le_iff)
  have "cpu_load l g' i \<le> cpu_load l g' j + 1" if "i < length cpus" "j < length cpus" "cpus ! i = 0" "cpus ! j = 0" for i j
  proof -
    have "cpu_load l g i \<le> cpu_load l g j + 1"
      using S that by blast
    then show ?thesis
      using least [OF that(2,4)] by (auto simp: put)
  qed
  moreover have "if cpus ! i = 0 then mg_cpu g' ! i = int (cpu_load l g' i) else mg_cpu g' ! i = INT32_MAX" if "i < length cpus" for i
    using load [OF that] k0 that len(1) put [of i] by (auto simp: g'_def nth_list_update)
  moreover have "length (mg_cpu g') = length cpus" "map fst (mg_workers g') = [0..<Suc n]" "mg_worker_id g' = Suc n"
    "\<forall>w\<in>set (mg_workers g'). \<exists>i<length cpus. snd w = int i \<and> cpus ! i = 0"
    using S k(1) k0 assms(3) by (auto simp: g'_def u32_small)
  ultimately have "spread l cpus (Suc n) g'"
    unfolding spread_def by blast
  then show ?thesis
    using k(2) by (auto simp: AddWorker_def g'_def)
qed

text \<open>What \<open>Initialize\<close> leaves: every processor free or detached, and the logger counted on a free one.\<close>

lemma detach_one_cpus:
  "detach_one piece (errno, cpus) = (errno', cpus') \<Longrightarrow> set cpus \<subseteq> {0, INT32_MAX} \<Longrightarrow>
     length cpus' = length cpus \<and> set cpus' \<subseteq> {0, INT32_MAX}"
  using set_update_subset_insert by (fastforce simp: detach_one_def Let_def split: prod.splits if_splits)

lemma detach_fold_cpus:
  "set cpus \<subseteq> {0, INT32_MAX} \<Longrightarrow> fold detach_one ps (errno, cpus) = (errno', cpus') \<Longrightarrow>
     length cpus' = length cpus \<and> set cpus' \<subseteq> {0, INT32_MAX}"
proof (induction ps arbitrary: errno cpus)
  case (Cons piece ps)
  obtain e c where "detach_one piece (errno, cpus) = (e, c)"
    by (cases "detach_one piece (errno, cpus)")
  then show ?case
    using Cons.IH [of c e] Cons.prems detach_one_cpus by fastforce
qed simp

lemma detach_cpus_free:
  assumes "detach_cpus detach errno (replicate k 0) = Some cpus"
  shows "length cpus = k \<and> set cpus \<subseteq> {0, INT32_MAX}"
proof -
  have free: "set (replicate k 0) \<subseteq> {0, INT32_MAX}"
    by (cases k) auto
  have "length (snd (fold detach_one ps (errno, replicate k 0))) = k \<and>
      set (snd (fold detach_one ps (errno, replicate k 0))) \<subseteq> {0, INT32_MAX}" for ps
    using detach_fold_cpus [OF free, of ps errno] by (cases "fold detach_one ps (errno, replicate k 0)") simp
  then show ?thesis
    using assms free by (auto simp: detach_cpus_def split: if_splits bind_splits)
qed

lemma Initialize_spread:
  assumes ini: "EventManager_Initialize c (True, m) errno (EventManager_new k) = Some (True, g)"
    and bnd: "gc_GetBool m ''bind_cpu'' True" and k: "0 < k"
    and detach: "detach_cpus (gc_GetString m ''detach'' []) errno (replicate k 0) = Some cpus"
  shows "\<exists>l<k. cpus ! l = 0 \<and> mg_cpu g = cpus[l := 1] \<and> spread l cpus 0 g"
proof -
  note free = detach_cpus_free [OF detach]
  obtain index cpus' where ch: "choose_cpu cpus = Some (index, cpus')" "mg_cpu g = cpus'" "mg_worker_id g = 0" "mg_workers g = []"
    using ini bnd detach by (auto simp: EventManager_Initialize_def EventManager_new_def split: if_splits bind_splits)
  have "cpus \<noteq> []"
    using free k by auto
  then have "\<not> (\<forall>x\<in>set cpus. x = INT32_MAX)"
    using all_detached_undefined [of cpus] ch(1) by auto
  moreover have "(0 :: int) < INT32_MAX"
    by (simp add: INT32_MAX_def)
  ultimately have "\<exists>x\<in>set cpus. x < INT32_MAX"
    using free by auto
  from choose_cpu_least [OF this] obtain l where l: "l < length cpus" "cpus' = cpus[l := cpus ! l + 1]" "cpus ! l < INT32_MAX"
    using ch(1) by auto
  have "cpus ! l \<noteq> INT32_MAX"
    using l(3) by simp
  moreover have "cpus ! l \<in> {0, INT32_MAX}"
    by (rule subsetD [OF conjunct2 [OF free] nth_mem [OF l(1)]])
  ultimately have "cpus ! l = 0"
    by blast
  moreover have "cpus ! i = 0 \<or> cpus ! i = INT32_MAX" if "i < length cpus" for i
    using free nth_mem [OF that] by blast
  ultimately show ?thesis
    using l free ch by (intro exI [of _ l]) (auto simp: spread_def put_on_def cpu_load_def nth_list_update)
qed

text \<open>
  C38: The logger and the workers are spread evenly over the processors. After a successful \<open>Initialize\<close> of the manager
  with bound processors, some of them detached by the configuration, the logger is counted on one processor that is not detached, and any
  number of workers below \<open>INT32_MAX\<close> can be added; they get consecutive numbers, no detached processor
  gets a worker, the loads of any two others, workers and logger together, differ by at most one, and the manager's count of a
  processor is its load.
\<close>
theorem workers_spread:
  assumes "EventManager_Initialize c (True, m) errno (EventManager_new k) = Some (True, g)"
    and "gc_GetBool m ''bind_cpu'' True" and "0 < k"
    and "detach_cpus (gc_GetString m ''detach'' []) errno (replicate k 0) = Some cpus" and "n < 2 ^ 31 - 1"
  shows "\<exists>l<k. cpus ! l = 0 \<and> mg_cpu g = cpus[l := 1] \<and>
     (\<exists>g'. AddWorkers n g = Some g' \<and> map fst (mg_workers g') = [0..<n] \<and>
        (\<forall>w\<in>set (mg_workers g'). \<exists>i<k. snd w = int i \<and> cpus ! i = 0) \<and>
        (\<forall>i<k. cpus ! i = 0 \<longrightarrow> mg_cpu g' ! i = int (put_on g' i + (if i = l then 1 else 0))) \<and>
        (\<forall>i<k. \<forall>j<k. cpus ! i = 0 \<longrightarrow> cpus ! j = 0 \<longrightarrow>
           put_on g' i + (if i = l then 1 else 0) \<le> put_on g' j + (if j = l then 1 else 0) + 1))"
proof -
  obtain l where l: "l < k" "cpus ! l = 0" "mg_cpu g = cpus[l := 1]" "spread l cpus 0 g"
    using Initialize_spread [OF assms(1-4)] by blast
  have len: "length cpus = k"
    using detach_cpus_free [OF assms(4)] by simp
  have "0 \<in> set cpus"
    using l(1,2) len by (metis nth_mem)
  then have "\<exists>g'. AddWorkers n g = Some g' \<and> spread l cpus n g'"
    using assms(5)
  proof (induction n)
    case (Suc n)
    then show ?case
      using AddWorker_spread [of l cpus n] by fastforce
  qed (simp add: l(4))
  then obtain g' where "AddWorkers n g = Some g'" "spread l cpus n g'"
    by blast
  then show ?thesis
    using l(1-3) unfolding spread_def cpu_load_def len by (intro exI [of _ l] conjI exI [of _ g']; fastforce)
qed

lemma workers_spread_witness:
  "\<exists>l g g'. EventManager_Initialize \<lparr>in_limit = (\<lambda>_. True), in_clock = True, in_logger = (\<lambda>_ _ _ _. True)\<rparr> (True, [''detach'' \<mapsto> ''1''])
       0 (EventManager_new 3) = Some (True, g) \<and> mg_cpu g = [0, INT32_MAX, 0][l := 1] \<and>
     AddWorkers 5 g = Some g' \<and> put_on g' 0 + (if 0 = l then 1 else 0) \<le> put_on g' 2 + (if 2 = l then 1 else 0) + 1"
proof -
  let ?c = "\<lparr>in_limit = (\<lambda>_. True), in_clock = True, in_logger = (\<lambda>_ _ _ _. True)\<rparr>" and ?m = "[''detach'' \<mapsto> ''1'']"
  have "pieces '','' ''1'' = [''1'']"
    by (intro pieces_None) simp
  then have "split ''1'' '','' = Some [''1'']"
    by (simp add: split_pieces)
  moreover have "trim ''1'' = ''1''" "snd (detach_one ''1'' (0, [0, 0, 0])) = [0, INT32_MAX, 0]" "replicate 3 (0 :: int) = [0, 0, 0]"
    by code_simp+
  ultimately have d: "detach_cpus (gc_GetString ?m ''detach'' []) 0 (replicate 3 0) = Some [0, INT32_MAX, 0]"
    by (simp add: detach_cpus_def gc_GetString_def)
  have ch: "choose_cpu [0, INT32_MAX, 0] = Some (0, [1, INT32_MAX, 0])"
    by code_simp
  obtain g where g: "EventManager_Initialize ?c (True, ?m) 0 (EventManager_new 3) = Some (True, g)"
    using d ch by (simp add: EventManager_Initialize_def EventManager_new_def gc_GetString_def gc_GetBool_def gc_GetLongInt_def limit_calls_def)
  have "gc_GetBool ?m ''bind_cpu'' True" "(0 :: nat) < 3" "(5 :: nat) < 2 ^ 31 - 1"
    by (simp_all add: gc_GetBool_def)
  from workers_spread [OF g this(1,2) d this(3)] obtain l g' where "mg_cpu g = [0, INT32_MAX, 0][l := 1]" "AddWorkers 5 g = Some g'"
    "\<forall>i<3. \<forall>j<3. [0, INT32_MAX, 0] ! i = 0 \<longrightarrow> [0, INT32_MAX, 0] ! j = 0 \<longrightarrow>
           put_on g' i + (if i = l then 1 else 0) \<le> put_on g' j + (if j = l then 1 else 0) + 1"
    by blast
  moreover from this(3) [rule_format, of 0 2] have "put_on g' 0 + (if 0 = l then 1 else 0) \<le> put_on g' 2 + (if 2 = l then 1 else 0) + 1"
    by simp
  ultimately show ?thesis
    using g by blast
qed

text \<open>\<open>Stop\<close> puts every worker it reaches into the state \<open>CLOSE\<close>, from which \<open>shutdown_completes\<close> starts.\<close>

lemma Stop_closes:
  "\<forall>i\<in>set js. sv_workers sv i \<noteq> None \<Longrightarrow>
     \<exists>sv'. Stop room js sv = Some sv' \<and>
       (\<forall>i. map_option nw_status (sv_workers sv' i) =
          (if i \<in> set js then Some WORKER_STATUS_CLOSE else map_option nw_status (sv_workers sv i)))"
proof (induction room js sv rule: Stop.induct)
  case (2 room i js sv)
  then obtain w where w: "sv_workers sv i = Some w"
    by auto
  let ?sv = "put_worker i (NetWorker_Close (room i) w) sv"
  have "\<forall>i\<in>set js. sv_workers ?sv i \<noteq> None"
    using 2(2) by simp
  from 2(1) [OF w this] obtain sv' where "Stop room js ?sv = Some sv'"
      "\<And>j. map_option nw_status (sv_workers sv' j) =
          (if j \<in> set js then Some WORKER_STATUS_CLOSE else map_option nw_status (sv_workers ?sv j))"
    by blast
  then show ?case
    using w by (auto simp: NetWorker_Close_def)
qed simp

end
