(* ===== verification/PoolManager.thy ===== *)
theory PoolManager
  imports PoolWorker Manager
begin

text \<open>
  \<open>PoolManager\<close> (\<open>src/pooldrive/manager.cpp\<close>): the master that forks a process per worker and forks it anew when it
  dies, the closing, and the process title written over the arguments of the program. What \<open>Initialize\<close> and
  \<open>Loop\<close> share with the event manager is taken from theory Manager.
\<close>

section \<open>The process title\<close>

text \<open>
  The arguments and the environment are addresses with their texts. The area for the title starts at the first
  argument and is extended over everything that follows without a gap; an environment text inside it is copied to
  \<open>pool_env\<close>, where it stands at the given offset.
\<close>

fun area_end :: "nat \<Rightarrow> (nat \<times> string) list \<Rightarrow> nat" where
  "area_end e [] = e"
| "area_end e ((a, s) # xs) = area_end (if e = a then a + length s + 1 else e) xs"

datatype env_place = EnvAt nat | EnvMoved nat

fun move_env :: "nat \<Rightarrow> nat \<Rightarrow> (nat \<times> string) list \<Rightarrow> nat \<times> nat \<times> env_place list" where
  "move_env e p [] = (e, p, [])"
| "move_env e p ((a, s) # xs) =
     (if e = a then (case move_env (a + (length s + 1)) (p + (length s + 1)) xs of (e, q, ys) \<Rightarrow> (e, q, EnvMoved p # ys))
      else (case move_env e p xs of (e, q, ys) \<Rightarrow> (e, q, EnvAt a # ys)))"

definition env_size :: "(nat \<times> string) list \<Rightarrow> nat" where
  "env_size env = sum_list (map (\<lambda>(a, s). length s + 1) env)"

text \<open>The copies fit into the block, and what has not been moved lies outside of the area of the title.\<close>

lemma move_env_room: "move_env e p env = (e', q, ys) \<Longrightarrow> q \<le> p + env_size env"
  by (induction e p env arbitrary: e' q ys rule: move_env.induct) (fastforce simp: env_size_def split: if_splits prod.splits)+

text \<open>What the block holds afterwards: the texts that were moved, one after the other, each at the offset noted for it.\<close>

fun env_block :: "env_place list \<Rightarrow> (nat \<times> string) list \<Rightarrow> string" where
  "env_block (EnvMoved _ # ps) ((_, s) # xs) = s @ NUL # env_block ps xs"
| "env_block (EnvAt _ # ps) (_ # xs) = env_block ps xs"
| "env_block _ _ = []"

lemma env_block_length: "move_env e p env = (e', q, ys) \<Longrightarrow> q = p + length (env_block ys env)"
  by (induction e p env arbitrary: e' q ys rule: move_env.induct) (fastforce split: if_splits prod.splits)+

lemma env_block_holds:
  "move_env e p env = (e', q, ys) \<Longrightarrow> i < length env \<Longrightarrow> ys ! i = EnvMoved k \<Longrightarrow>
     p \<le> k \<and> (\<exists>t. drop (k - p) (env_block ys env) = snd (env ! i) @ NUL # t)"
proof (induction e p env arbitrary: e' q ys i k rule: move_env.induct)
  case (2 e p a s xs)
  show ?case
  proof (cases "e = a")
    case True
    obtain zs where z: "move_env (a + (length s + 1)) (p + (length s + 1)) xs = (e', q, zs)" "ys = EnvMoved p # zs"
      using 2(3) True by (auto split: prod.splits)
    show ?thesis
    proof (cases i)
      case (Suc j)
      then have "p + (length s + 1) \<le> k \<and> (\<exists>t. drop (k - (p + (length s + 1))) (env_block zs xs) = snd (xs ! j) @ NUL # t)"
        using 2(1) [OF True] z 2(4,5) by auto
      moreover from this have "drop (k - p) (env_block ys ((a, s) # xs)) = drop (k - (p + (length s + 1))) (env_block zs xs)"
        using z(2) by (auto simp: drop_Cons' diff_right_commute)
      ultimately show ?thesis
        using Suc by simp
    qed (use 2(5) z in auto)
  next
    case False
    obtain zs where z: "move_env e p xs = (e', q, zs)" "ys = EnvAt a # zs"
      using 2(3) False by (auto split: prod.splits)
    then show ?thesis
      using 2(2) [OF False z(1), of "i - 1" k] 2(4,5) by (cases i) auto
  qed
qed simp

lemma move_env_grows: "move_env e p env = (e', q, ys) \<Longrightarrow> e \<le> e'"
  by (induction e p env arbitrary: e' q ys rule: move_env.induct) (fastforce split: if_splits prod.splits)+

text \<open>
  \<open>snprintf\<close> of the arguments after the title, at most 1023 bytes in all; \<open>rs\<close> counts what would have been written.
\<close>

definition append_max :: "nat \<Rightarrow> string \<Rightarrow> string \<Rightarrow> string" where
  "append_max room buf t = buf @ take (room - 1 - length buf) t"

fun title_args :: "string list \<Rightarrow> nat \<Rightarrow> string \<Rightarrow> nat \<times> string" where
  "title_args [] rs buf = (rs, buf)"
| "title_args (a # args) rs buf =
     (if 1024 > rs then title_args args (rs + (1 + length a)) (append_max 1024 buf ('' '' @ a)) else (rs, buf))"

definition SetTitle :: "string \<Rightarrow> string \<Rightarrow> bool \<Rightarrow> string list \<Rightarrow> nat \<Rightarrow> string" where
  "SetTitle process_name title cmd args end =
     (let t = process_name @ '': '' @ title @ '' process''; (rs, buf) = (length t, append_max 1024 [] t);
          (rs, buf) = (if cmd then title_args args rs buf else (rs, buf)); area = c_strncpy buf end
      in if end > rs then take rs area @ replicate (end - rs) NUL else area)"

lemma title_args_text:
  "buf = take 1023 t \<Longrightarrow> rs = length t \<Longrightarrow>
     snd (title_args args rs buf) = take 1023 (t @ concat (map ((@) '' '') args))"
proof (induction args rs buf arbitrary: t rule: title_args.induct)
  case (2 a args rs buf)
  have "append_max 1024 buf ('' '' @ a) = take 1023 (t @ '' '' @ a)" if "1024 > rs"
    using 2(2,3) that by (simp add: append_max_def)
  then show ?case
    using 2(1) [of "t @ '' '' @ a"] 2(2,3) by (cases "1024 > rs") auto
qed simp

lemma title_args_counts: "length buf \<le> rs \<Longrightarrow> length (snd (title_args args rs buf)) \<le> fst (title_args args rs buf)"
  by (induction args rs buf rule: title_args.induct) (simp_all add: append_max_def)

text \<open>The title and the arguments, cut to the buffer and to the area, and only \<open>NUL\<close> bytes after them.\<close>

lemma SetTitle_shows:
  assumes "NUL \<notin> set (name @ title @ concat args)"
  shows "SetTitle name title cmd args end =
     (let t = take end (take 1023 (name @ '': '' @ title @ '' process'' @ (if cmd then concat (map ((@) '' '') args) else [])))
      in t @ replicate (end - length t) NUL)"
proof -
  let ?t = "name @ '': '' @ title @ '' process''"
  let ?all = "?t @ (if cmd then concat (map ((@) '' '') args) else [])"
  obtain rs buf where r: "(if cmd then title_args args (length ?t) (append_max 1024 [] ?t)
      else (length ?t, append_max 1024 [] ?t)) = (rs, buf)"
    by fastforce
  have buf: "buf = take 1023 ?all"
    using r title_args_text [of "append_max 1024 [] ?t" ?t "length ?t" args] by (auto simp: append_max_def split: if_splits)
  have "c \<noteq> NUL" if "c \<in> set buf" for c
    using in_set_takeD [OF that [unfolded buf]] assms by (auto split: if_splits)
  then have tw: "takeWhile (\<lambda>c. c \<noteq> NUL) buf = buf"
    by (simp add: takeWhile_eq_all_conv)
  have area: "c_strncpy buf end = take end buf @ replicate (end - length (take end buf)) NUL"
    by (simp add: c_strncpy_def tw)
  have "length (append_max 1024 [] u) \<le> length u" for u
    by (simp add: append_max_def)
  from title_args_counts [OF this [of ?t], of args] this [of ?t] have "length buf \<le> rs"
    using r by (cases cmd) (simp_all del: length_append append.simps)
  then have len: "length (take end buf) \<le> rs"
    by simp
  have pad: "take rs (c_strncpy buf end) @ replicate (end - rs) NUL = c_strncpy buf end" if "rs < end"
    using len that by (simp add: area replicate_add [symmetric])
  have "SetTitle name title cmd args end = c_strncpy buf end"
    unfolding SetTitle_def Let_def prod.case r using pad by simp
  then have "SetTitle name title cmd args end = take end (take 1023 ?all) @ replicate (end - length (take end (take 1023 ?all))) NUL"
    unfolding area unfolding buf .
  then show ?thesis
    by (simp only: Let_def append_assoc)
qed

section \<open>State, Initialize and AddWorker\<close>

text \<open>
  \<open>pm_pid\<close> is \<open>pool_pid_\<close> of the workers, \<open>pm_hash\<close> the table \<open>w_hash\<close> from process numbers to workers, \<open>pm_close\<close> the flag
  in shared memory, \<^term>\<open>None\<close> before it is attached. \<open>pm_name\<close> is \<open>process_name_\<close>; \<open>pm_area\<close> is the length of the area for the
  title (\<open>pool_argv_end - pool_argv[0]\<close>), \<open>pm_env\<close> the block \<open>pool_env\<close> with its size and the bytes put into it, and
  \<open>pm_environ\<close> where the entries of \<open>environ\<close> point, none before \<open>Initialize\<close> looked at them.
\<close>

record pool_manager =
  pm_cpu :: "int list"
  pm_modes :: "pool_mode list"
  pm_pid :: "int list"
  pm_hash :: "int \<rightharpoonup> nat"
  pm_log :: int
  pm_close :: "bool option"
  pm_name :: string
  pm_area :: nat
  pm_env :: "(nat \<times> string) option"
  pm_environ :: "env_place list"

definition PoolManager_new :: "nat \<Rightarrow> pool_manager" where
  "PoolManager_new n = \<lparr>pm_cpu = replicate n 0, pm_modes = [], pm_pid = [], pm_hash = Map.empty, pm_log = -1, pm_close = None,
     pm_name = [], pm_area = 0, pm_env = None, pm_environ = []\<rparr>"

definition PoolManager_Initialize :: "(limit_call \<Rightarrow> bool) \<Rightarrow> bool \<times> config_map \<Rightarrow> nat \<Rightarrow> pool_manager \<Rightarrow> (bool \<times> pool_manager) option" where
  "PoolManager_Initialize limit config errno g =
     (case config of (ok, m) \<Rightarrow>
        if \<not> ok then Some (False, g)
        else do {
          cpus \<leftarrow> detach_cpus (gc_GetString m ''detach'' []) errno (pm_cpu g);
          Some (run_limits limit (limit_calls m), g\<lparr>pm_cpu := cpus\<rparr>) })"

definition PoolManager_AddWorker :: "pool_mode \<Rightarrow> pool_manager \<Rightarrow> pool_manager" where
  "PoolManager_AddWorker mode g = g\<lparr>pm_modes := pm_modes g @ [mode], pm_pid := pm_pid g @ [-1]\<rparr>"

section \<open>Loop\<close>

text \<open>
  The answers of the system up to the start of the workers; \<open>fork\<close> answers \<open>-1\<close> or the number of the new process. The
  child runs its worker and exits. \<open>LoopExit\<close> is a call of \<open>exit\<close>.
\<close>

record pool_calls =
  pc_quit_signal :: bool
  pc_pipe_signal :: bool
  pc_daemon :: bool
  pc_logger :: "string \<Rightarrow> nat \<Rightarrow> bool \<Rightarrow> int \<Rightarrow> bool"
  pc_user :: "string \<Rightarrow> bool"
  pc_fork_log :: int
  pc_shm :: bool
  pc_fork :: "nat \<Rightarrow> int"

datatype loop_end = LoopGoes | LoopTrue | LoopFalse | LoopExit

definition fork_worker :: "nat \<Rightarrow> int \<Rightarrow> pool_manager \<Rightarrow> bool \<times> pool_manager" where
  "fork_worker i pid g =
     (let g = g\<lparr>pm_pid := (pm_pid g)[i := pid]\<rparr> in
      if pid = -1 then (False, g) else (True, g\<lparr>pm_hash := (pm_hash g)(pid \<mapsto> i)\<rparr>))"

fun fork_workers :: "(nat \<Rightarrow> int) \<Rightarrow> nat list \<Rightarrow> pool_manager \<Rightarrow> bool \<times> pool_manager" where
  "fork_workers pids [] g = (True, g)"
| "fork_workers pids (i # is) g =
     (case fork_worker i (pids i) g of (ok, g) \<Rightarrow> if ok then fork_workers pids is g else (False, g))"

definition PoolManager_start :: "pool_calls \<Rightarrow> config_map \<Rightarrow> pool_manager \<Rightarrow> (loop_end \<times> pool_manager) option" where
  "PoolManager_start c m g =
     (if \<not> pc_quit_signal c then Some (LoopFalse, g)
      else if \<not> pc_pipe_signal c then Some (LoopFalse, g)
      else if gc_GetBool m ''daemon'' False \<and> \<not> pc_daemon c then Some (LoopFalse, g)
      else if pm_cpu g = [] then None
      else do {
        (index, cpus) \<leftarrow> choose_cpu (pm_cpu g);
        let g = g\<lparr>pm_cpu := cpus\<rparr>;
        let user = gc_GetString m ''user'' [];
        if \<not> pc_logger c (gc_GetString m ''log_dir'' []) (log_level_of (gc_GetString m ''log_level'' ''INFO''))
                (gc_GetBool m ''log_color'' False) index then Some (LoopFalse, g)
        else if user \<noteq> [] \<and> \<not> pc_user c user then Some (LoopFalse, g)
        else let g = g\<lparr>pm_log := pc_fork_log c\<rparr> in
          if pc_fork_log c = -1 then Some (LoopFalse, g)
          else if \<not> pc_shm c then Some (LoopExit, g)
          else case fork_workers (pc_fork c) [0..<length (pm_pid g)] (g\<lparr>pm_close := Some False\<rparr>) of
              (ok, g) \<Rightarrow> Some (if ok then LoopGoes else LoopFalse, g) })"

text \<open>
  One turn of the master: \<open>pid\<close> is the answer of \<open>wait\<close>, \<open>close\<close> whether \<open>is_close_\<close> has been set when it is tested and \<open>new\<close>
  the answer of the \<open>fork\<close> that replaces a worker.
\<close>

record master_turn =
  mt_pid :: int
  mt_close :: bool
  mt_new :: int

definition master_step :: "master_turn \<Rightarrow> pool_manager \<Rightarrow> loop_end \<times> pool_manager" where
  "master_step t g =
     (case pm_hash g (mt_pid t) of
        None \<Rightarrow> (if mt_close t then LoopTrue else LoopGoes, g)
      | Some i \<Rightarrow>
          let g = g\<lparr>pm_hash := (pm_hash g)(mt_pid t := None)\<rparr> in
          if mt_close t then (LoopTrue, g\<lparr>pm_pid := (pm_pid g)[i := -1]\<rparr>)
          else case fork_worker i (mt_new t) g of (ok, g) \<Rightarrow> (if ok then LoopGoes else LoopFalse, g))"

fun master_loop :: "master_turn list \<Rightarrow> pool_manager \<Rightarrow> loop_end \<times> pool_manager" where
  "master_loop [] g = (LoopGoes, g)"
| "master_loop (t # ts) g =
     (case master_step t g of (LoopGoes, g) \<Rightarrow> master_loop ts g | r \<Rightarrow> r)"

section \<open>Stop and Close\<close>

text \<open>\<open>Stop\<close> sets the flag and sends \<open>C\<close> to every worker; without the flag it follows a null pointer.\<close>

definition PoolManager_Stop :: "pool_manager \<Rightarrow> (nat list \<times> pool_manager) option" where
  "PoolManager_Stop g =
     (case pm_close g of None \<Rightarrow> None | Some _ \<Rightarrow> Some ([0..<length (pm_pid g)], g\<lparr>pm_close := Some True\<rparr>))"

text \<open>\<open>Close\<close> waits for the processes of the workers in turn, then for the one of the logger.\<close>

fun close_waits :: "int list \<Rightarrow> int list" where
  "close_waits [] = []"
| "close_waits (pid # pids) = (if pid \<noteq> -1 then pid # close_waits pids else close_waits pids)"

definition PoolManager_Close :: "pool_manager \<Rightarrow> int list \<times> pool_manager" where
  "PoolManager_Close g =
     (close_waits (pm_pid g) @ [pm_log g], g\<lparr>pm_modes := [], pm_pid := [], pm_close := None, pm_env := None\<rparr>)"

text \<open>The entries of \<open>environ\<close> that were moved still point into the block \<open>Close\<close> frees.\<close>

definition environ_dangles :: "pool_manager \<Rightarrow> bool" where
  "environ_dangles g \<longleftrightarrow> pm_env g = None \<and> (\<exists>k. EnvMoved k \<in> set (pm_environ g))"

lemma Close_dangles: "EnvMoved k \<in> set (pm_environ g) \<Longrightarrow> environ_dangles (snd (PoolManager_Close g))"
  by (auto simp: environ_dangles_def PoolManager_Close_def)

section \<open>The master accounts for every process\<close>

text \<open>
  The system's side: \<open>K\<close> are the children of the master that have not been waited for. \<open>wait\<close> gives one of them or \<open>-1\<close>, and
  \<open>fork\<close> \<open>-1\<close> or a number that no such child has.
\<close>

definition turn_ok :: "int set \<Rightarrow> master_turn \<Rightarrow> bool" where
  "turn_ok K t \<longleftrightarrow> (mt_pid t = -1 \<or> mt_pid t \<in> K) \<and>
     (mt_new t = -1 \<or> 0 < mt_new t \<and> mt_new t \<notin> K - {mt_pid t})"

definition children_after :: "int set \<Rightarrow> pool_manager \<Rightarrow> master_turn \<Rightarrow> int set" where
  "children_after K g t =
     (if pm_hash g (mt_pid t) \<noteq> None \<and> \<not> mt_close t \<and> mt_new t \<noteq> -1 then insert (mt_new t) (K - {mt_pid t})
      else K - {mt_pid t})"

fun children_run :: "master_turn list \<Rightarrow> pool_manager \<Rightarrow> int set \<Rightarrow> int set option" where
  "children_run [] g K = Some K"
| "children_run (t # ts) g K =
     (if \<not> turn_ok K t then None
      else case master_step t g of
          (LoopGoes, g') \<Rightarrow> children_run ts g' (children_after K g t)
        | _ \<Rightarrow> Some (children_after K g t))"

definition hash_ok :: "pool_manager \<Rightarrow> bool" where
  "hash_ok g \<longleftrightarrow> (\<forall>p i. pm_hash g p = Some i \<longleftrightarrow> i < length (pm_pid g) \<and> pm_pid g ! i = p \<and> p \<noteq> -1)"

definition master_ok :: "nat \<Rightarrow> int set \<Rightarrow> pool_manager \<Rightarrow> bool" where
  "master_ok n K g \<longleftrightarrow> hash_ok g \<and> length (pm_pid g) = n \<and> dom (pm_hash g) \<subseteq> K \<and> K \<subseteq> insert (pm_log g) (dom (pm_hash g))"

lemma close_waits_filter: "close_waits pids = filter (\<lambda>p. p \<noteq> -1) pids"
  by (induction pids) auto

lemma distinct_filter_nth:
  "(\<And>i j. i < length xs \<Longrightarrow> j < length xs \<Longrightarrow> xs ! i = xs ! j \<Longrightarrow> xs ! i \<noteq> a \<Longrightarrow> i = j) \<Longrightarrow> distinct (filter (\<lambda>x. x \<noteq> a) xs)"
proof (induction xs)
  case (Cons x xs)
  have "distinct (filter (\<lambda>x. x \<noteq> a) xs)"
  proof (rule Cons.IH)
    fix i j
    assume "i < length xs" "j < length xs" "xs ! i = xs ! j" "xs ! i \<noteq> a"
    then show "i = j"
      using Cons.prems [of "Suc i" "Suc j"] by simp
  qed
  moreover have "x = a" if "x \<in> set xs"
  proof (rule ccontr)
    assume "x \<noteq> a"
    obtain j where "j < length xs" "xs ! j = x"
      using \<open>x \<in> set xs\<close> by (auto simp: in_set_conv_nth)
    then show False
      using Cons.prems [of 0 "Suc j"] \<open>x \<noteq> a\<close> by simp
  qed
  ultimately show ?case
    by auto
qed simp

lemma hash_ok_waits:
  assumes "hash_ok g"
  shows "distinct (close_waits (pm_pid g))" and "set (close_waits (pm_pid g)) = dom (pm_hash g)"
proof -
  have "i = j" if "i < length (pm_pid g)" "j < length (pm_pid g)" "pm_pid g ! i = pm_pid g ! j" "pm_pid g ! i \<noteq> -1" for i j
    using assms that unfolding hash_ok_def by (metis option.inject)
  then show "distinct (close_waits (pm_pid g))"
    unfolding close_waits_filter by (rule distinct_filter_nth)
  show "set (close_waits (pm_pid g)) = dom (pm_hash g)"
    using assms by (auto simp: close_waits_filter hash_ok_def in_set_conv_nth dom_def)
qed

text \<open>A worker without a process gets a new one; the process of a worker is gone.\<close>

lemma hash_okD: "hash_ok g \<Longrightarrow> pm_hash g p = Some i \<longleftrightarrow> i < length (pm_pid g) \<and> pm_pid g ! i = p \<and> p \<noteq> -1"
  by (simp add: hash_ok_def)

lemma hash_ok_put:
  assumes "hash_ok g" and "i < length (pm_pid g)" and "pm_pid g ! i = -1" and "pm_hash g p = None" and "p \<noteq> -1"
  shows "hash_ok (g\<lparr>pm_pid := (pm_pid g)[i := p], pm_hash := (pm_hash g)(p \<mapsto> i)\<rparr>)"
proof -
  have "pm_pid g ! j \<noteq> p" if "j < length (pm_pid g)" for j
    using that assms(4,5) hash_okD [OF assms(1), of p j] by auto
  moreover have "pm_hash g q = Some j \<longleftrightarrow> j < length (pm_pid g) \<and> pm_pid g ! j = q \<and> q \<noteq> -1" for q j
    by (rule hash_okD [OF assms(1)])
  ultimately show ?thesis
    using assms(2,3,5) by (auto simp: hash_ok_def nth_list_update)
qed

lemma hash_ok_drop:
  assumes "hash_ok g" and "pm_hash g p = Some i"
  shows "hash_ok (g\<lparr>pm_hash := (pm_hash g)(p := None), pm_pid := (pm_pid g)[i := -1]\<rparr>)"
    and "i < length (pm_pid g)" and "p \<noteq> -1"
proof -
  have H: "pm_hash g q = Some j \<longleftrightarrow> j < length (pm_pid g) \<and> pm_pid g ! j = q \<and> q \<noteq> -1" for q j
    by (rule hash_okD [OF assms(1)])
  then show len: "i < length (pm_pid g)" and "p \<noteq> -1"
    using assms(2) by blast+
  have "j = i" if "j < length (pm_pid g)" "pm_pid g ! j = p" for j
    using that H [of p j] H [of p i] assms(2) by simp
  then show "hash_ok (g\<lparr>pm_hash := (pm_hash g)(p := None), pm_pid := (pm_pid g)[i := -1]\<rparr>)"
  proof (unfold hash_ok_def, intro allI)
    fix q k
    show "pm_hash (g\<lparr>pm_hash := (pm_hash g)(p := None), pm_pid := (pm_pid g)[i := -1]\<rparr>) q = Some k \<longleftrightarrow>
      k < length (pm_pid (g\<lparr>pm_hash := (pm_hash g)(p := None), pm_pid := (pm_pid g)[i := -1]\<rparr>)) \<and>
      pm_pid (g\<lparr>pm_hash := (pm_hash g)(p := None), pm_pid := (pm_pid g)[i := -1]\<rparr>) ! k = q \<and> q \<noteq> -1"
      using H [of q k] H [of p i] H [of p k] len assms(2) by (cases "k = i"; cases "q = p") auto
  qed
qed

lemma master_step_ok:
  assumes M: "master_ok n K g" and T: "turn_ok K t" and S: "master_step t g = (e, g')" and all: "-1 \<notin> set (pm_pid g)"
  shows "master_ok n (children_after K g t) g' \<and> pm_log g' = pm_log g \<and> (e = LoopGoes \<longrightarrow> -1 \<notin> set (pm_pid g'))"
proof (cases "pm_hash g (mt_pid t)")
  case None
  then have "children_after K g t = K - {mt_pid t}" "g' = g"
    using S by (auto simp: children_after_def master_step_def)
  then show ?thesis
    using M None all by (auto simp: master_ok_def dom_def)
next
  case (Some i)
  have H: "hash_ok g" and n: "length (pm_pid g) = n" and K: "dom (pm_hash g) \<subseteq> K" "K \<subseteq> insert (pm_log g) (dom (pm_hash g))"
    using M by (simp_all add: master_ok_def)
  define h where "h = g\<lparr>pm_hash := (pm_hash g)(mt_pid t := None), pm_pid := (pm_pid g)[i := -1]\<rparr>"
  have h: "hash_ok h" and i: "i < length (pm_pid g)" and p: "mt_pid t \<noteq> -1"
    using hash_ok_drop [OF H Some] by (simp_all add: h_def)
  have pid: "mt_pid t \<in> K"
    using Some K(1) by blast
  have Kh: "dom (pm_hash h) \<subseteq> K - {mt_pid t}" "K - {mt_pid t} \<subseteq> insert (pm_log h) (dom (pm_hash h))"
    using K by (auto simp: h_def)
  consider (close) "mt_close t" | (failed) "\<not> mt_close t" "mt_new t = -1" | (new) "\<not> mt_close t" "mt_new t \<noteq> -1"
    by blast
  then show ?thesis
  proof cases
    case close
    then have "g' = h" "e = LoopTrue" "children_after K g t = K - {mt_pid t}"
      using S Some by (auto simp: master_step_def h_def children_after_def)
    then show ?thesis
      using h Kh n by (auto simp: master_ok_def h_def)
  next
    case failed
    then have "g' = h" "e = LoopFalse" "children_after K g t = K - {mt_pid t}"
      using S Some by (auto simp: master_step_def h_def children_after_def fork_worker_def)
    then show ?thesis
      using h Kh n by (auto simp: master_ok_def h_def)
  next
    case new
    then have fresh: "mt_new t \<notin> K - {mt_pid t}"
      using T by (simp add: turn_ok_def)
    then have none: "pm_hash h (mt_new t) = None"
      using Kh(1) by blast
    have r: "g' = h\<lparr>pm_pid := (pm_pid h)[i := mt_new t], pm_hash := (pm_hash h)(mt_new t \<mapsto> i)\<rparr>" "e = LoopGoes"
        "children_after K g t = insert (mt_new t) (K - {mt_pid t})"
      using S Some new i by (auto simp: master_step_def h_def children_after_def fork_worker_def)
    have "hash_ok g'"
      unfolding r(1) using h i none new(2) by (intro hash_ok_put) (simp_all add: h_def)
    moreover have "-1 \<notin> set (pm_pid g')"
    proof -
      have "pm_pid g' = (pm_pid g)[i := mt_new t]"
        by (simp add: r(1) h_def)
      then show ?thesis
        using all new(2) set_update_subset_insert [of "pm_pid g" i "mt_new t"] by auto
    qed
    ultimately show ?thesis
      using Kh n r by (auto simp: master_ok_def h_def)
  qed
qed

lemma master_loop_ok:
  assumes "master_ok n K g" and "-1 \<notin> set (pm_pid g)" and "children_run ts g K = Some K'" and "master_loop ts g = (e, g')"
  shows "master_ok n K' g' \<and> pm_log g' = pm_log g \<and> (e = LoopGoes \<longrightarrow> -1 \<notin> set (pm_pid g'))"
  using assms
proof (induction ts arbitrary: g K)
  case (Cons t ts)
  obtain r h where S: "master_step t g = (r, h)"
    by fastforce
  have T: "turn_ok K t"
    using Cons.prems(3) by (auto split: if_splits)
  note step = master_step_ok [OF Cons.prems(1) T S Cons.prems(2)]
  show ?case
  proof (cases "r = LoopGoes")
    case True
    then show ?thesis
      using Cons.IH [of "children_after K g t" h] Cons.prems(3,4) S T step by auto
  next
    case False
    then have "g' = h" "e = r" "K' = children_after K g t"
      using Cons.prems(3,4) S T by (cases r; simp)+
    then show ?thesis
      using step by simp
  qed
qed auto

lemma fork_workers_ok:
  assumes "fork_workers pids js g = (True, g')" and "hash_ok g" and "distinct js"
    and "\<forall>i\<in>set js. i < length (pm_pid g) \<and> pm_pid g ! i = -1 \<and> pm_hash g (pids i) = None" and "distinct (map pids js)"
  shows "hash_ok g' \<and> length (pm_pid g') = length (pm_pid g) \<and> pm_log g' = pm_log g \<and>
     dom (pm_hash g') = dom (pm_hash g) \<union> pids ` set js \<and>
     (\<forall>k<length (pm_pid g). pm_pid g' ! k = (if k \<in> set js then pids k else pm_pid g ! k)) \<and> -1 \<notin> pids ` set js"
  using assms
proof (induction pids js g rule: fork_workers.induct)
  case (2 pids i js g)
  define h where "h = g\<lparr>pm_pid := (pm_pid g)[i := pids i], pm_hash := (pm_hash g)(pids i \<mapsto> i)\<rparr>"
  have p: "pids i \<noteq> -1" and F: "fork_worker i (pids i) g = (True, h)"
    using 2(2) by (auto simp: fork_worker_def h_def Let_def split: if_splits)
  then have R: "fork_workers pids js h = (True, g')"
    using 2(2) by simp
  have H: "hash_ok h"
    unfolding h_def using 2(3,5) p by (intro hash_ok_put) simp_all
  have "pids k \<noteq> pids i" if "k \<in> set js" for k
    using 2(6) that by (auto simp: rev_image_eqI)
  then have "\<forall>k\<in>set js. k < length (pm_pid h) \<and> pm_pid h ! k = -1 \<and> pm_hash h (pids k) = None"
    using 2(4-5) by (auto simp: h_def nth_list_update)
  from 2(1) [OF F [symmetric] TrueI R H _ this] show ?case
    using 2(4-6) p by (auto simp: h_def nth_list_update)
qed simp

text \<open>
  C21: The master accounts for every process. However its children end and whatever \<open>wait\<close> and \<open>fork\<close> answer, while the loop
  goes on every worker has a process, the table of processes says which, and when the loop has been left, \<open>Close\<close> waits
  for every worker that still has a process exactly once; after it at most the logger is left to be waited for.
\<close>
theorem master_accounts:
  assumes "fork_workers pids [0..<n] g\<^sub>0 = (True, g)" and "pm_pid g\<^sub>0 = replicate n (-1)" and "pm_hash g\<^sub>0 = Map.empty"
    and "distinct (map pids [0..<n])"
    and "children_run turns g (insert (pm_log g) (set (pm_pid g))) = Some K" and "master_loop turns g = (e, g')"
  shows "distinct (close_waits (pm_pid g')) \<and> set (close_waits (pm_pid g')) \<subseteq> K \<and>
     K \<subseteq> insert (pm_log g') (set (close_waits (pm_pid g'))) \<and>
     (\<forall>p i. pm_hash g' p = Some i \<longleftrightarrow> i < n \<and> pm_pid g' ! i = p \<and> p \<noteq> -1) \<and>
     (e = LoopGoes \<longrightarrow> (\<forall>i<n. pm_hash g' (pm_pid g' ! i) = Some i))"
proof -
  have "hash_ok g\<^sub>0"
    using assms(2,3) by (auto simp: hash_ok_def)
  from fork_workers_ok [OF assms(1) this _ _ assms(4)]
  have F: "hash_ok g" "length (pm_pid g) = n" "dom (pm_hash g) = pids ` {0..<n}" "-1 \<notin> pids ` {0..<n}"
      "\<forall>k<n. pm_pid g ! k = pids k"
    using assms(2,3) by (auto simp: dom_def)
  have "pm_pid g = map pids [0..<n]"
    using F(2,5) by (intro nth_equalityI) simp_all
  then have "set (pm_pid g) = pids ` {0..<n}"
    by simp
  then have "master_ok n (insert (pm_log g) (set (pm_pid g))) g" "-1 \<notin> set (pm_pid g)"
    using F by (auto simp: master_ok_def)
  from master_loop_ok [OF this assms(5,6)]
  have M: "hash_ok g'" "length (pm_pid g') = n" "dom (pm_hash g') \<subseteq> K" "K \<subseteq> insert (pm_log g') (dom (pm_hash g'))"
      "e = LoopGoes \<longrightarrow> -1 \<notin> set (pm_pid g')"
    unfolding master_ok_def by argo+
  have H: "pm_hash g' p = Some i \<longleftrightarrow> i < n \<and> pm_pid g' ! i = p \<and> p \<noteq> -1" for p i
    using hash_okD [OF M(1)] M(2) by simp
  then have "pm_hash g' (pm_pid g' ! i) = Some i" if "e = LoopGoes" "i < n" for i
    using M(2,5) that by (auto simp: in_set_conv_nth)
  then show ?thesis
    using hash_ok_waits [OF M(1)] M(3,4) H by auto
qed

text \<open>Two workers; the second dies and is replaced, then the first ends after the close.\<close>

definition demo_master :: pool_manager where
  "demo_master = PoolManager_AddWorker POOLWORKERMODE_SYS
     (PoolManager_AddWorker POOLWORKERMODE_SYS ((PoolManager_new 4)\<lparr>pm_log := 9\<rparr>))"

definition demo_turns :: "master_turn list" where
  "demo_turns = [\<lparr>mt_pid = 11, mt_close = False, mt_new = 12\<rparr>, \<lparr>mt_pid = 10, mt_close = True, mt_new = -1\<rparr>]"

lemma master_accounts_witness:
  "\<exists>g g'. fork_workers (\<lambda>i. 10 + int i) [0..<2] demo_master = (True, g) \<and> master_loop demo_turns g = (LoopTrue, g') \<and>
     close_waits (pm_pid g') = [12] \<and> distinct (close_waits (pm_pid g')) \<and> {12} \<subseteq> {9, 12 :: int}"
proof -
  let ?g = "snd (fork_workers (\<lambda>i. 10 + int i) [0..<2] demo_master)"
  let ?h = "snd (master_loop demo_turns ?g)"
  have up: "[0..<2] = [0, Suc 0]"
    by (simp add: upt_rec)
  have F: "fork_workers (\<lambda>i. 10 + int i) [0..<2] demo_master = (True, ?g)"
    by (simp add: up fork_worker_def)
  have L: "master_loop demo_turns ?g = (LoopTrue, ?h)" and W: "close_waits (pm_pid ?h) = [12]"
    by (simp_all add: up fork_worker_def demo_master_def demo_turns_def PoolManager_AddWorker_def PoolManager_new_def
        master_step_def)
  have K: "children_run demo_turns ?g (insert (pm_log ?g) (set (pm_pid ?g))) = Some {9, 12}"
    by (auto simp add: up fork_worker_def demo_master_def demo_turns_def PoolManager_AddWorker_def PoolManager_new_def
        master_step_def turn_ok_def children_after_def)
  have "pm_pid demo_master = replicate 2 (-1)" "pm_hash demo_master = Map.empty"
    by (simp_all add: demo_master_def PoolManager_AddWorker_def PoolManager_new_def numeral_2_eq_2)
  moreover have "distinct (map (\<lambda>i. 10 + int i) [0..<2])"
    by (simp add: up)
  ultimately have "distinct (close_waits (pm_pid ?h)) \<and> set (close_waits (pm_pid ?h)) \<subseteq> {9, 12}"
    using master_accounts [OF F _ _ _ K L] by blast
  then show ?thesis
    using F L W by (intro exI [of _ ?g] exI [of _ ?h]) (simp only: list.set)
qed

end
