(* ===== verification/CommandLine.thy ===== *)
theory CommandLine
  imports Logger PoolManager
begin

text \<open>
  The command line of a program (\<open>EventManager::Initialize\<close> and \<open>PoolManager::Initialize\<close> in
  \<open>src/eventdrive/manager.cpp\<close> and \<open>src/pooldrive/manager.cpp\<close>): what \<open>getopt_long\<close> makes of the arguments for the
  options of the sources, the loop over them, and the option \<open>r\<close>, with which a second start of a program sets the log
  level of the running one through a datagram to its logger.
\<close>

section \<open>Options\<close>

text \<open>
  \<open>getopt_long\<close> with the short options \<open>hvf:r:#\<close> and the long ones \<open>help\<close>, \<open>version\<close>, \<open>config\<close>, \<open>reset\<close>, which may be
  abbreviated as long as one of them is meant. Arguments that are no options are passed over; \<open>?\<close> stands for a mistake,
  which the library reports. The result is the sequence of what it returns, with \<open>optarg\<close>.
\<close>

definition longopts :: "(string \<times> bool \<times> char) list" where
  "longopts = [(''help'', False, CHR ''h''), (''version'', False, CHR ''v''), (''config'', True, CHR ''f''), (''reset'', True, CHR ''r'')]"

definition short_option :: "char \<Rightarrow> bool option" where
  "short_option c = (if c \<in> set ''hv#'' then Some False else if c \<in> set ''fr'' then Some True else None)"

definition bad_option :: "char \<times> string" where
  "bad_option = (CHR ''?'', [])"

text \<open>A group of short options; the second result is whether its last one took the next argument.\<close>

fun short_group :: "string \<Rightarrow> string list \<Rightarrow> (char \<times> string) list \<times> bool" where
  "short_group [] next = ([], False)"
| "short_group (c # cs) next =
     (case short_option c of
        None \<Rightarrow> (case short_group cs next of (os, took) \<Rightarrow> (bad_option # os, took))
      | Some False \<Rightarrow> (case short_group cs next of (os, took) \<Rightarrow> ((c, []) # os, took))
      | Some True \<Rightarrow>
          if cs \<noteq> [] then ([(c, cs)], False)
          else case next of [] \<Rightarrow> ([bad_option], False) | a # _ \<Rightarrow> ([(c, a)], True))"

definition long_option :: "string \<Rightarrow> string list \<Rightarrow> (char \<times> string) \<times> bool" where
  "long_option s next =
     (let name = takeWhile (\<lambda>c. c \<noteq> CHR ''='') s; given = CHR ''='' \<in> set s; value = drop (length name + 1) s in
      case filter (\<lambda>(n, _). take (length name) n = name) longopts of
        [(_, False, c)] \<Rightarrow> (if given then bad_option else (c, []), False)
      | [(_, True, c)] \<Rightarrow>
          (if given then ((c, value), False) else case next of [] \<Rightarrow> (bad_option, False) | a # _ \<Rightarrow> ((c, a), True))
      | _ \<Rightarrow> (bad_option, False))"

fun getopt_long :: "string list \<Rightarrow> (char \<times> string) list" where
  "getopt_long [] = []"
| "getopt_long (a # as) =
     (if a = ''--'' then []
      else if take 2 a = ''--'' then
        (case long_option (drop 2 a) as of (opt, took) \<Rightarrow> opt # getopt_long (if took then drop 1 as else as))
      else if take 1 a = ''-'' \<and> a \<noteq> ''-'' then
        (case short_group (drop 1 a) as of (os, took) \<Rightarrow> os @ getopt_long (if took then drop 1 as else as))
      else getopt_long as)"

section \<open>The option r\<close>

text \<open>\<open>%u\<close> of a process number, which is an \<open>int\<close>.\<close>

definition c_unsigned :: "int \<Rightarrow> string" where
  "c_unsigned n = dec_digits (nat (n mod 2 ^ 32))"

definition pid_log_path :: "int \<Rightarrow> string" where
  "pid_log_path pid = GSDM_BACK_ROOT_DIR @ ''/gsdm_log_'' @ c_unsigned pid"

text \<open>
  The datagram goes out with the length \<open>snprintf\<close> would have written and its \<open>NUL\<close>: a text that does not fit into the 1024
  bytes makes \<open>sendto\<close> read past them.
\<close>

definition reset_cmd :: "string \<Rightarrow> string option" where
  "reset_cmd optarg =
     do { (len, cmd) \<leftarrow> c_snprintf (replicate 1024 NUL) 0 1024 (CHR ''u'' # trim optarg);
          mem_read cmd 0 (nat len + 1) }"

text \<open>The first process of the name that is another one; the result is the address and the datagram.\<close>

fun reset_log :: "int \<Rightarrow> int list \<Rightarrow> string \<Rightarrow> (string \<times> string) option option" where
  "reset_log own [] optarg = Some None"
| "reset_log own (p # ps) optarg =
     (if p = own then reset_log own ps optarg
      else do { cmd \<leftarrow> reset_cmd optarg; Some (Some (sun_path (pid_log_path p), cmd)) })"

section \<open>Initialize\<close>

datatype options_end =
  EndUsage | EndVersion string | EndReset "(string \<times> string) option" | EndOptions string

fun read_options :: "string \<Rightarrow> int \<Rightarrow> int list \<Rightarrow> (char \<times> string) list \<Rightarrow> string \<Rightarrow> options_end option" where
  "read_options version own pids [] config_txt = Some (EndOptions config_txt)"
| "read_options version own pids ((opt, optarg) # opts) config_txt =
     (if opt = CHR ''h'' then Some EndUsage
      else if opt = CHR ''v'' then Some (EndVersion version)
      else if opt = CHR ''r'' then map_option EndReset (reset_log own pids optarg)
      else if opt = CHR ''f'' then read_options version own pids opts optarg
      else read_options version own pids opts config_txt)"

text \<open>
  What the program sees: its number, the entries of \<open>/proc\<close>, the files, \<open>errno\<close>. What it puts out before it ends: the usage,
  the version, a datagram.
\<close>

record program_env =
  pe_pid :: int
  pe_proc :: "proc_entry list option"
  pe_disk :: "string \<rightharpoonup> byte list"
  pe_may_open :: "string \<Rightarrow> bool"
  pe_errno :: nat

datatype init_output = Usage | Version string | ResetTo string string

definition main_options :: "program_env \<Rightarrow> string \<Rightarrow> string list \<Rightarrow> options_end option" where
  "main_options e version argv =
     (case argv of
        [] \<Rightarrow> None
      | prog # args \<Rightarrow>
          read_options version (pe_pid e) (getPidByName (getFileName prog) (pe_proc e)) (getopt_long args) [])"

definition config_usage :: "bool \<Rightarrow> init_output list" where
  "config_usage ok = (if ok then [] else [Usage])"

definition main_init ::
    "(bool \<times> config_map \<Rightarrow> (bool \<times> 'g) option) \<Rightarrow> program_env \<Rightarrow> string \<Rightarrow> string list \<Rightarrow> 'g \<Rightarrow>
      (init_output list \<times> bool \<times> 'g) option" where
  "main_init start e version argv g =
     do { end \<leftarrow> main_options e version argv;
          case end of
            EndUsage \<Rightarrow> Some ([Usage], False, g)
          | EndVersion v \<Rightarrow> Some ([Version v], False, g)
          | EndReset None \<Rightarrow> Some ([], False, g)
          | EndReset (Some (address, cmd)) \<Rightarrow> Some ([ResetTo address cmd], False, g)
          | EndOptions config_txt \<Rightarrow> do {
              let config = gc_Initialize (pe_disk e) (pe_may_open e) config_txt;
              (ok, g) \<leftarrow> start config;
              Some (config_usage (fst config), ok, g) } }"

definition EventManager_main :: "program_env \<Rightarrow> init_calls \<Rightarrow> string \<Rightarrow> string list \<Rightarrow> manager \<Rightarrow>
    (init_output list \<times> bool \<times> manager) option" where
  "EventManager_main e c version argv g =
     main_init (\<lambda>config. EventManager_Initialize c config (pe_errno e) g) e version argv g"

text \<open>
  Before the options the pool manager takes its name and the area of its title from the memory of the arguments (theory
  PoolManager), and the environment behind them moves to a block of its own. \<open>basename\<close> cuts slashes at the end of its argument
  off in place, so the first argument may be shorter afterwards. The arguments are addresses with their texts.
\<close>

definition basename_leaves :: "string \<Rightarrow> string" where
  "basename_leaves s = (let t = rev (dropWhile (\<lambda>c. c = CHR ''/'') (rev s)) in if t = [] then s else t)"

definition c_basename :: "string \<Rightarrow> string" where
  "c_basename s =
     (let t = rev (dropWhile (\<lambda>c. c = CHR ''/'') (rev s)) in
      if s = [] then ''.'' else if t = [] then ''/'' else getFileName t)"

definition PoolManager_title :: "(nat \<times> string) list \<Rightarrow> (nat \<times> string) list \<Rightarrow> pool_manager \<Rightarrow> pool_manager option" where
  "PoolManager_title argv env g =
     (case argv of
        [] \<Rightarrow> None
      | (a, prog) # args \<Rightarrow>
          (case move_env (area_end a ((a, basename_leaves prog) # args)) 0 env of
             (e, _, places) \<Rightarrow>
               Some (g\<lparr>pm_name := c_basename prog, pm_area := e - 1 - a,
                 pm_env := Some (env_size env, env_block places env), pm_environ := places\<rparr>)))"

definition title_argv :: "(nat \<times> string) list \<Rightarrow> string list" where
  "title_argv argv = (case argv of [] \<Rightarrow> [] | (_, prog) # args \<Rightarrow> basename_leaves prog # map snd args)"

definition PoolManager_main ::
    "program_env \<Rightarrow> (limit_call \<Rightarrow> bool) \<Rightarrow> string \<Rightarrow> (nat \<times> string) list \<Rightarrow> (nat \<times> string) list \<Rightarrow> pool_manager \<Rightarrow>
      (init_output list \<times> bool \<times> pool_manager) option" where
  "PoolManager_main e limit version argv env g =
     do { g \<leftarrow> PoolManager_title argv env g;
          main_init (\<lambda>config. PoolManager_Initialize limit config (pe_errno e) g) e version (title_argv argv) g }"

text \<open>The copies fit into the block, and an entry of \<open>environ\<close> that was moved shows its old text there.\<close>

lemma PoolManager_title_env:
  assumes "PoolManager_title argv env g = Some g'"
  shows "\<exists>size block. pm_env g' = Some (size, block) \<and> length block \<le> size \<and>
     (\<forall>i k. i < length env \<and> pm_environ g' ! i = EnvMoved k \<longrightarrow> (\<exists>t. drop k block = snd (env ! i) @ NUL # t))"
proof -
  obtain e e' q places where m: "move_env e 0 env = (e', q, places)"
      and g: "pm_env g' = Some (env_size env, env_block places env)" "pm_environ g' = places"
    using assms by (auto simp: PoolManager_title_def split: list.splits prod.splits)
  show ?thesis
    using move_env_room [OF m] env_block_length [OF m] env_block_holds [OF m] g by auto
qed

section \<open>Setting the level of a running program\<close>

lemma getopt_separate [simp]: "getopt_long [''-r'', v] = [(CHR ''r'', v)]"
  by (simp add: short_option_def)

lemma getopt_joined [simp]: "v \<noteq> [] \<Longrightarrow> getopt_long [''-r'' @ v] = [(CHR ''r'', v)]"
  by (simp add: short_option_def numeral_2_eq_2)

lemma getopt_long_separate [simp]: "getopt_long [''--reset'', v] = [(CHR ''r'', v)]"
  by (simp add: long_option_def longopts_def numeral_2_eq_2)

lemma getopt_long_joined [simp]: "getopt_long [''--reset='' @ v] = [(CHR ''r'', v)]"
  by (simp add: long_option_def longopts_def numeral_2_eq_2)

lemma reset_log_first:
  "filter (\<lambda>p. p \<noteq> own) pids = p # ps \<Longrightarrow>
     reset_log own pids v = do { cmd \<leftarrow> reset_cmd v; Some (Some (sun_path (pid_log_path p), cmd)) }"
  by (induction own pids v rule: reset_log.induct) (auto split: if_splits)

lemma trim_no_blank: "\<forall>c\<in>set v. \<not> is_blank c \<Longrightarrow> length v < 2 ^ 31 \<Longrightarrow> trim v = v"
  using trim_unique [of "[]" v "[]"] by (cases "v = []") (auto simp: stripped_def)

lemma reset_cmd_fits:
  assumes "trim v = v" and "length v \<le> 1022"
  shows "reset_cmd v = Some (CHR ''u'' # v @ [NUL])"
proof -
  have "mem_write (replicate 1024 NUL) 0 (CHR ''u'' # v @ [NUL]) = Some ((CHR ''u'' # v @ [NUL]) @ replicate (1022 - length v) NUL)"
    using mem_write_at [of "CHR ''u'' # v @ [NUL]" "replicate 1024 NUL" "[]"] assms(2) by simp
  then show ?thesis
    using assms by (simp add: reset_cmd_def c_snprintf_def mem_read_def nat_add_distrib)
qed

lemma split_three:
  assumes "CHR '','' \<notin> set (a @ b @ c)"
  shows "split (a @ '','' @ b @ '','' @ c) '','' = Some [a, b, c]"
proof -
  have "pieces '','' c = [c]"
    using assms by (simp add: pieces_None find_prefix_hd_None)
  moreover have "pieces '','' (x @ '','' @ y) = x # pieces '','' y" if "CHR '','' \<notin> set x" for x y
    using that find_prefix_first [of "'',''" x y 0] by (simp add: pieces_Some)
  ultimately show ?thesis
    using assms by (simp add: split_pieces)
qed

text \<open>
  C25: The option \<open>r\<close> reaches the logger of the running program. When the first process of the name apart from the new
  one is the master, whose logger was given the path \<open>gsdm_log_\<close> with its number, a level, a word for the colours
  and one for the cache, given in any of the four ways of writing the option, are sent to the address of that
  logger, \<open>Initialize\<close> returns false and has changed nothing of the manager but its name and what belongs to the title (the
  length of the area, the block for the environment and where the environment is), and the logger takes over exactly these
  settings from the datagram.
\<close>
theorem reset_reaches_logger:
  assumes "v = a @ '','' @ b @ '','' @ c" and "\<forall>ch\<in>set (a @ b @ c). \<not> is_blank ch \<and> ch \<noteq> CHR '','' \<and> ch \<noteq> NUL"
    and "length v \<le> 1022"
    and "map snd args \<in> {[''-r'', v], [''-r'' @ v], [''--reset'', v], [''--reset='' @ v]}"
    and "filter (\<lambda>p. p \<noteq> pe_pid e) (getPidByName (getFileName (basename_leaves prog)) (pe_proc e)) = master # others"
    and "gl_address g = gl_address (snd (GLogger_Initialize (pid_log_path master) dir level colors cpu h))"
  shows "\<exists>d area block places.
     PoolManager_main e limit version ((start, prog) # args) env m =
       Some ([ResetTo (gl_address g) d], False,
         m\<lparr>pm_name := c_basename prog, pm_area := area, pm_env := block, pm_environ := places\<rparr>) \<and>
     LogRun_receive d g = Some (g\<lparr>gl_level := level_of a (gl_level g),
       gl_colors := (if b = ''yes'' then True else if b = ''no'' then False else gl_colors g),
       gl_no_cache := (if c = ''yes'' then False else if c = ''no'' then True else gl_no_cache g)\<rparr>)"
proof -
  have plain: "\<forall>ch\<in>set v. \<not> is_blank ch \<and> ch \<noteq> NUL" "CHR '','' \<notin> set (a @ b @ c)"
    using assms(1,2) by (auto simp: is_blank_def)
  have len: "length v < 2 ^ 31" "length a < 2 ^ 31" "length b < 2 ^ 31" "length c < 2 ^ 31"
    using assms(1,3) by simp_all
  have trims: "trim v = v" "trim a = a" "trim b = b" "trim c = c"
    by (rule trim_no_blank; use plain assms(2) len in simp)+
  let ?d = "CHR ''u'' # v @ [NUL]"
  have "v \<noteq> []"
    by (simp add: assms(1))
  then have opts: "getopt_long (map snd args) = [(CHR ''r'', v)]"
    using assms(4) getopt_separate getopt_joined getopt_long_separate getopt_long_joined
    by (elim insertE emptyE) (simp_all del: map_eq_Cons_conv)
  obtain e' q es where "move_env (area_end start ((start, basename_leaves prog) # args)) 0 env = (e', q, es)"
    by (metis prod_cases3)
  then obtain area block places where t: "PoolManager_title ((start, prog) # args) env m =
      Some (m\<lparr>pm_name := c_basename prog, pm_area := area, pm_env := block, pm_environ := places\<rparr>)"
    by (simp add: PoolManager_title_def del: area_end.simps)
  have main: "PoolManager_main e limit version ((start, prog) # args) env m = Some ([ResetTo (gl_address g) ?d], False,
      m\<lparr>pm_name := c_basename prog, pm_area := area, pm_env := block, pm_environ := places\<rparr>)"
    using assms(6) reset_log_first [OF assms(5)] reset_cmd_fits [OF trims(1) assms(3)]
    by (simp add: PoolManager_main_def t title_argv_def main_init_def main_options_def GLogger_Initialize_def opts)
  have "LogRun_receive ?d g = update_command v g"
    using plain(1) assms(3) by (simp add: LogRun_receive_def MAX_PRINT_LEN_def takeWhile_append)
  also have "\<dots> = Some (g\<lparr>gl_level := level_of a (gl_level g),
       gl_colors := (if b = ''yes'' then True else if b = ''no'' then False else gl_colors g),
       gl_no_cache := (if c = ''yes'' then False else if c = ''no'' then True else gl_no_cache g)\<rparr>)"
    using split_three [OF plain(2)] by (simp add: update_command_def assms(1) trims)
  finally show ?thesis
    using main by blast
qed

definition demo_program :: program_env where
  "demo_program = \<lparr>pe_pid = 900, pe_proc = Some [(''.'', None), (''900'', Some (Some ''Name: app'')), (''41'', Some (Some ''Name: app'')),
     (''7'', Some (Some ''Name: sh''))], pe_disk = Map.empty, pe_may_open = (\<lambda>_. True), pe_errno = 0\<rparr>"

lemma reset_reaches_logger_witness:
  "\<exists>d area block places.
     PoolManager_main demo_program (\<lambda>_. True) ''1'' [(100, ''/bin/app''), (109, ''--reset=DEBUG,yes,no'')]
         [(130, ''HOME=/''), (200, ''A=b'')] (PoolManager_new 2) =
       Some ([ResetTo ''/tmp/.gsdm1/gsdm_log_41'' d], False,
         (PoolManager_new 2)\<lparr>pm_name := c_basename ''/bin/app'', pm_area := area, pm_env := block, pm_environ := places\<rparr>) \<and>
     LogRun_receive d (demo_logger\<lparr>gl_address := ''/tmp/.gsdm1/gsdm_log_41''\<rparr>) =
       Some (demo_logger\<lparr>gl_level := 4, gl_colors := True, gl_no_cache := True, gl_address := ''/tmp/.gsdm1/gsdm_log_41''\<rparr>)"
proof -
  let ?g = "demo_logger\<lparr>gl_address := ''/tmp/.gsdm1/gsdm_log_41''\<rparr>"
  have pids: "filter (\<lambda>p. p \<noteq> pe_pid demo_program)
      (getPidByName (getFileName (basename_leaves ''/bin/app'')) (pe_proc demo_program)) = [41]"
    by code_simp
  have path: "gl_address ?g = gl_address (snd (GLogger_Initialize (pid_log_path 41) [] 3 False 0 demo_logger))"
  proof -
    have "sun_path (pid_log_path 41) = ''/tmp/.gsdm1/gsdm_log_41''"
      by code_simp
    then show ?thesis
      by (simp only: GLogger_Initialize_def snd_conv demo_logger_def glogger.simps)
  qed
  have plain: "\<forall>ch\<in>set (''DEBUG'' @ ''yes'' @ ''no''). \<not> is_blank ch \<and> ch \<noteq> CHR '','' \<and> ch \<noteq> NUL"
    by code_simp
  have "level_of ''DEBUG'' (gl_level ?g) = 4"
    by (simp add: level_of_def)
  moreover have "\<exists>d area block places.
     PoolManager_main demo_program (\<lambda>_. True) ''1'' ((100, ''/bin/app'') # [(109, ''--reset='' @ ''DEBUG,yes,no'')])
         [(130, ''HOME=/''), (200, ''A=b'')] (PoolManager_new 2) =
       Some ([ResetTo (gl_address ?g) d], False,
         (PoolManager_new 2)\<lparr>pm_name := c_basename ''/bin/app'', pm_area := area, pm_env := block, pm_environ := places\<rparr>) \<and>
     LogRun_receive d ?g = Some (?g\<lparr>gl_level := level_of ''DEBUG'' (gl_level ?g),
       gl_colors := (if ''yes'' = ''yes'' then True else if ''yes'' = ''no'' then False else gl_colors ?g),
       gl_no_cache := (if ''no'' = ''yes'' then False else if ''no'' = ''no'' then True else gl_no_cache ?g)\<rparr>)"
    by (rule reset_reaches_logger [OF _ plain _ _ pids path]) simp_all
  ultimately show ?thesis
    by (simp add: demo_logger_def)
qed

text \<open>A text of 1023 characters or more is sent from beyond the command's buffer.\<close>

lemma reset_cmd_long: "1023 \<le> length (trim v) \<Longrightarrow> reset_cmd v = None"
  by (auto simp: reset_cmd_def c_snprintf_def mem_read_def mem_write_def nat_add_distrib split: bind_splits)

text \<open>The logger of an event manager listens at a path of another form, so the option never reaches it.\<close>

definition EventManager_log_path :: "nat \<Rightarrow> int \<Rightarrow> string" where
  "EventManager_log_path clock pid = GSDM_BACK_ROOT_DIR @ ''/gsdm_log_'' @ dec_digits clock @ ''_'' @ c_unsigned pid"

lemma dec_digits_length: "n < 10 ^ Suc k \<Longrightarrow> length (dec_digits n) \<le> Suc k"
proof (induction k arbitrary: n)
  case (Suc k)
  then have "n div 10 < 10 ^ Suc k"
    by (simp add: less_mult_imp_div_less mult.commute)
  from Suc.IH [OF this] show ?case
    by (subst dec_digits.simps) simp
qed (simp add: dec_digits.simps)

lemma dec_digits_plain: "NUL \<notin> set (dec_digits n)" "CHR ''_'' \<notin> set (dec_digits n)"
  by (rule dec_digits_not, simp add: digit_val_def)+

lemma event_reset_misses:
  assumes "clock < 2 ^ 64"
  shows "sun_path (EventManager_log_path clock pid) \<noteq> sun_path (pid_log_path p)"
proof -
  have short: "length (c_unsigned n) \<le> 10" for n
  proof -
    have "nat (n mod 2 ^ 32) < 10 ^ Suc 9"
      using pos_mod_bound [of "2 ^ 32" n] by simp
    from dec_digits_length [OF this] show ?thesis
      by (simp add: c_unsigned_def)
  qed
  have long: "length (dec_digits clock) \<le> 20"
    using dec_digits_length [of clock 19] assms by simp
  have whole: "sun_path s = s" if "length s \<le> 107" "NUL \<notin> set s" for s
  proof -
    have "takeWhile (\<lambda>c. c \<noteq> NUL) s = s"
      using that(2) by (simp add: takeWhile_eq_all_conv) blast
    then show ?thesis
      by (simp only: sun_path_def) (simp add: that(1))
  qed
  have event: "sun_path (EventManager_log_path clock pid) = EventManager_log_path clock pid"
    using short [of pid] long dec_digits_plain by (intro whole) (auto simp: EventManager_log_path_def GSDM_BACK_ROOT_DIR_def c_unsigned_def)
  have pool: "sun_path (pid_log_path p) = pid_log_path p"
    using short [of p] dec_digits_plain by (intro whole) (auto simp: pid_log_path_def GSDM_BACK_ROOT_DIR_def c_unsigned_def)
  have "dec_digits clock @ ''_'' @ c_unsigned pid \<noteq> c_unsigned p"
    using dec_digits_plain(2) [of "nat (p mod 2 ^ 32)"] unfolding c_unsigned_def
    by (metis Un_iff append_Cons list.set_intros(1) set_append)
  then show ?thesis
    unfolding event pool by (simp add: EventManager_log_path_def pid_log_path_def)
qed

end
