(* ===== verification/Startup.thy ===== *)
theory Startup
  imports Lifecycle CommandLine
begin

text \<open>
  Starting and ending the threads of an event-driven program: the sockets and the epoll instance of a worker
  (\<open>src/eventdrive/epoll/iohandlermanager.cpp\<close>), making, running and deleting a worker (\<open>networker.cpp\<close>), \<open>Loop\<close> and \<open>Close\<close> of the
  event manager (\<open>manager.cpp\<close>) and the start and end of the logger's thread (\<open>src/logging/logger.cpp\<close>). A call of
  \<open>exit\<close> or \<open>abort\<close> is \<open>Exits\<close>.
\<close>

datatype 'a launch = Exits | Goes 'a

section \<open>The sockets of a worker\<close>

text \<open>\<open>im_fds\<close> are the descriptors that are open, \<open>-1\<close> in the other fields stands for none.\<close>

record io_manager =
  im_eq :: int
  im_wait :: int
  im_post :: int
  im_path :: string
  im_fds :: "int set"

definition with_fd :: "int \<Rightarrow> int set \<Rightarrow> int set" where
  "with_fd fd fds = (if fd = -1 then fds else insert fd fds)"

definition IOHandlerManager_new :: "int \<Rightarrow> io_manager" where
  "IOHandlerManager_new eq = \<lparr>im_eq = eq, im_wait = -1, im_post = -1, im_path = [], im_fds = with_fd eq {}\<rparr>"

text \<open>The answers of the system to \<open>Initialize\<close>. The result is the path removed before the bind.\<close>

record io_calls =
  io_socket :: int
  io_bind :: bool
  io_options :: kernel
  io_add :: bool
  io_post :: int
  io_nonblock :: kernel

definition IOHandlerManager_Initialize :: "io_calls \<Rightarrow> nat \<Rightarrow> io_manager \<Rightarrow> (string \<times> io_manager) launch" where
  "IOHandlerManager_Initialize c tid m =
     (let m = m\<lparr>im_wait := io_socket c, im_fds := with_fd (io_socket c) (im_fds m)\<rparr>;
          path = GSDM_BACK_ROOT_DIR @ ''/gsdm_eventdrive_'' @ dec_digits tid in
      if im_wait m = -1 then Exits
      else let m = m\<lparr>im_path := sun_path path\<rparr> in
        if \<not> io_bind c then Exits
        else if \<not> fst (setFdOptions (io_options c) False []) then Exits
        else if \<not> io_add c then Exits
        else let m = m\<lparr>im_post := io_post c, im_fds := with_fd (io_post c) (im_fds m)\<rparr> in
          if \<not> fst (setFdNonBlock (io_nonblock c) []) then Exits else Goes (path, m))"

definition IOHandlerManager_Shutdown :: "io_manager \<Rightarrow> io_manager" where
  "IOHandlerManager_Shutdown m = (if 0 \<le> im_eq m then m\<lparr>im_fds := im_fds m - {im_eq m}, im_eq := -1\<rparr> else m)"

text \<open>The destructor; the first result is the path it removes.\<close>

definition IOHandlerManager_dtor :: "io_manager \<Rightarrow> string \<times> io_manager" where
  "IOHandlerManager_dtor m =
     (let m = (if im_wait m \<noteq> -1 then m\<lparr>im_fds := im_fds m - {im_wait m}, im_wait := -1\<rparr> else m);
          m = (if im_post m \<noteq> -1 then m\<lparr>im_fds := im_fds m - {im_post m}, im_post := -1\<rparr> else m)
      in (im_path m, IOHandlerManager_Shutdown m))"

section \<open>A worker\<close>

definition NetWorker_new :: "nat \<Rightarrow> net \<Rightarrow> worker" where
  "NetWorker_new i st = \<lparr>nw_id = i, nw_status = WORKER_STATUS_RUN,
     nw_net = st\<lparr>nt_timeouts := {}, nt_manager := True, nt_udp := {}\<rparr>, nw_queues = (\<lambda>_ _. None), nw_posts = []\<rparr>"

text \<open>
  \<open>Run\<close>: the sockets, the processor, the acceptors, of which the TCP ones come first, then the loop (theory \<open>EventLoop\<close>);
  \<open>affinity\<close> is the answer to binding the thread.
\<close>

definition NetWorker_launch ::
    "io_calls \<Rightarrow> nat \<Rightarrow> int \<Rightarrow> bool \<Rightarrow> nat list \<Rightarrow> nat list \<Rightarrow> io_manager \<Rightarrow> net \<Rightarrow> (io_manager \<times> net) launch option" where
  "NetWorker_launch c tid cpu affinity tcp unix m st =
     (case IOHandlerManager_Initialize c tid m of
        Exits \<Rightarrow> Some Exits
      | Goes (_, m) \<Rightarrow>
          if 0 \<le> cpu \<and> \<not> affinity then Some Exits
          else do { st \<leftarrow> start_acceptors tcp st; st \<leftarrow> start_acceptors unix st; Some (Goes (m, st)) })"

definition NetWorker_Run ::
    "cmd_env \<Rightarrow> nat \<Rightarrow> io_calls \<Rightarrow> nat \<Rightarrow> int \<Rightarrow> bool \<Rightarrow> nat list \<Rightarrow> nat list \<Rightarrow> (epoll_answer \<times> nat \<times> tick \<times> ex_env) list \<Rightarrow>
      io_manager \<times> server \<Rightarrow> (io_manager \<times> ex_call list \<times> bool \<times> server) launch option" where
  "NetWorker_Run e me c tid cpu affinity tcp unix turns s =
     (case s of (m, sv) \<Rightarrow> do {
        w \<leftarrow> sv_workers sv me;
        r \<leftarrow> NetWorker_launch c tid cpu affinity tcp unix m (nw_net w);
        case r of
          Exits \<Rightarrow> Some Exits
        | Goes (m, st) \<Rightarrow> do {
            (calls, go, sv) \<leftarrow> Run e me turns (put_worker me (w\<lparr>nw_net := st\<rparr>) sv);
            Some (Goes (m, calls, go, sv)) } })"

text \<open>
  The destructor: acceptors and UDP carriers are taken from the interest list and deleted, the carriers from a copy of their set,
  \<open>udp\<close> being its order; then the timers, the queues, the extension of the application and the sockets go. TCP, UNIX and
  pipe carriers are not deleted.
\<close>

fun delete_handlers :: "nat list \<Rightarrow> net \<Rightarrow> net option" where
  "delete_handlers [] st = Some st"
| "delete_handlers (a # as) st =
     do { (_, st) \<leftarrow> DisableReadData a False st; st \<leftarrow> delete_handler a st; delete_handlers as st }"

definition NetWorker_dtor ::
    "ex_env \<Rightarrow> nat list \<Rightarrow> nat list \<Rightarrow> nat list \<Rightarrow> io_manager \<Rightarrow> worker \<Rightarrow> (string \<times> io_manager \<times> worker) option" where
  "NetWorker_dtor x tcp unix udp m w =
     do { st \<leftarrow> delete_handlers tcp (nw_net w);
          st \<leftarrow> delete_handlers unix st;
          st \<leftarrow> delete_handlers udp st;
          st \<leftarrow> close_timers x st;
          let (path, m) = IOHandlerManager_dtor (IOHandlerManager_Shutdown m);
          Some (path, m, w\<lparr>nw_net := st, nw_queues := (\<lambda>_ _. None)\<rparr>) }"

section \<open>The event manager\<close>

text \<open>
  \<open>Loop\<close> (after theory \<open>Manager\<close>) runs worker 0 when the threads have started, then waits for the others. \<open>begun\<close> is whether a worker has
  stored its thread by then; one that has not is not waited for. The results are the value of \<open>Loop\<close>, the
  threads started and those waited for; with no worker \<open>worker_[0]\<close> has no value.
\<close>

definition wait_threads :: "(nat \<Rightarrow> bool) \<Rightarrow> nat list \<Rightarrow> nat list" where
  "wait_threads begun ids = filter begun ids"

definition EventManager_Loop ::
    "start_calls \<Rightarrow> config_map \<Rightarrow> (nat \<Rightarrow> bool) \<Rightarrow> manager \<Rightarrow> (bool \<times> nat list \<times> nat list) option" where
  "EventManager_Loop c m begun g =
     (case start_workers c m g of
        (False, started) \<Rightarrow> Some (False, started, [])
      | (True, started) \<Rightarrow>
          if mg_workers g = [] then None
          else Some (True, started, wait_threads begun (map fst (drop 1 (mg_workers g)))))"

text \<open>\<open>Close\<close>: the workers are deleted, the logger is told to end and its thread waited for if it was started.\<close>

definition EventManager_Close :: "bool \<Rightarrow> manager \<times> glogger \<Rightarrow> nat list \<times> string \<times> string \<times> bool \<times> manager \<times> glogger" where
  "EventManager_Close log_started s =
     (case s of (g, l) \<Rightarrow> case GLogger_Close l of (dgram, path, l) \<Rightarrow>
        (map fst (mg_workers g), dgram, path, log_started, g\<lparr>mg_workers := []\<rparr>, l))"

section \<open>The thread of the logger\<close>

record log_calls =
  lc_affinity :: bool
  lc_socket :: int
  lc_nonblock :: kernel
  lc_rcvbuf :: kernel
  lc_bind :: bool
  lc_epoll :: int
  lc_add :: bool

text \<open>Up to the loop of \<open>LogRun\<close>; the first results are its two descriptors.\<close>

definition LogRun_start ::
    "log_calls \<Rightarrow> (string \<Rightarrow> string option) \<Rightarrow> (tm \<Rightarrow> int) \<Rightarrow> (string \<Rightarrow> bool) \<Rightarrow> (string \<Rightarrow> bool) \<Rightarrow> int \<Rightarrow> int \<Rightarrow> glogger \<Rightarrow>
      (int \<times> int \<times> glogger) launch option" where
  "LogRun_start c real mktime exists fopen pid now g =
     (if 0 \<le> gl_cpu g \<and> \<not> lc_affinity c then Some Exits
      else if lc_socket c = -1 then Some Exits
      else if \<not> fst (setFdNonBlock (lc_nonblock c) []) then Some Exits
      else if \<not> fst (setFdRcvBuf (lc_rcvbuf c) (1024 * 1024 * 50) []) then Some Exits
      else if \<not> lc_bind c then Some Exits
      else if lc_epoll c = -1 then Some Exits
      else if \<not> lc_add c then Some Exits
      else do {
        (ok, g) \<leftarrow> SetupLogFile real mktime exists fopen pid now g;
        Some (if \<not> ok then Exits else Goes (lc_socket c, lc_epoll c, g\<lparr>gl_close := False\<rparr>)) })"

text \<open>
  After the loop both files are flushed and closed. Without a log folder both are still \<open>stdout\<close>, and closing it a second time is
  undefined.
\<close>

definition LogRun_end :: "int \<times> int \<Rightarrow> glogger \<Rightarrow> (int list \<times> string list) option" where
  "LogRun_end fds g = (if gl_stat g = gl_log g then None else Some ([fst fds, snd fds], [gl_stat g, gl_log g]))"

section \<open>What a worker leaves behind\<close>

text \<open>The sockets and the epoll instance are closed and the path of the wake-up socket is removed.\<close>

lemma io_manager_released:
  assumes "IOHandlerManager_Initialize c tid (IOHandlerManager_new eq) = Goes (path, m)" and "0 \<le> eq"
  shows "\<exists>m'. IOHandlerManager_dtor m = (sun_path path, m') \<and> im_fds m' = {}"
proof -
  have m: "im_eq m = eq" "im_wait m = io_socket c" "im_wait m \<noteq> -1" "im_post m = io_post c" "im_path m = sun_path path"
    "im_fds m = with_fd (io_post c) (with_fd (io_socket c) {eq})"
    using assms by (auto simp: IOHandlerManager_Initialize_def IOHandlerManager_new_def with_fd_def Let_def split: if_splits)
  then show ?thesis
    using assms(2) by (auto simp: IOHandlerManager_dtor_def IOHandlerManager_Shutdown_def with_fd_def Let_def)
qed

definition acceptor_type :: "io_type \<Rightarrow> bool" where
  "acceptor_type t \<longleftrightarrow> t = IOHT_TCP_ACCEPTOR \<or> t = IOHT_UNIX_ACCEPTOR"

definition acceptor_ok :: "net \<Rightarrow> nat \<Rightarrow> bool" where
  "acceptor_ok st a \<longleftrightarrow> (\<exists>h. nt_hand st a = Some h \<and> acceptor_type (ih_type h) \<and> ih_process h = None \<and>
     ih_flag h = IOHT_FLAG_CLOSE_ALL \<and> 0 \<le> ih_fd h)"

definition handler_fds :: "net \<Rightarrow> nat set \<Rightarrow> int set" where
  "handler_fds st A = {ih_fd h |a h. a \<in> A \<and> nt_hand st a = Some h}"

definition handlers_gone :: "nat set \<Rightarrow> net \<Rightarrow> net \<Rightarrow> bool" where
  "handlers_gone A st st' \<longleftrightarrow> nt_hand st' = nt_hand st |` (- A) \<and> nt_open st' = nt_open st - handler_fds st A \<and>
     nt_epoll st' |` (- handler_fds st A) = nt_epoll st |` (- handler_fds st A) \<and>
     nt_proc st' = nt_proc st \<and> nt_timeouts st' = nt_timeouts st \<and> nt_manager st' = nt_manager st \<and> nt_udp st' = nt_udp st"

lemma delete_acceptor:
  assumes "acceptor_ok st a"
  shows "\<exists>ok st1 st'. DisableReadData a False st = Some (ok, st1) \<and> delete_handler a st1 = Some st' \<and> handlers_gone {a} st st'"
proof -
  obtain h where h: "nt_hand st a = Some h" "acceptor_type (ih_type h)" "ih_process h = None" "ih_flag h = IOHT_FLAG_CLOSE_ALL" "0 \<le> ih_fd h"
    using assms by (auto simp: acceptor_ok_def)
  obtain ok st1 where s1: "epoll_del (ih_fd h) st = (ok, st1)"
    by (metis surj_pair)
  then have l: "nt_hand st1 = nt_hand st" "nt_open st1 = nt_open st" "nt_proc st1 = nt_proc st" "nt_timeouts st1 = nt_timeouts st"
    "nt_manager st1 = nt_manager st" "nt_udp st1 = nt_udp st" "(nt_epoll st1)(ih_fd h := None) = (nt_epoll st)(ih_fd h := None)"
    by (auto simp: epoll_del_def split: if_splits)
  let ?st = "CloseFd (ih_fd h) st1\<lparr>nt_hand := (nt_hand st1)(a := None)\<rparr>"
  have "delete_handler a st1 = Some ?st"
    using h l(1) by (auto simp: delete_handler_def acceptor_type_def IOHandler_dtor_def CloseFd_def)
  moreover have "handler_fds st {a} = {ih_fd h}"
    using h(1) by (auto simp: handler_fds_def)
  then have "handlers_gone {a} st ?st"
    using h(5) l by (auto simp: handlers_gone_def CloseFd_def restrict_complement_singleton_eq)
  ultimately show ?thesis
    using h(1) s1 by (simp add: DisableReadData_def)
qed

lemma handlers_gone_trans:
  assumes "handlers_gone A st st1" and "handlers_gone B st1 st2" and "A \<inter> B = {}"
  shows "handlers_gone (A \<union> B) st st2"
proof -
  note 1 = assms(1) [unfolded handlers_gone_def] and 2 = assms(2) [unfolded handlers_gone_def]
  have fds: "handler_fds st (A \<union> B) = handler_fds st A \<union> handler_fds st1 B"
    using 1 assms(3) unfolding handler_fds_def by (fastforce simp: restrict_map_def split: if_splits)
  have "nt_epoll st2 fd = nt_epoll st fd" if "fd \<notin> handler_fds st A" "fd \<notin> handler_fds st1 B" for fd
    using 1 2 that by (metis ComplI restrict_in)
  then show ?thesis
    using 1 2 by (auto simp: handlers_gone_def fds restrict_map_def fun_eq_iff)
qed

lemma delete_acceptors:
  assumes "\<forall>a\<in>set as. acceptor_ok st a" and "distinct as"
  shows "\<exists>st'. delete_handlers as st = Some st' \<and> handlers_gone (set as) st st'"
  using assms
proof (induction as arbitrary: st)
  case Nil
  then show ?case
    by (simp add: handlers_gone_def handler_fds_def restrict_map_def)
next
  case (Cons a as)
  obtain ok st1 st2 where s: "DisableReadData a False st = Some (ok, st1)" "delete_handler a st1 = Some st2" "handlers_gone {a} st st2"
    using delete_acceptor [of st a] Cons.prems(1) by auto
  have "acceptor_ok st2 b" if "b \<in> set as" for b
  proof -
    have "b \<noteq> a" "acceptor_ok st b"
      using that Cons.prems by auto
    then show ?thesis
      using s(3) by (auto simp: acceptor_ok_def handlers_gone_def)
  qed
  then obtain st' where "delete_handlers as st2 = Some st'" "handlers_gone (set as) st2 st'"
    using Cons.IH [of st2] Cons.prems(2) by auto
  then show ?case
    using s handlers_gone_trans [OF s(3)] Cons.prems(2) by fastforce
qed

text \<open>
  A worker is deleted without a trace. When it has closed and no UDP carrier is left, its destructor is defined; the
  handlers of its acceptors are gone and their descriptors closed, its sockets and its epoll instance are closed, the path of the wake-up
  socket is removed, and no other handler, process or descriptor has changed.
\<close>
theorem worker_deleted:
  assumes "IOHandlerManager_Initialize c tid (IOHandlerManager_new eq) = Goes (path, m)" and "0 \<le> eq"
    and "\<forall>a\<in>set (tcp @ unix). acceptor_ok (nw_net w) a" and "distinct (tcp @ unix)"
    and "\<not> nt_manager (nw_net w)" and "ee_timers x = Some"
  shows "\<exists>m' w'. NetWorker_dtor x tcp unix [] m w = Some (sun_path path, m', w') \<and> im_fds m' = {} \<and>
     handlers_gone (set (tcp @ unix)) (nw_net w) (nw_net w') \<and> (\<forall>src type. nw_queues w' src type = None)"
proof -
  obtain st where s: "delete_handlers (tcp @ unix) (nw_net w) = Some st" "handlers_gone (set (tcp @ unix)) (nw_net w) st"
    using delete_acceptors [OF assms(3,4)] by blast
  have "delete_handlers (as @ bs) st0 = Option.bind (delete_handlers as st0) (delete_handlers bs)" for as bs st0
    by (induction as arbitrary: st0) (auto split: bind_split)
  then obtain st1 where st1: "delete_handlers tcp (nw_net w) = Some st1" "delete_handlers unix st1 = Some st"
    using s(1) by (auto split: bind_splits)
  have "\<not> nt_manager st"
    using s(2) assms(5) by (simp add: handlers_gone_def)
  then have "close_timers x st = Some st"
    by (simp add: close_timers_def assms(6))
  moreover obtain m' where "IOHandlerManager_dtor (IOHandlerManager_Shutdown m) = (sun_path path, m')" "im_fds m' = {}"
  proof -
    have "IOHandlerManager_dtor (IOHandlerManager_Shutdown m) = (let (p, m1) = IOHandlerManager_dtor m in (p, m1))"
      using assms(1,2) by (auto simp: IOHandlerManager_Initialize_def IOHandlerManager_new_def IOHandlerManager_dtor_def
          IOHandlerManager_Shutdown_def with_fd_def Let_def split: if_splits)
    then show thesis
      using that io_manager_released [OF assms(1,2)] by auto
  qed
  ultimately show ?thesis
    using s(2) st1 by (simp add: NetWorker_dtor_def)
qed

definition demo_io :: io_calls where
  "demo_io = \<lparr>io_socket = 4, io_bind = True, io_options = (\<lambda>_ _. 0), io_add = True, io_post = 6, io_nonblock = (\<lambda>_ _. 0)\<rparr>"

definition demo_listening :: worker where
  "demo_listening = (NetWorker_new 0 (demo_net []))\<lparr>nw_net := (demo_net [])\<lparr>nt_open := {5, 9}, nt_manager := False,
     nt_hand := (nt_hand (demo_net []))(12 \<mapsto> \<lparr>ih_fd = 9, ih_managed = False, ih_flag = IOHT_FLAG_CLOSE_ALL, ih_process = None,
       ih_type = IOHT_TCP_ACCEPTOR, ih_peer = [], ih_name = []\<rparr>)\<rparr>\<rparr>"

lemma demo_launch:
  "IOHandlerManager_Initialize demo_io 77 (IOHandlerManager_new 3) =
     Goes (''/tmp/.gsdm1/gsdm_eventdrive_77'', \<lparr>im_eq = 3, im_wait = 4, im_post = 6, im_path = ''/tmp/.gsdm1/gsdm_eventdrive_77'', im_fds = {3, 4, 6}\<rparr>)"
proof -
  have "GSDM_BACK_ROOT_DIR @ ''/gsdm_eventdrive_'' @ dec_digits 77 = ''/tmp/.gsdm1/gsdm_eventdrive_77''"
    "sun_path ''/tmp/.gsdm1/gsdm_eventdrive_77'' = ''/tmp/.gsdm1/gsdm_eventdrive_77''"
    by code_simp+
  moreover have "fst (setFdOptions (\<lambda>_ _. 0) False [])" "fst (setFdNonBlock (\<lambda>_ _. 0) [])"
    by (simp_all add: setFdOptions_def setFdNoSIGPIPE_def setFd_defs)
  ultimately show ?thesis
    by (auto simp: IOHandlerManager_Initialize_def IOHandlerManager_new_def demo_io_def with_fd_def Let_def)
qed

lemma worker_deleted_witness:
  "\<exists>m' w'. NetWorker_dtor demo_ex [12] [] [] \<lparr>im_eq = 3, im_wait = 4, im_post = 6, im_path = ''/tmp/.gsdm1/gsdm_eventdrive_77'',
       im_fds = {3, 4, 6}\<rparr> demo_listening = Some (sun_path ''/tmp/.gsdm1/gsdm_eventdrive_77'', m', w') \<and>
     im_fds m' = {} \<and> nt_hand (nw_net w') 12 = None \<and> nt_open (nw_net w') = {5}"
proof -
  let ?m = "\<lparr>im_eq = 3, im_wait = 4, im_post = 6, im_path = ''/tmp/.gsdm1/gsdm_eventdrive_77'', im_fds = {3, 4, 6}\<rparr>"
  have "\<exists>m' w'. NetWorker_dtor demo_ex [12] [] [] ?m demo_listening = Some (sun_path ''/tmp/.gsdm1/gsdm_eventdrive_77'', m', w') \<and>
      im_fds m' = {} \<and> handlers_gone (set ([12] @ [])) (nw_net demo_listening) (nw_net w') \<and> (\<forall>src type. nw_queues w' src type = None)"
    by (rule worker_deleted [OF demo_launch]) (simp_all add: demo_listening_def acceptor_ok_def acceptor_type_def demo_ex_def)
  then show ?thesis
    by (auto simp: handlers_gone_def demo_listening_def handler_fds_def)
qed

section \<open>A start that fails\<close>

lemma start_threads_prefix:
  "start_threads ok ids = (if list_all ok ids then (True, ids) else (False, takeWhile ok ids))"
  by (induction ids) (auto split: prod.splits if_splits)

text \<open>
  When the thread of a worker cannot be started, \<open>Loop\<close> returns false while the threads started before it run on: none of them is told to
  stop or waited for, and the \<open>Close\<close> that follows deletes their workers.
\<close>

lemma failed_start_abandons:
  assumes "EventManager_Loop c m begun g = Some (False, started, joined)"
  shows "joined = [] \<and> (\<forall>l log_started. set started \<subseteq> set (fst (EventManager_Close log_started (g, l))))"
proof -
  have "set started \<subseteq> set (map fst (mg_workers g))"
    using assms
    by (auto simp: EventManager_Loop_def start_workers_def Let_def start_threads_prefix dest!: set_takeWhileD in_set_dropD
        split: prod.splits if_splits bool.splits)
  then show ?thesis
    using assms by (auto simp: EventManager_Loop_def EventManager_Close_def GLogger_Close_def split: prod.splits bool.splits if_splits)
qed

section \<open>The end of the logger\<close>

text \<open>
  \<open>LogRun\<close> clears \<open>log_close_\<close> when its socket is ready. A \<open>Close\<close> before that has sent its datagram to nobody: the logger
  runs on and the \<open>join\<close> in \<open>Close\<close> never ends.
\<close>

lemma early_close_lost:
  assumes "LogRun_start c real mktime exists fopen pid now (snd (snd (GLogger_Close g))) = Some (Goes (s, e, g1))"
    and "\<forall>turn\<in>set turns. snd turn = None" and "LogRun m exists fopen opendir pid turns g1 = Some g2"
  shows "\<not> gl_close g2"
proof -
  have "\<not> gl_close g1"
    using assms(1) by (auto simp: LogRun_start_def split: bind_splits if_splits)
  then show ?thesis
    using assms(2,3)
  proof (induction turns arbitrary: g1)
    case (Cons turn turns)
    obtain now where turn: "turn = (now, None)"
      using Cons.prems(2) by (cases turn) simp
    then obtain g' where g': "LogRun_turn m exists fopen opendir pid now None g1 = Some g'" "LogRun m exists fopen opendir pid turns g' = Some g2"
      using Cons.prems by (auto split: bind_splits)
    have "gl_close g' = gl_close g1"
      using g'(1) by (auto simp: LogRun_turn_def ChangeLogFile_def open_log_def open_stat_def make_folders_def make_folder_def Let_def
          split: bind_splits if_splits option.splits)
    then show ?case
      using Cons g'(2) by simp
  qed simp
qed

text \<open>A logger without a folder never gets a file.\<close>

lemma LogRun_turn_stdout:
  assumes "LogRun_turn m exists fopen opendir pid now dgram g = Some g'" and "gl_dir g = []"
  shows "gl_dir g' = [] \<and> gl_log g' = gl_log g \<and> gl_stat g' = gl_stat g"
  using assms
  by (auto simp: LogRun_turn_def ChangeLogFile_def LogRun_receive_def update_command_def append_file_def Let_def
      split: bind_splits if_splits option.splits)

lemma LogRun_stdout:
  "LogRun m exists fopen opendir pid turns g = Some g' \<Longrightarrow> gl_dir g = [] \<Longrightarrow> gl_log g' = gl_log g \<and> gl_stat g' = gl_stat g"
proof (induction turns arbitrary: g)
  case (Cons turn turns)
  then show ?case
    by (cases turn) (auto split: if_splits bind_splits dest!: LogRun_turn_stdout)
qed simp

text \<open>
  A logger without a log folder, which is the default, ends by closing its file twice: \<open>log_\<close> and \<open>stat_\<close> are both the standard
  output from the start to the end of its thread, whatever it receives.
\<close>
theorem logger_closes_twice:
  assumes "LogRun_start c real mktime exists fopen pid now (snd (GLogger_Initialize path [] level colors cpu GLogger_new)) =
      Some (Goes (s, e, g1))"
    and "LogRun m exists fopen opendir pid turns g1 = Some g2"
  shows "LogRun_end (s, e) g2 = None"
proof -
  have "gl_dir g1 = [] \<and> gl_log g1 = [] \<and> gl_stat g1 = []"
    using assms(1) by (auto simp: LogRun_start_def SetupLogFile_def GLogger_Initialize_def GLogger_new_def split: bind_splits if_splits)
  then show ?thesis
    using LogRun_stdout [OF assms(2)] by (simp add: LogRun_end_def)
qed

definition demo_log_calls :: log_calls where
  "demo_log_calls = \<lparr>lc_affinity = True, lc_socket = 4, lc_nonblock = (\<lambda>_ _. 0), lc_rcvbuf = (\<lambda>_ _. 0), lc_bind = True,
     lc_epoll = 5, lc_add = True\<rparr>"

lemma logger_closes_twice_witness:
  "\<exists>g1 g2. LogRun_start demo_log_calls (\<lambda>_. None) (\<lambda>_. 0) (\<lambda>_. True) (\<lambda>_. True) 7 0
       (snd (GLogger_Initialize ''/tmp/.gsdm1/gsdm_log_7'' [] 3 False 0 GLogger_new)) = Some (Goes (4, 5, g1)) \<and>
     LogRun Map.empty (\<lambda>_. True) (\<lambda>_. True) None 7 [(1, Some ''lup''), (2, Some ''c''), (3, None)] g1 = Some g2 \<and>
     gl_close g2 \<and> LogRun_end (4, 5) g2 = None"
proof -
  define g1 where "g1 = (snd (GLogger_Initialize ''/tmp/.gsdm1/gsdm_log_7'' [] 3 False 0 GLogger_new))\<lparr>gl_close := False\<rparr>"
  have dir: "gl_dir g1 = []" "\<not> gl_close g1"
    by (simp_all add: g1_def GLogger_Initialize_def GLogger_new_def)
  have S: "LogRun_start demo_log_calls (\<lambda>_. None) (\<lambda>_. 0) (\<lambda>_. True) (\<lambda>_. True) 7 0
       (snd (GLogger_Initialize ''/tmp/.gsdm1/gsdm_log_7'' [] 3 False 0 GLogger_new)) = Some (Goes (4, 5, g1))"
    by (simp add: LogRun_start_def demo_log_calls_def SetupLogFile_def GLogger_Initialize_def GLogger_new_def setFd_defs setFdRcvBuf_def g1_def)
  have R: "LogRun Map.empty (\<lambda>_. True) (\<lambda>_. True) None 7 [(1, Some ''lup''), (2, Some ''c''), (3, None)] g1 =
      Some ((append_file (gl_log g1) ''up'' g1)\<lparr>gl_close := True\<rparr>)"
    using dir by (simp add: LogRun_turn_def ChangeLogFile_def LogRun_receive_def MAX_PRINT_LEN_def append_file_def)
  show ?thesis
    using S R logger_closes_twice [OF S R] by auto
qed

end
