(* ===== verification/PoolRun.thy ===== *)
theory PoolRun
  imports Startup
begin

text \<open>
  Start and end of the worker processes of the pool services: \<open>Run\<close> before and after its loop and the destructors of both kinds
  of worker (\<open>src/pooldrive/sysworker.cpp\<close>, \<open>stworker.cpp\<close>, \<open>poolworker.cpp\<close>), what the master's child does with the copies it
  has of all workers (\<open>PoolManager::Free\<close>), and the loop of a worker with state threads (\<open>stworker.cpp\<close>, \<open>staccept.cpp\<close>).
\<close>

section \<open>A worker with system threads\<close>

text \<open>
  \<open>Run\<close> gives up, with the process going on or with \<open>exit\<close>, or gets to its loop. \<open>sp_running\<close> are the handles whose threads run.
\<close>

datatype 's run_start = RunExits | RunReturns 's | RunLoops 's

record sys_pool =
  sp_eq :: int
  sp_wait :: int
  sp_lock :: bool
  sp_child_lock :: bool
  sp_handles :: "nat list"
  sp_running :: "nat list"

record sys_calls =
  sc_epoll :: int
  sc_socket :: int
  sc_bind :: bool
  sc_options :: kernel
  sc_add :: "int \<Rightarrow> bool"
  sc_lock :: int
  sc_child_lock :: int
  sc_thread :: "nat \<Rightarrow> bool"
  sc_main :: bool

definition SysPoolWorker_new :: sys_pool where
  "SysPoolWorker_new = \<lparr>sp_eq = -1, sp_wait = -1, sp_lock = False, sp_child_lock = False, sp_handles = [], sp_running = []\<rparr>"

text \<open>The handles with their threads, in order; \<^term>\<open>None\<close> is the \<open>exit\<close> where one cannot be created.\<close>

fun sys_handles :: "(nat \<Rightarrow> bool) \<Rightarrow> nat list \<Rightarrow> sys_pool \<Rightarrow> sys_pool option" where
  "sys_handles thread [] s = Some s"
| "sys_handles thread (i # is) s =
     (if thread i then sys_handles thread is (s\<lparr>sp_handles := sp_handles s @ [i], sp_running := sp_running s @ [i]\<rparr>) else None)"

definition SysPool_Run_start :: "sys_calls \<Rightarrow> int list \<Rightarrow> nat \<Rightarrow> sys_pool \<times> int set \<Rightarrow> (sys_pool \<times> int set) run_start" where
  "SysPool_Run_start c accepts threads s =
     (case s of (s, fds) \<Rightarrow>
        let s = s\<lparr>sp_eq := sc_epoll c\<rparr>; fds = with_fd (sc_epoll c) fds in
        if sp_eq s = -1 then RunReturns (s, fds)
        else let s = s\<lparr>sp_wait := sc_socket c\<rparr>; fds = with_fd (sc_socket c) fds in
          if sp_wait s = -1 then RunReturns (s, fds)
          else if \<not> sc_bind c then RunReturns (s, fds)
          else if \<not> fst (setFdOptions (sc_options c) False []) then RunReturns (s, fds)
          else if \<not> sc_add c (sp_wait s) then RunReturns (s, fds)
          else if \<not> list_all (sc_add c) accepts then RunExits
          else if sc_lock c = -1 then RunReturns (s, fds)
          else let s = s\<lparr>sp_lock := True\<rparr> in
            if sc_child_lock c = -1 then RunReturns (s, fds)
            else let s = s\<lparr>sp_child_lock := True\<rparr> in
              case sys_handles (sc_thread c) [0..<threads] s of
                None \<Rightarrow> RunExits
              | Some s \<Rightarrow> if sc_main c then RunLoops (s, fds) else RunReturns (s, fds))"

text \<open>
  After the loop the thread of \<open>MainDo\<close> and those of the handles are joined, \<^term>\<open>None\<close> where one does not end, and the handles
  deleted.
\<close>

definition SysPool_Run_end :: "bool \<Rightarrow> (nat \<Rightarrow> bool) \<Rightarrow> sys_pool \<Rightarrow> sys_pool option" where
  "SysPool_Run_end main_ends ends s =
     (if main_ends \<and> list_all ends (sp_handles s) then Some (s\<lparr>sp_handles := [], sp_running := []\<rparr>) else None)"

text \<open>
  The destructor. It deletes the handles that are left without joining their threads: with one that runs, its semaphore is destroyed
  while it waits and the handle it uses is gone.
\<close>

definition SysPool_dtor :: "sys_pool \<times> int set \<Rightarrow> (sys_pool \<times> int set) option" where
  "SysPool_dtor s =
     (case s of (s, fds) \<Rightarrow>
        let fds = (if sp_eq s \<noteq> -1 then fds - {sp_eq s} else fds); s = s\<lparr>sp_eq := -1\<rparr>;
            fds = (if sp_wait s \<noteq> -1 then fds - {sp_wait s} else fds); s = s\<lparr>sp_wait := -1\<rparr>;
            s = s\<lparr>sp_lock := False\<rparr> in
        if sp_running s \<noteq> [] then None
        else Some (s\<lparr>sp_handles := [], sp_child_lock := False\<rparr>, fds))"

section \<open>A worker with state threads\<close>

text \<open>Its socket is a descriptor that the thread library has taken over.\<close>

record st_pool =
  tp_wait :: "int option"
  tp_lock :: bool
  tp_query :: "int list"
  tp_handles :: "nat list"

record st_calls =
  tc_socket :: int
  tc_bind :: bool
  tc_open :: bool
  tc_main :: bool
  tc_thread :: "nat \<Rightarrow> bool"

definition StPoolWorker_new :: st_pool where
  "StPoolWorker_new = \<lparr>tp_wait = None, tp_lock = False, tp_query = [], tp_handles = []\<rparr>"

definition StPool_Run_start :: "st_calls \<Rightarrow> int list \<Rightarrow> nat \<Rightarrow> st_pool \<times> int set \<Rightarrow> (st_pool \<times> int set) run_start" where
  "StPool_Run_start c accepts threads s =
     (case s of (s, fds) \<Rightarrow>
        if tc_socket c = -1 then RunReturns (s, fds)
        else let fds = insert (tc_socket c) fds in
          if \<not> tc_bind c then RunExits
          else if \<not> tc_open c then RunExits
          else let s = s\<lparr>tp_wait := Some (tc_socket c), tp_query := tc_socket c # accepts, tp_lock := True\<rparr> in
            if \<not> tc_main c then RunExits
            else if \<not> list_all (tc_thread c) [0..<threads] then RunExits
            else RunLoops (s\<lparr>tp_handles := [0..<threads]\<rparr>, fds))"

definition StPool_Run_end :: "bool \<Rightarrow> (nat \<Rightarrow> bool) \<Rightarrow> st_pool \<Rightarrow> st_pool option" where
  "StPool_Run_end main_ends ends s =
     (if main_ends \<and> list_all ends (tp_handles s) then Some (s\<lparr>tp_handles := []\<rparr>) else None)"

definition StPool_dtor :: "st_pool \<times> int set \<Rightarrow> st_pool \<times> int set" where
  "StPool_dtor s =
     (case s of (s, fds) \<Rightarrow>
        (s\<lparr>tp_wait := None, tp_lock := False, tp_query := [], tp_handles := []\<rparr>, fds - set_option (tp_wait s)))"

section \<open>The end of the process of a worker\<close>

text \<open>
  The base class closes the acceptors. \<open>PoolManager::Free\<close> deletes every worker the process has, its own and the copies of the
  others, which have not run here.
\<close>

definition CloseAllAccept :: "int list \<Rightarrow> int set \<Rightarrow> int set" where
  "CloseAllAccept accepts fds = fds - (set accepts - {-1})"

datatype pool_state = SysState sys_pool | StState st_pool

definition delete_pool_worker :: "pool_state \<Rightarrow> int list \<Rightarrow> int set \<Rightarrow> int set option" where
  "delete_pool_worker s accepts fds =
     (case s of
        SysState s \<Rightarrow> do { (_, fds) \<leftarrow> SysPool_dtor (s, fds); Some (CloseAllAccept accepts fds) }
      | StState s \<Rightarrow> case StPool_dtor (s, fds) of (_, fds) \<Rightarrow> Some (CloseAllAccept accepts fds))"

fun PoolManager_Free :: "(pool_state \<times> int list) list \<Rightarrow> int set \<Rightarrow> int set option" where
  "PoolManager_Free [] fds = Some fds"
| "PoolManager_Free ((s, accepts) # ws) fds = do { fds \<leftarrow> delete_pool_worker s accepts fds; PoolManager_Free ws fds }"

lemma sys_handles_some:
  "sys_handles thread is s = (if list_all thread is then Some (s\<lparr>sp_handles := sp_handles s @ is, sp_running := sp_running s @ is\<rparr>) else None)"
  by (induction "is" arbitrary: s) auto

lemma SysPool_start_fields:
  assumes "SysPool_Run_start c accepts n (SysPoolWorker_new, fds) \<in> {RunReturns (s, fds'), RunLoops (s, fds')}"
  shows "fds' = with_fd (sp_wait s) (with_fd (sp_eq s) fds) \<and> sp_eq s \<in> {-1, sc_epoll c} \<and> sp_wait s \<in> {-1, sc_socket c} \<and>
     sp_running s = sp_handles s \<and> sp_handles s \<in> {[], [0..<n]}"
  using assms
  by (auto simp: SysPool_Run_start_def SysPoolWorker_new_def sys_handles_some with_fd_def Let_def
      split: if_splits option.splits)

text \<open>Where \<open>Run\<close> returns before its loop, the destructor is defined unless the handles' threads run already.\<close>

lemma SysPool_early_return:
  assumes "SysPool_Run_start c accepts n (SysPoolWorker_new, fds) = RunReturns (s, fds')" and "sc_epoll c \<notin> fds" and "sc_socket c \<notin> fds"
  shows "map_option snd (SysPool_dtor (s, fds')) = (if sp_handles s = [] then Some fds else None)"
    and "sp_handles s \<noteq> [] \<Longrightarrow> \<not> sc_main c \<and> 0 < n"
  using assms
  by (auto simp: SysPool_Run_start_def SysPoolWorker_new_def SysPool_dtor_def sys_handles_some with_fd_def Let_def
      split: if_splits option.splits)

text \<open>
  A worker process that has run leaves nothing open. A pool worker with system threads that got to its loop has one
  thread for each handle and all handles idle; when the thread of \<open>MainDo\<close> and those of the handles have ended, they are joined and
  deleting the worker closes exactly the descriptors its start opened and its acceptors.
\<close>
theorem pool_worker_released:
  assumes "SysPool_Run_start c accepts n (SysPoolWorker_new, fds) = RunLoops (s, fds')" and "sc_epoll c \<notin> fds" and "sc_socket c \<notin> fds"
    and "\<forall>h<n. ends h" and "-1 \<notin> set accepts"
  shows "set (sp_handles s) = pw_idle (pool_start n) \<and>
     (\<exists>s'. SysPool_Run_end True ends s = Some s' \<and> delete_pool_worker (SysState s') accepts fds' = Some (fds - set accepts))"
proof -
  have s: "sp_handles s = [0..<n]" "sp_eq s = sc_epoll c" "sp_wait s = sc_socket c" "sc_epoll c \<noteq> -1" "sc_socket c \<noteq> -1"
    "fds' = insert (sc_socket c) (insert (sc_epoll c) fds)"
    using assms(1)
    by (auto simp: SysPool_Run_start_def SysPoolWorker_new_def sys_handles_some with_fd_def Let_def split: if_splits option.splits)
  have "SysPool_Run_end True ends s = Some (s\<lparr>sp_handles := [], sp_running := []\<rparr>)"
    using assms(4) by (simp add: SysPool_Run_end_def s(1) list_all_iff)
  moreover have "delete_pool_worker (SysState (s\<lparr>sp_handles := [], sp_running := []\<rparr>)) accepts fds' = Some (fds - set accepts)"
    using assms(2,3,5) s by (auto simp: delete_pool_worker_def SysPool_dtor_def CloseAllAccept_def Let_def)
  ultimately show ?thesis
    by (simp add: s(1) pool_start_def)
qed

definition demo_sys_calls :: sys_calls where
  "demo_sys_calls = \<lparr>sc_epoll = 6, sc_socket = 7, sc_bind = True, sc_options = (\<lambda>_ _. 0), sc_add = (\<lambda>_. True), sc_lock = 0,
     sc_child_lock = 0, sc_thread = (\<lambda>_. True), sc_main = True\<rparr>"

lemma demo_sys_start:
  "SysPool_Run_start demo_sys_calls [5] 2 (SysPoolWorker_new, {0, 5}) =
     RunLoops (\<lparr>sp_eq = 6, sp_wait = 7, sp_lock = True, sp_child_lock = True, sp_handles = [0, 1], sp_running = [0, 1]\<rparr>, {0, 5, 6, 7})"
proof -
  have "fst (setFdOptions (\<lambda>_ _. 0) False [])" "[0..<2] = [0, 1 :: nat]"
    by (simp_all add: setFdOptions_def setFdNoSIGPIPE_def setFd_defs numeral_2_eq_2)
  then show ?thesis
    by (auto simp: SysPool_Run_start_def demo_sys_calls_def SysPoolWorker_new_def with_fd_def Let_def)
qed

lemma pool_worker_released_witness:
  "\<exists>s'. SysPool_Run_end True (\<lambda>_. True) \<lparr>sp_eq = 6, sp_wait = 7, sp_lock = True, sp_child_lock = True, sp_handles = [0, 1], sp_running = [0, 1]\<rparr> =
       Some s' \<and> delete_pool_worker (SysState s') [5] {0, 5, 6, 7} = Some {0}"
  using pool_worker_released [OF demo_sys_start, of "\<lambda>_. True"] by (simp add: demo_sys_calls_def insert_Diff_if)

section \<open>The loop of a worker with state threads\<close>

text \<open>
  The acceptor and the hand-over as in theory \<open>PoolWorker\<close>, but \<open>SendFd\<close> leaves the descriptor to the acceptor, and the process of a
  new connection is started without a look at whether the thread library has taken the descriptor.
\<close>

definition StPool_SendFd :: "bool \<Rightarrow> int \<Rightarrow> string \<Rightarrow> string \<times> int list" where
  "StPool_SendFd sent fd ex = (SendFd_data ex, [])"

definition st_accept_Process :: "int \<Rightarrow> bool \<Rightarrow> pool_accept \<Rightarrow> (accept_action option \<times> pool_accept) option" where
  "st_accept_Process fd sent a =
     (if fd < 0 then Some (None, a)
      else if pa_workers a = [] then None
      else let w = pa_workers a ! (pa_pos a mod length (pa_workers a)); a = a\<lparr>pa_pos := u32 (pa_pos a + 1)\<rparr> in
        if w = pa_me a then Some (Some (HandleHere fd), a)
        else (case StPool_SendFd sent fd (pa_ex a) of
                (ex, closed) \<Rightarrow> Some (Some (SendTo w ex (closed @ [fd])), a\<lparr>pa_ex := ex\<rparr>)))"

definition StPool_ProcessFd :: "(pool_origin \<Rightarrow> nat option) \<Rightarrow> nat \<Rightarrow> string \<Rightarrow> pool_worker \<Rightarrow> pool_worker option" where
  "StPool_ProcessFd create choice ex w =
     do { origin \<leftarrow> ex_data_origin ex; p \<leftarrow> create origin; Some (snd (StPool_StartWithThread choice p w)) }"

text \<open>\<open>StartWithProcess\<close> is not there in this mode: the process aborts.\<close>

definition StPool_StartWithProcess :: "int launch" where
  "StPool_StartWithProcess = Exits"

text \<open>
  The acceptors with \<open>POLLIN\<close> in the order of the array, each with the answers of the system, until the counter \<open>rs\<close> of the
  entries still to come is at 0.
\<close>

fun st_accepts ::
    "(pool_origin \<Rightarrow> nat option) \<Rightarrow> (pool_worker \<Rightarrow> nat) \<Rightarrow> int \<Rightarrow> (nat \<times> int \<times> bool) list \<Rightarrow>
      (nat \<Rightarrow> pool_accept) \<times> pool_worker \<Rightarrow> ((nat \<Rightarrow> pool_accept) \<times> pool_worker) option" where
  "st_accepts create choice rs [] s = Some s"
| "st_accepts create choice rs ((k, fd, sent) # ready) (accs, w) =
     do { (action, a) \<leftarrow> st_accept_Process fd sent (accs k);
          w \<leftarrow> (case action of
                 Some (HandleHere fd) \<Rightarrow> StPool_ProcessFd create (choice w) (pa_ex a) w
               | _ \<Rightarrow> Some w);
          if rs - 1 = 0 then Some (accs(k := a), w) else st_accepts create choice (rs - 1) ready (accs(k := a), w) }"

text \<open>
  What one return of \<open>st_poll\<close> leads to: the message of the wake-up socket, if it is ready, first. Where \<open>st_recvmsg\<close> fails the
  acceptors wait for the next turn; the close message ends the loop, which is the second result.
\<close>

definition st_turn ::
    "(pool_origin \<Rightarrow> nat option) \<Rightarrow> (pool_worker \<Rightarrow> nat) \<Rightarrow> int \<Rightarrow> (string \<times> int) option option \<Rightarrow> (nat \<times> int \<times> bool) list \<Rightarrow>
      (nat \<Rightarrow> pool_accept) \<times> pool_worker \<Rightarrow> (((nat \<Rightarrow> pool_accept) \<times> pool_worker) \<times> bool) option" where
  "st_turn create choice rs msg ready s =
     (case s of (accs, w) \<Rightarrow>
        case msg of
          None \<Rightarrow> map_option (\<lambda>s. (s, False)) (st_accepts create choice rs ready (accs, w))
        | Some None \<Rightarrow> Some ((accs, w), False)
        | Some (Some (d, fd)) \<Rightarrow>
            (case received_message d of
               MsgConnection ex \<Rightarrow> do {
                 w \<leftarrow> (if fd \<noteq> -1 then StPool_ProcessFd create (choice w) ex w else Some w);
                 map_option (\<lambda>s. (s, False)) (st_accepts create choice (rs - 1) ready (accs, w)) }
             | MsgClose \<Rightarrow> Some ((accs, StPool_Close w), True)
             | MsgOther \<Rightarrow> map_option (\<lambda>s. (s, False)) (st_accepts create choice (rs - 1) ready (accs, w))))"

lemma st_sent_closed_once:
  "st_accept_Process fd sent a = Some (Some (SendTo w ex closed), a') \<Longrightarrow> closed = [fd]"
  by (auto simp: st_accept_Process_def StPool_SendFd_def Let_def split: if_splits)

section \<open>State threads run every process once\<close>

text \<open>
  State threads give up the processor only where they wait: a woken thread runs its process, which may wait for its socket, and then
  goes on without interruption until it waits again. A step is one of these stretches.
\<close>

inductive st_step :: "nat \<Rightarrow> pool_worker \<Rightarrow> pool_worker \<Rightarrow> bool" for n where
  st_starting: "choice \<in> pw_idle w \<Longrightarrow> st_step n w (snd (StPool_StartWithThread choice p w))"
| st_waking: "h < n \<Longrightarrow> pw_at w h = AtWait \<Longrightarrow> DoRun_step h w = Some w' \<Longrightarrow> st_step n w w'"
| st_running: "h < n \<Longrightarrow> pw_at w h = AtWoken \<Longrightarrow> thread_steps 3 h w = Some w' \<Longrightarrow> st_step n w w'"
| st_master: "st_step n w (pool_shared_close w)"
| st_closing: "pw_main w \<Longrightarrow> st_step n w (StPool_Close w)"
| st_leaving: "pw_main w \<Longrightarrow> pw_close w \<Longrightarrow> st_step n w (pool_leave w)"

inductive_cases st_stepE: "st_step n w w'"

definition st_parked :: "nat \<Rightarrow> pool_worker \<Rightarrow> bool" where
  "st_parked n w \<longleftrightarrow> (\<forall>h<n. pw_at w h \<in> {AtWait, AtWoken, AtEnd})"

lemma thread_steps_pool: "h < n \<Longrightarrow> thread_steps k h w = Some w' \<Longrightarrow> (pool_step n)\<^sup>*\<^sup>* w w'"
proof (induction k arbitrary: w)
  case (Suc k)
  then obtain v where "DoRun_step h w = Some v" "thread_steps k h v = Some w'"
    by (auto split: bind_splits)
  then show ?case
    using Suc pool_thread [of h n w v] by (meson converse_rtranclp_into_rtranclp)
qed simp

lemma running_parks:
  assumes "thread_steps 3 h w = Some w'" and "pw_at w h = AtWoken"
  shows "pw_at w' h \<in> {AtWait, AtEnd} \<and> (\<forall>k. k \<noteq> h \<longrightarrow> pw_at w' k = pw_at w k)"
  using assms by (auto simp: numeral_3_eq_3 DoRun_step_def split: option.splits if_splits)

lemma st_step_parked: "st_step n w w' \<Longrightarrow> st_parked n w \<Longrightarrow> st_parked n w'"
proof (erule st_stepE)
  fix h assume "h < n" "pw_at w h = AtWoken" "thread_steps 3 h w = Some w'" and P: "st_parked n w"
  with running_parks [of h w w'] show "st_parked n w'"
    unfolding st_parked_def by (metis insertCI insertE singletonD)
qed (auto simp: st_parked_def StPool_StartWithThread_def st_signal_def DoRun_step_def pool_shared_close_def StPool_Close_def pool_leave_def
    split: if_splits)

text \<open>Until the close, a step of the state threads is one or more steps of the system threads.\<close>

lemma st_signal_posts:
  assumes "pool_ok n w" and "st_parked n w" and "choice \<in> pw_idle w"
  shows "snd (StPool_StartWithThread choice p w) = snd (StartWithThread choice p w)"
proof -
  have "choice < n"
    using assms(1,3) by (auto simp: pool_ok_def)
  then have "handle_ok w choice" "pw_at w choice \<in> {AtWait, AtWoken, AtEnd}"
    using assms(1,2) by (simp_all add: pool_ok_def st_parked_def)
  then have "pw_at w choice = AtWait" "pw_signal w choice = 0"
    using assms(3) by (auto simp: handle_ok_def split: option.splits)
  then show ?thesis
    by (auto simp: StPool_StartWithThread_def StartWithThread_def st_signal_def)
qed

lemma st_step_pool:
  assumes "st_step n w w'" and "pool_ok n w" and "st_parked n w" and "\<not> pw_close w'"
  shows "(pool_step n)\<^sup>*\<^sup>* w w'"
  using assms(1)
proof cases
  case (st_starting choice p)
  then show ?thesis
    using st_signal_posts [OF assms(2,3)] pool_start_thread [of choice w n p] by auto
next
  case (st_waking h)
  then show ?thesis
    using pool_thread by blast
next
  case (st_running h)
  then show ?thesis
    using thread_steps_pool by blast
qed (use assms(4) pool_leaving in \<open>auto simp: pool_shared_close_def StPool_Close_def\<close>)

lemma st_step_close: "st_step n w w' \<Longrightarrow> pw_close w \<Longrightarrow> pw_close w'"
proof (erule st_stepE)
  fix h assume "thread_steps 3 h w = Some w'" and "pw_close w"
  then show "pw_close w'"
    by (auto simp: numeral_3_eq_3 DoRun_step_def split: thread_at.splits option.splits if_splits bind_splits)
qed (auto simp: StPool_StartWithThread_def st_signal_def DoRun_step_def pool_shared_close_def StPool_Close_def pool_leave_def
    split: if_splits thread_at.splits option.splits)

interpretation st: pool_threads n "st_step n" "all_wait n" "\<lambda>w. pool_ok n w \<and> st_parked n w"
proof
  have "pool_ok n (all_wait n)"
    by (rule sys.reach_good [OF all_wait_reached]) (simp add: all_wait_def pool_start_def)
  then show "pool_ok n (all_wait n) \<and> st_parked n (all_wait n)"
    by (simp add: st_parked_def all_wait_def)
  show "pool_ok n w' \<and> st_parked n w'"
    if "st_step n w w'" "\<not> pw_close w'" "pool_ok n w \<and> st_parked n w" for w w'
    using that st_step_pool [of n w w'] pool_steps_ok [of n w w'] st_step_parked [of n w w'] by blast
qed (use st_step_close in blast)+

text \<open>The close message wakes every thread that waits, as with system threads: each ends within four of its steps.\<close>

lemma st_close_ends:
  assumes "(st_step n)\<^sup>*\<^sup>* (all_wait n) w" and "\<not> pw_close w" and "h < n"
  shows "\<exists>k\<le>4. \<exists>w'. thread_steps k h (StPool_Close w) = Some w' \<and> pw_at w' h = AtEnd"
proof -
  have "pool_ok n w"
    using st.reach_good [OF assms(1,2)] by blast
  then have "closing_ok n (StPool_Close w)"
    by (auto simp: pool_ok_def handle_ok_def closing_ok_def StPool_Close_def split: option.splits)
  then show ?thesis
    using assms(3) by (rule closing_thread_ends)
qed

text \<open>
  C22: A worker with state threads also runs every process it has taken exactly once, although its condition
  variables forget signals. From the moment in which all its threads wait until it is told to close, in every reachable
  state the processes taken are those run and those waiting in a handle, the handles are divided into idle and used ones, and
  the thread of a handle in which a process waits is about to run it: it does so within two of its steps.
\<close>
theorem st_exactly_once:
  assumes "(st_step n)\<^sup>*\<^sup>* (all_wait n) w" and "\<not> pw_close w"
  shows "mset (pw_started w) = mset (pw_ran w) + mset (waiting n w) \<and>
     pw_idle w \<union> pw_use w = {0..<n} \<and> pw_idle w \<inter> pw_use w = {} \<and>
     (\<forall>h<n. \<forall>p. pw_process w h = Some p \<longrightarrow>
        (\<exists>k\<le>2. \<exists>w'. thread_steps k h w = Some w' \<and> pw_ran w' = pw_ran w @ [p]))"
proof -
  have "\<exists>k\<le>2. \<exists>w'. thread_steps k h w = Some w' \<and> pw_ran w' = pw_ran w @ [p]" if "h < n" "pw_process w h = Some p" for h p
  proof -
    have "pw_at w h \<in> {AtWait, AtWoken, AtEnd}"
      using st.reach_good [OF assms] that(1) by (simp add: st_parked_def)
    then have "pw_at w h = AtWait \<and> pw_signal w h = Suc 0 \<or> pw_at w h = AtWoken"
      using st.reach_handle [OF assms that(1)] that(2) by (auto simp: handle_ok_def)
    then show ?thesis
    proof
      assume "pw_at w h = AtWait \<and> pw_signal w h = Suc 0"
      then show ?thesis
        using that(2) by (intro exI [of _ 2]) (simp add: numeral_2_eq_2 DoRun_step_def)
    next
      assume "pw_at w h = AtWoken"
      then show ?thesis
        using that(2) by (intro exI [of _ 1]) (simp add: DoRun_step_def)
    qed
  qed
  then show ?thesis
    using st.accounts [OF assms] by blast
qed

lemma st_exactly_once_witness:
  "\<exists>w. (st_step 2)\<^sup>*\<^sup>* (all_wait 2) w \<and> pw_started w = [7, 8] \<and> pw_ran w = [7] \<and>
     mset (pw_started w) = mset (pw_ran w) + mset (waiting 2 w)"
proof -
  let ?w1 = "snd (StPool_StartWithThread 0 7 (all_wait 2))"
  obtain w2 where w2: "DoRun_step 0 ?w1 = Some w2" "pw_at w2 0 = AtWoken" "pw_process w2 0 = Some 7" "1 \<in> pw_idle w2"
      "\<not> pw_close w2" "pw_started w2 = [7]" "pw_ran w2 = []"
    by (simp add: DoRun_step_def StPool_StartWithThread_def st_signal_def all_wait_def pool_start_def)
  obtain w3 where w3: "thread_steps 3 0 w2 = Some w3" "1 \<in> pw_idle w3" "\<not> pw_close w3" "pw_started w3 = [7]" "pw_ran w3 = [7]"
    using w2 by (simp add: DoRun_step_def numeral_3_eq_3)
  let ?w4 = "snd (StPool_StartWithThread 1 8 w3)"
  have one: "st_step 2 (all_wait 2) ?w1"
    by (rule st_starting) (simp add: all_wait_def pool_start_def)
  have two: "st_step 2 ?w1 w2"
    by (rule st_waking [OF _ _ w2(1)]) (simp_all add: StPool_StartWithThread_def st_signal_def all_wait_def pool_start_def)
  have three: "st_step 2 w2 w3"
    by (rule st_running [OF _ w2(2) w3(1)]) simp
  have four: "st_step 2 w3 ?w4"
    by (rule st_starting [OF w3(2)])
  have R: "(st_step 2)\<^sup>*\<^sup>* (all_wait 2) ?w4"
    using one two three four by (meson rtranclp.rtrancl_refl rtranclp.rtrancl_into_rtrancl)
  moreover have "\<not> pw_close ?w4" "pw_started ?w4 = [7, 8]" "pw_ran ?w4 = [7]"
    using w3 by (auto simp: StPool_StartWithThread_def st_signal_def)
  ultimately show ?thesis
    using st_exactly_once [OF R] by blast
qed

end
