(* ===== verification/CryptoUtil.thy ===== *)
theory CryptoUtil
  imports Platform
begin

text \<open>
  \<open>src/utils/crypto.cpp\<close>: the code around the calls of the crypto library. What the library computes is an argument;
  for the big numbers the documented meaning of \<open>BN_bn2bin\<close> (big-endian, without leading zeros) is a hypothesis
  where it is used.
\<close>

section \<open>Hexadecimal text\<close>

definition unhex_digit :: "char \<Rightarrow> nat option" where
  "unhex_digit c = (let n = of_char c :: nat in
     if 48 \<le> n \<and> n \<le> 57 then Some (n - 48) else if 97 \<le> n \<and> n \<le> 102 then Some (n - 97 + 10) else None)"

fun unhex_loop :: "string \<Rightarrow> string option" where
  "unhex_loop [] = Some []"
| "unhex_loop [c] = Some []"
| "unhex_loop (c # d # cs) =
     (case unhex_digit c of
        None \<Rightarrow> None
      | Some h \<Rightarrow>
          (case unhex_digit d of
             None \<Rightarrow> None
           | Some l \<Rightarrow> map_option (Cons (char_of (h * 16 + l))) (unhex_loop cs)))"

definition unhex :: "string \<Rightarrow> string" where
  "unhex source =
     (if source = [] then []
      else if length source mod 2 \<noteq> 0 then []
      else case unhex_loop (lowerCase source) of None \<Rightarrow> [] | Some r \<Rightarrow> r)"

text \<open>The digest is that of the library; the text form prints two digits for every byte.\<close>

definition md5 :: "(byte list \<Rightarrow> byte list) \<Rightarrow> byte list \<Rightarrow> bool \<Rightarrow> string" where
  "md5 digest source text_result =
     (if text_result then concat (map hex2 (digest source)) else map chr_of (digest source))"

section \<open>Base 64\<close>

text \<open>The encoder of the library breaks lines; \<open>b64\<close> removes the breaks.\<close>

definition b64 :: "(byte list \<Rightarrow> string option) \<Rightarrow> byte list \<Rightarrow> string" where
  "b64 bio_base64 source =
     (let result = (case bio_base64 source of None \<Rightarrow> [] | Some s \<Rightarrow> s)
      in replace (replace result [LF] []) [CR] [])"

text \<open>\<open>BIO_read\<close> gives a length, negative for an error, for which the constructor of the result throws.\<close>

definition unb64 :: "(string \<Rightarrow> int \<times> string) \<Rightarrow> string \<Rightarrow> string option" where
  "unb64 bio_read source = (case bio_read source of (n, out) \<Rightarrow> if n < 0 then None else Some (take (nat n) out))"

section \<open>Diffie-Hellman\<close>

text \<open>
  The library: the results of the calls of \<open>Initialize\<close> in their order, the key pair, \<open>DH_size\<close>, \<open>BN_bn2bin\<close>, \<open>BN_bin2bn\<close>
  (which can fail) and \<open>DH_compute_key\<close> from the own private key and the key of the peer.
\<close>

record dh_lib =
  dl_new :: bool
  dl_p :: bool
  dl_g :: bool
  dl_parse :: bool
  dl_word :: bool
  dl_generate :: bool
  dl_keys :: "nat \<times> nat"
  dl_size :: int
  dl_bn2bin :: "nat \<Rightarrow> byte list"
  dl_bin2bn :: "byte list \<Rightarrow> nat option"
  dl_compute :: "nat \<Rightarrow> nat \<Rightarrow> byte list option"

text \<open>\<open>dw_keys\<close> are the public and the private key of \<open>dh_\<close>.\<close>

record dh_wrapper =
  dw_keys :: "(nat \<times> nat) option"
  dw_shared :: "byte list option"
  dw_shared_length :: int
  dw_peer :: "nat option"

definition DHWrapper_new :: dh_wrapper where
  "DHWrapper_new = \<lparr>dw_keys = None, dw_shared = None, dw_shared_length = 0, dw_peer = None\<rparr>"

definition DH_Cleanup :: "dh_wrapper \<Rightarrow> dh_wrapper" where
  "DH_Cleanup w = w\<lparr>dw_keys := None, dw_shared := None, dw_shared_length := 0, dw_peer := None\<rparr>"

definition DH_Initialize :: "dh_lib \<Rightarrow> dh_wrapper \<Rightarrow> bool \<times> dh_wrapper" where
  "DH_Initialize lib w =
     (let w = DH_Cleanup w in
      if \<not> dl_new lib then (False, DH_Cleanup w)
      else if \<not> dl_p lib then (False, DH_Cleanup w)
      else if \<not> dl_g lib then (False, DH_Cleanup w)
      else if \<not> dl_parse lib then (False, DH_Cleanup w)
      else if \<not> dl_word lib then (False, DH_Cleanup w)
      else if \<not> dl_generate lib then (False, DH_Cleanup w)
      else (True, w\<lparr>dw_keys := Some (dl_keys lib)\<rparr>))"

text \<open>\<open>BN_bn2bin\<close> writes at the start of the target.\<close>

definition CopyKey :: "dh_lib \<Rightarrow> nat \<Rightarrow> byte list \<Rightarrow> bool \<times> byte list" where
  "CopyKey lib num dst =
     (let key = dl_bn2bin lib num in
      if key = [] \<or> dst = [] \<or> length key > length dst then (False, dst)
      else (True, key @ drop (length key) dst))"

definition CopyPublicKey :: "dh_lib \<Rightarrow> dh_wrapper \<Rightarrow> byte list \<Rightarrow> bool \<times> byte list" where
  "CopyPublicKey lib w dst = (case dw_keys w of None \<Rightarrow> (False, dst) | Some k \<Rightarrow> CopyKey lib (fst k) dst)"

definition CopyPrivateKey :: "dh_lib \<Rightarrow> dh_wrapper \<Rightarrow> byte list \<Rightarrow> bool \<times> byte list" where
  "CopyPrivateKey lib w dst = (case dw_keys w of None \<Rightarrow> (False, dst) | Some k \<Rightarrow> CopyKey lib (snd k) dst)"

text \<open>\<open>DH_compute_key\<close> writes at the start of the shared key, whose other bytes stay zero.\<close>

definition CreateSharedKey :: "dh_lib \<Rightarrow> byte list \<Rightarrow> dh_wrapper \<Rightarrow> bool \<times> dh_wrapper" where
  "CreateSharedKey lib peer w =
     (case dw_keys w of
        None \<Rightarrow> (False, w)
      | Some (pub, priv) \<Rightarrow>
          if dw_shared_length w \<noteq> 0 \<or> dw_shared w \<noteq> None then (False, w)
          else let w = w\<lparr>dw_shared_length := dl_size lib\<rparr> in
            if dl_size lib \<le> 0 \<or> dl_size lib > 1024 then (False, w)
            else let zeros = replicate (nat (dl_size lib)) 0; w = w\<lparr>dw_shared := Some zeros\<rparr> in
              case dl_bin2bn lib peer of
                None \<Rightarrow> (False, w)
              | Some k \<Rightarrow> let w = w\<lparr>dw_peer := Some k\<rparr> in
                  case dl_compute lib priv k of
                    None \<Rightarrow> (False, w)
                  | Some s \<Rightarrow> (True, w\<lparr>dw_shared := Some (s @ drop (length s) zeros)\<rparr>))"

text \<open>\<^term>\<open>None\<close> copies from a null pointer.\<close>

definition CopySharedKey :: "dh_wrapper \<Rightarrow> byte list \<Rightarrow> (bool \<times> byte list) option" where
  "CopySharedKey w dst =
     (if dw_keys w = None then Some (False, dst)
      else if int (length dst) \<noteq> dw_shared_length w then Some (False, dst)
      else case dw_shared w of
          None \<Rightarrow> if dst = [] then Some (True, []) else None
        | Some s \<Rightarrow> Some (True, take (length dst) s))"

text \<open>\<open>InitRC4Encryption\<close>: the keys for the two directions, with the first 128 bytes of its arguments.\<close>

definition InitRC4Encryption ::
    "(byte list \<Rightarrow> byte list \<Rightarrow> byte list) \<Rightarrow> byte list \<Rightarrow> byte list \<Rightarrow> byte list \<Rightarrow> byte list \<times> byte list" where
  "InitRC4Encryption hmac_sha256 secret_key pub_key_in pub_key_out =
     (let rc4_key_out = take 16 (hmac_sha256 (take 128 secret_key) (take 128 pub_key_in));
          rc4_key_in = take 16 (hmac_sha256 (take 128 secret_key) (take 128 pub_key_out))
      in (rc4_key_in, rc4_key_out))"

section \<open>Round trips\<close>

lemma nibbles: "unat (b :: byte) div 16 < 16" "unat b mod 16 < 16"
  using unsigned_less [of b, where ?'a = nat] by simp_all

lemma lowerCase_hex2: "lowerCase (concat (map hex2 bs)) = concat (map hex2 bs)"
proof -
  have "\<forall>n\<in>set [0..<16]. to_lower (digit_chr n) = digit_chr n"
    by code_simp
  then have d: "to_lower (digit_chr n) = digit_chr n" if "n < 16" for n
    using that by simp
  have b: "to_lower c = c" if "c \<in> set (hex2 b)" for b c
    using that d nibbles [of b] by (auto simp: hex2_def)
  show ?thesis
    unfolding lowerCase_def changeCase_def using b by (auto intro!: map_idI)
qed

lemma unhex_digit_chr:
  assumes "n < 16"
  shows "unhex_digit (digit_chr n) = Some n"
proof -
  have "\<forall>n\<in>set [0..<16]. unhex_digit (digit_chr n) = Some n"
    by code_simp
  then show ?thesis
    using assms by simp
qed

lemma unhex_loop_hex2: "unhex_loop (concat (map hex2 bs)) = Some (map chr_of bs)"
proof (induction bs)
  case (Cons b bs)
  have "char_of (unat b div 16 * 16 + unat b mod 16) = chr_of b"
    by (simp add: chr_of_def)
  then show ?case
    using Cons nibbles [of b] by (simp add: hex2_def unhex_digit_chr)
qed simp

lemma hex_text_length: "length (concat (map hex2 bs)) = 2 * length bs"
  by (induction bs) simp_all

lemma unhex_alt:
  "unhex s = (if length s mod 2 \<noteq> 0 then [] else case unhex_loop (lowerCase s) of None \<Rightarrow> [] | Some r \<Rightarrow> r)"
  by (cases s) (simp_all add: unhex_def lowerCase_def changeCase_def)

lemma unhex_hex2: "unhex (concat (map hex2 bs)) = map chr_of bs"
proof -
  have "length (concat (map hex2 bs)) mod 2 = 0"
    unfolding hex_text_length by simp
  then show ?thesis
    unfolding unhex_alt lowerCase_hex2 unhex_loop_hex2 by simp
qed

lemma lower_upper_hex2: "lowerCase (upperCase (concat (map hex2 bs))) = concat (map hex2 bs)"
proof -
  have "\<forall>c\<in>set ''0123456789abcdef''. to_lower (to_upper c) = c"
    by (simp add: to_lower_def to_upper_def char_of_def bit_0)
  moreover have "digit_chr n \<in> set ''0123456789abcdef''" if "n < 16" for n
    unfolding digit_chr_def using that by (intro nth_mem) simp
  ultimately have d: "to_lower (to_upper (digit_chr n)) = digit_chr n" if "n < 16" for n
    using that by blast
  have b: "to_lower (to_upper c) = c" if "c \<in> set (hex2 b)" for b c
    using that d nibbles [of b] by (auto simp: hex2_def)
  show ?thesis
    unfolding lowerCase_def upperCase_def changeCase_def using b by (auto intro!: map_idI)
qed

text \<open>
  The hexadecimal form of a digest reads back as the digest: \<open>unhex\<close> of the text form of \<open>md5\<close>, in small or in capital
  letters, is the binary form, whatever the digest; and a text of odd length, or with any character that is no
  digit, gives the empty string.
\<close>
theorem md5_text_unhex:
  "unhex (md5 digest source True) = md5 digest source False \<and>
   unhex (upperCase (md5 digest source True)) = md5 digest source False \<and>
   unhex [c] = [] \<and> unhex [CHR ''g'', d] = []"
proof -
  have U: "length (upperCase s) = length s" for s
    by (simp add: upperCase_def changeCase_def)
  have "unhex (upperCase (concat (map hex2 bs))) = map chr_of bs" for bs
  proof -
    have "length (upperCase (concat (map hex2 bs))) mod 2 = 0"
      unfolding U hex_text_length by simp
    then show ?thesis
      unfolding unhex_alt lower_upper_hex2 unhex_loop_hex2 by simp
  qed
  moreover have "to_lower (CHR ''g'') = CHR ''g''" "unhex_digit (CHR ''g'') = None"
    by code_simp+
  then have "unhex_loop (lowerCase [CHR ''g'', d]) = None"
    by (simp add: lowerCase_def changeCase_def)
  then have "unhex [c] = []" "unhex [CHR ''g'', d] = []"
    by (simp_all add: unhex_alt)
  ultimately show ?thesis
    by (simp add: md5_def unhex_hex2)
qed

text \<open>The two ends of a connection agree on the stream keys when each has the keys of the other.\<close>

lemma rc4_ends_agree:
  "InitRC4Encryption hmac secret a b = (i, out) \<Longrightarrow> InitRC4Encryption hmac secret b a = (out, i)"
  by (simp add: InitRC4Encryption_def Let_def)

section \<open>Keys with leading zeros and failed keys\<close>

definition be_value :: "byte list \<Rightarrow> nat" where
  "be_value bs = foldl (\<lambda>n b. 256 * n + unat b) 0 bs"

lemma be_value_foldl:
  "foldl (\<lambda>n b. 256 * n + unat b) n ys = n * 256 ^ length ys + foldl (\<lambda>n b. 256 * n + unat b) 0 (ys :: byte list)"
proof (induction ys arbitrary: n)
  case (Cons y ys)
  show ?case
    using Cons [of "256 * n + unat y"] Cons [of "unat y"] by (simp add: algebra_simps)
qed simp

lemma be_value_append: "be_value (xs @ ys) = be_value xs * 256 ^ length ys + be_value ys"
  unfolding be_value_def foldl_append by (rule be_value_foldl)

text \<open>
  A public key with a leading zero byte is handed out wrongly. \<open>CopyPublicKey\<close> reports success for a key that is shorter
  than the target but writes it at the start, so that the target, read as the big-endian number that is sent to the
  peer, is larger than the key; a key of full length is right.
\<close>
theorem dh_short_key_misread:
  assumes "be_value (dl_bn2bin lib pub) = pub" and "0 < pub" and "dl_bn2bin lib pub \<noteq> []"
    and "length (dl_bn2bin lib pub) \<le> length dst" and "dw_keys w = Some (pub, priv)"
  shows "\<exists>out. CopyPublicKey lib w dst = (True, out) \<and> length out = length dst \<and>
     (be_value out = pub \<longleftrightarrow> length (dl_bn2bin lib pub) = length dst)"
proof -
  let ?key = "dl_bn2bin lib pub"
  let ?out = "?key @ drop (length ?key) dst"
  have "dst \<noteq> []"
    using assms(3,4) by (cases dst) auto
  then have "CopyPublicKey lib w dst = (True, ?out)" "length ?out = length dst"
    using assms(3-5) by (simp_all add: CopyPublicKey_def CopyKey_def Let_def)
  moreover have "be_value ?out = pub \<longleftrightarrow> length ?key = length dst"
  proof (cases "length ?key = length dst")
    case True
    then show ?thesis
      using assms(1) by simp
  next
    case False
    then have "(256 :: nat) ^ (length dst - length ?key) > 1"
      using assms(4) by (intro one_less_power) simp_all
    then have "pub < pub * 256 ^ (length dst - length ?key)"
      using assms(2) by simp
    moreover have "be_value ?out = pub * 256 ^ (length dst - length ?key) + be_value (drop (length ?key) dst)"
      by (simp add: be_value_append assms(1))
    ultimately have "be_value ?out \<noteq> pub"
      by linarith
    then show ?thesis
      using False by simp
  qed
  ultimately show ?thesis
    by blast
qed

definition demo_lib :: dh_lib where
  "demo_lib = \<lparr>dl_new = True, dl_p = True, dl_g = True, dl_parse = True, dl_word = True, dl_generate = True,
     dl_keys = (7, 3), dl_size = 2, dl_bn2bin = (\<lambda>n. [of_nat n]), dl_bin2bn = (\<lambda>bs. Some (be_value bs)),
     dl_compute = (\<lambda>_ _. None)\<rparr>"

lemma dh_short_key_misread_witness:
  "\<exists>out. CopyPublicKey demo_lib (snd (DH_Initialize demo_lib DHWrapper_new)) [0, 0] = (True, out) \<and> be_value out \<noteq> 7"
proof -
  have "dw_keys (snd (DH_Initialize demo_lib DHWrapper_new)) = Some (7, 3)"
    by (simp add: DH_Initialize_def demo_lib_def)
  then have "\<exists>out. CopyPublicKey demo_lib (snd (DH_Initialize demo_lib DHWrapper_new)) [0, 0] = (True, out) \<and>
      length out = length [0, 0 :: byte] \<and> (be_value out = 7 \<longleftrightarrow> length (dl_bn2bin demo_lib 7) = length [0, 0 :: byte])"
    by (intro dh_short_key_misread) (simp_all add: demo_lib_def be_value_def)
  then show ?thesis
    by (auto simp: demo_lib_def)
qed

text \<open>
  A failed key agreement leaves a key of zeros. When the library cannot compute the shared key, \<open>CreateSharedKey\<close>
  reports the failure, but \<open>CopySharedKey\<close> then reports success and gives zero bytes, and a new \<open>CreateSharedKey\<close>
  is refused until \<open>Initialize\<close> is called again.
\<close>
theorem dh_failed_key_copied:
  assumes "dw_keys w = Some (pub, priv)" and "dw_shared w = None" and "dw_shared_length w = 0"
    and "0 < dl_size lib" and "dl_size lib \<le> 1024" and "dl_bin2bn lib peer = Some k" and "dl_compute lib priv k = None"
    and "int (length dst) = dl_size lib"
  shows "\<exists>v. CreateSharedKey lib peer w = (False, v) \<and> CopySharedKey v dst = Some (True, replicate (length dst) 0) \<and>
     CreateSharedKey lib' peer' v = (False, v)"
  using assms by (auto simp: CreateSharedKey_def CopySharedKey_def Let_def)

lemma dh_failed_key_copied_witness:
  "\<exists>v. CreateSharedKey demo_lib [5] (snd (DH_Initialize demo_lib DHWrapper_new)) = (False, v) \<and>
     CopySharedKey v [1, 1] = Some (True, [0, 0])"
proof -
  let ?w = "snd (DH_Initialize demo_lib DHWrapper_new)"
  have w: "dw_keys ?w = Some (7, 3)" "dw_shared ?w = None" "dw_shared_length ?w = 0"
    by (simp_all add: DH_Initialize_def DH_Cleanup_def demo_lib_def)
  have "\<exists>v. CreateSharedKey demo_lib [5] ?w = (False, v) \<and> CopySharedKey v [1, 1] = Some (True, replicate (length [1, 1 :: byte]) 0) \<and>
      CreateSharedKey demo_lib [5] v = (False, v)"
    by (rule dh_failed_key_copied [OF w]) (simp_all add: demo_lib_def)
  then show ?thesis
    by (auto simp: numeral_2_eq_2)
qed

text \<open>Otherwise the operations keep the wrapper consistent: a shared key only with a length, and for a key pair.\<close>

definition dh_ok :: "dh_wrapper \<Rightarrow> bool" where
  "dh_ok w \<longleftrightarrow> (\<forall>s. dw_shared w = Some s \<longrightarrow> dw_keys w \<noteq> None \<and> int (length s) = dw_shared_length w)"

lemma dh_ok_ops:
  "dh_ok DHWrapper_new" "dh_ok (DH_Cleanup w)" "dh_ok (snd (DH_Initialize lib w))"
  by (simp_all add: dh_ok_def DHWrapper_new_def DH_Cleanup_def DH_Initialize_def Let_def)

lemma dh_ok_shared:
  assumes "dh_ok w" and "\<And>a b s. dl_compute lib a b = Some s \<Longrightarrow> int (length s) \<le> dl_size lib"
  shows "dh_ok (snd (CreateSharedKey lib peer w))"
proof -
  have "int (length s) + int (nat (dl_size lib) - length s) = dl_size lib"
    if "dl_compute lib a b = Some s" "0 < dl_size lib" for a b s
    using assms(2) [OF that(1)] that(2) by simp
  then show ?thesis
    using assms(1) by (auto simp: dh_ok_def CreateSharedKey_def Let_def split: option.splits prod.splits)
qed

end
