(* ===== verification/UrlCode.thy ===== *)
theory UrlCode
  imports CString
begin

text \<open>
  Percent encoding and decoding of \<open>protocols/urlcode.cpp\<close>. Both functions write into a zeroed array of
  4096 characters and return it as a C string; the written part of the array is the accumulator of
  the loops, and a result without a terminating \<open>NUL\<close> inside the array is \<^term>\<open>None\<close>.
\<close>

section \<open>The functions\<close>

text \<open>The table \<open>s_en_uri_char\<close>: the characters with an entry.\<close>

definition en_uri_char :: "(char \<times> string) list" where
  "en_uri_char =
     [(CHR 0x20, ''%20''), (CHR 0x21, ''%21''), (CHR 0x22, ''%22''), (CHR 0x23, ''%23''), (CHR 0x24, ''%24''),
      (CHR 0x26, ''%26''), (CHR 0x27, ''%27''), (CHR 0x28, ''%28''), (CHR 0x29, ''%29''), (CHR 0x2A, ''%2A''),
      (CHR 0x2B, ''%2B''), (CHR 0x2C, ''%2C''), (CHR 0x2F, ''%2F''), (CHR 0x3A, ''%3A''), (CHR 0x3B, ''%3B''),
      (CHR 0x3D, ''%3D''), (CHR 0x3F, ''%3F''), (CHR 0x40, ''%40''), (CHR 0x5B, ''%5B''), (CHR 0x5D, ''%5D''),
      (CHR 0x7B, ''%7B''), (CHR 0x7D, ''%7D'')]"

text \<open>The table is indexed by the signed character: a negative index is out of bounds.\<close>

definition en_uri_index :: "char \<Rightarrow> string option option" where
  "en_uri_index c = (if (of_char c :: nat) < 128 then Some (map_of en_uri_char c) else None)"

fun encode_loop :: "string \<Rightarrow> string \<Rightarrow> string option" where
  "encode_loop [] rs = Some rs"
| "encode_loop (c # cs) rs =
     (if length rs < 4094
      then (case en_uri_index c of
              None \<Rightarrow> None
            | Some None \<Rightarrow> encode_loop cs (rs @ [c])
            | Some (Some e) \<Rightarrow> encode_loop cs (rs @ [e ! 0, e ! 1, e ! 2]))
      else Some rs)"

definition array_string :: "nat \<Rightarrow> string \<Rightarrow> string option" where
  "array_string n rs = c_str_at (rs @ replicate (n - length rs) NUL) 0"

definition url_len :: "string \<Rightarrow> nat" where
  "url_len v = nat (i32 (int (length v)))"

definition encodeURIComponent :: "string \<Rightarrow> string option" where
  "encodeURIComponent v = do { rs \<leftarrow> encode_loop (take (url_len v) v) []; array_string 4096 rs }"

text \<open>One escape: the value of the two characters, if \<open>strtol\<close> consumes both.\<close>

definition url_escape :: "char \<Rightarrow> char \<Rightarrow> char option" where
  "url_escape a b =
     (let (v, n) = c_strtol 16 (takeWhile (\<lambda>c. c \<noteq> NUL) [a, b])
      in if n = 2 then Some (char_of (nat (v mod 256))) else None)"

fun decode_loop :: "nat \<Rightarrow> string \<Rightarrow> string \<Rightarrow> string" where
  "decode_loop cap [] rs = rs"
| "decode_loop cap (c # cs) rs =
     (if length rs < cap
      then if c = CHR ''%'' \<and> 2 \<le> length cs
           then (case url_escape (cs ! 0) (cs ! 1) of
                   Some v \<Rightarrow> decode_loop cap (drop 2 cs) (rs @ [v])
                 | None \<Rightarrow> decode_loop cap cs (rs @ [c]))
           else decode_loop cap cs (rs @ [c])
      else rs)"

definition decodeURIComponent :: "string \<Rightarrow> string option" where
  "decodeURIComponent v = array_string 4096 (decode_loop 4096 (take (url_len v) v) [])"

text \<open>The variant that fills the caller's array: its contents afterwards.\<close>

definition decodeURIComponent_to :: "string \<Rightarrow> nat \<Rightarrow> string" where
  "decodeURIComponent_to v rs_len =
     (let rs = decode_loop rs_len (take (url_len v) v) [] in rs @ replicate (rs_len - length rs) NUL)"

section \<open>Lemmas\<close>

lemma url_len_small [simp]: "length v < 2 ^ 31 \<Longrightarrow> url_len v = length v"
  by (simp add: url_len_def i32_small)

lemma en_uri_table:
  "list_all (\<lambda>(c, e). length e = 3 \<and> e ! 0 = CHR ''%'' \<and> url_escape (e ! 1) (e ! 2) = Some c \<and> c \<noteq> NUL)
     en_uri_char"
  by code_simp

lemma en_uri_entry:
  assumes "map_of en_uri_char c = Some e"
  shows "\<exists>a b. e = [CHR ''%'', a, b] \<and> url_escape a b = Some c \<and> c \<noteq> NUL"
proof -
  have "length e = 3 \<and> e ! 0 = CHR ''%'' \<and> url_escape (e ! 1) (e ! 2) = Some c \<and> c \<noteq> NUL"
    using en_uri_table map_of_SomeD [OF assms] by (force simp: list_all_iff)
  then show ?thesis
    by (cases e; cases "tl e"; cases "tl (tl e)") auto
qed

definition url_enc1 :: "char \<Rightarrow> string" where
  "url_enc1 c = (case map_of en_uri_char c of None \<Rightarrow> [c] | Some e \<Rightarrow> e)"

lemma url_enc1_length: "length (url_enc1 c) \<le> 3" "0 < length (url_enc1 c)"
  by (auto simp: url_enc1_def dest!: en_uri_entry split: option.split)

lemma url_enc_length: "length (concat (map url_enc1 s)) \<le> 3 * length s"
  by (induction s) (use url_enc1_length(1) in \<open>auto simp: add_mono\<close>)

lemma encode_loop_concat:
  "\<forall>c\<in>set s. (of_char c :: nat) < 128 \<Longrightarrow> length rs + length (concat (map url_enc1 s)) \<le> 4094 \<Longrightarrow>
     encode_loop s rs = Some (rs @ concat (map url_enc1 s))"
proof (induction s arbitrary: rs)
  case (Cons c cs)
  then have "length rs < 4094"
    using url_enc1_length(2) [of c] by (simp del: length_greater_0_conv)
  then show ?case
    using Cons by (auto simp: en_uri_index_def url_enc1_def dest: en_uri_entry split: option.splits)
qed simp

lemma decode_loop_concat:
  "\<forall>c\<in>set s. c \<noteq> CHR ''%'' \<Longrightarrow> length rs + length s \<le> cap \<Longrightarrow>
     decode_loop cap (concat (map url_enc1 s)) rs = rs @ s"
proof (induction s arbitrary: rs)
  case (Cons c cs)
  show ?case
  proof (cases "map_of en_uri_char c")
    case None
    then show ?thesis
      using Cons by (simp add: url_enc1_def)
  next
    case (Some e)
    from en_uri_entry [OF Some] obtain a b where "e = [CHR ''%'', a, b]" "url_escape a b = Some c"
      by blast
    then show ?thesis
      using Cons Some by (simp add: url_enc1_def)
  qed
qed simp

lemma array_string_small:
  assumes "length rs < n" and "NUL \<notin> set rs"
  shows "array_string n rs = Some rs"
proof -
  have "n - length rs = Suc (n - length rs - 1)"
    using assms by simp
  then have "replicate (n - length rs) NUL = NUL # replicate (n - length rs - 1) NUL"
    by (metis replicate_Suc)
  then show ?thesis
    using assms by (simp add: array_string_def c_str_at_def takeWhile_append)
qed

lemma url_enc1_NUL: "c \<noteq> NUL \<Longrightarrow> NUL \<notin> set (url_enc1 c)"
  by (auto simp: url_enc1_def en_uri_char_def dest!: map_of_SomeD split: option.splits)

lemma encode_loop_plain:
  "\<forall>c\<in>set s. en_uri_index c = Some None \<Longrightarrow> length rs + length s \<le> 4094 \<Longrightarrow>
     encode_loop (s @ t) rs = encode_loop t (rs @ s)"
  by (induction s arbitrary: rs) auto

section \<open>Properties\<close>

text \<open>
  C34: Decoding what was encoded gives the text back, for texts of 7-bit characters without \<open>NUL\<close> and \<open>%\<close>
  that fit the array when every character is escaped.
\<close>
theorem url_roundtrip:
  assumes "\<forall>c\<in>set s. 0 < (of_char c :: nat) \<and> (of_char c :: nat) < 128 \<and> c \<noteq> CHR ''%''"
    and "3 * length s \<le> 4094"
  shows "\<exists>t. encodeURIComponent s = Some t \<and> decodeURIComponent t = Some s"
proof -
  let ?t = "concat (map url_enc1 s)"
  have len: "length ?t \<le> 4094"
    using url_enc_length [of s] assms(2) by linarith
  have no0: "NUL \<notin> set s"
    using assms(1) by force
  have "NUL \<notin> set (url_enc1 c)" if "c \<in> set s" for c
    using that no0 by (intro url_enc1_NUL) auto
  then have "NUL \<notin> set ?t"
    by simp
  then have "array_string 4096 ?t = Some ?t"
    using len by (intro array_string_small) simp_all
  then have "encodeURIComponent s = Some ?t"
    using encode_loop_concat [of s "[]"] assms len by (simp add: encodeURIComponent_def)
  moreover have "decode_loop 4096 ?t [] = s"
    using decode_loop_concat [of s "[]" 4096] assms by simp
  then have "decodeURIComponent ?t = Some s"
    using len no0 assms by (simp add: decodeURIComponent_def array_string_small)
  ultimately show ?thesis
    by blast
qed

lemma url_roundtrip_witness:
  "\<exists>t. encodeURIComponent ''a b/c'' = Some t \<and> decodeURIComponent t = Some ''a b/c''"
  by (rule url_roundtrip) simp_all

text \<open>
  The encoder does not escape the escape character itself, reads before its table for bytes above
  127, and may fill the array without leaving a terminator.
\<close>
theorem url_encode_defects:
  "encodeURIComponent ''%41'' = Some ''%41'' \<and> decodeURIComponent ''%41'' = Some ''A'' \<and>
   encodeURIComponent [char_of (128 + n mod 128 :: nat)] = None \<and>
   encodeURIComponent (replicate 4093 (CHR ''a'') @ '' '') = None"
proof -
  have idx: "en_uri_index CHR ''%'' = Some None" "en_uri_index CHR ''4'' = Some None"
    "en_uri_index CHR ''1'' = Some None" "en_uri_index CHR ''a'' = Some None"
    "en_uri_index CHR '' '' = Some (Some ''%20'')"
    by (simp_all add: en_uri_index_def en_uri_char_def)
  have esc: "url_escape CHR ''4'' CHR ''1'' = Some CHR ''A''"
    by code_simp
  let ?r = "replicate 4093 (CHR ''a'')"
  have "encode_loop (?r @ '' '') [] = encode_loop '' '' ?r"
    using encode_loop_plain [of ?r "[]" "'' ''"] idx by (simp add: set_replicate_conv_if)
  also have "\<dots> = Some (?r @ ''%20'')"
    using idx by simp
  finally have "encodeURIComponent (?r @ '' '') = None"
    by (simp add: encodeURIComponent_def array_string_def c_str_at_def set_replicate_conv_if)
  moreover have "encodeURIComponent ''%41'' = Some ''%41''"
    by (simp add: encodeURIComponent_def idx array_string_small)
  moreover have "decodeURIComponent ''%41'' = Some ''A''"
    by (simp add: decodeURIComponent_def esc array_string_small)
  moreover have "(128 + n mod 128) mod 256 = 128 + n mod 128"
    by (simp add: mod_less)
  then have "encodeURIComponent [char_of (128 + n mod 128 :: nat)] = None"
    by (simp add: encodeURIComponent_def en_uri_index_def)
  ultimately show ?thesis
    by blast
qed

end
