(* ===== verification/Spec2Isabelle.thy ===== *)
theory Spec2Isabelle
  imports EndToEnd CarrierEvents PoolServe WorkerApi PoolRun Startup CommandLine Lifecycle HttpClient Logger CryptoUtil Folders SysInfo PoolManager Manager EventLoop WorkerEx NetWorker Udp Streams Config Timers LocalTime FileStream Containers IOBuffer Platform UrlCode HttpProtocol WsProtocol
begin

text \<open>
  Verification of gsdm, a C++ library for Linux network services. All paths below are relative to
  \<open>src/sources/gsdm\<close>; \<open>x.cpp\<close> stands for \<open>src/x.cpp\<close> and, where the code is in the class, \<open>include/x.h\<close>.

  The program. The library offers two ways to write a service.

  (1) Event-driven: one process, one thread per worker. An application derives its connections from
  \<open>BaseProcess\<close> and its workers from \<open>BaseWorkerEx\<close>. Every \<open>NetWorker\<close> runs an epoll loop (\<open>IOHandlerManager\<close>) over
  handlers: acceptors, connectors and carriers of streams, datagrams and pipes. A carrier reads into the input
  \<open>IOBuffer\<close> of its process, calls \<open>Process\<close>, and writes the output buffer when the kernel takes no more at once.
  An acceptor deals its connections out to the workers in turn, as commands in lock-free queues (\<open>CycleList\<close>), and
  wakes the receiver by a datagram. A worker frees connections without traffic by its \<open>TimersManager\<close>.
  \<open>EventManager\<close> reads the configuration, spreads the workers over the processors and starts and stops them.

  (2) Pooled: a master process that forks a process per worker and forks it anew when it dies (\<open>PoolManager\<close>). An
  acceptor sends the descriptor of a connection to a worker over a UNIX socket; the worker runs each connection to
  its end in one of its threads, system threads or the user-level threads of the state-threads library, with
  blocking calls that have time-outs.

  Both use a logger (\<open>GLogger\<close>), which is a thread or a process that receives lines as datagrams, configuration files, protocols
  (HTTP on both sides, WebSocket on the server's) and a platform layer.

  Conventions. The state of a component is a record with the members of the class; an operation is a function
  from the state to its result and the new state. \<open>None\<close>, the result \<open>None\<close> of the option type, stands for undefined behaviour of C++ (a
  null or dangling pointer, a place outside of a block, a division by zero) or an exception; a theorem that says \<open>= Some\<close> shows
  that it does not happen, and a loop that need not end is a partial function whose \<open>Some\<close> also says that it returns. Pointers are
  addresses in explicit heaps where aliasing matters (intrusive containers, handlers, processes). Unsigned machine
  integers are naturals with \<open>u16\<close>, \<open>u32\<close>, \<open>u64\<close>, signed ones integers with \<open>i32\<close>, where the code wraps around. What
  the kernel, the libraries, the clock and the application answer is an argument: a record of answers, a list of
  them, or a function. Properties carry a number, C1 being the most important; a property with hypotheses is followed by a
  closed instance of it.

  The theories, and what they show:

  \<^item> \<open>Prelude\<close>, \<open>CFormat\<close>, \<open>CString\<close>: machine integers, memory cells, the conversions of \<open>printf\<close>, \<open>strtol\<close>, \<open>strstr\<close> and
    \<open>std::string\<close>. The locale \<open>simulation\<close> (a step function refines another) is in \<open>Prelude\<close>.

  \<^item> \<open>IOBuffer\<close> (\<open>buffering/iobuffer.cpp\<close>): block, size, \<open>published_\<close>, \<open>consumed_\<close>. Invariant \<open>ib_wf\<close>, contents
    \<open>ib_data\<close>; every operation as a change of the contents (the lemmas \<open>..._spec\<close>), a bound on the storage
    (\<open>..._fits\<close>). The locale \<open>byte_fifo\<close> and its interpretation \<open>ibq\<close> make the buffer a queue of bytes, in histories of any length while
    at most 256 MiB wait (C1). The bounds of \<open>ib_wf\<close> keep the counters below the wrap-around of 32 bits; beyond, \<open>EnsureSize\<close>
    grants less than asked for (\<open>EnsureSize_truncates\<close>).

  \<^item> \<open>Containers\<close> (\<open>utils/container.h\<close>): the three intrusive lists on a heap of nodes. The locales \<open>registry\<close> and
    \<open>idempotent_registry\<close> state what a user of such a list relies on; \<open>bil\<close> and \<open>dbl\<close> interpret them, \<open>cyl\<close> interprets
    \<open>simulation\<close> for the command queue (C10).

  \<^item> \<open>Timers\<close> (\<open>utils/timersmanager.cpp\<close>): the list of time-outs, interpreted as a registry by \<open>tml\<close>, what one round
    expires and that it ends (C16), the periodic timers, sorted by their next time, and a period of 0, which never returns.

  \<^item> \<open>Net\<close>, \<open>Streams\<close>, \<open>Udp\<close> (\<open>eventdrive/baseprocess.cpp\<close>, \<open>eventdrive/epoll/*\<close>): handlers, processes and the interest
    list; \<open>SendMsg\<close>, the events of the stream carriers and connectors; datagrams and their cache. The locale \<open>channel\<close> says
    what a process relies on when it sends; \<open>tcp\<close> and \<open>udp\<close> interpret it: bytes, or datagrams with borders and addresses, reach the kernel in
    order, in histories that go on after failed calls (\<open>history_run\<close>, C2, C17), and leave when the kernel takes them (C19). What a
    failed call leaves differs: a stream may have got a first part of the message, a datagram is never sent.

  \<^item> \<open>NetWorker\<close>, \<open>WorkerEx\<close>, \<open>EventLoop\<close>, \<open>WorkerApi\<close> (\<open>eventdrive/networker.cpp\<close>, \<open>basecmd.cpp\<close>, the command
    classes, \<open>baseworkerex.cpp\<close>, the acceptors, \<open>iohandlermanager.cpp\<close>): the command queues and wake-ups of a worker,
    refined to lists of waiting commands by the interpretation \<open>worker\<close> (C9), and why no command is forgotten (C20); how connections
    are dealt out (C18); one pulse and the loop as a step relation \<open>loop_step\<close>, the order (C14) and the end (C27) of a shutdown, in turns with any events;
    timers and pipes of an extension.

  \<^item> \<open>Lifecycle\<close>, \<open>ProcessBuffers\<close>, \<open>CarrierEvents\<close>: the composition of the above for the stream connections of a worker.
    \<open>net_wf\<close> says that the pointers between processes, handlers, descriptors, interest list and time-outs agree; \<open>bufs_in\<close> that the
    buffers are within their bounds. In every state reachable by events, calls and time-outs under the conditions of \<open>net_allowed\<close> and \<open>calls_safe\<close>
    (\<open>net_run\<close>) every further operation under them is defined and keeps both (C6); closing frees everything (C15). The weak points are theorems, too: a late connection
    meets a deleted manager (C29), a connection that failed at once dangles, write interest goes stale (C28).

  \<^item> \<open>EndToEnd\<close>: an accepted connection is served by the worker it is dealt to (C7), and WebSocket messages sent over the
    buffers and partial sends of a connection are delivered by the parser at the other end (C5).

  \<^item> \<open>Manager\<close>, \<open>CommandLine\<close>, \<open>Startup\<close> (\<open>eventdrive/manager.cpp\<close>, \<open>networker.cpp\<close>, \<open>iohandlermanager.cpp\<close>): configuration, placement of the logger and the workers (C38), the
    options with \<open>getopt_long\<close> as documented, the datagram of the option \<open>r\<close> to a running logger (C25), start and end of the
    threads with what an early failure leaves behind.

  \<^item> \<open>PoolSocket\<close>, \<open>PoolWorker\<close>, \<open>PoolRun\<close>, \<open>PoolServe\<close>, \<open>PoolManager\<close> (\<open>pooldrive/*\<close>): the calls with time-outs (C26), the threads of a worker as
    step relations \<open>pool_step\<close> and \<open>st_step\<close> with the locale \<open>pool_threads\<close>, interpreted as \<open>sys\<close> and \<open>st\<close>: every process is run
    once (C11, C22), the close message of the master ends every thread (C12), a close without it can hang (C40); one turn of the main loop; a
    connection goes from the acceptor of one process to a thread of another with its port or path (C8);
    the master and its table of processes (C21).

  \<^item> \<open>HttpProtocol\<close>, \<open>HttpClient\<close>, \<open>WsProtocol\<close>, \<open>UrlCode\<close> (\<open>protocols/*\<close>, \<open>eventdrive/httpclient.cpp\<close>): parsing in place in the receive
    block, writing, and their agreement (C13, C30, C32), from the point where the end of a request has been found (\<open>http_found\<close>): the search itself,
    \<open>rstrstr\<close> with a literal, leaves the literal and is undefined on every request (\<open>http_search_undefined\<close>). The client answers once
    (C31), and with the whole body (C24), except that short header texts are read past their end (\<open>hc_short_header_undefined\<close>). The
    handshake (C33, likewise from \<open>ws_found\<close>, \<open>ws_search_undefined\<close>), the incremental frame parser, which does not depend on how the stream is cut (C3) and delivers what was sent (C4).

  \<^item> \<open>Platform\<close>, \<open>LocalTime\<close>, \<open>SysInfo\<close>, \<open>Folders\<close> (\<open>platform/linuxplatform.cpp\<close>), \<open>FileStream\<close>, \<open>Config\<close>
    (\<open>utils/file.cpp\<close>, \<open>utils/gsdmconfig.cpp\<close>), \<open>Logger\<close> (\<open>logging/logger.cpp\<close>), \<open>CryptoUtil\<close> (\<open>utils/crypto.cpp\<close>): text, calendar, system queries,
    a file system with links, binary files by the rules of \<open>std::fstream\<close> on a device that may refuse, configuration files, log lines and hourly files, the code
    around the crypto library (C23, C34 to C37, C39).

  Shared automation: the collections \<open>wrap_simps\<close>, \<open>mem_simps\<close> (Prelude), \<open>heap_simps\<close> (Containers), \<open>net_simps\<close> (Streams), \<open>life_simps\<close> and
  \<open>manager\<close> (Lifecycle), \<open>bufs\<close> (ProcessBuffers).

  Bounds and fuel. \<open>resolve\<close> follows at most 40 links, the limit of the system. \<open>deleteFolder\<close> and \<open>listFolder\<close> take the
  depth of the recursion as fuel; \<open>deleteFolder_exact\<close> shows that the depth of the folder is enough; paths are below \<open>PATH_MAX\<close> characters, longer ones
  fail. \<open>Run\<close> of a worker takes the list of its turns; \<open>shutdown_completes\<close> says that it ends at the latest in the turn whose
  \<open>Clear\<close> is true. The number of bytes a protocol has used is an \<open>int\<close>: the calls of the theorems on protocols get less than 2 GiB. The waits of the pool
  sockets get the answers of the kernel as a list and return when their time is over. Send buffers are at most
  2^28 bytes and receive buffers 2^27 in the theorems on connections: the code takes any 32-bit size, and at these sizes no
  growth computation wraps around. Accept counters are below 2^32, where the code's counter starts again.

  Not modelled. The vendored state-threads library (\<open>3rdparty\<close>), the services of the kernel and the crypto library
  (arguments with their documented behaviour), the example programs in \<open>sources/test\<close>. The virtual members an application
  defines (\<open>Process\<close>, \<open>MainDo\<close>, the handlers of the protocols) are arguments. The guards that lock in a constructor and unlock in
  a destructor: a locked section is one step of the models of threads, which interleave sequentially consistent steps and say
  nothing about weaker orders of memory. \<open>format\<close> and \<open>vFormat\<close>, which hand a format to the C library; each use of them is
  written out where it occurs. Text of log messages, declarations and macros of headers, code that is commented out.
  Accessors that only return a member are inlined.
\<close>

end
